(* ===== verification/Prelude.thy ===== *)
theory Prelude
  imports "HOL-Library.Word" "HOL-Library.Sublist"
begin

text \<open>
  Shared vocabulary of the development: Rust text as lists of Unicode scalar values, the
  parts of the Rust standard library the modelled code calls on strings, slices and
  machine integers, and the generic lemmas about them that the components reuse.

  A Rust \<open>&str\<close> or \<open>String\<close> is a list of scalar values (\<open>ustr\<close>); its length in bytes is
  \<open>byte_len\<close>, because \<open>str::len\<close> counts UTF-8 bytes. Literals of the source are written
  \<open>u ''...''\<close>. A \<open>usize\<close> is a natural number; additions that the source saturates or
  checks at \<open>usize::MAX\<close> are written out with \<open>sat_add\<close> and \<open>checked_add\<close>.
\<close>

named_theorems text_simps \<open>length and shape facts about the string functions\<close>
named_theorems invar_intros \<open>one introduction rule per operation that keeps an invariant\<close>

section \<open>Text\<close>

type_synonym uchar = nat
type_synonym ustr = "uchar list"

definition u :: "string \<Rightarrow> ustr" where
  "u s = map of_char s"

abbreviation (input) NL :: uchar where "NL \<equiv> 10"
abbreviation (input) CR :: uchar where "CR \<equiv> 13"
abbreviation (input) SLASH :: uchar where "SLASH \<equiv> 47"
abbreviation (input) DOT :: uchar where "DOT \<equiv> 46"
abbreviation (input) SPACE :: uchar where "SPACE \<equiv> 32"
abbreviation (input) STAR :: uchar where "STAR \<equiv> 42"

definition len_utf8 :: "uchar \<Rightarrow> nat" where
  "len_utf8 c = (if c < 0x80 then 1 else if c < 0x800 then 2 else if c < 0x10000 then 3 else 4)"

definition byte_len :: "ustr \<Rightarrow> nat" where
  "byte_len s = sum_list (map len_utf8 s)"

definition encode_utf16_char :: "uchar \<Rightarrow> nat list" where
  "encode_utf16_char c =
     (if c < 0x10000 then [c]
      else [0xD800 + (c - 0x10000) div 0x400, 0xDC00 + (c - 0x10000) mod 0x400])"

definition encode_utf16 :: "ustr \<Rightarrow> nat list" where
  "encode_utf16 s = concat (map encode_utf16_char s)"

definition is_whitespace :: "uchar \<Rightarrow> bool" where
  "is_whitespace c \<longleftrightarrow>
     9 \<le> c \<and> c \<le> 13 \<or> c = 0x20 \<or> c = 0x85 \<or> c = 0xA0 \<or> c = 0x1680 \<or>
     0x2000 \<le> c \<and> c \<le> 0x200A \<or> c = 0x2028 \<or> c = 0x2029 \<or> c = 0x202F \<or> c = 0x205F \<or> c = 0x3000"

definition is_control :: "uchar \<Rightarrow> bool" where
  "is_control c \<longleftrightarrow> c < 0x20 \<or> 0x7F \<le> c \<and> c < 0xA0"

definition is_ascii_digit :: "uchar \<Rightarrow> bool" where
  "is_ascii_digit c \<longleftrightarrow> 48 \<le> c \<and> c \<le> 57"

definition is_ascii_uppercase :: "uchar \<Rightarrow> bool" where
  "is_ascii_uppercase c \<longleftrightarrow> 65 \<le> c \<and> c \<le> 90"

definition is_ascii_alphanumeric :: "uchar \<Rightarrow> bool" where
  "is_ascii_alphanumeric c \<longleftrightarrow> is_ascii_digit c \<or> is_ascii_uppercase c \<or> 97 \<le> c \<and> c \<le> 122"

definition to_ascii_lowercase :: "ustr \<Rightarrow> ustr" where
  "to_ascii_lowercase s = map (\<lambda>c. if is_ascii_uppercase c then c + 32 else c) s"

definition trim_start_by :: "(uchar \<Rightarrow> bool) \<Rightarrow> ustr \<Rightarrow> ustr" where
  "trim_start_by P s = dropWhile P s"

definition trim_end_by :: "(uchar \<Rightarrow> bool) \<Rightarrow> ustr \<Rightarrow> ustr" where
  "trim_end_by P s = rev (dropWhile P (rev s))"

definition trim_start :: "ustr \<Rightarrow> ustr" where
  "trim_start s = trim_start_by is_whitespace s"

definition trim_end :: "ustr \<Rightarrow> ustr" where
  "trim_end s = trim_end_by is_whitespace s"

definition trim :: "ustr \<Rightarrow> ustr" where
  "trim s = trim_end (trim_start s)"

definition starts_with :: "'a list \<Rightarrow> 'a list \<Rightarrow> bool" where
  "starts_with s p \<longleftrightarrow> take (length p) s = p"

definition ends_with :: "'a list \<Rightarrow> 'a list \<Rightarrow> bool" where
  "ends_with s p \<longleftrightarrow> length p \<le> length s \<and> drop (length s - length p) s = p"

definition strip_prefix :: "'a list \<Rightarrow> 'a list \<Rightarrow> 'a list option" where
  "strip_prefix s p = (if starts_with s p then Some (drop (length p) s) else None)"

definition strip_suffix :: "'a list \<Rightarrow> 'a list \<Rightarrow> 'a list option" where
  "strip_suffix s p = (if ends_with s p then Some (take (length s - length p) s) else None)"

text \<open>\<open>str::find\<close> and \<open>str::rfind\<close> with a string pattern, as character offsets.\<close>

fun find_sub :: "'a list \<Rightarrow> 'a list \<Rightarrow> nat option" where
  "find_sub p [] = (if p = [] then Some 0 else None)"
| "find_sub p (x # s) = (if starts_with (x # s) p then Some 0 else map_option Suc (find_sub p s))"

fun rfind_sub :: "'a list \<Rightarrow> 'a list \<Rightarrow> nat option" where
  "rfind_sub p [] = (if p = [] then Some 0 else None)"
| "rfind_sub p (x # s) =
     (case rfind_sub p s of
        Some i \<Rightarrow> Some (Suc i)
      | None \<Rightarrow> if starts_with (x # s) p then Some 0 else None)"

definition split_once :: "ustr \<Rightarrow> ustr \<Rightarrow> (ustr \<times> ustr) option" where
  "split_once s p = map_option (\<lambda>i. (take i s, drop (i + length p) s)) (find_sub p s)"

text \<open>\<open>str::split\<close> with a character predicate: always at least one piece.\<close>

fun split_by :: "(uchar \<Rightarrow> bool) \<Rightarrow> ustr \<Rightarrow> ustr list" where
  "split_by P [] = [[]]"
| "split_by P (c # s) =
     (if P c then [] # split_by P s
      else (c # hd (split_by P s)) # tl (split_by P s))"

definition split_on :: "uchar \<Rightarrow> ustr \<Rightarrow> ustr list" where
  "split_on c s = split_by (\<lambda>x. x = c) s"

fun join :: "ustr \<Rightarrow> ustr list \<Rightarrow> ustr" where
  "join sep [] = []"
| "join sep [x] = x"
| "join sep (x # y # ys) = x @ sep @ join sep (y # ys)"

text \<open>
  \<open>str::lines\<close>: pieces between newlines, a carriage return before the newline dropped, and
  no final piece after a trailing newline.
\<close>

definition strip_cr :: "ustr \<Rightarrow> ustr" where
  "strip_cr s = (case strip_suffix s [CR] of Some t \<Rightarrow> t | None \<Rightarrow> s)"

definition str_lines :: "ustr \<Rightarrow> ustr list" where
  "str_lines s =
     (let ps = split_on NL s
      in map strip_cr (butlast ps) @ (if last ps = [] then [] else [last ps]))"

text \<open>
  \<open>str::replace\<close>: non-overlapping occurrences from left to right. An empty pattern occurs
  before every character and at the end.
\<close>

function replace_ne :: "'a list \<Rightarrow> 'a list \<Rightarrow> 'a list \<Rightarrow> 'a list" where
  "replace_ne p r [] = []"
| "replace_ne p r (x # s) =
     (if p \<noteq> [] \<and> starts_with (x # s) p then r @ replace_ne p r (drop (length p) (x # s))
      else x # replace_ne p r s)"
  by pat_completeness auto
termination
  by (relation "measure (\<lambda>(p, r, s). length s)") auto

definition str_replace :: "'a list \<Rightarrow> 'a list \<Rightarrow> 'a list \<Rightarrow> 'a list" where
  "str_replace s p r =
     (if p = [] then r @ concat (map (\<lambda>c. c # r) s) else replace_ne p r s)"

text \<open>\<open>str::match_indices\<close>: the start offsets of the occurrences \<open>str::replace\<close> replaces.\<close>

function match_from :: "'a list \<Rightarrow> nat \<Rightarrow> 'a list \<Rightarrow> nat list" where
  "match_from p i [] = (if p = [] then [i] else [])"
| "match_from p i (x # s) =
     (if p = [] then i # match_from p (Suc i) s
      else if starts_with (x # s) p
      then i # match_from p (i + length p) (drop (length p) (x # s))
      else match_from p (Suc i) s)"
  by pat_completeness auto
termination
  by (relation "measure (\<lambda>(p, i, s). length s)") auto

definition match_indices :: "'a list \<Rightarrow> 'a list \<Rightarrow> nat list" where
  "match_indices s p = match_from p 0 s"

text \<open>Decimal rendering of a \<open>usize\<close> in \<open>format!\<close>.\<close>

fun dec :: "nat \<Rightarrow> ustr" where
  "dec n = (if n < 10 then [48 + n] else dec (n div 10) @ [48 + n mod 10])"

declare dec.simps [simp del]

text \<open>What a concrete text computation unfolds to.\<close>

lemmas text_defs =
  u_def trim_def trim_start_def trim_end_def trim_start_by_def trim_end_by_def is_whitespace_def
  starts_with_def ends_with_def strip_prefix_def strip_suffix_def split_once_def split_on_def
  to_ascii_lowercase_def is_ascii_uppercase_def is_ascii_digit_def is_control_def

text \<open>\<open>str::parse::<u64>\<close>.\<close>

fun u64_digits :: "nat \<Rightarrow> ustr \<Rightarrow> nat option" where
  "u64_digits acc [] = Some acc"
| "u64_digits acc (c # s) =
     (if is_ascii_digit c \<and> acc * 10 + (c - 48) < 2 ^ 64 then u64_digits (acc * 10 + (c - 48)) s
      else None)"

definition parse_u64 :: "ustr \<Rightarrow> nat option" where
  "parse_u64 s =
     (let digits = (case s of c # r \<Rightarrow> if c = 43 then r else s | [] \<Rightarrow> s)
      in if digits = [] then None else u64_digits 0 digits)"

text \<open>A hexadecimal digit, and the two of a byte (\<open>{:02x}\<close>).\<close>

definition hex_digit :: "nat \<Rightarrow> uchar" where
  "hex_digit n = (if n < 10 then 48 + n else 87 + n)"

definition hex2 :: "nat \<Rightarrow> ustr" where
  "hex2 n = [hex_digit (n div 16), hex_digit (n mod 16)]"

section \<open>Machine integers\<close>

definition usize_max :: nat where
  "usize_max = 2 ^ 64 - 1"

definition sat_add :: "nat \<Rightarrow> nat \<Rightarrow> nat" where
  "sat_add a b = min usize_max (a + b)"

definition sat_mul :: "nat \<Rightarrow> nat \<Rightarrow> nat" where
  "sat_mul a b = min usize_max (a * b)"

definition checked_add :: "nat \<Rightarrow> nat \<Rightarrow> nat option" where
  "checked_add a b = (if a + b \<le> usize_max then Some (a + b) else None)"

definition checked_mul :: "nat \<Rightarrow> nat \<Rightarrow> nat option" where
  "checked_mul a b = (if a * b \<le> usize_max then Some (a * b) else None)"

text \<open>\<open>usize::saturating_add_signed\<close>.\<close>

definition sat_add_signed :: "nat \<Rightarrow> int \<Rightarrow> nat" where
  "sat_add_signed a d = min usize_max (nat (int a + d))"

section \<open>Loops\<close>

text \<open>A \<open>for\<close> loop whose body may return early with an error, and \<open>Iterator::find_map\<close>.\<close>

fun try_fold :: "('s \<Rightarrow> 'a \<Rightarrow> 'e + 's) \<Rightarrow> 's \<Rightarrow> 'a list \<Rightarrow> 'e + 's" where
  "try_fold f s [] = Inr s"
| "try_fold f s (x # xs) = (case f s x of Inl e \<Rightarrow> Inl e | Inr s' \<Rightarrow> try_fold f s' xs)"

lemma try_fold_cong [fundef_cong]:
  "xs = ys \<Longrightarrow> s = t \<Longrightarrow> (\<And>x r. x \<in> set ys \<Longrightarrow> f r x = g r x) \<Longrightarrow> try_fold f s xs = try_fold g t ys"
  by (induction xs arbitrary: ys s t) (auto split: sum.splits)

lemma try_fold_inv:
  "try_fold f s xs = Inr t \<Longrightarrow> I s \<Longrightarrow> (\<And>r x r'. x \<in> set xs \<Longrightarrow> I r \<Longrightarrow> f r x = Inr r' \<Longrightarrow> I r') \<Longrightarrow> I t"
proof (induction xs arbitrary: s)
  case (Cons x xs)
  from Cons.prems(1) obtain s' where s': "f s x = Inr s'" and rest: "try_fold f s' xs = Inr t"
    by (auto split: sum.splits)
  have "I s'" using Cons.prems(2,3) s' by (meson list.set_intros(1))
  then show ?case using rest Cons.prems(3) by (intro Cons.IH [OF rest]) (auto intro: list.set_intros(2))
qed simp

lemma try_fold_foldl:
  "try_fold f s xs = Inr t \<Longrightarrow> (\<And>r x r'. x \<in> set xs \<Longrightarrow> f r x = Inr r' \<Longrightarrow> r' = g r x) \<Longrightarrow> t = foldl g s xs"
proof (induction xs arbitrary: s)
  case (Cons x xs)
  from Cons.prems(1) obtain s' where s': "f s x = Inr s'" and rest: "try_fold f s' xs = Inr t"
    by (auto split: sum.splits)
  have "s' = g s x" using Cons.prems(2) s' by (meson list.set_intros(1))
  moreover have "t = foldl g s' xs" by (rule Cons.IH [OF rest]) (auto intro: Cons.prems(2))
  ultimately show ?case by simp
qed simp

lemma try_fold_mono:
  "try_fold f s xs = Inr t \<Longrightarrow> (\<And>r x r'. f r x = Inr r' \<Longrightarrow> g r x = Inr r') \<Longrightarrow> try_fold g s xs = Inr t"
  by (induction xs arbitrary: s) (auto split: sum.splits)

lemma try_fold_append:
  "try_fold f s (xs @ ys) = (case try_fold f s xs of Inl e \<Rightarrow> Inl e | Inr t \<Rightarrow> try_fold f t ys)"
  by (induction xs arbitrary: s) (auto split: sum.splits)

lemma try_fold_total:
  "(\<And>s x. x \<in> set xs \<Longrightarrow> \<exists>t. f s x = Inr t) \<Longrightarrow> \<exists>t. try_fold f s xs = Inr t"
proof (induction xs arbitrary: s)
  case (Cons x xs)
  then obtain t where "f s x = Inr t" by (meson list.set_intros(1))
  moreover have "\<exists>t'. try_fold f t xs = Inr t'" by (rule Cons.IH) (simp add: Cons.prems)
  ultimately show ?case by simp
qed simp

fun find_map :: "('a \<Rightarrow> 'b option) \<Rightarrow> 'a list \<Rightarrow> 'b option" where
  "find_map f [] = None"
| "find_map f (x # xs) = (case f x of None \<Rightarrow> find_map f xs | Some y \<Rightarrow> Some y)"

lemma find_map_Some: "find_map f xs = Some y \<Longrightarrow> \<exists>x\<in>set xs. f x = Some y"
  by (induction xs) (auto split: option.splits)

lemma find_map_None: "find_map f xs = None \<longleftrightarrow> (\<forall>x\<in>set xs. f x = None)"
  by (induction xs) (auto split: option.splits)

text \<open>Index loops that run up or down keep what each iteration keeps.\<close>

lemma up_loop:
  assumes "I 0 s" and "\<And>i r. i < m \<Longrightarrow> I i r \<Longrightarrow> I (Suc i) (f r i)"
  shows "I m (foldl f s [0..<m])"
proof -
  have "n \<le> m \<Longrightarrow> I n (foldl f s [0..<n])" for n
    by (induction n) (use assms in auto)
  then show ?thesis by simp
qed

lemma down_loop:
  "I m s \<Longrightarrow> (\<And>i r. i < m \<Longrightarrow> I (Suc i) r \<Longrightarrow> I i (f r i)) \<Longrightarrow> I 0 (foldl f s (rev [0..<m]))"
proof (induction m arbitrary: s)
  case (Suc m)
  then have "I m (f s m)" by simp
  then have "I 0 (foldl f (f s m) (rev [0..<m]))" by (rule Suc.IH) (use Suc.prems in simp)
  then show ?case by simp
qed simp

section \<open>Lemmas on text\<close>

lemma starts_with_prefix: "starts_with s p \<longleftrightarrow> prefix p s"
  by (metis append_eq_conv_conj append_take_drop_id prefix_def starts_with_def)

lemma ends_with_suffix: "ends_with s p \<longleftrightarrow> suffix p s"
proof
  assume h: "ends_with s p"
  then have "s = take (length s - length p) s @ p"
    by (metis append_take_drop_id ends_with_def)
  then show "suffix p s" by (metis suffixI)
next
  assume "suffix p s"
  then show "ends_with s p" by (auto simp: suffix_def ends_with_def)
qed

lemma starts_with_Nil [simp]: "starts_with s []"
  by (simp add: starts_with_def)

lemma starts_with_length: "starts_with s p \<Longrightarrow> length p \<le> length s"
  by (metis length_take min.cobounded1 starts_with_def)

lemma strip_prefix_Some: "strip_prefix s p = Some r \<longleftrightarrow> s = p @ r"
  by (auto simp: strip_prefix_def starts_with_def) (metis append_take_drop_id)

lemma strip_prefix_append [simp]: "strip_prefix (p @ r) p = Some r" "strip_prefix p p = Some []"
  by (simp_all add: strip_prefix_Some)

lemma strip_suffix_Some: "strip_suffix s p = Some r \<longleftrightarrow> s = r @ p"
  by (auto simp: strip_suffix_def ends_with_suffix suffix_def)

lemma strip_suffix_None: "strip_suffix s p = None \<longleftrightarrow> \<not> suffix p s"
  by (simp add: strip_suffix_def ends_with_suffix)

lemma find_sub_Some:
  "find_sub p s = Some i \<Longrightarrow> i + length p \<le> length s \<and> take (length p) (drop i s) = p"
proof (induction s arbitrary: i)
  case (Cons x s)
  then show ?case
    by (auto simp: starts_with_def dest: starts_with_length split: if_splits)
      (metis length_Cons length_take min.cobounded1)
qed (auto split: if_splits)

lemma find_sub_first:
  "find_sub p s = Some i \<Longrightarrow> j < i \<Longrightarrow> \<not> starts_with (drop j s) p"
proof (induction s arbitrary: i j)
  case (Cons x s)
  then show ?case by (cases j) (auto split: if_splits)
qed (auto split: if_splits)

lemma find_sub_None: "find_sub p s = None \<longleftrightarrow> (\<forall>i\<le>length s. \<not> starts_with (drop i s) p)"
proof (induction s)
  case Nil
  then show ?case by (auto simp: starts_with_def)
next
  case (Cons x s)
  show ?case
  proof (cases "starts_with (x # s) p")
    case True
    then show ?thesis by (auto intro!: exI [of _ 0])
  next
    case False
    with Cons show ?thesis
      by (auto simp: less_Suc_eq_0_disj all_conj_distrib nat_less_le)
        (metis Suc_le_D Suc_le_mono drop0 drop_Suc_Cons not0_implies_Suc)+
  qed
qed

lemma trim_end_by_append: "\<exists>c\<in>set t. \<not> P c \<Longrightarrow> trim_end_by P (s @ t) = s @ trim_end_by P t"
  by (auto simp: trim_end_by_def dropWhile_append)

lemma trim_end_by_idem: "trim_end_by P (trim_end_by P s) = trim_end_by P s"
  by (simp add: trim_end_by_def dropWhile_idem)

lemma trim_end_by_head: "\<not> P c \<Longrightarrow> \<exists>t. trim_end_by P (c # s) = c # t"
  by (cases "\<exists>x\<in>set s. \<not> P x") (auto simp: trim_end_by_def dropWhile_append intro: exI [of _ "rev (dropWhile P (rev s))"])

lemma trim_trim_end: "trim (trim_end s) = trim s"
proof (cases "\<exists>c\<in>set s. \<not> is_whitespace c")
  case True
  then obtain c t where y: "dropWhile is_whitespace s = c # t" "\<not> is_whitespace c"
    by (metis dropWhile_eq_Nil_conv hd_dropWhile list.collapse)
  have "s = takeWhile is_whitespace s @ c # t" using y(1) by (metis takeWhile_dropWhile_id)
  then have "trim_end s = takeWhile is_whitespace s @ trim_end (c # t)"
    using trim_end_by_append [of "c # t" is_whitespace] y(2) unfolding trim_end_def by (metis list.set_intros(1))
  moreover obtain t' where "trim_end (c # t) = c # t'" using trim_end_by_head [of is_whitespace, OF y(2)] unfolding trim_end_def by blast
  moreover have "dropWhile is_whitespace (takeWhile is_whitespace s @ c # t') = c # t'" for t'
    using y(2) by (subst dropWhile_append2) (auto dest: set_takeWhileD)
  ultimately have "trim_start (trim_end s) = trim_end (c # t)"
    by (simp add: trim_start_def trim_start_by_def)
  then show ?thesis
    by (simp add: trim_def trim_start_def trim_start_by_def y(1) trim_end_def trim_end_by_idem)
next
  case False
  then have "trim_end s = []" "trim_start s = []"
    by (auto simp: trim_end_def trim_end_by_def trim_start_def trim_start_by_def)
  moreover have "trim_start [] = []" by (simp add: trim_start_def trim_start_by_def)
  ultimately show ?thesis by (simp add: trim_def)
qed

lemma split_by_ne [simp]: "split_by P s \<noteq> []"
  by (cases s) auto

lemma split_on_ne [simp]: "split_on c s \<noteq> []"
  by (simp add: split_on_def)

lemma split_by_pieces: "p \<in> set (split_by P s) \<Longrightarrow> x \<in> set p \<Longrightarrow> \<not> P x"
proof (induction s arbitrary: p)
  case (Cons c s)
  have hd: "hd (split_by P s) \<in> set (split_by P s)" by (rule hd_in_set) simp
  moreover have "set (tl (split_by P s)) \<subseteq> set (split_by P s)"
    by (simp add: list.set_sel(2) subsetI)
  ultimately show ?case using Cons.prems Cons.IH [OF hd] Cons.IH by (auto split: if_splits)
qed simp

lemma split_by_subset: "p \<in> set (split_by P s) \<Longrightarrow> set p \<subseteq> set s"
proof (induction s arbitrary: p)
  case (Cons c s)
  have first: "set (hd (split_by P s)) \<subseteq> set s" by (rule Cons.IH) simp
  have rest: "set q \<subseteq> set s" if "q \<in> set (tl (split_by P s))" for q
    using that by (intro Cons.IH) (simp add: list.set_sel(2))
  show ?case
  proof (cases "P c")
    case True
    then show ?thesis using Cons by auto
  next
    case False
    then have "p = c # hd (split_by P s) \<or> p \<in> set (tl (split_by P s))" using Cons.prems by simp
    then show ?thesis using first rest by (metis list.set_intros(2) list.simps(15) insert_mono subset_trans subsetI)
  qed
qed simp

lemma split_on_pieces: "p \<in> set (split_on c s) \<Longrightarrow> c \<notin> set p"
  unfolding split_on_def using split_by_pieces [of p "\<lambda>x. x = c" s c] by blast

lemma join_Cons: "ps \<noteq> [] \<Longrightarrow> join sep (p # ps) = p @ sep @ join sep ps"
  by (cases ps) auto

lemma join_Cons_char: "ps \<noteq> [] \<Longrightarrow> join sep ((c # hd ps) # tl ps) = c # join sep ps"
  by (cases ps; cases "tl ps") (auto simp: join_Cons)

lemma join_snoc: "ls \<noteq> [] \<Longrightarrow> join sep (ls @ [l]) = join sep ls @ sep @ l"
  by (induction ls rule: induct_list012) auto

lemma split_by_snoc:
  "split_by P (s @ [c]) =
     (if P c then split_by P s @ [[]] else butlast (split_by P s) @ [last (split_by P s) @ [c]])"
proof (induction s)
  case (Cons x s)
  obtain h t where "split_by P s = h # t" by (cases "split_by P s") auto
  with Cons show ?case by (auto split: if_splits)
qed simp

lemma last_split_by: "last (split_by P s) = [] \<longleftrightarrow> s = [] \<or> P (last s)"
  by (induction s rule: rev_induct) (auto simp: split_by_snoc)

lemma split_on_append_sep: "split_on c (s @ c # t) = split_on c s @ split_on c t"
  unfolding split_on_def by (induction s) auto

text \<open>Splitting on a separator and joining with it is the identity.\<close>

lemma join_split_on: "join [c] (split_on c s) = s"
  unfolding split_on_def
  by (induction s) (auto simp: join_Cons join_Cons_char)

lemma split_by_no_sep: "(\<forall>x\<in>set s. \<not> P x) \<Longrightarrow> split_by P s = [s]"
  by (induction s) auto

lemma split_by_append_sep:
  "(\<forall>x\<in>set s. \<not> P x) \<Longrightarrow> P c \<Longrightarrow> split_by P (s @ c # t) = s # split_by P t"
  by (induction s) auto

text \<open>Joining pieces free of the separator and splitting again is the identity.\<close>

lemma split_on_join:
  "ps \<noteq> [] \<Longrightarrow> \<forall>p\<in>set ps. c \<notin> set p \<Longrightarrow> split_on c (join [c] ps) = ps"
proof (induction ps rule: induct_list012)
  case (2 p)
  then show ?case by (auto simp: split_on_def intro!: split_by_no_sep)
next
  case (3 p q ps)
  then have "split_on c (p @ c # join [c] (q # ps)) = p # split_on c (join [c] (q # ps))"
    unfolding split_on_def by (intro split_by_append_sep) auto
  with 3 show ?case by simp
qed simp

lemma replace_ne_absent:
  "find_sub p s = None \<Longrightarrow> replace_ne p r s = s"
proof (induction s)
  case (Cons x s)
  then show ?case by (auto split: if_splits)
qed simp

lemma byte_len_append [text_simps]: "byte_len (s @ t) = byte_len s + byte_len t"
  by (simp add: byte_len_def)

lemma byte_len_Nil [simp]: "byte_len [] = 0"
  by (simp add: byte_len_def)

lemma byte_len_Cons [text_simps]: "byte_len (c # s) = len_utf8 c + byte_len s"
  by (simp add: byte_len_def)

lemma len_utf8_bounds: "1 \<le> len_utf8 c" "len_utf8 c \<le> 4"
  by (simp_all add: len_utf8_def)

lemma byte_len_take_le: "byte_len (take n s) \<le> byte_len s"
  by (metis append_take_drop_id byte_len_append le_add1)

lemma length_le_byte_len: "length s \<le> byte_len s"
proof (induction s)
  case (Cons c s)
  then show ?case using len_utf8_bounds(1) [of c] by (simp add: byte_len_Cons)
qed simp

lemma ascii_byte_len: "\<forall>c\<in>set s. c < 0x80 \<Longrightarrow> byte_len s = length s"
  by (induction s) (auto simp: byte_len_Cons len_utf8_def)

section \<open>Folds that keep an invariant\<close>

text \<open>
  The contract of a component that is driven one input at a time and promises an invariant
  of its state after every input. The provider proves the one-step law; the client gets the
  law for any sequence of inputs, from any state that satisfies it.
\<close>

locale keeps_invariant =
  fixes step :: "'s \<Rightarrow> 'a \<Rightarrow> 's"
    and inv :: "'s \<Rightarrow> bool"
  assumes step_inv: "inv s \<Longrightarrow> inv (step s a)"
begin

lemma run_inv: "inv s \<Longrightarrow> inv (foldl step s xs)"
  by (induction xs arbitrary: s) (auto intro: step_inv)

lemma run_prefixes_inv: "inv s \<Longrightarrow> n \<le> length xs \<Longrightarrow> inv (foldl step s (take n xs))"
  by (rule run_inv)

end

text \<open>
  A budget that operations only spend: each step takes the remaining amount and returns what
  is left. A run over any number of inputs never leaves more than it started with.
\<close>

locale spends_budget =
  fixes spend :: "'a \<Rightarrow> nat \<Rightarrow> 'r \<times> nat"
  assumes spend_le: "snd (spend a b) \<le> b"
begin

primrec spend_all :: "'a list \<Rightarrow> nat \<Rightarrow> 'r list \<times> nat" where
  "spend_all [] b = ([], b)"
| "spend_all (a # as) b =
     (let (r, b') = spend a b; (rs, b'') = spend_all as b' in (r # rs, b''))"

lemma spend_all_le: "snd (spend_all as b) \<le> b"
proof (induction as arbitrary: b)
  case (Cons a as)
  have "snd (spend_all as (snd (spend a b))) \<le> snd (spend a b)" by (rule Cons.IH)
  also have "\<dots> \<le> b" by (rule spend_le)
  finally show ?case by (simp add: case_prod_unfold Let_def)
qed simp

end

text \<open>A refusal for lack of budget leaves the amount as it was.\<close>

locale refuses_cleanly = spends_budget spend for spend :: "'a \<Rightarrow> nat \<Rightarrow> 'r \<times> nat" +
  fixes refused :: "'r \<Rightarrow> bool"
  assumes refused_unchanged: "refused (fst (spend a b)) \<Longrightarrow> snd (spend a b) = b"
begin

lemma spend_all_refused:
  "list_all refused (fst (spend_all as b)) \<Longrightarrow> snd (spend_all as b) = b"
proof (induction as arbitrary: b)
  case (Cons a as)
  then have "snd (spend a b) = b"
    by (intro refused_unchanged) (simp add: case_prod_unfold Let_def)
  with Cons show ?case by (simp add: case_prod_unfold Let_def)
qed simp

end

end
