(* ===== verification/Net_Address.thy ===== *)
theory Net_Address
  imports Prelude
begin

unbundle bit_operations_syntax

text \<open>
  Address classification (\<open>crates/net/src/classification.rs\<close>): which IP addresses and
  hostnames count as the public internet. IPv4 and IPv6 addresses are \<open>32 word\<close> and
  \<open>128 word\<close> values, the \<open>u32\<close> and \<open>u128\<close> the code works on; the masks are the code's own
  shifts. The textual parser of \<open>std::net::IpAddr\<close> that \<open>classify_hostname\<close> calls is
  modelled digit by digit. The main results give the set of public IPv4 and IPv6 addresses
  as a table of address ranges.
\<close>

section \<open>Addresses and their text\<close>

datatype IpAddr = V4 "32 word" | V6 "128 word"

text \<open>
  \<open>FromStr for IpAddr\<close>. Each reader takes the remaining text and returns a value with the
  rest, or \<open>None\<close> without consuming anything.
\<close>

definition digit_val :: "nat \<Rightarrow> uchar \<Rightarrow> nat option" where
  "digit_val radix c =
     (let d = (if 48 \<le> c \<and> c \<le> 57 then c - 48
               else if 97 \<le> c \<and> c \<le> 122 then c - 87
               else if 65 \<le> c \<and> c \<le> 90 then c - 55
               else 36)
      in if d < radix then Some d else None)"

fun read_digits :: "nat \<Rightarrow> nat \<Rightarrow> nat \<Rightarrow> nat \<Rightarrow> nat \<Rightarrow> ustr \<Rightarrow> (nat \<times> nat \<times> ustr) option" where
  "read_digits radix max_digits max_value count acc [] = Some (count, acc, [])"
| "read_digits radix max_digits max_value count acc (c # s) =
     (case digit_val radix c of
        None \<Rightarrow> Some (count, acc, c # s)
      | Some d \<Rightarrow>
          if acc * radix + d > max_value \<or> count + 1 > max_digits then None
          else read_digits radix max_digits max_value (count + 1) (acc * radix + d) s)"

definition read_number :: "nat \<Rightarrow> nat \<Rightarrow> nat \<Rightarrow> bool \<Rightarrow> ustr \<Rightarrow> (nat \<times> ustr) option" where
  "read_number radix max_digits max_value allow_zero_prefix s =
     (case read_digits radix max_digits max_value 0 0 s of
        None \<Rightarrow> None
      | Some (count, v, rest) \<Rightarrow>
          if count = 0 then None
          else if \<not> allow_zero_prefix \<and> hd s = 48 \<and> count > 1 then None
          else Some (v, rest))"

definition read_given_char :: "uchar \<Rightarrow> ustr \<Rightarrow> ustr option" where
  "read_given_char c s = (case s of x # r \<Rightarrow> if x = c then Some r else None | [] \<Rightarrow> None)"

definition read_separator ::
  "uchar \<Rightarrow> nat \<Rightarrow> (ustr \<Rightarrow> ('a \<times> ustr) option) \<Rightarrow> ustr \<Rightarrow> ('a \<times> ustr) option" where
  "read_separator sep i inner s =
     (if i > 0 then Option.bind (read_given_char sep s) inner else inner s)"

fun read_octets :: "nat list \<Rightarrow> ustr \<Rightarrow> (nat list \<times> ustr) option" where
  "read_octets [] s = Some ([], s)"
| "read_octets (i # is) s =
     (case read_separator DOT i (read_number 10 3 255 False) s of
        None \<Rightarrow> None
      | Some (v, s') \<Rightarrow> map_option (\<lambda>(vs, r). (v # vs, r)) (read_octets is s'))"

definition read_ipv4_addr :: "ustr \<Rightarrow> (32 word \<times> ustr) option" where
  "read_ipv4_addr s =
     map_option (\<lambda>(vs, r). (word_of_nat (foldl (\<lambda>a v. a * 256 + v) 0 vs), r)) (read_octets [0, 1, 2, 3] s)"

text \<open>
  The slots still to be filled are given by their indices; an embedded IPv4 tail needs two of
  them.
\<close>

fun read_groups :: "nat list \<Rightarrow> ustr \<Rightarrow> nat list \<times> bool \<times> ustr" where
  "read_groups [] s = ([], False, s)"
| "read_groups (i # is) s =
     (case (if is \<noteq> [] then read_separator 58 i read_ipv4_addr s else None) of
        Some (a, r) \<Rightarrow> ([unat a div 65536, unat a mod 65536], True, r)
      | None \<Rightarrow>
          (case read_separator 58 i (read_number 16 4 65535 True) s of
             None \<Rightarrow> ([], False, s)
           | Some (g, r) \<Rightarrow>
               (let (gs, v4, r') = read_groups is r in (g # gs, v4, r'))))"

definition groups_value :: "nat list \<Rightarrow> 128 word" where
  "groups_value gs = word_of_nat (foldl (\<lambda>a g. a * 65536 + g) 0 gs)"

definition read_ipv6_addr :: "ustr \<Rightarrow> (128 word \<times> ustr) option" where
  "read_ipv6_addr s =
     (let (head, head_v4, r) = read_groups [0, 1, 2, 3, 4, 5, 6, 7] s
      in if length head = 8 then Some (groups_value head, r)
         else if head_v4 then None
         else case Option.bind (read_given_char 58 r) (read_given_char 58) of
                None \<Rightarrow> None
              | Some r' \<Rightarrow>
                  (let (tail, _, r'') = read_groups (take (8 - (length head + 1)) [0, 1, 2, 3, 4, 5, 6]) r'
                   in Some (groups_value
                              (head @ replicate (8 - length head - length tail) 0 @ tail), r'')))"

definition parse_ip :: "ustr \<Rightarrow> IpAddr option" where
  "parse_ip s =
     (case (case read_ipv4_addr s of
              Some (a, r) \<Rightarrow> Some (V4 a, r)
            | None \<Rightarrow> map_option (\<lambda>(a, r). (V6 a, r)) (read_ipv6_addr s)) of
        Some (a, []) \<Rightarrow> Some a
      | _ \<Rightarrow> None)"

lemmas parse_ip_defs =
  parse_ip_def read_ipv4_addr_def read_ipv6_addr_def read_separator_def read_number_def
  digit_val_def read_given_char_def groups_value_def

section \<open>Classification\<close>

datatype IpClassification =
    Public | Unspecified | Loopback | Private | LinkLocal | Shared | Documentation
  | Benchmarking | Multicast | Reserved

datatype HostClassification =
    PublicName | SpecialUseName | Ip IpClassification | Invalid

definition is_public :: "IpClassification \<Rightarrow> bool" where
  "is_public c \<longleftrightarrow> c = Public"

definition from_be_bytes :: "8 word \<times> 8 word \<times> 8 word \<times> 8 word \<Rightarrow> 32 word" where
  "from_be_bytes n =
     (case n of (a, b, c, d) \<Rightarrow>
        push_bit 24 (ucast a) OR push_bit 16 (ucast b) OR push_bit 8 (ucast c) OR ucast d)"

definition in_v4 :: "32 word \<Rightarrow> 8 word \<times> 8 word \<times> 8 word \<times> 8 word \<Rightarrow> nat \<Rightarrow> bool" where
  "in_v4 v network bits =
     (let network = from_be_bytes network;
          mask = (if bits = 0 then 0 else push_bit (32 - bits) (- 1))
      in v AND mask = network AND mask)"

definition in_v6 :: "128 word \<Rightarrow> 128 word \<Rightarrow> nat \<Rightarrow> bool" where
  "in_v6 v network bits =
     (let mask = (if bits = 0 then 0 else push_bit (128 - bits) (- 1))
      in v AND mask = network AND mask)"

definition v6_network :: "16 word \<Rightarrow> 16 word \<Rightarrow> 16 word \<Rightarrow> 16 word \<Rightarrow> 128 word" where
  "v6_network first second third fourth =
     push_bit 112 (ucast first) OR push_bit 96 (ucast second) OR
     push_bit 80 (ucast third) OR push_bit 64 (ucast fourth)"

definition classify_ipv4 :: "32 word \<Rightarrow> IpClassification" where
  "classify_ipv4 v =
     (if in_v4 v (0, 0, 0, 0) 8 then Unspecified
      else if in_v4 v (10, 0, 0, 0) 8 \<or> in_v4 v (172, 16, 0, 0) 12 \<or> in_v4 v (192, 168, 0, 0) 16
      then Private
      else if in_v4 v (100, 64, 0, 0) 10 then Shared
      else if in_v4 v (127, 0, 0, 0) 8 then Loopback
      else if in_v4 v (169, 254, 0, 0) 16 then LinkLocal
      else if in_v4 v (192, 0, 2, 0) 24 \<or> in_v4 v (198, 51, 100, 0) 24 \<or> in_v4 v (203, 0, 113, 0) 24
      then Documentation
      else if in_v4 v (198, 18, 0, 0) 15 then Benchmarking
      else if in_v4 v (224, 0, 0, 0) 4 then Multicast
      else if in_v4 v (192, 0, 0, 0) 24 \<or> in_v4 v (192, 88, 99, 0) 24 \<or> in_v4 v (240, 0, 0, 0) 4
      then Reserved
      else Public)"

text \<open>\<open>Ipv6Addr::to_ipv4_mapped\<close>: the form \<open>::ffff:a.b.c.d\<close>.\<close>

definition to_ipv4_mapped :: "128 word \<Rightarrow> 32 word option" where
  "to_ipv4_mapped a = (if drop_bit 32 a = 0xFFFF then Some (ucast a) else None)"

definition classify_ipv6 :: "128 word \<Rightarrow> IpClassification" where
  "classify_ipv6 v =
     (case to_ipv4_mapped v of
        Some mapped \<Rightarrow> classify_ipv4 mapped
      | None \<Rightarrow>
          if v = 0 then Unspecified
          else if v = 1 then Loopback
          else if in_v6 v (v6_network 0xfc00 0 0 0) 7 then Private
          else if in_v6 v (v6_network 0xfe80 0 0 0) 10 then LinkLocal
          else if in_v6 v (v6_network 0xff00 0 0 0) 8 then Multicast
          else if in_v6 v (v6_network 0x2001 0x0db8 0 0) 32 \<or> in_v6 v (v6_network 0x3fff 0 0 0) 20
          then Documentation
          else if in_v6 v (v6_network 0x2001 0x0002 0 0) 48 then Benchmarking
          else if in_v6 v (v6_network 0x0100 0 0 0) 64 \<or>
                  in_v6 v (v6_network 0x0064 0xff9b 1 0) 48 \<or>
                  in_v6 v (v6_network 0x2001 0 0 0) 23 \<or>
                  in_v6 v (v6_network 0x2002 0 0 0) 16 \<or>
                  in_v6 v (v6_network 0x5f00 0 0 0) 16 \<or>
                  \<not> in_v6 v (v6_network 0x2000 0 0 0) 3
          then Reserved
          else Public)"

definition classify_ip :: "IpAddr \<Rightarrow> IpClassification" where
  "classify_ip address = (case address of V4 a \<Rightarrow> classify_ipv4 a | V6 a \<Rightarrow> classify_ipv6 a)"

definition special_suffixes :: "ustr list" where
  "special_suffixes =
     [u ''localhost'', u ''local'', u ''localdomain'', u ''lan'', u ''home.arpa'', u ''test'',
      u ''invalid'', u ''example'']"

definition normalize_hostname :: "ustr \<Rightarrow> ustr" where
  "normalize_hostname hostname =
     to_ascii_lowercase
       (trim_end_by (\<lambda>c. c = DOT)
         (trim_end_by (\<lambda>c. c = 93) (trim_start_by (\<lambda>c. c = 91) (trim hostname))))"

definition classify_hostname :: "ustr \<Rightarrow> HostClassification" where
  "classify_hostname hostname =
     (let normalized = normalize_hostname hostname
      in if normalized = [] then Invalid
         else case parse_ip normalized of
                Some address \<Rightarrow> Ip (classify_ip address)
              | None \<Rightarrow>
                  if \<exists>suffix\<in>set special_suffixes.
                       normalized = suffix \<or>
                       (case strip_suffix normalized suffix of
                          Some front \<Rightarrow> ends_with front [DOT]
                        | None \<Rightarrow> False)
                  then SpecialUseName
                  else PublicName)"

section \<open>Blocks as ranges\<close>

lemma masked_eq_iff:
  fixes x y :: "'a::len word"
  shows "(x AND push_bit n (- 1)) = (y AND push_bit n (- 1)) \<longleftrightarrow> drop_bit n x = drop_bit n y"
proof
  assume h: "(x AND push_bit n (- 1)) = (y AND push_bit n (- 1))"
  show "drop_bit n x = drop_bit n y"
  proof (rule bit_eqI)
    fix k
    assume "possible_bit TYPE('a word) k"
    have "bit (x AND push_bit n (- 1)) (n + k) = bit (y AND push_bit n (- 1)) (n + k)"
      using h by simp
    then show "bit (drop_bit n x) k = bit (drop_bit n y) k"
      by (auto simp: bit_simps dest: bit_imp_le_length)
  qed
next
  assume h: "drop_bit n x = drop_bit n y"
  show "(x AND push_bit n (- 1)) = (y AND push_bit n (- 1))"
  proof (rule bit_eqI)
    fix k
    assume "possible_bit TYPE('a word) k"
    show "bit (x AND push_bit n (- 1)) k = bit (y AND push_bit n (- 1)) k"
    proof (cases "n \<le> k")
      case True
      have "bit (drop_bit n x) (k - n) = bit (drop_bit n y) (k - n)" using h by simp
      with True show ?thesis by (auto simp: bit_simps)
    qed (auto simp: bit_simps)
  qed
qed

lemma drop_bit_eq_range:
  fixes x y :: "'a::len word"
  shows "drop_bit n x = drop_bit n y \<longleftrightarrow>
    unat y div 2 ^ n * 2 ^ n \<le> unat x \<and> unat x < (unat y div 2 ^ n + 1) * 2 ^ n"
proof -
  have "drop_bit n x = drop_bit n y \<longleftrightarrow> unat x div 2 ^ n = unat y div 2 ^ n"
    by (metis unat_drop_bit_eq word_unat_eq_iff drop_bit_eq_div)
  also have "\<dots> \<longleftrightarrow> unat y div 2 ^ n * 2 ^ n \<le> unat x \<and> unat x < (unat y div 2 ^ n + 1) * 2 ^ n"
    by (metis add.commute div_nat_eqI div_times_less_eq_dividend dividend_less_times_div
        mult.commute plus_1_eq_Suc mult_Suc_right zero_less_numeral zero_less_power)
  finally show ?thesis .
qed

lemma unat_bound_v4: "unat (a :: 32 word) < 2 ^ 32"
  using unsigned_less [of a, where 'a = nat] by simp

lemma unat_bound_v6: "unat (a :: 128 word) < 2 ^ 128"
  using unsigned_less [of a, where 'a = nat] by simp

lemma in_v4_range:
  "0 < p \<Longrightarrow> in_v4 v n p \<longleftrightarrow>
    unat (from_be_bytes n) div 2 ^ (32 - p) * 2 ^ (32 - p) \<le> unat v \<and>
    unat v < (unat (from_be_bytes n) div 2 ^ (32 - p) + 1) * 2 ^ (32 - p)"
  by (simp add: in_v4_def Let_def masked_eq_iff drop_bit_eq_range del: push_bit_minus_one_eq_not_mask)

lemma in_v6_range:
  "0 < p \<Longrightarrow> in_v6 v n p \<longleftrightarrow>
    unat n div 2 ^ (128 - p) * 2 ^ (128 - p) \<le> unat v \<and>
    unat v < (unat n div 2 ^ (128 - p) + 1) * 2 ^ (128 - p)"
  by (simp add: in_v6_def Let_def masked_eq_iff drop_bit_eq_range del: push_bit_minus_one_eq_not_mask)


section \<open>The public addresses\<close>

text \<open>
  The reference for the IPv4 policy: the special-purpose blocks as half-open ranges of the
  32-bit value, one entry per block of the code's table.
\<close>

definition v4_special :: "(nat \<times> nat) list" where
  "v4_special =
     [(0x00000000, 0x01000000), (0x0A000000, 0x0B000000), (0xAC100000, 0xAC200000),
      (0xC0A80000, 0xC0A90000), (0x64400000, 0x64800000), (0x7F000000, 0x80000000),
      (0xA9FE0000, 0xA9FF0000), (0xC0000200, 0xC0000300), (0xC6336400, 0xC6336500),
      (0xCB007100, 0xCB007200), (0xC6120000, 0xC6140000), (0xE0000000, 0xF0000000),
      (0xC0000000, 0xC0000100), (0xC0586300, 0xC0586400), (0xF0000000, 0x100000000)]"

definition in_ranges :: "(nat \<times> nat) list \<Rightarrow> nat \<Rightarrow> bool" where
  "in_ranges rs n \<longleftrightarrow> (\<exists>(lo, hi)\<in>set rs. lo \<le> n \<and> n < hi)"

text \<open>
  The exceptions inside the global unicast block \<open>2000::/3\<close>: \<open>2001::/23\<close> (which holds the
  benchmarking block), \<open>2001:db8::/32\<close>, \<open>2002::/16\<close> and \<open>3fff::/20\<close>.
\<close>

definition v6_special :: "(nat \<times> nat) list" where
  "v6_special =
     [(0x20010000000000000000000000000000, 0x20010200000000000000000000000000),
      (0x20010DB8000000000000000000000000, 0x20010DB9000000000000000000000000),
      (0x20020000000000000000000000000000, 0x20030000000000000000000000000000),
      (0x3FFF0000000000000000000000000000, 0x3FFF1000000000000000000000000000)]"

definition ipv4_mapped :: "32 word \<Rightarrow> 128 word" where
  "ipv4_mapped a = push_bit 32 0xFFFF OR ucast a"

lemma v4_blocks:
  "in_v4 v (0, 0, 0, 0) 8 \<longleftrightarrow> 0x00000000 \<le> unat v \<and> unat v < 0x01000000"
  "in_v4 v (10, 0, 0, 0) 8 \<longleftrightarrow> 0x0A000000 \<le> unat v \<and> unat v < 0x0B000000"
  "in_v4 v (172, 16, 0, 0) 12 \<longleftrightarrow> 0xAC100000 \<le> unat v \<and> unat v < 0xAC200000"
  "in_v4 v (192, 168, 0, 0) 16 \<longleftrightarrow> 0xC0A80000 \<le> unat v \<and> unat v < 0xC0A90000"
  "in_v4 v (100, 64, 0, 0) 10 \<longleftrightarrow> 0x64400000 \<le> unat v \<and> unat v < 0x64800000"
  "in_v4 v (127, 0, 0, 0) 8 \<longleftrightarrow> 0x7F000000 \<le> unat v \<and> unat v < 0x80000000"
  "in_v4 v (169, 254, 0, 0) 16 \<longleftrightarrow> 0xA9FE0000 \<le> unat v \<and> unat v < 0xA9FF0000"
  "in_v4 v (192, 0, 2, 0) 24 \<longleftrightarrow> 0xC0000200 \<le> unat v \<and> unat v < 0xC0000300"
  "in_v4 v (198, 51, 100, 0) 24 \<longleftrightarrow> 0xC6336400 \<le> unat v \<and> unat v < 0xC6336500"
  "in_v4 v (203, 0, 113, 0) 24 \<longleftrightarrow> 0xCB007100 \<le> unat v \<and> unat v < 0xCB007200"
  "in_v4 v (198, 18, 0, 0) 15 \<longleftrightarrow> 0xC6120000 \<le> unat v \<and> unat v < 0xC6140000"
  "in_v4 v (224, 0, 0, 0) 4 \<longleftrightarrow> 0xE0000000 \<le> unat v \<and> unat v < 0xF0000000"
  "in_v4 v (192, 0, 0, 0) 24 \<longleftrightarrow> 0xC0000000 \<le> unat v \<and> unat v < 0xC0000100"
  "in_v4 v (192, 88, 99, 0) 24 \<longleftrightarrow> 0xC0586300 \<le> unat v \<and> unat v < 0xC0586400"
  "in_v4 v (240, 0, 0, 0) 4 \<longleftrightarrow> 0xF0000000 \<le> unat v \<and> unat v < 0x100000000"
  by (simp_all add: in_v4_range from_be_bytes_def)

lemma v6_blocks:
  "in_v6 v (v6_network 0xfc00 0 0 0) 7 \<longleftrightarrow>
     0xFC000000000000000000000000000000 \<le> unat v \<and> unat v < 0xFE000000000000000000000000000000"
  "in_v6 v (v6_network 0xfe80 0 0 0) 10 \<longleftrightarrow>
     0xFE800000000000000000000000000000 \<le> unat v \<and> unat v < 0xFEC00000000000000000000000000000"
  "in_v6 v (v6_network 0xff00 0 0 0) 8 \<longleftrightarrow>
     0xFF000000000000000000000000000000 \<le> unat v \<and> unat v < 0x100000000000000000000000000000000"
  "in_v6 v (v6_network 0x2001 0x0db8 0 0) 32 \<longleftrightarrow>
     0x20010DB8000000000000000000000000 \<le> unat v \<and> unat v < 0x20010DB9000000000000000000000000"
  "in_v6 v (v6_network 0x3fff 0 0 0) 20 \<longleftrightarrow>
     0x3FFF0000000000000000000000000000 \<le> unat v \<and> unat v < 0x3FFF1000000000000000000000000000"
  "in_v6 v (v6_network 0x2001 0x0002 0 0) 48 \<longleftrightarrow>
     0x20010002000000000000000000000000 \<le> unat v \<and> unat v < 0x20010002000100000000000000000000"
  "in_v6 v (v6_network 0x0100 0 0 0) 64 \<longleftrightarrow>
     0x01000000000000000000000000000000 \<le> unat v \<and> unat v < 0x01000000000000010000000000000000"
  "in_v6 v (v6_network 0x0064 0xff9b 1 0) 48 \<longleftrightarrow>
     0x0064FF9B000100000000000000000000 \<le> unat v \<and> unat v < 0x0064FF9B000200000000000000000000"
  "in_v6 v (v6_network 0x2001 0 0 0) 23 \<longleftrightarrow>
     0x20010000000000000000000000000000 \<le> unat v \<and> unat v < 0x20010200000000000000000000000000"
  "in_v6 v (v6_network 0x2002 0 0 0) 16 \<longleftrightarrow>
     0x20020000000000000000000000000000 \<le> unat v \<and> unat v < 0x20030000000000000000000000000000"
  "in_v6 v (v6_network 0x5f00 0 0 0) 16 \<longleftrightarrow>
     0x5F000000000000000000000000000000 \<le> unat v \<and> unat v < 0x5F010000000000000000000000000000"
  "in_v6 v (v6_network 0x2000 0 0 0) 3 \<longleftrightarrow>
     0x20000000000000000000000000000000 \<le> unat v \<and> unat v < 0x40000000000000000000000000000000"
  by (simp_all add: in_v6_range v6_network_def)

lemma in_ranges_simps [simp]:
  "in_ranges [] n \<longleftrightarrow> False"
  "in_ranges ((lo, hi) # rs) n \<longleftrightarrow> lo \<le> n \<and> n < hi \<or> in_ranges rs n"
  by (auto simp: in_ranges_def)

lemma ipv4_public: "classify_ipv4 v = Public \<longleftrightarrow> \<not> in_ranges v4_special (unat v)"
proof -
  have "classify_ipv4 v = Public \<longleftrightarrow>
    \<not> (in_v4 v (0, 0, 0, 0) 8 \<or> in_v4 v (10, 0, 0, 0) 8 \<or> in_v4 v (172, 16, 0, 0) 12 \<or>
       in_v4 v (192, 168, 0, 0) 16 \<or> in_v4 v (100, 64, 0, 0) 10 \<or> in_v4 v (127, 0, 0, 0) 8 \<or>
       in_v4 v (169, 254, 0, 0) 16 \<or> in_v4 v (192, 0, 2, 0) 24 \<or> in_v4 v (198, 51, 100, 0) 24 \<or>
       in_v4 v (203, 0, 113, 0) 24 \<or> in_v4 v (198, 18, 0, 0) 15 \<or> in_v4 v (224, 0, 0, 0) 4 \<or>
       in_v4 v (192, 0, 0, 0) 24 \<or> in_v4 v (192, 88, 99, 0) 24 \<or> in_v4 v (240, 0, 0, 0) 4)"
    by (simp add: classify_ipv4_def)
  also have "\<dots> \<longleftrightarrow> \<not> in_ranges v4_special (unat v)"
    by (simp only: v4_blocks v4_special_def in_ranges_simps disj_assoc simp_thms)
  finally show ?thesis .
qed

text \<open>
  C13. An IPv4 address is classified as public exactly when its value lies in none of the
  special-purpose ranges: no special range slips through and no other address is refused.
\<close>

theorem ipv4_public_iff: "classify_ipv4 v = Public \<longleftrightarrow> \<not> in_ranges v4_special (unat v)"
  by (rule ipv4_public)

lemma unat_numeral_ffff: "unat (0xFFFF :: 128 word) = 0xFFFF"
  by simp

lemma mapped_unat: "to_ipv4_mapped v \<noteq> None \<longleftrightarrow> unat v div 2 ^ 32 = 0xFFFF"
proof -
  have "drop_bit 32 v = 0xFFFF \<longleftrightarrow> unat (drop_bit 32 v) = unat (0xFFFF :: 128 word)"
    by (rule word_unat_eq_iff)
  also have "\<dots> \<longleftrightarrow> unat v div 2 ^ 32 = 0xFFFF"
    by (simp only: unat_drop_bit_eq unat_numeral_ffff) (simp only: drop_bit_eq_div)
  finally show ?thesis by (simp add: to_ipv4_mapped_def)
qed

lemma classify_ipv6_unmapped:
  assumes "to_ipv4_mapped v = None"
  shows "classify_ipv6 v = Public \<longleftrightarrow>
    0x20000000000000000000000000000000 \<le> unat v \<and>
    unat v < 0x40000000000000000000000000000000 \<and> \<not> in_ranges v6_special (unat v)"
proof -
  have "classify_ipv6 v = Public \<longleftrightarrow>
    v \<noteq> 0 \<and> v \<noteq> 1 \<and>
    \<not> (in_v6 v (v6_network 0xfc00 0 0 0) 7 \<or> in_v6 v (v6_network 0xfe80 0 0 0) 10 \<or>
       in_v6 v (v6_network 0xff00 0 0 0) 8 \<or> in_v6 v (v6_network 0x2001 0x0db8 0 0) 32 \<or>
       in_v6 v (v6_network 0x3fff 0 0 0) 20 \<or> in_v6 v (v6_network 0x2001 0x0002 0 0) 48 \<or>
       in_v6 v (v6_network 0x0100 0 0 0) 64 \<or> in_v6 v (v6_network 0x0064 0xff9b 1 0) 48 \<or>
       in_v6 v (v6_network 0x2001 0 0 0) 23 \<or> in_v6 v (v6_network 0x2002 0 0 0) 16 \<or>
       in_v6 v (v6_network 0x5f00 0 0 0) 16) \<and> in_v6 v (v6_network 0x2000 0 0 0) 3"
    using assms by (simp add: classify_ipv6_def)
  also have "\<dots> \<longleftrightarrow>
    0x20000000000000000000000000000000 \<le> unat v \<and>
    unat v < 0x40000000000000000000000000000000 \<and> \<not> in_ranges v6_special (unat v)"
    (is "?code \<longleftrightarrow> ?table")
  proof
    show "?code \<Longrightarrow> ?table"
      unfolding v6_blocks v6_special_def in_ranges_simps by blast
    assume table: "?table"
    then have "unat v \<noteq> 0" "unat v \<noteq> 1" by auto
    then have "v \<noteq> 0" "v \<noteq> 1" by auto
    with table show "?code"
      unfolding v6_blocks v6_special_def in_ranges_simps by (intro conjI notI) linarith+
  qed
  finally show ?thesis .
qed

lemma ipv6_public_aux:
  "classify_ipv6 v = Public \<longleftrightarrow>
     (\<exists>a. to_ipv4_mapped v = Some a \<and> classify_ipv4 a = Public) \<or>
     0x20000000000000000000000000000000 \<le> unat v \<and>
     unat v < 0x40000000000000000000000000000000 \<and> \<not> in_ranges v6_special (unat v)"
proof (cases "to_ipv4_mapped v")
  case None
  then show ?thesis by (simp add: classify_ipv6_unmapped)
next
  case (Some a)
  then have "unat v div 2 ^ 32 = 0xFFFF" using mapped_unat [of v] by simp
  then have "unat v < (0xFFFF + 1) * 2 ^ 32"
    by (metis add.commute dividend_less_times_div mult.commute mult_Suc_right plus_1_eq_Suc
        zero_less_numeral zero_less_power)
  then have "unat v < 0x20000000000000000000000000000000" by simp
  with Some show ?thesis by (simp add: classify_ipv6_def)
qed

lemma ipv6_public:
  "classify_ipv6 v = Public \<longleftrightarrow>
     (\<exists>a. to_ipv4_mapped v = Some a \<and> \<not> in_ranges v4_special (unat a)) \<or>
     0x20000000000000000000000000000000 \<le> unat v \<and>
     unat v < 0x40000000000000000000000000000000 \<and> \<not> in_ranges v6_special (unat v)"
  by (simp only: ipv6_public_aux ipv4_public)

text \<open>
  C14. An IPv6 address is classified as public exactly when it is an IPv4-mapped address whose
  IPv4 part is public, or lies in \<open>2000::/3\<close> outside the special-purpose ranges.
\<close>

theorem ipv6_public_iff:
  "classify_ipv6 v = Public \<longleftrightarrow>
     (\<exists>a. to_ipv4_mapped v = Some a \<and> classify_ipv4 a = Public) \<or>
     0x20000000000000000000000000000000 \<le> unat v \<and>
     unat v < 0x40000000000000000000000000000000 \<and> \<not> in_ranges v6_special (unat v)"
  by (rule ipv6_public_aux)

lemma mapped_parts:
  fixes x :: "128 word" and a :: "32 word"
  shows "drop_bit 32 (push_bit 32 x OR ucast a) = drop_bit 32 (push_bit 32 x)"
    and "ucast (push_bit 32 x OR ucast a) = a"
  by (rule bit_word_eqI; auto simp: bit_simps dest: bit_imp_le_length)+

lemma to_ipv4_mapped_ipv4_mapped: "to_ipv4_mapped (ipv4_mapped a) = Some a"
proof -
  have "drop_bit 32 (push_bit 32 0xFFFF :: 128 word) = 0xFFFF" by simp
  then show ?thesis
    unfolding to_ipv4_mapped_def ipv4_mapped_def mapped_parts by simp
qed

text \<open>
  Writing an IPv4 address in its IPv4-mapped IPv6 form never changes its scope, so the
  form cannot be used to reach an address the IPv4 policy refuses.
\<close>

theorem ipv4_mapped_same_scope: "classify_ip (V6 (ipv4_mapped a)) = classify_ip (V4 a)"
  by (simp add: classify_ip_def classify_ipv6_def to_ipv4_mapped_ipv4_mapped)

section \<open>Special-use names\<close>

lemma trim_end_by_snoc: "\<not> P x \<Longrightarrow> trim_end_by P (s @ [x]) = s @ [x]"
  by (simp add: trim_end_by_def)

lemma trim_start_by_stop: "\<not> P x \<Longrightarrow> \<exists>h'. trim_start_by P (h @ x # s) = h' @ x # s"
  by (induction h) (auto simp: trim_start_by_def)

lemma trim_end_by_keeps_tail:
  "s \<noteq> [] \<Longrightarrow> \<not> P (last s) \<Longrightarrow> trim_end_by P (h @ s) = h @ s"
  by (cases s rule: rev_cases) (simp_all add: trim_end_by_snoc flip: append_assoc)

lemma normalize_hostname_suffix:
  assumes "s \<noteq> []" and last: "\<not> is_whitespace (last s)" "last s \<noteq> 93" "last s \<noteq> DOT"
    and low: "to_ascii_lowercase s = s"
  shows "\<exists>h'. normalize_hostname (h @ DOT # s) = h' @ DOT # s"
proof -
  have dot: "\<not> is_whitespace DOT" by (simp add: is_whitespace_def)
  then obtain h1 where h1: "trim_start (h @ DOT # s) = h1 @ DOT # s"
    unfolding trim_start_def using trim_start_by_stop by blast
  then have t: "trim (h @ DOT # s) = h1 @ DOT # s"
    using trim_end_by_keeps_tail [of "DOT # s" is_whitespace h1] assms(1) last(1)
    by (simp add: trim_def trim_end_def)
  obtain h2 where h2: "trim_start_by (\<lambda>c. c = 91) (h1 @ DOT # s) = h2 @ DOT # s"
    using trim_start_by_stop [of "\<lambda>c. c = 91" DOT h1 s] by auto
  have "normalize_hostname (h @ DOT # s) = to_ascii_lowercase (h2 @ DOT # s)"
    using assms(1) last(2,3) by (simp add: normalize_hostname_def t h2 trim_end_by_keeps_tail)
  then show ?thesis using low by (auto simp: to_ascii_lowercase_def is_ascii_uppercase_def)
qed

lemma special_suffix_shape:
  "s \<in> set special_suffixes \<Longrightarrow>
     s \<noteq> [] \<and> \<not> is_whitespace (last s) \<and> last s \<noteq> 93 \<and> last s \<noteq> DOT \<and> to_ascii_lowercase s = s"
  by (auto simp: special_suffixes_def u_def is_whitespace_def to_ascii_lowercase_def
      is_ascii_uppercase_def)

text \<open>
  No name under a special-use suffix is ever treated as an ordinary public name, whatever
  precedes the suffix.
\<close>

theorem special_use_never_public:
  assumes "s \<in> set special_suffixes"
  shows "classify_hostname (h @ DOT # s) \<noteq> PublicName"
proof -
  obtain h' where h': "normalize_hostname (h @ DOT # s) = h' @ DOT # s"
    using normalize_hostname_suffix special_suffix_shape [OF assms] by blast
  have "strip_suffix (h' @ DOT # s) s = Some (h' @ [DOT])"
    by (simp add: strip_suffix_Some)
  moreover have "ends_with (h' @ [DOT]) [DOT]" by (simp add: ends_with_suffix)
  ultimately have special: "\<exists>suffix\<in>set special_suffixes. h' @ DOT # s = suffix \<or>
      (case strip_suffix (h' @ DOT # s) suffix of Some front \<Rightarrow> ends_with front [DOT] | None \<Rightarrow> False)"
    using assms by (intro bexI [of _ s]) auto
  have "h' @ DOT # s \<noteq> []" by simp
  then show ?thesis
    by (cases "parse_ip (h' @ DOT # s)")
      (simp_all only: classify_hostname_def Let_def h' special option.case if_True if_False
        HostClassification.distinct not_False_eq_True)
qed

theorem special_use_never_public_witness:
  "u ''local'' \<in> set special_suffixes \<and> classify_hostname (u ''printer'' @ DOT # u ''local'') \<noteq> PublicName"
proof -
  have h: "u ''local'' \<in> set special_suffixes" by (simp add: special_suffixes_def)
  show ?thesis using h special_use_never_public [OF h, of "u ''printer''"] by simp
qed

end
