(* ===== verification/Net_Policy.thy ===== *)
theory Net_Policy
  imports Net_Address
begin

unbundle bit_operations_syntax

text \<open>
  URL policy and proxy routing (\<open>crates/net/src/policy.rs\<close>, \<open>crates/net/src/proxy.rs\<close>).
  A parsed URL is the record of what the code reads off \<open>url::Url\<close>; the parser itself
  (\<open>Url::parse\<close>, \<open>Url::join\<close>) belongs to the \<open>url\<close> crate and is a parameter. The results
  say what a validated URL can be, and that the decisions to bypass a proxy follow the
  address blocks of the operator's rules.
\<close>

section \<open>URLs and policies\<close>

datatype Host = Domain ustr | Ipv4 "32 word" | Ipv6 "128 word"

record Url =
  scheme :: ustr
  username :: ustr
  password :: "ustr option"
  host :: "Host option"
  port_or_known_default :: "nat option"
  as_str :: ustr

record OperatorConfiguredPolicy =
  allow_non_public_ips :: bool
  allow_special_use_names :: bool
  allow_url_credentials :: bool

datatype UrlPolicy = PublicInternet | OperatorConfigured OperatorConfiguredPolicy

datatype UrlPolicyError =
    InvalidUrl ustr
  | UnsupportedScheme
  | CredentialsNotAllowed
  | MissingHost
  | SpecialUseHostname ustr
  | NonPublicIp IpAddr IpClassification

definition operator_options :: "UrlPolicy \<Rightarrow> OperatorConfiguredPolicy" where
  "operator_options policy =
     (case policy of
        PublicInternet \<Rightarrow>
          \<lparr>allow_non_public_ips = False, allow_special_use_names = False,
           allow_url_credentials = False\<rparr>
      | OperatorConfigured options \<Rightarrow> options)"

definition validate_classified_ip ::
  "UrlPolicy \<Rightarrow> IpAddr \<Rightarrow> IpClassification \<Rightarrow> UrlPolicyError + unit" where
  "validate_classified_ip policy address classification =
     (if is_public classification \<or> allow_non_public_ips (operator_options policy) then Inr ()
      else Inl (NonPublicIp address classification))"

definition validate_ip :: "UrlPolicy \<Rightarrow> IpAddr \<Rightarrow> UrlPolicyError + unit" where
  "validate_ip policy address = validate_classified_ip policy address (classify_ip address)"

text \<open>The text between \<open>://\<close> and the first \<open>/\<close>, \<open>?\<close> or \<open>#\<close>.\<close>

definition authority_of :: "ustr \<Rightarrow> ustr" where
  "authority_of rest = hd (split_by (\<lambda>c. c = SLASH \<or> c = 63 \<or> c = 35) rest)"

definition has_userinfo :: "Url \<Rightarrow> bool" where
  "has_userinfo url =
     (if username url \<noteq> [] \<or> password url \<noteq> None then True
      else case split_once (as_str url) (u ''://'') of
             None \<Rightarrow> False
           | Some (_, rest) \<Rightarrow> 64 \<in> set (authority_of rest))"

definition raw_value_has_userinfo :: "ustr \<Rightarrow> bool" where
  "raw_value_has_userinfo value =
     (let value = trim value;
          authority = (case strip_prefix value (u ''//'') of
                         Some rest \<Rightarrow> Some rest
                       | None \<Rightarrow> map_option snd (split_once value (u ''://'')))
      in case authority of None \<Rightarrow> False | Some rest \<Rightarrow> 64 \<in> set (authority_of rest))"

definition validate_url :: "UrlPolicy \<Rightarrow> Url \<Rightarrow> UrlPolicyError + unit" where
  "validate_url policy url =
     (if scheme url \<noteq> u ''http'' \<and> scheme url \<noteq> u ''https'' then Inl UnsupportedScheme
      else if has_userinfo url \<and> \<not> allow_url_credentials (operator_options policy)
      then Inl CredentialsNotAllowed
      else case host url of
             None \<Rightarrow> Inl MissingHost
           | Some (Domain h) \<Rightarrow>
               (case classify_hostname h of
                  PublicName \<Rightarrow> Inr ()
                | SpecialUseName \<Rightarrow>
                    if allow_special_use_names (operator_options policy) then Inr ()
                    else Inl (SpecialUseHostname h)
                | Ip classification \<Rightarrow>
                    (case parse_ip h of
                       None \<Rightarrow> Inl MissingHost
                     | Some address \<Rightarrow> validate_classified_ip policy address classification)
                | Invalid \<Rightarrow> Inl MissingHost)
           | Some (Ipv4 a) \<Rightarrow> validate_classified_ip policy (V4 a) (classify_ip (V4 a))
           | Some (Ipv6 a) \<Rightarrow> validate_classified_ip policy (V6 a) (classify_ip (V6 a)))"

definition parse_url ::
  "(ustr \<Rightarrow> Url option) \<Rightarrow> (Url \<Rightarrow> ustr \<Rightarrow> Url option) \<Rightarrow> UrlPolicy \<Rightarrow> ustr \<Rightarrow> Url option \<Rightarrow>
     UrlPolicyError + Url" where
  "parse_url url_parse url_join policy value base =
     (if raw_value_has_userinfo value \<and> \<not> allow_url_credentials (operator_options policy)
      then Inl CredentialsNotAllowed
      else case (case base of Some b \<Rightarrow> url_join b value | None \<Rightarrow> url_parse value) of
             None \<Rightarrow> Inl (InvalidUrl value)
           | Some url \<Rightarrow>
               (case validate_url policy url of Inl e \<Rightarrow> Inl e | Inr _ \<Rightarrow> Inr url))"

section \<open>Proxy selection\<close>

datatype ProxyConfigurationError =
  ProxyInvalidUrl | ProxyUnsupportedScheme | ProxyMissingHost | InvalidBypassRule

record ProxyEndpoint =
  target :: ustr
  authenticated :: bool

datatype ProxyRoute = Direct | Proxy ProxyEndpoint

record AddressBlock =
  network :: IpAddr
  prefix_bits :: nat

record BypassRules =
  wildcard :: bool
  domains :: "ustr list"
  addresses :: "IpAddr list"
  blocks :: "AddressBlock list"

record ProxyConfiguration =
  http :: "ProxyEndpoint option"
  https :: "ProxyEndpoint option"
  bypass :: "BypassRules option"

definition unbracket :: "ustr \<Rightarrow> ustr" where
  "unbracket value = trim_end_by (\<lambda>c. c = 93) (trim_start_by (\<lambda>c. c = 91) value)"

text \<open>\<open>str::parse::<u8>\<close>: an optional plus sign and at least one digit, at most 255.\<close>

fun digits_value :: "nat \<Rightarrow> ustr \<Rightarrow> nat option" where
  "digits_value acc [] = Some acc"
| "digits_value acc (c # s) =
     (if is_ascii_digit c \<and> acc * 10 + (c - 48) \<le> 255 then digits_value (acc * 10 + (c - 48)) s
      else None)"

definition parse_u8 :: "ustr \<Rightarrow> nat option" where
  "parse_u8 s =
     (let digits = (case s of c # r \<Rightarrow> if c = 43 then r else s | [] \<Rightarrow> s)
      in if digits = [] then None else digits_value 0 digits)"

definition is_ipv4 :: "IpAddr \<Rightarrow> bool" where
  "is_ipv4 a = (case a of V4 _ \<Rightarrow> True | V6 _ \<Rightarrow> False)"

definition AddressBlock_parse :: "ustr \<Rightarrow> AddressBlock option" where
  "AddressBlock_parse value =
     (case split_once value [SLASH] of
        None \<Rightarrow> None
      | Some (net, bits) \<Rightarrow>
          (case parse_ip (unbracket (trim net)) of
             None \<Rightarrow> None
           | Some net \<Rightarrow>
               (case parse_u8 (trim bits) of
                  None \<Rightarrow> None
                | Some bits \<Rightarrow>
                    if bits \<le> (if is_ipv4 net then 32 else 128)
                    then Some \<lparr>network = net, prefix_bits = bits\<rparr> else None)))"

definition masked_u128 :: "128 word \<Rightarrow> nat \<Rightarrow> nat \<Rightarrow> 128 word" where
  "masked_u128 v bits width = (if bits = 0 then 0 else v AND push_bit (width - bits) (- 1))"

definition AddressBlock_contains :: "AddressBlock \<Rightarrow> IpAddr \<Rightarrow> bool" where
  "AddressBlock_contains b address =
     (case (network b, address) of
        (V4 n, V4 a) \<Rightarrow>
          masked_u128 (ucast n) (prefix_bits b) 32 = masked_u128 (ucast a) (prefix_bits b) 32
      | (V6 n, V6 a) \<Rightarrow> masked_u128 n (prefix_bits b) 128 = masked_u128 a (prefix_bits b) 128
      | _ \<Rightarrow> False)"

definition bypass_entry :: "BypassRules \<Rightarrow> ustr \<Rightarrow> ProxyConfigurationError + BypassRules" where
  "bypass_entry rules entry =
     (let entry = trim entry
      in if entry = [] then Inr rules
         else if entry = u ''*'' then Inr (rules\<lparr>wildcard := True\<rparr>)
         else if SLASH \<in> set entry
         then (case AddressBlock_parse entry of
                 None \<Rightarrow> Inl InvalidBypassRule
               | Some b \<Rightarrow> Inr (rules\<lparr>blocks := blocks rules @ [b]\<rparr>))
         else case parse_ip (unbracket entry) of
                Some address \<Rightarrow> Inr (rules\<lparr>addresses := addresses rules @ [address]\<rparr>)
              | None \<Rightarrow>
                  (let domain = to_ascii_lowercase
                         (trim_end_by (\<lambda>c. c = DOT) (trim_start_by (\<lambda>c. c = DOT) entry))
                   in if domain = [] then Inr rules
                      else Inr (rules\<lparr>domains := domains rules @ [domain]\<rparr>)))"

fun bypass_entries :: "BypassRules \<Rightarrow> ustr list \<Rightarrow> ProxyConfigurationError + BypassRules" where
  "bypass_entries rules [] = Inr rules"
| "bypass_entries rules (e # es) =
     (case bypass_entry rules e of Inl err \<Rightarrow> Inl err | Inr rules' \<Rightarrow> bypass_entries rules' es)"

definition BypassRules_parse :: "ustr \<Rightarrow> ProxyConfigurationError + BypassRules option" where
  "BypassRules_parse value =
     (case bypass_entries \<lparr>wildcard = False, domains = [], addresses = [], blocks = []\<rparr>
             (split_on 44 value) of
        Inl e \<Rightarrow> Inl e
      | Inr rules \<Rightarrow>
          if \<not> wildcard rules \<and> domains rules = [] \<and> addresses rules = [] \<and> blocks rules = []
          then Inr None else Inr (Some rules))"

definition matches_address :: "BypassRules \<Rightarrow> IpAddr \<Rightarrow> bool" where
  "matches_address rules address \<longleftrightarrow>
     address \<in> set (addresses rules) \<or> (\<exists>b\<in>set (blocks rules). AddressBlock_contains b address)"

definition bypass_matches :: "BypassRules \<Rightarrow> Host \<Rightarrow> bool" where
  "bypass_matches rules h =
     (if wildcard rules then True
      else case h of
             Domain name \<Rightarrow>
               (let name = to_ascii_lowercase (trim_end_by (\<lambda>c. c = DOT) name)
                in \<exists>rule\<in>set (domains rules). name = rule \<or> ends_with name (DOT # rule))
           | Ipv4 a \<Rightarrow> matches_address rules (V4 a)
           | Ipv6 a \<Rightarrow> matches_address rules (V6 a))"

definition is_direct :: "ProxyConfiguration \<Rightarrow> bool" where
  "is_direct proxy \<longleftrightarrow> http proxy = None \<and> https proxy = None"

definition route :: "ProxyConfiguration \<Rightarrow> Url \<Rightarrow> ProxyRoute" where
  "route proxy url =
     (let endpoint = (if scheme url = u ''http'' then http proxy
                      else if scheme url = u ''https'' then https proxy else None)
      in case endpoint of
           None \<Rightarrow> Direct
         | Some endpoint \<Rightarrow>
             (case host url of
                None \<Rightarrow> Direct
              | Some h \<Rightarrow>
                  if (case bypass proxy of Some rules \<Rightarrow> bypass_matches rules h | None \<Rightarrow> False)
                  then Direct else Proxy endpoint))"

text \<open>
  \<open>ProxyEndpoint::parse\<close>: \<open>url_parse\<close> is the \<open>url\<close> crate's parser with \<open>host_str\<close> beside the
  parsed URL, \<open>proxy_all\<close> whether \<open>reqwest::Proxy::all\<close> accepts it.
\<close>

definition ProxyEndpoint_parse ::
  "(ustr \<Rightarrow> (Url \<times> ustr option) option) \<Rightarrow> (Url \<Rightarrow> bool) \<Rightarrow> ustr \<Rightarrow>
     ProxyConfigurationError + ProxyEndpoint" where
  "ProxyEndpoint_parse url_parse proxy_all value =
     (let trimmed = trim value
      in if trimmed = [] then Inl ProxyInvalidUrl
         else let normalized = (if find_sub (u ''://'') trimmed \<noteq> None then trimmed
                                else u ''http://'' @ trimmed)
              in case url_parse normalized of
                   None \<Rightarrow> Inl ProxyInvalidUrl
                 | Some (url, host_str) \<Rightarrow>
                     if scheme url \<noteq> u ''http'' \<and> scheme url \<noteq> u ''https''
                     then Inl ProxyUnsupportedScheme
                     else case host_str of
                            None \<Rightarrow> Inl ProxyMissingHost
                          | Some h \<Rightarrow>
                              if h = [] then Inl ProxyMissingHost
                              else case port_or_known_default url of
                                     None \<Rightarrow> Inl ProxyMissingHost
                                   | Some port \<Rightarrow>
                                       if \<not> proxy_all url then Inl ProxyInvalidUrl
                                       else Inr
                                         \<lparr>target = scheme url @ u ''://'' @ h @ u '':'' @ dec port,
                                          authenticated =
                                            username url \<noteq> [] \<or> password url \<noteq> None\<rparr>)"

definition parse_optional ::
  "(ustr \<Rightarrow> ProxyConfigurationError + ProxyEndpoint) \<Rightarrow> ustr option \<Rightarrow>
     ProxyConfigurationError + ProxyEndpoint option" where
  "parse_optional parse value =
     (case value of
        None \<Rightarrow> Inr None
      | Some v \<Rightarrow>
          if trim v = [] then Inr None
          else case parse (trim v) of Inl e \<Rightarrow> Inl e | Inr endpoint \<Rightarrow> Inr (Some endpoint))"

definition from_values ::
  "(ustr \<Rightarrow> ProxyConfigurationError + ProxyEndpoint) \<Rightarrow> ustr option \<Rightarrow> ustr option \<Rightarrow>
     ustr option \<Rightarrow> ustr option \<Rightarrow> ProxyConfigurationError + ProxyConfiguration" where
  "from_values parse http_value https_value all_value bypass_value =
     (case parse_optional parse all_value of
        Inl e \<Rightarrow> Inl e
      | Inr all \<Rightarrow>
      case parse_optional parse http_value of
        Inl e \<Rightarrow> Inl e
      | Inr h \<Rightarrow>
      case parse_optional parse https_value of
        Inl e \<Rightarrow> Inl e
      | Inr hs \<Rightarrow>
      case (case bypass_value of
              None \<Rightarrow> Inr None
            | Some v \<Rightarrow> if trim v = [] then Inr None else BypassRules_parse (trim v)) of
        Inl e \<Rightarrow> Inl e
      | Inr rules \<Rightarrow>
          Inr \<lparr>http = (case h of Some e \<Rightarrow> Some e | None \<Rightarrow> all),
               https = (case hs of Some e \<Rightarrow> Some e | None \<Rightarrow> all),
               bypass = rules\<rparr>)"

section \<open>What a validated URL can be\<close>

text \<open>
  The abstract contract of public-internet policy, stated over address ranges and names: an
  IP literal is outside every special-purpose range, a domain is an ordinary name or spells
  such an address.
\<close>

definition public_ip :: "IpAddr \<Rightarrow> bool" where
  "public_ip address \<longleftrightarrow>
     (case address of
        V4 a \<Rightarrow> \<not> in_ranges v4_special (unat a)
      | V6 a \<Rightarrow>
          (\<exists>m. to_ipv4_mapped a = Some m \<and> \<not> in_ranges v4_special (unat m)) \<or>
          0x20000000000000000000000000000000 \<le> unat a \<and>
          unat a < 0x40000000000000000000000000000000 \<and> \<not> in_ranges v6_special (unat a))"

definition public_host :: "Host \<Rightarrow> bool" where
  "public_host h \<longleftrightarrow>
     (case h of
        Domain name \<Rightarrow>
          classify_hostname name = PublicName \<or>
          (\<exists>a. parse_ip (normalize_hostname name) = Some a \<and> public_ip a)
      | Ipv4 a \<Rightarrow> public_ip (V4 a)
      | Ipv6 a \<Rightarrow> public_ip (V6 a))"

lemma classify_ip_public: "classify_ip a = Public \<longleftrightarrow> public_ip a"
  by (cases a) (simp_all add: classify_ip_def public_ip_def ipv4_public ipv6_public)

lemma classify_hostname_ip:
  "classify_hostname h = Ip c \<longleftrightarrow>
     (\<exists>a. normalize_hostname h \<noteq> [] \<and> parse_ip (normalize_hostname h) = Some a \<and> c = classify_ip a)"
  by (auto simp: classify_hostname_def Let_def split: option.splits if_splits)

lemma validate_classified_ip_Inr [simp]:
  "validate_classified_ip policy a c = Inr () \<longleftrightarrow>
     c = Public \<or> allow_non_public_ips (operator_options policy)"
  by (simp add: validate_classified_ip_def is_public_def)

lemma validate_ip_public: "validate_ip PublicInternet a = Inr () \<longleftrightarrow> public_ip a"
  by (simp add: validate_ip_def operator_options_def classify_ip_public)

text \<open>
  A URL that public-internet policy accepts is an \<open>http\<close> or \<open>https\<close> URL without
  credentials whose host satisfies the range-based contract: no loopback, private, link-local,
  documentation, benchmarking, multicast or reserved address, in any spelling, and no
  special-use name.
\<close>

theorem validate_url_public_sound:
  assumes "validate_url PublicInternet url = Inr ()"
  shows "(scheme url = u ''http'' \<or> scheme url = u ''https'') \<and> \<not> has_userinfo url \<and>
    (\<exists>h. host url = Some h \<and> public_host h)"
proof -
  from assms have "\<not> (scheme url \<noteq> u ''http'' \<and> scheme url \<noteq> u ''https'')"
    and "\<not> has_userinfo url" and "host url \<noteq> None"
    by (auto simp: validate_url_def operator_options_def split: if_splits option.splits)
  moreover have "public_host h" if "host url = Some h" for h
    using assms that
    by (cases h)
      (auto simp: validate_url_def operator_options_def public_host_def classify_hostname_ip
        classify_ip_public [symmetric] split: if_splits option.splits HostClassification.splits)
  ultimately show ?thesis by blast
qed

theorem validate_url_public_sound_witness:
  "validate_url PublicInternet
     \<lparr>scheme = u ''https'', username = [], password = None, host = Some (Ipv4 0x08080808),
      port_or_known_default = Some 443, as_str = u ''https://8.8.8.8/''\<rparr> = Inr () \<and>
   public_host (Ipv4 0x08080808)"
proof -
  let ?url = "\<lparr>scheme = u ''https'', username = [], password = None, host = Some (Ipv4 0x08080808),
      port_or_known_default = Some 443, as_str = u ''https://8.8.8.8/''\<rparr>"
  have h: "validate_url PublicInternet ?url = Inr ()"
    by (simp add: validate_url_def has_userinfo_def operator_options_def u_def split_once_def
        starts_with_def authority_of_def classify_ip_public public_ip_def v4_special_def)
  show ?thesis using h validate_url_public_sound [OF h] by simp
qed

definition policy_le :: "UrlPolicy \<Rightarrow> UrlPolicy \<Rightarrow> bool" where
  "policy_le p q \<longleftrightarrow>
     (allow_non_public_ips (operator_options p) \<longrightarrow> allow_non_public_ips (operator_options q)) \<and>
     (allow_special_use_names (operator_options p) \<longrightarrow> allow_special_use_names (operator_options q)) \<and>
     (allow_url_credentials (operator_options p) \<longrightarrow> allow_url_credentials (operator_options q))"

lemma policy_le_public: "policy_le PublicInternet q"
  by (simp add: policy_le_def operator_options_def)

text \<open>
  Operator exceptions only widen the policy: a URL accepted under a policy is accepted
  under every policy that allows at least as much, and in particular whatever the
  public-internet policy accepts, every operator configuration accepts.
\<close>

theorem validate_url_mono:
  assumes "policy_le p q" and "validate_url p url = Inr ()"
  shows "validate_url q url = Inr ()"
  using assms
  by (auto simp: validate_url_def policy_le_def validate_classified_ip_def
      split: if_splits option.splits Host.splits HostClassification.splits)

theorem validate_url_mono_witness:
  "validate_url (OperatorConfigured \<lparr>allow_non_public_ips = True, allow_special_use_names = False,
      allow_url_credentials = False\<rparr>)
     \<lparr>scheme = u ''http'', username = [], password = None, host = Some (Ipv4 0x08080808),
      port_or_known_default = Some 80, as_str = u ''http://8.8.8.8/''\<rparr> = Inr ()"
proof -
  let ?url = "\<lparr>scheme = u ''http'', username = [], password = None, host = Some (Ipv4 0x08080808),
      port_or_known_default = Some 80, as_str = u ''http://8.8.8.8/''\<rparr>"
  have h: "validate_url PublicInternet ?url = Inr ()"
    by (simp add: validate_url_def has_userinfo_def operator_options_def u_def split_once_def
        starts_with_def authority_of_def classify_ip_public public_ip_def v4_special_def)
  show ?thesis by (rule validate_url_mono [OF policy_le_public h])
qed

section \<open>Bypass rules\<close>

definition block_wf :: "AddressBlock \<Rightarrow> bool" where
  "block_wf b \<longleftrightarrow> prefix_bits b \<le> (if is_ipv4 (network b) then 32 else 128)"

text \<open>A domain rule is a lower-case name that neither starts nor ends with a dot.\<close>

definition domain_wf :: "ustr \<Rightarrow> bool" where
  "domain_wf d \<longleftrightarrow> d \<noteq> [] \<and> hd d \<noteq> DOT \<and> last d \<noteq> DOT \<and> (\<forall>c\<in>set d. \<not> is_ascii_uppercase c)"

definition rules_wf :: "BypassRules \<Rightarrow> bool" where
  "rules_wf rules \<longleftrightarrow>
     (\<forall>b\<in>set (blocks rules). block_wf b) \<and> (\<forall>d\<in>set (domains rules). domain_wf d)"

lemma AddressBlock_parse_wf: "AddressBlock_parse v = Some b \<Longrightarrow> block_wf b"
  by (auto simp: AddressBlock_parse_def block_wf_def split: option.splits if_splits prod.splits)

lemma lowercase_no_upper: "c \<in> set (to_ascii_lowercase s) \<Longrightarrow> \<not> is_ascii_uppercase c"
  by (auto simp: to_ascii_lowercase_def is_ascii_uppercase_def split: if_splits)

lemma trimmed_dots_ends:
  assumes "d = trim_end_by (\<lambda>c. c = DOT) (trim_start_by (\<lambda>c. c = DOT) e)" and "d \<noteq> []"
  shows "hd d \<noteq> DOT" "last d \<noteq> DOT"
proof -
  let ?s = "dropWhile (\<lambda>c. c = DOT) e"
  have d: "d = rev (dropWhile (\<lambda>c. c = DOT) (rev ?s))"
    using assms(1) by (simp add: trim_end_by_def trim_start_by_def)
  then have ne: "dropWhile (\<lambda>c. c = DOT) (rev ?s) \<noteq> []" using assms(2) by auto
  then have "hd (dropWhile (\<lambda>c. c = DOT) (rev ?s)) \<noteq> DOT" by (rule hd_dropWhile)
  with d ne show "last d \<noteq> DOT" by (simp add: last_rev)
  obtain t where t: "?s = d @ t"
    using d by (metis rev_append rev_rev_ident takeWhile_dropWhile_id)
  then have "?s \<noteq> []" using assms(2) by auto
  then have "hd ?s \<noteq> DOT" by (rule hd_dropWhile)
  with t assms(2) show "hd d \<noteq> DOT" by simp
qed

lemma domain_rule_wf:
  assumes "d = to_ascii_lowercase (trim_end_by (\<lambda>c. c = DOT) (trim_start_by (\<lambda>c. c = DOT) e))"
    and "d \<noteq> []"
  shows "domain_wf d"
proof -
  let ?t = "trim_end_by (\<lambda>c. c = DOT) (trim_start_by (\<lambda>c. c = DOT) e)"
  have ne: "?t \<noteq> []" using assms by (auto simp: to_ascii_lowercase_def)
  have low: "c \<noteq> DOT \<Longrightarrow> (if is_ascii_uppercase c then c + 32 else c) \<noteq> DOT" for c
    by (simp add: is_ascii_uppercase_def)
  have "hd d \<noteq> DOT" "last d \<noteq> DOT"
    using trimmed_dots_ends [OF refl ne] ne low
    by (simp_all add: assms(1) to_ascii_lowercase_def hd_map last_map)
  then show ?thesis using assms lowercase_no_upper by (auto simp: domain_wf_def)
qed

lemma bypass_entry_wf: "bypass_entry rules e = Inr rules' \<Longrightarrow> rules_wf rules \<Longrightarrow> rules_wf rules'"
  by (auto simp: bypass_entry_def rules_wf_def Let_def split: if_splits option.splits
      dest: AddressBlock_parse_wf intro: domain_rule_wf)

lemma bypass_entries_wf:
  "bypass_entries rules es = Inr rules' \<Longrightarrow> rules_wf rules \<Longrightarrow> rules_wf rules'"
  by (induction es arbitrary: rules) (auto split: sum.splits dest: bypass_entry_wf)

lemma BypassRules_parse_wf: "BypassRules_parse v = Inr (Some rules) \<Longrightarrow> rules_wf rules"
  by (auto simp: BypassRules_parse_def rules_wf_def [of "\<lparr>wildcard = False, domains = [], addresses = [], blocks = []\<rparr>"]
      split: sum.splits if_splits dest!: bypass_entries_wf)

lemma masked_u128_eq:
  "masked_u128 x bits width = masked_u128 y bits width \<longleftrightarrow>
     bits = 0 \<or> drop_bit (width - bits) x = drop_bit (width - bits) y"
  by (simp add: masked_u128_def masked_eq_iff del: push_bit_minus_one_eq_not_mask)

lemma unat_ucast_v4: "unat (ucast (a :: 32 word) :: 128 word) = unat a"
  using unat_bound_v4 [of a] by (simp add: unsigned_ucast_eq take_bit_nat_eq_self)

lemma drop_bit_eq_div_unat:
  fixes x y :: "'a::len word"
  shows "drop_bit n x = drop_bit n y \<longleftrightarrow> unat x div 2 ^ n = unat y div 2 ^ n"
  by (metis unat_drop_bit_eq word_unat_eq_iff drop_bit_eq_div)

text \<open>
  An address block of the bypass rules contains exactly the addresses of its own family
  that agree with the network on the first \<open>prefix\<close> bits, for every prefix length the parser
  admits, zero and full width included.
\<close>

theorem AddressBlock_contains_iff:
  assumes "block_wf b"
  shows "AddressBlock_contains b address \<longleftrightarrow>
    (case (network b, address) of
       (V4 n, V4 a) \<Rightarrow> unat n div 2 ^ (32 - prefix_bits b) = unat a div 2 ^ (32 - prefix_bits b)
     | (V6 n, V6 a) \<Rightarrow> unat n div 2 ^ (128 - prefix_bits b) = unat a div 2 ^ (128 - prefix_bits b)
     | _ \<Rightarrow> False)"
proof -
  have "unat n div 2 ^ 32 = 0" "unat m div 2 ^ 128 = 0" for n :: "32 word" and m :: "128 word"
    using unat_bound_v4 [of n] unat_bound_v6 [of m] by simp_all
  then show ?thesis
    by (auto simp: AddressBlock_contains_def masked_u128_eq drop_bit_eq_div_unat unat_ucast_v4
        split: IpAddr.splits)
qed

theorem AddressBlock_contains_iff_witness:
  "AddressBlock_contains \<lparr>network = V4 0x0A000000, prefix_bits = 8\<rparr> (V4 0x0A010203)"
proof -
  have h: "block_wf \<lparr>network = V4 0x0A000000, prefix_bits = 8\<rparr>"
    by (simp add: block_wf_def is_ipv4_def)
  show ?thesis by (simp add: AddressBlock_contains_iff [OF h])
qed

text \<open>
  A domain rule read from the operator's bypass list exempts exactly its own name and its
  subdomains: a host whose name merely ends in the same letters still goes to the proxy.
\<close>

theorem parsed_domain_bypass:
  assumes "BypassRules_parse v = Inr (Some rules)" and "\<not> wildcard rules"
  shows "bypass_matches rules (Domain name) \<longleftrightarrow>
    (\<exists>rule\<in>set (domains rules). domain_wf rule \<and>
       (\<exists>labels. to_ascii_lowercase (trim_end_by (\<lambda>c. c = DOT) name) = labels @ rule \<and>
          (labels = [] \<or> last labels = DOT)))"
proof -
  have wf: "rule \<in> set (domains rules) \<Longrightarrow> domain_wf rule" for rule
    using BypassRules_parse_wf [OF assms(1)] by (simp add: rules_wf_def)
  have "n = rule \<or> ends_with n (DOT # rule) \<longleftrightarrow>
      (\<exists>labels. n = labels @ rule \<and> (labels = [] \<or> last labels = DOT))" for n rule
    by (auto simp: ends_with_suffix suffix_def)
      (metis append.assoc append_Cons append_Nil append_butlast_last_id)
  with wf assms(2) show ?thesis by (auto simp: bypass_matches_def Let_def)
qed

theorem parsed_domain_bypass_witness:
  "\<exists>rules. BypassRules_parse (u ''.Example.com'') = Inr (Some rules) \<and> \<not> wildcard rules \<and>
     bypass_matches rules (Domain (u ''a.example.com'')) \<and>
     \<not> bypass_matches rules (Domain (u ''badexample.com''))"
proof -
  let ?r = "\<lparr>wildcard = False, domains = [u ''example.com''], addresses = [], blocks = []\<rparr>"
  have p: "BypassRules_parse (u ''.Example.com'') = Inr (Some ?r)"
    by (simp add: BypassRules_parse_def bypass_entry_def text_defs unbracket_def parse_ip_defs)
  have w: "\<not> wildcard ?r" by simp
  have "bypass_matches ?r (Domain (u ''a.example.com''))"
    by (simp add: bypass_matches_def text_defs)
  moreover have "\<not> bypass_matches ?r (Domain (u ''badexample.com''))"
    by (simp add: bypass_matches_def text_defs)
  ultimately show ?thesis
    using p w parsed_domain_bypass [OF p w, of "u ''a.example.com''"] by blast
qed

end
