(* ===== verification/Utf8.thy ===== *)
theory Utf8
  imports Prelude
begin

text \<open>
  UTF-8 as \<open>std::str\<close> has it: \<open>encode_utf8\<close> is the byte image of a string, \<open>decode_utf8\<close> is
  \<open>str::from_utf8\<close>, which accepts exactly the shortest encodings of scalar values, and
  \<open>from_utf8_lossy\<close> its total variant. Bytes are natural numbers below 256.
\<close>

type_synonym bytes = "nat list"

definition scalar :: "uchar \<Rightarrow> bool" where
  "scalar c \<longleftrightarrow> c < 0xD800 \<or> 0xE000 \<le> c \<and> c < 0x110000"

definition wf_text :: "ustr \<Rightarrow> bool" where
  "wf_text s = list_all scalar s"

definition encode_utf8_char :: "uchar \<Rightarrow> bytes" where
  "encode_utf8_char c =
     (if c < 0x80 then [c]
      else if c < 0x800 then [0xC0 + c div 64, 0x80 + c mod 64]
      else if c < 0x10000 then [0xE0 + c div 4096, 0x80 + c div 64 mod 64, 0x80 + c mod 64]
      else [0xF0 + c div 262144, 0x80 + c div 4096 mod 64, 0x80 + c div 64 mod 64, 0x80 + c mod 64])"

definition encode_utf8 :: "ustr \<Rightarrow> bytes" where
  "encode_utf8 s = concat (map encode_utf8_char s)"

definition continuation :: "nat \<Rightarrow> bool" where
  "continuation b \<longleftrightarrow> 0x80 \<le> b \<and> b < 0xC0"

text \<open>One character off the front, or \<open>None\<close> where the bytes do not start one.\<close>

definition next_char :: "bytes \<Rightarrow> (uchar \<times> bytes) option" where
  "next_char bs =
     (case bs of
        [] \<Rightarrow> None
      | b # r \<Rightarrow>
          if b < 0x80 then Some (b, r)
          else if 0xC2 \<le> b \<and> b < 0xE0
          then (case r of
                  b1 # r \<Rightarrow> if continuation b1 then Some ((b - 0xC0) * 64 + (b1 - 0x80), r) else None
                | _ \<Rightarrow> None)
          else if 0xE0 \<le> b \<and> b < 0xF0
          then (case r of
                  b1 # b2 # r \<Rightarrow>
                    (let c = (b - 0xE0) * 4096 + (b1 - 0x80) * 64 + (b2 - 0x80)
                     in if continuation b1 \<and> continuation b2 \<and> 0x800 \<le> c \<and> scalar c
                        then Some (c, r) else None)
                | _ \<Rightarrow> None)
          else if 0xF0 \<le> b \<and> b < 0xF5
          then (case r of
                  b1 # b2 # b3 # r \<Rightarrow>
                    (let c = (b - 0xF0) * 262144 + (b1 - 0x80) * 4096 + (b2 - 0x80) * 64 + (b3 - 0x80)
                     in if continuation b1 \<and> continuation b2 \<and> continuation b3 \<and> 0x10000 \<le> c \<and> scalar c
                        then Some (c, r) else None)
                | _ \<Rightarrow> None)
          else None)"

lemma next_char_length: "next_char bs = Some (c, r) \<Longrightarrow> length r < length bs"
  by (auto simp: next_char_def Let_def split: list.splits if_splits)

function decode_utf8 :: "bytes \<Rightarrow> ustr option" where
  "decode_utf8 bs =
     (if bs = [] then Some []
      else case next_char bs of
             None \<Rightarrow> None
           | Some (c, r) \<Rightarrow> map_option (\<lambda>s. c # s) (decode_utf8 r))"
  by pat_completeness auto
termination
  by (relation "measure length") (auto dest: next_char_length)

declare decode_utf8.simps [simp del]

lemma next_char_encode: "scalar c \<Longrightarrow> next_char (encode_utf8_char c @ r) = Some (c, r)"
proof -
  assume c: "scalar c"
  have q: "c div 4096 div 64 = c div 262144" "c div 64 div 64 = c div 4096" by (simp_all add: div_mult2_eq [symmetric])
  have parts: "c = c div 64 * 64 + c mod 64" "c div 64 = c div 4096 * 64 + c div 64 mod 64"
    "c div 4096 = c div 262144 * 64 + c div 4096 mod 64"
    using div_mult_mod_eq [of c 64] div_mult_mod_eq [of "c div 64" 64] div_mult_mod_eq [of "c div 4096" 64]
    by (simp_all add: q)
  have small: "c mod 64 < 64" "c div 64 mod 64 < 64" "c div 4096 mod 64 < 64" by simp_all
  consider "c < 0x80" | "0x80 \<le> c" "c < 0x800" | "0x800 \<le> c" "c < 0x10000" | "0x10000 \<le> c" by linarith
  then show ?thesis
  proof cases
    case 1
    then show ?thesis by (simp add: next_char_def encode_utf8_char_def)
  next
    case 2
    define k m where "k = c div 64" and "m = c mod 64"
    have "c = k * 64 + m" "m < 64" using parts(1) small(1) by (simp_all add: k_def m_def)
    moreover have "2 \<le> k" "k < 32" using 2 unfolding k_def by linarith+
    moreover have "encode_utf8_char c = [0xC0 + k, 0x80 + m]"
      using 2 by (simp add: encode_utf8_char_def k_def m_def)
    ultimately show ?thesis by (simp add: next_char_def continuation_def)
  next
    case 3
    then have "c div 4096 < 16" by auto
    moreover have "c div 4096 * 4096 + c div 64 mod 64 * 64 + c mod 64 = c" using parts(1,2) by linarith
    ultimately show ?thesis using 3 small c
      by (simp add: next_char_def encode_utf8_char_def continuation_def Let_def)
  next
    case 4
    then have "c div 262144 < 5" using c by (auto simp: scalar_def)
    moreover have "c div 262144 * 262144 + c div 4096 mod 64 * 4096 + c div 64 mod 64 * 64 + c mod 64 = c"
      using parts by linarith
    ultimately show ?thesis using 4 small c
      by (simp add: next_char_def encode_utf8_char_def continuation_def Let_def)
  qed
qed

lemma encode_utf8_char_ne: "encode_utf8_char c \<noteq> []"
  by (simp add: encode_utf8_char_def)

lemma encode_utf8_Cons: "encode_utf8 (c # s) = encode_utf8_char c @ encode_utf8 s"
  by (simp add: encode_utf8_def)

text \<open>Decoding the bytes of a text gives the text back.\<close>

lemma decode_encode_utf8: "wf_text s \<Longrightarrow> decode_utf8 (encode_utf8 s) = Some s"
proof (induction s)
  case Nil
  show ?case by (simp add: encode_utf8_def decode_utf8.simps)
next
  case (Cons c s)
  then show ?case
    by (subst decode_utf8.simps) (simp add: encode_utf8_Cons encode_utf8_char_ne next_char_encode wf_text_def)
qed

lemma length_encode_utf8_char: "length (encode_utf8_char c) = len_utf8 c"
  by (simp add: encode_utf8_char_def len_utf8_def)

lemma length_encode_utf8: "length (encode_utf8 s) = byte_len s"
  by (induction s) (simp_all add: encode_utf8_def byte_len_def length_encode_utf8_char)

lemma next_char_scalar: "next_char bs = Some (c, r) \<Longrightarrow> scalar c"
  by (auto simp: next_char_def Let_def scalar_def continuation_def split: list.splits if_splits)

lemma decode_utf8_wf: "decode_utf8 bs = Some s \<Longrightarrow> wf_text s"
proof (induction bs arbitrary: s rule: decode_utf8.induct)
  case (1 bs)
  show ?case
  proof (cases "bs = []")
    case True
    then show ?thesis using "1.prems" by (simp add: decode_utf8.simps wf_text_def)
  next
    case False
    then obtain c r t where n: "next_char bs = Some (c, r)" "decode_utf8 r = Some t" "s = c # t"
      using "1.prems" by (auto simp: decode_utf8.simps [of bs] split: option.splits)
    then show ?thesis using "1.IH" [OF False n(1) refl n(2)] next_char_scalar [OF n(1)] by (simp add: wf_text_def)
  qed
qed

section \<open>Lossy decoding\<close>

text \<open>
  \<open>Utf8Error\<close> of \<open>str::from_utf8\<close>: the longest decodable prefix, and at the first byte that
  does not start a character, how many bytes are proven invalid; \<open>None\<close> when the input ended
  within a character.
\<close>

function valid_prefix :: "bytes \<Rightarrow> ustr \<times> bytes" where
  "valid_prefix bs =
     (case next_char bs of
        None \<Rightarrow> ([], bs)
      | Some (c, r) \<Rightarrow> let (s, rest) = valid_prefix r in (c # s, rest))"
  by pat_completeness auto
termination
  by (relation "measure length") (auto dest: next_char_length)

declare valid_prefix.simps [simp del]

definition second_ok :: "nat \<Rightarrow> nat \<Rightarrow> bool" where
  "second_ok b b1 \<longleftrightarrow>
     (if b = 0xE0 then 0xA0 \<le> b1 \<and> b1 \<le> 0xBF
      else if b = 0xED then 0x80 \<le> b1 \<and> b1 \<le> 0x9F
      else if b = 0xF0 then 0x90 \<le> b1 \<and> b1 \<le> 0xBF
      else if b = 0xF4 then 0x80 \<le> b1 \<and> b1 \<le> 0x8F
      else continuation b1)"

definition error_len :: "bytes \<Rightarrow> nat option" where
  "error_len bs =
     (case bs of
        [] \<Rightarrow> None
      | b # r \<Rightarrow>
          if 0xC2 \<le> b \<and> b < 0xE0 then (if r = [] then None else Some 1)
          else if 0xE0 \<le> b \<and> b < 0xF0
          then (case r of
                  [] \<Rightarrow> None
                | b1 # r1 \<Rightarrow> if \<not> second_ok b b1 then Some 1 else if r1 = [] then None else Some 2)
          else if 0xF0 \<le> b \<and> b < 0xF5
          then (case r of
                  [] \<Rightarrow> None
                | b1 # r1 \<Rightarrow>
                    if \<not> second_ok b b1 then Some 1
                    else case r1 of
                           [] \<Rightarrow> None
                         | b2 # r2 \<Rightarrow> if \<not> continuation b2 then Some 2 else if r2 = [] then None else Some 3)
          else Some 1)"

abbreviation (input) REPLACEMENT :: uchar where "REPLACEMENT \<equiv> 0xFFFD"

lemma valid_prefix_length: "length (snd (valid_prefix bs)) \<le> length bs"
proof (induction bs rule: valid_prefix.induct)
  case (1 bs)
  then show ?case
    by (subst valid_prefix.simps)
      (force dest: next_char_length split: option.splits prod.splits)
qed

text \<open>\<open>String::from_utf8_lossy\<close>: a replacement character for every proven-invalid run.\<close>

function from_utf8_lossy :: "bytes \<Rightarrow> ustr" where
  "from_utf8_lossy bs =
     (let (s, rest) = valid_prefix bs
      in if rest = [] then s
         else s @ [REPLACEMENT] @
           (case error_len rest of None \<Rightarrow> [] | Some k \<Rightarrow> from_utf8_lossy (drop (max 1 k) rest)))"
  by pat_completeness auto
termination
proof (relation "measure length")
  show "(drop (max 1 k) rest, bs) \<in> measure length"
    if "x = valid_prefix bs" "(s, rest) = x" "rest \<noteq> []" for bs x s rest k
  proof -
    have "length rest \<le> length bs" using that(1,2) valid_prefix_length [of bs] by (metis snd_conv)
    moreover have "0 < length rest" using that(3) by simp
    ultimately show ?thesis unfolding in_measure length_drop by linarith
  qed
qed simp

declare from_utf8_lossy.simps [simp del]

end
