(* ===== verification/Net_Client.thy ===== *)
theory Net_Client
  imports Net_Policy Utf8
begin

text \<open>
  The bounded HTTP client (\<open>crates/net/src/http_client.rs\<close>, \<open>redirect.rs\<close>, \<open>body.rs\<close>,
  \<open>deadline.rs\<close>, \<open>retry.rs\<close>, \<open>http_error.rs\<close>, \<open>transport.rs\<close>). The network, the clock and
  the third-party parsers are the environment \<open>net_env\<close>, a record of functions indexed by the
  attempt and hop at which they are asked, so that answers may change over time. Every
  operation returns, beside its result, the list of requests it handed to the transport; the
  theorems speak about that list.
\<close>

section \<open>Requests, responses and errors\<close>

text \<open>A header value is what \<open>HeaderValue::to_str\<close> reads off it: \<open>None\<close> when it is not text.\<close>

type_synonym HeaderMap = "(ustr \<times> ustr option) list"

record TransportError =
  message :: ustr
  proxy_flag :: bool

datatype NetError =
    Policy UrlPolicyError
  | RequestBodyTooLarge nat
  | ReservedHeader ustr
  | Dns ustr
  | EmptyDnsAnswer ustr
  | Transport TransportError
  | ProxyError ustr
  | Redirect ustr
  | Timeout
  | Cancelled

definition from_transport_error :: "TransportError \<Rightarrow> NetError" where
  "from_transport_error e =
     (if proxy_flag e then ProxyError (u ''HTTP transport failed: '' @ message e) else Transport e)"

definition is_retryable :: "NetError \<Rightarrow> bool" where
  "is_retryable e =
     (case e of Dns _ \<Rightarrow> True | EmptyDnsAnswer _ \<Rightarrow> True | Transport _ \<Rightarrow> True | _ \<Rightarrow> False)"

text \<open>
  How a stage raced against cancellation and the deadline ends: cancelled first, timed out, or
  finished with a result, with the flag whether the deadline had passed when it was seen.
\<close>

datatype 'a StageOutcome = StageCancelled | StageTimeout | StageDone bool 'a

definition run_until :: "'a StageOutcome \<Rightarrow> NetError + 'a" where
  "run_until s =
     (case s of StageCancelled \<Rightarrow> Inl Cancelled | StageTimeout \<Rightarrow> Inl Timeout | StageDone _ r \<Rightarrow> Inr r)"

definition try_run_until :: "('e \<Rightarrow> NetError) \<Rightarrow> ('e + 'a) StageOutcome \<Rightarrow> NetError + 'a" where
  "try_run_until into s =
     (case run_until s of
        Inl e \<Rightarrow> Inl e
      | Inr (Inr r) \<Rightarrow> Inr r
      | Inr (Inl e) \<Rightarrow>
          (case s of StageDone late _ \<Rightarrow> Inl (if late then Timeout else into e) | _ \<Rightarrow> Inl (into e)))"

datatype TransportRoute = RouteDirect "IpAddr list" | RouteProxy ProxyEndpoint

record TransportRequest =
  tr_method :: ustr
  tr_url :: Url
  tr_headers :: HeaderMap
  tr_body :: "bytes option"
  tr_route :: TransportRoute
  tr_timeout :: nat

record TransportResponse =
  rs_status :: nat
  rs_headers :: HeaderMap
  rs_body :: "(TransportError + bytes) StageOutcome list"

record RetryPolicy =
  max_retries :: nat
  base_delay :: nat
  max_delay :: nat
  statuses :: "nat list"

datatype RedirectScope = SameOrigin | AnyOrigin

record FetchOptions =
  max_redirects :: nat
  max_body_bytes :: nat
  headers :: HeaderMap
  retry :: RetryPolicy

record RequestSpec =
  rq_method :: ustr
  rq_url :: Url
  rq_body :: "bytes option"
  redirects :: RedirectScope
  options :: FetchOptions

record BoundedResponse =
  br_status :: nat
  br_headers :: HeaderMap
  br_url :: Url
  br_body :: bytes
  br_truncated :: bool

record HttpClient =
  policy :: UrlPolicy
  proxy :: ProxyConfiguration

text \<open>The environment: clock and network indexed by (attempt, hop), and third-party functions.\<close>

type_synonym tick = "nat \<times> nat"

record net_env =
  env_url_parse :: "ustr \<Rightarrow> Url option"
  env_url_join :: "Url \<Rightarrow> ustr \<Rightarrow> Url option"
  env_is_idempotent :: "ustr \<Rightarrow> bool"
  env_http_date :: "tick \<Rightarrow> ustr \<Rightarrow> nat option"
  env_resolve :: "tick \<Rightarrow> ustr \<Rightarrow> (ustr + IpAddr list) StageOutcome"
  env_left :: "tick \<Rightarrow> nat option"
  env_execute :: "tick \<Rightarrow> TransportRequest \<Rightarrow> (TransportError + TransportResponse) StageOutcome"
  env_sleep :: "tick \<Rightarrow> nat \<Rightarrow> unit StageOutcome"

section \<open>Headers and origins\<close>

definition header_get :: "HeaderMap \<Rightarrow> ustr \<Rightarrow> ustr option option" where
  "header_get hs name = map_option snd (find (\<lambda>(n, _). n = name) hs)"

definition location :: "HeaderMap \<Rightarrow> ustr option" where
  "location hs = (case header_get hs (u ''location'') of Some (Some v) \<Rightarrow> Some v | _ \<Rightarrow> None)"

definition safe_headers :: "ustr list" where
  "safe_headers =
     [u ''accept'', u ''accept-language'', u ''cache-control'', u ''pragma'', u ''range'',
      u ''user-agent'']"

definition cross_origin_headers :: "HeaderMap \<Rightarrow> HeaderMap" where
  "cross_origin_headers hs = concat (map (\<lambda>name. filter (\<lambda>(n, _). n = name) hs) safe_headers)"

definition same_origin :: "Url \<Rightarrow> Url \<Rightarrow> bool" where
  "same_origin l r \<longleftrightarrow>
     scheme l = scheme r \<and> host l = host r \<and> port_or_known_default l = port_or_known_default r"

definition is_redirect :: "nat \<Rightarrow> bool" where
  "is_redirect status \<longleftrightarrow> status \<in> {301, 302, 303, 307, 308}"

definition leaves_origin :: "net_env \<Rightarrow> Url \<Rightarrow> ustr \<Rightarrow> bool" where
  "leaves_origin env url loc =
     (case env_url_join env url loc of Some nxt \<Rightarrow> \<not> same_origin url nxt | None \<Rightarrow> False)"

definition redirect_location :: "TransportResponse \<Rightarrow> NetError + ustr option" where
  "redirect_location response =
     (if \<not> is_redirect (rs_status response) then Inr None
      else case location (rs_headers response) of
             Some loc \<Rightarrow> Inr (Some loc)
           | None \<Rightarrow> Inl (Redirect (u ''missing Location header'')))"

definition replayable_redirect_location :: "net_env \<Rightarrow> TransportResponse \<Rightarrow> Url \<Rightarrow> ustr option" where
  "replayable_redirect_location env response url =
     (if rs_status response \<noteq> 307 \<and> rs_status response \<noteq> 308 then None
      else case location (rs_headers response) of
             None \<Rightarrow> None
           | Some loc \<Rightarrow>
               (case env_url_join env url loc of
                  Some nxt \<Rightarrow> if same_origin url nxt then Some loc else None
                | None \<Rightarrow> None))"

definition followed_location ::
  "net_env \<Rightarrow> RequestSpec \<Rightarrow> TransportResponse \<Rightarrow> Url \<Rightarrow> NetError + ustr option" where
  "followed_location env request response url =
     (if rq_method request \<noteq> u ''GET'' \<or> rq_body request \<noteq> None
      then Inr (replayable_redirect_location env response url)
      else case redirect_location response of
             Inl e \<Rightarrow> Inl e
           | Inr loc \<Rightarrow>
               (case redirects request of
                  AnyOrigin \<Rightarrow> Inr loc
                | SameOrigin \<Rightarrow>
                    Inr (case loc of
                           Some l \<Rightarrow> if leaves_origin env url l then None else Some l
                         | None \<Rightarrow> None)))"

section \<open>One hop\<close>

fun validate_answers :: "UrlPolicy \<Rightarrow> IpAddr list \<Rightarrow> UrlPolicyError + unit" where
  "validate_answers p [] = Inr ()"
| "validate_answers p (a # as) =
     (case validate_ip p a of Inl e \<Rightarrow> Inl e | Inr _ \<Rightarrow> validate_answers p as)"

definition resolve_target :: "net_env \<Rightarrow> HttpClient \<Rightarrow> tick \<Rightarrow> Url \<Rightarrow> NetError + IpAddr list" where
  "resolve_target env client t url =
     (case host url of
        None \<Rightarrow> Inl (Policy MissingHost)
      | Some (Ipv4 a) \<Rightarrow>
          (case validate_ip (policy client) (V4 a) of
             Inl e \<Rightarrow> Inl (Policy e) | Inr _ \<Rightarrow> Inr [V4 a])
      | Some (Ipv6 a) \<Rightarrow>
          (case validate_ip (policy client) (V6 a) of
             Inl e \<Rightarrow> Inl (Policy e) | Inr _ \<Rightarrow> Inr [V6 a])
      | Some (Domain hostname) \<Rightarrow>
          (case try_run_until Dns (env_resolve env t hostname) of
             Inl e \<Rightarrow> Inl e
           | Inr answers \<Rightarrow>
               if answers = [] then Inl (EmptyDnsAnswer hostname)
               else case validate_answers (policy client) answers of
                      Inl e \<Rightarrow> Inl (Policy e) | Inr _ \<Rightarrow> Inr answers))"

definition remaining :: "net_env \<Rightarrow> tick \<Rightarrow> NetError + nat" where
  "remaining env t =
     (case env_left env t of Some d \<Rightarrow> if d = 0 then Inl Timeout else Inr d | None \<Rightarrow> Inl Timeout)"

definition execute_hop ::
  "net_env \<Rightarrow> HttpClient \<Rightarrow> RequestSpec \<Rightarrow> tick \<Rightarrow> Url \<Rightarrow> HeaderMap \<Rightarrow>
     TransportRequest list \<times> (NetError + TransportResponse)" where
  "execute_hop env client request t url hs =
     (case validate_url (policy client) url of
        Inl e \<Rightarrow> ([], Inl (Policy e))
      | Inr _ \<Rightarrow>
      case (case route (proxy client) url of
              Proxy endpoint \<Rightarrow> Inr (RouteProxy endpoint)
            | Direct \<Rightarrow>
                (case resolve_target env client t url of
                   Inl e \<Rightarrow> Inl e | Inr answers \<Rightarrow> Inr (RouteDirect answers))) of
        Inl e \<Rightarrow> ([], Inl e)
      | Inr r \<Rightarrow>
      case remaining env t of
        Inl e \<Rightarrow> ([], Inl e)
      | Inr left \<Rightarrow>
          (let hop = \<lparr>tr_method = rq_method request, tr_url = url, tr_headers = hs,
                      tr_body = rq_body request, tr_route = r, tr_timeout = left\<rparr>
           in ([hop], try_run_until from_transport_error (env_execute env t hop))))"

fun read_chunks ::
  "nat \<Rightarrow> bytes \<Rightarrow> (TransportError + bytes) StageOutcome list \<Rightarrow> NetError + (bytes \<times> bool)" where
  "read_chunks limit out [] = Inr (out, False)"
| "read_chunks limit out (c # cs) =
     (case try_run_until from_transport_error c of
        Inl e \<Rightarrow> Inl e
      | Inr chunk \<Rightarrow>
          (let room = limit - length out
           in if length chunk > room then Inr (out @ take room chunk, True)
              else read_chunks limit (out @ chunk) cs))"

definition read_bounded_body ::
  "TransportResponse \<Rightarrow> nat \<Rightarrow> Url \<Rightarrow> NetError + BoundedResponse" where
  "read_bounded_body response limit url =
     (case read_chunks limit [] (rs_body response) of
        Inl e \<Rightarrow> Inl e
      | Inr (bytes, truncated) \<Rightarrow>
          Inr \<lparr>br_status = rs_status response, br_headers = rs_headers response, br_url = url,
               br_body = bytes, br_truncated = truncated\<rparr>)"

section \<open>The redirect chain and the retry loop\<close>

text \<open>\<open>k\<close> redirects may still be followed; \<open>hop\<close> counts the hops of this attempt.\<close>

fun fetch_from ::
  "net_env \<Rightarrow> HttpClient \<Rightarrow> RequestSpec \<Rightarrow> nat \<Rightarrow> nat \<Rightarrow> nat \<Rightarrow> Url \<Rightarrow> HeaderMap \<Rightarrow>
     TransportRequest list \<times> (NetError + BoundedResponse)" where
  "fetch_from env client request k attempt hop url hs =
     (let (sent, result) = execute_hop env client request (attempt, hop) url hs
      in case result of
           Inl e \<Rightarrow> (sent, Inl e)
         | Inr response \<Rightarrow>
         case followed_location env request response url of
           Inl e \<Rightarrow> (sent, Inl e)
         | Inr None \<Rightarrow>
             (sent, read_bounded_body response (max_body_bytes (options request)) url)
         | Inr (Some loc) \<Rightarrow>
         case k of
           0 \<Rightarrow> (sent, Inl (Redirect (u ''redirect limit exceeded'')))
         | Suc k' \<Rightarrow>
         case parse_url (env_url_parse env) (env_url_join env) (policy client) loc (Some url) of
           Inl e \<Rightarrow> (sent, Inl (Policy e))
         | Inr nxt \<Rightarrow>
             (let hs' = (if same_origin url nxt then hs else cross_origin_headers hs);
                  (sent', result') = fetch_from env client request k' attempt (Suc hop) nxt hs'
              in (sent @ sent', result')))"

declare fetch_from.simps [simp del]

abbreviation MAX_REDIRECTS :: nat where "MAX_REDIRECTS \<equiv> 20"
abbreviation MAX_RETRIES :: nat where "MAX_RETRIES \<equiv> 3"
abbreviation MAX_REQUEST_BODY_BYTES :: nat where "MAX_REQUEST_BODY_BYTES \<equiv> 1048576"

definition fetch_redirect_chain ::
  "net_env \<Rightarrow> HttpClient \<Rightarrow> RequestSpec \<Rightarrow> nat \<Rightarrow>
     TransportRequest list \<times> (NetError + BoundedResponse)" where
  "fetch_redirect_chain env client request attempt =
     fetch_from env client request (min (max_redirects (options request)) MAX_REDIRECTS) attempt 0
       (rq_url request) (headers (options request))"

definition duration_max :: nat where
  "duration_max = 2 ^ 64 * 1000000000 - 1"

definition retry_after_delay :: "net_env \<Rightarrow> tick \<Rightarrow> HeaderMap \<Rightarrow> nat option" where
  "retry_after_delay env t hs =
     (case header_get hs (u ''retry-after'') of
        Some (Some v) \<Rightarrow>
          (case parse_u64 (trim v) of
             Some seconds \<Rightarrow> Some (seconds * 1000000000)
           | None \<Rightarrow> env_http_date env t (trim v))
      | _ \<Rightarrow> None)"

definition delay_for :: "net_env \<Rightarrow> tick \<Rightarrow> RetryPolicy \<Rightarrow> nat \<Rightarrow> HeaderMap option \<Rightarrow> nat" where
  "delay_for env t p retry_number hs =
     (case Option.bind hs (retry_after_delay env t) of
        Some delay \<Rightarrow> min delay (max_delay p)
      | None \<Rightarrow>
          min (min duration_max (base_delay p * 2 ^ min (min retry_number (2 ^ 32 - 1)) 31))
            (max_delay p))"

text \<open>\<open>n\<close> retries are left after this attempt.\<close>

fun attempts ::
  "net_env \<Rightarrow> HttpClient \<Rightarrow> RequestSpec \<Rightarrow> nat \<Rightarrow> nat \<Rightarrow>
     TransportRequest list \<times> (NetError + BoundedResponse)" where
  "attempts env client request n attempt =
     (let (sent, result) = fetch_redirect_chain env client request attempt;
          p = retry (options request);
          wait = (case result of
                    Inr response \<Rightarrow>
                      if br_status response \<in> set (statuses p)
                      then Some (delay_for env (attempt, 0) p attempt (Some (br_headers response)))
                      else None
                  | Inl e \<Rightarrow>
                      if is_retryable e then Some (delay_for env (attempt, 0) p attempt None)
                      else None)
      in case (wait, n) of
           (Some delay, Suc n') \<Rightarrow>
             (case run_until (env_sleep env (attempt, 0) delay) of
                Inl e \<Rightarrow> (sent, Inl e)
              | Inr _ \<Rightarrow>
                  (let (sent', result') = attempts env client request n' (Suc attempt)
                   in (sent @ sent', result')))
         | _ \<Rightarrow> (sent, result))"

declare attempts.simps [simp del]

definition reserved_headers :: "ustr list" where
  "reserved_headers =
     [u ''host'', u ''content-length'', u ''transfer-encoding'', u ''connection'', u ''keep-alive'',
      u ''te'', u ''trailer'', u ''upgrade'', u ''expect'']"

definition is_reserved :: "ustr \<Rightarrow> bool" where
  "is_reserved name \<longleftrightarrow> name \<in> set reserved_headers \<or> starts_with name (u ''proxy-'')"

definition request ::
  "net_env \<Rightarrow> HttpClient \<Rightarrow> RequestSpec \<Rightarrow> TransportRequest list \<times> (NetError + BoundedResponse)" where
  "request env client spec =
     (case validate_url (policy client) (rq_url spec) of
        Inl e \<Rightarrow> ([], Inl (Policy e))
      | Inr _ \<Rightarrow>
      case Option.bind (rq_body spec)
             (\<lambda>b. if length b > MAX_REQUEST_BODY_BYTES then Some (length b) else None) of
        Some n \<Rightarrow> ([], Inl (RequestBodyTooLarge n))
      | None \<Rightarrow>
      case find is_reserved (map fst (headers (options spec))) of
        Some name \<Rightarrow> ([], Inl (ReservedHeader name))
      | None \<Rightarrow>
          attempts env client spec
            (if env_is_idempotent env (rq_method spec)
             then min (max_retries (retry (options spec))) MAX_RETRIES else 0) 0)"

definition get_url ::
  "net_env \<Rightarrow> HttpClient \<Rightarrow> Url \<Rightarrow> FetchOptions \<Rightarrow> TransportRequest list \<times> (NetError + BoundedResponse)" where
  "get_url env client url opts =
     request env client
       \<lparr>rq_method = u ''GET'', rq_url = url, rq_body = None, redirects = AnyOrigin, options = opts\<rparr>"

definition http_get ::
  "net_env \<Rightarrow> HttpClient \<Rightarrow> ustr \<Rightarrow> FetchOptions \<Rightarrow> TransportRequest list \<times> (NetError + BoundedResponse)" where
  "http_get env client value opts =
     (case parse_url (env_url_parse env) (env_url_join env) (policy client) value None of
        Inl e \<Rightarrow> ([], Inl (Policy e))
      | Inr url \<Rightarrow> get_url env client url opts)"

section \<open>Bounded chains\<close>

text \<open>
  The contract shared by the redirect chain and the retry loop: a configuration is worked on
  once, which hands at most \<open>width\<close> requests to the transport, and the run either ends there
  or steps to a next configuration with one unit of its allowance spent.
\<close>

locale bounded_chain =
  fixes work :: "'c \<Rightarrow> 'r list"
    and chain :: "nat \<Rightarrow> 'c \<Rightarrow> 'r list"
    and step :: "'c \<Rightarrow> 'c \<Rightarrow> bool"
    and width :: nat
  assumes work_width: "length (work c) \<le> width"
    and chain_unfold:
      "chain k c = work c \<or> (\<exists>k' c'. k = Suc k' \<and> step c c' \<and> chain k c = work c @ chain k' c')"
begin

lemma chain_length: "length (chain k c) \<le> Suc k * width"
proof (induction k arbitrary: c)
  case 0
  show ?case using chain_unfold [of 0 c] work_width [of c] by auto
next
  case (Suc k)
  from chain_unfold [of "Suc k" c] show ?case
  proof
    assume "chain (Suc k) c = work c"
    then show ?thesis using work_width [of c] by simp
  next
    assume "\<exists>k' c'. Suc k = Suc k' \<and> step c c' \<and> chain (Suc k) c = work c @ chain k' c'"
    then obtain c' where "chain (Suc k) c = work c @ chain k c'" by auto
    then show ?thesis using work_width [of c] Suc.IH [of c'] by simp
  qed
qed

lemma chain_invariant:
  assumes "x \<in> set (chain k c)" and "I c"
    and keep: "\<And>c c'. I c \<Longrightarrow> step c c' \<Longrightarrow> I c'"
    and holds: "\<And>c r. I c \<Longrightarrow> r \<in> set (work c) \<Longrightarrow> P r"
  shows "P x"
  using assms(1,2)
proof (induction k arbitrary: c)
  case 0
  then show ?case using chain_unfold [of 0 c] holds by auto
next
  case (Suc k)
  from chain_unfold [of "Suc k" c] show ?case
  proof
    assume "chain (Suc k) c = work c"
    then show ?thesis using Suc.prems holds by simp
  next
    assume "\<exists>k' c'. Suc k = Suc k' \<and> step c c' \<and> chain (Suc k) c = work c @ chain k' c'"
    then obtain c' where "step c c'" and "chain (Suc k) c = work c @ chain k c'" by auto
    then show ?thesis using Suc.prems Suc.IH [of c'] holds keep by auto
  qed
qed

end

definition hop_work ::
  "net_env \<Rightarrow> HttpClient \<Rightarrow> RequestSpec \<Rightarrow> nat \<Rightarrow> nat \<times> Url \<times> HeaderMap \<Rightarrow> TransportRequest list" where
  "hop_work env client spec attempt c =
     (case c of (hop, url, hs) \<Rightarrow> fst (execute_hop env client spec (attempt, hop) url hs))"

definition hop_step ::
  "net_env \<Rightarrow> HttpClient \<Rightarrow> RequestSpec \<Rightarrow> nat \<times> Url \<times> HeaderMap \<Rightarrow> nat \<times> Url \<times> HeaderMap \<Rightarrow> bool" where
  "hop_step env client spec c c' =
     (case (c, c') of ((hop, url, hs), (hop', nxt, hs')) \<Rightarrow>
        (\<exists>response loc. followed_location env spec response url = Inr (Some loc) \<and>
           env_url_join env url loc = Some nxt) \<and>
        validate_url (policy client) nxt = Inr () \<and>
        hs' = (if same_origin url nxt then hs else cross_origin_headers hs))"

definition hop_chain ::
  "net_env \<Rightarrow> HttpClient \<Rightarrow> RequestSpec \<Rightarrow> nat \<Rightarrow> nat \<Rightarrow> nat \<times> Url \<times> HeaderMap \<Rightarrow> TransportRequest list" where
  "hop_chain env client spec attempt k c =
     (case c of (hop, url, hs) \<Rightarrow> fst (fetch_from env client spec k attempt hop url hs))"

lemma execute_hop_length: "length (fst (execute_hop env client spec t url hs)) \<le> 1"
  by (auto simp: execute_hop_def Let_def split: sum.splits)

lemma parse_url_join:
  "parse_url up uj pol loc (Some url) = Inr nxt \<Longrightarrow> uj url loc = Some nxt \<and> validate_url pol nxt = Inr ()"
  by (auto simp: parse_url_def split: if_splits option.splits sum.splits)

lemma fetch_from_unfold:
  "(fetch_from env client spec k attempt hop url hs =
      (fst (execute_hop env client spec (attempt, hop) url hs),
       snd (fetch_from env client spec k attempt hop url hs)) \<and>
    (\<forall>response. snd (fetch_from env client spec k attempt hop url hs) = Inr response \<longrightarrow>
       (\<exists>raw. snd (execute_hop env client spec (attempt, hop) url hs) = Inr raw \<and>
          read_bounded_body raw (max_body_bytes (options spec)) url = Inr response))) \<or>
   (\<exists>k' nxt hs'. k = Suc k' \<and> hop_step env client spec (hop, url, hs) (Suc hop, nxt, hs') \<and>
      fetch_from env client spec k attempt hop url hs =
        (fst (execute_hop env client spec (attempt, hop) url hs) @
           fst (fetch_from env client spec k' attempt (Suc hop) nxt hs'),
         snd (fetch_from env client spec k' attempt (Suc hop) nxt hs')))"
proof (cases "snd (execute_hop env client spec (attempt, hop) url hs)")
  case (Inl e)
  then show ?thesis by (simp add: fetch_from.simps [of _ _ _ k] case_prod_unfold Let_def)
next
  case (Inr raw)
  note raw = this
  show ?thesis
  proof (cases "followed_location env spec raw url")
    case (Inl e)
    with raw show ?thesis by (simp add: fetch_from.simps [of _ _ _ k] case_prod_unfold Let_def)
  next
    case (Inr loc)
    show ?thesis
    proof (cases "loc = None \<or> k = 0 \<or>
        (\<exists>e. parse_url (env_url_parse env) (env_url_join env) (policy client) (the loc) (Some url) = Inl e)")
      case True
      with raw Inr show ?thesis
        by (auto simp: fetch_from.simps [of _ _ _ k] case_prod_unfold Let_def split: option.splits nat.splits)
    next
      case False
      then obtain l k' nxt where l: "loc = Some l" "k = Suc k'"
        and nxt: "parse_url (env_url_parse env) (env_url_join env) (policy client) l (Some url) = Inr nxt"
        by (cases loc; cases k; cases "parse_url (env_url_parse env) (env_url_join env) (policy client) (the loc) (Some url)") auto
      let ?hs = "if same_origin url nxt then hs else cross_origin_headers hs"
      have "hop_step env client spec (hop, url, hs) (Suc hop, nxt, ?hs)"
        using Inr l parse_url_join [OF nxt] by (auto simp: hop_step_def)
      with raw Inr l nxt show ?thesis
        by (intro disjI2 exI [of _ k'] exI [of _ nxt] exI [of _ ?hs])
          (simp add: fetch_from.simps [of _ _ _ "Suc k'"] case_prod_unfold Let_def)
    qed
  qed
qed

interpretation hops: bounded_chain
  "hop_work env client spec attempt" "hop_chain env client spec attempt" "hop_step env client spec" 1
  for env client spec attempt
proof
  show "length (hop_work env client spec attempt c) \<le> 1" for c
    using execute_hop_length by (cases c) (simp add: hop_work_def)
  show "hop_chain env client spec attempt k c = hop_work env client spec attempt c \<or>
    (\<exists>k' c'. k = Suc k' \<and> hop_step env client spec c c' \<and>
       hop_chain env client spec attempt k c =
         hop_work env client spec attempt c @ hop_chain env client spec attempt k' c')" for k c
  proof (cases c)
    case (fields hop url hs)
    then show ?thesis
      using fetch_from_unfold [of env client spec k attempt hop url hs]
      by (auto simp: hop_work_def hop_chain_def) (metis fst_conv)+
  qed
qed

definition attempt_work ::
  "net_env \<Rightarrow> HttpClient \<Rightarrow> RequestSpec \<Rightarrow> nat \<Rightarrow> TransportRequest list" where
  "attempt_work env client spec attempt = fst (fetch_redirect_chain env client spec attempt)"

definition attempt_chain ::
  "net_env \<Rightarrow> HttpClient \<Rightarrow> RequestSpec \<Rightarrow> nat \<Rightarrow> nat \<Rightarrow> TransportRequest list" where
  "attempt_chain env client spec n attempt = fst (attempts env client spec n attempt)"

lemma fetch_redirect_chain_length:
  "length (fst (fetch_redirect_chain env client spec attempt)) \<le> Suc (min (max_redirects (options spec)) MAX_REDIRECTS)"
  using hops.chain_length [of env client spec attempt "min (max_redirects (options spec)) MAX_REDIRECTS"
      "(0, rq_url spec, headers (options spec))"]
  by (simp add: fetch_redirect_chain_def hop_chain_def)

lemma attempts_unfold:
  "attempts env client spec n attempt = fetch_redirect_chain env client spec attempt \<or>
   (\<exists>e. attempts env client spec n attempt = (fst (fetch_redirect_chain env client spec attempt), Inl e)) \<or>
   (\<exists>n'. n = Suc n' \<and> attempts env client spec n attempt =
      (fst (fetch_redirect_chain env client spec attempt) @ fst (attempts env client spec n' (Suc attempt)),
       snd (attempts env client spec n' (Suc attempt))))"
proof -
  obtain sent result where chain: "fetch_redirect_chain env client spec attempt = (sent, result)"
    by (cases "fetch_redirect_chain env client spec attempt")
  show ?thesis
    by (cases n; simp only: attempts.simps [of _ _ _ n] chain)
      (auto simp: attempts.simps [of env client spec "Suc _" attempt] attempts.simps [of env client spec 0 attempt] case_prod_unfold Let_def chain
        split: sum.splits option.splits)
qed

interpretation tries: bounded_chain
  "attempt_work env client spec" "attempt_chain env client spec" "\<lambda>a a'. a' = Suc a"
  "Suc (min (max_redirects (options spec)) MAX_REDIRECTS)"
  for env client spec
proof
  show "length (attempt_work env client spec c) \<le> Suc (min (max_redirects (options spec)) MAX_REDIRECTS)" for c
    unfolding attempt_work_def by (rule fetch_redirect_chain_length)
  show "attempt_chain env client spec k c = attempt_work env client spec c \<or>
    (\<exists>k' c'. k = Suc k' \<and> c' = Suc c \<and>
       attempt_chain env client spec k c =
         attempt_work env client spec c @ attempt_chain env client spec k' c')" for k c
    using attempts_unfold [of env client spec k c] by (auto simp: attempt_work_def attempt_chain_def)
qed

section \<open>What reaches the transport\<close>

lemma validate_answers_ok:
  "validate_answers p as = Inr v \<Longrightarrow> a \<in> set as \<Longrightarrow> validate_ip p a = Inr ()"
  by (induction as) (auto split: sum.splits)

lemma resolve_target_ok:
  "resolve_target env client t url = Inr as \<Longrightarrow>
     as \<noteq> [] \<and> (\<forall>a\<in>set as. validate_ip (policy client) a = Inr ())"
  by (auto simp: resolve_target_def intro: validate_answers_ok
      split: option.splits Host.splits sum.splits if_splits)

lemma execute_hop_request:
  assumes "r \<in> set (fst (execute_hop env client spec t url hs))"
  shows "tr_url r = url" "tr_headers r = hs" "tr_method r = rq_method spec" "tr_body r = rq_body spec"
    "validate_url (policy client) url = Inr ()"
    "tr_route r = RouteDirect as \<Longrightarrow> as \<noteq> [] \<and> (\<forall>a\<in>set as. validate_ip (policy client) a = Inr ())"
    "tr_route r = RouteProxy e \<Longrightarrow> route (proxy client) url = Proxy e"
  using assms
  by (auto simp: execute_hop_def Let_def dest: resolve_target_ok split: sum.splits ProxyRoute.splits)

text \<open>
  An invariant of (URL, headers) that holds of the request, is kept by every followed redirect
  and gives the property for the request of one hop, gives it for everything \<open>request\<close> sends.
\<close>

lemma fetch_redirect_chain_sends:
  assumes sent: "r \<in> set (fst (fetch_redirect_chain env client spec attempt))"
    and init: "I (rq_url spec) (headers (options spec))"
    and keep: "\<And>hop hop' url hs url' hs'. I url hs \<Longrightarrow>
       hop_step env client spec (hop, url, hs) (hop', url', hs') \<Longrightarrow> I url' hs'"
    and holds: "\<And>t url hs q. I url hs \<Longrightarrow> q \<in> set (fst (execute_hop env client spec t url hs)) \<Longrightarrow> P q"
  shows "P r"
proof -
  let ?c = "(0, rq_url spec, headers (options spec))"
  have "r \<in> set (hop_chain env client spec attempt (min (max_redirects (options spec)) MAX_REDIRECTS) ?c)"
    using sent by (simp add: fetch_redirect_chain_def hop_chain_def)
  then show ?thesis
    by (rule hops.chain_invariant [where I = "\<lambda>(_, url, hs). I url hs"])
      (use init in simp, use keep in fastforce, use holds in \<open>fastforce simp: hop_work_def\<close>)
qed

lemma request_attempts:
  "fst (request env client spec) = [] \<and> (\<exists>e. snd (request env client spec) = Inl e) \<or>
   validate_url (policy client) (rq_url spec) = Inr () \<and>
   request env client spec =
     attempts env client spec
       (if env_is_idempotent env (rq_method spec)
        then min (max_retries (retry (options spec))) MAX_RETRIES else 0) 0"
  by (cases "validate_url (policy client) (rq_url spec)")
    (auto simp: request_def split: option.splits)

lemma request_sends:
  assumes sent: "r \<in> set (fst (request env client spec))"
    and init: "I (rq_url spec) (headers (options spec))"
    and keep: "\<And>hop hop' url hs url' hs'. I url hs \<Longrightarrow>
       hop_step env client spec (hop, url, hs) (hop', url', hs') \<Longrightarrow> I url' hs'"
    and holds: "\<And>t url hs q. I url hs \<Longrightarrow> q \<in> set (fst (execute_hop env client spec t url hs)) \<Longrightarrow> P q"
  shows "P r"
proof -
  obtain n where "r \<in> set (attempt_chain env client spec n 0)"
    using sent request_attempts [of env client spec] by (auto simp: attempt_chain_def)
  then show ?thesis
  proof (rule tries.chain_invariant [where I = "\<lambda>_. True"])
    show "P q" if "q \<in> set (attempt_work env client spec a)" for a q
      using that unfolding attempt_work_def
      by (rule fetch_redirect_chain_sends [where I = I, OF _ init keep holds])
  qed simp_all
qed

text \<open>
  C2. Under the public-internet policy every request that \<open>request\<close> hands to the transport, on
  the first hop, after any redirect and in any retry, has an HTTP(S) URL without credentials,
  and when it is sent directly it is pinned to a non-empty list of addresses all classified
  public; a request that is sent through a proxy goes to the one the configuration selects.
\<close>

theorem request_only_public_targets:
  assumes "policy client = PublicInternet" and "r \<in> set (fst (request env client spec))"
  shows "scheme (tr_url r) \<in> {u ''http'', u ''https''} \<and> \<not> has_userinfo (tr_url r) \<and>
    (case tr_route r of
       RouteDirect as \<Rightarrow> as \<noteq> [] \<and> (\<forall>a\<in>set as. classify_ip a = Public)
     | RouteProxy e \<Rightarrow> route (proxy client) (tr_url r) = Proxy e)"
  using assms(2)
proof (rule request_sends [where I = "\<lambda>_ _. True"])
  fix t url hs q
  assume sent: "q \<in> set (fst (execute_hop env client spec t url hs))"
  have public: "validate_ip (policy client) a = Inr () \<Longrightarrow> classify_ip a = Public" for a
    using assms(1) by (auto simp: validate_ip_def validate_classified_ip_def operator_options_def is_public_def
        split: if_splits IpClassification.splits)
  have "scheme url \<in> {u ''http'', u ''https''} \<and> \<not> has_userinfo url"
    using execute_hop_request(5) [OF sent] assms(1)
    by (auto simp: validate_url_def operator_options_def split: if_splits)
  moreover have "case tr_route q of
       RouteDirect as \<Rightarrow> as \<noteq> [] \<and> (\<forall>a\<in>set as. classify_ip a = Public)
     | RouteProxy e \<Rightarrow> route (proxy client) url = Proxy e"
    using execute_hop_request(6,7) [OF sent] public by (auto split: TransportRoute.splits)
  ultimately show "scheme (tr_url q) \<in> {u ''http'', u ''https''} \<and> \<not> has_userinfo (tr_url q) \<and>
    (case tr_route q of
       RouteDirect as \<Rightarrow> as \<noteq> [] \<and> (\<forall>a\<in>set as. classify_ip a = Public)
     | RouteProxy e \<Rightarrow> route (proxy client) (tr_url q) = Proxy e)"
    unfolding execute_hop_request(1) [OF sent] by blast
qed simp_all

text \<open>
  C12. The number of requests \<open>request\<close> sends is bounded by the redirect allowance of one
  attempt times the attempts, both capped, and a method that is not idempotent is attempted once.
\<close>

theorem request_bounded:
  "length (fst (request env client spec)) \<le>
     Suc (if env_is_idempotent env (rq_method spec)
          then min (max_retries (retry (options spec))) MAX_RETRIES else 0) *
     Suc (min (max_redirects (options spec)) MAX_REDIRECTS)"
  using request_attempts [of env client spec]
    tries.chain_length [of env client spec
      "if env_is_idempotent env (rq_method spec)
       then min (max_retries (retry (options spec))) MAX_RETRIES else 0" 0]
  unfolding attempt_chain_def by fastforce

lemma same_origin_trans: "same_origin a b \<Longrightarrow> same_origin b c \<Longrightarrow> same_origin a c"
  by (simp add: same_origin_def)

lemma same_origin_refl [simp]: "same_origin a a"
  by (simp add: same_origin_def)

lemma cross_origin_headers_safe:
  "h \<in> set (cross_origin_headers hs) \<Longrightarrow> h \<in> set hs \<and> fst h \<in> set safe_headers"
  by (auto simp: cross_origin_headers_def)

text \<open>
  C11. A request header outside the safe list is only ever sent to the origin of the original
  request: every request sent carries the original headers to that origin, or only headers of
  the safe list taken from them.
\<close>

theorem request_headers_confined:
  assumes "r \<in> set (fst (request env client spec))"
  shows "same_origin (rq_url spec) (tr_url r) \<and> tr_headers r = headers (options spec) \<or>
    (\<forall>h\<in>set (tr_headers r). h \<in> set (headers (options spec)) \<and> fst h \<in> set safe_headers)"
  using assms
proof (rule request_sends [where I = "\<lambda>url hs.
    same_origin (rq_url spec) url \<and> hs = headers (options spec) \<or>
    (\<forall>h\<in>set hs. h \<in> set (headers (options spec)) \<and> fst h \<in> set safe_headers)"])
  fix hop hop' url hs url' hs'
  assume I: "same_origin (rq_url spec) url \<and> hs = headers (options spec) \<or>
      (\<forall>h\<in>set hs. h \<in> set (headers (options spec)) \<and> fst h \<in> set safe_headers)"
    and "hop_step env client spec (hop, url, hs) (hop', url', hs')"
  then have "hs' = (if same_origin url url' then hs else cross_origin_headers hs)"
    by (simp add: hop_step_def)
  with I show "same_origin (rq_url spec) url' \<and> hs' = headers (options spec) \<or>
      (\<forall>h\<in>set hs'. h \<in> set (headers (options spec)) \<and> fst h \<in> set safe_headers)"
    by (auto dest: cross_origin_headers_safe intro: same_origin_trans)
qed (auto simp: execute_hop_request(1,2))

lemma followed_same_origin:
  assumes "rq_method spec \<noteq> u ''GET'' \<or> rq_body spec \<noteq> None \<or> redirects spec = SameOrigin"
    and "followed_location env spec raw url = Inr (Some loc)" and "env_url_join env url loc = Some nxt"
  shows "same_origin url nxt"
  using assms
  by (auto simp: followed_location_def replayable_redirect_location_def leaves_origin_def
      split: if_splits option.splits sum.splits RedirectScope.splits)

text \<open>
  A request that is not a plain GET (another method, or a body), and one whose redirects
  are restricted to its origin, is only ever sent to that origin, unchanged: same method, same
  body, same headers.
\<close>

theorem request_stays_on_origin:
  assumes "rq_method spec \<noteq> u ''GET'' \<or> rq_body spec \<noteq> None \<or> redirects spec = SameOrigin"
    and "r \<in> set (fst (request env client spec))"
  shows "same_origin (rq_url spec) (tr_url r) \<and> tr_method r = rq_method spec \<and>
    tr_body r = rq_body spec \<and> tr_headers r = headers (options spec)"
  using assms(2)
proof (rule request_sends [where I = "\<lambda>url hs.
    same_origin (rq_url spec) url \<and> hs = headers (options spec)"])
  fix hop hop' url hs url' hs'
  assume "same_origin (rq_url spec) url \<and> hs = headers (options spec)"
    and "hop_step env client spec (hop, url, hs) (hop', url', hs')"
  then show "same_origin (rq_url spec) url' \<and> hs' = headers (options spec)"
    using followed_same_origin [OF assms(1)] by (auto simp: hop_step_def intro: same_origin_trans)
qed (auto simp: execute_hop_request(1,2,3,4))

section \<open>What comes back\<close>

definition chunk_bytes :: "(TransportError + bytes) StageOutcome \<Rightarrow> bytes" where
  "chunk_bytes c = (case c of StageDone _ (Inr b) \<Rightarrow> b | _ \<Rightarrow> [])"

lemma try_run_until_Inr: "try_run_until f c = Inr b \<longleftrightarrow> (\<exists>late. c = StageDone late (Inr b))"
  by (auto simp: try_run_until_def run_until_def split: StageOutcome.splits sum.splits if_splits)

lemma read_chunks_spec:
  "read_chunks limit out cs = Inr (b, trunc) \<Longrightarrow> length out \<le> limit \<Longrightarrow>
     b = take limit (out @ concat (map chunk_bytes cs)) \<and>
     (trunc \<longleftrightarrow> limit < length (out @ concat (map chunk_bytes cs)))"
proof (induction limit out cs rule: read_chunks.induct)
  case (2 limit out c cs)
  from "2.prems"(1) obtain chunk late where c: "c = StageDone late (Inr chunk)"
    and ok: "try_run_until from_transport_error c = Inr chunk"
    by (auto simp: try_run_until_Inr split: sum.splits)
  show ?case
  proof (cases "length chunk > limit - length out")
    case True
    with "2.prems" ok show ?thesis by (auto simp: c chunk_bytes_def Let_def)
  next
    case False
    with "2.prems" ok "2.IH" [OF ok refl] show ?thesis by (auto simp: c chunk_bytes_def Let_def)
  qed
qed auto

text \<open>
  A response body is exactly the first \<open>limit\<close> bytes of what the transport delivered, and
  it is marked truncated exactly when more was delivered.
\<close>

theorem read_bounded_body_exact:
  assumes "read_bounded_body response limit url = Inr r"
  shows "br_body r = take limit (concat (map chunk_bytes (rs_body response))) \<and>
    (br_truncated r \<longleftrightarrow> limit < length (concat (map chunk_bytes (rs_body response)))) \<and>
    br_status r = rs_status response \<and> br_url r = url"
  using assms by (auto simp: read_bounded_body_def dest!: read_chunks_spec split: sum.splits)

lemma read_bounded_body_url: "read_bounded_body raw limit url = Inr r \<Longrightarrow> br_url r = url"
  by (auto simp: read_bounded_body_def split: sum.splits)

lemma read_bounded_body_length: "read_bounded_body raw limit url = Inr r \<Longrightarrow> length (br_body r) \<le> limit"
  by (auto simp: read_bounded_body_def dest!: read_chunks_spec split: sum.splits)

lemma execute_hop_answered:
  "snd (execute_hop env client spec t url hs) = Inr raw \<Longrightarrow>
     \<exists>r. fst (execute_hop env client spec t url hs) = [r] \<and> tr_url r = url"
  by (auto simp: execute_hop_def Let_def split: sum.splits)

text \<open>The answer belongs to the last request sent, and its body is within the bound.\<close>

definition answers ::
  "RequestSpec \<Rightarrow> TransportRequest list \<times> (NetError + BoundedResponse) \<Rightarrow> bool" where
  "answers spec run =
     (case snd run of
        Inl _ \<Rightarrow> True
      | Inr response \<Rightarrow>
          fst run \<noteq> [] \<and> br_url response = tr_url (last (fst run)) \<and>
          length (br_body response) \<le> max_body_bytes (options spec))"

lemma answers_append:
  "answers spec run \<Longrightarrow> answers spec (sent @ fst run, snd run)"
  by (auto simp: answers_def split: sum.splits)

lemma answers_error: "answers spec (sent, Inl e)"
  by (simp add: answers_def)

lemma answers_hop:
  assumes "\<forall>response. snd run = Inr response \<longrightarrow>
       (\<exists>raw. snd (execute_hop env client spec t url hs) = Inr raw \<and>
          read_bounded_body raw (max_body_bytes (options spec)) url = Inr response)"
  shows "answers spec (fst (execute_hop env client spec t url hs), snd run)"
proof (cases "snd run")
  case (Inr response)
  then obtain raw where raw: "snd (execute_hop env client spec t url hs) = Inr raw"
    and body: "read_bounded_body raw (max_body_bytes (options spec)) url = Inr response"
    using assms by blast
  from execute_hop_answered [OF raw] show ?thesis
    using read_bounded_body_url [OF body] read_bounded_body_length [OF body] Inr
    by (auto simp: answers_def)
qed (simp add: answers_def)

lemma fetch_from_answers: "answers spec (fetch_from env client spec k attempt hop url hs)"
proof (induction k arbitrary: hop url hs)
  case 0
  from fetch_from_unfold [of env client spec 0 attempt hop url hs] show ?case
    by (metis answers_hop nat.distinct(1))
next
  case (Suc k)
  from fetch_from_unfold [of env client spec "Suc k" attempt hop url hs] show ?case
    by (metis Suc answers_append answers_hop nat.inject)
qed

lemma attempts_answers: "answers spec (attempts env client spec n attempt)"
proof (induction n arbitrary: attempt)
  case 0
  show ?case
    using attempts_unfold [of env client spec 0 attempt]
      fetch_from_answers [of spec env client] answers_error
    by (metis fetch_redirect_chain_def nat.distinct(1))
next
  case (Suc n)
  show ?case
    using attempts_unfold [of env client spec "Suc n" attempt]
      fetch_from_answers [of spec env client] answers_error answers_append [OF Suc]
    by (metis fetch_redirect_chain_def nat.inject)
qed

text \<open>
  A response that \<open>request\<close> returns is the answer to the last request it sent: its URL is
  that request's, which the policy accepts, and its body is within the requested bound.
\<close>

theorem request_answer:
  assumes "snd (request env client spec) = Inr response"
  shows "fst (request env client spec) \<noteq> [] \<and>
    br_url response = tr_url (last (fst (request env client spec))) \<and>
    validate_url (policy client) (br_url response) = Inr () \<and>
    length (br_body response) \<le> max_body_bytes (options spec)"
proof -
  have valid: "validate_url (policy client) (tr_url r) = Inr ()" if "r \<in> set (fst (request env client spec))" for r
    using that by (rule request_sends [where I = "\<lambda>_ _. True"])
      (simp_all add: execute_hop_request(1,5))
  have "answers spec (request env client spec)"
    using request_attempts [of env client spec] attempts_answers by (metis answers_error prod.collapse)
  then show ?thesis
    using assms valid last_in_set by (auto simp: answers_def)
qed

section \<open>A concrete exchange\<close>

text \<open>
  An environment in which the properties are evaluated: a name with one public address, a
  server that redirects \<open>https://a.example\<close> to \<open>https://b.example\<close>, which answers.
\<close>

definition demo_url :: "string \<Rightarrow> Url" where
  "demo_url name =
     \<lparr>scheme = u ''https'', username = [], password = None, host = Some (Domain (u name)),
      port_or_known_default = Some 443, as_str = u ''https://'' @ u name @ u ''/''\<rparr>"

definition demo_env :: net_env where
  "demo_env =
     \<lparr>env_url_parse = (\<lambda>_. Some (demo_url ''a.org'')),
      env_url_join = (\<lambda>_ _. Some (demo_url ''b.org'')),
      env_is_idempotent = (\<lambda>m. m = u ''GET''),
      env_http_date = (\<lambda>_ _. None),
      env_resolve = (\<lambda>_ _. StageDone False (Inr [V4 0x08080808])),
      env_left = (\<lambda>_. Some 1000),
      env_execute = (\<lambda>t r.
        if snd t = 0
        then StageDone False (Inr \<lparr>rs_status = 302, rs_headers = [(u ''location'', Some (u ''/x''))], rs_body = []\<rparr>)
        else StageDone False (Inr \<lparr>rs_status = 200, rs_headers = [], rs_body = [StageDone False (Inr [1, 2, 3])]\<rparr>)),
      env_sleep = (\<lambda>_ _. StageDone False ())\<rparr>"

definition demo_client :: HttpClient where
  "demo_client = \<lparr>policy = PublicInternet, proxy = \<lparr>http = None, https = None, bypass = None\<rparr>\<rparr>"

definition demo_spec :: "string \<Rightarrow> RedirectScope \<Rightarrow> RequestSpec" where
  "demo_spec method scope =
     \<lparr>rq_method = u method, rq_url = demo_url ''a.org'', rq_body = None, redirects = scope,
      options = \<lparr>max_redirects = 3, max_body_bytes = 2, headers = [(u ''cookie'', Some (u ''s''))],
        retry = \<lparr>max_retries = 0, base_delay = 0, max_delay = 0, statuses = []\<rparr>\<rparr>\<rparr>"

lemma demo_hosts:
  "validate_url PublicInternet (demo_url ''a.org'') = Inr ()"
  "validate_url PublicInternet (demo_url ''b.org'') = Inr ()"
  by (simp_all add: validate_url_def demo_url_def has_userinfo_def authority_of_def operator_options_def
      classify_hostname_def normalize_hostname_def special_suffixes_def text_defs parse_ip_defs)

definition demo_hop :: "string \<Rightarrow> HeaderMap \<Rightarrow> TransportRequest" where
  "demo_hop name hs =
     \<lparr>tr_method = u ''GET'', tr_url = demo_url name, tr_headers = hs, tr_body = None,
      tr_route = RouteDirect [V4 0x08080808], tr_timeout = 1000\<rparr>"

lemma demo_public: "classify_ip (V4 0x08080808) = Public"
  by (simp add: classify_ip_def ipv4_public v4_special_def)

lemma demo_execute:
  assumes "name = ''a.org'' \<or> name = ''b.org''"
  shows "execute_hop demo_env demo_client (demo_spec ''GET'' scope) t (demo_url name) hs =
    ([demo_hop name hs], try_run_until from_transport_error (env_execute demo_env t (demo_hop name hs)))"
proof -
  have "validate_url PublicInternet (demo_url name) = Inr ()" using assms demo_hosts by auto
  then show ?thesis
    by (simp add: execute_hop_def demo_client_def demo_hop_def route_def is_direct_def resolve_target_def
      demo_spec_def remaining_def demo_env_def try_run_until_def run_until_def validate_ip_def
      validate_classified_ip_def demo_public is_public_def demo_url_def Let_def)
qed

lemma demo_fields [simp]:
  "policy demo_client = PublicInternet" "rq_url (demo_spec m scope) = demo_url ''a.org''"
  "rq_method (demo_spec m scope) = u m" "rq_body (demo_spec m scope) = None"
  "redirects (demo_spec m scope) = scope" "max_redirects (options (demo_spec m scope)) = 3"
  "max_body_bytes (options (demo_spec m scope)) = 2"
  "headers (options (demo_spec m scope)) = [(u ''cookie'', Some (u ''s''))]"
  "max_retries (retry (options (demo_spec m scope))) = 0"
  "statuses (retry (options (demo_spec m scope))) = []"
  by (simp_all add: demo_client_def demo_spec_def)

lemma demo_env_fields [simp]:
  "env_url_join demo_env url loc = Some (demo_url ''b.org'')" "env_is_idempotent demo_env m \<longleftrightarrow> m = u ''GET''"
  "try_run_until f (StageDone late (Inr x)) = Inr x"
  "try_run_until f (env_execute demo_env (a, 0) r) =
     Inr \<lparr>rs_status = 302, rs_headers = [(u ''location'', Some (u ''/x''))], rs_body = []\<rparr>"
  "try_run_until f (env_execute demo_env (a, Suc h) r) =
     Inr \<lparr>rs_status = 200, rs_headers = [], rs_body = [StageDone False (Inr [1, 2, 3])]\<rparr>"
  by (simp_all add: demo_env_def try_run_until_def run_until_def)

lemma demo_origins: "\<not> same_origin (demo_url ''a.org'') (demo_url ''b.org'')"
  by (simp add: same_origin_def demo_url_def u_def)

lemma demo_headers [simp]:
  "\<not> is_reserved (u ''cookie'')"
  "cross_origin_headers [(u ''cookie'', c)] = []"
  "location [(u ''location'', Some v)] = Some v"
  by (simp_all add: is_reserved_def reserved_headers_def cross_origin_headers_def safe_headers_def
      location_def header_get_def text_defs)

lemma demo_parse [simp]:
  "parse_url up (env_url_join demo_env) PublicInternet (u ''/x'') (Some url) = Inr (demo_url ''b.org'')"
  by (simp add: parse_url_def demo_hosts raw_value_has_userinfo_def text_defs)

lemmas demo_defs =
  request_def demo_hosts demo_execute demo_origins Let_def followed_location_def leaves_origin_def
  redirect_location_def is_redirect_def read_bounded_body_def

text \<open>The redirect is followed without the cookie, and the answer is cut at two bytes.\<close>

lemma demo_chain:
  "fetch_redirect_chain demo_env demo_client (demo_spec ''GET'' AnyOrigin) 0 =
     ([demo_hop ''a.org'' [(u ''cookie'', Some (u ''s''))], demo_hop ''b.org'' []],
      Inr \<lparr>br_status = 200, br_headers = [], br_url = demo_url ''b.org'', br_body = [1, 2], br_truncated = True\<rparr>)"
  by (simp add: fetch_redirect_chain_def fetch_from.simps [of _ _ _ 3] fetch_from.simps [of _ _ _ 2] demo_defs)

lemma demo_run:
  "request demo_env demo_client (demo_spec ''GET'' AnyOrigin) =
     ([demo_hop ''a.org'' [(u ''cookie'', Some (u ''s''))], demo_hop ''b.org'' []],
      Inr \<lparr>br_status = 200, br_headers = [], br_url = demo_url ''b.org'', br_body = [1, 2], br_truncated = True\<rparr>)"
  by (simp add: request_def demo_hosts attempts.simps [of _ _ _ 0] demo_chain)

lemma demo_same_origin_chain:
  "fetch_redirect_chain demo_env demo_client (demo_spec ''GET'' SameOrigin) 0 =
     ([demo_hop ''a.org'' [(u ''cookie'', Some (u ''s''))]],
      Inr \<lparr>br_status = 302, br_headers = [(u ''location'', Some (u ''/x''))], br_url = demo_url ''a.org'',
           br_body = [], br_truncated = False\<rparr>)"
  by (simp add: fetch_redirect_chain_def fetch_from.simps [of _ _ _ 3] demo_defs)

lemma demo_same_origin_run:
  "request demo_env demo_client (demo_spec ''GET'' SameOrigin) =
     ([demo_hop ''a.org'' [(u ''cookie'', Some (u ''s''))]],
      Inr \<lparr>br_status = 302, br_headers = [(u ''location'', Some (u ''/x''))], br_url = demo_url ''a.org'',
           br_body = [], br_truncated = False\<rparr>)"
  by (simp add: request_def demo_hosts attempts.simps [of _ _ _ 0] demo_same_origin_chain)

theorem request_only_public_targets_witness:
  "demo_hop ''b.org'' [] \<in> set (fst (request demo_env demo_client (demo_spec ''GET'' AnyOrigin))) \<and>
   tr_route (demo_hop ''b.org'' []) = RouteDirect [V4 0x08080808] \<and> classify_ip (V4 0x08080808) = Public"
  using request_only_public_targets [of demo_client "demo_hop ''b.org'' []" demo_env "demo_spec ''GET'' AnyOrigin"]
  by (auto simp: demo_run demo_hop_def)

theorem request_headers_confined_witness:
  "demo_hop ''b.org'' [] \<in> set (fst (request demo_env demo_client (demo_spec ''GET'' AnyOrigin))) \<and>
   \<not> same_origin (demo_url ''a.org'') (tr_url (demo_hop ''b.org'' [])) \<and>
   fst ` set (tr_headers (demo_hop ''b.org'' [])) \<subseteq> set safe_headers"
  using request_headers_confined [of "demo_hop ''b.org'' []" demo_env demo_client "demo_spec ''GET'' AnyOrigin"]
  by (simp add: demo_run demo_hop_def demo_origins)

theorem request_stays_on_origin_witness:
  "demo_hop ''a.org'' [(u ''cookie'', Some (u ''s''))]
     \<in> set (fst (request demo_env demo_client (demo_spec ''GET'' SameOrigin))) \<and>
   same_origin (demo_url ''a.org'') (tr_url (demo_hop ''a.org'' [(u ''cookie'', Some (u ''s''))]))"
  using request_stays_on_origin [of "demo_spec ''GET'' SameOrigin"
      "demo_hop ''a.org'' [(u ''cookie'', Some (u ''s''))]" demo_env demo_client]
  by (simp add: demo_same_origin_run)

theorem read_bounded_body_exact_witness:
  "\<exists>r. read_bounded_body \<lparr>rs_status = 200, rs_headers = [],
          rs_body = [StageDone False (Inr [7]), StageDone False (Inr [8, 9])]\<rparr> 2 (demo_url ''a.org'') = Inr r \<and>
     br_body r = [7, 8] \<and> br_truncated r"
  using read_bounded_body_exact [of "\<lparr>rs_status = 200, rs_headers = [],
      rs_body = [StageDone False (Inr [7]), StageDone False (Inr [8, 9])]\<rparr>" 2 "demo_url ''a.org''"]
  by (simp add: read_bounded_body_def chunk_bytes_def try_run_until_def run_until_def Let_def)

theorem request_answer_witness:
  "\<exists>response. snd (request demo_env demo_client (demo_spec ''GET'' AnyOrigin)) = Inr response \<and>
     br_url response = demo_url ''b.org'' \<and> length (br_body response) \<le> 2"
  using request_answer [of demo_env demo_client "demo_spec ''GET'' AnyOrigin"]
  by (simp add: demo_run demo_hop_def)

end
