(* ===== verification/Http_Gate.thy ===== *)
theory Http_Gate
  imports Utf8
begin

text \<open>
  The gate in front of the HTTP endpoints: \<open>src/http_policy.rs\<close> (hosts, browser origins, routes,
  methods, bounded bodies, protocol versions) and the bearer authentication of
  \<open>src/transports/http.rs\<close>, composed as the router composes them. The authority parser of the
  \<open>http\<close> crate, the JSON parser, SHA-256 and the service behind the gate are parameters. A run
  gives the response and the requests that reached the service.
\<close>

section \<open>Requests and responses\<close>

text \<open>Header names are lower case, as a \<open>HeaderMap\<close> has them; values are bytes.\<close>

type_synonym Headers = "(ustr \<times> bytes) list"

definition headers_get :: "Headers \<Rightarrow> ustr \<Rightarrow> bytes option" where
  "headers_get hs name = map_of hs name"

definition headers_get_all :: "Headers \<Rightarrow> ustr \<Rightarrow> bytes list" where
  "headers_get_all hs name = map snd (filter (\<lambda>(n, _). n = name) hs)"

definition headers_remove :: "Headers \<Rightarrow> ustr \<Rightarrow> Headers" where
  "headers_remove hs name = filter (\<lambda>(n, _). n \<noteq> name) hs"

definition headers_insert :: "Headers \<Rightarrow> ustr \<Rightarrow> bytes \<Rightarrow> Headers" where
  "headers_insert hs name value = (name, value) # headers_remove hs name"

text \<open>\<open>HeaderValue::to_str\<close>: visible ASCII and tabs only.\<close>

definition visible :: "nat \<Rightarrow> bool" where
  "visible b \<longleftrightarrow> 32 \<le> b \<and> b < 127 \<or> b = 9"

definition to_str :: "bytes \<Rightarrow> ustr option" where
  "to_str bs = (if list_all visible bs then Some bs else None)"

text \<open>JSON values; a number that is no integer keeps its text.\<close>

datatype Json = JNull | JBool bool | JNumber int | JDecimal ustr | JString ustr | JArray "Json list" | JObject "(ustr \<times> Json) list"

definition json_get :: "Json \<Rightarrow> ustr \<Rightarrow> Json option" where
  "json_get v key = (case v of JObject members \<Rightarrow> map_of members key | _ \<Rightarrow> None)"

fun json_pointer :: "Json \<Rightarrow> ustr list \<Rightarrow> Json option" where
  "json_pointer v [] = Some v"
| "json_pointer v (key # keys) = (case json_get v key of None \<Rightarrow> None | Some w \<Rightarrow> json_pointer w keys)"

definition json_str :: "Json option \<Rightarrow> ustr option" where
  "json_str v = (case v of Some (JString s) \<Rightarrow> Some s | _ \<Rightarrow> None)"

text \<open>The body of a request, or \<open>None\<close> when reading it fails; extensions are the mark of authentication.\<close>

record Request =
  rq_method :: ustr
  rq_path :: ustr
  rq_headers :: Headers
  rq_body :: "bytes option"
  rq_authenticated :: bool

datatype Body = JsonBody Json | StreamBody bytes

record Response =
  rs_status :: nat
  rs_headers :: Headers
  rs_body :: Body

section \<open>The policy\<close>

definition ENDPOINT_PATH :: ustr where "ENDPOINT_PATH = u ''/mcp''"
definition TRANSFER_PATH :: ustr where "TRANSFER_PATH = u ''/files''"
definition MAX_JSON_BODY_BYTES :: nat where "MAX_JSON_BODY_BYTES = 12 * 1024 * 1024"
definition REQUEST_ID :: ustr where "REQUEST_ID = u ''x-request-id''"

record HttpPolicy =
  allowed_hosts :: "ustr set"
  modern_only :: bool
  transfer_enabled :: bool

definition bracket :: "uchar \<Rightarrow> bool" where
  "bracket c \<longleftrightarrow> c = 91 \<or> c = 93"

definition HttpPolicy_new :: "ustr list \<Rightarrow> bool \<Rightarrow> bool \<Rightarrow> HttpPolicy" where
  "HttpPolicy_new hosts modern transfer =
     \<lparr>allowed_hosts = set (map (\<lambda>host. to_ascii_lowercase (trim_end_by bracket (trim_start_by bracket host))) hosts),
      modern_only = modern, transfer_enabled = transfer\<rparr>"

datatype Route = Mcp | Transfer | UnknownRoute

definition route_of :: "ustr \<Rightarrow> Route" where
  "route_of path = (if path = ENDPOINT_PATH then Mcp else if path = TRANSFER_PATH then Transfer else UnknownRoute)"

definition classify_route :: "HttpPolicy \<Rightarrow> ustr \<Rightarrow> Route" where
  "classify_route pol path = (if route_of path = Transfer \<and> \<not> transfer_enabled pol then UnknownRoute else route_of path)"

subsection \<open>Errors\<close>

definition json_rpc_error :: "nat \<Rightarrow> int \<Rightarrow> ustr \<Rightarrow> Json \<Rightarrow> Json option \<Rightarrow> Response" where
  "json_rpc_error status code message ident data =
     (let error = [(u ''code'', JNumber code), (u ''message'', JString message)] @
                  (case data of None \<Rightarrow> [] | Some d \<Rightarrow> [(u ''data'', d)])
      in \<lparr>rs_status = status, rs_headers = [(u ''content-type'', u ''application/json; charset=utf-8'')],
          rs_body = JsonBody (JObject [(u ''jsonrpc'', JString (u ''2.0'')), (u ''error'', JObject error), (u ''id'', ident)])\<rparr>)"

definition policy_error :: "nat \<Rightarrow> int \<Rightarrow> ustr \<Rightarrow> Response" where
  "policy_error status code message = json_rpc_error status code message JNull None"

definition transfer_error :: "nat \<Rightarrow> ustr \<Rightarrow> Response" where
  "transfer_error status message =
     \<lparr>rs_status = status, rs_headers = [(u ''content-type'', u ''application/json; charset=utf-8'')],
      rs_body = JsonBody (JObject [(u ''message'', JString message), (u ''code'', JNumber (int status))])\<rparr>"

definition route_error :: "Route \<Rightarrow> nat \<Rightarrow> int \<Rightarrow> ustr \<Rightarrow> Response" where
  "route_error route status code message =
     (case route of Transfer \<Rightarrow> transfer_error status message | _ \<Rightarrow> policy_error status code message)"

definition path_error :: "ustr \<Rightarrow> nat \<Rightarrow> int \<Rightarrow> ustr \<Rightarrow> Response" where
  "path_error path status code message = route_error (route_of path) status code message"

definition body_too_large :: Response where
  "body_too_large = policy_error 413 (- 32700) (u ''Request body too large.'')"

definition is_server_error :: "Response \<Rightarrow> bool" where
  "is_server_error r \<longleftrightarrow> 500 \<le> rs_status r \<and> rs_status r < 600"

definition bound_server_error :: "Response \<Rightarrow> Response" where
  "bound_server_error r = (if is_server_error r then policy_error 500 (- 32603) (u ''Internal server error.'') else r)"

definition bound_transfer_server_error :: "Response \<Rightarrow> Response" where
  "bound_transfer_server_error r = (if is_server_error r then transfer_error 500 (u ''Internal server error.'') else r)"

definition apply_security_headers :: "Response \<Rightarrow> ustr \<Rightarrow> Response" where
  "apply_security_headers r request_id =
     r\<lparr>rs_headers := headers_insert (headers_insert (headers_insert (rs_headers r) REQUEST_ID
        (if list_all (\<lambda>b. 32 \<le> b \<and> b \<noteq> 127 \<or> b = 9) (encode_utf8 request_id) then encode_utf8 request_id else u ''http_invalid''))
        (u ''cache-control'') (u ''no-store'')) (u ''x-content-type-options'') (u ''nosniff'')\<rparr>"

subsection \<open>Hosts\<close>

datatype HostHeaderClassification = HostAllowed | HostInvalid | HostForeign

text \<open>An authority: its host and the port when it has a valid one.\<close>

record Authority =
  au_host :: ustr
  au_port :: "nat option"

definition has_port_suffix :: "ustr \<Rightarrow> bool" where
  "has_port_suffix value =
     (if starts_with value [91] then drop 1 (dropWhile (\<lambda>c. c \<noteq> 93) value) \<noteq> [] else 58 \<in> set value)"

definition host_name :: "ustr \<Rightarrow> ustr" where
  "host_name host = to_ascii_lowercase (trim_end_by (\<lambda>c. c = 93) (trim_start_by (\<lambda>c. c = 91) host))"

definition classify_host :: "(ustr \<Rightarrow> Authority option) \<Rightarrow> Headers \<Rightarrow> ustr set \<Rightarrow> HostHeaderClassification" where
  "classify_host authority hs hosts =
     (if length (headers_get_all hs (u ''host'')) \<noteq> 1 then HostInvalid
      else case Option.bind (headers_get hs (u ''host'')) to_str of
             None \<Rightarrow> HostInvalid
           | Some value \<Rightarrow>
               if 64 \<in> set value then HostInvalid
               else case authority value of
                      None \<Rightarrow> HostInvalid
                    | Some a \<Rightarrow>
                        if has_port_suffix value \<and> au_port a = None then HostInvalid
                        else if host_name (au_host a) \<in> hosts then HostAllowed else HostForeign)"

subsection \<open>Protocol versions\<close>

definition protocol_versions :: "bool \<Rightarrow> ustr list" where
  "protocol_versions modern = (if modern then [u ''2026-07-28''] else [u ''2026-07-28'', u ''2025-11-25''])"

record ProtocolAdmissionError =
  pa_code :: int
  pa_message :: ustr
  pa_id :: Json
  pa_data :: "Json option"

definition admission_response :: "ProtocolAdmissionError \<Rightarrow> Response" where
  "admission_response e = json_rpc_error 400 (pa_code e) (pa_message e) (pa_id e) (pa_data e)"

definition require_supported_protocol :: "Json \<Rightarrow> ustr \<Rightarrow> bool \<Rightarrow> ProtocolAdmissionError + unit" where
  "require_supported_protocol ident requested modern =
     (if requested \<in> set (protocol_versions modern) then Inr ()
      else Inl \<lparr>pa_code = - 32022, pa_message = u ''Unsupported protocol version'', pa_id = ident,
        pa_data = Some (JObject [(u ''requested'', JString requested), (u ''supported'', JArray (map JString (protocol_versions modern)))])\<rparr>)"

definition validate_protocol_message :: "Headers \<Rightarrow> Json \<Rightarrow> bool \<Rightarrow> ProtocolAdmissionError + unit" where
  "validate_protocol_message hs message modern =
     (let ident = (case json_get message (u ''id'') of Some i \<Rightarrow> i | None \<Rightarrow> JNull);
          method = json_str (json_get message (u ''method''));
          body_version = json_str (json_pointer message [u ''params'', u ''_meta'', u ''io.modelcontextprotocol/protocolVersion'']);
          header_version = Option.bind (headers_get hs (u ''mcp-protocol-version'')) to_str
      in if method = Some (u ''initialize'')
         then let requested = (case json_str (json_pointer message [u ''params'', u ''protocolVersion'']) of
                                 Some v \<Rightarrow> v | None \<Rightarrow> u ''unknown'')
              in if requested = u ''2026-07-28''
                 then Inl \<lparr>pa_code = - 32600,
                   pa_message = u ''initialize is not valid for MCP 2026-07-28; use server/discover or per-request metadata.'',
                   pa_id = ident,
                   pa_data = Some (JObject [(u ''supported'', JArray (map JString (protocol_versions modern)))])\<rparr>
                 else require_supported_protocol ident requested modern
         else case body_version of
                Some requested \<Rightarrow> require_supported_protocol ident requested modern
              | None \<Rightarrow>
                  let requested = (case header_version of Some v \<Rightarrow> v | None \<Rightarrow> u ''2025-03-26'')
                  in if requested = u ''2026-07-28''
                     then Inl \<lparr>pa_code = - 32602, pa_message = u ''Modern MCP requests require per-request protocol metadata.'',
                       pa_id = ident, pa_data = None\<rparr>
                     else require_supported_protocol ident requested modern)"

definition validate_protocol_admission :: "Headers \<Rightarrow> Json \<Rightarrow> bool \<Rightarrow> ProtocolAdmissionError + unit" where
  "validate_protocol_admission hs body modern =
     (case body of
        JArray messages \<Rightarrow> try_fold (\<lambda>_ message. validate_protocol_message hs message modern) () messages
      | JObject _ \<Rightarrow> validate_protocol_message hs body modern
      | _ \<Rightarrow> Inr ())"

subsection \<open>Bodies\<close>

definition bounded_body :: "(bytes \<Rightarrow> Json option) \<Rightarrow> Request \<Rightarrow> bool \<Rightarrow> Response + Request" where
  "bounded_body from_slice request modern =
     (case (case headers_get (rq_headers request) (u ''content-length'') of
              None \<Rightarrow> Inr ()
            | Some value \<Rightarrow>
                (case Option.bind (to_str value) parse_u64 of
                   None \<Rightarrow> Inl (policy_error 400 (- 32700) (u ''Invalid Content-Length header.''))
                 | Some declared \<Rightarrow> if declared > MAX_JSON_BODY_BYTES then Inl body_too_large else Inr ())) of
        Inl r \<Rightarrow> Inl r
      | Inr _ \<Rightarrow>
          (case rq_body request of
             None \<Rightarrow> Inl body_too_large
           | Some bs \<Rightarrow>
               if length bs > MAX_JSON_BODY_BYTES then Inl body_too_large
               else case from_slice bs of
                      None \<Rightarrow> Inl (policy_error 400 (- 32700) (u ''Invalid JSON request body.''))
                    | Some value \<Rightarrow>
                        (case validate_protocol_admission (rq_headers request) value modern of
                           Inl e \<Rightarrow> Inl (admission_response e)
                         | Inr _ \<Rightarrow> Inr (request\<lparr>rq_body := Some bs\<rparr>))))"

section \<open>The gate\<close>

type_synonym Handler = "Request \<Rightarrow> Response \<times> Request list"

definition refuse :: "Response \<Rightarrow> Response \<times> Request list" where
  "refuse r = (r, [])"

definition decide_request :: "(ustr \<Rightarrow> Authority option) \<Rightarrow> (bytes \<Rightarrow> Json option) \<Rightarrow> HttpPolicy \<Rightarrow> Request \<Rightarrow> Handler \<Rightarrow> Response \<times> Request list" where
  "decide_request authority from_slice pol request next =
     (let route = classify_route pol (rq_path request)
      in case classify_host authority (rq_headers request) (allowed_hosts pol) of
           HostInvalid \<Rightarrow> refuse (route_error route 400 (- 32000) (u ''Invalid Host header.''))
         | HostForeign \<Rightarrow> refuse (route_error route 403 (- 32000) (u ''Host not allowed.''))
         | HostAllowed \<Rightarrow>
             if headers_get (rq_headers request) (u ''origin'') \<noteq> None
             then refuse (route_error route 403 (- 32000) (u ''Browser-origin requests are not allowed.''))
             else if route = UnknownRoute then refuse (policy_error 404 (- 32001) (u ''MCP endpoint not found.''))
             else if route = Transfer
             then if rq_method request \<in> {u ''GET'', u ''POST''}
                  then map_prod bound_transfer_server_error id (next request)
                  else refuse ((transfer_error 405 (u ''Method not allowed.''))
                         \<lparr>rs_headers := headers_insert (rs_headers (transfer_error 405 (u ''Method not allowed.''))) (u ''allow'') (u ''GET, POST'')\<rparr>)
             else if headers_get (rq_headers request) (u ''mcp-session-id'') \<noteq> None
             then refuse (policy_error 400 (- 32000) (u ''MCP protocol sessions are not supported.''))
             else if rq_method request \<noteq> u ''POST''
             then refuse ((policy_error 405 (- 32000) (u ''Method not allowed.''))
                    \<lparr>rs_headers := headers_insert (rs_headers (policy_error 405 (- 32000) (u ''Method not allowed.''))) (u ''allow'') (u ''POST'')\<rparr>)
             else (case bounded_body from_slice request (modern_only pol) of
                     Inl response \<Rightarrow> refuse response
                   | Inr request \<Rightarrow> map_prod bound_server_error id (next request)))"

definition enforce ::
  "(ustr \<Rightarrow> Authority option) \<Rightarrow> (bytes \<Rightarrow> Json option) \<Rightarrow> ustr \<Rightarrow> HttpPolicy \<Rightarrow> Request \<Rightarrow> Handler \<Rightarrow> Response \<times> Request list" where
  "enforce authority from_slice uuid pol request next =
     map_prod (\<lambda>r. apply_security_headers r (u ''http_'' @ uuid)) id (decide_request authority from_slice pol request next)"

section \<open>Authentication\<close>

definition MIN_TOKEN_BYTES :: nat where "MIN_TOKEN_BYTES = 32"
definition MAX_TOKEN_BYTES :: nat where "MAX_TOKEN_BYTES = 4096"

datatype HttpTransportError =
    Signal | StdioInitialization | StdioService | HttpBind | HttpService | HttpConfigurationError | HttpAuthenticationError
  | HttpAuthenticationRequired | RemoteHostAuthenticationRequired

text \<open>\<open>char::is_control\<close>.\<close>

definition is_control :: "uchar \<Rightarrow> bool" where
  "is_control c \<longleftrightarrow> c < 32 \<or> 127 \<le> c \<and> c < 160"

text \<open>The digest of the token that is expected.\<close>

definition HttpAuthentication_new :: "(bytes \<Rightarrow> bytes) \<Rightarrow> ustr \<Rightarrow> HttpTransportError + bytes" where
  "HttpAuthentication_new sha token =
     (if byte_len token < MIN_TOKEN_BYTES \<or> byte_len token > MAX_TOKEN_BYTES \<or> trim token \<noteq> token \<or> list_ex is_control token
      then Inl HttpAuthenticationError else Inr (sha (encode_utf8 token)))"

definition accepts :: "(bytes \<Rightarrow> bytes) \<Rightarrow> bytes \<Rightarrow> ustr \<Rightarrow> bool" where
  "accepts sha digest candidate \<longleftrightarrow> digest = sha (encode_utf8 candidate)"

datatype HttpBindMode = Loopback | Container

record HttpConfiguration =
  hc_bind_mode :: HttpBindMode
  hc_allowed_hosts :: "ustr list"
  hc_authentication :: "bytes option"
  hc_remote_host :: bool

definition configuration_validate :: "HttpConfiguration \<Rightarrow> HttpTransportError + unit" where
  "configuration_validate c =
     (if hc_bind_mode c = Container \<and> hc_authentication c = None then Inl HttpAuthenticationRequired
      else if hc_remote_host c \<and> hc_authentication c = None then Inl RemoteHostAuthenticationRequired
      else Inr ())"

definition authenticate :: "(bytes \<Rightarrow> bytes) \<Rightarrow> bytes option \<Rightarrow> Handler \<Rightarrow> Handler" where
  "authenticate sha authentication next request =
     (case (authentication, headers_get (rq_headers request) (u ''authorization'')) of
        (None, None) \<Rightarrow> next request
      | (None, Some _) \<Rightarrow> refuse (path_error (rq_path request) 400 (- 32000) (u ''Authorization is not configured.''))
      | (Some _, None) \<Rightarrow> refuse (path_error (rq_path request) 401 (- 32000) (u ''Bearer authentication is required.''))
      | (Some digest, Some value) \<Rightarrow>
          if (case Option.bind (to_str value) (\<lambda>v. strip_prefix v (u ''Bearer '')) of
                None \<Rightarrow> False | Some token \<Rightarrow> accepts sha digest token)
          then next (request\<lparr>rq_headers := headers_remove (rq_headers request) (u ''authorization''), rq_authenticated := True\<rparr>)
          else refuse (path_error (rq_path request) 401 (- 32000) (u ''Bearer authentication failed.'')))"

text \<open>The layers of the router: the policy first, then authentication, then the service.\<close>

definition serve ::
  "(ustr \<Rightarrow> Authority option) \<Rightarrow> (bytes \<Rightarrow> Json option) \<Rightarrow> (bytes \<Rightarrow> bytes) \<Rightarrow> ustr \<Rightarrow> (Request \<Rightarrow> Response) \<Rightarrow>
     HttpConfiguration \<Rightarrow> bool \<Rightarrow> bool \<Rightarrow> Request \<Rightarrow> Response \<times> Request list" where
  "serve authority from_slice sha uuid service c modern transfer request =
     enforce authority from_slice uuid (HttpPolicy_new (hc_allowed_hosts c) modern transfer) request
       (authenticate sha (hc_authentication c) (\<lambda>request. (service request, [request])))"

section \<open>Who gets through\<close>

text \<open>The one Host header names an allowed host.\<close>

definition addressed_to :: "(ustr \<Rightarrow> Authority option) \<Rightarrow> ustr set \<Rightarrow> Headers \<Rightarrow> bool" where
  "addressed_to authority hosts hs \<longleftrightarrow>
     (\<exists>value a. headers_get_all hs (u ''host'') = [value] \<and> list_all visible value \<and> 64 \<notin> set value \<and> authority value = Some a \<and>
        (has_port_suffix value \<longrightarrow> au_port a \<noteq> None) \<and> host_name (au_host a) \<in> hosts)"

lemma get_first: "headers_get hs name = (case headers_get_all hs name of [] \<Rightarrow> None | v # _ \<Rightarrow> Some v)"
  by (induction hs) (auto simp: headers_get_def headers_get_all_def)

lemma one_header: "length (headers_get_all hs name) = 1 \<longleftrightarrow> (\<exists>v. headers_get_all hs name = [v])"
  by (auto simp: length_Suc_conv)

lemma classify_host_allowed: "classify_host authority hs hosts = HostAllowed \<longleftrightarrow> addressed_to authority hosts hs"
proof (cases "\<exists>v. headers_get_all hs (u ''host'') = [v]")
  case True
  then obtain v where v: "headers_get_all hs (u ''host'') = [v]" by blast
  then have "headers_get hs (u ''host'') = Some v" by (simp add: get_first)
  then show ?thesis using v by (auto simp: classify_host_def addressed_to_def to_str_def split: option.splits)
next
  case False
  then show ?thesis using one_header [of hs "u ''host''"] by (auto simp: classify_host_def addressed_to_def)
qed

text \<open>
  The version a message declares, and whether it does so in its own metadata: an \<open>initialize\<close> names it
  in its parameters, any other message in its metadata, or else in the header.
\<close>

definition declared_version :: "Headers \<Rightarrow> Json \<Rightarrow> ustr \<times> bool" where
  "declared_version hs m =
     (if json_str (json_get m (u ''method'')) = Some (u ''initialize'')
      then (case json_str (json_pointer m [u ''params'', u ''protocolVersion'']) of Some v \<Rightarrow> v | None \<Rightarrow> u ''unknown'', False)
      else case json_str (json_pointer m [u ''params'', u ''_meta'', u ''io.modelcontextprotocol/protocolVersion'']) of
             Some v \<Rightarrow> (v, True)
           | None \<Rightarrow> (case Option.bind (headers_get hs (u ''mcp-protocol-version'')) to_str of Some v \<Rightarrow> v | None \<Rightarrow> u ''2025-03-26'', False))"

text \<open>The new protocol is spoken only with metadata in the message, the old one only where it is served.\<close>

definition speaks :: "bool \<Rightarrow> Headers \<Rightarrow> Json \<Rightarrow> bool" where
  "speaks modern hs m \<longleftrightarrow>
     declared_version hs m = (u ''2026-07-28'', True) \<or> \<not> modern \<and> fst (declared_version hs m) = u ''2025-11-25''"

lemma versions_differ: "u ''2025-11-25'' \<noteq> u ''2026-07-28''"
  by (simp add: u_def)

lemma require_supported_iff:
  "require_supported_protocol ident v modern = Inr x \<longleftrightarrow> v = u ''2026-07-28'' \<or> \<not> modern \<and> v = u ''2025-11-25''"
  by (simp add: require_supported_protocol_def protocol_versions_def)

lemma validate_message_iff: "validate_protocol_message hs m modern = Inr x \<longleftrightarrow> speaks modern hs m"
  using versions_differ
  by (auto simp: validate_protocol_message_def speaks_def declared_version_def require_supported_iff Let_def split: option.splits)

definition messages :: "Json \<Rightarrow> Json list" where
  "messages v = (case v of JArray ms \<Rightarrow> ms | JObject _ \<Rightarrow> [v] | _ \<Rightarrow> [])"

lemma validate_messages_iff:
  "try_fold (\<lambda>_ m. validate_protocol_message hs m modern) () ms = Inr () \<longleftrightarrow> list_all (speaks modern hs) ms"
proof (induction ms)
  case (Cons m ms)
  show ?case
  proof (cases "validate_protocol_message hs m modern")
    case (Inl e)
    then have "\<not> speaks modern hs m" using validate_message_iff [of hs m modern] by (metis sum.distinct(1))
    then show ?thesis using Inl by simp
  next
    case (Inr x)
    then have "speaks modern hs m" using validate_message_iff by blast
    then show ?thesis using Inr Cons by simp
  qed
qed simp

lemma validate_admission_iff: "validate_protocol_admission hs v modern = Inr () \<longleftrightarrow> list_all (speaks modern hs) (messages v)"
  by (cases v) (auto simp: validate_protocol_admission_def messages_def validate_messages_iff validate_message_iff)

text \<open>A body that is admitted, with the content length it may declare.\<close>

definition admitted_body :: "(bytes \<Rightarrow> Json option) \<Rightarrow> bool \<Rightarrow> Request \<Rightarrow> bool" where
  "admitted_body from_slice modern request \<longleftrightarrow>
     (\<forall>value. headers_get (rq_headers request) (u ''content-length'') = Some value \<longrightarrow>
        (\<exists>n\<le>MAX_JSON_BODY_BYTES. Option.bind (to_str value) parse_u64 = Some n)) \<and>
     (\<exists>bs v. rq_body request = Some bs \<and> length bs \<le> MAX_JSON_BODY_BYTES \<and> from_slice bs = Some v \<and>
        list_all (speaks modern (rq_headers request)) (messages v))"

lemma bounded_body_iff: "bounded_body from_slice request modern = Inr r \<longleftrightarrow> admitted_body from_slice modern request \<and> r = request"
proof -
  have unit: "validate_protocol_admission hs v modern = Inr x \<longleftrightarrow> list_all (speaks modern hs) (messages v)" for hs v x
    using validate_admission_iff [of hs v modern] by (cases x) simp
  have refused: "validate_protocol_admission hs v modern = Inl e \<Longrightarrow> \<not> list_all (speaks modern hs) (messages v)" for hs v e
    using validate_admission_iff [of hs v modern] by simp
  have same: "rq_body request = Some bs \<Longrightarrow> request\<lparr>rq_body := Some bs\<rparr> = request" for bs by simp
  show ?thesis
    by (auto simp: bounded_body_def admitted_body_def unit same not_less dest: refused split: option.splits sum.splits if_splits)
qed

text \<open>The right bearer token, or none where none is configured.\<close>

definition trusted :: "(bytes \<Rightarrow> bytes) \<Rightarrow> bytes option \<Rightarrow> Headers \<Rightarrow> bool" where
  "trusted sha authentication hs =
     (case authentication of
        None \<Rightarrow> headers_get hs (u ''authorization'') = None
      | Some digest \<Rightarrow> (\<exists>token. headers_get hs (u ''authorization'') = Some (u ''Bearer '' @ token) \<and>
          list_all visible token \<and> sha (encode_utf8 token) = digest))"

definition marked :: "bytes option \<Rightarrow> Request \<Rightarrow> Request" where
  "marked authentication request =
     (if authentication = None then request
      else request\<lparr>rq_headers := headers_remove (rq_headers request) (u ''authorization''), rq_authenticated := True\<rparr>)"

lemma bearer_iff:
  "(case Option.bind (to_str value) (\<lambda>v. strip_prefix v (u ''Bearer '')) of None \<Rightarrow> False | Some token \<Rightarrow> accepts sha digest token) \<longleftrightarrow>
     (\<exists>token. value = u ''Bearer '' @ token \<and> list_all visible token \<and> sha (encode_utf8 token) = digest)"
proof -
  have p: "list_all visible (u ''Bearer '')" by (simp add: u_def visible_def)
  have "strip_prefix v w = Some t \<longleftrightarrow> v = w @ t" for v w t :: ustr
    by (auto simp: strip_prefix_def starts_with_def) (metis append_take_drop_id)
  then show ?thesis using p by (auto simp: to_str_def accepts_def split: option.splits)
qed

lemma authenticate_reaches:
  "snd (authenticate sha authentication (\<lambda>request. (service request, [request])) request) =
     (if trusted sha authentication (rq_headers request) then [marked authentication request] else [])"
  unfolding authenticate_def using bearer_iff
  by (auto simp: trusted_def marked_def refuse_def split: option.splits)

text \<open>
  C10. What reaches the server. A request reaches the service behind the HTTP endpoint exactly when its
  one Host header names an allowed host, it carries no browser origin, it is trusted, and it is either a
  POST to the protocol endpoint without a session, within the body limit, that is JSON whose every
  message speaks a served protocol version, or a GET or POST to the transfer route of a server that
  has one. It then arrives unchanged, except that a bearer token is taken out and replaced by the mark
  that it was accepted.
\<close>

theorem gate_exact:
  "snd (serve authority from_slice sha uuid service c modern transfer request) =
     (if addressed_to authority (allowed_hosts (HttpPolicy_new (hc_allowed_hosts c) modern transfer)) (rq_headers request) \<and>
         headers_get (rq_headers request) (u ''origin'') = None \<and> trusted sha (hc_authentication c) (rq_headers request) \<and>
         (rq_path request = u ''/mcp'' \<and> rq_method request = u ''POST'' \<and>
            headers_get (rq_headers request) (u ''mcp-session-id'') = None \<and> admitted_body from_slice modern request \<or>
          rq_path request = u ''/files'' \<and> transfer \<and> rq_method request \<in> {u ''GET'', u ''POST''})
      then [marked (hc_authentication c) request] else [])"
proof -
  let ?pol = "HttpPolicy_new (hc_allowed_hosts c) modern transfer"
  let ?next = "authenticate sha (hc_authentication c) (\<lambda>request. (service request, [request]))"
  have pol: "modern_only ?pol = modern" "transfer_enabled ?pol = transfer" by (simp_all add: HttpPolicy_new_def)
  have paths: "u ''/mcp'' \<noteq> u ''/files''" by (simp add: u_def)
  show ?thesis
  proof (cases "classify_host authority (rq_headers request) (allowed_hosts ?pol)")
    case HostAllowed
    then have "addressed_to authority (allowed_hosts ?pol) (rq_headers request)" by (simp add: classify_host_allowed)
    then have reached: "snd (serve authority from_slice sha uuid service c modern transfer request) = snd (decide_request authority from_slice ?pol request ?next)"
      "addressed_to authority (allowed_hosts ?pol) (rq_headers request)"
      by (simp_all add: serve_def enforce_def map_prod_def split_def)
    show ?thesis
    proof (cases "bounded_body from_slice request modern")
      case (Inl r)
      then have "\<not> admitted_body from_slice modern request" using bounded_body_iff [of from_slice request modern request] by simp
      then show ?thesis unfolding reached(1) decide_request_def using Inl HostAllowed paths reached(2)
        by (simp add: pol refuse_def authenticate_reaches classify_route_def route_of_def ENDPOINT_PATH_def TRANSFER_PATH_def Let_def)
    next
      case (Inr r)
      then have "admitted_body from_slice modern request" "r = request" using bounded_body_iff by blast+
      then show ?thesis unfolding reached(1) decide_request_def using Inr HostAllowed paths reached(2)
        by (simp add: pol refuse_def authenticate_reaches classify_route_def route_of_def ENDPOINT_PATH_def TRANSFER_PATH_def Let_def)
    qed
  qed (auto simp: serve_def enforce_def decide_request_def Let_def refuse_def simp flip: classify_host_allowed)
qed

text \<open>Every answer carries the headers of the gate, and a failure of the service is not shown.\<close>

lemma headers_insert_get: "headers_get (headers_insert hs n v) m = (if m = n then Some v else headers_get hs m)"
  by (induction hs) (auto simp: headers_insert_def headers_remove_def headers_get_def)

lemma answers_are_marked:
  assumes "serve authority from_slice sha uuid service c modern transfer request = (r, reached)"
  shows "headers_get (rs_headers r) (u ''cache-control'') = Some (u ''no-store'')"
    "headers_get (rs_headers r) (u ''x-content-type-options'') = Some (u ''nosniff'')"
  using assms by (auto simp: serve_def enforce_def apply_security_headers_def headers_insert_get u_def map_prod_def split: prod.splits)

text \<open>A token that is accepted by the configuration and has a character outside ASCII can never be used.\<close>

lemma unusable_token:
  assumes new: "HttpAuthentication_new sha token = Inr digest" and "\<exists>ch\<in>set token. 128 \<le> ch" and "wf_text token"
    and no_collision: "\<And>bs. sha bs = sha (encode_utf8 token) \<Longrightarrow> bs = encode_utf8 token"
  shows "\<not> trusted sha (Some digest) hs"
proof
  assume "trusted sha (Some digest) hs"
  then obtain t where t: "list_all visible t" "sha (encode_utf8 t) = digest" by (auto simp: trusted_def)
  moreover have "digest = sha (encode_utf8 token)" using new by (auto simp: HttpAuthentication_new_def split: if_splits)
  ultimately have e: "encode_utf8 t = encode_utf8 token" using no_collision by simp
  have ascii: "\<forall>c\<in>set t. c < 128" using t(1) by (auto simp: list_all_iff visible_def)
  then have "wf_text t" by (auto simp: wf_text_def list_all_iff scalar_def)
  then have "t = token" using e assms(3) decode_encode_utf8 by (metis option.inject)
  then show False using assms(2) ascii by auto
qed

end
