(* ===== verification/File_Base.thy ===== *)
theory File_Base
  imports Prelude
begin

text \<open>
  What the file tools share: their error type (\<open>crates/mcp-files/src/error.rs\<close>) and their
  resource bounds with the defaults and the validation (\<open>FilesystemLimits\<close> in \<open>types.rs\<close>).
\<close>

section \<open>Errors\<close>

datatype IoErrorKind = IoNotFound | IoPermissionDenied | IoAlreadyExists | IoOther

datatype FilesystemError =
    RootEscape ustr
  | ProtectedPath ustr
  | Operation ustr
  | InvalidRequest ustr
  | NotFound ustr
  | Stale ustr
  | Aborted
  | Io ustr IoErrorKind

definition code :: "FilesystemError \<Rightarrow> ustr" where
  "code e =
     (case e of
        RootEscape _ \<Rightarrow> u ''path_outside_root''
      | ProtectedPath _ \<Rightarrow> u ''protected_path''
      | Operation _ \<Rightarrow> u ''invalid_operation''
      | InvalidRequest _ \<Rightarrow> u ''invalid_input''
      | NotFound _ \<Rightarrow> u ''not_found''
      | Stale _ \<Rightarrow> u ''stale_resource''
      | Aborted \<Rightarrow> u ''cancelled''
      | Io _ IoNotFound \<Rightarrow> u ''not_found''
      | Io _ IoPermissionDenied \<Rightarrow> u ''filesystem_permission_denied''
      | Io _ _ \<Rightarrow> u ''filesystem_io'')"

definition is_not_found :: "FilesystemError \<Rightarrow> bool" where
  "is_not_found e = (case e of NotFound _ \<Rightarrow> True | Io _ k \<Rightarrow> k = IoNotFound | _ \<Rightarrow> False)"

section \<open>Limits\<close>

record FilesystemLimits =
  max_read_bytes :: nat
  max_file_bytes :: nat
  max_line_length :: nat
  max_read_lines :: nat
  max_search_results :: nat
  max_traversal_entries :: nat
  max_write_bytes :: nat
  max_patch_bytes :: nat
  max_patch_files :: nat
  max_patch_plan_bytes :: nat
  max_regex_length :: nat
  max_glob_bytes :: nat
  max_glob_brace_depth :: nat
  max_glob_alternatives :: nat
  max_glob_generated_bytes :: nat
  max_glob_match_steps :: nat
  max_diff_bytes :: nat
  max_previous_bytes :: nat
  max_patch_result_bytes :: nat
  honor_gitignore :: bool
  prune_nested_repositories :: bool
  max_gitignore_files :: nat
  max_gitignore_bytes :: nat
  max_gitignore_patterns :: nat
  max_gitignore_retained_bytes :: nat
  max_gitignore_match_steps :: nat

definition default_limits :: FilesystemLimits where
  "default_limits =
     \<lparr>max_read_bytes = 50 * 1024,
      max_file_bytes = 5 * 1024 * 1024,
      max_line_length = 2000,
      max_read_lines = 2000,
      max_search_results = 500,
      max_traversal_entries = 50000,
      max_write_bytes = 5 * 1024 * 1024,
      max_patch_bytes = 1024 * 1024,
      max_patch_files = 100,
      max_patch_plan_bytes = 32 * 1024 * 1024,
      max_regex_length = 1000,
      max_glob_bytes = 4 * 1024,
      max_glob_brace_depth = 8,
      max_glob_alternatives = 256,
      max_glob_generated_bytes = 64 * 1024,
      max_glob_match_steps = 400000000,
      max_diff_bytes = 16 * 1024,
      max_previous_bytes = 1024 * 1024,
      max_patch_result_bytes = 4 * 1024 * 1024,
      honor_gitignore = True,
      prune_nested_repositories = False,
      max_gitignore_files = 1000,
      max_gitignore_bytes = 64 * 1024,
      max_gitignore_patterns = 1000,
      max_gitignore_retained_bytes = 1024 * 1024,
      max_gitignore_match_steps = 400000000\<rparr>"

definition limit_fields :: "FilesystemLimits \<Rightarrow> (ustr \<times> nat) list" where
  "limit_fields l =
     [(u ''maxReadBytes'', max_read_bytes l),
      (u ''maxFileBytes'', max_file_bytes l),
      (u ''maxLineLength'', max_line_length l),
      (u ''maxReadLines'', max_read_lines l),
      (u ''maxSearchResults'', max_search_results l),
      (u ''maxTraversalEntries'', max_traversal_entries l),
      (u ''maxWriteBytes'', max_write_bytes l),
      (u ''maxPatchBytes'', max_patch_bytes l),
      (u ''maxPatchFiles'', max_patch_files l),
      (u ''maxPatchPlanBytes'', max_patch_plan_bytes l),
      (u ''maxRegexLength'', max_regex_length l),
      (u ''maxGlobBytes'', max_glob_bytes l),
      (u ''maxGlobBraceDepth'', max_glob_brace_depth l),
      (u ''maxGlobAlternatives'', max_glob_alternatives l),
      (u ''maxGlobGeneratedBytes'', max_glob_generated_bytes l),
      (u ''maxGlobMatchSteps'', max_glob_match_steps l),
      (u ''maxDiffBytes'', max_diff_bytes l),
      (u ''maxPreviousBytes'', max_previous_bytes l),
      (u ''maxPatchResultBytes'', max_patch_result_bytes l),
      (u ''maxGitignoreFiles'', max_gitignore_files l),
      (u ''maxGitignoreBytes'', max_gitignore_bytes l),
      (u ''maxGitignorePatterns'', max_gitignore_patterns l),
      (u ''maxGitignoreRetainedBytes'', max_gitignore_retained_bytes l),
      (u ''maxGitignoreMatchSteps'', max_gitignore_match_steps l)]"

definition validate :: "FilesystemLimits \<Rightarrow> FilesystemError + FilesystemLimits" where
  "validate l =
     (case find (\<lambda>(_, value). value = 0) (limit_fields l) of
        Some (name, _) \<Rightarrow> Inl (Operation (name @ u '' must be a positive integer''))
      | None \<Rightarrow> Inr l)"

lemma default_limits_valid: "validate default_limits = Inr default_limits"
  by (simp add: validate_def limit_fields_def default_limits_def)

end
