(* ===== verification/Path_Policy.thy ===== *)
theory Path_Policy
  imports File_Base "HOL-Library.List_Lexorder"
begin

text \<open>
  The filesystem root policy (\<open>crates/mcp-files/src/path_policy.rs\<close>), for the Unix build. A path is the list of its components, which is
  how \<open>std::path\<close> compares, strips and extends paths; \<open>components\<close> reads one from text and
  \<open>path_text\<close> renders it. File names are Unicode text. \<open>realpath\<close> is the parameter \<open>canon\<close>,
  asked with a counter so that its answers may change between two calls of one operation, and
  \<open>lower\<close> is Unicode lower-casing, which the code uses on names that are not ASCII.
\<close>

section \<open>Paths\<close>

datatype Component = RootDir | CurDir | ParentDir | Normal ustr

type_synonym Path = "Component list"

definition component_of :: "ustr \<Rightarrow> Component" where
  "component_of s = (if s = u ''..'' then ParentDir else if s = u ''.'' then CurDir else Normal s)"

text \<open>\<open>Path::components\<close>: empty parts and a dot that does not lead a relative path are dropped.\<close>

definition components :: "ustr \<Rightarrow> Path" where
  "components s =
     (let parts = map component_of (filter (\<lambda>p. p \<noteq> []) (split_on SLASH s));
          rest = filter (\<lambda>c. c \<noteq> CurDir)
      in if starts_with s [SLASH] then RootDir # rest parts
         else case parts of CurDir # ps \<Rightarrow> CurDir # rest ps | _ \<Rightarrow> rest parts)"

definition component_text :: "Component \<Rightarrow> ustr" where
  "component_text c =
     (case c of RootDir \<Rightarrow> [SLASH] | CurDir \<Rightarrow> [DOT] | ParentDir \<Rightarrow> [DOT, DOT] | Normal s \<Rightarrow> s)"

definition path_text :: "Path \<Rightarrow> ustr" where
  "path_text p =
     (case p of
        RootDir # cs \<Rightarrow> SLASH # join [SLASH] (map component_text cs)
      | cs \<Rightarrow> join [SLASH] (map component_text cs))"

definition is_absolute :: "Path \<Rightarrow> bool" where
  "is_absolute p = (case p of RootDir # _ \<Rightarrow> True | _ \<Rightarrow> False)"

definition path_join :: "Path \<Rightarrow> Path \<Rightarrow> Path" where
  "path_join p q = (if is_absolute q then q else p @ filter (\<lambda>c. c \<noteq> CurDir) q)"

definition parent :: "Path \<Rightarrow> Path option" where
  "parent p = (case rev p of [] \<Rightarrow> None | RootDir # _ \<Rightarrow> None | _ # r \<Rightarrow> Some (rev r))"

definition file_name :: "Path \<Rightarrow> ustr option" where
  "file_name p = (case rev p of Normal s # _ \<Rightarrow> Some s | _ \<Rightarrow> None)"

definition path_pop :: "Path \<Rightarrow> Path" where
  "path_pop p = (case parent p of Some q \<Rightarrow> q | None \<Rightarrow> p)"

fun normalize_from :: "Path \<Rightarrow> Component list \<Rightarrow> Path" where
  "normalize_from acc [] = acc"
| "normalize_from acc (CurDir # cs) = normalize_from acc cs"
| "normalize_from acc (ParentDir # cs) = normalize_from (path_pop acc) cs"
| "normalize_from acc (RootDir # cs) = normalize_from [RootDir] cs"
| "normalize_from acc (Normal s # cs) = normalize_from (acc @ [Normal s]) cs"

definition normalize :: "Path \<Rightarrow> Path" where
  "normalize p = normalize_from [] p"

subsection \<open>The order of paths\<close>

text \<open>Paths are compared component by component, and components first by their kind.\<close>

instantiation Component :: linorder
begin

fun component_key :: "Component \<Rightarrow> nat \<times> ustr" where
  "component_key RootDir = (0, [])"
| "component_key CurDir = (1, [])"
| "component_key ParentDir = (2, [])"
| "component_key (Normal s) = (3, s)"

definition less_eq_Component :: "Component \<Rightarrow> Component \<Rightarrow> bool" where
  "less_eq_Component a b \<longleftrightarrow>
     fst (component_key a) < fst (component_key b) \<or>
     fst (component_key a) = fst (component_key b) \<and> snd (component_key a) \<le> snd (component_key b)"

definition less_Component :: "Component \<Rightarrow> Component \<Rightarrow> bool" where
  "less_Component a b \<longleftrightarrow> a \<le> b \<and> \<not> b \<le> (a :: Component)"

instance
proof
  have key: "component_key a = component_key b \<Longrightarrow> a = b" for a b
    by (cases a; cases b) auto
  fix a b c :: Component
  show "a < b \<longleftrightarrow> a \<le> b \<and> \<not> b \<le> a" by (rule less_Component_def)
  show "a \<le> a" by (simp add: less_eq_Component_def)
  show "a \<le> b \<Longrightarrow> b \<le> c \<Longrightarrow> a \<le> c" by (auto simp: less_eq_Component_def)
  show "a \<le> b \<Longrightarrow> b \<le> a \<Longrightarrow> a = b"
    by (rule key) (auto simp: less_eq_Component_def prod_eq_iff)
  show "a \<le> b \<or> b \<le> a" by (auto simp: less_eq_Component_def)
qed

end

section \<open>The policy\<close>

record RootPathPolicy =
  root :: Path
  confined :: bool

definition starts_with_root :: "Path \<Rightarrow> Path \<Rightarrow> bool" where
  "starts_with_root candidate r = starts_with candidate r"

definition fold_case :: "(ustr \<Rightarrow> ustr) \<Rightarrow> ustr \<Rightarrow> ustr" where
  "fold_case lower s =
     (if \<forall>c\<in>set s. c < 0x80
      then if \<exists>c\<in>set s. is_ascii_uppercase c then to_ascii_lowercase s else s
      else lower s)"

definition protected_directories :: "ustr list" where
  "protected_directories = [u ''.git'', u ''.ssh'', u ''.workcell'']"

definition protected_basename :: "ustr \<Rightarrow> bool" where
  "protected_basename b \<longleftrightarrow>
     b = u ''.env'' \<or> starts_with b (u ''.env.'') \<or>
     b \<in> set [u ''.npmrc'', u ''.pypirc'', u ''.netrc''] \<or> ends_with b (u ''.key'') \<or>
     b \<in> set [u ''id_rsa'', u ''id_dsa'', u ''id_ecdsa'', u ''id_ed25519'']"

fun protected_from :: "(ustr \<Rightarrow> ustr) \<Rightarrow> ustr option \<Rightarrow> Component list \<Rightarrow> bool" where
  "protected_from lower basename [] = (case basename of None \<Rightarrow> False | Some b \<Rightarrow> protected_basename b)"
| "protected_from lower basename (c # cs) =
     (let folded = fold_case lower (component_text c)
      in if folded \<in> set protected_directories then True else protected_from lower (Some folded) cs)"

definition protected_relative :: "(ustr \<Rightarrow> ustr) \<Rightarrow> Path \<Rightarrow> bool" where
  "protected_relative lower p = protected_from lower None p"

definition assert_inside :: "RootPathPolicy \<Rightarrow> Path \<Rightarrow> ustr \<Rightarrow> FilesystemError + unit" where
  "assert_inside pol candidate requested =
     (if starts_with_root candidate (root pol) then Inr ()
      else Inl (RootEscape (u ''Path escapes filesystem root: '' @ requested)))"

definition assert_not_protected ::
  "(ustr \<Rightarrow> ustr) \<Rightarrow> RootPathPolicy \<Rightarrow> Path \<Rightarrow> ustr \<Rightarrow> FilesystemError + unit" where
  "assert_not_protected lower pol candidate requested =
     (case strip_prefix candidate (root pol) of
        None \<Rightarrow> Inl (RootEscape (u ''Path escapes filesystem root: '' @ requested))
      | Some relative \<Rightarrow>
          if relative = [] then Inr ()
          else if protected_relative lower relative
          then Inl (ProtectedPath (u ''Path is protected by filesystem policy: '' @ requested))
          else Inr ())"

definition assert_both ::
  "(ustr \<Rightarrow> ustr) \<Rightarrow> RootPathPolicy \<Rightarrow> Path \<Rightarrow> ustr \<Rightarrow> FilesystemError + unit" where
  "assert_both lower pol candidate requested =
     (if confined pol
      then case assert_inside pol candidate requested of
             Inl e \<Rightarrow> Inl e
           | Inr _ \<Rightarrow> assert_not_protected lower pol candidate requested
      else Inr ())"

definition create ::
  "(nat \<Rightarrow> Path \<Rightarrow> IoErrorKind + Path) \<Rightarrow> (Path \<Rightarrow> IoErrorKind + bool) \<Rightarrow> ustr \<Rightarrow>
     FilesystemError + RootPathPolicy" where
  "create canon is_dir requested_root =
     (if trim requested_root = [] then Inl (Operation (u ''root is required''))
      else case canon 0 (components requested_root) of
             Inl _ \<Rightarrow> Inl (Operation (u ''Root does not exist: '' @ requested_root))
           | Inr r \<Rightarrow>
               (case is_dir r of
                  Inl k \<Rightarrow> Inl (Io (u ''Cannot inspect root '' @ path_text r) k)
                | Inr d \<Rightarrow>
                    if \<not> d then Inl (Operation (u ''Root must be a directory: '' @ requested_root))
                    else Inr \<lparr>root = r, confined = True\<rparr>))"

definition create_unconfined ::
  "(nat \<Rightarrow> Path \<Rightarrow> IoErrorKind + Path) \<Rightarrow> (Path \<Rightarrow> IoErrorKind + bool) \<Rightarrow> ustr \<Rightarrow>
     FilesystemError + RootPathPolicy" where
  "create_unconfined canon is_dir base_cwd =
     (case create canon is_dir base_cwd of Inl e \<Rightarrow> Inl e | Inr pol \<Rightarrow> Inr (pol\<lparr>confined := False\<rparr>))"

definition lexical :: "RootPathPolicy \<Rightarrow> ustr \<Rightarrow> Path" where
  "lexical pol requested =
     (let p = components requested
      in if is_absolute p then normalize p else normalize (path_join (root pol) p))"

lemma parent_length: "parent p = Some q \<Longrightarrow> length q < length p"
  by (cases p rule: rev_cases) (auto simp: parent_def split: Component.splits)

function resolve_existing ::
  "(ustr \<Rightarrow> ustr) \<Rightarrow> (nat \<Rightarrow> Path \<Rightarrow> IoErrorKind + Path) \<Rightarrow> RootPathPolicy \<Rightarrow> ustr \<Rightarrow> Path \<Rightarrow>
     ustr list \<Rightarrow> FilesystemError + Path" where
  "resolve_existing lower canon pol requested current sfx =
     (case canon (length sfx) current of
        Inr existing \<Rightarrow>
          (let canonical = existing @ map Normal (rev sfx)
           in case assert_both lower pol canonical requested of
                Inl e \<Rightarrow> Inl e | Inr _ \<Rightarrow> Inr canonical)
      | Inl _ \<Rightarrow>
          (case file_name current of
             None \<Rightarrow> Inl (Operation (u ''Cannot resolve path: '' @ requested))
           | Some name \<Rightarrow>
               (case parent current of
                  None \<Rightarrow> Inl (Operation (u ''Cannot resolve path: '' @ requested))
                | Some p \<Rightarrow> resolve_existing lower canon pol requested p (sfx @ [name]))))"
  by pat_completeness auto
termination
  by (relation "measure (\<lambda>(_, _, _, _, current, _). length current)") (auto dest: parent_length)

declare resolve_existing.simps [simp del]

definition resolve ::
  "(ustr \<Rightarrow> ustr) \<Rightarrow> (nat \<Rightarrow> Path \<Rightarrow> IoErrorKind + Path) \<Rightarrow> RootPathPolicy \<Rightarrow> ustr \<Rightarrow>
     FilesystemError + Path" where
  "resolve lower canon pol requested =
     (if requested = [] then Inl (InvalidRequest (u ''path is required''))
      else case assert_both lower pol (lexical pol requested) requested of
             Inl e \<Rightarrow> Inl e
           | Inr _ \<Rightarrow> resolve_existing lower canon pol requested (lexical pol requested) [])"

definition revalidate ::
  "(ustr \<Rightarrow> ustr) \<Rightarrow> (nat \<Rightarrow> Path \<Rightarrow> IoErrorKind + Path) \<Rightarrow> RootPathPolicy \<Rightarrow> Path \<Rightarrow>
     FilesystemError + Path" where
  "revalidate lower canon pol authorized =
     (case canon 0 authorized of
        Inl k \<Rightarrow> Inl (Io (u ''Cannot revalidate authorized path '' @ path_text authorized) k)
      | Inr canonical \<Rightarrow>
          (case assert_both lower pol canonical (path_text authorized) of
             Inl e \<Rightarrow> Inl e | Inr _ \<Rightarrow> Inr canonical))"

definition resolve_internal_existing ::
  "(nat \<Rightarrow> Path \<Rightarrow> IoErrorKind + Path) \<Rightarrow> RootPathPolicy \<Rightarrow> Path \<Rightarrow> FilesystemError + Path" where
  "resolve_internal_existing canon pol candidate =
     (case canon 0 candidate of
        Inl k \<Rightarrow> Inl (Io (u ''Cannot resolve internal workspace path '' @ path_text candidate) k)
      | Inr canonical \<Rightarrow>
          if confined pol
          then case assert_inside pol canonical (path_text candidate) of
                 Inl e \<Rightarrow> Inl e | Inr _ \<Rightarrow> Inr canonical
          else Inr canonical)"

definition relative :: "RootPathPolicy \<Rightarrow> Path \<Rightarrow> FilesystemError + ustr" where
  "relative pol p =
     (let shown = (case strip_prefix p (root pol) of
                     None \<Rightarrow> path_text p
                   | Some r \<Rightarrow> if r = [] then u ''.'' else join [SLASH] (map component_text r))
      in if confined pol
         then case assert_inside pol p (path_text p) of Inl e \<Rightarrow> Inl e | Inr _ \<Rightarrow> Inr shown
         else Inr shown)"

definition is_protected_path :: "(ustr \<Rightarrow> ustr) \<Rightarrow> RootPathPolicy \<Rightarrow> Path \<Rightarrow> bool" where
  "is_protected_path lower pol p =
     protected_relative lower (case strip_prefix p (root pol) of Some r \<Rightarrow> r | None \<Rightarrow> p)"

definition traversal_allows_protected :: "(ustr \<Rightarrow> ustr) \<Rightarrow> RootPathPolicy \<Rightarrow> Path \<Rightarrow> bool" where
  "traversal_allows_protected lower pol traversal_root \<longleftrightarrow>
     \<not> confined pol \<or> is_protected_path lower pol traversal_root"

definition traversal_entry_allowed ::
  "(ustr \<Rightarrow> ustr) \<Rightarrow> RootPathPolicy \<Rightarrow> bool \<Rightarrow> Path \<Rightarrow> bool" where
  "traversal_entry_allowed lower pol allows_protected candidate \<longleftrightarrow>
     allows_protected \<or> \<not> is_protected_path lower pol candidate"

definition authorize_canonical_entry :: "(ustr \<Rightarrow> ustr) \<Rightarrow> RootPathPolicy \<Rightarrow> Path \<Rightarrow> bool" where
  "authorize_canonical_entry lower pol candidate =
     (if \<not> confined pol then True
      else if \<not> starts_with_root candidate (root pol) then False
      else case strip_prefix candidate (root pol) of
             None \<Rightarrow> False
           | Some r \<Rightarrow> r = [] \<or> \<not> protected_relative lower r)"

definition protects_relative :: "(ustr \<Rightarrow> ustr) \<Rightarrow> RootPathPolicy \<Rightarrow> ustr \<Rightarrow> bool" where
  "protects_relative lower pol r \<longleftrightarrow> confined pol \<and> protected_relative lower (components r)"

section \<open>Shape of paths\<close>

definition wf_name :: "ustr \<Rightarrow> bool" where
  "wf_name s \<longleftrightarrow> s \<noteq> [] \<and> SLASH \<notin> set s \<and> s \<noteq> u ''.'' \<and> s \<noteq> u ''..''"

definition wf_part :: "Component \<Rightarrow> bool" where
  "wf_part c = (case c of Normal s \<Rightarrow> wf_name s | _ \<Rightarrow> False)"

text \<open>An absolute path without dot components, as \<open>realpath\<close> returns it.\<close>

definition abs_path :: "Path \<Rightarrow> bool" where
  "abs_path p = (case p of RootDir # cs \<Rightarrow> list_all wf_part cs | _ \<Rightarrow> False)"

lemma wf_partE:
  assumes "wf_part c"
  obtains s where "c = Normal s" "wf_name s"
  using assms by (auto simp: wf_part_def split: Component.splits)

lemma abs_pathE:
  assumes "abs_path p"
  obtains cs where "p = RootDir # cs" "list_all wf_part cs"
  using assms by (auto simp: abs_path_def split: list.splits Component.splits)

lemma wf_part_round_trip: "wf_part c \<Longrightarrow> component_of (component_text c) = c"
  by (auto elim!: wf_partE simp: component_of_def component_text_def wf_name_def)

lemma wf_part_text: "wf_part c \<Longrightarrow> component_text c \<noteq> [] \<and> SLASH \<notin> set (component_text c) \<and> c \<noteq> CurDir"
  by (auto elim!: wf_partE simp: component_text_def wf_name_def)

lemma map_component_of_text: "list_all wf_part cs \<Longrightarrow> map component_of (map component_text cs) = cs"
  by (induction cs) (auto simp: wf_part_round_trip)

lemma filter_wf_parts:
  "list_all wf_part cs \<Longrightarrow> filter (\<lambda>p. p \<noteq> []) (map component_text cs) = map component_text cs"
  "list_all wf_part cs \<Longrightarrow> filter (\<lambda>c. c \<noteq> CurDir) cs = cs"
  by (induction cs) (auto simp: wf_part_text)

lemma split_join_parts:
  assumes "list_all wf_part cs" and "cs \<noteq> []"
  shows "split_on SLASH (join [SLASH] (map component_text cs)) = map component_text cs"
  using assms by (intro split_on_join) (auto simp: list_all_iff wf_part_text)

text \<open>Rendering an absolute path and reading it again gives the path back.\<close>

lemma components_path_text:
  assumes "abs_path p"
  shows "components (path_text p) = p"
proof -
  obtain cs where p: "p = RootDir # cs" and cs: "list_all wf_part cs" using assms by (rule abs_pathE)
  have slash: "split_on SLASH (SLASH # t) = [] # split_on SLASH t" for t by (simp add: split_on_def)
  show ?thesis
  proof (cases "cs = []")
    case True
    then show ?thesis by (simp add: p components_def path_text_def starts_with_def split_on_def)
  next
    case False
    then show ?thesis
      using cs by (simp add: p components_def path_text_def starts_with_def slash split_join_parts
          filter_wf_parts map_component_of_text del: map_map)
  qed
qed

lemma path_pop_snoc: "c \<noteq> RootDir \<Longrightarrow> path_pop (p @ [c]) = p"
  by (auto simp: path_pop_def parent_def split: Component.splits)

lemma path_pop_abs: "abs_path p \<Longrightarrow> abs_path (path_pop p)"
proof (erule abs_pathE)
  fix cs assume p: "p = RootDir # cs" and cs: "list_all wf_part cs"
  show "abs_path (path_pop p)"
  proof (cases cs rule: rev_cases)
    case Nil
    then show ?thesis by (simp add: p path_pop_def parent_def abs_path_def)
  next
    case (snoc ds d)
    then have "d \<noteq> RootDir" using cs by (auto simp: wf_part_def)
    moreover have "p = (RootDir # ds) @ [d]" by (simp add: p snoc)
    ultimately have "path_pop p = RootDir # ds" using path_pop_snoc by metis
    then show ?thesis using cs snoc by (simp add: abs_path_def)
  qed
qed

lemma abs_path_snoc: "abs_path p \<Longrightarrow> wf_name s \<Longrightarrow> abs_path (p @ [Normal s])"
  by (erule abs_pathE) (simp add: abs_path_def wf_part_def)

definition names_ok :: "Path \<Rightarrow> bool" where
  "names_ok p = list_all (\<lambda>c. case c of Normal s \<Rightarrow> wf_name s | _ \<Rightarrow> True) p"

lemma normalize_from_abs: "abs_path acc \<Longrightarrow> names_ok cs \<Longrightarrow> abs_path (normalize_from acc cs)"
proof (induction acc cs rule: normalize_from.induct)
  case (4 acc cs)
  then show ?case by (simp add: abs_path_def names_ok_def)
qed (auto simp: names_ok_def path_pop_abs abs_path_snoc)

lemma normalize_from_wf: "list_all wf_part cs \<Longrightarrow> normalize_from acc cs = acc @ cs"
  by (induction cs arbitrary: acc) (auto elim!: wf_partE)

lemma names_ok_filter: "names_ok p \<Longrightarrow> names_ok (filter P p)"
  by (auto simp: names_ok_def list_all_iff)

lemma components_parts:
  "set (components s) \<subseteq>
     {RootDir, CurDir} \<union> component_of ` {p \<in> set (split_on SLASH s). p \<noteq> []}"
proof -
  let ?parts = "map component_of (filter (\<lambda>p. p \<noteq> []) (split_on SLASH s))"
  have "set (case ps of CurDir # qs \<Rightarrow> CurDir # filter P qs | _ \<Rightarrow> filter P ps) \<subseteq> {CurDir} \<union> set ps"
    for ps :: Path and P by (cases ps) (auto split: Component.splits)
  from this [of _ ?parts] show ?thesis by (auto simp: components_def Let_def)
qed

lemma components_ok: "names_ok (components s)"
  using components_parts [of s] split_on_pieces [of _ SLASH s]
  by (fastforce simp: names_ok_def list_all_iff component_of_def wf_name_def)

lemma normalize_RootDir: "normalize (RootDir # cs) = normalize_from [RootDir] cs"
  by (simp add: normalize_def)

lemma normalize_abs: "abs_path p \<Longrightarrow> normalize p = p"
  by (auto elim!: abs_pathE simp: normalize_RootDir normalize_from_wf)

lemma lexical_abs:
  assumes "abs_path (root pol)"
  shows "abs_path (lexical pol requested)"
proof -
  have start: "abs_path (normalize (RootDir # cs))" if "names_ok cs" for cs
    unfolding normalize_RootDir by (rule normalize_from_abs [OF _ that]) (simp add: abs_path_def)
  have ok: "names_ok (components requested)" by (rule components_ok)
  show ?thesis
  proof (cases "is_absolute (components requested)")
    case True
    then obtain cs where cs: "components requested = RootDir # cs"
      by (auto simp: is_absolute_def split: list.splits Component.splits)
    have "names_ok cs" using ok by (simp add: cs names_ok_def)
    then show ?thesis using True by (simp add: lexical_def cs start)
  next
    case False
    from assms obtain rs where rs: "root pol = RootDir # rs" "list_all wf_part rs" by (rule abs_pathE)
    have "names_ok rs" using rs(2) by (auto simp: names_ok_def list_all_iff wf_part_def split: Component.splits)
    then have "names_ok (rs @ filter (\<lambda>c. c \<noteq> CurDir) (components requested))"
      using names_ok_filter [OF ok] by (auto simp: names_ok_def)
    then show ?thesis using False start by (simp add: lexical_def path_join_def rs(1))
  qed
qed

section \<open>Confinement\<close>

text \<open>What confinement means for a path: under the root, and not a protected name below it.\<close>

definition inside :: "(ustr \<Rightarrow> ustr) \<Rightarrow> RootPathPolicy \<Rightarrow> Path \<Rightarrow> bool" where
  "inside lower pol p \<longleftrightarrow> (\<exists>r. p = root pol @ r \<and> \<not> protected_relative lower r)"

lemma assert_both_iff:
  "assert_both lower pol p requested = Inr () \<longleftrightarrow> (confined pol \<longrightarrow> inside lower pol p)"
proof (cases "starts_with_root p (root pol)")
  case True
  then obtain r where p: "p = root pol @ r"
    by (auto simp: starts_with_root_def starts_with_prefix elim: prefixE)
  have empty: "\<not> protected_relative lower []" by (simp add: protected_relative_def)
  show ?thesis
    using True empty by (auto simp: assert_both_def assert_inside_def assert_not_protected_def inside_def p)
next
  case False
  then have "\<nexists>r. p = root pol @ r" by (auto simp: starts_with_root_def starts_with_prefix)
  with False show ?thesis by (auto simp: assert_both_def assert_inside_def inside_def)
qed

lemma resolve_existing_checked:
  "resolve_existing lower canon pol requested current sfx = Inr p \<Longrightarrow>
     assert_both lower pol p requested = Inr ()"
proof (induction lower canon pol requested current sfx rule: resolve_existing.induct)
  case (1 lower canon pol requested current sfx)
  then show ?case
    by (subst (asm) (2) resolve_existing.simps) (auto simp: Let_def split: sum.splits option.splits)
qed

text \<open>
  C4. A path that \<open>resolve\<close> returns under confinement lies under the root and is not protected,
  and so does the requested spelling itself, whatever symbolic links \<open>realpath\<close> reports and
  however the tree changes while the path is resolved.
\<close>

theorem resolve_confined:
  assumes "resolve lower canon pol requested = Inr p" and "confined pol"
  shows "(\<exists>r. p = root pol @ r \<and> \<not> protected_relative lower r) \<and>
    (\<exists>r. lexical pol requested = root pol @ r \<and> \<not> protected_relative lower r)"
proof -
  have "assert_both lower pol (lexical pol requested) requested = Inr ()"
    and "resolve_existing lower canon pol requested (lexical pol requested) [] = Inr p"
    using assms(1) by (auto simp: resolve_def split: if_splits sum.splits)
  then show ?thesis
    using assms(2) resolve_existing_checked [of lower canon pol requested _ "[]" p]
    by (simp add: assert_both_iff inside_def)
qed

text \<open>
  A request whose dot-dot components lead out of the root is refused as an escape without
  asking the filesystem anything: the refusal is the same for every \<open>realpath\<close>.
\<close>

theorem resolve_escape_refused:
  assumes "requested \<noteq> []" and "confined pol" and "\<not> starts_with (lexical pol requested) (root pol)"
  shows "resolve lower canon pol requested =
    Inl (RootEscape (u ''Path escapes filesystem root: '' @ requested))"
  using assms by (simp add: resolve_def assert_both_def assert_inside_def starts_with_root_def)

lemma authorize_iff:
  "authorize_canonical_entry lower pol p \<longleftrightarrow> (confined pol \<longrightarrow> inside lower pol p)"
proof (cases "starts_with_root p (root pol)")
  case True
  then obtain r where p: "p = root pol @ r"
    by (auto simp: starts_with_root_def starts_with_prefix elim: prefixE)
  have "\<not> protected_relative lower []" by (simp add: protected_relative_def)
  then show ?thesis using True
    by (auto simp: authorize_canonical_entry_def inside_def p)
next
  case False
  then have "\<nexists>r. p = root pol @ r" by (auto simp: starts_with_root_def starts_with_prefix)
  with False show ?thesis by (auto simp: authorize_canonical_entry_def inside_def)
qed

lemma path_text_ne: "abs_path p \<Longrightarrow> path_text p \<noteq> []"
  by (erule abs_pathE) (simp add: path_text_def)

lemma lexical_path_text: "abs_path p \<Longrightarrow> lexical pol (path_text p) = p"
  by (simp add: lexical_def components_path_text normalize_abs is_absolute_def abs_path_def
      split: list.splits Component.splits)

text \<open>
  The per-entry shortcut of directory traversal decides as \<open>resolve\<close> does: an entry that is
  its own real path is admitted exactly when resolving its name succeeds with that path.
\<close>

theorem authorize_agrees_with_resolve:
  assumes "abs_path p" and "canon 0 p = Inr p"
  shows "authorize_canonical_entry lower pol p \<longleftrightarrow> resolve lower canon pol (path_text p) = Inr p"
proof -
  have "resolve_existing lower canon pol (path_text p) p [] =
      (case assert_both lower pol p (path_text p) of Inl e \<Rightarrow> Inl e | Inr _ \<Rightarrow> Inr p)"
    by (subst resolve_existing.simps) (simp add: assms(2))
  then have "resolve lower canon pol (path_text p) = Inr p \<longleftrightarrow>
      assert_both lower pol p (path_text p) = Inr ()"
    using assms(1) by (auto simp: resolve_def path_text_ne lexical_path_text split: sum.splits)
  then show ?thesis by (simp add: authorize_iff assert_both_iff)
qed

lemma components_join:
  assumes "list_all wf_part cs" and "cs \<noteq> []"
  shows "components (join [SLASH] (map component_text cs)) = cs"
proof -
  obtain c ds where cs: "cs = c # ds" using assms(2) by (cases cs) auto
  have "component_text c \<noteq> []" "SLASH \<notin> set (component_text c)" "c \<noteq> CurDir"
    using assms(1) wf_part_text by (auto simp: cs)
  then have "\<not> starts_with (join [SLASH] (map component_text cs)) [SLASH]"
    by (cases "component_text c"; cases ds) (auto simp: cs starts_with_def)
  moreover have "(case cs of CurDir # ps \<Rightarrow> CurDir # filter (\<lambda>c. c \<noteq> CurDir) ps
      | _ \<Rightarrow> filter (\<lambda>c. c \<noteq> CurDir) cs) = cs"
    using \<open>c \<noteq> CurDir\<close> filter_wf_parts(2) [OF assms(1)] by (auto simp: cs split: Component.splits)
  ultimately show ?thesis
    using assms by (simp add: components_def split_join_parts filter_wf_parts map_component_of_text Let_def del: map_map)
qed

text \<open>
  The root-relative spelling that \<open>relative\<close> prints for a path under the root names that
  path again: read back against the root it is lexically the same path.
\<close>

theorem relative_names_path:
  assumes "abs_path p" and "p = root pol @ r" and "relative pol p = Inr shown" and "root pol \<noteq> []"
  shows "lexical pol shown = p"
proof -
  have strip: "strip_prefix p (root pol) = Some r" by (simp add: assms(2))
  have shown: "shown = (if r = [] then u ''.'' else join [SLASH] (map component_text r))"
    using assms(3) by (auto simp: relative_def strip Let_def split: if_splits sum.splits)
  obtain cs where cs: "p = RootDir # cs" "list_all wf_part cs" using assms(1) by (rule abs_pathE)
  show ?thesis
  proof (cases "r = []")
    case True
    moreover have "components (u ''.'') = [CurDir]"
      by (simp add: components_def component_of_def text_defs)
    ultimately show ?thesis
      using assms(1,2) by (simp add: shown lexical_def is_absolute_def path_join_def normalize_abs)
  next
    case False
    have r: "list_all wf_part r" using assms(2,4) cs by (cases "root pol") auto
    then have "\<not> is_absolute r" by (auto simp: is_absolute_def wf_part_def split: list.splits Component.splits)
    then show ?thesis
      using False r assms(1,2) by (simp add: shown lexical_def components_join path_join_def
          filter_wf_parts normalize_abs)
  qed
qed

lemma protected_from_iff:
  "protected_from lower b cs \<longleftrightarrow>
     (\<exists>c\<in>set cs. fold_case lower (component_text c) \<in> set protected_directories) \<or>
     (if cs = [] then (case b of None \<Rightarrow> False | Some x \<Rightarrow> protected_basename x)
      else protected_basename (fold_case lower (component_text (last cs))))"
  by (induction cs arbitrary: b) (auto simp: Let_def)

text \<open>
  Enumeration agrees with opening: in a traversal that starts at an unprotected directory, an
  entry under the root is listed exactly when the policy would authorize it.
\<close>

theorem traversal_agrees_with_policy:
  assumes "p = root pol @ r"
    and "\<not> is_protected_path lower pol start"
  shows "traversal_entry_allowed lower pol (traversal_allows_protected lower pol start) p \<longleftrightarrow>
    authorize_canonical_entry lower pol p"
proof -
  have "strip_prefix p (root pol) = Some r" by (simp add: assms(1))
  then show ?thesis using assms
    by (auto simp: traversal_entry_allowed_def traversal_allows_protected_def is_protected_path_def
        authorize_iff inside_def)
qed

text \<open>
  Below a version-control, key or journal directory everything is protected, at any depth and
  in any ASCII capitalisation of the directory's name.
\<close>

theorem protected_directory_subtree:
  assumes "to_ascii_lowercase d \<in> set protected_directories" and "\<forall>c\<in>set d. c < 0x80"
  shows "protected_relative lower (outer @ Normal d # inner)"
proof -
  have "to_ascii_lowercase d = d" if "\<not> (\<exists>c\<in>set d. is_ascii_uppercase c)"
    using that by (auto simp: to_ascii_lowercase_def intro: map_idI)
  then have "fold_case lower d \<in> set protected_directories"
    using assms by (auto simp: fold_case_def)
  then show ?thesis by (simp add: protected_relative_def protected_from_iff component_text_def)
qed

section \<open>A concrete tree\<close>

text \<open>
  The root \<open>/w\<close> with a symbolic link \<open>/w/out\<close> to \<open>/etc\<close>; nothing below \<open>/w\<close> but the file
  \<open>/w/a\<close> exists otherwise.
\<close>

definition demo_canon :: "nat \<Rightarrow> Path \<Rightarrow> IoErrorKind + Path" where
  "demo_canon n p =
     (if p = components (u ''/w/out'') then Inr (components (u ''/etc''))
      else if p \<in> {components (u ''/w''), components (u ''/w/a''), components (u ''/'')} then Inr p
      else Inl IoNotFound)"

definition demo_policy :: RootPathPolicy where
  "demo_policy = \<lparr>root = components (u ''/w''), confined = True\<rparr>"

lemmas demo_path_defs =
  demo_canon_def demo_policy_def components_def component_of_def text_defs component_text_def
  path_text_def lexical_def is_absolute_def path_join_def normalize_def path_pop_def parent_def
  file_name_def starts_with_root_def assert_both_def assert_inside_def assert_not_protected_def
  protected_relative_def fold_case_def protected_directories_def protected_basename_def

theorem resolve_confined_witness:
  "resolve to_ascii_lowercase demo_canon demo_policy (u ''./b/../a/new'') = Inr (components (u ''/w/a/new'')) \<and>
   (\<exists>r. components (u ''/w/a/new'') = root demo_policy @ r \<and> \<not> protected_relative to_ascii_lowercase r)"
proof -
  have "resolve to_ascii_lowercase demo_canon demo_policy (u ''./b/../a/new'') = Inr (components (u ''/w/a/new''))"
    by (simp add: resolve_def resolve_existing.simps demo_path_defs)
  then show ?thesis
    using resolve_confined [of to_ascii_lowercase demo_canon demo_policy "u ''./b/../a/new''"]
    by (simp add: demo_policy_def)
qed

theorem resolve_escape_refused_witness:
  "resolve to_ascii_lowercase demo_canon demo_policy (u ''../w2/a'') =
     Inl (RootEscape (u ''Path escapes filesystem root: ../w2/a''))"
  using resolve_escape_refused [of "u ''../w2/a''" demo_policy to_ascii_lowercase demo_canon]
  by (simp add: demo_path_defs)

theorem authorize_agrees_with_resolve_witness:
  "authorize_canonical_entry to_ascii_lowercase demo_policy (components (u ''/w/a'')) \<and>
   resolve to_ascii_lowercase demo_canon demo_policy (path_text (components (u ''/w/a''))) =
     Inr (components (u ''/w/a''))"
proof -
  have "abs_path (components (u ''/w/a''))" "demo_canon 0 (components (u ''/w/a'')) = Inr (components (u ''/w/a''))"
    "authorize_canonical_entry to_ascii_lowercase demo_policy (components (u ''/w/a''))"
    by (simp_all add: demo_path_defs abs_path_def wf_part_def wf_name_def authorize_canonical_entry_def)
  then show ?thesis using authorize_agrees_with_resolve by blast
qed

theorem relative_names_path_witness:
  "relative demo_policy (components (u ''/w/a/b'')) = Inr (u ''a/b'') \<and>
   lexical demo_policy (u ''a/b'') = components (u ''/w/a/b'')"
proof -
  have "abs_path (components (u ''/w/a/b''))" "root demo_policy \<noteq> []"
    "components (u ''/w/a/b'') = root demo_policy @ components (u ''a/b'')"
    "relative demo_policy (components (u ''/w/a/b'')) = Inr (u ''a/b'')"
    by (simp_all add: demo_path_defs abs_path_def wf_part_def wf_name_def relative_def)
  then show ?thesis using relative_names_path by blast
qed

theorem traversal_agrees_with_policy_witness:
  "\<not> traversal_entry_allowed to_ascii_lowercase demo_policy
       (traversal_allows_protected to_ascii_lowercase demo_policy (root demo_policy))
       (root demo_policy @ [Normal (u ''.env'')]) \<and>
   \<not> authorize_canonical_entry to_ascii_lowercase demo_policy (root demo_policy @ [Normal (u ''.env'')])"
proof -
  have "\<not> is_protected_path to_ascii_lowercase demo_policy (root demo_policy)"
    "\<not> authorize_canonical_entry to_ascii_lowercase demo_policy (root demo_policy @ [Normal (u ''.env'')])"
    by (simp_all add: demo_path_defs is_protected_path_def authorize_canonical_entry_def)
  then show ?thesis using traversal_agrees_with_policy [OF refl] by blast
qed

theorem protected_directory_subtree_witness:
  "protected_relative to_ascii_lowercase (components (u ''pkg/.GiT/config''))"
  using protected_directory_subtree [of "u ''.GiT''" to_ascii_lowercase "[Normal (u ''pkg'')]" "[Normal (u ''config'')]"]
  by (simp add: components_def component_of_def protected_directories_def text_defs)

end
