(* ===== verification/File_Text.thy ===== *)
theory File_Text
  imports Path_Policy Utf8
begin

text \<open>
  Reading files for the file tools (\<open>crates/mcp-files/src/text.rs\<close>): bounded reads, the binary test,
  text lines, and snapshots with the version a later publication is checked against. An operation is
  a function on the history of system calls made so far, which it extends; every answer of the
  operating system is a parameter that depends on the position in the history, so that other
  processes may do anything between two calls. The file format detector (\<open>file-format\<close>) and SHA-256
  are parameters.
\<close>

section \<open>System calls\<close>

datatype FileKind = IsFile | IsDir | IsSymlink | IsOther

record Metadata =
  md_kind :: FileKind
  md_len :: nat
  md_dev :: nat
  md_ino :: nat
  md_modified :: "nat option"
  md_mode :: nat

datatype Action =
    CreateDirAll Path
  | CreateNew Path
  | WriteAll Path bytes
  | Flush Path
  | SetPermissions Path nat
  | HardLink Path Path
  | Rename Path Path
  | RemoveTemporary Path
  | RemoveFile Path

text \<open>An entry of a directory: an error, or a name with its type where the system reports one.\<close>

type_synonym DirEntry = "IoErrorKind + ustr \<times> FileKind option"

datatype Event =
    Polled bool
  | Resolved ustr "FilesystemError + Path"
  | Stat Path "IoErrorKind + Metadata"
  | Lstat Path bool
  | Opened Path "IoErrorKind option"
  | ReadFile Path "IoErrorKind + bytes"
  | Did Action "IoErrorKind option"
  | ReadDir Path "IoErrorKind + DirEntry list"
  | LinkKind Path "IoErrorKind + FileKind"

text \<open>
  What the operating system answers at a position of the history: whether the token is cancelled,
  \<open>realpath\<close>, \<open>stat\<close>, \<open>lstat\<close>, opening and reading a file, an action (\<open>None\<close> when it took place), and
  a random identifier.
\<close>

record Os =
  os_cancelled :: "nat \<Rightarrow> bool"
  os_realpath :: "nat \<Rightarrow> nat \<Rightarrow> Path \<Rightarrow> IoErrorKind + Path"
  os_stat :: "nat \<Rightarrow> Path \<Rightarrow> IoErrorKind + Metadata"
  os_lstat :: "nat \<Rightarrow> Path \<Rightarrow> bool"
  os_open :: "nat \<Rightarrow> Path \<Rightarrow> IoErrorKind option"
  os_read :: "nat \<Rightarrow> Path \<Rightarrow> IoErrorKind + bytes"
  os_act :: "nat \<Rightarrow> Action \<Rightarrow> IoErrorKind option"
  os_pid :: nat
  os_uuid :: "nat \<Rightarrow> ustr"

type_synonym ('e, 'a) op = "Event list \<Rightarrow> ('e + 'a) \<times> Event list"

definition return :: "'a \<Rightarrow> ('e, 'a) op" where
  "return x log = (Inr x, log)"

definition fail :: "'e \<Rightarrow> ('e, 'a) op" where
  "fail e log = (Inl e, log)"

definition bind :: "('e, 'a) op \<Rightarrow> ('a \<Rightarrow> ('e, 'b) op) \<Rightarrow> ('e, 'b) op" where
  "bind m f log = (case m log of (Inl e, log) \<Rightarrow> (Inl e, log) | (Inr x, log) \<Rightarrow> f x log)"

definition map_err :: "('e \<Rightarrow> 'f) \<Rightarrow> ('e, 'a) op \<Rightarrow> ('f, 'a) op" where
  "map_err h m log = (case m log of (Inl e, log) \<Rightarrow> (Inl (h e), log) | (Inr x, log) \<Rightarrow> (Inr x, log))"

definition attempt :: "('e, 'a) op \<Rightarrow> ('f, 'e + 'a) op" where
  "attempt m log = (case m log of (r, log) \<Rightarrow> (Inr r, log))"

definition lift :: "'e + 'a \<Rightarrow> ('e, 'a) op" where
  "lift r log = (r, log)"

definition poll :: "Os \<Rightarrow> (FilesystemError, unit) op" where
  "poll os log =
     (if os_cancelled os (length log) then (Inl Aborted, log @ [Polled True]) else (Inr (), log @ [Polled False]))"

definition stat :: "Os \<Rightarrow> Path \<Rightarrow> ('e, IoErrorKind + Metadata) op" where
  "stat os path log = (let r = os_stat os (length log) path in (Inr r, log @ [Stat path r]))"

definition lstat :: "Os \<Rightarrow> Path \<Rightarrow> ('e, bool) op" where
  "lstat os path log = (let r = os_lstat os (length log) path in (Inr r, log @ [Lstat path r]))"

definition open_file :: "Os \<Rightarrow> Path \<Rightarrow> ('e, IoErrorKind option) op" where
  "open_file os path log = (let r = os_open os (length log) path in (Inr r, log @ [Opened path r]))"

definition read_file :: "Os \<Rightarrow> Path \<Rightarrow> ('e, IoErrorKind + bytes) op" where
  "read_file os path log = (let r = os_read os (length log) path in (Inr r, log @ [ReadFile path r]))"

definition act :: "Os \<Rightarrow> Action \<Rightarrow> ('e, IoErrorKind option) op" where
  "act os a log = (let r = os_act os (length log) a in (Inr r, log @ [Did a r]))"

text \<open>\<open>FilesystemError::io_path\<close> on the answer of a call.\<close>

definition io_path :: "ustr \<Rightarrow> Path \<Rightarrow> IoErrorKind \<Rightarrow> FilesystemError" where
  "io_path action path k = Io (action @ [SPACE] @ path_text path) k"

definition or_io :: "ustr \<Rightarrow> Path \<Rightarrow> IoErrorKind + 'a \<Rightarrow> (FilesystemError, 'a) op" where
  "or_io action path r = (case r of Inl k \<Rightarrow> fail (io_path action path k) | Inr x \<Rightarrow> return x)"

definition done_or_io :: "ustr \<Rightarrow> Path \<Rightarrow> IoErrorKind option \<Rightarrow> (FilesystemError, unit) op" where
  "done_or_io action path r = (case r of Some k \<Rightarrow> fail (io_path action path k) | None \<Rightarrow> return ())"

section \<open>Content\<close>

definition read_bounded :: "Os \<Rightarrow> Path \<Rightarrow> nat \<Rightarrow> (FilesystemError, bytes) op" where
  "read_bounded os path maximum =
     bind (poll os) (\<lambda>_.
     bind (bind (open_file os path) (done_or_io (u ''Cannot read'') path)) (\<lambda>_.
     bind (lift (case checked_add maximum 1 of
                   None \<Rightarrow> Inl (Operation (u ''maximum file size is too large''))
                 | Some capacity \<Rightarrow> Inr capacity)) (\<lambda>capacity.
     bind (bind (read_file os path) (or_io (u ''Cannot read'') path)) (\<lambda>content.
     bind (poll os) (\<lambda>_.
     let bs = take capacity content
     in if length bs > maximum
        then fail (InvalidRequest (u ''File exceeds maximum size of '' @ dec maximum @ u '' bytes: '' @ path_text path))
        else return bs)))))"

text \<open>A detected format: the name of its variant and its media type.\<close>

record FileFormat =
  format_name :: ustr
  media_type :: ustr

definition textual_formats :: "ustr list" where
  "textual_formats = map u
     [''BmfontAscii'', ''DrawingExchangeFormatAscii'', ''Glyphs'', ''InitialGraphicsExchangeSpecification'',
      ''InterQuakeExport'', ''Latex'', ''MayaAscii'', ''Model3dAscii'', ''PemCertificate'',
      ''PemCertificateSigningRequest'', ''PemPrivateKey'', ''PemPublicKey'', ''PgpMessage'',
      ''PgpPrivateKeyBlock'', ''PgpPublicKeyBlock'', ''PgpSignature'', ''PgpSignedMessage'', ''PolygonAscii'',
      ''RichTextFormat'', ''StandardForTheExchangeOfProductModelData'', ''StereolithographyAscii'',
      ''UniversalSceneDescriptionAscii'', ''VirtualRealityModelingLanguage'', ''WebassemblyText'', ''XPixmap'']"

definition is_textual_format :: "FileFormat \<Rightarrow> bytes \<Rightarrow> bool" where
  "is_textual_format format bs \<longleftrightarrow>
     starts_with (media_type format) (u ''text/'') \<or> media_type format = u ''application/xml'' \<or>
     ends_with (media_type format) (u ''+xml'') \<or> ends_with (media_type format) (u ''+json'') \<or>
     format_name format \<in> set textual_formats \<or>
     format_name format \<in> set [u ''EncapsulatedPostscript'', u ''Postscript''] \<and> starts_with bs (u ''%!'')"

text \<open>
  The loop over the sample. A quotient of two numbers below 4097 compares with the double 0.3 as the
  fraction does, so the comparison is written on integers.
\<close>

fun count_controls :: "nat \<Rightarrow> bytes \<Rightarrow> nat option" where
  "count_controls controls [] = Some controls"
| "count_controls controls (b # bs) =
     (if b = 0 then None
      else count_controls (if b < 9 \<or> 13 < b \<and> b < 32 then controls + 1 else controls) bs)"

definition has_binary_sample :: "bytes \<Rightarrow> bool" where
  "has_binary_sample bs =
     (if bs = [] then False
      else case count_controls 0 bs of None \<Rightarrow> True | Some controls \<Rightarrow> 3 * length bs < 10 * controls)"

definition is_binary_content :: "(bytes \<Rightarrow> FileFormat) \<Rightarrow> bytes \<Rightarrow> bool" where
  "is_binary_content from_bytes bs =
     (let format = from_bytes bs;
          recognized_binary = (format_name format \<notin> set [u ''Empty'', u ''ArbitraryBinaryData''] \<and>
            \<not> is_textual_format format bs)
      in recognized_binary \<or> has_binary_sample (take 4096 bs))"

definition reject_binary :: "(bytes \<Rightarrow> FileFormat) \<Rightarrow> Path \<Rightarrow> bytes \<Rightarrow> FilesystemError + unit" where
  "reject_binary from_bytes path bs =
     (if is_binary_content from_bytes bs
      then Inl (InvalidRequest (u ''Cannot operate on binary file: '' @ path_text path)) else Inr ())"

definition decode_text :: "bytes \<Rightarrow> ustr" where
  "decode_text bs = from_utf8_lossy bs"

definition split_text_lines :: "ustr \<Rightarrow> ustr list" where
  "split_text_lines s = map (\<lambda>line. case strip_suffix line [CR] of Some l \<Rightarrow> l | None \<Rightarrow> line) (split_on NL s)"

definition text_line_count :: "bytes \<Rightarrow> nat" where
  "text_line_count bs = length (split_text_lines (decode_text bs))"

text \<open>\<open>String::from_utf16_lossy\<close>: a surrogate without its partner becomes a replacement character.\<close>

fun from_utf16_lossy :: "nat list \<Rightarrow> ustr" where
  "from_utf16_lossy [] = []"
| "from_utf16_lossy (a # xs) =
     (if a < 0xD800 \<or> 0xE000 \<le> a then a # from_utf16_lossy xs
      else case xs of
             b # ys \<Rightarrow>
               if a < 0xDC00 \<and> 0xDC00 \<le> b \<and> b < 0xE000
               then (0x10000 + (a - 0xD800) * 1024 + (b - 0xDC00)) # from_utf16_lossy ys
               else REPLACEMENT # from_utf16_lossy xs
           | [] \<Rightarrow> [REPLACEMENT])"

definition truncate_line :: "ustr \<Rightarrow> nat \<Rightarrow> ustr" where
  "truncate_line line maximum =
     (let units = encode_utf16 line
      in if length units \<le> maximum then line
         else from_utf16_lossy (take maximum units) @ u ''... (line truncated)'')"

definition js_length :: "ustr \<Rightarrow> nat" where
  "js_length value = length (encode_utf16 value)"

definition enforce_bytes :: "ustr \<Rightarrow> ustr \<Rightarrow> nat \<Rightarrow> FilesystemError + unit" where
  "enforce_bytes label value maximum =
     (if byte_len value > maximum
      then Inl (InvalidRequest (label @ u '' exceeds maximum size of '' @ dec maximum @ u '' bytes''))
      else Inr ())"

section \<open>Snapshots\<close>

record FileIdentity =
  id_first :: nat
  id_second :: nat
  id_size :: nat
  id_modified_nanos :: nat

record FileVersion =
  v_identity :: FileIdentity
  v_digest :: bytes

record FileSnapshot =
  snap_content :: ustr
  snap_version :: FileVersion

definition file_identity :: "Metadata \<Rightarrow> FileIdentity" where
  "file_identity m = \<lparr>id_first = md_dev m, id_second = md_ino m, id_size = md_len m,
     id_modified_nanos = (case md_modified m of None \<Rightarrow> 0 | Some t \<Rightarrow> t)\<rparr>"

definition read_file_snapshot_required ::
  "Os \<Rightarrow> (bytes \<Rightarrow> bytes) \<Rightarrow> Path \<Rightarrow> nat \<Rightarrow> (FilesystemError, bytes \<times> FileVersion) op" where
  "read_file_snapshot_required os sha path maximum =
     bind (poll os) (\<lambda>_.
     bind (bind (stat os path) (or_io (u ''Cannot inspect'') path)) (\<lambda>before.
     bind (read_bounded os path maximum) (\<lambda>bs.
     bind (bind (stat os path) (or_io (u ''Cannot inspect'') path)) (\<lambda>after.
     if file_identity before \<noteq> file_identity after
     then fail (Operation (u ''File changed while it was being read: '' @ path_text path))
     else return (bs, \<lparr>v_identity = file_identity after, v_digest = sha bs\<rparr>)))))"

definition read_text_snapshot_required ::
  "Os \<Rightarrow> (bytes \<Rightarrow> bytes) \<Rightarrow> (bytes \<Rightarrow> FileFormat) \<Rightarrow> Path \<Rightarrow> nat \<Rightarrow> (FilesystemError, FileSnapshot) op" where
  "read_text_snapshot_required os sha from_bytes path maximum =
     bind (read_file_snapshot_required os sha path maximum) (\<lambda>(bs, version).
     bind (lift (reject_binary from_bytes path bs)) (\<lambda>_.
     return \<lparr>snap_content = decode_text bs, snap_version = version\<rparr>))"

definition read_file_version_required ::
  "Os \<Rightarrow> (bytes \<Rightarrow> bytes) \<Rightarrow> Path \<Rightarrow> nat \<Rightarrow> (FilesystemError, FileVersion) op" where
  "read_file_version_required os sha path maximum =
     bind (read_file_snapshot_required os sha path maximum) (\<lambda>(_, version). return version)"

definition validate_snapshot ::
  "Os \<Rightarrow> (bytes \<Rightarrow> bytes) \<Rightarrow> Path \<Rightarrow> FileVersion \<Rightarrow> nat \<Rightarrow> (FilesystemError, unit) op" where
  "validate_snapshot os sha path expected maximum =
     bind (attempt (read_file_version_required os sha path maximum)) (\<lambda>r.
     case r of
       Inl Aborted \<Rightarrow> fail Aborted
     | Inr current \<Rightarrow>
         if current = expected then return ()
         else fail (Stale (u ''File changed before publication: '' @ path_text path))
     | _ \<Rightarrow> fail (Stale (u ''File changed before publication: '' @ path_text path)))"

definition exists_file :: "Os \<Rightarrow> Path \<Rightarrow> ('e, bool) op" where
  "exists_file os path = bind (stat os path) (\<lambda>r. return (case r of Inl _ \<Rightarrow> False | Inr _ \<Rightarrow> True))"

text \<open>\<open>FileVersion::revision\<close>.\<close>

definition revision :: "FileVersion \<Rightarrow> ustr" where
  "revision v = u ''sha256:'' @ concat (map hex2 (v_digest v))"

end
