(* ===== verification/Text_Diff.thy ===== *)
theory Text_Diff
  imports Path_Policy
begin

text \<open>
  The bounded unified-diff previews of the file tools (\<open>crates/mcp-files/src/diff.rs\<close>): the
  line model, declared hunks with their trimming and grouping, the single-hunk preview, and the
  byte-bounded patch buffer that both write through.
\<close>

section \<open>The bounded buffer\<close>

definition TRUNCATION_MARKER :: ustr where
  "TRUNCATION_MARKER = u ''... (diff truncated)''"

abbreviation CONTEXT_LINES :: nat where "CONTEXT_LINES \<equiv> 3"

record BoundedPatch =
  bp_text :: ustr
  maximum :: nat
  bp_truncated :: bool

definition BoundedPatch_new :: "nat \<Rightarrow> BoundedPatch" where
  "BoundedPatch_new m = \<lparr>bp_text = [], maximum = m, bp_truncated = False\<rparr>"

text \<open>The longest prefix of whole characters within \<open>m\<close> bytes.\<close>

fun take_bytes :: "nat \<Rightarrow> ustr \<Rightarrow> ustr" where
  "take_bytes m [] = []"
| "take_bytes m (c # cs) = (if len_utf8 c \<le> m then c # take_bytes (m - len_utf8 c) cs else [])"

definition truncate_utf8 :: "ustr \<Rightarrow> nat \<Rightarrow> ustr" where
  "truncate_utf8 s m = (if byte_len s \<le> m then s else take_bytes m s)"

definition mark_truncated :: "BoundedPatch \<Rightarrow> BoundedPatch" where
  "mark_truncated p =
     (let marker_bytes = min (byte_len TRUNCATION_MARKER) (maximum p);
          marker = take marker_bytes TRUNCATION_MARKER
      in if maximum p \<le> marker_bytes then p\<lparr>bp_truncated := True, bp_text := marker\<rparr>
         else
           (let kept = truncate_utf8 (bp_text p) (maximum p - (marker_bytes + 1))
            in p\<lparr>bp_truncated := True,
                 bp_text := (if kept \<noteq> [] then kept @ [NL] else kept) @ marker\<rparr>))"

definition push_line :: "BoundedPatch \<Rightarrow> ustr \<Rightarrow> ustr \<Rightarrow> BoundedPatch" where
  "push_line p pre line =
     (if bp_truncated p then p
      else
        (let separator = (if bp_text p \<noteq> [] then 1 else 0)
         in case Option.bind (Option.bind (checked_add (byte_len (bp_text p)) separator)
                   (\<lambda>size. checked_add size (byte_len pre)))
                   (\<lambda>size. checked_add size (byte_len line)) of
              None \<Rightarrow> mark_truncated p
            | Some required \<Rightarrow>
                if required > maximum p then mark_truncated p
                else p\<lparr>bp_text := bp_text p @ (if separator = 1 then [NL] else []) @ pre @ line\<rparr>))"

definition push_lines :: "BoundedPatch \<Rightarrow> ustr \<Rightarrow> ustr list \<Rightarrow> BoundedPatch" where
  "push_lines p pre lines = foldl (\<lambda>p line. push_line p pre line) p lines"

definition shorten_patch :: "ustr \<Rightarrow> nat \<Rightarrow> ustr option" where
  "shorten_patch patch maximum_bytes =
     (if byte_len patch \<le> maximum_bytes then None
      else Some (bp_text (mark_truncated ((BoundedPatch_new maximum_bytes)\<lparr>bp_text := patch\<rparr>))))"

section \<open>Lines\<close>

definition diff_lines :: "ustr \<Rightarrow> ustr list" where
  "diff_lines content =
     (if content = [] then []
      else let lines = split_on NL content in if last lines = [] then butlast lines else lines)"

fun shared_prefix :: "'a list \<Rightarrow> 'a list \<Rightarrow> nat" where
  "shared_prefix (x # xs) (y # ys) = (if x = y then Suc (shared_prefix xs ys) else 0)"
| "shared_prefix _ _ = 0"

definition shared_suffix :: "'a list \<Rightarrow> 'a list \<Rightarrow> nat \<Rightarrow> nat" where
  "shared_suffix left right n =
     (let m = min (length left - n) (length right - n)
      in length (takeWhile
           (\<lambda>offset. left ! (length left - offset - 1) = right ! (length right - offset - 1)) [0..<m]))"

definition window :: "'a list \<Rightarrow> nat \<Rightarrow> nat \<Rightarrow> 'a list" where
  "window lines s e =
     (let s = min s (length lines); e = max (min e (length lines)) s in take (e - s) (drop s lines))"

function power_of_two_from :: "nat \<Rightarrow> nat \<Rightarrow> nat" where
  "power_of_two_from p n = (if n \<le> p \<or> p = 0 then p else power_of_two_from (2 * p) n)"
  by pat_completeness auto
termination
  by (relation "measure (\<lambda>(p, n). n - p)") auto

declare power_of_two_from.simps [simp del]

definition line_index_retained_bytes :: "ustr list \<Rightarrow> nat" where
  "line_index_retained_bytes contents =
     foldl sat_add 0 (map (\<lambda>content.
       if content = [] then 0
       else
         (let lines = sat_add (count_list content NL) 1; p = power_of_two_from 1 lines
          in sat_mul (if p \<le> usize_max then p else usize_max) 16)) contents)"

section \<open>Hunks\<close>

record DiffHunk =
  old_start :: nat
  old_len :: nat
  new_start :: nat
  new_len :: nat

record FileDiff =
  fd_file :: ustr
  fd_relative_path :: ustr
  fd_patch :: ustr
  additions :: nat
  deletions :: nat
  fd_truncated :: bool

definition trim_hunk :: "ustr list \<Rightarrow> ustr list \<Rightarrow> DiffHunk \<Rightarrow> DiffHunk" where
  "trim_hunk old_lines new_lines h =
     (let old = window old_lines (old_start h) (old_start h + old_len h);
          new = window new_lines (new_start h) (new_start h + new_len h);
          p = shared_prefix old new;
          s = shared_suffix old new p
      in \<lparr>old_start = old_start h + p, old_len = length old - p - s,
          new_start = new_start h + p, new_len = length new - p - s\<rparr>)"

fun group_from :: "nat \<Rightarrow> nat \<Rightarrow> (nat \<times> nat) list \<Rightarrow> DiffHunk list \<Rightarrow> (nat \<times> nat) list" where
  "group_from index window_end groups [] = groups"
| "group_from index window_end groups (h # hs) =
     (let groups =
            (if groups \<noteq> [] \<and> old_start h - CONTEXT_LINES \<le> window_end
             then butlast groups @ [(fst (last groups), Suc index)]
             else groups @ [(index, Suc index)])
      in group_from (Suc index) (sat_add (sat_add (old_start h) (old_len h)) CONTEXT_LINES) groups hs)"

definition group_hunks :: "DiffHunk list \<Rightarrow> (nat \<times> nat) list" where
  "group_hunks hs = group_from 0 0 [] hs"

definition hunk_header :: "nat \<Rightarrow> nat \<Rightarrow> nat \<Rightarrow> nat \<Rightarrow> ustr" where
  "hunk_header old_at old_count new_at new_count =
     u ''@@ -'' @ dec old_at @ u '','' @ dec old_count @ u '' +'' @ dec new_at @ u '','' @ dec new_count @ u '' @@''"

fun push_group :: "ustr list \<Rightarrow> ustr list \<Rightarrow> nat \<Rightarrow> DiffHunk list \<Rightarrow> BoundedPatch \<Rightarrow> BoundedPatch" where
  "push_group old_lines new_lines old_to [] p = p"
| "push_group old_lines new_lines old_to (h # hs) p =
     (let p = push_lines p (u ''-'') (window old_lines (old_start h) (old_start h + old_len h));
          p = push_lines p (u ''+'') (window new_lines (new_start h) (new_start h + new_len h));
          context_end = (case hs of [] \<Rightarrow> old_to | next # _ \<Rightarrow> old_start next);
          p = push_lines p (u '' '') (window old_lines (old_start h + old_len h) context_end)
      in push_group old_lines new_lines old_to hs p)"

definition render_group ::
  "ustr list \<Rightarrow> ustr list \<Rightarrow> DiffHunk list \<Rightarrow> BoundedPatch \<Rightarrow> nat \<times> nat \<Rightarrow> BoundedPatch" where
  "render_group old_lines new_lines hunks p grp =
     (let first = hunks ! fst grp;
          final = hunks ! (snd grp - 1);
          old_from = old_start first - CONTEXT_LINES;
          lead = old_start first - old_from;
          new_from = new_start first - lead;
          old_change_end = max (old_start first) (sat_add (old_start final) (old_len final));
          old_to = min (sat_add old_change_end CONTEXT_LINES) (length old_lines);
          trail = old_to - old_change_end;
          new_to = sat_add (sat_add (new_start final) (new_len final)) trail;
          p = push_line p [] (hunk_header (old_from + 1) (old_to - old_from) (new_from + 1) (new_to - new_from));
          p = push_lines p (u '' '') (window old_lines old_from (old_start first))
      in push_group old_lines new_lines old_to (take (snd grp - fst grp) (drop (fst grp) hunks)) p)"

definition render_hunks ::
  "nat \<Rightarrow> ustr \<Rightarrow> ustr \<Rightarrow> ustr list \<Rightarrow> ustr list \<Rightarrow> DiffHunk list \<Rightarrow> BoundedPatch" where
  "render_hunks maximum_bytes old_name new_name old_lines new_lines hunks =
     (let p = BoundedPatch_new maximum_bytes;
          p = push_line p [] (u ''--- '' @ old_name);
          p = push_line p [] (u ''+++ '' @ new_name)
      in foldl (render_group old_lines new_lines hunks) p (group_hunks hunks))"

definition file_diff_hunks ::
  "RootPathPolicy \<Rightarrow> Path \<Rightarrow> ustr \<Rightarrow> ustr \<Rightarrow> DiffHunk list \<Rightarrow> Path option \<Rightarrow> nat \<Rightarrow> FilesystemError + FileDiff" where
  "file_diff_hunks pol file_path old_content new_content hunks move_path maximum_bytes =
     (case relative pol file_path of
        Inl e \<Rightarrow> Inl e
      | Inr old_name \<Rightarrow>
      (let destination = (case move_path of Some m \<Rightarrow> m | None \<Rightarrow> file_path)
       in case relative pol destination of
        Inl e \<Rightarrow> Inl e
      | Inr new_name \<Rightarrow>
          (let old_lines = diff_lines old_content;
               new_lines = diff_lines new_content;
               hunks = filter (\<lambda>h. old_len h > 0 \<or> new_len h > 0) (map (trim_hunk old_lines new_lines) hunks);
               p = render_hunks maximum_bytes old_name new_name old_lines new_lines hunks
           in Inr \<lparr>fd_file = path_text destination, fd_relative_path = new_name, fd_patch = bp_text p,
                   additions = sum_list (map new_len hunks), deletions = sum_list (map old_len hunks),
                   fd_truncated = bp_truncated p\<rparr>)))"

definition render_single ::
  "nat \<Rightarrow> ustr \<Rightarrow> ustr \<Rightarrow> nat \<Rightarrow> ustr list \<Rightarrow> ustr list \<Rightarrow> ustr list \<Rightarrow> ustr list \<Rightarrow> BoundedPatch" where
  "render_single maximum_bytes old_name new_name context_start before removed added after =
     (let old_count = length before + length removed + length after;
          new_count = length before + length added + length after;
          p = BoundedPatch_new maximum_bytes;
          p = push_line p [] (u ''--- '' @ old_name);
          p = push_line p [] (u ''+++ '' @ new_name);
          p = push_line p [] (hunk_header (context_start + 1) old_count (context_start + 1) new_count);
          p = push_lines p (u '' '') before;
          p = push_lines p (u ''-'') removed;
          p = push_lines p (u ''+'') added
      in push_lines p (u '' '') after)"

definition file_diff ::
  "RootPathPolicy \<Rightarrow> Path \<Rightarrow> ustr \<Rightarrow> ustr \<Rightarrow> Path option \<Rightarrow> nat \<Rightarrow> FilesystemError + FileDiff" where
  "file_diff pol file_path old_content new_content move_path maximum_bytes =
     (case relative pol file_path of
        Inl e \<Rightarrow> Inl e
      | Inr old_name \<Rightarrow>
      (let destination = (case move_path of Some m \<Rightarrow> m | None \<Rightarrow> file_path)
       in case relative pol destination of
        Inl e \<Rightarrow> Inl e
      | Inr new_name \<Rightarrow>
          (let old_lines = diff_lines old_content;
               new_lines = diff_lines new_content;
               common_prefix = shared_prefix old_lines new_lines;
               common_suffix = shared_suffix old_lines new_lines common_prefix;
               removed = take (length old_lines - common_suffix - common_prefix) (drop common_prefix old_lines);
               added = take (length new_lines - common_suffix - common_prefix) (drop common_prefix new_lines);
               context_start = common_prefix - 3;
               before = take (common_prefix - context_start) (drop context_start old_lines);
               suffix_start = length old_lines - common_suffix;
               after_end = min (suffix_start + 3) (length old_lines);
               after = take (after_end - suffix_start) (drop suffix_start old_lines);
               p = render_single maximum_bytes old_name new_name context_start before removed added after
           in Inr \<lparr>fd_file = path_text destination, fd_relative_path = new_name, fd_patch = bp_text p,
                   additions = length added, deletions = length removed, fd_truncated = bp_truncated p\<rparr>)))"

section \<open>The bound\<close>

definition within_bound :: "BoundedPatch \<Rightarrow> bool" where
  "within_bound p \<longleftrightarrow> byte_len (bp_text p) \<le> maximum p"

lemma take_bytes_le: "byte_len (take_bytes m s) \<le> m"
  by (induction m s rule: take_bytes.induct) (auto simp: byte_len_Cons)

lemma truncate_utf8_le: "byte_len (truncate_utf8 s m) \<le> m"
  by (simp add: truncate_utf8_def take_bytes_le)

lemma marker_len: "byte_len (take n TRUNCATION_MARKER) = min 20 n" "byte_len TRUNCATION_MARKER = 20"
proof -
  have ascii: "\<forall>c\<in>set TRUNCATION_MARKER. c < 0x80" by (simp add: TRUNCATION_MARKER_def u_def)
  have len: "length TRUNCATION_MARKER = 20" by (simp add: TRUNCATION_MARKER_def u_def)
  have "\<forall>c\<in>set (take n TRUNCATION_MARKER). c < 0x80" using ascii by (meson in_set_takeD)
  then show "byte_len (take n TRUNCATION_MARKER) = min 20 n" by (simp add: ascii_byte_len len min.commute)
  show "byte_len TRUNCATION_MARKER = 20" using ascii by (simp add: ascii_byte_len len)
qed

lemma mark_truncated_bound: "within_bound (mark_truncated p)"
proof (cases "maximum p \<le> 20")
  case True
  then show ?thesis by (simp add: within_bound_def mark_truncated_def marker_len Let_def)
next
  case False
  have "byte_len (truncate_utf8 (bp_text p) (maximum p - 21)) \<le> maximum p - 21" by (rule truncate_utf8_le)
  with False show ?thesis
    by (auto simp: within_bound_def mark_truncated_def marker_len Let_def byte_len_append byte_len_Cons len_utf8_def)
qed

lemma mark_truncated_fields: "maximum (mark_truncated p) = maximum p" "bp_truncated (mark_truncated p)"
  by (simp_all add: mark_truncated_def Let_def)

lemma push_line_bound [invar_intros]: "within_bound p \<Longrightarrow> within_bound (push_line p pre line)"
  using mark_truncated_bound
  by (auto simp: push_line_def within_bound_def byte_len_append byte_len_Cons len_utf8_def checked_add_def Let_def
      split: option.splits bind_splits if_splits)

lemma push_line_maximum [simp]: "maximum (push_line p pre line) = maximum p"
  by (auto simp: push_line_def mark_truncated_fields Let_def split: option.splits)

interpretation patch_lines: keeps_invariant "\<lambda>p (pre, line). push_line p pre line"
  "\<lambda>p. within_bound p \<and> maximum p = m" for m
  by unfold_locales (auto intro: push_line_bound)

lemma push_lines_bound [invar_intros]:
  "within_bound p \<and> maximum p = m \<Longrightarrow> within_bound (push_lines p pre ls) \<and> maximum (push_lines p pre ls) = m"
proof -
  have "push_lines p pre ls = foldl (\<lambda>p (pre, line). push_line p pre line) p (map (Pair pre) ls)"
    by (simp add: push_lines_def foldl_map)
  then show "within_bound p \<and> maximum p = m \<Longrightarrow> ?thesis" using patch_lines.run_inv by metis
qed

lemma push_group_bound [invar_intros]:
  "within_bound p \<and> maximum p = m \<Longrightarrow>
     within_bound (push_group old new old_to hs p) \<and> maximum (push_group old new old_to hs p) = m"
  by (induction old new old_to hs p rule: push_group.induct) (simp_all add: push_lines_bound Let_def)

lemma render_group_bound [invar_intros]:
  "within_bound p \<and> maximum p = m \<Longrightarrow>
     within_bound (render_group old new hs p g) \<and> maximum (render_group old new hs p g) = m"
  by (simp add: render_group_def Let_def push_group_bound push_lines_bound push_line_bound)

interpretation groups: keeps_invariant "render_group old new hs" "\<lambda>p. within_bound p \<and> maximum p = m"
  for old new hs m
  by unfold_locales (rule render_group_bound)

lemma new_bound [simp]:
  "within_bound (BoundedPatch_new m)" "maximum (BoundedPatch_new m) = m"
  by (simp_all add: within_bound_def BoundedPatch_new_def)

lemma bound_text: "within_bound p \<and> maximum p = m \<Longrightarrow> byte_len (bp_text p) \<le> m"
  by (auto simp: within_bound_def)

lemma render_single_bound: "byte_len (bp_text (render_single m on nn c before removed added after)) \<le> m"
  unfolding render_single_def Let_def
  by (intro bound_text push_lines_bound conjI push_line_bound new_bound) simp

lemma render_hunks_bound: "byte_len (bp_text (render_hunks m on nn old new hs)) \<le> m"
  unfolding render_hunks_def Let_def
  by (intro bound_text groups.run_inv conjI push_line_bound new_bound) simp

lemma file_diff_bound: "file_diff pol f old new mv m = Inr d \<Longrightarrow> byte_len (fd_patch d) \<le> m"
  by (auto simp: file_diff_def Let_def render_single_bound split: sum.splits)

lemma file_diff_hunks_bound: "file_diff_hunks pol f old new hs mv m = Inr d \<Longrightarrow> byte_len (fd_patch d) \<le> m"
  by (auto simp: file_diff_hunks_def Let_def render_hunks_bound split: sum.splits)

lemma shorten_patch_none: "shorten_patch patch m = None \<Longrightarrow> byte_len patch \<le> m"
  by (simp add: shorten_patch_def split: if_splits)

lemma shorten_patch_bound: "shorten_patch patch m = Some t \<Longrightarrow> byte_len t \<le> m"
  by (auto simp: shorten_patch_def mark_truncated_fields intro!: bound_text mark_truncated_bound split: if_splits)

text \<open>
  A preview never exceeds its byte allowance, whatever the contents, the paths and the
  declared hunks are; this holds for both renderers and for a preview that is shortened later.
\<close>

theorem diff_preview_bounded:
  "(case file_diff pol f old new mv m of Inl _ \<Rightarrow> True | Inr d \<Rightarrow> byte_len (fd_patch d) \<le> m) \<and>
   (case file_diff_hunks pol f old new hs mv m of Inl _ \<Rightarrow> True | Inr d \<Rightarrow> byte_len (fd_patch d) \<le> m) \<and>
   (case shorten_patch patch m of None \<Rightarrow> byte_len patch \<le> m | Some t \<Rightarrow> byte_len t \<le> m)"
  using file_diff_bound [of pol f old new mv m] file_diff_hunks_bound [of pol f old new hs mv m]
    shorten_patch_bound [of patch m] shorten_patch_none [of patch m]
  by (simp split: sum.split option.split)

section \<open>Common parts\<close>

lemma shared_prefix_take: "take (shared_prefix xs ys) xs = take (shared_prefix xs ys) ys"
  by (induction xs ys rule: shared_prefix.induct) auto

lemma shared_prefix_le: "shared_prefix xs ys \<le> length xs" "shared_prefix xs ys \<le> length ys"
  by (induction xs ys rule: shared_prefix.induct) auto

lemma shared_prefix_max:
  "shared_prefix xs ys < length xs \<Longrightarrow> shared_prefix xs ys < length ys \<Longrightarrow>
     xs ! shared_prefix xs ys \<noteq> ys ! shared_prefix xs ys"
  by (induction xs ys rule: shared_prefix.induct) auto

lemma takeWhile_upt:
  fixes m :: nat and P :: "nat \<Rightarrow> bool"
  defines "k \<equiv> length (takeWhile P [0..<m])"
  shows "k \<le> m" "i < k \<Longrightarrow> P i" "k < m \<Longrightarrow> \<not> P k"
proof -
  show k: "k \<le> m" using length_takeWhile_le [of P "[0..<m]"] by (simp add: k_def)
  show "P i" if "i < k"
  proof -
    have "takeWhile P [0..<m] ! i = [0..<m] ! i" using that by (simp add: k_def takeWhile_nth)
    then have "i \<in> set (takeWhile P [0..<m])"
      using that k by (metis add_0 k_def nth_mem nth_upt order_less_le_trans)
    then show ?thesis by (rule set_takeWhileD [THEN conjunct2])
  qed
  show "\<not> P k" if "k < m"
    using that nth_length_takeWhile [of P "[0..<m]"] by (simp add: k_def)
qed

lemma shared_suffix_le:
  "shared_suffix l r n \<le> length l - n" "shared_suffix l r n \<le> length r - n"
  using takeWhile_upt(1) [of "\<lambda>offset. l ! (length l - offset - 1) = r ! (length r - offset - 1)"
      "min (length l - n) (length r - n)"]
  by (simp_all add: shared_suffix_def Let_def)

lemma shared_suffix_drop:
  "drop (length l - shared_suffix l r n) l = drop (length r - shared_suffix l r n) r"
proof (rule nth_equalityI)
  let ?k = "shared_suffix l r n"
  have k: "?k \<le> length l" "?k \<le> length r" using shared_suffix_le [of l r n] by auto
  then show "length (drop (length l - ?k) l) = length (drop (length r - ?k) r)" by simp
  fix i
  assume "i < length (drop (length l - ?k) l)"
  then have i: "i < ?k" using k by simp
  then have "?k - 1 - i < ?k" by simp
  then have "l ! (length l - (?k - 1 - i) - 1) = r ! (length r - (?k - 1 - i) - 1)"
    unfolding shared_suffix_def Let_def by (rule takeWhile_upt(2))
  moreover have "length l - (?k - 1 - i) - 1 = length l - ?k + i" "length r - (?k - 1 - i) - 1 = length r - ?k + i"
    using i k by auto
  ultimately show "drop (length l - ?k) l ! i = drop (length r - ?k) r ! i" using k by simp
qed

lemma shared_suffix_max:
  assumes "shared_suffix l r n < length l - n" "shared_suffix l r n < length r - n"
  shows "l ! (length l - shared_suffix l r n - 1) \<noteq> r ! (length r - shared_suffix l r n - 1)"
  using takeWhile_upt(3) [of "\<lambda>offset. l ! (length l - offset - 1) = r ! (length r - offset - 1)"
      "min (length l - n) (length r - n)"] assms
  by (simp add: shared_suffix_def Let_def)

text \<open>The common parts split both sides around their differing cores.\<close>

lemma common_split:
  fixes l r :: "'a list"
  defines "p \<equiv> shared_prefix l r"
  defines "s \<equiv> shared_suffix l r p"
  defines "a \<equiv> take (length l - s - p) (drop p l)" and "b \<equiv> take (length r - s - p) (drop p r)"
  shows "l = take p l @ a @ drop (length l - s) l" "r = take p l @ b @ drop (length l - s) l"
    "length a = length l - s - p" "length b = length r - s - p"
    "a \<noteq> [] \<Longrightarrow> b \<noteq> [] \<Longrightarrow> hd a \<noteq> hd b \<and> last a \<noteq> last b"
proof -
  have le: "p \<le> length l" "p \<le> length r" "s \<le> length l - p" "s \<le> length r - p"
    using shared_prefix_le [of l r] shared_suffix_le [of l r p] by (simp_all add: p_def s_def)
  have mid: "x = take p x @ take (length x - s - p) (drop p x) @ drop (length x - s) x"
    if "p \<le> length x" "s \<le> length x - p" for x :: "'a list"
  proof -
    have "drop p x = take (length x - s - p) (drop p x) @ drop (length x - s - p) (drop p x)"
      by (rule append_take_drop_id [symmetric])
    moreover have "length x - s - p + p = length x - s" using that by simp
    ultimately show ?thesis by (metis append_take_drop_id drop_drop)
  qed
  show "l = take p l @ a @ drop (length l - s) l" unfolding a_def by (rule mid [OF le(1,3)])
  show "r = take p l @ b @ drop (length l - s) l"
    using mid [OF le(2,4)] shared_prefix_take [of l r] shared_suffix_drop [of l r p]
    unfolding b_def p_def [symmetric] s_def [symmetric] by metis
  show la: "length a = length l - s - p" and lb: "length b = length r - s - p"
    using le by (simp_all add: a_def b_def)
  assume ne: "a \<noteq> []" "b \<noteq> []"
  then have lt: "p < length l - s" "p < length r - s" using la lb by (auto simp: length_greater_0_conv [symmetric])
  have "hd a = l ! p" "hd b = r ! p" using ne lt by (simp_all add: a_def b_def hd_conv_nth)
  moreover have "l ! p \<noteq> r ! p" using shared_prefix_max [of l r] lt by (simp add: p_def)
  moreover have "last a = l ! (length l - s - 1)" "last b = r ! (length r - s - 1)"
    using ne lt la lb by (simp_all add: last_conv_nth) (simp_all add: a_def b_def)
  moreover have "l ! (length l - s - 1) \<noteq> r ! (length r - s - 1)"
    using shared_suffix_max [of l r p] lt by (simp add: s_def)
  ultimately show "hd a \<noteq> hd b \<and> last a \<noteq> last b" by simp
qed

section \<open>Complete previews\<close>

lemma mark_truncated_flag [simp]: "bp_truncated (mark_truncated p)"
  by (rule mark_truncated_fields)

lemma push_line_text:
  assumes "\<not> bp_truncated (push_line p pre line)"
  shows "\<not> bp_truncated p \<and>
    bp_text (push_line p pre line) = bp_text p @ (if bp_text p \<noteq> [] then [NL] else []) @ pre @ line"
  using assms by (auto simp: push_line_def Let_def split: option.splits if_splits)

definition shows_lines :: "BoundedPatch \<Rightarrow> ustr list \<Rightarrow> bool" where
  "shows_lines p ls \<longleftrightarrow>
     (\<not> bp_truncated p \<longrightarrow> ls \<noteq> [] \<and> bp_text p = join [NL] ls \<and> bp_text p \<noteq> [])"

lemma shows_push_line: "shows_lines p ls \<Longrightarrow> shows_lines (push_line p pre l) (ls @ [pre @ l])"
  using push_line_text [of p pre l] by (auto simp: shows_lines_def join_snoc)

lemma shows_push_lines: "shows_lines p ls \<Longrightarrow> shows_lines (push_lines p pre xs) (ls @ map ((@) pre) xs)"
proof (induction xs arbitrary: p ls)
  case (Cons x xs)
  from Cons.IH [OF shows_push_line [OF Cons.prems, of pre x]] show ?case by (simp add: push_lines_def)
qed (simp add: push_lines_def)

lemma shows_first: "pre @ l \<noteq> [] \<Longrightarrow> shows_lines (push_line (BoundedPatch_new m) pre l) [pre @ l]"
  using push_line_text [of "BoundedPatch_new m" pre l]
  by (auto simp: shows_lines_def BoundedPatch_new_def)

definition single_lines ::
  "ustr \<Rightarrow> ustr \<Rightarrow> nat \<Rightarrow> ustr list \<Rightarrow> ustr list \<Rightarrow> ustr list \<Rightarrow> ustr list \<Rightarrow> ustr list" where
  "single_lines old_name new_name context_start before removed added after =
     [u ''--- '' @ old_name, u ''+++ '' @ new_name,
      hunk_header (context_start + 1) (length before + length removed + length after)
        (context_start + 1) (length before + length added + length after)] @
     map ((@) (u '' '')) before @ map ((@) (u ''-'')) removed @ map ((@) (u ''+'')) added @ map ((@) (u '' '')) after"

lemma render_single_shows:
  "shows_lines (render_single m on nn c before removed added after) (single_lines on nn c before removed added after)"
proof -
  have "shows_lines (push_line (push_line (BoundedPatch_new m) [] (u ''--- '' @ on)) [] (u ''+++ '' @ nn))
      [u ''--- '' @ on, u ''+++ '' @ nn]"
    using shows_push_line [OF shows_first [of "[]" "u ''--- '' @ on" m], of "[]" "u ''+++ '' @ nn"]
    by (simp add: u_def)
  note header = shows_push_line [OF this, of "[]"
      "hunk_header (c + 1) (length before + length removed + length after)
         (c + 1) (length before + length added + length after)"]
  note body = shows_push_lines [OF shows_push_lines [OF shows_push_lines [OF shows_push_lines [OF header]]]]
  show ?thesis
    unfolding render_single_def single_lines_def Let_def using body [of "u '' ''" before "u ''-''" removed "u ''+''" added "u '' ''" after]
    by simp
qed

lemma file_diff_parts:
  assumes "file_diff pol f old new mv m = Inr d"
  obtains pre removed added post old_name new_name where
    "diff_lines old = pre @ removed @ post" "diff_lines new = pre @ added @ post"
    "removed \<noteq> [] \<Longrightarrow> added \<noteq> [] \<Longrightarrow> hd removed \<noteq> hd added \<and> last removed \<noteq> last added"
    "deletions d = length removed" "additions d = length added"
    "fd_patch d = bp_text (render_single m old_name new_name (length pre - 3) (drop (length pre - 3) pre)
       removed added (take 3 post))"
    "fd_truncated d = bp_truncated (render_single m old_name new_name (length pre - 3) (drop (length pre - 3) pre)
       removed added (take 3 post))"
proof -
  define l r where "l = diff_lines old" and "r = diff_lines new"
  define p where "p = shared_prefix l r"
  define s where "s = shared_suffix l r p"
  define a b where "a = take (length l - s - p) (drop p l)" and "b = take (length r - s - p) (drop p r)"
  note split = common_split [where l = l and r = r, folded p_def, folded s_def, folded a_def b_def]
  have le: "p \<le> length l" "s \<le> length l"
    using shared_prefix_le [of l r] shared_suffix_le [of l r p] by (auto simp: p_def s_def)
  have pre: "length (take p l) = p" using le by simp
  have before: "take (p - (p - 3)) (drop (p - 3) l) = drop (p - 3) (take p l)" by (simp add: drop_take)
  have after: "take (min (length l - s + 3) (length l) - (length l - s)) (drop (length l - s) l) =
      take 3 (drop (length l - s) l)"
    using le by (simp add: min_def)
  obtain old_name new_name where names: "relative pol f = Inr old_name"
    "relative pol (case mv of Some q \<Rightarrow> q | None \<Rightarrow> f) = Inr new_name"
    using assms by (auto simp: file_diff_def Let_def split: sum.splits)
  have "deletions d = length a" "additions d = length b"
    "fd_patch d = bp_text (render_single m old_name new_name (p - 3) (drop (p - 3) (take p l)) a b
       (take 3 (drop (length l - s) l)))"
    "fd_truncated d = bp_truncated (render_single m old_name new_name (p - 3) (drop (p - 3) (take p l)) a b
       (take 3 (drop (length l - s) l)))"
    using assms unfolding file_diff_def Let_def l_def [symmetric] r_def [symmetric] p_def [symmetric]
      s_def [symmetric] a_def [symmetric] b_def [symmetric] before after
    by (auto simp: names)
  then show ?thesis
    using split pre
    by (intro that [of "take p l" a "drop (length l - s) l" b old_name new_name])
      (simp_all only: l_def [symmetric] r_def [symmetric] simp_thms)
qed

text \<open>
  C17. The single-hunk preview describes exactly the change: the two sides agree before and after
  one differing region, whose sides share neither their first nor their last line; the reported
  counts are the sizes of that region even when the preview is cut; and a preview that is not
  cut shows the region with up to three lines of context on each side.
\<close>

theorem file_diff_exact:
  assumes "file_diff pol f old new mv m = Inr d"
  shows "\<exists>pre removed added post old_name new_name.
    diff_lines old = pre @ removed @ post \<and> diff_lines new = pre @ added @ post \<and>
    (removed \<noteq> [] \<and> added \<noteq> [] \<longrightarrow> hd removed \<noteq> hd added \<and> last removed \<noteq> last added) \<and>
    deletions d = length removed \<and> additions d = length added \<and>
    (\<not> fd_truncated d \<longrightarrow>
       fd_patch d = join [NL] (single_lines old_name new_name (length pre - 3) (drop (length pre - 3) pre)
         removed added (take 3 post)))"
  using assms
proof (rule file_diff_parts)
  fix pre removed added post old_name new_name
  assume *: "diff_lines old = pre @ removed @ post" "diff_lines new = pre @ added @ post"
    "removed \<noteq> [] \<Longrightarrow> added \<noteq> [] \<Longrightarrow> hd removed \<noteq> hd added \<and> last removed \<noteq> last added"
    "deletions d = length removed" "additions d = length added"
    "fd_patch d = bp_text (render_single m old_name new_name (length pre - 3) (drop (length pre - 3) pre)
       removed added (take 3 post))"
    "fd_truncated d = bp_truncated (render_single m old_name new_name (length pre - 3) (drop (length pre - 3) pre)
       removed added (take 3 post))"
  have core: "removed \<noteq> [] \<and> added \<noteq> [] \<longrightarrow> hd removed \<noteq> hd added \<and> last removed \<noteq> last added"
    using *(3) by simp
  have "\<not> fd_truncated d \<longrightarrow> fd_patch d = join [NL] (single_lines old_name new_name (length pre - 3)
      (drop (length pre - 3) pre) removed added (take 3 post))"
    using *(6,7) render_single_shows by (simp add: shows_lines_def)
  with *(1,2,4,5) core show ?thesis by blast
qed

section \<open>Declared hunks\<close>

text \<open>
  Hunks describe a change when they are in order, and outside them the two sides agree: from
  positions \<open>i\<close> and \<open>j\<close> on, equal stretches alternate with the declared regions.
\<close>

fun aligned :: "'a list \<Rightarrow> 'a list \<Rightarrow> nat \<Rightarrow> nat \<Rightarrow> DiffHunk list \<Rightarrow> bool" where
  "aligned old new i j [] \<longleftrightarrow> i \<le> length old \<and> j \<le> length new \<and> drop i old = drop j new"
| "aligned old new i j (h # hs) \<longleftrightarrow>
     i \<le> old_start h \<and> j \<le> new_start h \<and>
     old_start h + old_len h \<le> length old \<and> new_start h + new_len h \<le> length new \<and>
     take (old_start h - i) (drop i old) = take (new_start h - j) (drop j new) \<and>
     aligned old new (old_start h + old_len h) (new_start h + new_len h) hs"

lemma aligned_count:
  "aligned old new i j hs \<Longrightarrow> i \<le> length old \<Longrightarrow> j \<le> length new \<Longrightarrow>
     length old - i + sum_list (map new_len hs) = length new - j + sum_list (map old_len hs)"
proof (induction hs arbitrary: i j)
  case Nil
  then show ?case by simp (metis length_drop)
next
  case (Cons h hs)
  have "length (take (old_start h - i) (drop i old)) = length (take (new_start h - j) (drop j new))"
    using Cons.prems(1) by simp
  then have "old_start h - i = new_start h - j" using Cons.prems(1) by (auto simp: min_def split: if_splits)
  moreover have "length old - (old_start h + old_len h) + sum_list (map new_len hs) =
      length new - (new_start h + new_len h) + sum_list (map old_len hs)"
    using Cons.prems(1) by (intro Cons.IH) auto
  moreover have "i \<le> old_start h" "j \<le> new_start h" "old_start h + old_len h \<le> length old"
    "new_start h + new_len h \<le> length new" using Cons.prems(1) by auto
  ultimately show ?case by simp
qed

lemma window_inside: "s + n \<le> length xs \<Longrightarrow> window xs s (s + n) = take n (drop s xs)"
  by (simp add: window_def Let_def)

lemma aligned_shift:
  assumes "aligned old new (i + k) (j + k) hs" "take k (drop i old) = take k (drop j new)"
    "i + k \<le> length old" "j + k \<le> length new"
  shows "aligned old new i j hs"
proof (cases hs)
  case Nil
  have "drop i old = take k (drop i old) @ drop (i + k) old" "drop j new = take k (drop j new) @ drop (j + k) new"
    by (metis add.commute append_take_drop_id drop_drop)+
  then show ?thesis using assms Nil by simp
next
  case (Cons h hs')
  have ext: "take (a - i) (drop i xs) = take k (drop i xs) @ take (a - (i + k)) (drop (i + k) xs)"
    if "i + k \<le> a" for a i and xs :: "'a list"
  proof -
    have "a - i = k + (a - (i + k))" using that by simp
    then show ?thesis by (metis add.commute drop_drop take_add)
  qed
  show ?thesis using assms Cons ext [of i "old_start h" old] ext [of j "new_start h" new] by auto
qed

lemma trim_parts:
  assumes "old_start h + old_len h \<le> length old" "new_start h + new_len h \<le> length new"
  obtains p s where
    "trim_hunk old new h = \<lparr>old_start = old_start h + p, old_len = old_len h - p - s,
       new_start = new_start h + p, new_len = new_len h - p - s\<rparr>"
    "p + s \<le> old_len h" "p + s \<le> new_len h"
    "take p (drop (old_start h) old) = take p (drop (new_start h) new)"
    "take s (drop (old_start h + old_len h - s) old) = take s (drop (new_start h + new_len h - s) new)"
proof -
  let ?l = "take (old_len h) (drop (old_start h) old)" and ?r = "take (new_len h) (drop (new_start h) new)"
  define p where "p = shared_prefix ?l ?r"
  define s where "s = shared_suffix ?l ?r p"
  have len: "length ?l = old_len h" "length ?r = new_len h" using assms by auto
  have le: "p \<le> old_len h" "p \<le> new_len h" "s \<le> old_len h - p" "s \<le> new_len h - p"
    using shared_prefix_le [of ?l ?r] shared_suffix_le [of ?l ?r p] unfolding p_def [symmetric] s_def [symmetric] len
    by auto
  have "trim_hunk old new h = \<lparr>old_start = old_start h + p, old_len = old_len h - p - s,
       new_start = new_start h + p, new_len = new_len h - p - s\<rparr>"
    unfolding trim_hunk_def window_inside [OF assms(1)] window_inside [OF assms(2)] Let_def
      p_def [symmetric] s_def [symmetric] len by simp
  moreover have "take p (drop (old_start h) old) = take p (drop (new_start h) new)"
    using shared_prefix_take [of ?l ?r] le unfolding p_def [symmetric] by (simp add: min_def split: if_splits)
  moreover have "take s (drop (old_start h + old_len h - s) old) = take s (drop (new_start h + new_len h - s) new)"
    using shared_suffix_drop [of ?l ?r p] le unfolding s_def [symmetric] len
    by (simp add: drop_take add.commute)
  ultimately show ?thesis using le by (intro that [of p s]) auto
qed

lemma take_extend:
  "i \<le> a \<Longrightarrow> take (a + p - i) (drop i xs) = take (a - i) (drop i xs) @ take p (drop a xs)"
proof -
  assume "i \<le> a"
  then have "a + p - i = (a - i) + p" "drop (a - i) (drop i xs) = drop a xs" by simp_all
  then show ?thesis by (simp only: take_add)
qed

lemma aligned_trim_hunk:
  assumes "aligned old new i j (h # hs)"
  shows "aligned old new i j (trim_hunk old new h # hs)"
proof -
  have h: "i \<le> old_start h" "j \<le> new_start h" "old_start h + old_len h \<le> length old"
    "new_start h + new_len h \<le> length new"
    "take (old_start h - i) (drop i old) = take (new_start h - j) (drop j new)"
    "aligned old new (old_start h + old_len h) (new_start h + new_len h) hs" using assms by auto
  have gap: "old_start h - i = new_start h - j"
    using arg_cong [OF h(5), of length] h(1-4) by simp
  from trim_parts [OF h(3,4)] obtain p s where t: "trim_hunk old new h =
      \<lparr>old_start = old_start h + p, old_len = old_len h - p - s, new_start = new_start h + p, new_len = new_len h - p - s\<rparr>"
    and le: "p + s \<le> old_len h" "p + s \<le> new_len h"
    and pre: "take p (drop (old_start h) old) = take p (drop (new_start h) new)"
    and post: "take s (drop (old_start h + old_len h - s) old) = take s (drop (new_start h + new_len h - s) new)" .
  have "take (old_start h + p - i) (drop i old) = take (new_start h + p - j) (drop j new)"
    using h(1,2,5) pre by (simp add: take_extend)
  moreover have "aligned old new (old_start h + old_len h - s) (new_start h + new_len h - s) hs"
    by (rule aligned_shift [of _ _ _ s]) (use h le post in simp_all)
  moreover have "old_start h + p + (old_len h - p - s) = old_start h + old_len h - s"
    "new_start h + p + (new_len h - p - s) = new_start h + new_len h - s" using le by auto
  moreover have "old_start h + old_len h - s \<le> length old" "new_start h + new_len h - s \<le> length new"
    using h by auto
  ultimately show ?thesis using h le by (simp add: t)
qed

lemma aligned_drop_empty:
  assumes "aligned old new i j (h # hs)" "old_len h = 0" "new_len h = 0"
  shows "aligned old new i j hs"
proof -
  have eq: "take (old_start h - i) (drop i old) = take (new_start h - j) (drop j new)"
    and le: "i \<le> old_start h" "j \<le> new_start h" "old_start h \<le> length old" "new_start h \<le> length new"
    using assms by auto
  have gap: "old_start h - i = new_start h - j" using arg_cong [OF eq, of length] le by simp
  have at: "i + (old_start h - i) = old_start h" "j + (old_start h - i) = new_start h" using le gap by auto
  show ?thesis
    by (rule aligned_shift [of _ _ _ "old_start h - i"], unfold at) (use assms eq gap le in auto)
qed

text \<open>Trimming and dropping empty hunks keeps a description a description.\<close>

lemma aligned_trim:
  "aligned old new i j hs \<Longrightarrow>
     aligned old new i j (filter (\<lambda>h. old_len h > 0 \<or> new_len h > 0) (map (trim_hunk old new) hs))"
proof (induction hs arbitrary: i j)
  case (Cons h hs)
  let ?h = "trim_hunk old new h" and ?hs = "filter (\<lambda>h. old_len h > 0 \<or> new_len h > 0) (map (trim_hunk old new) hs)"
  have "aligned old new i j (?h # hs)" by (rule aligned_trim_hunk [OF Cons.prems])
  then have *: "aligned old new i j (?h # ?hs)" using Cons.IH by simp
  then show ?case using aligned_drop_empty [OF *] by (auto simp del: aligned.simps(2))
qed simp

text \<open>
  For hunks that describe the change, the reported totals describe all of it, however coarse
  the hunks are and wherever the preview is cut: the lines of the new side are those of the old
  side, less the deletions, plus the additions, and the trimmed hunks still describe the change.
\<close>

theorem file_diff_hunks_counts:
  assumes "file_diff_hunks pol f old new hunks mv m = Inr d"
    and "aligned (diff_lines old) (diff_lines new) 0 0 hunks"
  shows "length (diff_lines old) + additions d = length (diff_lines new) + deletions d \<and>
    (\<exists>trimmed. aligned (diff_lines old) (diff_lines new) 0 0 trimmed \<and>
       additions d = sum_list (map new_len trimmed) \<and> deletions d = sum_list (map old_len trimmed))"
proof -
  let ?t = "filter (\<lambda>h. old_len h > 0 \<or> new_len h > 0) (map (trim_hunk (diff_lines old) (diff_lines new)) hunks)"
  have d: "additions d = sum_list (map new_len ?t)" "deletions d = sum_list (map old_len ?t)"
    using assms(1) by (auto simp: file_diff_hunks_def Let_def split: sum.splits)
  have t: "aligned (diff_lines old) (diff_lines new) 0 0 ?t" by (rule aligned_trim [OF assms(2)])
  have "length (diff_lines old) + sum_list (map new_len ?t) = length (diff_lines new) + sum_list (map old_len ?t)"
    using aligned_count [OF t] by simp
  with d t show ?thesis by (metis (no_types, lifting))
qed

text \<open>Consecutive non-empty ranges from \<open>i\<close> to \<open>n\<close>.\<close>

fun covers :: "nat \<Rightarrow> (nat \<times> nat) list \<Rightarrow> nat \<Rightarrow> bool" where
  "covers i [] n \<longleftrightarrow> i = n"
| "covers i ((a, b) # gs) n \<longleftrightarrow> a = i \<and> a < b \<and> covers b gs n"

lemma covers_snoc: "covers i gs a \<Longrightarrow> a < b \<Longrightarrow> covers i (gs @ [(a, b)]) b"
  by (induction i gs a rule: covers.induct) auto

lemma covers_extend: "covers i gs n \<Longrightarrow> gs \<noteq> [] \<Longrightarrow> covers i (butlast gs @ [(fst (last gs), Suc n)]) (Suc n)"
proof (induction i gs n rule: covers.induct)
  case (2 i a b gs n)
  then show ?case by (cases gs) auto
qed simp

lemma group_from_covers: "covers 0 gs n \<Longrightarrow> covers 0 (group_from n w gs hs) (n + length hs)"
proof (induction hs arbitrary: n w gs)
  case (Cons h hs)
  let ?gs = "if gs \<noteq> [] \<and> old_start h - CONTEXT_LINES \<le> w
    then butlast gs @ [(fst (last gs), Suc n)] else gs @ [(n, Suc n)]"
  have "covers 0 ?gs (Suc n)" using Cons.prems covers_extend covers_snoc by auto
  from Cons.IH [OF this] show ?case by (simp add: Let_def)
qed simp

text \<open>
  Grouping hunks for the preview neither loses, repeats nor reorders one: the groups are
  non-empty consecutive ranges that together cover the hunks from the first to the last.
\<close>

theorem group_hunks_partition: "covers 0 (group_hunks hs) (length hs)"
  unfolding group_hunks_def using group_from_covers [of "[]" 0 0 hs] by simp

section \<open>A concrete change\<close>

definition demo_diff_policy :: RootPathPolicy where
  "demo_diff_policy = \<lparr>root = [RootDir], confined = True\<rparr>"

lemma demo_relative: "relative demo_diff_policy [RootDir, Normal (u ''f'')] = Inr (u ''f'')"
  by (simp add: relative_def demo_diff_policy_def assert_inside_def starts_with_root_def starts_with_def
      strip_prefix_def component_text_def)

lemma demo_diff_lines:
  "diff_lines (u ''a'' @ NL # u ''b'') = [u ''a'', u ''b'']" "diff_lines (u ''a'' @ NL # u ''c'') = [u ''a'', u ''c'']"
  by (simp_all add: diff_lines_def text_defs)

theorem file_diff_exact_witness:
  "\<exists>d. file_diff demo_diff_policy [RootDir, Normal (u ''f'')] (u ''a'' @ NL # u ''b'') (u ''a'' @ NL # u ''c'') None 100 = Inr d \<and>
     deletions d = 1 \<and> additions d = 1"
proof -
  obtain d where run: "file_diff demo_diff_policy [RootDir, Normal (u ''f'')] (u ''a'' @ NL # u ''b'')
      (u ''a'' @ NL # u ''c'') None 100 = Inr d"
    by (simp add: file_diff_def demo_relative Let_def)
  from file_diff_exact [OF run] obtain pre removed added post where
    "[u ''a'', u ''b''] = pre @ removed @ post" "[u ''a'', u ''c''] = pre @ added @ post"
    "deletions d = length removed" "additions d = length added"
    "removed \<noteq> [] \<and> added \<noteq> [] \<longrightarrow> hd removed \<noteq> hd added \<and> last removed \<noteq> last added"
    unfolding demo_diff_lines by blast
  moreover have "u ''a'' \<noteq> u ''b''" "u ''b'' \<noteq> u ''c''" by (simp_all add: u_def)
  ultimately have "deletions d = 1 \<and> additions d = 1"
    by (auto simp: Cons_eq_append_conv append_eq_Cons_conv)
  with run show ?thesis by blast
qed

theorem file_diff_hunks_counts_witness:
  "\<exists>d. file_diff_hunks demo_diff_policy [RootDir, Normal (u ''f'')] (u ''a'' @ NL # u ''b'') (u ''a'' @ NL # u ''c'')
       [\<lparr>old_start = 0, old_len = 2, new_start = 0, new_len = 2\<rparr>] None 100 = Inr d \<and> additions d = deletions d"
proof -
  obtain d where run: "file_diff_hunks demo_diff_policy [RootDir, Normal (u ''f'')] (u ''a'' @ NL # u ''b'')
      (u ''a'' @ NL # u ''c'') [\<lparr>old_start = 0, old_len = 2, new_start = 0, new_len = 2\<rparr>] None 100 = Inr d"
    by (simp add: file_diff_hunks_def demo_relative Let_def)
  have "length (diff_lines (u ''a'' @ NL # u ''b'')) + additions d =
      length (diff_lines (u ''a'' @ NL # u ''c'')) + deletions d"
    by (rule file_diff_hunks_counts [OF run, THEN conjunct1]) (simp add: demo_diff_lines)
  with run show ?thesis by (simp add: demo_diff_lines)
qed

end
