(* ===== verification/Patch_Text.thy ===== *)
theory Patch_Text
  imports Text_Diff "HOL-Library.Product_Lexorder" "HOL-Library.Multiset"
begin

text \<open>
  The patch language of the \<open>apply_patch\<close> tool (\<open>crates/mcp-files/src/patch.rs\<close>): the parser of
  a patch envelope, the search for the lines a chunk names, and the application of the chunks
  of one file with the spans it reports for the preview.
\<close>

section \<open>Patches\<close>

record UpdateChunk =
  old_lines :: "ustr list"
  new_lines :: "ustr list"
  context_line :: "ustr option"
  end_of_file :: bool

datatype PatchHunk =
    AddFile ustr ustr
  | DeleteFile ustr
  | UpdateFile ustr "ustr option" "UpdateChunk list"

definition hunk_path :: "PatchHunk \<Rightarrow> ustr" where
  "hunk_path h = (case h of AddFile p _ \<Rightarrow> p | DeleteFile p \<Rightarrow> p | UpdateFile p _ _ \<Rightarrow> p)"

definition required_header_path :: "ustr \<Rightarrow> ustr \<Rightarrow> FilesystemError + ustr" where
  "required_header_path line header =
     (let value = trim (drop (length header) line)
      in if value = [] then Inl (InvalidRequest (header @ u '' requires a path'')) else Inr value)"

definition is_quote :: "uchar \<Rightarrow> bool" where
  "is_quote c \<longleftrightarrow> c = 39 \<or> c = 34"

definition strip_quotes :: "ustr \<Rightarrow> ustr" where
  "strip_quotes raw =
     (case raw of
        c # rest \<Rightarrow> if is_quote c \<and> rest \<noteq> [] \<and> is_quote (last rest) then butlast rest else raw
      | [] \<Rightarrow> raw)"

definition strip_heredoc :: "ustr \<Rightarrow> ustr option" where
  "strip_heredoc input =
     Option.bind (find_sub [NL] input) (\<lambda>newline.
       let header = trim (take newline input)
       in Option.bind
            (case strip_prefix header (u ''cat'') of
               Some rest \<Rightarrow>
                 if rest \<noteq> [] \<and> is_whitespace (hd rest) then Some (trim_start rest) else None
             | None \<Rightarrow> Some header)
            (\<lambda>header.
          Option.bind (strip_prefix header (u ''<<'')) (\<lambda>raw.
            let delimiter = strip_quotes (trim raw)
            in if delimiter = [] \<or> (\<exists>c\<in>set delimiter. \<not> (c = 95 \<or> is_ascii_alphanumeric c)) then None
               else
                 let body_and_footer = drop (newline + 1) input
                 in Option.bind (rfind_sub [NL] body_and_footer) (\<lambda>footer_start.
                      if trim (drop (footer_start + 1) body_and_footer) \<noteq> delimiter then None
                      else Some (take footer_start body_and_footer)))))"

section \<open>The parser\<close>

text \<open>The loops of \<open>parse_patch\<close> on the lines between the current index and the end marker.\<close>

fun read_added :: "ustr list \<Rightarrow> ustr list \<Rightarrow> FilesystemError + (ustr list \<times> ustr list)" where
  "read_added content [] = Inr (content, [])"
| "read_added content (l # ls) =
     (if starts_with l (u ''***'') then Inr (content, l # ls)
      else case strip_prefix l (u ''+'') of
             None \<Rightarrow> Inl (InvalidRequest (u ''Add File lines must start with +''))
           | Some c \<Rightarrow> read_added (content @ [c]) ls)"

definition END_OF_FILE :: ustr where
  "END_OF_FILE = u ''*** End of File''"

fun read_changes ::
  "ustr list \<Rightarrow> ustr list \<Rightarrow> ustr list \<Rightarrow> FilesystemError + (ustr list \<times> ustr list \<times> bool \<times> ustr list)" where
  "read_changes old new [] = Inr (old, new, False, [])"
| "read_changes old new (l # ls) =
     (if starts_with l (u ''@@'') \<or> starts_with l (u ''***'') \<and> l \<noteq> END_OF_FILE
      then Inr (old, new, False, l # ls)
      else if l = END_OF_FILE then Inr (old, new, True, ls)
      else case strip_prefix l (u '' '') of
             Some v \<Rightarrow> read_changes (old @ [v]) (new @ [v]) ls
           | None \<Rightarrow>
      case strip_prefix l (u ''-'') of
             Some v \<Rightarrow> read_changes (old @ [v]) new ls
           | None \<Rightarrow>
      case strip_prefix l (u ''+'') of
             Some v \<Rightarrow> read_changes old (new @ [v]) ls
           | None \<Rightarrow> Inl (InvalidRequest (u ''Invalid patch line: '' @ l)))"

lemma read_changes_length: "read_changes old new ls = Inr (o', n', e, rest) \<Longrightarrow> length rest \<le> length ls"
  by (induction old new ls rule: read_changes.induct) (auto split: if_splits option.splits)

lemma read_added_length: "read_added c ls = Inr (c', rest) \<Longrightarrow> length rest \<le> length ls"
  by (induction c ls rule: read_added.induct) (auto split: if_splits option.splits)

function read_update_chunks ::
  "UpdateChunk list \<Rightarrow> ustr list \<Rightarrow> FilesystemError + (UpdateChunk list \<times> ustr list)" where
  "read_update_chunks chunks ls =
     (case ls of
        [] \<Rightarrow> Inr (chunks, [])
      | marker # rest \<Rightarrow>
          if starts_with marker (u ''***'') then Inr (chunks, ls)
          else case strip_prefix marker (u ''@@'') of
                 None \<Rightarrow> Inl (InvalidRequest (u ''Expected patch chunk, received: '' @ marker))
               | Some body \<Rightarrow>
                   (case read_changes [] [] rest of
                      Inl e \<Rightarrow> Inl e
                    | Inr (old, new, eof, rest') \<Rightarrow>
                        read_update_chunks
                          (chunks @ [\<lparr>old_lines = old, new_lines = new,
                             context_line = (if trim body = [] then None else Some (trim body)),
                             end_of_file = eof\<rparr>]) rest'))"
  by pat_completeness auto
termination
  by (relation "measure (\<lambda>(_, ls). length ls)") (auto dest: read_changes_length)

declare read_update_chunks.simps [simp del]

lemma read_update_chunks_length:
  "read_update_chunks chunks ls = Inr (chunks', rest) \<Longrightarrow> length rest \<le> length ls"
proof (induction "length ls" arbitrary: chunks ls rule: less_induct)
  case less
  show ?case
  proof (cases ls)
    case Nil
    then show ?thesis using less.prems by (simp add: read_update_chunks.simps)
  next
    case (Cons marker r)
    have tail: "length rest \<le> length r'"
      if "read_update_chunks cs r' = Inr (chunks', rest)" "length r' \<le> length r" for cs r'
      using less.hyps [OF _ that(1)] that(2) by (simp add: Cons)
    show ?thesis
      using less.prems unfolding Cons
      by (subst (asm) read_update_chunks.simps)
        (fastforce dest: read_changes_length tail split: if_splits option.splits sum.splits)
  qed
qed

definition added_contents :: "ustr list \<Rightarrow> ustr" where
  "added_contents content = (if content = [] then [] else join [NL] content @ [NL])"

definition read_move :: "ustr list \<Rightarrow> FilesystemError + (ustr option \<times> ustr list)" where
  "read_move ls =
     (case ls of
        m # rest \<Rightarrow>
          if starts_with m (u ''*** Move to:'')
          then (case required_header_path m (u ''*** Move to:'') of
                  Inl e \<Rightarrow> Inl e | Inr p \<Rightarrow> Inr (Some p, rest))
          else Inr (None, ls)
      | [] \<Rightarrow> Inr (None, ls))"

lemma read_move_length: "read_move ls = Inr (mv, rest) \<Longrightarrow> length rest \<le> length ls"
  by (auto simp: read_move_def split: list.splits if_splits sum.splits)

function parse_sections :: "PatchHunk list \<Rightarrow> ustr list \<Rightarrow> FilesystemError + PatchHunk list" where
  "parse_sections hunks ls =
     (case ls of
        [] \<Rightarrow> Inr hunks
      | line # rest \<Rightarrow>
          if starts_with line (u ''*** Add File:'')
          then (case required_header_path line (u ''*** Add File:'') of
                  Inl e \<Rightarrow> Inl e
                | Inr path \<Rightarrow>
                    (case read_added [] rest of
                       Inl e \<Rightarrow> Inl e
                     | Inr (content, rest') \<Rightarrow>
                         parse_sections (hunks @ [AddFile path (added_contents content)]) rest'))
          else if starts_with line (u ''*** Delete File:'')
          then (case required_header_path line (u ''*** Delete File:'') of
                  Inl e \<Rightarrow> Inl e
                | Inr path \<Rightarrow> parse_sections (hunks @ [DeleteFile path]) rest)
          else if starts_with line (u ''*** Update File:'')
          then (case required_header_path line (u ''*** Update File:'') of
                  Inl e \<Rightarrow> Inl e
                | Inr path \<Rightarrow>
                    (case read_move rest of
                       Inl e \<Rightarrow> Inl e
                     | Inr (move_path, rest1) \<Rightarrow>
                         (case read_update_chunks [] rest1 of
                            Inl e \<Rightarrow> Inl e
                          | Inr (chunks, rest2) \<Rightarrow>
                              if chunks = []
                              then Inl (InvalidRequest (u ''Update File has no chunks: '' @ path))
                              else parse_sections (hunks @ [UpdateFile path move_path chunks]) rest2)))
          else if trim line \<noteq> [] then Inl (InvalidRequest (u ''Invalid patch section: '' @ line))
          else parse_sections hunks rest)"
  by pat_completeness auto
termination
  by (relation "measure (\<lambda>(_, ls). length ls)")
    (auto dest!: read_added_length read_update_chunks_length read_move_length)

declare parse_sections.simps [simp del]

text \<open>\<open>Iterator::position\<close>.\<close>

fun position :: "('a \<Rightarrow> bool) \<Rightarrow> 'a list \<Rightarrow> nat option" where
  "position P [] = None"
| "position P (x # xs) = (if P x then Some 0 else map_option Suc (position P xs))"

definition parse_patch :: "ustr \<Rightarrow> FilesystemError + PatchHunk list" where
  "parse_patch patch_text =
     (let trimmed = trim patch_text;
          unwrapped = (case strip_heredoc trimmed of Some t \<Rightarrow> t | None \<Rightarrow> trimmed);
          lines = split_on NL (str_replace unwrapped [CR, NL] [NL])
      in case (position (\<lambda>l. trim l = u ''*** Begin Patch'') lines,
               position (\<lambda>l. trim l = u ''*** End Patch'') lines) of
           (Some b, Some e) \<Rightarrow>
             if b \<ge> e then Inl (InvalidRequest (u ''Invalid patch format: missing Begin/End markers''))
             else
               (case parse_sections [] (take (e - Suc b) (drop (Suc b) lines)) of
                  Inl err \<Rightarrow> Inl err
                | Inr hunks \<Rightarrow>
                    if hunks = []
                    then Inl (InvalidRequest (u ''Patch must contain at least one file section''))
                    else Inr hunks)
         | _ \<Rightarrow> Inl (InvalidRequest (u ''Invalid patch format: missing Begin/End markers'')))"

section \<open>Application\<close>

datatype Comparison = Exact | TrimEnd | TrimBoth

definition comparison_matches :: "Comparison \<Rightarrow> ustr \<Rightarrow> ustr \<Rightarrow> bool" where
  "comparison_matches c l r =
     (case c of Exact \<Rightarrow> l = r | TrimEnd \<Rightarrow> trim_end l = trim_end r | TrimBoth \<Rightarrow> trim l = trim r)"

text \<open>The search of \<open>seek\<close> under one way of comparing.\<close>

definition seek_with :: "Comparison \<Rightarrow> ustr list \<Rightarrow> ustr list \<Rightarrow> nat \<Rightarrow> bool \<Rightarrow> nat option" where
  "seek_with c lines pattern start eof =
     (let first = (if eof then length lines - length pattern else start);
          final = (if eof then first else length lines - length pattern)
      in if first > final then None
         else find
           (\<lambda>index. index \<ge> start \<and>
              (\<forall>offset<length pattern.
                 comparison_matches c
                   (if index + offset < length lines then lines ! (index + offset) else [])
                   (pattern ! offset)))
           [first..<Suc final])"

definition seek :: "ustr list \<Rightarrow> ustr list \<Rightarrow> nat \<Rightarrow> bool \<Rightarrow> nat option" where
  "seek lines pattern start eof =
     (if length pattern > length lines then None
      else find_map (\<lambda>c. seek_with c lines pattern start eof) [Exact, TrimEnd, TrimBoth])"

type_synonym Replacement = "nat \<times> nat \<times> ustr list"

definition chunk_cursor :: "ustr \<Rightarrow> ustr list \<Rightarrow> nat \<Rightarrow> UpdateChunk \<Rightarrow> FilesystemError + nat" where
  "chunk_cursor file_path lines cursor chunk =
     (case context_line chunk of
        None \<Rightarrow> Inr cursor
      | Some c \<Rightarrow>
          (case seek lines [c] cursor False of
             None \<Rightarrow> Inl (InvalidRequest (u ''Failed to find context '' @ [39] @ c @ [39] @ u '' in '' @ file_path))
           | Some i \<Rightarrow> Inr (i + 1)))"

definition place_chunk ::
  "ustr \<Rightarrow> ustr list \<Rightarrow> nat \<times> Replacement list \<Rightarrow> UpdateChunk \<Rightarrow> FilesystemError + (nat \<times> Replacement list)" where
  "place_chunk file_path lines st chunk =
     (case chunk_cursor file_path lines (fst st) chunk of
        Inl e \<Rightarrow> Inl e
      | Inr cursor \<Rightarrow>
          if old_lines chunk = []
          then Inr (cursor, snd st @ [(length lines, 0, new_lines chunk)])
          else case seek lines (old_lines chunk) cursor (end_of_file chunk) of
                 None \<Rightarrow> Inl (InvalidRequest (u ''Failed to find expected lines in '' @ file_path @
                           u '':'' @ [NL] @ join [NL] (old_lines chunk)))
               | Some found \<Rightarrow>
                   Inr (found + length (old_lines chunk),
                        snd st @ [(found, length (old_lines chunk), new_lines chunk)]))"

fun report_hunks :: "int \<Rightarrow> Replacement list \<Rightarrow> DiffHunk list" where
  "report_hunks shift [] = []"
| "report_hunks shift ((start, len, new) # rs) =
     \<lparr>old_start = start, old_len = len, new_start = sat_add_signed start shift, new_len = length new\<rparr> #
     report_hunks (shift + int (length new) - int len) rs"

definition splice :: "ustr list \<Rightarrow> Replacement \<Rightarrow> ustr list" where
  "splice lines r = (case r of (start, len, new) \<Rightarrow> take start lines @ new @ drop (start + len) lines)"

definition apply_update_chunks ::
  "ustr \<Rightarrow> UpdateChunk list \<Rightarrow> ustr \<Rightarrow> FilesystemError + (ustr \<times> DiffHunk list)" where
  "apply_update_chunks file_path chunks original =
     (let body = (case strip_suffix original [NL] of Some b \<Rightarrow> b | None \<Rightarrow> original);
          lines = split_on NL body
      in case try_fold (place_chunk file_path lines) (0, []) chunks of
           Inl e \<Rightarrow> Inl e
         | Inr (_, replacements) \<Rightarrow>
             (let replacements = sort_key (\<lambda>r. - int (fst r)) replacements;
                  hunks = sort_key (\<lambda>h. (new_start h, old_start h)) (report_hunks 0 (rev replacements));
                  next = foldl splice lines replacements
              in Inr (join [NL] next @ [NL], hunks)))"

section \<open>Where chunks land\<close>

lemma comparison_trim: "comparison_matches c l r \<Longrightarrow> trim l = trim r"
  by (cases c) (auto simp: comparison_matches_def, metis trim_trim_end)

lemma seek_Some:
  assumes "seek lines pattern start eof = Some i"
  shows "start \<le> i \<and> i + length pattern \<le> length lines \<and>
    (\<forall>k<length pattern. trim (lines ! (i + k)) = trim (pattern ! k))"
proof -
  have len: "length pattern \<le> length lines" using assms by (auto simp: seek_def split: if_splits)
  then obtain c where found: "seek_with c lines pattern start eof = Some i"
    using assms find_map_Some [of "\<lambda>c. seek_with c lines pattern start eof"] unfolding seek_def
    by (metis not_le)
  define first where "first = (if eof then length lines - length pattern else start)"
  define final where "final = (if eof then first else length lines - length pattern)"
  have "find (\<lambda>index. index \<ge> start \<and> (\<forall>offset<length pattern. comparison_matches c
      (if index + offset < length lines then lines ! (index + offset) else []) (pattern ! offset)))
      [first..<Suc final] = Some i"
    using found unfolding seek_with_def first_def [symmetric] final_def [symmetric] Let_def
    by (metis option.distinct(1))
  then obtain k where k: "k < length [first..<Suc final]" "i = [first..<Suc final] ! k" and start: "start \<le> i"
    and c: "\<forall>offset<length pattern. comparison_matches c
      (if i + offset < length lines then lines ! (i + offset) else []) (pattern ! offset)"
    unfolding find_Some_iff by blast
  have "i \<le> final" using k by (simp del: upt_Suc)
  moreover have "final \<le> length lines - length pattern" by (simp add: final_def first_def)
  ultimately have le: "i + length pattern \<le> length lines" using len by linarith
  then show ?thesis using start c comparison_trim by fastforce
qed

text \<open>A replacement found for a chunk, in a file of \<open>n\<close> lines.\<close>

definition lands :: "ustr list \<Rightarrow> Replacement \<Rightarrow> UpdateChunk \<Rightarrow> bool" where
  "lands lines r chunk =
     (case r of (start, len, new) \<Rightarrow>
        new = new_lines chunk \<and> len = length (old_lines chunk) \<and> start + len \<le> length lines \<and>
        (len = 0 \<longrightarrow> start = length lines) \<and>
        (\<forall>k<len. trim (lines ! (start + k)) = trim (old_lines chunk ! k)))"

text \<open>Two replacements that do not overlap.\<close>

definition apart :: "Replacement \<Rightarrow> Replacement \<Rightarrow> bool" where
  "apart r q =
     (case (r, q) of ((s, l, _), (t, m, _)) \<Rightarrow>
        (s = t \<longrightarrow> l = 0 \<and> m = 0) \<and> (s < t \<longrightarrow> s + l \<le> t) \<and> (t < s \<longrightarrow> t + m \<le> s))"

lemma apart_sym: "apart r q \<Longrightarrow> apart q r"
  by (auto simp: apart_def split: prod.splits)

definition placed :: "ustr list \<Rightarrow> UpdateChunk list \<Rightarrow> nat \<times> Replacement list \<Rightarrow> bool" where
  "placed lines chunks st \<longleftrightarrow>
     list_all2 (lands lines) (snd st) chunks \<and> sorted_wrt apart (snd st) \<and>
     (\<forall>(s, l, new)\<in>set (snd st). 0 < l \<longrightarrow> s + l \<le> fst st)"

lemma placed_lands: "placed lines chunks st \<Longrightarrow> r \<in> set (snd st) \<Longrightarrow> \<exists>c. lands lines r c"
  by (auto simp: placed_def list_all2_conv_all_nth in_set_conv_nth)

lemma place_chunk_placed:
  assumes "place_chunk f lines st chunk = Inr st'" and "placed lines chunks st"
  shows "placed lines (chunks @ [chunk]) st'"
proof -
  obtain cursor reps where st: "st = (cursor, reps)" by (cases st)
  obtain cur where cur: "cursor \<le> cur"
    and ins: "old_lines chunk = [] \<Longrightarrow> st' = (cur, reps @ [(length lines, 0, new_lines chunk)])"
    and rep: "old_lines chunk \<noteq> [] \<Longrightarrow> \<exists>i. seek lines (old_lines chunk) cur (end_of_file chunk) = Some i \<and>
        st' = (i + length (old_lines chunk), reps @ [(i, length (old_lines chunk), new_lines chunk)])"
  proof -
    obtain cur where cur: "chunk_cursor f lines cursor chunk = Inr cur"
      using assms(1) by (auto simp: place_chunk_def st split: sum.splits)
    have "cursor \<le> cur" using cur by (auto simp: chunk_cursor_def dest: seek_Some split: option.splits)
    with assms(1) cur that [of cur] show ?thesis
      by (auto simp: place_chunk_def st split: option.splits if_splits)
  qed
  have all: "\<exists>s l new. r = (s, l, new) \<and> s + l \<le> length lines \<and> (l = 0 \<longrightarrow> s = length lines) \<and> (0 < l \<longrightarrow> s + l \<le> cursor)"
    if r: "r \<in> set reps" for r
  proof -
    obtain s l new where r_eq: "r = (s, l, new)" by (cases r)
    obtain c where "lands lines r c" using placed_lands [OF assms(2), of r] r by (auto simp: st)
    moreover have "0 < l \<longrightarrow> s + l \<le> cursor" using assms(2) r r_eq by (auto simp: placed_def st)
    ultimately show ?thesis by (auto simp: r_eq lands_def)
  qed
  show ?thesis
  proof (cases "old_lines chunk = []")
    case True
    have "apart r (length lines, 0, new_lines chunk)" if "r \<in> set reps" for r
      using all [OF that] by (auto simp: apart_def)
    then show ?thesis using assms(2) ins [OF True] cur all
      by (auto simp: placed_def st lands_def True sorted_wrt_append intro!: list_all2_appendI intro: order_trans)
  next
    case False
    then obtain i where i: "seek lines (old_lines chunk) cur (end_of_file chunk) = Some i"
      and st': "st' = (i + length (old_lines chunk), reps @ [(i, length (old_lines chunk), new_lines chunk)])"
      using rep by blast
    have len: "0 < length (old_lines chunk)" using False by simp
    have "apart r (i, length (old_lines chunk), new_lines chunk)" if "r \<in> set reps" for r
      using all [OF that] seek_Some [OF i] cur len by (auto simp: apart_def)
    then show ?thesis using assms(2) st' seek_Some [OF i] cur all len
      by (auto simp: placed_def st lands_def sorted_wrt_append intro!: list_all2_appendI intro: order_trans)
  qed
qed

lemma place_chunks_placed:
  "try_fold (place_chunk f lines) st cs = Inr st' \<Longrightarrow> placed lines done st \<Longrightarrow> placed lines (done @ cs) st'"
proof (induction cs arbitrary: st "done")
  case (Cons c cs)
  then obtain st1 where "place_chunk f lines st c = Inr st1" "try_fold (place_chunk f lines) st1 cs = Inr st'"
    by (auto split: sum.splits)
  then show ?case using Cons.IH [of st1 "done @ [c]"] place_chunk_placed [OF _ Cons.prems(2)] by simp
qed simp

section \<open>Splicing\<close>

lemma insort_key_pairwise:
  "sorted_wrt Q xs \<Longrightarrow> (\<forall>y\<in>set xs. Q x y \<and> Q y x) \<Longrightarrow> sorted_wrt Q (insort_key f x xs)"
  by (induction xs) (auto simp: set_insort_key)

lemma sort_key_pairwise:
  assumes "sorted_wrt Q xs" and sym: "\<And>x y. Q x y \<Longrightarrow> Q y x"
  shows "sorted_wrt Q (sort_key f xs)"
  using assms(1)
proof (induction xs)
  case (Cons x xs)
  then have "\<forall>y\<in>set (sort_key f xs). Q x y \<and> Q y x" using sym by simp
  then show ?case using Cons by (simp add: insort_key_pairwise)
qed simp

lemma sort_key_sorted: "sorted (map f xs) \<Longrightarrow> sort_key f xs = xs"
  by (induction xs) (auto simp: insort_is_Cons)

text \<open>Replacements from the highest down, each ending where the one before it starts or earlier.\<close>

fun descending :: "nat \<Rightarrow> Replacement list \<Rightarrow> bool" where
  "descending limit [] = True"
| "descending limit ((s, l, new) # rs) \<longleftrightarrow> s + l \<le> limit \<and> descending s rs"

lemma descendingI:
  "sorted (map (\<lambda>r. - int (fst r)) rs) \<Longrightarrow> sorted_wrt apart rs \<Longrightarrow> (\<forall>(s, l, _)\<in>set rs. s + l \<le> limit) \<Longrightarrow>
     descending limit rs"
proof (induction limit rs rule: descending.induct)
  case (2 limit s l new rs)
  have "\<forall>(t, m, _)\<in>set rs. t + m \<le> s" using 2(2,3) by (fastforce simp: apart_def)
  then show ?case using 2 by auto
qed simp

text \<open>The result read from the front: kept stretches and replacements in turn.\<close>

fun weave :: "ustr list \<Rightarrow> nat \<Rightarrow> Replacement list \<Rightarrow> ustr list" where
  "weave lines pos [] = drop pos lines"
| "weave lines pos ((s, l, new) # rs) = take (s - pos) (drop pos lines) @ new @ weave lines (s + l) rs"

fun ascending :: "nat \<Rightarrow> nat \<Rightarrow> Replacement list \<Rightarrow> bool" where
  "ascending pos n [] \<longleftrightarrow> pos \<le> n"
| "ascending pos n ((s, l, new) # rs) \<longleftrightarrow> pos \<le> s \<and> ascending (s + l) n rs"

lemma ascending_snoc: "ascending pos n (rs @ [(s, l, new)]) \<longleftrightarrow> ascending pos s rs \<and> s + l \<le> n"
  by (induction pos n rs rule: ascending.induct) auto

lemma ascending_rev: "descending n rs \<Longrightarrow> ascending 0 n (rev rs)"
  by (induction n rs rule: descending.induct) (auto simp: ascending_snoc)

lemma ascending_le: "ascending pos n rs \<Longrightarrow> pos \<le> n"
  by (induction pos n rs rule: ascending.induct) auto

lemma weave_snoc:
  "ascending pos s rs \<Longrightarrow> s \<le> length lines \<Longrightarrow>
     weave lines pos (rs @ [(s, l, new)]) = weave (take s lines) pos rs @ new @ drop (s + l) lines"
proof (induction pos s rs rule: ascending.induct)
  case (2 pos n s l' new' rs)
  then have "s + l' \<le> n" by (auto dest: ascending_le)
  then show ?case using 2 by (simp add: drop_take min_def)
qed (simp add: drop_take)

lemma splice_descending:
  "descending limit rs \<Longrightarrow> limit \<le> length lines \<Longrightarrow>
     foldl splice (take limit lines @ tail) rs = weave (take limit lines) 0 (rev rs) @ tail"
proof (induction limit rs arbitrary: tail rule: descending.induct)
  case (2 limit s l new rs)
  have le: "s + l \<le> limit" and desc: "descending s rs" using 2(2) by auto
  have "splice (take limit lines @ tail) (s, l, new) =
      take s lines @ new @ drop (s + l) (take limit lines) @ tail"
    using le 2(3) by (simp add: splice_def min_def)
  moreover have "weave (take limit lines) 0 (rev ((s, l, new) # rs)) =
      weave (take s lines) 0 (rev rs) @ new @ drop (s + l) (take limit lines)"
    using weave_snoc [OF ascending_rev [OF desc], of "take limit lines"] le 2(3) by (simp add: min_def)
  ultimately show ?case using 2(1) [OF desc] le 2(3) by simp
qed simp

text \<open>The reported spans describe the change, and each shows its replacement on the new side.\<close>

lemma report_hunks_aligned:
  fixes kept lines pos rs
  defines "next \<equiv> kept @ weave lines pos rs"
  assumes "ascending pos (length lines) rs" and "length next \<le> usize_max"
  shows "aligned lines next pos (length kept) (report_hunks (int (length kept) - int pos) rs) \<and>
    list_all2 (\<lambda>h r. old_start h = fst r \<and> old_len h = fst (snd r) \<and>
        take (new_len h) (drop (new_start h) next) = snd (snd r))
      (report_hunks (int (length kept) - int pos) rs) rs"
  using assms(2,3) unfolding next_def
proof (induction pos "length lines" rs arbitrary: kept rule: ascending.induct)
  case (1 pos)
  then show ?case by simp
next
  case (2 pos s l new rs)
  let ?gap = "take (s - pos) (drop pos lines)"
  let ?kept = "kept @ ?gap @ new"
  have le: "pos \<le> s" "s + l \<le> length lines" using 2(2) by (auto dest: ascending_le)
  have gap: "length ?gap = s - pos" using le by simp
  have shift: "int (length kept) - int pos + int (length new) - int l = int (length ?kept) - int (s + l)"
    using le gap by simp
  have bound: "length kept + (s - pos) \<le> usize_max" using 2(3) gap by simp
  have "int s + (int (length kept) - int pos) = int (length kept + (s - pos))" using le by (simp add: of_nat_diff)
  then have start: "sat_add_signed s (int (length kept) - int pos) = length kept + (s - pos)"
    unfolding sat_add_signed_def using min.absorb2 [OF bound] by (simp only: nat_int)
  have IH: "aligned lines (?kept @ weave lines (s + l) rs) (s + l) (length ?kept)
      (report_hunks (int (length ?kept) - int (s + l)) rs) \<and>
    list_all2 (\<lambda>h r. old_start h = fst r \<and> old_len h = fst (snd r) \<and>
        take (new_len h) (drop (new_start h) (?kept @ weave lines (s + l) rs)) = snd (snd r))
      (report_hunks (int (length ?kept) - int (s + l)) rs) rs"
    using 2 by (intro 2(1)) auto
  define N where "N = ?kept @ weave lines (s + l) rs"
  have N: "kept @ weave lines pos ((s, l, new) # rs) = N" by (simp add: N_def)
  have len: "length ?kept = length kept + (s - pos) + length new" using gap by simp
  have "length ?kept \<le> length N" by (simp add: N_def)
  moreover have "take (s - pos) (drop (length kept) N) = ?gap"
    using gap by (simp add: N_def)
  moreover have "take (length new) (drop (length kept + (s - pos)) N) = new"
  proof -
    have "N = (kept @ ?gap) @ new @ weave lines (s + l) rs" by (simp add: N_def)
    moreover have "length (kept @ ?gap) = length kept + (s - pos)" using gap by simp
    ultimately show ?thesis by (metis append_eq_conv_conj)
  qed
  moreover have "report_hunks (int (length kept) - int pos) ((s, l, new) # rs) =
      \<lparr>old_start = s, old_len = l, new_start = length kept + (s - pos), new_len = length new\<rparr> #
      report_hunks (int (length ?kept) - int (s + l)) rs"
    by (simp only: report_hunks.simps start shift)
  ultimately show ?case
    using IH le unfolding N N_def [symmetric] len by simp
qed

lemma aligned_sorted:
  "aligned old new i j hs \<Longrightarrow>
     sorted (map (\<lambda>h. (new_start h, old_start h)) hs) \<and> (\<forall>h\<in>set hs. i \<le> old_start h \<and> j \<le> new_start h)"
proof (induction hs arbitrary: i j)
  case (Cons h hs)
  then have tail: "sorted (map (\<lambda>h. (new_start h, old_start h)) hs)"
    "\<forall>g\<in>set hs. old_start h + old_len h \<le> old_start g \<and> new_start h + new_len h \<le> new_start g"
    by auto
  then have "\<forall>g\<in>set hs. (new_start h, old_start h) \<le> (new_start g, old_start g)"
    by (auto simp: less_eq_prod_def)
  then show ?case using tail Cons.prems by (auto intro: order_trans le_add1)
qed simp

text \<open>The lines the application works on.\<close>

definition patched_lines :: "ustr \<Rightarrow> ustr list" where
  "patched_lines original = split_on NL (case strip_suffix original [NL] of Some b \<Rightarrow> b | None \<Rightarrow> original)"

lemma apply_update_chunks_parts:
  assumes "apply_update_chunks f chunks original = Inr (text, hunks)"
    and "length (patched_lines original) + sum_list (map (length \<circ> new_lines) chunks) \<le> usize_max"
  obtains rs cs where
    "ascending 0 (length (patched_lines original)) rs" "list_all2 (lands (patched_lines original)) rs cs"
    "mset cs = mset chunks" "text = join [NL] (weave (patched_lines original) 0 rs) @ [NL]"
    "hunks = sort_key (\<lambda>h. (new_start h, old_start h)) (report_hunks 0 rs)"
    "length (weave (patched_lines original) 0 rs) \<le> usize_max"
proof -
  let ?lines = "patched_lines original"
  obtain c reps where fold: "try_fold (place_chunk f ?lines) (0, []) chunks = Inr (c, reps)"
    using assms(1) by (auto simp: apply_update_chunks_def patched_lines_def Let_def split: sum.splits)
  let ?sorted = "sort_key (\<lambda>r. - int (fst r)) reps"
  have out: "text = join [NL] (foldl splice ?lines ?sorted) @ [NL]"
    "hunks = sort_key (\<lambda>h. (new_start h, old_start h)) (report_hunks 0 (rev ?sorted))"
    using assms(1) fold by (auto simp: apply_update_chunks_def patched_lines_def Let_def)
  have placed: "placed ?lines chunks (c, reps)"
    using place_chunks_placed [OF fold, of "[]"] by (simp add: placed_def)
  have "\<forall>(s, l, _)\<in>set reps. s + l \<le> length ?lines"
    using placed_lands [OF placed] by (auto simp: lands_def)
  moreover have "sorted_wrt apart ?sorted"
    using placed by (intro sort_key_pairwise [OF _ apart_sym]) (simp_all add: placed_def)
  ultimately have desc: "descending (length ?lines) ?sorted"
    by (intro descendingI) simp_all
  then have splice: "foldl splice ?lines ?sorted = weave ?lines 0 (rev ?sorted)"
    using splice_descending [OF desc, of ?lines "[]"] by simp
  have "list_all2 (lands ?lines) reps chunks" using placed by (simp add: placed_def)
  from list_all2_reorder_left_invariance [OF this, of "rev ?sorted"]
  obtain cs where cs: "list_all2 (lands ?lines) (rev ?sorted) cs" "mset cs = mset chunks" by auto
  have size: "length (weave ls pos rs) \<le> length ls - pos + sum_list (map (length \<circ> snd \<circ> snd) rs)"
    if "ascending pos (length ls) rs" for ls pos rs
    using that
  proof (induction pos "length ls" rs rule: ascending.induct)
    case (2 pos s l new rs)
    then have "pos \<le> s" "s + l \<le> length ls" by (auto dest: ascending_le)
    then show ?case using 2 by (simp add: min_def) linarith
  qed simp
  have "sum_list (map (length \<circ> snd \<circ> snd) (rev ?sorted)) = sum_list (map (length \<circ> new_lines) chunks)"
  proof -
    have "map (length \<circ> snd \<circ> snd) (rev ?sorted) = map (length \<circ> new_lines) cs"
      using cs(1) by (induction rule: list_all2_induct) (auto simp: lands_def)
    moreover have "mset (map (length \<circ> new_lines) cs) = mset (map (length \<circ> new_lines) chunks)" using cs(2) by simp
    ultimately show ?thesis by (metis sum_mset_sum_list)
  qed
  with size [OF ascending_rev [OF desc]] assms(2) have "length (weave ?lines 0 (rev ?sorted)) \<le> usize_max" by simp
  then show ?thesis using that [OF ascending_rev [OF desc] cs] out splice by simp
qed

text \<open>
  C18. Applying the chunks of an update replaces, for every chunk, one run of the file's own lines
  that equal the chunk's old lines up to surrounding whitespace by exactly the chunk's new
  lines, and keeps every other line in order; the reported spans describe that change exactly
  and in order, one per chunk.
\<close>

theorem apply_update_chunks_correct:
  assumes "apply_update_chunks f chunks original = Inr (text, hunks)"
    and "length (patched_lines original) + sum_list (map (length \<circ> new_lines) chunks) \<le> usize_max"
  shows "\<exists>next cs. text = join [NL] next @ [NL] \<and> aligned (patched_lines original) next 0 0 hunks \<and>
    mset cs = mset chunks \<and>
    list_all2 (\<lambda>h c. take (new_len h) (drop (new_start h) next) = new_lines c \<and>
        old_len h = length (old_lines c) \<and>
        (\<forall>k<old_len h. trim (patched_lines original ! (old_start h + k)) = trim (old_lines c ! k)))
      hunks cs"
  using assms
proof (rule apply_update_chunks_parts)
  fix rs cs
  assume rs: "ascending 0 (length (patched_lines original)) rs" "list_all2 (lands (patched_lines original)) rs cs"
    "mset cs = mset chunks" "text = join [NL] (weave (patched_lines original) 0 rs) @ [NL]"
    "hunks = sort_key (\<lambda>h. (new_start h, old_start h)) (report_hunks 0 rs)"
    "length (weave (patched_lines original) 0 rs) \<le> usize_max"
  let ?lines = "patched_lines original" and ?next = "weave (patched_lines original) 0 rs"
  have "aligned ?lines ?next 0 0 (report_hunks 0 rs)"
    and news: "list_all2 (\<lambda>h r. old_start h = fst r \<and> old_len h = fst (snd r) \<and>
        take (new_len h) (drop (new_start h) ?next) = snd (snd r)) (report_hunks 0 rs) rs"
    using report_hunks_aligned [OF rs(1), of "[]"] rs(6) by simp_all
  moreover from this(1) have "hunks = report_hunks 0 rs" using aligned_sorted rs(5) sort_key_sorted by metis
  moreover have "list_all2 (\<lambda>h c. take (new_len h) (drop (new_start h) ?next) = new_lines c \<and>
      old_len h = length (old_lines c) \<and>
      (\<forall>k<old_len h. trim (?lines ! (old_start h + k)) = trim (old_lines c ! k))) (report_hunks 0 rs) cs"
    using news rs(2) by (rule list_all2_trans [rotated]) (auto simp: lands_def)
  ultimately show ?thesis using rs(3,4) by blast
qed

section \<open>Printing and parsing\<close>

text \<open>The patch text of a list of hunks, each chunk as its old lines and then its new lines.\<close>

definition chunk_text :: "UpdateChunk \<Rightarrow> ustr list" where
  "chunk_text c =
     (case context_line c of None \<Rightarrow> u ''@@'' | Some t \<Rightarrow> u ''@@ '' @ t) #
     map ((@) (u ''-'')) (old_lines c) @ map ((@) (u ''+'')) (new_lines c) @
     (if end_of_file c then [END_OF_FILE] else [])"

definition added_lines :: "ustr \<Rightarrow> ustr list" where
  "added_lines contents = (if contents = [] then [] else butlast (split_on NL contents))"

definition hunk_text :: "PatchHunk \<Rightarrow> ustr list" where
  "hunk_text h =
     (case h of
        AddFile p contents \<Rightarrow> (u ''*** Add File: '' @ p) # map ((@) (u ''+'')) (added_lines contents)
      | DeleteFile p \<Rightarrow> [u ''*** Delete File: '' @ p]
      | UpdateFile p mv chunks \<Rightarrow>
          (u ''*** Update File: '' @ p) #
          (case mv of None \<Rightarrow> [] | Some m \<Rightarrow> [u ''*** Move to: '' @ m]) @ concat (map chunk_text chunks))"

definition wf_header :: "ustr \<Rightarrow> bool" where
  "wf_header s \<longleftrightarrow> s \<noteq> [] \<and> trim s = s"

definition wf_chunk :: "UpdateChunk \<Rightarrow> bool" where
  "wf_chunk c = (case context_line c of None \<Rightarrow> True | Some t \<Rightarrow> wf_header t)"

definition wf_hunk :: "PatchHunk \<Rightarrow> bool" where
  "wf_hunk h =
     (case h of
        AddFile p contents \<Rightarrow> wf_header p \<and> (contents = [] \<or> last contents = NL)
      | DeleteFile p \<Rightarrow> wf_header p
      | UpdateFile p mv chunks \<Rightarrow>
          wf_header p \<and> (case mv of None \<Rightarrow> True | Some m \<Rightarrow> wf_header m) \<and> chunks \<noteq> [] \<and> list_all wf_chunk chunks)"

lemma trim_space: "trim (SPACE # s) = trim s"
  by (simp add: trim_def trim_start_def trim_start_by_def is_whitespace_def)

lemma trim_Nil [simp]: "trim [] = []"
  by (simp add: trim_def trim_start_def trim_start_by_def trim_end_def trim_end_by_def)

lemma required_header_ok:
  "wf_header p \<Longrightarrow> required_header_path (h @ SPACE # p) h = Inr p"
  by (simp add: required_header_path_def wf_header_def trim_space)

text \<open>What may follow a section: nothing, or a line that starts the next one.\<close>

definition section_end :: "ustr list \<Rightarrow> bool" where
  "section_end ls = (case ls of [] \<Rightarrow> True | l # _ \<Rightarrow> starts_with l (u ''***'') \<and> l \<noteq> END_OF_FILE \<and>
     \<not> starts_with l (u ''*** Move to:''))"

lemma read_added_text:
  "section_end rest \<Longrightarrow> read_added acc (map ((@) (u ''+'')) xs @ rest) = Inr (acc @ xs, rest)"
proof (induction xs arbitrary: acc)
  case Nil
  then show ?case by (cases rest) (auto simp: section_end_def)
next
  case (Cons x xs)
  then show ?case by (simp add: u_def starts_with_def strip_prefix_def)
qed

lemma read_changes_old:
  "read_changes old new (map ((@) (u ''-'')) xs @ rest) = read_changes (old @ xs) new rest"
  by (induction xs arbitrary: old) (simp_all add: u_def starts_with_def strip_prefix_def END_OF_FILE_def)

lemma read_changes_new:
  "read_changes old new (map ((@) (u ''+'')) xs @ rest) = read_changes old (new @ xs) rest"
  by (induction xs arbitrary: new) (simp_all add: u_def starts_with_def strip_prefix_def END_OF_FILE_def)

text \<open>What may follow a chunk: another chunk or the end of the section.\<close>

definition chunk_end :: "ustr list \<Rightarrow> bool" where
  "chunk_end ls = (case ls of [] \<Rightarrow> True | l # _ \<Rightarrow> starts_with l (u ''@@'') \<or> section_end ls)"

lemma read_changes_chunk:
  "chunk_end rest \<Longrightarrow>
     read_changes [] [] (map ((@) (u ''-'')) old @ map ((@) (u ''+'')) new @ (if eof then [END_OF_FILE] else []) @ rest) =
       Inr (old, new, eof, rest)"
proof -
  assume "chunk_end rest"
  then have "read_changes old new rest = Inr (old, new, False, rest)" if "\<not> eof" for old new
    by (cases rest) (auto simp: chunk_end_def section_end_def)
  moreover have "read_changes old new (END_OF_FILE # rest) = Inr (old, new, True, rest)"
    by (simp add: END_OF_FILE_def u_def starts_with_def)
  ultimately show ?thesis by (simp add: read_changes_old read_changes_new)
qed

lemma chunk_end_concat: "section_end rest \<Longrightarrow> chunk_end (concat (map chunk_text cs) @ rest)"
proof (cases cs)
  case Nil
  assume "section_end rest"
  then show ?thesis by (cases rest) (auto simp: Nil chunk_end_def)
next
  case (Cons c cs')
  then show ?thesis by (auto simp: chunk_end_def chunk_text_def u_def starts_with_def split: option.splits)
qed

lemma read_update_chunks_text:
  "list_all wf_chunk cs \<Longrightarrow> section_end rest \<Longrightarrow>
     read_update_chunks acc (concat (map chunk_text cs) @ rest) = Inr (acc @ cs, rest)"
proof (induction cs arbitrary: acc)
  case Nil
  then show ?case by (cases rest) (auto simp: read_update_chunks.simps section_end_def)
next
  case (Cons c cs)
  define marker where "marker = (case context_line c of None \<Rightarrow> u ''@@'' | Some t \<Rightarrow> u ''@@ '' @ t)"
  define body where "body = (case context_line c of None \<Rightarrow> [] | Some t \<Rightarrow> SPACE # t)"
  define changes where "changes = map ((@) (u ''-'')) (old_lines c) @ map ((@) (u ''+'')) (new_lines c) @
      (if end_of_file c then [END_OF_FILE] else []) @ concat (map chunk_text cs) @ rest"
  have marker: "\<not> starts_with marker (u ''***'')" "strip_prefix marker (u ''@@'') = Some body"
    by (simp_all add: marker_def body_def u_def starts_with_def strip_prefix_def split: option.splits)
  have ctx: "(if trim body = [] then None else Some (trim body)) = context_line c"
    using Cons.prems(1) by (auto simp: body_def wf_chunk_def wf_header_def trim_space split: option.splits)
  have chunk: "\<lparr>old_lines = old_lines c, new_lines = new_lines c,
      context_line = (if trim body = [] then None else Some (trim body)), end_of_file = end_of_file c\<rparr> = c"
    unfolding ctx by simp
  have "read_changes [] [] changes =
      Inr (old_lines c, new_lines c, end_of_file c, concat (map chunk_text cs) @ rest)"
    unfolding changes_def by (rule read_changes_chunk [OF chunk_end_concat [OF Cons.prems(2)]])
  then have "read_update_chunks acc (marker # changes) =
      read_update_chunks (acc @ [c]) (concat (map chunk_text cs) @ rest)"
    by (subst read_update_chunks.simps) (simp add: marker chunk)
  moreover have "concat (map chunk_text (c # cs)) @ rest = marker # changes"
    by (simp add: chunk_text_def marker_def changes_def)
  ultimately show ?case using Cons by simp
qed

lemma added_contents_lines:
  assumes "contents = [] \<or> last contents = NL"
  shows "added_contents (added_lines contents) = contents"
proof (cases contents rule: rev_cases)
  case Nil
  then show ?thesis by (simp add: added_contents_def added_lines_def)
next
  case (snoc s c)
  then have "c = NL" using assms by simp
  then have "split_on NL contents = split_on NL s @ [[]]" by (simp add: snoc split_on_def split_by_snoc)
  then show ?thesis using snoc \<open>c = NL\<close> by (simp add: added_contents_def added_lines_def join_split_on)
qed

lemma section_end_hunks: "section_end (concat (map hunk_text hs))"
proof (cases hs)
  case (Cons h hs')
  then show ?thesis
    by (cases h) (auto simp: section_end_def hunk_text_def u_def starts_with_def END_OF_FILE_def)
qed (simp add: section_end_def)

lemma read_move_text:
  assumes "case mv of None \<Rightarrow> True | Some m \<Rightarrow> wf_header m" and "chunks \<noteq> []"
  shows "read_move ((case mv of None \<Rightarrow> [] | Some m \<Rightarrow> [u ''*** Move to: '' @ m]) @ concat (map chunk_text chunks) @ rest) =
    Inr (mv, concat (map chunk_text chunks) @ rest)"
proof (cases mv)
  case None
  obtain c cs where "chunks = c # cs" using assms(2) by (cases chunks) auto
  then show ?thesis
    by (auto simp: None read_move_def chunk_text_def u_def starts_with_def split: option.splits)
next
  case (Some m)
  have "u ''*** Move to: '' @ m = u ''*** Move to:'' @ SPACE # m" by (simp add: u_def)
  moreover have "starts_with (u ''*** Move to:'' @ SPACE # m) (u ''*** Move to:'')" by (simp add: starts_with_def)
  ultimately show ?thesis using assms(1) required_header_ok [of m "u ''*** Move to:''"] by (simp add: Some read_move_def)
qed

lemma parse_sections_text:
  "list_all wf_hunk hs \<Longrightarrow> parse_sections acc (concat (map hunk_text hs)) = Inr (acc @ hs)"
proof (induction hs arbitrary: acc)
  case Nil
  show ?case by (simp add: parse_sections.simps)
next
  case (Cons h hs)
  let ?rest = "concat (map hunk_text hs)"
  have split: "u (s @ '' '') @ p = u s @ SPACE # p" for s p by (simp add: u_def)
  have "parse_sections acc (concat (map hunk_text (h # hs))) = parse_sections (acc @ [h]) ?rest"
  proof (cases h)
    case (AddFile p contents)
    have "required_header_path (u ''*** Add File: '' @ p) (u ''*** Add File:'') = Inr p"
      using Cons.prems required_header_ok [of p "u ''*** Add File:''"] by (simp add: AddFile wf_hunk_def u_def)
    moreover have "starts_with (u ''*** Add File: '' @ p) (u ''*** Add File:'')" by (simp add: u_def starts_with_def)
    moreover have "added_contents (added_lines contents) = contents"
      using Cons.prems by (intro added_contents_lines) (simp add: AddFile wf_hunk_def)
    ultimately show ?thesis
      by (subst parse_sections.simps)
        (simp add: AddFile hunk_text_def read_added_text [OF section_end_hunks])
  next
    case (DeleteFile p)
    have "required_header_path (u ''*** Delete File: '' @ p) (u ''*** Delete File:'') = Inr p"
      using Cons.prems required_header_ok [of p "u ''*** Delete File:''"] by (simp add: DeleteFile wf_hunk_def u_def)
    moreover have "starts_with (u ''*** Delete File: '' @ p) (u ''*** Delete File:'')"
      "\<not> starts_with (u ''*** Delete File: '' @ p) (u ''*** Add File:'')" by (simp_all add: u_def starts_with_def)
    ultimately show ?thesis by (subst parse_sections.simps) (simp add: DeleteFile hunk_text_def)
  next
    case (UpdateFile p mv chunks)
    have wf: "wf_header p" "case mv of None \<Rightarrow> True | Some m \<Rightarrow> wf_header m" "chunks \<noteq> []" "list_all wf_chunk chunks"
      using Cons.prems by (simp_all add: UpdateFile wf_hunk_def)
    have "required_header_path (u ''*** Update File: '' @ p) (u ''*** Update File:'') = Inr p"
      using wf(1) required_header_ok [of p "u ''*** Update File:''"] by (simp add: u_def)
    moreover have "starts_with (u ''*** Update File: '' @ p) (u ''*** Update File:'')"
      "\<not> starts_with (u ''*** Update File: '' @ p) (u ''*** Add File:'')"
      "\<not> starts_with (u ''*** Update File: '' @ p) (u ''*** Delete File:'')" by (simp_all add: u_def starts_with_def)
    ultimately show ?thesis
      using wf(3)
      by (subst parse_sections.simps)
        (simp add: UpdateFile hunk_text_def read_move_text [OF wf(2,3)]
          read_update_chunks_text [OF wf(4) section_end_hunks])
  qed
  then show ?case using Cons by simp
qed

definition print_patch :: "PatchHunk list \<Rightarrow> ustr" where
  "print_patch hs =
     join [NL] ([u ''*** Begin Patch''] @ concat (map hunk_text hs) @ [u ''*** End Patch''])"

definition clean_line :: "ustr \<Rightarrow> bool" where
  "clean_line l \<longleftrightarrow> NL \<notin> set l \<and> CR \<notin> set l \<and> trim l \<noteq> u ''*** End Patch''"

lemma position_append:
  "list_all (\<lambda>x. \<not> P x) xs \<Longrightarrow> P y \<Longrightarrow> position P (xs @ y # ys) = Some (length xs)"
  by (induction xs) auto

lemma markers:
  "trim (u ''*** Begin Patch'') = u ''*** Begin Patch''" "trim (u ''*** End Patch'') = u ''*** End Patch''"
  "u ''*** Begin Patch'' \<noteq> u ''*** End Patch''"
  by (simp_all add: text_defs)

lemma set_join: "set (join sep ls) \<subseteq> set sep \<union> \<Union> (set ` set ls)"
  by (induction sep ls rule: join.induct) auto

lemma find_absent: "hd p \<notin> set s \<Longrightarrow> p \<noteq> [] \<Longrightarrow> find_sub p s = None"
  by (induction s) (auto simp: starts_with_def, metis list.sel(1) take_eq_Nil hd_take list.size(3) gr0I)

lemma replace_absent: "CR \<notin> set s \<Longrightarrow> str_replace s [CR, NL] [NL] = s"
  using find_absent [of "[CR, NL]" s] by (simp add: str_replace_def replace_ne_absent)

lemma trim_id:
  assumes "s \<noteq> []" "\<not> is_whitespace (hd s)" "\<not> is_whitespace (last s)"
  shows "trim s = s"
proof -
  have "trim_start s = s" using assms(1,2) by (cases s) (auto simp: trim_start_def trim_start_by_def)
  moreover have "trim_end s = s"
    using assms(1,3) by (cases s rule: rev_cases) (auto simp: trim_end_def trim_end_by_def)
  ultimately show ?thesis by (simp add: trim_def)
qed

lemma no_heredoc: "strip_heredoc (u ''*** Begin Patch'' @ NL # s) = None"
proof -
  have find: "find_sub [NL] (u ''*** Begin Patch'' @ NL # s) = Some 15" by (simp add: u_def starts_with_def)
  have take: "take 15 (u ''*** Begin Patch'' @ NL # s) = u ''*** Begin Patch''" by (simp add: u_def)
  have heads: "strip_prefix (u ''*** Begin Patch'') (u ''cat'') = None" "strip_prefix (u ''*** Begin Patch'') (u ''<<'') = None"
    by (simp_all add: text_defs)
  show ?thesis
    unfolding strip_heredoc_def find Option.bind.simps Let_def take markers heads option.case by simp
qed

lemma parse_printed:
  assumes "hs \<noteq> []" and "list_all wf_hunk hs" and "list_all clean_line (concat (map hunk_text hs))"
  shows "parse_patch (print_patch hs) = Inr hs"
proof -
  let ?L = "concat (map hunk_text hs)"
  let ?B = "u ''*** Begin Patch''" and ?E = "u ''*** End Patch''"
  let ?lines = "[?B] @ ?L @ [?E]"
  have ne: "?L @ [?E] \<noteq> []" by simp
  have whole: "print_patch hs = ?B @ NL # join [NL] (?L @ [?E])"
    unfolding print_patch_def using join_Cons [OF ne, of "[NL]" ?B] by simp
  have "join [NL] (([?B] @ ?L) @ [?E]) = join [NL] ([?B] @ ?L) @ [NL] @ ?E" by (rule join_snoc) simp
  then have "last (print_patch hs) = 104" unfolding print_patch_def by (simp add: u_def)
  moreover have "print_patch hs \<noteq> []" "hd (print_patch hs) = 42" unfolding whole by (simp_all add: u_def)
  ultimately have trim: "trim (print_patch hs) = print_patch hs" by (intro trim_id) (simp_all add: is_whitespace_def)
  have nocr: "CR \<notin> set (print_patch hs)"
    using set_join [of "[NL]" ?lines] assms(3) unfolding print_patch_def
    by (auto simp: list_all_iff clean_line_def u_def dest!: subsetD)
  have split: "split_on NL (print_patch hs) = ?lines"
    unfolding print_patch_def
    by (rule split_on_join) (use assms(3) in \<open>auto simp: list_all_iff clean_line_def u_def\<close>)
  have b: "position (\<lambda>l. trim l = ?B) ?lines = Some 0" by (simp add: markers)
  have e: "position (\<lambda>l. trim l = ?E) ?lines = Some (Suc (length ?L))"
    using position_append [of "\<lambda>l. trim l = ?E" "?B # ?L" ?E "[]"] assms(3)
    by (simp add: markers list_all_iff clean_line_def)
  have "strip_heredoc (print_patch hs) = None" unfolding whole by (rule no_heredoc)
  then show ?thesis
    using parse_sections_text [OF assms(2), of "[]"] assms(1)
    by (simp add: parse_patch_def trim replace_absent [OF nocr] split b [simplified] e [simplified] Let_def)
qed

text \<open>
  C19. Printing a list of well-formed hunks as a patch and parsing the text gives the hunks back,
  provided no printed line contains a line break or reads as the end marker.
\<close>

theorem parse_print_patch:
  assumes "hs \<noteq> []" and "list_all wf_hunk hs" and "list_all clean_line (concat (map hunk_text hs))"
  shows "parse_patch (print_patch hs) = Inr hs"
  using assms by (rule parse_printed)

text \<open>
  A context line that reads as the end marker ends the patch: the change below it is dropped
  and the patch is accepted with an empty chunk in its place.
\<close>

theorem end_marker_in_context_truncates:
  "parse_patch (join [NL]
     [u ''*** Begin Patch'', u ''*** Update File: a'', u ''@@'', u '' *** End Patch'', u ''-x'', u ''+y'', u ''*** End Patch'']) =
   Inr [UpdateFile (u ''a'') None [\<lparr>old_lines = [], new_lines = [], context_line = None, end_of_file = False\<rparr>]]"
  (is "parse_patch (join [NL] ?lines) = Inr ?hunks")
proof -
  let ?text = "join [NL] ?lines"
  have trim: "trim ?text = ?text" by (rule trim_id) (simp_all add: u_def is_whitespace_def)
  have "?text = u ''*** Begin Patch'' @ NL # join [NL] (tl ?lines)" by simp
  then have heredoc: "strip_heredoc ?text = None" by (simp only: no_heredoc)
  have nocr: "CR \<notin> set ?text" by (simp add: u_def)
  have split: "split_on NL ?text = ?lines" by (rule split_on_join) (simp_all add: u_def)
  have b: "position (\<lambda>l. trim l = u ''*** Begin Patch'') ?lines = Some 0" by (simp add: markers)
  have "trim (u '' *** End Patch'') = u ''*** End Patch''"
    "trim (u ''*** Update File: a'') \<noteq> u ''*** End Patch''" "trim (u ''@@'') \<noteq> u ''*** End Patch''"
    by (simp_all add: text_defs)
  then have e: "position (\<lambda>l. trim l = u ''*** End Patch'') ?lines = Some 3" by (simp add: markers)
  have "take 2 (drop 1 ?lines) = [u ''*** Update File: a'', u ''@@'']" by simp
  moreover have "parse_sections [] [u ''*** Update File: a'', u ''@@''] = Inr ?hunks"
    by (simp add: parse_sections.simps read_move_def read_update_chunks.simps required_header_path_def text_defs)
  ultimately show ?thesis
    unfolding parse_patch_def trim Let_def heredoc option.case replace_absent [OF nocr] split b e by simp
qed

theorem parse_print_patch_witness:
  "parse_patch (print_patch [DeleteFile (u ''a''),
     UpdateFile (u ''b'') None [\<lparr>old_lines = [u ''x''], new_lines = [u ''y''], context_line = None, end_of_file = False\<rparr>]]) =
   Inr [DeleteFile (u ''a''),
     UpdateFile (u ''b'') None [\<lparr>old_lines = [u ''x''], new_lines = [u ''y''], context_line = None, end_of_file = False\<rparr>]]"
  by (rule parse_print_patch)
    (simp_all add: wf_hunk_def wf_header_def wf_chunk_def hunk_text_def chunk_text_def clean_line_def text_defs)

theorem apply_update_chunks_correct_witness:
  "\<exists>hunks. apply_update_chunks (u ''f'') [\<lparr>old_lines = [u ''b''], new_lines = [u ''c'', u ''d''], context_line = None, end_of_file = False\<rparr>]
      (u ''a'' @ NL # u '' b'' @ [NL]) = Inr (u ''a'' @ NL # u ''c'' @ NL # u ''d'' @ [NL], hunks) \<and>
    length hunks = 1"
proof -
  let ?c = "\<lparr>old_lines = [u ''b''], new_lines = [u ''c'', u ''d''], context_line = None, end_of_file = False\<rparr>"
  let ?o = "u ''a'' @ NL # u '' b'' @ [NL]"
  have lines: "patched_lines ?o = [u ''a'', u '' b'']" by (simp add: patched_lines_def text_defs)
  have seek: "seek [u ''a'', u '' b''] [u ''b''] 0 False = Some 1"
    by (simp add: seek_def seek_with_def comparison_matches_def upt_rec text_defs Let_def)
  have run: "\<exists>hunks. apply_update_chunks (u ''f'') [?c] ?o = Inr (u ''a'' @ NL # u ''c'' @ NL # u ''d'' @ [NL], hunks)"
    unfolding apply_update_chunks_def patched_lines_def [symmetric] lines Let_def
    by (simp add: place_chunk_def chunk_cursor_def seek splice_def)
  then obtain hunks where h: "apply_update_chunks (u ''f'') [?c] ?o = Inr (u ''a'' @ NL # u ''c'' @ NL # u ''d'' @ [NL], hunks)"
    by blast
  have "length (patched_lines ?o) + sum_list (map (length \<circ> new_lines) [?c]) \<le> usize_max"
    by (simp add: lines usize_max_def)
  from apply_update_chunks_correct [OF h this] obtain cs where "mset cs = mset [?c]" "length hunks = length cs"
    by (auto dest: list_all2_lengthD)
  then have "length hunks = 1" using mset_eq_length [of cs "[?c]"] by simp
  then show ?thesis using h by blast
qed

end
