(* ===== verification/File_Publish.thy ===== *)
theory File_Publish
  imports File_Text Patch_Text
begin

text \<open>
  Publishing changes of the file tools: the shared core (\<open>operations.rs\<close>), the atomic write
  (\<open>mutation_operations/atomic_write.rs\<close>) and the publication of a planned patch
  (\<open>mutation_operations.rs\<close>, \<open>patch_publication.rs\<close>), all in \<open>crates/mcp-files/src\<close>. A publication is
  read off the history of system calls: \<open>replay\<close> gives the content of every path after the actions
  that took place. An \<open>expect\<close> of the source that fails is the outcome \<open>Panic\<close>.
\<close>

section \<open>The core\<close>

record FilesystemCore =
  core_policy :: RootPathPolicy
  core_allow_write :: bool
  core_limits :: FilesystemLimits

text \<open>What the tools call besides the operating system: Unicode lower-casing, SHA-256, format detection.\<close>

record Tools =
  t_lower :: "ustr \<Rightarrow> ustr"
  t_sha :: "bytes \<Rightarrow> bytes"
  t_format :: "bytes \<Rightarrow> FileFormat"

definition core_create ::
  "(nat \<Rightarrow> Path \<Rightarrow> IoErrorKind + Path) \<Rightarrow> (Path \<Rightarrow> IoErrorKind + bool) \<Rightarrow> ustr \<Rightarrow> bool \<Rightarrow>
     FilesystemLimits option \<Rightarrow> FilesystemError + FilesystemCore" where
  "core_create canon is_dir r allow_write limits =
     (case create canon is_dir r of
        Inl e \<Rightarrow> Inl e
      | Inr pol \<Rightarrow>
          (case validate (case limits of Some l \<Rightarrow> l | None \<Rightarrow> default_limits) of
             Inl e \<Rightarrow> Inl e
           | Inr l \<Rightarrow> Inr \<lparr>core_policy = pol, core_allow_write = allow_write, core_limits = l\<rparr>))"

definition core_create_unconfined ::
  "(nat \<Rightarrow> Path \<Rightarrow> IoErrorKind + Path) \<Rightarrow> (Path \<Rightarrow> IoErrorKind + bool) \<Rightarrow> ustr \<Rightarrow> bool \<Rightarrow>
     FilesystemLimits option \<Rightarrow> FilesystemError + FilesystemCore" where
  "core_create_unconfined canon is_dir base_cwd allow_write limits =
     (case create_unconfined canon is_dir base_cwd of
        Inl e \<Rightarrow> Inl e
      | Inr pol \<Rightarrow>
          (case validate (case limits of Some l \<Rightarrow> l | None \<Rightarrow> default_limits) of
             Inl e \<Rightarrow> Inl e
           | Inr l \<Rightarrow> Inr \<lparr>core_policy = pol, core_allow_write = allow_write, core_limits = l\<rparr>))"

definition resolve_path :: "Os \<Rightarrow> Tools \<Rightarrow> FilesystemCore \<Rightarrow> ustr \<Rightarrow> (FilesystemError, Path) op" where
  "resolve_path os tools core requested log =
     (let r = resolve (t_lower tools) (os_realpath os (length log)) (core_policy core) requested
      in (r, log @ [Resolved requested r]))"

definition resolve_directory :: "Os \<Rightarrow> Tools \<Rightarrow> FilesystemCore \<Rightarrow> ustr \<Rightarrow> (FilesystemError, Path \<times> ustr) op" where
  "resolve_directory os tools core requested =
     bind (resolve_path os tools core requested) (\<lambda>path.
     bind (stat os path) (\<lambda>m.
     case m of
       Inl _ \<Rightarrow> fail (Operation (u ''directory is unavailable''))
     | Inr metadata \<Rightarrow>
         if md_kind metadata \<noteq> IsDir then fail (InvalidRequest (u ''path is not a directory''))
         else bind (lift (relative (core_policy core) path)) (\<lambda>relative_path. return (path, relative_path))))"

definition require_write :: "FilesystemCore \<Rightarrow> FilesystemError + unit" where
  "require_write core =
     (if \<not> core_allow_write core then Inl (Operation (u ''Filesystem is read-only; restart with write access''))
      else Inr ())"

definition validate_prepared_path :: "Os \<Rightarrow> Tools \<Rightarrow> FilesystemCore \<Rightarrow> ustr \<Rightarrow> Path \<Rightarrow> (FilesystemError, unit) op" where
  "validate_prepared_path os tools core requested authorized =
     bind (map_err (\<lambda>_. Operation (u ''Prepared resource changed before execution: '' @ requested))
             (resolve_path os tools core requested)) (\<lambda>current.
     if current \<noteq> authorized
     then fail (Operation (u ''Prepared resource changed before execution: '' @ requested))
     else return ())"

datatype FileResourceAccess = Read | Traverse | Write | ReadWrite | DeleteAccess

record FileResource =
  res_requested_path :: ustr
  res_path :: Path
  res_relative_path :: ustr
  res_access :: FileResourceAccess

definition revalidate_resource :: "Os \<Rightarrow> Tools \<Rightarrow> FilesystemCore \<Rightarrow> FileResource \<Rightarrow> (FilesystemError, Metadata) op" where
  "revalidate_resource os tools core resource =
     bind (\<lambda>log. let r = revalidate (t_lower tools) (os_realpath os (length log)) (core_policy core) (res_path resource)
                 in (r, log @ [Resolved (path_text (res_path resource)) r])) (\<lambda>canonical.
     if canonical \<noteq> res_path resource
     then fail (Operation (u ''Prepared resource changed before execution: '' @ res_requested_path resource))
     else
       bind (bind (stat os canonical) (or_io (u ''Cannot inspect'') canonical)) (\<lambda>metadata.
       if (case res_access resource of
             Traverse \<Rightarrow> md_kind metadata = IsDir | Write \<Rightarrow> True | _ \<Rightarrow> md_kind metadata = IsFile)
       then return metadata
       else fail (Operation (u ''Prepared resource type changed before execution: '' @ res_requested_path resource))))"

section \<open>The atomic write\<close>

definition publication_stale :: "ustr \<Rightarrow> FilesystemError" where
  "publication_stale requested = Stale (u ''Prepared resource changed before publication: '' @ requested)"

definition temporary_name :: "nat \<Rightarrow> ustr \<Rightarrow> ustr \<Rightarrow> ustr" where
  "temporary_name pid uuid basename = u ''.'' @ basename @ u ''.'' @ dec pid @ u ''.'' @ uuid @ u ''.tmp''"

definition set_compatible_permissions :: "Os \<Rightarrow> Path \<Rightarrow> Metadata option \<Rightarrow> (FilesystemError, unit) op" where
  "set_compatible_permissions os path existing =
     bind (act os (SetPermissions path (case existing of Some m \<Rightarrow> md_mode m mod 512 | None \<Rightarrow> 384)))
       (done_or_io (u ''Cannot set file permissions'') path)"

text \<open>The target is still the reviewed one: the version that was read, or absent.\<close>

definition check_target ::
  "Os \<Rightarrow> Tools \<Rightarrow> FilesystemCore \<Rightarrow> ustr \<Rightarrow> Path \<Rightarrow> FileVersion option \<Rightarrow> (FilesystemError, unit) op" where
  "check_target os tools core requested p expected =
     bind (map_err (\<lambda>_. publication_stale requested) (validate_prepared_path os tools core requested p)) (\<lambda>_.
     case expected of
       Some version \<Rightarrow> validate_snapshot os (t_sha tools) p version (max_file_bytes (core_limits core))
     | None \<Rightarrow> bind (lstat os p) (\<lambda>present. if present then fail (publication_stale requested) else return ()))"

text \<open>The steps from the temporary file to the published one.\<close>

definition write_temporary ::
  "Os \<Rightarrow> Tools \<Rightarrow> FilesystemCore \<Rightarrow> ustr \<Rightarrow> Path \<Rightarrow> Path \<Rightarrow> ustr \<Rightarrow> Metadata option \<Rightarrow> FileVersion option \<Rightarrow>
     (FilesystemError, unit) op" where
  "write_temporary os tools core requested file_path temporary content existing expected =
     bind (bind (act os (CreateNew temporary)) (\<lambda>r.
       case r of
         None \<Rightarrow> return ()
       | Some k \<Rightarrow>
           if expected \<noteq> None \<and> k = IoNotFound then fail (publication_stale requested)
           else fail (io_path (u ''Cannot create temporary file'') temporary k))) (\<lambda>_.
     bind (bind (act os (WriteAll temporary (encode_utf8 content))) (done_or_io (u ''Cannot write temporary file'') temporary)) (\<lambda>_.
     bind (bind (act os (Flush temporary)) (done_or_io (u ''Cannot flush temporary file'') temporary)) (\<lambda>_.
     bind (set_compatible_permissions os temporary existing) (\<lambda>_.
     bind (poll os) (\<lambda>_.
     check_target os tools core requested file_path expected)))))"

definition publish_temporary :: "Os \<Rightarrow> ustr \<Rightarrow> Path \<Rightarrow> Path \<Rightarrow> bool \<Rightarrow> (FilesystemError, unit) op" where
  "publish_temporary os requested temporary file_path exclusive =
     (if exclusive
      then
        bind (bind (act os (HardLink temporary file_path)) (\<lambda>r.
          case r of
            None \<Rightarrow> return ()
          | Some k \<Rightarrow>
              if k = IoAlreadyExists then fail (publication_stale requested)
              else fail (io_path (u ''Cannot publish new file'') file_path k))) (\<lambda>_.
        bind (act os (RemoveTemporary temporary)) (done_or_io (u ''Cannot remove temporary file'') temporary))
      else bind (act os (Rename temporary file_path)) (done_or_io (u ''Cannot replace file'') file_path))"

text \<open>The temporary file is removed after any failure, and a failure of that is ignored.\<close>

definition or_cleanup :: "Os \<Rightarrow> Path \<Rightarrow> ('e, 'a) op \<Rightarrow> ('e, 'a) op" where
  "or_cleanup os temporary m log =
     (case m log of
        (Inl e, log) \<Rightarrow> bind (act os (RemoveTemporary temporary)) (\<lambda>_. fail e) log
      | (Inr x, log) \<Rightarrow> (Inr x, log))"

definition temporary_at :: "Os \<Rightarrow> Path \<Rightarrow> Path \<Rightarrow> nat \<Rightarrow> Path" where
  "temporary_at os parent_dir file_path tick =
     path_join parent_dir [Normal (temporary_name (os_pid os) (os_uuid os tick)
       (case file_name file_path of Some name \<Rightarrow> name | None \<Rightarrow> []))]"

definition commit_write ::
  "Os \<Rightarrow> Tools \<Rightarrow> FilesystemCore \<Rightarrow> ustr \<Rightarrow> Path \<Rightarrow> ustr \<Rightarrow> bool \<Rightarrow> FileVersion option \<Rightarrow> (FilesystemError, unit) op" where
  "commit_write os tools core requested file_path content exclusive expected =
     bind (poll os) (\<lambda>_.
     case parent file_path of
       None \<Rightarrow> fail (Operation (u ''Cannot determine parent directory''))
     | Some parent_dir \<Rightarrow>
     bind (if expected = None
           then bind (act os (CreateDirAll parent_dir)) (done_or_io (u ''Cannot create directory'') parent_dir)
           else return ()) (\<lambda>_.
     bind (poll os) (\<lambda>_.
     bind (stat os file_path) (\<lambda>existing.
     (\<lambda>log. let temporary = temporary_at os parent_dir file_path (length log)
            in or_cleanup os temporary
                 (bind (write_temporary os tools core requested file_path temporary content
                          (case existing of Inr m \<Rightarrow> Some m | Inl _ \<Rightarrow> None) expected) (\<lambda>_.
                  publish_temporary os requested temporary file_path exclusive)) log)))))"

section \<open>Patches\<close>

datatype PlannedChangeType = Add | Update | Delete | Move

record PlannedChange =
  pc_requested_path :: ustr
  pc_file_path :: Path
  pc_new_content :: ustr
  pc_change_type :: PlannedChangeType
  pc_move_path :: "Path option"
  pc_requested_move_path :: "ustr option"
  pc_diff :: FileDiff
  pc_expected_source :: "FileVersion option"

datatype Failure = Panic | Refused FilesystemError

text \<open>Failures carry the flag \<open>published\<close> as the change leaves it.\<close>

definition refused :: "bool \<Rightarrow> (FilesystemError, 'a) op \<Rightarrow> (Failure \<times> bool, 'a) op" where
  "refused published m = map_err (\<lambda>e. (Refused e, published)) m"

definition validate_source :: "Os \<Rightarrow> Tools \<Rightarrow> FilesystemCore \<Rightarrow> bool \<Rightarrow> PlannedChange \<Rightarrow> (Failure \<times> bool, unit) op" where
  "validate_source os tools core published change =
     (case pc_expected_source change of
        None \<Rightarrow> fail (Panic, published)
      | Some expected \<Rightarrow>
          refused published
            (validate_snapshot os (t_sha tools) (pc_file_path change) expected (max_file_bytes (core_limits core))))"

text \<open>The end of a move, after its target is out.\<close>

definition finish_move :: "Os \<Rightarrow> Tools \<Rightarrow> FilesystemCore \<Rightarrow> PlannedChange \<Rightarrow> (Failure \<times> bool, unit) op" where
  "finish_move os tools core change =
     bind (validate_source os tools core True change) (\<lambda>_.
     bind (refused True (map_err (\<lambda>_. publication_stale (pc_requested_path change))
       (validate_prepared_path os tools core (pc_requested_path change) (pc_file_path change)))) (\<lambda>_.
     refused True
       (bind (act os (RemoveFile (pc_file_path change)))
         (done_or_io (u ''Cannot delete moved source'') (pc_file_path change)))))"

definition publish_change :: "Os \<Rightarrow> Tools \<Rightarrow> FilesystemCore \<Rightarrow> bool \<Rightarrow> PlannedChange \<Rightarrow> (Failure \<times> bool, unit) op" where
  "publish_change os tools core published change =
     bind (refused published (poll os)) (\<lambda>_.
     bind (refused published (map_err (\<lambda>_. publication_stale (pc_requested_path change))
       (validate_prepared_path os tools core (pc_requested_path change) (pc_file_path change)))) (\<lambda>_.
     case pc_change_type change of
       Delete \<Rightarrow>
         bind (validate_source os tools core published change) (\<lambda>_.
         refused published
           (bind (act os (RemoveFile (pc_file_path change))) (done_or_io (u ''Cannot delete'') (pc_file_path change))))
     | Move \<Rightarrow>
         (case (pc_move_path change, pc_requested_move_path change) of
            (Some move_path, Some requested_move_path) \<Rightarrow>
              bind (validate_source os tools core published change) (\<lambda>_.
              bind (refused published
                (commit_write os tools core requested_move_path move_path (pc_new_content change) True None)) (\<lambda>_.
              finish_move os tools core change))
          | _ \<Rightarrow> fail (Panic, published))
     | change_type \<Rightarrow>
         refused published
           (commit_write os tools core (pc_requested_path change) (pc_file_path change) (pc_new_content change)
              (change_type = Add) (pc_expected_source change))))"

definition after_publication :: "FilesystemError \<Rightarrow> FilesystemError" where
  "after_publication e = (case e of Stale message \<Rightarrow> Operation message | _ \<Rightarrow> e)"

fun publish_from :: "Os \<Rightarrow> Tools \<Rightarrow> FilesystemCore \<Rightarrow> bool \<Rightarrow> PlannedChange list \<Rightarrow> (Failure, unit) op" where
  "publish_from os tools core published [] log = (Inr (), log)"
| "publish_from os tools core published (change # changes) log =
     (case publish_change os tools core published change log of
        (Inl (Panic, _), log) \<Rightarrow> (Inl Panic, log)
      | (Inl (Refused e, published), log) \<Rightarrow> (Inl (Refused (if published then after_publication e else e)), log)
      | (Inr _, log) \<Rightarrow> publish_from os tools core True changes log)"

definition publish_patch :: "Os \<Rightarrow> Tools \<Rightarrow> FilesystemCore \<Rightarrow> PlannedChange list \<Rightarrow> (Failure, unit) op" where
  "publish_patch os tools core changes = publish_from os tools core False changes"

definition publish_prepared_patch :: "Os \<Rightarrow> Tools \<Rightarrow> FilesystemCore \<Rightarrow> PlannedChange list \<Rightarrow> (Failure, unit) op" where
  "publish_prepared_patch os tools core changes =
     bind (map_err Refused (lift (require_write core))) (\<lambda>_. publish_patch os tools core changes)"

section \<open>What the history did\<close>

type_synonym files = "Path \<Rightarrow> bytes option"

text \<open>
  The content of every file after an event. Only an action that took place counts; what a failed
  write leaves in a temporary file is not recorded, since it is not published. Directories are no
  files: the attempts to create them are a view of their own (\<open>directory_events\<close>).
\<close>

fun replay_event :: "Event \<Rightarrow> files \<Rightarrow> files" where
  "replay_event (Did (CreateNew t) None) fs = fs(t \<mapsto> [])"
| "replay_event (Did (WriteAll t bs) None) fs = fs(t \<mapsto> bs)"
| "replay_event (Did (HardLink t p) None) fs = fs(p := fs t)"
| "replay_event (Did (Rename t p) None) fs = fs(p := fs t, t := None)"
| "replay_event (Did (RemoveTemporary t) None) fs = fs(t := None)"
| "replay_event (Did (RemoveFile p) None) fs = fs(p := None)"
| "replay_event _ fs = fs"

definition replay :: "files \<Rightarrow> Event list \<Rightarrow> files" where
  "replay fs log = fold replay_event log fs"

text \<open>The events that publish: a link or a rename onto the target, or the removal of a source.\<close>

fun publishes :: "Event \<Rightarrow> bool" where
  "publishes (Did (HardLink t p) None) = True"
| "publishes (Did (Rename t p) None) = True"
| "publishes (Did (RemoveFile p) None) = True"
| "publishes _ = False"

definition published_events :: "Event list \<Rightarrow> Event list" where
  "published_events log = filter publishes log"

text \<open>What a planned change does to the files.\<close>

definition change_files :: "PlannedChange \<Rightarrow> files \<Rightarrow> files" where
  "change_files c fs =
     (case pc_change_type c of
        Delete \<Rightarrow> fs(pc_file_path c := None)
      | Move \<Rightarrow> fs(the (pc_move_path c) \<mapsto> encode_utf8 (pc_new_content c), pc_file_path c := None)
      | _ \<Rightarrow> fs(pc_file_path c \<mapsto> encode_utf8 (pc_new_content c)))"

section \<open>Views of the history\<close>

lemma bindE:
  assumes "bind m f log = (r, log')"
  obtains e where "m log = (Inl e, log')" "r = Inl e"
  | x log1 where "m log = (Inr x, log1)" "f x log1 = (r, log')"
  using assms by (auto simp: bind_def split: prod.splits sum.splits)

lemma map_errE:
  assumes "map_err h m log = (r, log')"
  obtains e where "m log = (Inl e, log')" "r = Inl (h e)"
  | x where "m log = (Inr x, log')" "r = Inr x"
  using assms by (auto simp: map_err_def split: prod.splits sum.splits)

lemmas op_defs = return_def fail_def lift_def attempt_def poll_def stat_def lstat_def open_file_def read_file_def act_def
  or_io_def done_or_io_def

fun quiet :: "Event \<Rightarrow> bool" where
  "quiet (Did a r) = False"
| "quiet _ = True"

text \<open>A view of the history that does not look at what was only observed.\<close>

locale history_view =
  fixes view :: "Event list \<Rightarrow> 'v"
  assumes quiet_event: "quiet e \<Longrightarrow> view (log @ [e]) = view log"
begin

definition keeps :: "('e, 'a) op \<Rightarrow> bool" where
  "keeps m \<longleftrightarrow> (\<forall>log r log'. m log = (r, log') \<longrightarrow> view log' = view log)"

lemma keepsD: "keeps m \<Longrightarrow> m log = (r, log') \<Longrightarrow> view log' = view log"
  by (simp add: keeps_def)

lemma keeps_pure: "keeps (return x)" "keeps (fail e)" "keeps (lift r)"
  by (simp_all add: keeps_def op_defs)

lemma keeps_bind: "keeps m \<Longrightarrow> (\<And>x. keeps (f x)) \<Longrightarrow> keeps (bind m f)"
  unfolding keeps_def by (metis bindE)

lemma keeps_map_err: "keeps m \<Longrightarrow> keeps (map_err h m)"
  unfolding keeps_def by (metis map_errE)

lemma keeps_attempt: "keeps m \<Longrightarrow> keeps (attempt m)"
  by (auto simp: keeps_def attempt_def split: prod.splits)

lemma keeps_answers: "keeps (or_io a p r)" "keeps (done_or_io a p k)"
  by (auto simp: keeps_def op_defs split: sum.splits option.splits)

lemma keeps_calls: "keeps (poll os)" "keeps (stat os p)" "keeps (lstat os p)" "keeps (open_file os p)" "keeps (read_file os p)"
  by (auto simp: keeps_def op_defs Let_def quiet_event split: if_splits)

lemma keeps_resolve: "keeps (resolve_path os tools core requested)"
  by (auto simp: keeps_def resolve_path_def Let_def quiet_event)

lemmas keeps_rules = keeps_pure keeps_bind keeps_map_err keeps_attempt keeps_answers keeps_calls keeps_resolve

lemma keeps_read_bounded: "keeps (read_bounded os p n)"
  unfolding read_bounded_def Let_def by (intro keeps_rules) (simp add: keeps_pure)

lemma keeps_snapshot: "keeps (read_file_snapshot_required os sha p n)"
  unfolding read_file_snapshot_required_def by (intro keeps_rules keeps_read_bounded) (simp add: keeps_pure)

lemma keeps_validate_snapshot: "keeps (validate_snapshot os sha p v n)"
  unfolding validate_snapshot_def read_file_version_required_def
  by (intro keeps_rules keeps_snapshot) (auto intro: keeps_pure split: sum.splits FilesystemError.splits prod.splits)

lemma keeps_validate_path: "keeps (validate_prepared_path os tools core requested authorized)"
  unfolding validate_prepared_path_def by (intro keeps_rules) (simp add: keeps_pure)

end

interpretation published: history_view published_events
  by unfold_locales (auto simp: published_events_def elim: quiet.elims)

interpretation files: history_view "replay fs" for fs
  by unfold_locales (auto simp: replay_def elim: quiet.elims)

lemma replay_snoc [simp]:
  "replay fs (log @ es) = replay (replay fs log) es" "replay fs (e # es) = replay (replay_event e fs) es" "replay fs [] = fs"
  by (simp_all add: replay_def)

lemma published_snoc [simp]:
  "published_events (log @ es) = published_events log @ published_events es"
  "published_events (e # es) = (if publishes e then e # published_events es else published_events es)"
  "published_events [] = []"
  by (simp_all add: published_events_def)

text \<open>The attempts to create directories, which may create some even when they fail.\<close>

fun makes_directory :: "Event \<Rightarrow> bool" where
  "makes_directory (Did (CreateDirAll d) k) = True"
| "makes_directory _ = False"

definition directory_events :: "Event list \<Rightarrow> Event list" where
  "directory_events log = filter makes_directory log"

interpretation directories: history_view directory_events
  by unfold_locales (auto simp: directory_events_def elim: quiet.elims)

text \<open>Nothing is published and no path changes.\<close>

definition still :: "Event list \<Rightarrow> Event list \<Rightarrow> bool" where
  "still log log' \<longleftrightarrow> published_events log' = published_events log \<and> (\<forall>fs. replay fs log' = replay fs log)"

lemma stillI: "published.keeps m \<Longrightarrow> (\<And>fs. files.keeps fs m) \<Longrightarrow> m log = (r, log') \<Longrightarrow> still log log'"
  unfolding still_def by (blast dest: published.keepsD files.keepsD)

lemma still_poll: "poll os log = (r, log') \<Longrightarrow> still log log'"
  by (rule stillI [OF published.keeps_calls(1) files.keeps_calls(1)])

lemma still_stat: "stat os p log = (r, log') \<Longrightarrow> still log log'"
  by (rule stillI [OF published.keeps_calls(2) files.keeps_calls(2)])

lemma still_lstat: "lstat os p log = (r, log') \<Longrightarrow> still log log'"
  by (rule stillI [OF published.keeps_calls(3) files.keeps_calls(3)])

lemma still_validate_path: "validate_prepared_path os tools core req p log = (r, log') \<Longrightarrow> still log log'"
  by (rule stillI [OF published.keeps_validate_path files.keeps_validate_path])

lemma still_validate_snapshot: "validate_snapshot os sha p v n log = (r, log') \<Longrightarrow> still log log'"
  by (rule stillI [OF published.keeps_validate_snapshot files.keeps_validate_snapshot])

lemmas still_calls = still_poll still_stat still_lstat still_validate_path still_validate_snapshot

lemma still_trans: "still a b \<Longrightarrow> still b c \<Longrightarrow> still a c"
  by (simp add: still_def)

text \<open>Nothing is published, and only the temporary file may change.\<close>

definition outside :: "Path \<Rightarrow> files \<Rightarrow> Event list \<Rightarrow> Event list \<times> files" where
  "outside t fs log = (published_events log, (replay fs log)(t := None))"

interpretation staged: history_view "outside t fs" for t fs
  by unfold_locales (auto simp: outside_def elim: quiet.elims)

lemma temporary_event:
  "a \<in> {CreateNew t, WriteAll t bs, Flush t, SetPermissions t m, RemoveTemporary t} \<Longrightarrow>
     \<not> publishes (Did a k) \<and> (replay_event (Did a k) fs)(t := None) = fs(t := None)"
  by (cases k) auto

lemma staged_act:
  "a \<in> {CreateNew t, WriteAll t bs, Flush t, SetPermissions t m, RemoveTemporary t} \<Longrightarrow> staged.keeps t fs (act os a)"
  by (auto simp: staged.keeps_def act_def Let_def outside_def replay_snoc published_snoc temporary_event)

lemma files_act: "a \<in> {Flush t, SetPermissions t m, CreateDirAll d} \<Longrightarrow> files.keeps fs (act os a)"
  by (auto simp: files.keeps_def act_def Let_def replay_snoc)

lemma keeps_check_target:
  "staged.keeps t fs (check_target os tools core requested p expected)"
  "files.keeps fs (check_target os tools core requested p expected)"
  unfolding check_target_def
  by (cases expected; simp; intro staged.keeps_rules staged.keeps_validate_path staged.keeps_validate_snapshot
      files.keeps_rules files.keeps_validate_path files.keeps_validate_snapshot; simp add: staged.keeps_pure files.keeps_pure)+

lemma write_temporary_effect:
  assumes "write_temporary os tools core requested p t content ex expected log = (r, log')"
  shows "outside t fs log' = outside t fs log \<and> (r = Inr () \<longrightarrow> replay fs log' t = Some (encode_utf8 content))"
proof -
  define rest where "rest = bind (bind (act os (Flush t)) (done_or_io (u ''Cannot flush temporary file'') t)) (\<lambda>_.
     bind (set_compatible_permissions os t ex) (\<lambda>_. bind (poll os) (\<lambda>_. check_target os tools core requested p expected)))"
  define first where "first = bind (act os (CreateNew t)) (\<lambda>r. case r of None \<Rightarrow> return () | Some k \<Rightarrow>
           if expected \<noteq> None \<and> k = IoNotFound then fail (publication_stale requested)
           else fail (io_path (u ''Cannot create temporary file'') t k))"
  have eq: "write_temporary os tools core requested p t content ex expected = bind first (\<lambda>_.
     bind (bind (act os (WriteAll t (encode_utf8 content))) (done_or_io (u ''Cannot write temporary file'') t)) (\<lambda>_. rest))"
    by (simp add: write_temporary_def rest_def first_def)
  have first: "staged.keeps t fs first"
    unfolding first_def by (intro staged.keeps_rules staged_act) (auto intro: staged.keeps_pure split: option.splits)
  have rest: "staged.keeps t fs rest" "files.keeps fs rest"
    unfolding rest_def set_compatible_permissions_def
    by (intro staged.keeps_rules files.keeps_rules staged_act files_act keeps_check_target; blast)+
  have "staged.keeps t fs (write_temporary os tools core requested p t content ex expected)"
    unfolding eq by (intro staged.keeps_rules first rest staged_act) blast
  moreover have "replay fs log' t = Some (encode_utf8 content)" if "r = Inr ()"
    using assms that rest(2) unfolding eq
    by (elim bindE) (auto simp: op_defs Let_def replay_snoc files.keeps_def split: option.splits)
  ultimately show ?thesis using assms staged.keepsD by blast
qed

section \<open>The atomic write\<close>

definition temporaries :: "Os \<Rightarrow> Path set" where
  "temporaries os = {temporary_at os d q n | d q n. parent q = Some d}"

lemma temporary_not_target:
  assumes "parent p = Some d"
  shows "temporary_at os d p n \<noteq> p"
proof (cases p rule: rev_cases)
  case Nil
  then show ?thesis using assms by (simp add: parent_def)
next
  case (snoc q c)
  then have d: "d = q" using assms by (auto simp: parent_def split: Component.splits)
  have "length (temporary_name pid uuid name) \<noteq> length name" for pid uuid name by (simp add: temporary_name_def u_def)
  then have "temporary_name pid uuid name \<noteq> name" for pid uuid name by metis
  then show ?thesis
    by (auto simp: temporary_at_def path_join_def is_absolute_def snoc d file_name_def split: Component.splits option.splits)
qed

lemma publish_temporary_effect:
  assumes "publish_temporary os requested t p exclusive log = (r, log')" and "t \<noteq> p"
  obtains (published) e where "r = Inr ()" "published_events log' = published_events log @ [e]"
      "replay fs log' = (replay fs log)(p := replay fs log t, t := None)"
  | (refused) e where "r = Inl e" "outside t fs log' = outside t fs log"
  | (leftover) k where "r = Inl (io_path (u ''Cannot remove temporary file'') t k)"
      "replay fs log' = (replay fs log)(p := replay fs log t)"
  using assms
  by (auto simp: publish_temporary_def bind_def act_def Let_def done_or_io_def return_def fail_def replay_snoc published_snoc
      outside_def split: option.splits if_splits prod.splits sum.splits)

text \<open>What a write did, by its outcome.\<close>

definition committed :: "files \<Rightarrow> Path \<Rightarrow> Path \<Rightarrow> bytes \<Rightarrow> FilesystemError + unit \<Rightarrow> Event list \<Rightarrow> Event list \<Rightarrow> bool" where
  "committed fs t p bs r log log' =
     (case r of
        Inr _ \<Rightarrow> replay fs log' = (replay fs log)(p \<mapsto> bs, t := None)
      | Inl e \<Rightarrow>
          outside t fs log' = outside t fs log \<or>
          (\<forall>m. e \<noteq> Stale m) \<and> (replay fs log')(t := None) = (replay fs log)(p \<mapsto> bs, t := None))"

lemma or_cleanup_effect:
  assumes "or_cleanup os t m log = (r, log')"
  obtains (ok) x where "r = Inr x" "m log = (Inr x, log')"
  | (failed) e log1 where "r = Inl e" "m log = (Inl e, log1)" "outside t fs log' = outside t fs log1"
proof (cases "m log")
  case (Pair q log1)
  show ?thesis
  proof (cases q)
    case (Inl e)
    have "outside t fs log' = outside t fs log1"
      by (rule staged.keepsD [of t fs "bind (act os (RemoveTemporary t)) (\<lambda>_. fail e)"])
        (use assms in \<open>auto simp: or_cleanup_def Pair Inl intro!: staged.keeps_rules staged_act\<close>)
    then show ?thesis using assms Pair Inl failed by (auto simp: or_cleanup_def bind_def act_def fail_def Let_def)
  qed (use assms Pair ok in \<open>auto simp: or_cleanup_def\<close>)
qed

lemma replace_target_effect:
  assumes "or_cleanup os t (bind (write_temporary os tools core requested p t content ex expected)
      (\<lambda>_. publish_temporary os requested t p exclusive)) log = (r, log')" and "t \<noteq> p"
  shows "committed fs t p (encode_utf8 content) r log log'"
  using assms(1)
proof (cases rule: or_cleanup_effect [where fs = fs])
  case (ok x)
  then obtain log1 where w: "write_temporary os tools core requested p t content ex expected log = (Inr (), log1)"
    and p: "publish_temporary os requested t p exclusive log1 = (Inr x, log')"
    by (auto elim: bindE)
  have out: "(replay fs log1)(t := None) = (replay fs log)(t := None)" "replay fs log1 t = Some (encode_utf8 content)"
    using write_temporary_effect [OF w, of fs] by (auto simp: outside_def)
  have "replay fs log' = (replay fs log1)(p := replay fs log1 t, t := None)"
    using p assms(2) by (cases rule: publish_temporary_effect [where fs = fs]) auto
  then have "replay fs log' = (replay fs log)(p \<mapsto> encode_utf8 content, t := None)"
    using out assms(2) by (metis fun_upd_twist)
  then show ?thesis using ok(1) by (simp add: committed_def)
next
  case (failed e log1)
  from failed(2) show ?thesis
  proof (cases rule: bindE)
    case (1 e')
    then show ?thesis using failed write_temporary_effect [OF 1(1)] by (auto simp: committed_def)
  next
    case (2 x log2)
    have out: "outside t fs log2 = outside t fs log" "replay fs log2 t = Some (encode_utf8 content)"
      using write_temporary_effect [OF 2(1)] by auto
    show ?thesis using 2(2) assms(2)
    proof (cases rule: publish_temporary_effect [where fs = fs])
      case (leftover k)
      have "(replay fs log')(t := None) = (replay fs log1)(t := None)" "(replay fs log2)(t := None) = (replay fs log)(t := None)"
        using failed(3) out(1) by (auto simp: outside_def)
      then have "(replay fs log')(t := None) = (replay fs log)(p \<mapsto> encode_utf8 content, t := None)"
        using leftover(2) out(2) assms(2) by (metis fun_upd_twist)
      then show ?thesis using failed(1) leftover(1) by (simp add: committed_def io_path_def)
    qed (use failed out in \<open>auto simp: committed_def\<close>)
  qed
qed

lemma still_make_dirs:
  assumes "bind (act os (CreateDirAll d)) (done_or_io a q) log = (r, log')"
  shows "still log log'"
  using assms
  by (auto simp: still_def bind_def act_def Let_def done_or_io_def return_def fail_def split: option.splits)

definition settled :: "('e, 'a) op \<Rightarrow> bool" where
  "settled m \<longleftrightarrow> (\<forall>log r log'. m log = (r, log') \<longrightarrow> still log log')"

lemma settled_poll: "settled (poll os)" and settled_stat: "settled (stat os p)"
  using still_poll still_stat unfolding settled_def by blast+

lemma still_bindE:
  assumes "bind m f log = (r, log')" and "settled m"
  obtains (stopped) e where "r = Inl e" "still log log'" "m log = (Inl e, log')"
  | (on) x log1 where "still log log1" "m log = (Inr x, log1)" "f x log1 = (r, log')"
  using assms unfolding settled_def by (metis bindE)

lemma committed_still:
  "still log log1 \<Longrightarrow> committed fs t p bs r log1 log' = committed fs t p bs r log log'"
  by (simp add: committed_def outside_def still_def split: sum.splits)

text \<open>
  A write publishes through a temporary file of its own, or stops before it has one.
\<close>

lemma commit_write_effect:
  assumes "commit_write os tools core requested p content exclusive expected log = (r, log')"
  obtains (stopped) e where "r = Inl e" "still log log'"
  | (replaced) t where "t \<in> temporaries os" "t \<noteq> p" "\<And>fs. committed fs t p (encode_utf8 content) r log log'"
proof -
  let ?make = "\<lambda>d. if expected = None
           then bind (act os (CreateDirAll d)) (done_or_io (u ''Cannot create directory'') d) else return ()"
  have settled_make: "settled (?make d)" for d
    using still_make_dirs by (auto simp: settled_def return_def still_def)
  from assms [unfolded commit_write_def] settled_poll show ?thesis
  proof (cases rule: still_bindE)
    case poll: (on x log1)
    show ?thesis
    proof (cases "parent p")
      case None
      then show ?thesis using poll stopped by (auto simp: fail_def)
    next
      case (Some d)
      from poll(3) [unfolded Some option.case] settled_make show ?thesis
      proof (cases rule: still_bindE)
        case dirs: (on y log2)
        from dirs(3) settled_poll show ?thesis
        proof (cases rule: still_bindE)
          case again: (on z log3)
          from again(3) settled_stat show ?thesis
          proof (cases rule: still_bindE)
            case seen: (on w log4)
            have s: "still log log4"
              using poll(1) dirs(1) again(1) seen(1) still_trans by blast
            let ?t = "temporary_at os d p (length log4)"
            have "?t \<in> temporaries os" "?t \<noteq> p" using Some temporary_not_target by (auto simp: temporaries_def)
            moreover have "committed fs ?t p (encode_utf8 content) r log log'" for fs
              using replace_target_effect [OF _ \<open>?t \<noteq> p\<close>] seen(3) by (simp add: committed_still [OF s, symmetric] Let_def)
            ultimately show ?thesis by (rule replaced)
          qed (use stopped poll dirs again still_trans in blast)
        qed (use stopped poll dirs still_trans in blast)
      qed (use stopped poll still_trans in blast)
    qed
  qed (use stopped in blast)
qed

section \<open>Publishing a patch\<close>

text \<open>Equal but for temporary files.\<close>

definition agree :: "Os \<Rightarrow> files \<Rightarrow> files \<Rightarrow> bool" where
  "agree os fs fs' \<longleftrightarrow> (\<forall>q. q \<notin> temporaries os \<longrightarrow> fs q = fs' q)"

lemma agree_refl [simp]: "agree os fs fs"
  by (simp add: agree_def)

lemma agree_trans: "agree os a b \<Longrightarrow> agree os b c \<Longrightarrow> agree os a c"
  by (simp add: agree_def)

lemma agree_upd: "agree os a b \<Longrightarrow> agree os (a(p := v)) (b(p := v))"
  by (simp add: agree_def)

lemma agree_temporary: "t \<in> temporaries os \<Longrightarrow> a(t := None) = b(t := None) \<Longrightarrow> agree os a b"
  by (metis agree_def fun_upd_other)

lemma agree_change: "agree os a b \<Longrightarrow> agree os (change_files c a) (change_files c b)"
  by (simp add: change_files_def agree_upd split: PlannedChangeType.splits)

text \<open>A change of which only the first half took place: a move that left its source.\<close>

definition half :: "PlannedChange \<Rightarrow> files \<Rightarrow> files" where
  "half c fs =
     (case pc_change_type c of
        Delete \<Rightarrow> fs
      | Move \<Rightarrow> fs(the (pc_move_path c) \<mapsto> encode_utf8 (pc_new_content c))
      | _ \<Rightarrow> fs(pc_file_path c \<mapsto> encode_utf8 (pc_new_content c)))"

lemma agree_half: "agree os a b \<Longrightarrow> agree os (half c a) (half c b)"
  by (simp add: half_def agree_upd split: PlannedChangeType.splits)

lemma commit_write_agrees:
  assumes "commit_write os tools core requested p content exclusive expected log = (r, log')"
  shows "case r of
      Inr _ \<Rightarrow> agree os (replay fs log') ((replay fs log)(p \<mapsto> encode_utf8 content))
    | Inl e \<Rightarrow> published_events log' = published_events log \<and> agree os (replay fs log') (replay fs log) \<or>
        (\<forall>m. e \<noteq> Stale m) \<and> agree os (replay fs log') ((replay fs log)(p \<mapsto> encode_utf8 content))"
  using assms
proof (cases rule: commit_write_effect)
  case (stopped e)
  then show ?thesis by (simp add: still_def)
next
  case (replaced t)
  show ?thesis
  proof (cases r)
    case (Inr x)
    then show ?thesis using replaced(1,2) replaced(3) [of fs] by (auto simp: committed_def agree_def)
  next
    case (Inl e)
    then show ?thesis using replaced(1) replaced(3) [of fs]
      by (auto simp: committed_def outside_def intro: agree_temporary)
  qed
qed

text \<open>What a change did, by its outcome.\<close>

definition change_outcome :: "Os \<Rightarrow> files \<Rightarrow> PlannedChange \<Rightarrow> (Failure \<times> bool) + unit \<Rightarrow> Event list \<Rightarrow> Event list \<Rightarrow> bool" where
  "change_outcome os fs c r log log' =
     (case r of
        Inr _ \<Rightarrow> agree os (replay fs log') (change_files c (replay fs log))
      | Inl (f, pub) \<Rightarrow>
          published_events log' = published_events log \<and> agree os (replay fs log') (replay fs log) \<or>
          (pub \<or> (\<forall>m. f \<noteq> Refused (Stale m))) \<and> agree os (replay fs log') (half c (replay fs log)))"

lemma change_outcome_still: "still log log1 \<Longrightarrow> change_outcome os fs c r log1 log' = change_outcome os fs c r log log'"
  by (simp add: change_outcome_def still_def split: sum.splits prod.splits)

lemma change_outcome_stopped: "still log log' \<Longrightarrow> change_outcome os fs c (Inl f) log log'"
  by (simp add: change_outcome_def still_def split: prod.splits)

lemma settled_refused: "settled m \<Longrightarrow> settled (refused published m)"
  unfolding settled_def refused_def by (metis map_errE)

lemma settled_map_err: "settled m \<Longrightarrow> settled (map_err h m)"
  unfolding settled_def by (metis map_errE)

lemma settled_validate_path: "settled (validate_prepared_path os tools core req p)"
  using still_validate_path unfolding settled_def by blast

lemma settled_validate_source: "settled (validate_source os tools core published c)"
  unfolding validate_source_def
  by (cases "pc_expected_source c")
    (auto simp: settled_def fail_def still_def refused_def dest!: still_validate_snapshot [unfolded still_def] elim!: map_errE)

lemmas settled_rules = settled_refused settled_map_err settled_poll settled_validate_path settled_validate_source

lemma remove_outcome:
  assumes "refused published (bind (act os (RemoveFile p)) (done_or_io a p)) log = (r, log')"
  obtains "r = Inr ()" "\<And>fs. replay fs log' = (replay fs log)(p := None)" | e pub where "r = Inl (e, pub)" "still log log'"
  using assms
  by (auto simp: refused_def map_err_def bind_def act_def Let_def done_or_io_def return_def fail_def still_def split: option.splits)

lemma commit_outcome:
  assumes "refused published (commit_write os tools core requested p content exclusive expected) log = (r, log')"
    and "\<And>fs. half c fs = fs(p \<mapsto> encode_utf8 content)" and "\<And>fs. change_files c fs = fs(p \<mapsto> encode_utf8 content)"
  shows "change_outcome os fs c r log log'"
  using assms(1) unfolding refused_def
proof (cases rule: map_errE)
  case (1 e)
  then show ?thesis using commit_write_agrees [OF 1(1), of fs] by (auto simp: change_outcome_def assms(2))
next
  case (2 x)
  then show ?thesis using commit_write_agrees [OF 2(1), of fs] by (simp add: change_outcome_def assms(3))
qed

lemma refused_flag: "refused published m log = (Inl (f, pub), log') \<Longrightarrow> pub = published"
  by (auto simp: refused_def elim: map_errE)

lemma validate_source_flag: "validate_source os tools core published c log = (Inl (f, pub), log') \<Longrightarrow> pub = published"
  by (auto simp: validate_source_def fail_def dest: refused_flag split: option.splits)

lemma finish_move_effect:
  assumes "finish_move os tools core c log = (r, log')"
  obtains "r = Inr ()" "\<And>fs. replay fs log' = (replay fs log)(pc_file_path c := None)"
  | f where "r = Inl (f, True)" "still log log'"
proof -
  let ?check = "refused True (map_err (\<lambda>_. publication_stale (pc_requested_path c))
       (validate_prepared_path os tools core (pc_requested_path c) (pc_file_path c)))"
  have check: "settled ?check" by (intro settled_rules)
  from assms [unfolded finish_move_def] settled_validate_source show ?thesis
  proof (cases rule: still_bindE)
    case (stopped e)
    then show ?thesis using that(2) validate_source_flag by (cases e) blast
  next
    case valid: (on x log1)
    from valid(3) check show ?thesis
    proof (cases rule: still_bindE)
      case (stopped e)
      then show ?thesis using that(2) refused_flag still_trans [OF valid(1)] by (cases e) blast
    next
      case on: (on y log2)
      have s: "still log log2" using valid(1) on(1) by (rule still_trans)
      from on(3) show ?thesis
      proof (cases rule: remove_outcome)
        case 1
        then show ?thesis using that(1) s by (simp add: still_def)
      next
        case (2 e pub)
        then show ?thesis using that(2) on(3) refused_flag still_trans [OF s] by blast
      qed
    qed
  qed
qed

lemma publish_change_outcome:
  assumes "publish_change os tools core published c log = (r, log')"
  shows "change_outcome os fs c r log log'"
proof -
  let ?check = "refused published (map_err (\<lambda>_. publication_stale (pc_requested_path c))
       (validate_prepared_path os tools core (pc_requested_path c) (pc_file_path c)))"
  have check: "settled ?check" "settled (refused published (poll os))" by (intro settled_rules)+
  from assms [unfolded publish_change_def] check(2) show ?thesis
  proof (cases rule: still_bindE)
    case (stopped e)
    then show ?thesis by (simp add: change_outcome_stopped)
  next
    case poll: (on x log1)
    from poll(3) check(1) show ?thesis
    proof (cases rule: still_bindE)
      case (stopped e)
      then show ?thesis using poll(1) still_trans by (blast intro: change_outcome_stopped)
    next
      case on: (on y log2)
      have s: "still log log2" using poll(1) on(1) still_trans by blast
      have "change_outcome os fs c r log2 log'"
      proof (cases "pc_change_type c")
        case Delete
        from on(3) [unfolded Delete PlannedChangeType.case] settled_validate_source show ?thesis
        proof (cases rule: still_bindE)
          case (on z log3)
          from on(3) show ?thesis
            using on(1) by (cases rule: remove_outcome)
              (auto simp: change_outcome_def change_files_def Delete still_def)
        qed (simp add: change_outcome_stopped)
      next
        case Move
        show ?thesis
        proof (cases "pc_move_path c = None \<or> pc_requested_move_path c = None")
          case True
          then show ?thesis using on(3) Move
            by (auto simp: fail_def still_def intro!: change_outcome_stopped split: option.splits)
        next
          case False
          then obtain m q where mq: "pc_move_path c = Some m" "pc_requested_move_path c = Some q" by auto
          from on(3) have "bind (validate_source os tools core published c) (\<lambda>_. bind (refused published
              (commit_write os tools core q m (pc_new_content c) True None)) (\<lambda>_. finish_move os tools core c)) log2 = (r, log')"
            by (simp add: Move mq)
          from this settled_validate_source show ?thesis
          proof (cases rule: still_bindE)
            case valid: (on z log3)
            from valid(3) show ?thesis
            proof (cases rule: bindE)
              case (1 e)
              then have "refused published (commit_write os tools core q m (pc_new_content c) True None) log3 = (r, log')"
                by simp
              then show ?thesis using 1 valid(1) commit_write_agrees [where fs = fs]
                by (fastforce simp: refused_def change_outcome_def half_def Move mq still_def elim!: map_errE)
            next
              case (2 w log4)
              then have written: "agree os (replay fs log4) (half c (replay fs log2))"
                using valid(1) commit_write_agrees [where fs = fs]
                by (fastforce simp: refused_def half_def Move mq still_def elim!: map_errE)
              from 2(2) show ?thesis
              proof (cases rule: finish_move_effect)
                case 1
                then show ?thesis using agree_upd [OF written, of "pc_file_path c" None]
                  by (simp add: change_outcome_def change_files_def half_def Move mq)
              next
                case (2 f)
                then show ?thesis using written by (simp add: change_outcome_def still_def)
              qed
            qed
          qed (simp add: change_outcome_stopped)
        qed
      qed (use on(3) in \<open>auto intro!: commit_outcome simp: half_def change_files_def\<close>)
      then show ?thesis by (simp add: change_outcome_still [OF s])
    qed
  qed
qed

lemma finish_move_flag: "finish_move os tools core c log = (Inl (f, pub), log') \<Longrightarrow> pub"
  by (auto elim: finish_move_effect)

lemma publish_change_flag:
  assumes "publish_change os tools core published c log = (Inl (f, pub), log')"
  shows "pub = published \<or> pub"
  using assms unfolding publish_change_def
  by (elim bindE)
    (auto elim!: bindE simp: fail_def dest: refused_flag validate_source_flag finish_move_flag
      split: PlannedChangeType.splits option.splits)

text \<open>The changes that were published, seen from a refusal.\<close>

definition stopped_at :: "Os \<Rightarrow> PlannedChange list \<Rightarrow> files \<Rightarrow> files \<Rightarrow> bool" where
  "stopped_at os changes fs fs' \<longleftrightarrow>
     (\<exists>k<length changes. agree os fs' (fold change_files (take k changes) fs) \<or>
        agree os fs' (half (changes ! k) (fold change_files (take k changes) fs)))"

lemma agree_fold: "agree os a b \<Longrightarrow> agree os (fold change_files cs a) (fold change_files cs b)"
  by (induction cs arbitrary: a b) (auto dest: agree_change)

lemma stopped_at_Cons:
  assumes "stopped_at os cs fs1 fs'" and "agree os fs1 (change_files c fs)"
  shows "stopped_at os (c # cs) fs fs'"
proof -
  obtain k where k: "k < length cs" "agree os fs' (fold change_files (take k cs) fs1) \<or>
      agree os fs' (half (cs ! k) (fold change_files (take k cs) fs1))"
    using assms(1) by (auto simp: stopped_at_def)
  have "agree os (fold change_files (take k cs) fs1) (fold change_files (take (Suc k) (c # cs)) fs)"
    using agree_fold [OF assms(2)] by simp
  then have "agree os fs' (fold change_files (take (Suc k) (c # cs)) fs) \<or>
      agree os fs' (half ((c # cs) ! Suc k) (fold change_files (take (Suc k) (c # cs)) fs))"
    using k(2) agree_trans agree_half by (metis nth_Cons_Suc)
  then show ?thesis using k(1) unfolding stopped_at_def by (metis Suc_less_eq length_Cons)
qed

lemma publish_from_outcome:
  "publish_from os tools core published cs log = (r, log') \<Longrightarrow>
   case r of Inr _ \<Rightarrow> agree os (replay fs log') (fold change_files cs (replay fs log))
   | Inl _ \<Rightarrow> stopped_at os cs (replay fs log) (replay fs log')"
proof (induction cs arbitrary: published log)
  case Nil
  then show ?case by auto
next
  case (Cons c cs)
  obtain q log1 where q: "publish_change os tools core published c log = (q, log1)" by fastforce
  have out: "change_outcome os fs c q log log1" by (rule publish_change_outcome [OF q])
  show ?case
  proof (cases q)
    case (Inl e)
    obtain f pub where e: "e = (f, pub)" by fastforce
    have "stopped_at os (c # cs) (replay fs log) (replay fs log1)"
      using out by (auto simp: Inl e change_outcome_def stopped_at_def intro!: exI [of _ 0])
    then show ?thesis using Cons.prems by (auto simp: q Inl e split: Failure.splits)
  next
    case (Inr x)
    have a: "agree os (replay fs log1) (change_files c (replay fs log))" using out by (simp add: Inr change_outcome_def)
    have "publish_from os tools core True cs log1 = (r, log')" using Cons.prems by (simp add: q Inr)
    from Cons.IH [OF this] show ?thesis
      using agree_fold [OF a] agree_trans stopped_at_Cons [OF _ a] by (cases r) auto
  qed
qed


lemma publish_from_stale:
  "publish_from os tools core True cs log = (r, log') \<Longrightarrow> r \<noteq> Inl (Refused (Stale m))"
proof (induction cs arbitrary: log)
  case (Cons c cs)
  then show ?case
    using publish_change_flag [of os tools core True c log]
    by (auto simp: after_publication_def split: prod.splits sum.splits Failure.splits if_splits FilesystemError.splits)
qed auto

text \<open>The file a change creates, if it does: its directories are made before anything is checked.\<close>

definition fresh_target :: "PlannedChange \<Rightarrow> Path option" where
  "fresh_target c =
     (case pc_change_type c of
        Delete \<Rightarrow> None
      | Move \<Rightarrow> pc_move_path c
      | _ \<Rightarrow> if pc_expected_source c = None then Some (pc_file_path c) else None)"

definition directories_for :: "Path option \<Rightarrow> Event list \<Rightarrow> Event list \<Rightarrow> bool" where
  "directories_for target log log' \<longleftrightarrow>
     directory_events log' = directory_events log \<or>
     (\<exists>p d k. target = Some p \<and> parent p = Some d \<and> directory_events log' = directory_events log @ [Did (CreateDirAll d) k])"

lemma directories_act: "(\<And>d. a \<noteq> CreateDirAll d) \<Longrightarrow> directories.keeps (act os a)"
  by (cases a) (auto simp: directories.keeps_def act_def Let_def directory_events_def)

lemma directories_check_target: "directories.keeps (check_target os tools core requested p expected)"
  unfolding check_target_def
  by (cases expected) (auto intro!: directories.keeps_rules directories.keeps_validate_path directories.keeps_validate_snapshot)

lemma directories_write: "directories.keeps (write_temporary os tools core requested p t content ex expected)"
  unfolding write_temporary_def set_compatible_permissions_def
  by (auto intro!: directories.keeps_rules directories_act directories_check_target split: option.splits)

lemma directories_publish: "directories.keeps (publish_temporary os requested t p exclusive)"
  unfolding publish_temporary_def by (auto intro!: directories.keeps_rules directories_act split: option.splits)

lemma directories_cleanup: "directories.keeps m \<Longrightarrow> directories.keeps (or_cleanup os t m)"
  using directories.keepsD [OF directories.keeps_bind [OF directories_act [of "RemoveTemporary t" os] directories.keeps_pure(2)]]
  unfolding directories.keeps_def or_cleanup_def by (fastforce split: prod.splits sum.splits)

lemma commit_write_directories:
  assumes "commit_write os tools core requested p content exclusive expected log = (r, log')"
  shows "directories_for (if expected = None then Some p else None) log log'"
proof (cases "parent p")
  case None
  then have "directories.keeps (commit_write os tools core requested p content exclusive expected)"
    unfolding commit_write_def by (auto intro!: directories.keeps_rules)
  from directories.keepsD [OF this assms] show ?thesis by (simp add: directories_for_def)
next
  case (Some d)
  let ?rest = "bind (poll os) (\<lambda>_. bind (stat os p) (\<lambda>existing.
     (\<lambda>log. let temporary = temporary_at os d p (length log)
            in or_cleanup os temporary
                 (bind (write_temporary os tools core requested p temporary content
                          (case existing of Inr m \<Rightarrow> Some m | Inl _ \<Rightarrow> None) expected) (\<lambda>_.
                  publish_temporary os requested temporary p exclusive)) log)))"
  have rest: "directories.keeps ?rest"
    using directories.keepsD [OF directories_cleanup [OF directories.keeps_bind [OF directories_write directories_publish]]]
    by (intro directories.keeps_rules) (auto simp: directories.keeps_def Let_def)
  let ?make = "if expected = None then bind (act os (CreateDirAll d)) (done_or_io (u ''Cannot create directory'') d) else return ()"
  have run: "bind (poll os) (\<lambda>_. bind ?make (\<lambda>_. ?rest)) log = (r, log')"
    using assms by (simp add: commit_write_def Some)
  show ?thesis
  proof (cases "expected = None")
    case False
    then have "directories.keeps ?make" by (auto intro: directories.keeps_pure)
    from directories.keeps_bind [OF this rest]
    have "directories.keeps (bind (poll os) (\<lambda>_. bind ?make (\<lambda>_. ?rest)))"
      by (rule directories.keeps_bind [OF directories.keeps_calls(1)])
    from directories.keepsD [OF this run] show ?thesis by (simp add: directories_for_def)
  next
    case True
    from run show ?thesis
    proof (cases rule: bindE)
      case (1 e)
      then show ?thesis using directories.keepsD [OF directories.keeps_calls(1)] by (simp add: directories_for_def)
    next
      case (2 x log1)
      have l1: "directory_events log1 = directory_events log" by (rule directories.keepsD [OF directories.keeps_calls(1) 2(1)])
      from 2(2) obtain k where "directory_events log' = directory_events log1 @ [Did (CreateDirAll d) k]"
      proof (cases rule: bindE)
        case (1 e)
        then show ?thesis using True that
          by (auto simp: bind_def act_def Let_def done_or_io_def return_def fail_def directory_events_def split: option.splits)
      next
        case (2 y log2)
        have "directory_events log' = directory_events log2" by (rule directories.keepsD [OF rest 2(2)])
        then show ?thesis using 2(1) True that
          by (auto simp: bind_def act_def Let_def done_or_io_def return_def fail_def directory_events_def split: option.splits)
      qed
      then show ?thesis using l1 True Some by (auto simp: directories_for_def)
    qed
  qed
qed

lemma directories_source: "directories.keeps (validate_source os tools core published c)"
  unfolding validate_source_def refused_def
  by (auto intro!: directories.keeps_rules directories.keeps_validate_snapshot split: option.splits)

lemma directories_finish_move: "directories.keeps (finish_move os tools core c)"
  unfolding finish_move_def refused_def
  by (intro directories.keeps_rules directories_source directories.keeps_validate_path directories_act) auto

lemma directories_around:
  assumes "bind m f log = (r, log')" and "directories.keeps m" and "\<And>x log1. f x log1 = (r, log') \<Longrightarrow> directories_for target log1 log'"
  shows "directories_for target log log'"
  using assms(1)
proof (cases rule: bindE)
  case (1 e)
  then show ?thesis using directories.keepsD [OF assms(2) 1(1)] by (simp add: directories_for_def)
next
  case (2 x log1)
  then show ?thesis using directories.keepsD [OF assms(2) 2(1)] assms(3) [OF 2(2)] by (simp add: directories_for_def)
qed

lemma commit_refused_directories:
  assumes "bind (refused published (commit_write os tools core requested p content exclusive expected)) f log = (r, log')"
    and "\<And>x. directories.keeps (f x)"
  shows "directories_for (if expected = None then Some p else None) log log'"
  using assms(1) unfolding refused_def
  by (elim bindE map_errE)
    (use commit_write_directories directories.keepsD [OF assms(2)] in \<open>fastforce simp: directories_for_def\<close>)+

lemma bind_return: "bind m return = m"
  by (auto simp: bind_def return_def fun_eq_iff split: prod.splits sum.splits)

lemma refused_directories:
  assumes "refused published (commit_write os tools core requested p content exclusive expected) log = (r, log')"
  shows "directories_for (if expected = None then Some p else None) log log'"
  by (rule commit_refused_directories [where f = return, unfolded bind_return, OF assms directories.keeps_pure(1)])

lemma publish_change_directories:
  assumes "publish_change os tools core published c log = (r, log')"
  shows "directories_for (fresh_target c) log log'"
  using assms unfolding publish_change_def
proof (rule directories_around, goal_cases)
  case 1
  show ?case unfolding refused_def by (intro directories.keeps_rules)
next
  case (2 x log1)
  from 2 show ?case
  proof (rule directories_around, goal_cases)
    case 1
    show ?case unfolding refused_def by (intro directories.keeps_rules directories.keeps_validate_path)
  next
    case (2 y log2)
    note run = 2
    show ?case
    proof (cases "pc_change_type c")
      case Delete
      have "directories.keeps (bind (validate_source os tools core published c) (\<lambda>_. refused published
          (bind (act os (RemoveFile (pc_file_path c))) (done_or_io (u ''Cannot delete'') (pc_file_path c)))))"
        unfolding refused_def by (intro directories.keeps_rules directories_source directories_act) auto
      from directories.keepsD [OF this] run show ?thesis unfolding directories_for_def Delete PlannedChangeType.case by blast
    next
      case Move
      show ?thesis
      proof (cases "pc_move_path c = None \<or> pc_requested_move_path c = None")
        case True
        then show ?thesis using run Move by (auto simp: fail_def directories_for_def split: option.splits)
      next
        case False
        then obtain m q where mq: "pc_move_path c = Some m" "pc_requested_move_path c = Some q" by auto
        have "bind (validate_source os tools core published c) (\<lambda>_. bind (refused published
            (commit_write os tools core q m (pc_new_content c) True None)) (\<lambda>_. finish_move os tools core c)) log2 = (r, log')"
          using run by (simp add: Move mq)
        then show ?thesis
          by (rule directories_around [OF _ directories_source])
            (use commit_refused_directories [OF _ directories_finish_move] in \<open>fastforce simp: fresh_target_def Move mq\<close>)
      qed
    qed (use run in \<open>auto simp: fresh_target_def dest: refused_directories\<close>)
  qed
qed


section \<open>A concrete run\<close>

text \<open>A tree where every action succeeds, but for links when \<open>taken\<close>; the file \<open>/w/new\<close> does not exist.\<close>

definition demo_os :: "bool \<Rightarrow> Os" where
  "demo_os taken = \<lparr>os_cancelled = (\<lambda>_. False), os_realpath = (\<lambda>_. demo_canon), os_stat = (\<lambda>_ _. Inl IoNotFound),
     os_lstat = (\<lambda>_ _. False), os_open = (\<lambda>_ _. Some IoNotFound), os_read = (\<lambda>_ _. Inl IoNotFound),
     os_act = (\<lambda>_ a. case a of HardLink _ _ \<Rightarrow> if taken then Some IoAlreadyExists else None | _ \<Rightarrow> None),
     os_pid = 7, os_uuid = (\<lambda>_. u ''id'')\<rparr>"

definition demo_tools :: Tools where
  "demo_tools = \<lparr>t_lower = to_ascii_lowercase, t_sha = id, t_format = (\<lambda>_. \<lparr>format_name = u ''Empty'', media_type = []\<rparr>)\<rparr>"

definition demo_core :: FilesystemCore where
  "demo_core = \<lparr>core_policy = demo_policy, core_allow_write = True, core_limits = default_limits\<rparr>"

definition demo_add :: PlannedChange where
  "demo_add = \<lparr>pc_requested_path = u ''new'', pc_file_path = components (u ''/w/new''), pc_new_content = u ''hi'',
     pc_change_type = Add, pc_move_path = None, pc_requested_move_path = None,
     pc_diff = \<lparr>fd_file = [], fd_relative_path = [], fd_patch = [], additions = 1, deletions = 0, fd_truncated = False\<rparr>,
     pc_expected_source = None\<rparr>"

lemma demo_resolve: "resolve to_ascii_lowercase demo_canon demo_policy (u ''new'') = Inr (components (u ''/w/new''))"
  by (simp add: resolve_def resolve_existing.simps demo_path_defs)

lemma demo_parent: "parent (components (u ''/w/new'')) = Some (components (u ''/w''))"
  by (simp add: demo_path_defs)

lemma demo_publish:
  obtains log where "publish_patch (demo_os taken) demo_tools demo_core [demo_add] [] =
    (if taken then Inl (Refused (publication_stale (u ''new''))) else Inr (), log)"
proof
  show "publish_patch (demo_os taken) demo_tools demo_core [demo_add] [] =
    (if taken then Inl (Refused (publication_stale (u ''new''))) else Inr (),
     snd (publish_patch (demo_os taken) demo_tools demo_core [demo_add] []))"
    by (simp add: publish_patch_def publish_change_def refused_def map_err_def bind_def poll_def validate_prepared_path_def
        resolve_path_def commit_write_def demo_add_def demo_resolve demo_parent act_def done_or_io_def return_def fail_def
        stat_def lstat_def or_cleanup_def write_temporary_def set_compatible_permissions_def check_target_def
        publish_temporary_def demo_os_def demo_tools_def demo_core_def Let_def)
qed



end
