(* ===== verification/File_Fit.thy ===== *)
theory File_Fit
  imports File_Base
begin

text \<open>
  Cutting a result to a size. The file tools shorten a result that is too large for the protocol by
  searching the largest allowance that still fits; the same loop stands in \<open>fit\<close> of
  \<open>mutation_operations/patch.rs\<close> and in \<open>fit_search_result\<close> and \<open>fit_index_output\<close> of \<open>group.rs\<close>
  (\<open>crates/mcp-files/src\<close>). \<open>fits\<close> measures one candidate, which may fail.
\<close>

function bisect :: "(nat \<Rightarrow> 'e + bool) \<Rightarrow> nat \<Rightarrow> nat \<Rightarrow> 'e + nat" where
  "bisect fits lower upper =
     (if lower < upper
      then let candidate = lower + (upper - lower + 1) div 2
           in case fits candidate of
                Inl e \<Rightarrow> Inl e
              | Inr ok \<Rightarrow> if ok then bisect fits candidate upper else bisect fits lower (candidate - 1)
      else Inr lower)"
  by pat_completeness auto
termination
  by (relation "measure (\<lambda>(_, lower, upper). upper - lower)") auto

declare bisect.simps [simp del]

lemma bisect_total: "(\<And>n. \<exists>b. fits n = Inr b) \<Longrightarrow> \<exists>n. bisect fits lower upper = Inr n"
proof (induction fits lower upper rule: bisect.induct)
  case (1 fits lower upper)
  obtain b where "fits (lower + (upper - lower + 1) div 2) = Inr b" using "1.prems" by blast
  then show ?case using "1.IH" "1.prems" by (subst bisect.simps) (auto simp: Let_def)
qed

lemma bisect_step:
  assumes "bisect fits lower upper = Inr n" and "lower \<le> upper"
  obtains (stop) "lower = upper" "n = lower"
  | (up) c where "lower < c" "c \<le> upper" "fits c = Inr True" "bisect fits c upper = Inr n"
  | (down) c where "lower < c" "c \<le> upper" "fits c = Inr False" "bisect fits lower (c - 1) = Inr n"
proof (cases "lower < upper")
  case True
  define c where "c = lower + (upper - lower + 1) div 2"
  have "lower < c" "c \<le> upper" using True unfolding c_def by linarith+
  moreover have "fits c = Inr True \<and> bisect fits c upper = Inr n \<or> fits c = Inr False \<and> bisect fits lower (c - 1) = Inr n"
    using assms(1) True
    by (subst (asm) bisect.simps) (auto simp: Let_def c_def split: sum.splits if_splits)
  ultimately show ?thesis using up down by blast
next
  case False
  then have "bisect fits lower upper = Inr lower" by (subst bisect.simps) simp
  then show ?thesis using assms False stop by simp
qed

text \<open>The answer lies in the range and was measured to fit, unless it is the lower end.\<close>

lemma bisect_fits:
  "bisect fits lower upper = Inr n \<Longrightarrow> lower \<le> upper \<Longrightarrow> lower \<le> n \<and> n \<le> upper \<and> (n = lower \<or> fits n = Inr True)"
proof (induction "upper - lower" arbitrary: lower upper rule: less_induct)
  case less
  show ?case using less.prems
  proof (cases rule: bisect_step)
    case (up c)
    then have "upper - c < upper - lower" by linarith
    from less.hyps [OF this up(4,2)] show ?thesis using up(1,3) by auto
  next
    case (down c)
    then have "c - 1 - lower < upper - lower" "lower \<le> c - 1" by linarith+
    from less.hyps [OF this(1) down(4) this(2)] show ?thesis using down(2) by auto
  qed simp
qed

text \<open>When what fits is closed downwards, the answer is the largest that does.\<close>

lemma bisect_largest:
  assumes closed: "\<And>i j. i \<le> j \<Longrightarrow> fits j = Inr True \<Longrightarrow> fits i = Inr True"
  shows "bisect fits lower upper = Inr n \<Longrightarrow> lower \<le> upper \<Longrightarrow> n < j \<Longrightarrow> j \<le> upper \<Longrightarrow> fits j \<noteq> Inr True"
proof (induction "upper - lower" arbitrary: lower upper rule: less_induct)
  case less
  show ?case using less.prems(1,2)
  proof (cases rule: bisect_step)
    case stop
    then show ?thesis using less.prems by simp
  next
    case (up c)
    then have "upper - c < upper - lower" by linarith
    from less.hyps [OF this up(4,2)] show ?thesis using less.prems by blast
  next
    case (down c)
    then have *: "c - 1 - lower < upper - lower" "lower \<le> c - 1" by linarith+
    show ?thesis
    proof (cases "c \<le> j")
      case True
      then show ?thesis using closed down(3) by force
    next
      case False
      then show ?thesis using less.hyps [OF *(1) down(4) *(2)] less.prems(3) by simp
    qed
  qed
qed

text \<open>Without that, one more was measured and does not fit, unless the answer is the upper end.\<close>

lemma bisect_next:
  "bisect fits lower upper = Inr n \<Longrightarrow> lower \<le> upper \<Longrightarrow> n = upper \<or> fits (Suc n) = Inr False"
proof (induction "upper - lower" arbitrary: lower upper rule: less_induct)
  case less
  show ?case using less.prems
  proof (cases rule: bisect_step)
    case (up c)
    then have "upper - c < upper - lower" by linarith
    from less.hyps [OF this up(4,2)] show ?thesis .
  next
    case (down c)
    then have *: "c - 1 - lower < upper - lower" "lower \<le> c - 1" by linarith+
    from less.hyps [OF *(1) down(4) *(2)] show ?thesis using down(1,3) by auto
  qed simp
qed

end
