(* ===== verification/Text_Edit.thy ===== *)
theory Text_Edit
  imports Text_Diff
begin

text \<open>
  String replacement in a file (\<open>crates/mcp-files/src/mutation_operations/edit.rs\<close>): normalising line
  endings, the exact replacement, and the line spans the preview is built from. Offsets count
  characters; the code counts bytes, and uses an offset only to cut the text there or to compare
  it with another one.
\<close>

section \<open>Replacement\<close>

definition line_ending :: "ustr \<Rightarrow> ustr \<Rightarrow> ustr" where
  "line_ending value ending =
     (let normalized = str_replace value [CR, NL] [NL]
      in if ending = [NL] then normalized else str_replace normalized [NL] [CR, NL])"

definition count_newlines :: "ustr \<Rightarrow> nat" where
  "count_newlines s = length (filter (\<lambda>c. c = NL) s)"

definition replace_exact :: "ustr \<Rightarrow> ustr \<Rightarrow> ustr \<Rightarrow> bool \<Rightarrow> FilesystemError + ustr" where
  "replace_exact content old_string new_string replace_all =
     (case find_sub old_string content of
        None \<Rightarrow> Inl (InvalidRequest (u ''Could not find oldString in the file''))
      | Some first \<Rightarrow>
          if replace_all then Inr (str_replace content old_string new_string)
          else if rfind_sub old_string content \<noteq> Some first
          then Inl (InvalidRequest (u ''Found multiple matches for oldString; provide more context or set replaceAll''))
          else Inr (take first content @ new_string @ drop (first + length old_string) content))"

section \<open>Spans\<close>

definition MAX_EDIT_SPANS :: nat where "MAX_EDIT_SPANS = 1024"

record OpenSpan =
  os_from :: nat
  os_to :: nat
  os_last_end :: nat
  os_old_start :: nat
  os_new_newlines :: nat

definition slice :: "nat \<Rightarrow> nat \<Rightarrow> 'a list \<Rightarrow> 'a list" where
  "slice i j s = take (j - i) (drop i s)"

definition close_span :: "ustr \<Rightarrow> OpenSpan \<Rightarrow> int \<Rightarrow> DiffHunk \<times> int" where
  "close_span content span shift =
     (let ol = 1 + count_newlines (slice (os_from span) (os_to span) content);
          nl = 1 + os_new_newlines span + count_newlines (slice (os_last_end span) (os_to span) content)
      in (\<lparr>old_start = os_old_start span, old_len = ol,
           new_start = sat_add_signed (os_old_start span) shift, new_len = nl\<rparr>,
          shift + (int nl - int ol)))"

record SpanScan =
  sc_spans :: "DiffHunk list"
  sc_open :: "OpenSpan option"
  sc_shift :: int
  sc_scanned :: nat
  sc_line :: nat
  sc_line_from :: nat

definition scan_start :: SpanScan where
  "scan_start = \<lparr>sc_spans = [], sc_open = None, sc_shift = 0, sc_scanned = 0, sc_line = 0, sc_line_from = 0\<rparr>"

text \<open>The newlines between the last match and this one: how many, and where the last line starts.\<close>

definition advance_lines :: "ustr \<Rightarrow> nat \<Rightarrow> SpanScan \<Rightarrow> SpanScan" where
  "advance_lines content start s =
     (let offsets = filter (\<lambda>k. content ! k = NL) [sc_scanned s..<start]
      in s\<lparr>sc_line := sc_line s + length offsets,
           sc_line_from := (if offsets = [] then sc_line_from s else last offsets + 1),
           sc_scanned := start\<rparr>)"

definition region_end :: "ustr \<Rightarrow> nat \<Rightarrow> OpenSpan option \<Rightarrow> nat" where
  "region_end content fin op =
     (case op of
        Some current \<Rightarrow>
          if fin \<le> os_to current then os_to current
          else (case find_sub [NL] (drop fin content) of None \<Rightarrow> length content | Some k \<Rightarrow> fin + k)
      | None \<Rightarrow> (case find_sub [NL] (drop fin content) of None \<Rightarrow> length content | Some k \<Rightarrow> fin + k))"

definition span_step :: "ustr \<Rightarrow> ustr \<Rightarrow> nat \<Rightarrow> SpanScan \<Rightarrow> nat \<Rightarrow> SpanScan option" where
  "span_step content old_string replacement_newlines s0 start =
     (let s = advance_lines content start s0;
          fin = start + length old_string;
          re = region_end content fin (sc_open s);
          fresh = \<lparr>os_from = sc_line_from s, os_to = re, os_last_end = fin, os_old_start = sc_line s,
                   os_new_newlines = count_newlines (slice (sc_line_from s) start content) + replacement_newlines\<rparr>
      in case sc_open s of
           Some current \<Rightarrow>
             if sc_line_from s \<le> os_to current
             then Some (s\<lparr>sc_open := Some (current
                    \<lparr>os_new_newlines := os_new_newlines current +
                       (count_newlines (slice (os_last_end current) start content) + replacement_newlines),
                     os_last_end := fin, os_to := max (os_to current) re\<rparr>)\<rparr>)
             else let (h, shift) = close_span content current (sc_shift s);
                      spans = sc_spans s @ [h]
                  in if length spans \<ge> MAX_EDIT_SPANS then None
                     else Some (s\<lparr>sc_spans := spans, sc_shift := shift, sc_open := Some fresh\<rparr>)
         | None \<Rightarrow> Some (s\<lparr>sc_open := Some fresh\<rparr>))"

fun span_steps :: "ustr \<Rightarrow> ustr \<Rightarrow> nat \<Rightarrow> SpanScan \<Rightarrow> nat list \<Rightarrow> SpanScan option" where
  "span_steps content old_string rn s [] = Some s"
| "span_steps content old_string rn s (m # ms) =
     (case span_step content old_string rn s m of None \<Rightarrow> None | Some s' \<Rightarrow> span_steps content old_string rn s' ms)"

definition edit_spans :: "ustr \<Rightarrow> ustr \<Rightarrow> ustr \<Rightarrow> bool \<Rightarrow> DiffHunk list option" where
  "edit_spans content old_string new_string replace_all =
     (let starts = match_indices content old_string;
          starts = (if replace_all then starts else take 1 starts)
      in case span_steps content old_string (count_newlines new_string) scan_start starts of
           None \<Rightarrow> None
         | Some s \<Rightarrow>
             (case sc_open s of
                None \<Rightarrow> None
              | Some current \<Rightarrow> Some (sc_spans s @ [fst (close_span content current (sc_shift s))])))"

section \<open>Preparing an edit\<close>

record FileEditInput =
  edit_file_path :: ustr
  edit_old_string :: ustr
  edit_new_string :: ustr
  edit_replace_all :: "bool option"

record FileEditOutput =
  edit_path :: ustr
  edit_relative_path :: ustr
  edit_applied :: bool
  edit_diff :: FileDiff

text \<open>
  \<open>prepare_edit_bounded\<close> on the content that was read. \<open>retained\<close> is what the allocator holds for the
  old and new content and their line index, a parameter.
\<close>

definition prepare_edit ::
  "(ustr \<Rightarrow> ustr \<Rightarrow> nat) \<Rightarrow> RootPathPolicy \<Rightarrow> FilesystemLimits \<Rightarrow> Path \<Rightarrow> ustr \<Rightarrow> FileEditInput \<Rightarrow> nat \<Rightarrow> ustr \<Rightarrow>
     FilesystemError + (ustr \<times> FileEditOutput)" where
  "prepare_edit retained pol limits file_path relative_path input maximum_retained old_content =
     (if edit_old_string input = edit_new_string input
      then Inl (InvalidRequest (u ''No changes to apply: strings are identical''))
      else
        let ending = (if find_sub [CR, NL] old_content \<noteq> None then [CR, NL] else [NL]);
            old_string = line_ending (edit_old_string input) ending;
            new_string = line_ending (edit_new_string input) ending;
            replace_all = (edit_replace_all input = Some True)
        in case replace_exact old_content old_string new_string replace_all of
          Inl e \<Rightarrow> Inl e
        | Inr new_content \<Rightarrow>
            if byte_len new_content > max_write_bytes limits
            then Inl (InvalidRequest (u ''edited content exceeds maximum size of '' @ dec (max_write_bytes limits) @ u '' bytes''))
            else if retained old_content new_content > maximum_retained
            then Inl (InvalidRequest (u ''File edit preparation exceeds maximum retained size of '' @
                                      dec maximum_retained @ u '' bytes''))
            else case (case edit_spans old_content old_string new_string replace_all of
                         Some spans \<Rightarrow> file_diff_hunks pol file_path old_content new_content spans None (max_diff_bytes limits)
                       | None \<Rightarrow> file_diff pol file_path old_content new_content None (max_diff_bytes limits)) of
                   Inl e \<Rightarrow> Inl e
                 | Inr d \<Rightarrow>
                     Inr (new_content, \<lparr>edit_path = path_text file_path, edit_relative_path = relative_path,
                                        edit_applied = False, edit_diff = d\<rparr>))"

section \<open>The replaced text\<close>

text \<open>The pieces between the occurrences that are replaced.\<close>

function gaps_ne :: "'a list \<Rightarrow> 'a list \<Rightarrow> 'a list list" where
  "gaps_ne p [] = [[]]"
| "gaps_ne p (x # s) =
     (if p \<noteq> [] \<and> starts_with (x # s) p then [] # gaps_ne p (drop (length p) (x # s))
      else (x # hd (gaps_ne p s)) # tl (gaps_ne p s))"
  by pat_completeness auto
termination
  by (relation "measure (\<lambda>(p, s). length s)") auto

definition gaps :: "'a list \<Rightarrow> 'a list \<Rightarrow> 'a list list" where
  "gaps p s = (if p = [] then [] # map (\<lambda>c. [c]) s @ [[]] else gaps_ne p s)"

fun glue :: "'a list \<Rightarrow> 'a list list \<Rightarrow> 'a list" where
  "glue r [] = []"
| "glue r [g] = g"
| "glue r (g # h # gs) = g @ r @ glue r (h # gs)"

fun starts :: "nat \<Rightarrow> nat \<Rightarrow> 'a list list \<Rightarrow> nat list" where
  "starts n i (g # h # gs) = (i + length g) # starts n (i + length g + n) (h # gs)"
| "starts n i _ = []"

lemma gaps_ne_Nil [simp]: "gaps_ne p s \<noteq> []"
  by (cases s) auto

lemma glue_Cons: "gs \<noteq> [] \<Longrightarrow> glue r (g # gs) = g @ r @ glue r gs"
  by (cases gs) auto

lemma glue_hd: "gs \<noteq> [] \<Longrightarrow> glue r ((x # hd gs) # tl gs) = x # glue r gs"
  by (cases gs rule: remdups_adj.cases) auto

lemma starts_hd: "gs \<noteq> [] \<Longrightarrow> starts n i ((x # hd gs) # tl gs) = starts n (Suc i) gs"
  by (cases gs rule: remdups_adj.cases) auto

lemma starts_Cons: "gs \<noteq> [] \<Longrightarrow> starts n i (g # gs) = (i + length g) # starts n (i + length g + n) gs"
  by (cases gs) auto

lemma gaps_ne_glue: "glue p (gaps_ne p s) = s"
  by (induction p s rule: gaps_ne.induct)
    (auto simp: glue_Cons glue_hd starts_with_def, metis append_take_drop_id drop_Suc_Cons take_Suc_Cons)

lemma replace_ne_glue: "replace_ne p r s = glue r (gaps_ne p s)"
  by (induction p s rule: gaps_ne.induct) (auto simp: glue_Cons glue_hd)

lemma match_from_starts: "p \<noteq> [] \<Longrightarrow> match_from p i s = starts (length p) i (gaps_ne p s)"
  by (induction p s arbitrary: i rule: gaps_ne.induct) (auto simp: starts_Cons starts_hd)

lemma glue_single: "glue r ([] # map (\<lambda>c. [c]) s @ [[]]) = r @ concat (map (\<lambda>c. c # r) s)"
proof (induction s)
  case (Cons c s)
  then show ?case by (cases s) (auto simp: glue_Cons)
qed simp

lemma starts_single: "match_from [] i s = starts 0 i ([] # map (\<lambda>c. [c]) s @ [[]])"
proof (induction s arbitrary: i)
  case (Cons c s)
  have "starts 0 (Suc i) ([] # map (\<lambda>c. [c]) s @ [[]]) = starts 0 i (map (\<lambda>c. [c]) (c # s) @ [[]])"
    by (cases s) auto
  then show ?case using Cons [of "Suc i"] by simp
qed simp

lemma gaps_facts:
  "glue p (gaps p s) = s" "str_replace s p r = glue r (gaps p s)" "match_indices s p = starts (length p) 0 (gaps p s)"
  "gaps p s \<noteq> []"
proof -
  have "glue [] ([] # map (\<lambda>c. [c]) s @ [[]]) = s" using glue_single [of "[]" s] by (simp add: concat_map_singleton)
  then show "glue p (gaps p s) = s" by (simp add: gaps_def gaps_ne_glue)
  show "str_replace s p r = glue r (gaps p s)" by (simp add: gaps_def str_replace_def glue_single replace_ne_glue)
  show "match_indices s p = starts (length p) 0 (gaps p s)"
    by (simp add: gaps_def match_indices_def starts_single match_from_starts)
qed (simp add: gaps_def)

text \<open>The last occurrence.\<close>

lemma rfind_sub_Some: "rfind_sub p s = Some i \<Longrightarrow> i \<le> length s \<and> starts_with (drop i s) p"
  by (induction s arbitrary: i) (auto simp: starts_with_def split: if_splits option.splits)

lemma rfind_sub_None: "rfind_sub p s = None \<Longrightarrow> j \<le> length s \<Longrightarrow> \<not> starts_with (drop j s) p"
proof (induction s arbitrary: j)
  case Nil
  then show ?case by (auto simp: starts_with_def split: if_splits)
next
  case (Cons x s)
  then show ?case by (cases j) (auto split: if_splits option.splits)
qed

lemma rfind_sub_last: "rfind_sub p s = Some i \<Longrightarrow> j \<le> length s \<Longrightarrow> starts_with (drop j s) p \<Longrightarrow> j \<le> i"
proof (induction s arbitrary: i j)
  case (Cons x s)
  show ?case
  proof (cases "rfind_sub p s")
    case None
    then show ?thesis using Cons.prems rfind_sub_None [OF None] by (cases j) (auto split: if_splits)
  next
    case (Some k)
    then show ?thesis using Cons by (cases j) auto
  qed
qed simp

text \<open>An occurrence at an offset.\<close>

definition occurs :: "'a list \<Rightarrow> 'a list \<Rightarrow> nat \<Rightarrow> bool" where
  "occurs p s i \<longleftrightarrow> i \<le> length s \<and> starts_with (drop i s) p"

lemma occurs_split: "occurs p s i \<Longrightarrow> s = take i s @ p @ drop (i + length p) s"
  by (auto simp: occurs_def starts_with_def) (metis append_take_drop_id drop_drop add.commute)

lemma find_rfind_unique:
  "find_sub p s = Some i \<and> rfind_sub p s = Some i \<longleftrightarrow> occurs p s i \<and> (\<forall>j. occurs p s j \<longrightarrow> j = i)" (is "?l \<longleftrightarrow> ?r")
proof
  assume l: ?l
  have "occurs p s i" using rfind_sub_Some l by (auto simp: occurs_def)
  moreover have "j = i" if "occurs p s j" for j
    using that rfind_sub_last [of p s i j] find_sub_first [of p s i j] l by (auto simp: occurs_def not_less order.order_iff_strict)
  ultimately show ?r by blast
next
  assume r: ?r
  obtain a where a: "find_sub p s = Some a" using r find_sub_None [of p s] by (cases "find_sub p s") (auto simp: occurs_def)
  obtain b where b: "rfind_sub p s = Some b" using r rfind_sub_None [of p s i] by (cases "rfind_sub p s") (auto simp: occurs_def)
  have "occurs p s a" using find_sub_Some [OF a] by (auto simp: occurs_def starts_with_def)
  moreover have "occurs p s b" using rfind_sub_Some [OF b] by (simp add: occurs_def)
  ultimately show ?l using r a b by blast
qed

lemma find_sub_occurs: "find_sub p s \<noteq> None \<longleftrightarrow> (\<exists>i. occurs p s i)"
  using find_sub_None [of p s] by (auto simp: occurs_def)

text \<open>
  What an edit does to a file's text. Replacing one occurrence succeeds exactly when there is
  exactly one, overlapping ones counted, and changes nothing but it; replacing all succeeds exactly
  when there is one, and puts the new string at every occurrence found from the left, keeping the
  text between them; a failure changes nothing.
\<close>

theorem replace_exact_correct:
  "(replace_exact content old new False = Inr out \<longleftrightarrow>
      (\<exists>i. occurs old content i \<and> (\<forall>j. occurs old content j \<longrightarrow> j = i) \<and>
         out = take i content @ new @ drop (i + length old) content)) \<and>
   (replace_exact content old new True = Inr out \<longleftrightarrow>
      (\<exists>i. occurs old content i) \<and> out = glue new (gaps old content) \<and> content = glue old (gaps old content))"
proof -
  have "replace_exact content old new False = Inr out \<longleftrightarrow>
      (\<exists>i. (find_sub old content = Some i \<and> rfind_sub old content = Some i) \<and>
         out = take i content @ new @ drop (i + length old) content)"
    by (auto simp: replace_exact_def split: option.splits)
  moreover have "replace_exact content old new True = Inr out \<longleftrightarrow>
      find_sub old content \<noteq> None \<and> out = glue new (gaps old content)"
    by (auto simp: replace_exact_def gaps_facts split: option.splits)
  ultimately show ?thesis unfolding find_rfind_unique find_sub_occurs by (auto simp: gaps_facts(1))
qed

theorem replace_exact_correct_witness:
  "\<exists>i. occurs (u ''b'') (u ''ab'') i \<and> (\<forall>j. occurs (u ''b'') (u ''ab'') j \<longrightarrow> j = i) \<and>
     u ''ac'' = take i (u ''ab'') @ u ''c'' @ drop (i + length (u ''b'')) (u ''ab'')"
proof -
  have "replace_exact (u ''ab'') (u ''b'') (u ''c'') False = Inr (u ''ac'')"
    by (simp add: replace_exact_def starts_with_def u_def)
  then show ?thesis using replace_exact_correct [of "u ''ab''" "u ''b''" "u ''c''" "u ''ac''"] by blast
qed

section \<open>The spans describe the change\<close>

text \<open>Whole lines: nothing, or text that ends with a newline.\<close>

definition whole :: "ustr \<Rightarrow> bool" where
  "whole s \<longleftrightarrow> s = [] \<or> last s = NL"

lemma count_newlines_simps [simp]:
  "count_newlines [] = 0" "count_newlines (a @ b) = count_newlines a + count_newlines b"
  "count_newlines (c # s) = (if c = NL then Suc (count_newlines s) else count_newlines s)"
  by (simp_all add: count_newlines_def)

lemma count_newlines_none: "NL \<notin> set s \<Longrightarrow> count_newlines s = 0"
  by (induction s) auto

lemma length_split_newlines: "length (split_on NL s) = Suc (count_newlines s)"
  by (induction s) (auto simp: split_on_def)

lemma split_whole:
  assumes "whole x"
  shows "split_on NL (x @ y) = butlast (split_on NL x) @ split_on NL y" "length (butlast (split_on NL x)) = count_newlines x"
proof -
  have "split_on NL (x @ y) = butlast (split_on NL x) @ split_on NL y"
  proof (cases "x = []")
    case False
    then obtain z where x: "x = z @ [NL]" using assms by (metis append_butlast_last_id whole_def)
    have e: "split_on NL [] = [[]]" by (simp add: split_on_def)
    show ?thesis using split_on_append_sep [of NL z y] split_on_append_sep [of NL z "[]"] by (simp add: x e)
  qed (simp add: split_on_def)
  then show "split_on NL (x @ y) = butlast (split_on NL x) @ split_on NL y"
    "length (butlast (split_on NL x)) = count_newlines x" by (simp_all add: length_split_newlines)
qed

lemma drop_whole: "whole x \<Longrightarrow> drop (count_newlines x) (split_on NL (x @ y)) = split_on NL y"
  using split_whole(1) [of x y] split_whole(2) [of x] by (metis append_eq_conv_conj)

lemma take_whole: "whole x \<Longrightarrow> take (count_newlines x) (split_on NL (x @ y)) = butlast (split_on NL x)"
  using split_whole(1) [of x y] split_whole(2) [of x] by (metis append_eq_conv_conj)

lemma whole_append: "whole a \<Longrightarrow> whole b \<Longrightarrow> whole (a @ b)"
  by (cases b rule: rev_cases) (auto simp: whole_def)

text \<open>A region after whole lines that both texts share.\<close>

lemma aligned_region:
  assumes "whole p" "whole p'" "whole g" "old = p @ g @ m @ b" "new = p' @ g @ m' @ b'"
  defines "h \<equiv> \<lparr>old_start = count_newlines p + count_newlines g, old_len = Suc (count_newlines m),
                new_start = count_newlines p' + count_newlines g, new_len = Suc (count_newlines m')\<rparr>"
  shows "b = b' \<Longrightarrow> b = [] \<Longrightarrow> aligned (split_on NL old) (split_on NL new) (count_newlines p) (count_newlines p') [h]"
    "aligned (split_on NL old) (split_on NL new)
        (count_newlines (p @ g @ m @ [NL])) (count_newlines (p' @ g @ m' @ [NL])) hs \<Longrightarrow>
      aligned (split_on NL old) (split_on NL new) (count_newlines p) (count_newlines p') (h # hs)"
proof -
  have eq: "take (count_newlines g) (drop (count_newlines p) (split_on NL old)) =
      take (count_newlines g) (drop (count_newlines p') (split_on NL new))"
    unfolding assms(4,5) drop_whole [OF assms(1)] drop_whole [OF assms(2)] take_whole [OF assms(3)] ..
  have len: "length (split_on NL old) = Suc (count_newlines p + count_newlines g + count_newlines m + count_newlines b)"
    "length (split_on NL new) = Suc (count_newlines p' + count_newlines g + count_newlines m' + count_newlines b')"
    by (simp_all add: length_split_newlines assms(4,5))
  show "aligned (split_on NL old) (split_on NL new) (count_newlines p) (count_newlines p') [h]" if "b = b'" "b = []"
    using eq len that by (simp add: h_def)
  show "aligned (split_on NL old) (split_on NL new) (count_newlines p) (count_newlines p') (h # hs)"
    if rest: "aligned (split_on NL old) (split_on NL new)
        (count_newlines (p @ g @ m @ [NL])) (count_newlines (p' @ g @ m' @ [NL])) hs"
    using eq len rest by (simp add: h_def add.assoc)
qed

lemma aligned_tail:
  assumes "whole p" "whole p'"
  shows "aligned (split_on NL (p @ b)) (split_on NL (p' @ b)) (count_newlines p) (count_newlines p') []"
  using drop_whole [OF assms(1), of b] drop_whole [OF assms(2), of b] by (simp add: length_split_newlines)

section \<open>The scan\<close>

text \<open>The start of the line an offset is on.\<close>

definition line_start :: "ustr \<Rightarrow> nat \<Rightarrow> nat" where
  "line_start s i = (let offsets = filter (\<lambda>k. s ! k = NL) [0..<i] in if offsets = [] then 0 else last offsets + 1)"

lemma newline_offsets: "i \<le> length s \<Longrightarrow> length (filter (\<lambda>k. s ! k = NL) [0..<i]) = count_newlines (take i s)"
  by (induction i) (auto simp: take_Suc_conv_app_nth)

lemma advance_lines_spec:
  assumes "sc_line s = count_newlines (take (sc_scanned s) content)" "sc_line_from s = line_start content (sc_scanned s)"
    "sc_scanned s \<le> start" "start \<le> length content"
  shows "advance_lines content start s = s\<lparr>sc_line := count_newlines (take start content),
           sc_line_from := line_start content start, sc_scanned := start\<rparr>"
proof -
  have split: "[0..<start] = [0..<sc_scanned s] @ [sc_scanned s..<start]"
    using assms(3) by (metis le0 le_add_diff_inverse upt_add_eq_append)
  let ?f = "filter (\<lambda>k. content ! k = NL)"
  have l: "sc_line s + length (?f [sc_scanned s..<start]) = count_newlines (take start content)"
    using newline_offsets [of start content] newline_offsets [of "sc_scanned s" content] assms split by simp
  have "(if ?f [sc_scanned s..<start] = [] then sc_line_from s else last (?f [sc_scanned s..<start]) + 1) =
      line_start content start"
    using assms(2) split by (auto simp: line_start_def Let_def)
  then show ?thesis using l by (simp add: advance_lines_def Let_def)
qed

lemma line_start_split:
  assumes "whole x" "NL \<notin> set w" "content = x @ w @ y"
  shows "line_start content (length x + length w) = length x"
proof -
  have "content ! k \<noteq> NL" if "length x \<le> k" "k < length x + length w" for k
  proof -
    have "content ! k = w ! (k - length x)" "k - length x < length w" using that assms(3) by (auto simp: nth_append)
    then show ?thesis using assms(2) nth_mem by force
  qed
  then have "filter (\<lambda>k. content ! k = NL) [length x..<length x + length w] = []"
    by (simp add: filter_empty_conv)
  then have off: "filter (\<lambda>k. content ! k = NL) [0..<length x + length w] = filter (\<lambda>k. content ! k = NL) [0..<length x]"
    using upt_add_eq_append [of 0 "length x" "length w"] by simp
  show ?thesis
  proof (cases "x = []")
    case False
    then obtain n where n: "length x = Suc n" "content ! n = NL"
      using assms(1,3) by (cases x rule: rev_cases) (auto simp: whole_def nth_append)
    show ?thesis unfolding line_start_def off by (simp add: n)
  qed (use off in \<open>simp add: line_start_def\<close>)
qed

lemma find_newline:
  "find_sub [NL] s = None \<longleftrightarrow> NL \<notin> set s"
  "NL \<notin> set a \<Longrightarrow> find_sub [NL] (a @ NL # b) = Some (length a)"
proof -
  show "find_sub [NL] s = None \<longleftrightarrow> NL \<notin> set s" by (induction s) (auto simp: starts_with_def)
  show "NL \<notin> set a \<Longrightarrow> find_sub [NL] (a @ NL # b) = Some (length a)" by (induction a) (auto simp: starts_with_def)
qed

text \<open>The end of the line an offset is on.\<close>

definition line_end :: "ustr \<Rightarrow> nat \<Rightarrow> nat" where
  "line_end s i = (case find_sub [NL] (drop i s) of None \<Rightarrow> length s | Some k \<Rightarrow> i + k)"

lemma line_end_none: "NL \<notin> set y \<Longrightarrow> line_end (x @ y) (length x) = length (x @ y)"
  using find_newline(1) [of y] by (auto simp: line_end_def split: option.splits)

lemma line_end_some: "NL \<notin> set y \<Longrightarrow> line_end (x @ y @ NL # z) (length x) = length (x @ y)"
  by (simp add: line_end_def find_newline(2))

lemma line_end_skip: "NL \<notin> set y \<Longrightarrow> line_end (x @ y @ z) (length x) = line_end (x @ y @ z) (length (x @ y))"
proof -
  assume y: "NL \<notin> set y"
  have "find_sub [NL] (y @ z) = map_option ((+) (length y)) (find_sub [NL] z)"
    using y by (cases "find_sub [NL] z"; induction y) (auto simp: starts_with_def)
  then show ?thesis by (auto simp: line_end_def split: option.splits)
qed

text \<open>A text falls into whole lines and a part of a line.\<close>

lemma whole_split: obtains w v where "g = w @ v" "whole w" "NL \<notin> set v"
proof (cases "NL \<in> set g")
  case True
  then obtain a b where "g = a @ NL # b" "NL \<notin> set b" by (meson split_list_last)
  then show ?thesis by (intro that [of "a @ [NL]" b]) (auto simp: whole_def)
qed (auto simp: whole_def intro: that [of "[]"])

lemma whole_snoc [simp]: "whole (x @ [NL])" "whole []"
  by (simp_all add: whole_def)

lemma line_end_ge: "length x \<le> line_end (x @ y) (length x)"
  by (auto simp: line_end_def split: option.splits)

text \<open>
  Between two matches of the scan, with the gaps \<open>gs\<close> ahead: behind the last match, at offset \<open>i\<close>, are
  whole lines that closed spans account for, whole lines both texts share, and the open span's text.
\<close>

definition span_open :: "ustr \<Rightarrow> OpenSpan \<Rightarrow> ustr \<Rightarrow> ustr \<Rightarrow> ustr \<Rightarrow> ustr \<Rightarrow> bool" where
  "span_open c op pre shared a a' \<longleftrightarrow>
     os_from op = length (pre @ shared) \<and> os_old_start op = count_newlines (pre @ shared) \<and>
     os_last_end op = length (pre @ shared @ a) \<and> os_new_newlines op = count_newlines a' \<and>
     os_to op = line_end c (length (pre @ shared @ a))"

definition scan_lines :: "ustr \<Rightarrow> SpanScan \<Rightarrow> nat \<Rightarrow> bool" where
  "scan_lines c s i \<longleftrightarrow> sc_line s = count_newlines (take (sc_scanned s) c) \<and>
     sc_line_from s = line_start c (sc_scanned s) \<and> sc_scanned s \<le> i"

definition scan_inv :: "ustr \<Rightarrow> ustr \<Rightarrow> ustr \<Rightarrow> ustr \<Rightarrow> ustr list \<Rightarrow> nat \<Rightarrow> SpanScan \<Rightarrow> bool" where
  "scan_inv c n p r gs i s \<longleftrightarrow> (\<exists>pre pre' shared a a' op.
     sc_open s = Some op \<and> c = pre @ shared @ a @ glue p gs \<and> n = pre' @ shared @ a' @ glue r gs \<and>
     i = length (pre @ shared @ a) \<and> whole pre \<and> whole pre' \<and> whole shared \<and> span_open c op pre shared a a' \<and>
     scan_lines c s i \<and> sc_shift s = int (count_newlines pre') - int (count_newlines pre) \<and>
     (\<forall>hs. aligned (split_on NL c) (split_on NL n) (count_newlines pre) (count_newlines pre') hs \<longrightarrow>
        aligned (split_on NL c) (split_on NL n) 0 0 (sc_spans s @ hs)))"

lemma scan_invI:
  assumes "sc_open s = Some op" "c = pre @ shared @ a @ glue p gs" "n = pre' @ shared @ a' @ glue r gs"
    "i = length (pre @ shared @ a)" "whole pre" "whole pre'" "whole shared" "span_open c op pre shared a a'"
    "scan_lines c s i" "sc_shift s = int (count_newlines pre') - int (count_newlines pre)"
    "\<And>hs. aligned (split_on NL c) (split_on NL n) (count_newlines pre) (count_newlines pre') hs \<Longrightarrow>
       aligned (split_on NL c) (split_on NL n) 0 0 (sc_spans s @ hs)"
  shows "scan_inv c n p r gs i s"
  unfolding scan_inv_def using assms by blast

text \<open>Closing a span at the end of its last line.\<close>

lemma close_open:
  assumes "span_open c op pre shared a a'" "c = pre @ shared @ a @ g @ b" "NL \<notin> set g" "b = [] \<or> hd b = NL"
    "shift = int (count_newlines pre') - int (count_newlines pre)" "count_newlines (pre' @ shared) \<le> usize_max"
  shows "close_span c op shift =
    (\<lparr>old_start = count_newlines pre + count_newlines shared, old_len = Suc (count_newlines (a @ g)),
      new_start = count_newlines pre' + count_newlines shared, new_len = Suc (count_newlines (a' @ g))\<rparr>,
     int (count_newlines (pre' @ a')) - int (count_newlines (pre @ a)))"
proof -
  have to: "os_to op = length (pre @ shared @ a @ g)"
    using assms(1-4) line_end_none [of g "pre @ shared @ a"] line_end_some [of g "pre @ shared @ a"]
    by (cases b) (auto simp: span_open_def)
  have at: "os_from op = length (pre @ shared)" "os_last_end op = length (pre @ shared @ a)"
    "os_old_start op = count_newlines (pre @ shared)" "os_new_newlines op = count_newlines a'"
    using assms(1) by (simp_all add: span_open_def)
  have "slice (os_from op) (os_to op) c = a @ g" "slice (os_last_end op) (os_to op) c = g"
    unfolding slice_def at to assms(2) by simp_all
  then show ?thesis using assms(5,6) count_newlines_none [OF assms(3)] at
    by (simp add: close_span_def sat_add_signed_def min_def nat_add_distrib)
qed

lemma advance_scan:
  assumes "scan_lines c s i" "c = x @ v @ y" "whole x" "NL \<notin> set v" "i \<le> length x + length v"
  shows "advance_lines c (length x + length v) s = s\<lparr>sc_line := count_newlines x, sc_line_from := length x,
      sc_scanned := length x + length v\<rparr>"
proof -
  have "take (length x + length v) c = x @ v" using assms(2) by simp
  then show ?thesis
    using advance_lines_spec [of s c "length x + length v"] assms line_start_split [OF assms(3,4,2)]
      count_newlines_none [OF assms(4)] by (simp add: scan_lines_def)
qed

lemma region_end_open:
  assumes "span_open c op pre shared a a'" "c = pre @ shared @ a @ g @ p @ y"
  defines "fin \<equiv> length (pre @ shared @ a @ g @ p)"
  shows "region_end c fin (Some op) = (if NL \<in> set g then line_end c fin else max (os_to op) (line_end c fin))"
    "NL \<notin> set g \<Longrightarrow> length (pre @ shared @ a @ g) \<le> os_to op"
    "NL \<notin> set g \<Longrightarrow> fin \<le> os_to op \<Longrightarrow> line_end c fin = os_to op"
proof -
  let ?d = "pre @ shared @ a"
  have to: "os_to op = line_end c (length ?d)" using assms(1) by (simp add: span_open_def)
  have le: "fin \<le> line_end c fin" using line_end_ge [of "?d @ g @ p" y] by (simp add: assms(2) fin_def)
  have no: "length (?d @ g) \<le> os_to op" if "NL \<notin> set g"
    using line_end_skip [OF that, of ?d "p @ y"] line_end_ge [of "?d @ g" "p @ y"] by (simp add: to assms(2))
  show "length (pre @ shared @ a @ g) \<le> os_to op" if "NL \<notin> set g" using no [OF that] by simp
  show same: "line_end c fin = os_to op" if g: "NL \<notin> set g" and f: "fin \<le> os_to op"
  proof -
    have "NL \<notin> set p"
    proof
      assume "NL \<in> set p"
      then obtain e f where ef: "p = e @ NL # f" "NL \<notin> set e" by (meson split_list_first)
      have "os_to op = length (?d @ g @ e)"
        using line_end_some [of "g @ e" ?d "f @ y"] g ef by (simp add: to assms(2))
      with f ef show False by (simp add: fin_def)
    qed
    then show ?thesis using line_end_skip [of "g @ p" ?d y] g by (simp add: to assms(2) fin_def)
  qed
  have early: "os_to op < fin" if "NL \<in> set g"
  proof -
    from that obtain e f where ef: "g = e @ NL # f" "NL \<notin> set e" by (meson split_list_first)
    then show ?thesis using line_end_some [of e ?d "f @ p @ y"] by (simp add: to assms(2) fin_def)
  qed
  show "region_end c fin (Some op) = (if NL \<in> set g then line_end c fin else max (os_to op) (line_end c fin))"
    using le same early by (auto simp: region_end_def line_end_def [symmetric])
qed

text \<open>A match on a line of its own, the first of all or after an open span's last line.\<close>

lemma fresh_open:
  assumes "c = x @ shared @ v @ p @ y" "whole x" "whole shared" "NL \<notin> set v"
  shows "span_open c \<lparr>os_from = length (x @ shared), os_to = line_end c (length (x @ shared @ v @ p)),
      os_last_end = length (x @ shared @ v @ p), os_old_start = count_newlines (x @ shared),
      os_new_newlines = count_newlines (slice (length (x @ shared)) (length (x @ shared @ v)) c) + count_newlines r\<rparr>
    x shared (v @ p) (v @ r)"
  using count_newlines_none [OF assms(4)] by (simp add: span_open_def slice_def assms(1))

lemma step_first:
  assumes "c = glue p (g # gs)" "n = glue r (g # gs)" "gs \<noteq> []"
  shows "\<exists>s. span_step c p (count_newlines r) scan_start (length g) = Some s \<and>
    scan_inv c n p r gs (length g + length p) s"
proof -
  obtain w v where g: "g = w @ v" "whole w" "NL \<notin> set v" by (rule whole_split)
  have c: "c = w @ v @ p @ glue p gs" "n = w @ v @ r @ glue r gs" using assms g by (simp_all add: glue_Cons)
  have adv: "advance_lines c (length g) scan_start = scan_start\<lparr>sc_line := count_newlines w, sc_line_from := length w,
      sc_scanned := length g\<rparr>"
    using advance_scan [of c scan_start 0 w v "p @ glue p gs"] g c
    by (simp add: scan_lines_def scan_start_def line_start_def)
  let ?op = "\<lparr>os_from = length ([] @ w), os_to = line_end c (length ([] @ w @ v @ p)),
      os_last_end = length ([] @ w @ v @ p), os_old_start = count_newlines ([] @ w),
      os_new_newlines = count_newlines (slice (length ([] @ w)) (length ([] @ w @ v)) c) + count_newlines r\<rparr>"
  let ?s = "scan_start\<lparr>sc_line := count_newlines w, sc_line_from := length w, sc_scanned := length g, sc_open := Some ?op\<rparr>"
  have "span_step c p (count_newlines r) scan_start (length g) = Some ?s"
    unfolding span_step_def adv by (simp add: scan_start_def region_end_def line_end_def g add.assoc Let_def)
  moreover have op: "span_open c ?op [] w (v @ p) (v @ r)" by (rule fresh_open) (use c g in simp_all)
  have sl: "scan_lines c ?s (length g + length p)"
    using line_start_split [OF g(2,3) c(1)] count_newlines_none [OF g(3)] c(1) g(1) by (simp add: scan_lines_def)
  have "scan_inv c n p r gs (length g + length p) ?s"
    by (rule scan_invI [OF _ _ _ _ _ _ _ op sl, where pre' = "[]"]) (use c g in \<open>simp_all add: scan_start_def\<close>)
  ultimately show ?thesis by blast
qed

lemma step_merge:
  assumes inv: "scan_inv c n p r (g # gs) i s" and g: "NL \<notin> set g" and gs: "gs \<noteq> []"
  shows "\<exists>s'. span_step c p (count_newlines r) s (i + length g) = Some s' \<and>
    scan_inv c n p r gs (i + length g + length p) s'"
proof -
  from inv obtain pre pre' shared a a' op where o: "sc_open s = Some op"
    and c: "c = pre @ shared @ a @ g @ p @ glue p gs" "n = pre' @ shared @ a' @ g @ r @ glue r gs"
    and i: "i = length (pre @ shared @ a)" and w: "whole pre" "whole pre'" "whole shared"
    and op: "span_open c op pre shared a a'" and l: "scan_lines c s i"
    and shift: "sc_shift s = int (count_newlines pre') - int (count_newlines pre)"
    and al: "\<forall>hs. aligned (split_on NL c) (split_on NL n) (count_newlines pre) (count_newlines pre') hs \<longrightarrow>
        aligned (split_on NL c) (split_on NL n) 0 0 (sc_spans s @ hs)"
    unfolding scan_inv_def glue_Cons [OF gs] by blast
  obtain x v where xv: "pre @ shared @ a @ g = x @ v" "whole x" "NL \<notin> set v" by (rule whole_split)
  have cx: "c = x @ v @ p @ glue p gs" using c(1) xv(1) by (metis append.assoc)
  have start: "i + length g = length x + length v" using arg_cong [OF xv(1), of length] i by simp
  have adv: "advance_lines c (i + length g) s = s\<lparr>sc_line := count_newlines x, sc_line_from := length x,
      sc_scanned := i + length g\<rparr>"
    unfolding start by (rule advance_scan [OF l cx xv(2,3)]) (use start in simp)
  note re = region_end_open [OF op c(1)]
  have to: "length x \<le> os_to op" using re(2) [OF g] arg_cong [OF xv(1), of length] by simp
  have last: "os_last_end op = i" "os_new_newlines op = count_newlines a'" using op i by (simp_all add: span_open_def)
  have mid: "slice i (i + length g) c = g" using c(1) i by (simp add: slice_def)
  let ?fin = "length (pre @ shared @ a @ g @ p)"
  have fin: "i + length g + length p = ?fin" using i by simp
  let ?op = "op\<lparr>os_new_newlines := os_new_newlines op + (count_newlines (slice (os_last_end op) (i + length g) c) + count_newlines r),
      os_last_end := ?fin, os_to := max (os_to op) (region_end c ?fin (Some op))\<rparr>"
  let ?s = "s\<lparr>sc_line := count_newlines x, sc_line_from := length x, sc_scanned := i + length g, sc_open := Some ?op\<rparr>"
  have "span_step c p (count_newlines r) s (i + length g) = Some ?s"
    unfolding span_step_def adv Let_def fin by (simp add: o to)
  moreover have "max (os_to op) (region_end c ?fin (Some op)) = line_end c ?fin"
    using re(1,3) g line_end_ge [of "pre @ shared @ a @ g @ p" "glue p gs"] c(1)
    by (cases "?fin \<le> os_to op") auto
  then have op': "span_open c ?op pre shared (a @ g @ p) (a' @ g @ r)"
    using op count_newlines_none [OF g] mid last by (simp add: span_open_def)
  have sl: "scan_lines c ?s (i + length g + length p)"
    using line_start_split [OF xv(2,3) cx] count_newlines_none [OF xv(3)] cx start by (simp add: scan_lines_def)
  have "scan_inv c n p r gs (i + length g + length p) ?s"
    by (rule scan_invI [OF _ _ _ _ w op' sl]) (use c shift al i in simp_all)
  ultimately show ?thesis by blast
qed

lemma span_step_closes:
  assumes "span_step c p rn s0 start = Some s'" "advance_lines c start s0 = s" "sc_open s = Some op"
    "os_to op < sc_line_from s" "close_span c op (sc_shift s) = (h, sh)"
  shows "s' = s\<lparr>sc_spans := sc_spans s @ [h], sc_shift := sh,
    sc_open := Some \<lparr>os_from = sc_line_from s, os_to = region_end c (start + length p) (Some op),
      os_last_end = start + length p, os_old_start = sc_line s,
      os_new_newlines = count_newlines (slice (sc_line_from s) start c) + rn\<rparr>\<rparr>"
  using assms by (simp add: span_step_def Let_def split: if_splits)

lemma step_close:
  assumes inv: "scan_inv c n p r (g # gs) i s" and g: "NL \<in> set g" and gs: "gs \<noteq> []" and big: "length n \<le> usize_max"
    and some: "span_step c p (count_newlines r) s (i + length g) = Some s'"
  shows "scan_inv c n p r gs (i + length g + length p) s'"
proof -
  from inv obtain pre pre' shared a a' op where o: "sc_open s = Some op"
    and c: "c = pre @ shared @ a @ g @ p @ glue p gs" "n = pre' @ shared @ a' @ g @ r @ glue r gs"
    and i: "i = length (pre @ shared @ a)" and w: "whole pre" "whole pre'" "whole shared"
    and op: "span_open c op pre shared a a'" and l: "scan_lines c s i"
    and shift: "sc_shift s = int (count_newlines pre') - int (count_newlines pre)"
    and al: "\<forall>hs. aligned (split_on NL c) (split_on NL n) (count_newlines pre) (count_newlines pre') hs \<longrightarrow>
        aligned (split_on NL c) (split_on NL n) 0 0 (sc_spans s @ hs)"
    unfolding scan_inv_def glue_Cons [OF gs] by blast
  obtain e f where ef: "g = e @ NL # f" "NL \<notin> set e" using g by (meson split_list_first)
  obtain m v where mv: "f = m @ v" "whole m" "NL \<notin> set v" by (rule whole_split)
  let ?x = "pre @ shared @ a @ e @ [NL]" and ?x' = "pre' @ shared @ a' @ e @ [NL]"
  have cx: "c = ?x @ m @ v @ p @ glue p gs" "n = ?x' @ m @ v @ r @ glue r gs" using c ef mv by simp_all
  have wx: "whole ?x" "whole ?x'" using whole_snoc(1) [of "pre @ shared @ a @ e"] whole_snoc(1) [of "pre' @ shared @ a' @ e"] by simp_all
  have start: "i + length g = length (?x @ m) + length v" using i ef mv by simp
  have cx2: "c = (?x @ m) @ v @ p @ glue p gs" using cx(1) by simp
  have adv: "advance_lines c (i + length g) s = s\<lparr>sc_line := count_newlines (?x @ m), sc_line_from := length (?x @ m),
      sc_scanned := i + length g\<rparr>"
    unfolding start by (rule advance_scan [OF l cx2 whole_append [OF wx(1) mv(2)] mv(3)]) (use start in simp)
  have to: "os_to op = length (pre @ shared @ a @ e)"
    using line_end_some [of e "pre @ shared @ a" "f @ p @ glue p gs"] ef c(1) op by (simp add: span_open_def)
  let ?fin = "length (pre @ shared @ a @ g @ p)"
  have fin: "i + length g + length p = ?fin" "?fin = length (?x @ m @ v @ p)" using i ef mv by simp_all
  have re: "region_end c ?fin (Some op) = line_end c (length (?x @ m @ v @ p))"
    using region_end_open(1) [OF op c(1)] g unfolding fin(2) by (simp only: if_True)
  let ?h = "\<lparr>old_start = count_newlines pre + count_newlines shared, old_len = Suc (count_newlines (a @ e)),
      new_start = count_newlines pre' + count_newlines shared, new_len = Suc (count_newlines (a' @ e))\<rparr>"
  let ?op = "\<lparr>os_from = length (?x @ m), os_to = line_end c (length (?x @ m @ v @ p)),
      os_last_end = length (?x @ m @ v @ p), os_old_start = count_newlines (?x @ m),
      os_new_newlines = count_newlines (slice (length (?x @ m)) (length (?x @ m @ v)) c) + count_newlines r\<rparr>"
  have "count_newlines (pre' @ shared) \<le> length n"
    using c(2) length_filter_le [of "\<lambda>c. c = NL" "pre' @ shared"] by (simp add: count_newlines_def)
  then have close: "close_span c op (sc_shift s) =
      (?h, int (count_newlines (pre' @ a')) - int (count_newlines (pre @ a)))"
    by (intro close_open [OF op _ ef(2) _ shift, where b = "NL # f @ p @ glue p gs"]) (use c(1) ef big in simp_all)
  have at: "i + length g = length (?x @ m @ v)" "length (?x @ m @ v) + length p = length (?x @ m @ v @ p)"
    using i ef mv by simp_all
  have "os_to op < length (?x @ m)" using to by simp
  then have s': "s' = s\<lparr>sc_line := count_newlines (?x @ m), sc_line_from := length (?x @ m),
      sc_scanned := length (?x @ m @ v), sc_spans := sc_spans s @ [?h],
      sc_shift := int (count_newlines (pre' @ a')) - int (count_newlines (pre @ a)), sc_open := Some ?op\<rparr>"
    using span_step_closes [OF some adv, of op ?h] o close re [unfolded fin(2)] unfolding at
    by (simp del: append_assoc length_append count_newlines_simps)
  have op': "span_open c ?op ?x m (v @ p) (v @ r)" by (rule fresh_open [OF cx(1) wx(1) mv(2,3)])
  have sl: "scan_lines c s' (i + length g + length p)"
    using line_start_split [OF whole_append [OF wx(1) mv(2)] mv(3) cx2] count_newlines_none [OF mv(3)] cx2 start
    by (simp add: s' scan_lines_def add.assoc)
  show ?thesis
  proof (rule scan_invI [OF _ _ _ _ wx mv(2) op' sl])
    fix hs
    assume "aligned (split_on NL c) (split_on NL n) (count_newlines ?x) (count_newlines ?x') hs"
    then have "aligned (split_on NL c) (split_on NL n) (count_newlines pre) (count_newlines pre') (?h # hs)"
      using aligned_region(2) [OF w, of c "a @ e" "NL # f @ p @ glue p gs" n "a' @ e" "NL # f @ r @ glue r gs" hs] c ef by simp
    with al show "aligned (split_on NL c) (split_on NL n) 0 0 (sc_spans s' @ hs)" by (simp add: s')
  qed (use cx fin in \<open>simp_all add: s'\<close>)
qed

lemma steps_keep:
  assumes "span_steps c p (count_newlines r) s (starts (length p) i gs) = Some t"
    "scan_inv c n p r gs i s" "gs \<noteq> []" "length n \<le> usize_max"
  shows "\<exists>i g. scan_inv c n p r [g] i t"
  using assms
proof (induction "length p" i gs arbitrary: s rule: starts.induct)
  case (1 i g h gs)
  then obtain s' where s': "span_step c p (count_newlines r) s (i + length g) = Some s'"
    "span_steps c p (count_newlines r) s' (starts (length p) (i + length g + length p) (h # gs)) = Some t"
    by (auto split: option.splits)
  have "scan_inv c n p r (h # gs) (i + length g + length p) s'"
    using step_merge [OF "1.prems"(2)] step_close [OF "1.prems"(2) _ _ "1.prems"(4) s'(1)] s'(1)
    by (cases "NL \<in> set g") auto
  from "1.hyps" [OF s'(2) this] "1.prems"(4) show ?case by simp
qed auto

lemma final_close:
  assumes "scan_inv c n p r [g] i t" "length n \<le> usize_max" "sc_open t = Some op"
  shows "aligned (split_on NL c) (split_on NL n) 0 0 (sc_spans t @ [fst (close_span c op (sc_shift t))])"
proof -
  from assms obtain pre pre' shared a a' where c: "c = pre @ shared @ a @ g" "n = pre' @ shared @ a' @ g"
    and w: "whole pre" "whole pre'" "whole shared" and op: "span_open c op pre shared a a'"
    and shift: "sc_shift t = int (count_newlines pre') - int (count_newlines pre)"
    and al: "\<forall>hs. aligned (split_on NL c) (split_on NL n) (count_newlines pre) (count_newlines pre') hs \<longrightarrow>
        aligned (split_on NL c) (split_on NL n) 0 0 (sc_spans t @ hs)"
    unfolding scan_inv_def by auto
  obtain e b where eb: "g = e @ b" "NL \<notin> set e" "b = [] \<or> hd b = NL"
    by (cases "NL \<in> set g") (auto dest: split_list_first)
  have "count_newlines (pre' @ shared) \<le> length n"
    using c(2) length_filter_le [of "\<lambda>c. c = NL" "pre' @ shared"] by (simp add: count_newlines_def)
  then have close: "fst (close_span c op (sc_shift t)) =
      \<lparr>old_start = count_newlines pre + count_newlines shared, old_len = Suc (count_newlines (a @ e)),
       new_start = count_newlines pre' + count_newlines shared, new_len = Suc (count_newlines (a' @ e))\<rparr>"
    using close_open [OF op _ eb(2,3) shift] c eb assms(2) by simp
  have c': "c = pre @ shared @ (a @ e) @ b" "n = pre' @ shared @ (a' @ e) @ b" using c eb by simp_all
  have "aligned (split_on NL c) (split_on NL n) (count_newlines pre) (count_newlines pre') [fst (close_span c op (sc_shift t))]"
  proof (cases b)
    case Nil
    with aligned_region(1) [OF w c'] show ?thesis by (simp add: close)
  next
    case (Cons x y)
    have "aligned (split_on NL c) (split_on NL n) (count_newlines (pre @ shared @ (a @ e) @ [NL]))
        (count_newlines (pre' @ shared @ (a' @ e) @ [NL])) []"
      using aligned_tail [of "pre @ shared @ (a @ e) @ [NL]" "pre' @ shared @ (a' @ e) @ [NL]" y] c' eb(3) Cons
      by (simp add: whole_def)
    from aligned_region(2) [OF w c' this] show ?thesis unfolding close by simp
  qed
  with al show ?thesis by blast
qed

lemma span_steps_aligned:
  assumes "span_steps c p (count_newlines r) scan_start (starts (length p) 0 gs) = Some t" "sc_open t = Some op"
    "c = glue p gs" "n = glue r gs" "length n \<le> usize_max"
  shows "aligned (split_on NL c) (split_on NL n) 0 0 (sc_spans t @ [fst (close_span c op (sc_shift t))])"
proof (cases "(length p, 0::nat, gs)" rule: starts.cases)
  case (1 k i g h hs)
  from step_first [of c p g "h # hs" n r] assms 1 obtain s where
    s: "span_step c p (count_newlines r) scan_start (length g) = Some s" "scan_inv c n p r (h # hs) (length g + length p) s"
    by auto
  have "\<exists>i g. scan_inv c n p r [g] i t"
    by (rule steps_keep [OF _ s(2)]) (use assms(1,5) 1 s(1) in auto)
  then show ?thesis using final_close assms(2,5) by blast
qed (use assms in \<open>auto simp: scan_start_def\<close>)

lemma find_sub_match: "find_sub p s = Some k \<Longrightarrow> \<exists>ms. match_from p i s = (i + k) # ms"
  by (induction p i s arbitrary: k rule: match_from.induct) (auto simp: starts_with_def split: if_splits)

lemma match_indices_first: "find_sub p s = Some k \<Longrightarrow> \<exists>ms. match_indices s p = k # ms"
  using find_sub_match [of p s k 0] by (simp add: match_indices_def)

lemma edit_spans_aligned:
  assumes "edit_spans c p r all = Some spans" "replace_exact c p r all = Inr n" "length n \<le> usize_max"
  shows "aligned (split_on NL c) (split_on NL n) 0 0 spans"
proof -
  obtain gs where gs: "c = glue p gs" "n = glue r gs"
    "(if all then match_indices c p else take 1 (match_indices c p)) = starts (length p) 0 gs"
  proof (cases all)
    case True
    with assms(2) show ?thesis
      by (intro that [of "gaps p c"]) (auto simp: gaps_facts replace_exact_def split: option.splits)
  next
    case False
    then obtain i where i: "find_sub p c = Some i" "n = take i c @ r @ drop (i + length p) c"
      using assms(2) by (auto simp: replace_exact_def split: option.splits if_splits)
    have "occurs p c i" using find_sub_Some [OF i(1)] by (auto simp: occurs_def starts_with_def)
    then have "c = take i c @ p @ drop (i + length p) c" "i \<le> length c" using occurs_split by (auto simp: occurs_def)
    moreover have "take 1 (match_indices c p) = [i]" using match_indices_first [OF i(1)] by auto
    ultimately show ?thesis using False i
      by (intro that [of "[take i c, drop (i + length p) c]"]) simp_all
  qed
  from assms(1) obtain t op where "span_steps c p (count_newlines r) scan_start (starts (length p) 0 gs) = Some t"
    "sc_open t = Some op" "spans = sc_spans t @ [fst (close_span c op (sc_shift t))]"
    unfolding edit_spans_def Let_def gs(3) by (auto split: option.splits)
  then show ?thesis using span_steps_aligned [OF _ _ gs(1,2) assms(3)] by simp
qed

section \<open>Spans over displayed lines\<close>

text \<open>The displayed lines leave out the empty line a final newline starts; a span may still name it.\<close>

definition clip :: "ustr list \<Rightarrow> ustr list" where
  "clip ls = (if last ls = [] then butlast ls else ls)"

lemma diff_lines_clip: "diff_lines s = clip (split_on NL s)"
  by (cases s) (simp_all add: diff_lines_def clip_def split_on_def Let_def)

lemma clip_take: "clip ls = take (length (clip ls)) ls" "length ls \<le> Suc (length (clip ls))" "length (clip ls) \<le> length ls"
  by (auto simp: clip_def butlast_conv_take)

lemma clip_inside: "i + k \<le> length (clip ls) \<Longrightarrow> take k (drop i (clip ls)) = take k (drop i ls)"
  by (subst clip_take(1)) (simp add: drop_take min_def)

lemma clip_suffix:
  assumes "drop i ls = drop j ls'" "i \<le> length ls" "j \<le> length ls'"
  shows "drop (min i (length (clip ls))) (clip ls) = drop (min j (length (clip ls'))) (clip ls')"
proof (cases "i < length ls")
  case True
  then have "j < length ls'" "last ls = last ls'" using assms by (auto dest: arg_cong [of _ _ length], metis last_drop length_drop zero_less_diff)
  then show ?thesis using True assms(1) by (auto simp: clip_def drop_butlast min_def not_le)
next
  case False
  then have "i = length ls" "j = length ls'" using assms by (auto dest: arg_cong [of _ _ length])
  then show ?thesis using clip_take(3) [of ls] clip_take(3) [of ls'] by simp
qed

definition clamp_hunk :: "nat \<Rightarrow> nat \<Rightarrow> DiffHunk \<Rightarrow> DiffHunk" where
  "clamp_hunk n m h = \<lparr>old_start = old_start h, old_len = min (old_start h + old_len h) n - old_start h,
     new_start = new_start h, new_len = min (new_start h + new_len h) m - new_start h\<rparr>"

lemma window_clamp: "s \<le> length ls \<Longrightarrow> window ls s (s + (min (s + k) (length ls) - s)) = window ls s (s + k)"
  by (auto simp: window_def Let_def)

lemma clamp_trim:
  "old_start h \<le> length ls \<Longrightarrow> new_start h \<le> length ls' \<Longrightarrow>
     trim_hunk ls ls' (clamp_hunk (length ls) (length ls') h) = trim_hunk ls ls' h"
  by (simp only: trim_hunk_def clamp_hunk_def DiffHunk.select_convs window_clamp)

lemma aligned_start:
  "aligned ls ls' i j hs \<Longrightarrow> \<forall>h\<in>set hs. 0 < old_len h \<and> 0 < new_len h \<Longrightarrow>
     \<forall>h\<in>set hs. old_start h \<le> length (clip ls) \<and> new_start h \<le> length (clip ls')"
proof (induction hs arbitrary: i j)
  case (Cons h hs)
  then show ?case using clip_take(2) [of ls] clip_take(2) [of ls'] by auto
qed simp

lemma aligned_clip:
  "aligned ls ls' i j hs \<Longrightarrow> \<forall>h\<in>set hs. 0 < old_len h \<and> 0 < new_len h \<Longrightarrow>
     aligned (clip ls) (clip ls') (min i (length (clip ls))) (min j (length (clip ls')))
      (map (clamp_hunk (length (clip ls)) (length (clip ls'))) hs)"
proof (induction hs arbitrary: i j)
  case Nil
  then show ?case using clip_suffix [of i ls j ls'] by simp
next
  case (Cons g hs)
  have start: "old_start g \<le> length (clip ls)" "new_start g \<le> length (clip ls')"
    using aligned_start [OF Cons.prems] by auto
  have le: "i \<le> old_start g" "j \<le> new_start g" using Cons.prems by auto
  have "take (old_start g - i) (drop i (clip ls)) = take (new_start g - j) (drop j (clip ls'))"
    using start le Cons.prems by (simp add: clip_inside)
  moreover have "old_start g + (min (old_start g + old_len g) (length (clip ls)) - old_start g) =
      min (old_start g + old_len g) (length (clip ls))"
    "new_start g + (min (new_start g + new_len g) (length (clip ls')) - new_start g) =
      min (new_start g + new_len g) (length (clip ls'))" using start by auto
  moreover have "min i (length (clip ls)) = i" "min j (length (clip ls')) = j" using start le by auto
  ultimately show ?case using Cons.IH [of "old_start g + old_len g" "new_start g + new_len g"] Cons.prems le
    by (simp add: clamp_hunk_def)
qed

lemma close_span_len: "0 < old_len (fst (close_span c op k)) \<and> 0 < new_len (fst (close_span c op k))"
  by (simp add: close_span_def Let_def)

lemma span_steps_len:
  "span_steps c p rn s ms = Some t \<Longrightarrow> \<forall>h\<in>set (sc_spans s). 0 < old_len h \<and> 0 < new_len h \<Longrightarrow>
     \<forall>h\<in>set (sc_spans t). 0 < old_len h \<and> 0 < new_len h"
proof (induction ms arbitrary: s)
  case (Cons m ms)
  from Cons.prems obtain s' where s': "span_step c p rn s m = Some s'" "span_steps c p rn s' ms = Some t"
    by (auto split: option.splits)
  have "sc_spans s' = sc_spans s \<or> (\<exists>op k. sc_spans s' = sc_spans s @ [fst (close_span c op k)])"
    using s'(1) by (auto simp: span_step_def advance_lines_def Let_def split: option.splits if_splits prod.splits) (metis fst_conv)+
  then show ?case using Cons.IH [OF s'(2)] Cons.prems(2) close_span_len by fastforce
qed simp

lemma edit_spans_len:
  assumes "edit_spans c p r all = Some spans" "h \<in> set spans"
  shows "0 < old_len h \<and> 0 < new_len h"
proof -
  from assms(1) obtain ms t op where t: "span_steps c p (count_newlines r) scan_start ms = Some t"
    "spans = sc_spans t @ [fst (close_span c op (sc_shift t))]"
    unfolding edit_spans_def Let_def by (auto split: option.splits)
  show ?thesis using span_steps_len [OF t(1)] close_span_len assms(2) t(2) by (auto simp: scan_start_def)
qed

lemma edit_hunks_describe:
  assumes "edit_spans c p r all = Some spans" "replace_exact c p r all = Inr n" "length n \<le> usize_max"
    "file_diff_hunks pol f c n spans mv m = Inr d"
  shows "\<exists>hs. aligned (diff_lines c) (diff_lines n) 0 0 hs \<and>
    additions d = sum_list (map new_len hs) \<and> deletions d = sum_list (map old_len hs)"
proof -
  let ?l = "diff_lines c" and ?l' = "diff_lines n"
  let ?trim = "\<lambda>hs. filter (\<lambda>h. old_len h > 0 \<or> new_len h > 0) (map (trim_hunk ?l ?l') hs)"
  let ?clamped = "map (clamp_hunk (length ?l) (length ?l')) spans"
  have len: "\<forall>h\<in>set spans. 0 < old_len h \<and> 0 < new_len h" using edit_spans_len [OF assms(1)] by blast
  note al = edit_spans_aligned [OF assms(1-3)]
  have cl: "aligned ?l ?l' 0 0 ?clamped" using aligned_clip [OF al len] by (simp add: diff_lines_clip)
  have eq: "map (trim_hunk ?l ?l') ?clamped = map (trim_hunk ?l ?l') spans"
    using aligned_start [OF al len] by (auto simp: diff_lines_clip clamp_trim)
  have "aligned ?l ?l' 0 0 (?trim spans)" using aligned_trim [OF cl] unfolding eq .
  moreover have "additions d = sum_list (map new_len (?trim spans))" "deletions d = sum_list (map old_len (?trim spans))"
    using assms(4) by (auto simp: file_diff_hunks_def Let_def split: sum.splits)
  ultimately show ?thesis by blast
qed

lemma file_diff_describes:
  assumes "file_diff pol f c n mv m = Inr d"
  shows "\<exists>hs. aligned (diff_lines c) (diff_lines n) 0 0 hs \<and>
    additions d = sum_list (map new_len hs) \<and> deletions d = sum_list (map old_len hs)"
  using assms
proof (rule file_diff_parts)
  fix pre removed added post
  assume "diff_lines c = pre @ removed @ post" "diff_lines n = pre @ added @ post"
    "deletions d = length removed" "additions d = length added"
  then show ?thesis
    by (intro exI [of _ "[\<lparr>old_start = length pre, old_len = length removed, new_start = length pre, new_len = length added\<rparr>]"])
      simp
qed

text \<open>
  C26. A prepared edit reports what it will do: the text it holds is the exact replacement under the
  file's own line endings and within the write limit; the counts it reports are those of hunks that
  describe the whole change between the displayed lines, whichever renderer is used and however
  many matches merge, shift or are dropped from the preview; and the preview keeps its byte bound.
\<close>

theorem prepare_edit_reports:
  assumes "prepare_edit retained pol limits f rel input mr old = Inr (new, out)" "length new \<le> usize_max"
  shows "(let ending = (if find_sub [CR, NL] old \<noteq> None then [CR, NL] else [NL])
      in replace_exact old (line_ending (edit_old_string input) ending) (line_ending (edit_new_string input) ending)
          (edit_replace_all input = Some True) = Inr new) \<and>
    byte_len new \<le> max_write_bytes limits \<and> byte_len (fd_patch (edit_diff out)) \<le> max_diff_bytes limits \<and>
    (\<exists>hs. aligned (diff_lines old) (diff_lines new) 0 0 hs \<and> additions (edit_diff out) = sum_list (map new_len hs) \<and>
       deletions (edit_diff out) = sum_list (map old_len hs)) \<and>
    length (diff_lines old) + additions (edit_diff out) = length (diff_lines new) + deletions (edit_diff out)"
proof -
  let ?e = "if find_sub [CR, NL] old \<noteq> None then [CR, NL] else [NL]"
  let ?p = "line_ending (edit_old_string input) ?e" and ?r = "line_ending (edit_new_string input) ?e"
  let ?all = "edit_replace_all input = Some True"
  have run: "replace_exact old ?p ?r ?all = Inr new" "byte_len new \<le> max_write_bytes limits"
    "(case edit_spans old ?p ?r ?all of
        Some spans \<Rightarrow> file_diff_hunks pol f old new spans None (max_diff_bytes limits)
      | None \<Rightarrow> file_diff pol f old new None (max_diff_bytes limits)) = Inr (edit_diff out)"
    using assms(1) by (auto simp: prepare_edit_def Let_def split: if_splits sum.splits)
  have bound: "byte_len (fd_patch (edit_diff out)) \<le> max_diff_bytes limits"
    using run(3) file_diff_bound file_diff_hunks_bound by (auto split: option.splits)
  have "\<exists>hs. aligned (diff_lines old) (diff_lines new) 0 0 hs \<and> additions (edit_diff out) = sum_list (map new_len hs) \<and>
       deletions (edit_diff out) = sum_list (map old_len hs)"
    using run(3) edit_hunks_describe [OF _ run(1) assms(2)] file_diff_describes by (auto split: option.splits)
  moreover from this have "length (diff_lines old) + additions (edit_diff out) = length (diff_lines new) + deletions (edit_diff out)"
    using aligned_count by fastforce
  ultimately show ?thesis using run(1,2) bound by (simp add: Let_def)
qed

theorem prepare_edit_reports_witness:
  "\<exists>out. prepare_edit (\<lambda>_ _. 0) demo_diff_policy default_limits [RootDir, Normal (u ''f'')] (u ''f'')
       \<lparr>edit_file_path = u ''f'', edit_old_string = u ''b'', edit_new_string = u ''c'', edit_replace_all = None\<rparr> 100 (u ''ab'') = Inr (u ''ac'', out) \<and>
     length (diff_lines (u ''ab'')) + additions (edit_diff out) = length (diff_lines (u ''ac'')) + deletions (edit_diff out)"
proof -
  let ?i = "\<lparr>edit_file_path = u ''f'', edit_old_string = u ''b'', edit_new_string = u ''c'', edit_replace_all = None\<rparr>"
  have rel: "relative demo_diff_policy [RootDir, Normal [102]] = Inr [102]" using demo_relative by (simp add: u_def)
  have "\<exists>out. prepare_edit (\<lambda>_ _. 0) demo_diff_policy default_limits [RootDir, Normal (u ''f'')] (u ''f'') ?i 100 (u ''ab'') =
      Inr (u ''ac'', out)"
    by (simp add: prepare_edit_def line_ending_def str_replace_def replace_exact_def starts_with_def default_limits_def
        file_diff_hunks_def file_diff_def rel Let_def u_def byte_len_def len_utf8_def split: option.split)
  then obtain out where run: "prepare_edit (\<lambda>_ _. 0) demo_diff_policy default_limits [RootDir, Normal (u ''f'')] (u ''f'') ?i 100
      (u ''ab'') = Inr (u ''ac'', out)" by blast
  have "length (u ''ac'') \<le> usize_max" by (simp add: u_def usize_max_def)
  from prepare_edit_reports [OF run this] run show ?thesis by blast
qed

text \<open>
  Two strings that differ only in their line endings pass the identity check and are the same string
  afterwards: such an edit is accepted and changes nothing.
\<close>

lemma identity_checked_before_endings:
  "u ''a'' @ [CR, NL] \<noteq> u ''a'' @ [NL]"
  "line_ending (u ''a'' @ [CR, NL]) ending = line_ending (u ''a'' @ [NL]) ending"
  by (simp_all add: line_ending_def str_replace_def starts_with_def u_def)

end
