(* ===== verification/File_Mutation.thy ===== *)
theory File_Mutation
  imports File_Publish File_Fit Text_Edit
begin

text \<open>
  The mutating file tools, from the request to the published result: writes, edits and patches are
  prepared with a preview of the difference and the version of the file it was made from
  (\<open>mutation_operations/write.rs\<close>, \<open>edit.rs\<close>, \<open>patch.rs\<close>), and executed against that version
  (\<open>group.rs\<close>). Operations through one group run one at a time under its lock, so an operation is
  one function on the history of system calls. What the allocator holds is a parameter.
\<close>

section \<open>Writes\<close>

record Allocator =
  a_capacity :: "ustr \<Rightarrow> nat"
  a_change :: "PlannedChange \<Rightarrow> nat"
  a_preview :: "PlannedChange \<Rightarrow> nat"

definition nonempty :: "ustr \<Rightarrow> ustr \<Rightarrow> FilesystemError + unit" where
  "nonempty value name =
     (if value = [] then Inl (InvalidRequest (u ''Invalid arguments: '' @ name @ u '' must not be empty'')) else Inr ())"

record FileWriteInput =
  write_file_path :: ustr
  write_content :: ustr

record FileWriteOutput =
  write_path :: ustr
  write_relative_path :: ustr
  write_existed :: bool
  write_applied :: bool
  write_diff :: FileDiff
  write_previous :: "ustr option"

definition enforce_preparation_peak :: "nat \<Rightarrow> nat \<Rightarrow> FilesystemError + unit" where
  "enforce_preparation_peak bs most =
     (if bs > most
      then Inl (InvalidRequest (u ''File write preparation exceeds maximum retained size of '' @ dec most @ u '' bytes''))
      else Inr ())"

definition read_existing :: "Os \<Rightarrow> Tools \<Rightarrow> FilesystemCore \<Rightarrow> Path \<Rightarrow> (FilesystemError, FileSnapshot option) op" where
  "read_existing os tools core path =
     bind (attempt (read_text_snapshot_required os (t_sha tools) (t_format tools) path (max_file_bytes (core_limits core))))
       (\<lambda>r. case r of
          Inr snapshot \<Rightarrow> return (Some snapshot)
        | Inl e \<Rightarrow> if is_not_found e then return None else fail e)"

definition prepare_write_core ::
  "Os \<Rightarrow> Tools \<Rightarrow> Allocator \<Rightarrow> FilesystemCore \<Rightarrow> Path \<Rightarrow> ustr \<Rightarrow> FileWriteInput \<Rightarrow> nat \<Rightarrow>
     (FilesystemError, ustr \<times> FileVersion option \<times> FileWriteOutput) op" where
  "prepare_write_core os tools alloc core file_path relative_path input maximum_retained =
     bind (poll os) (\<lambda>_.
     bind (lift (enforce_bytes (u ''content'') (write_content input) (max_write_bytes (core_limits core)))) (\<lambda>_.
     bind (read_existing os tools core file_path) (\<lambda>snapshot.
     let existing = map_option snap_content snapshot;
         old_content = (case existing of Some c \<Rightarrow> c | None \<Rightarrow> [])
     in bind (lift (enforce_preparation_peak
               (sat_add (sat_add (byte_len old_content) (a_capacity alloc (write_content input)))
                  (line_index_retained_bytes [old_content, write_content input])) maximum_retained)) (\<lambda>_.
        bind (lift (file_diff (core_policy core) file_path old_content (write_content input) None
                      (max_diff_bytes (core_limits core)))) (\<lambda>diff.
        return (write_content input, map_option snap_version snapshot,
          \<lparr>write_path = path_text file_path, write_relative_path = relative_path, write_existed = (existing \<noteq> None),
           write_applied = False, write_diff = diff,
           write_previous = (case existing of
              Some c \<Rightarrow> if byte_len c \<le> max_previous_bytes (core_limits core) then Some c else None
            | None \<Rightarrow> None)\<rparr>))))))"

text \<open>A prepared write or edit: the resource, the content to publish and the version it replaces.\<close>

record 'output Prepared =
  pr_resource :: FileResource
  pr_content :: ustr
  pr_expected :: "FileVersion option"
  pr_preview :: 'output

definition prepare_write_bounded ::
  "Os \<Rightarrow> Tools \<Rightarrow> Allocator \<Rightarrow> FilesystemCore \<Rightarrow> FileWriteInput \<Rightarrow> nat \<Rightarrow> (FilesystemError, FileWriteOutput Prepared) op" where
  "prepare_write_bounded os tools alloc core input maximum_retained =
     bind (lift (nonempty (write_file_path input) (u ''filePath''))) (\<lambda>_.
     bind (resolve_path os tools core (write_file_path input)) (\<lambda>path.
     bind (lift (relative (core_policy core) path)) (\<lambda>relative_path.
     bind (prepare_write_core os tools alloc core path relative_path input maximum_retained) (\<lambda>(content, expected, preview).
     return \<lparr>pr_resource = \<lparr>res_requested_path = write_file_path input, res_path = path, res_relative_path = relative_path,
                res_access = (if expected \<noteq> None then ReadWrite else Write)\<rparr>,
             pr_content = content, pr_expected = expected, pr_preview = preview\<rparr>))))"

definition prepare_write ::
  "Os \<Rightarrow> Tools \<Rightarrow> Allocator \<Rightarrow> FilesystemCore \<Rightarrow> FileWriteInput \<Rightarrow> (FilesystemError, FileWriteOutput Prepared) op" where
  "prepare_write os tools alloc core input = prepare_write_bounded os tools alloc core input usize_max"

definition execute_prepared_write ::
  "Os \<Rightarrow> Tools \<Rightarrow> FilesystemCore \<Rightarrow> FileWriteOutput Prepared \<Rightarrow> (FilesystemError, FileWriteOutput) op" where
  "execute_prepared_write os tools core prepared =
     bind (poll os) (\<lambda>_.
     bind (lift (require_write core)) (\<lambda>_.
     bind (commit_write os tools core (res_requested_path (pr_resource prepared)) (res_path (pr_resource prepared))
             (pr_content prepared) (pr_expected prepared = None) (pr_expected prepared)) (\<lambda>_.
     return ((pr_preview prepared)\<lparr>write_applied := True\<rparr>))))"

section \<open>Edits\<close>

definition prepare_edit_core ::
  "Os \<Rightarrow> Tools \<Rightarrow> Allocator \<Rightarrow> FilesystemCore \<Rightarrow> Path \<Rightarrow> ustr \<Rightarrow> FileEditInput \<Rightarrow> nat \<Rightarrow>
     (FilesystemError, ustr \<times> FileVersion \<times> FileEditOutput) op" where
  "prepare_edit_core os tools alloc core file_path relative_path input maximum_retained =
     bind (poll os) (\<lambda>_.
     if edit_old_string input = edit_new_string input
     then fail (InvalidRequest (u ''No changes to apply: strings are identical''))
     else
       bind (read_text_snapshot_required os (t_sha tools) (t_format tools) file_path (max_file_bytes (core_limits core)))
         (\<lambda>snapshot.
       bind (lift (prepare_edit
               (\<lambda>old new. sat_add (sat_add (a_capacity alloc old) (a_capacity alloc new)) (line_index_retained_bytes [old, new]))
               (core_policy core) (core_limits core) file_path relative_path input maximum_retained (snap_content snapshot)))
         (\<lambda>(content, output). return (content, snap_version snapshot, output))))"

definition prepare_edit_bounded ::
  "Os \<Rightarrow> Tools \<Rightarrow> Allocator \<Rightarrow> FilesystemCore \<Rightarrow> FileEditInput \<Rightarrow> nat \<Rightarrow> (FilesystemError, FileEditOutput Prepared) op" where
  "prepare_edit_bounded os tools alloc core input maximum_retained =
     bind (lift (nonempty (edit_file_path input) (u ''filePath''))) (\<lambda>_.
     bind (lift (nonempty (edit_old_string input) (u ''oldString''))) (\<lambda>_.
     bind (resolve_path os tools core (edit_file_path input)) (\<lambda>path.
     bind (lift (relative (core_policy core) path)) (\<lambda>relative_path.
     bind (prepare_edit_core os tools alloc core path relative_path input maximum_retained) (\<lambda>(content, expected, preview).
     return \<lparr>pr_resource = \<lparr>res_requested_path = edit_file_path input, res_path = path, res_relative_path = relative_path,
                res_access = ReadWrite\<rparr>,
             pr_content = content, pr_expected = Some expected, pr_preview = preview\<rparr>)))))"

definition execute_prepared_edit ::
  "Os \<Rightarrow> Tools \<Rightarrow> FilesystemCore \<Rightarrow> FileEditOutput Prepared \<Rightarrow> (FilesystemError, FileEditOutput) op" where
  "execute_prepared_edit os tools core prepared =
     bind (poll os) (\<lambda>_.
     bind (lift (require_write core)) (\<lambda>_.
     bind (commit_write os tools core (res_requested_path (pr_resource prepared)) (res_path (pr_resource prepared))
             (pr_content prepared) False (pr_expected prepared)) (\<lambda>_.
     return ((pr_preview prepared)\<lparr>edit_applied := True\<rparr>))))"

section \<open>Planning a patch\<close>

record PatchPlanBudget =
  budget_retained :: nat
  budget_maximum :: nat

definition PatchPlanBudget_new :: "nat \<Rightarrow> nat \<Rightarrow> PatchPlanBudget" where
  "PatchPlanBudget_new most patch_bytes = \<lparr>budget_retained = sat_mul patch_bytes 2, budget_maximum = most\<rparr>"

definition ensure_peak :: "PatchPlanBudget \<Rightarrow> nat \<Rightarrow> nat \<Rightarrow> nat \<Rightarrow> FilesystemError + unit" where
  "ensure_peak budget old_bytes new_bytes diff_bytes =
     (let measured = (case checked_add (budget_retained budget) old_bytes of
                        None \<Rightarrow> usize_max
                      | Some v \<Rightarrow> (case checked_add v new_bytes of
                                    None \<Rightarrow> usize_max
                                  | Some v \<Rightarrow> (case checked_add v diff_bytes of None \<Rightarrow> usize_max | Some v \<Rightarrow> v)))
      in if measured > budget_maximum budget
         then Inl (InvalidRequest (u ''Patch plan exceeds maximum content budget of '' @ dec (budget_maximum budget) @ u '' bytes''))
         else Inr ())"

record PatchPlan =
  plan_used :: "Path list"
  plan_changes :: "PlannedChange list"
  plan_budget :: PatchPlanBudget

definition push_change :: "Allocator \<Rightarrow> PlannedChange \<Rightarrow> nat \<Rightarrow> PatchPlan \<Rightarrow> FilesystemError + PatchPlan" where
  "push_change alloc change old_bytes plan =
     (case ensure_peak (plan_budget plan) old_bytes (a_capacity alloc (pc_new_content change))
             (a_capacity alloc (fd_patch (pc_diff change))) of
        Inl e \<Rightarrow> Inl e
      | Inr _ \<Rightarrow>
          (case checked_add (budget_retained (plan_budget plan)) (a_change alloc change) of
             None \<Rightarrow> Inl (Operation (u ''Patch plan content budget overflow''))
           | Some retained \<Rightarrow>
               Inr (plan\<lparr>plan_budget := (plan_budget plan)\<lparr>budget_retained := retained\<rparr>,
                         plan_changes := plan_changes plan @ [change]\<rparr>)))"

text \<open>The three kinds of section, after the path of the section is claimed.\<close>

definition plan_add ::
  "Os \<Rightarrow> Tools \<Rightarrow> Allocator \<Rightarrow> FilesystemCore \<Rightarrow> ustr \<Rightarrow> Path \<Rightarrow> ustr \<Rightarrow> PatchPlan \<Rightarrow> (FilesystemError, PatchPlan) op" where
  "plan_add os tools alloc core hpath file_path contents plan =
     bind (exists_file os file_path) (\<lambda>present.
     if present then fail (InvalidRequest (u ''Cannot add existing file: '' @ hpath))
     else
       bind (lift (enforce_bytes (u ''added file'') contents (max_write_bytes (core_limits core)))) (\<lambda>_.
       bind (lift (ensure_peak (plan_budget plan) 0 (byte_len contents) 0)) (\<lambda>_.
       bind (lift (file_diff (core_policy core) file_path [] contents None (max_diff_bytes (core_limits core)))) (\<lambda>diff.
       lift (push_change alloc
         \<lparr>pc_requested_path = hpath, pc_file_path = file_path, pc_new_content = contents, pc_change_type = Add,
          pc_move_path = None, pc_requested_move_path = None, pc_diff = diff, pc_expected_source = None\<rparr> 0 plan)))))"

definition plan_delete ::
  "Os \<Rightarrow> Tools \<Rightarrow> Allocator \<Rightarrow> FilesystemCore \<Rightarrow> ustr \<Rightarrow> Path \<Rightarrow> PatchPlan \<Rightarrow> (FilesystemError, PatchPlan) op" where
  "plan_delete os tools alloc core hpath file_path plan =
     bind (lift (ensure_peak (plan_budget plan) (max_file_bytes (core_limits core)) 0 (max_diff_bytes (core_limits core)))) (\<lambda>_.
     bind (read_text_snapshot_required os (t_sha tools) (t_format tools) file_path (max_file_bytes (core_limits core)))
       (\<lambda>snapshot.
     let old_bytes = byte_len (snap_content snapshot)
     in bind (lift (ensure_peak (plan_budget plan) old_bytes 0 (line_index_retained_bytes [snap_content snapshot]))) (\<lambda>_.
        bind (lift (file_diff (core_policy core) file_path (snap_content snapshot) [] None
                      (max_diff_bytes (core_limits core)))) (\<lambda>diff.
        lift (push_change alloc
          \<lparr>pc_requested_path = hpath, pc_file_path = file_path, pc_new_content = [], pc_change_type = Delete,
           pc_move_path = None, pc_requested_move_path = None, pc_diff = diff,
           pc_expected_source = Some (snap_version snapshot)\<rparr> old_bytes plan)))))"

definition claim_target ::
  "Os \<Rightarrow> Tools \<Rightarrow> FilesystemCore \<Rightarrow> ustr option \<Rightarrow> PatchPlan \<Rightarrow>
     (FilesystemError, (ustr \<times> Path) option \<times> PatchPlan) op" where
  "claim_target os tools core move_path plan =
     (case move_path of
        None \<Rightarrow> return (None, plan)
      | Some requested \<Rightarrow>
          bind (resolve_path os tools core requested) (\<lambda>target.
          if target \<in> set (plan_used plan)
          then fail (InvalidRequest (u ''Patch target conflicts with another path: '' @ requested))
          else bind (exists_file os target) (\<lambda>present.
            if present then fail (InvalidRequest (u ''Cannot move over existing file: '' @ requested))
            else return (Some (requested, target), plan\<lparr>plan_used := target # plan_used plan\<rparr>))))"

definition plan_update ::
  "Os \<Rightarrow> Tools \<Rightarrow> Allocator \<Rightarrow> FilesystemCore \<Rightarrow> ustr \<Rightarrow> Path \<Rightarrow> ustr option \<Rightarrow> UpdateChunk list \<Rightarrow> PatchPlan \<Rightarrow>
     (FilesystemError, PatchPlan) op" where
  "plan_update os tools alloc core hpath file_path move_path chunks plan =
     bind (lift (ensure_peak (plan_budget plan) (max_file_bytes (core_limits core)) (max_write_bytes (core_limits core))
                   (max_diff_bytes (core_limits core)))) (\<lambda>_.
     bind (read_text_snapshot_required os (t_sha tools) (t_format tools) file_path (max_file_bytes (core_limits core)))
       (\<lambda>snapshot.
     let old_bytes = byte_len (snap_content snapshot)
     in bind (lift (ensure_peak (plan_budget plan) old_bytes 0 0)) (\<lambda>_.
        bind (lift (apply_update_chunks hpath chunks (snap_content snapshot))) (\<lambda>(new_content, spans).
        bind (lift (enforce_bytes (u ''patched file'') new_content (max_write_bytes (core_limits core)))) (\<lambda>_.
        bind (lift (ensure_peak (plan_budget plan) old_bytes (byte_len new_content)
                (line_index_retained_bytes [snap_content snapshot, new_content]))) (\<lambda>_.
        bind (claim_target os tools core move_path plan) (\<lambda>(target, plan).
        bind (lift (file_diff_hunks (core_policy core) file_path (snap_content snapshot) new_content spans
                      (map_option snd target) (max_diff_bytes (core_limits core)))) (\<lambda>diff.
        lift (push_change alloc
          \<lparr>pc_requested_path = hpath, pc_file_path = file_path, pc_new_content = new_content,
           pc_change_type = (if target = None then Update else Move), pc_move_path = map_option snd target,
           pc_requested_move_path = map_option fst target, pc_diff = diff,
           pc_expected_source = Some (snap_version snapshot)\<rparr> old_bytes plan)))))))))"

definition plan_hunk ::
  "Os \<Rightarrow> Tools \<Rightarrow> Allocator \<Rightarrow> FilesystemCore \<Rightarrow> PatchHunk \<Rightarrow> PatchPlan \<Rightarrow> (FilesystemError, PatchPlan) op" where
  "plan_hunk os tools alloc core hunk plan =
     bind (poll os) (\<lambda>_.
     bind (resolve_path os tools core (hunk_path hunk)) (\<lambda>file_path.
     if file_path \<in> set (plan_used plan)
     then fail (InvalidRequest (u ''Patch references a path more than once: '' @ hunk_path hunk))
     else
       let plan = plan\<lparr>plan_used := file_path # plan_used plan\<rparr>
       in case hunk of
            AddFile _ contents \<Rightarrow> plan_add os tools alloc core (hunk_path hunk) file_path contents plan
          | DeleteFile _ \<Rightarrow> plan_delete os tools alloc core (hunk_path hunk) file_path plan
          | UpdateFile _ move_path chunks \<Rightarrow>
              plan_update os tools alloc core (hunk_path hunk) file_path move_path chunks plan))"

fun plan_hunks ::
  "Os \<Rightarrow> Tools \<Rightarrow> Allocator \<Rightarrow> FilesystemCore \<Rightarrow> PatchHunk list \<Rightarrow> PatchPlan \<Rightarrow> (FilesystemError, PatchPlan) op" where
  "plan_hunks os tools alloc core [] plan = return plan"
| "plan_hunks os tools alloc core (hunk # hunks) plan =
     bind (plan_hunk os tools alloc core hunk plan) (plan_hunks os tools alloc core hunks)"

definition plan_patch ::
  "Os \<Rightarrow> Tools \<Rightarrow> Allocator \<Rightarrow> FilesystemCore \<Rightarrow> ustr \<Rightarrow> nat \<Rightarrow> (FilesystemError, PlannedChange list) op" where
  "plan_patch os tools alloc core patch_text maximum_retained =
     bind (lift (parse_patch patch_text)) (\<lambda>hunks.
     if length hunks > max_patch_files (core_limits core)
     then fail (InvalidRequest (u ''Patch exceeds maximum of '' @ dec (max_patch_files (core_limits core)) @ u '' file sections''))
     else bind (plan_hunks os tools alloc core hunks
                  \<lparr>plan_used = [], plan_changes = [],
                   plan_budget = PatchPlanBudget_new maximum_retained (byte_len patch_text)\<rparr>)
            (\<lambda>plan. return (plan_changes plan)))"

section \<open>The receipt of a patch\<close>

definition MCP_RAW_RESULT_CEILING_BYTES :: nat where "MCP_RAW_RESULT_CEILING_BYTES = 64000"

record FileMutation =
  fm_file_path :: ustr
  fm_relative_path :: ustr
  fm_type :: PlannedChangeType
  fm_patch :: ustr
  fm_additions :: nat
  fm_deletions :: nat
  fm_truncated :: bool
  fm_move_path :: "ustr option"

record FileApplyPatchOutput =
  patch_applied :: bool
  patch_diff :: ustr
  patch_files :: "FileMutation list"
  patch_truncated :: bool

definition assemble :: "FileMutation list \<Rightarrow> bool \<Rightarrow> FileApplyPatchOutput" where
  "assemble files applied =
     \<lparr>patch_applied = applied, patch_diff = join [NL] (map fm_patch files), patch_files = files,
      patch_truncated = (\<exists>f\<in>set files. fm_truncated f)\<rparr>"

definition shorten_file :: "nat \<Rightarrow> FileMutation \<Rightarrow> FileMutation" where
  "shorten_file allowance f =
     (case shorten_patch (fm_patch f) allowance of
        Some patch \<Rightarrow> f\<lparr>fm_patch := patch, fm_truncated := True\<rparr>
      | None \<Rightarrow> f)"

definition shorten :: "FileApplyPatchOutput \<Rightarrow> nat \<Rightarrow> FileApplyPatchOutput" where
  "shorten output allowance = assemble (map (shorten_file allowance) (patch_files output)) (patch_applied output)"

text \<open>The size of the serialized response, or \<open>None\<close> where it cannot be serialized, is a parameter.\<close>

definition measure_output :: "(FileApplyPatchOutput \<Rightarrow> nat option) \<Rightarrow> FileApplyPatchOutput \<Rightarrow> FilesystemError + nat" where
  "measure_output response_size output =
     (case response_size output of None \<Rightarrow> Inl (Operation (u ''Cannot serialize patch result'')) | Some n \<Rightarrow> Inr n)"

definition fit :: "(FileApplyPatchOutput \<Rightarrow> nat option) \<Rightarrow> FileApplyPatchOutput \<Rightarrow> nat \<Rightarrow> FilesystemError + FileApplyPatchOutput" where
  "fit response_size output limit =
     (case measure_output response_size output of
        Inl e \<Rightarrow> Inl e
      | Inr n \<Rightarrow>
          if n \<le> limit then Inr output
          else
            let fits = (\<lambda>candidate. case measure_output response_size (shorten output candidate) of
                                     Inl e \<Rightarrow> Inl e | Inr n \<Rightarrow> Inr (n \<le> limit))
            in case bisect fits 0 (fold max (map (byte_len \<circ> fm_patch) (patch_files output)) 0) of
                 Inl e \<Rightarrow> Inl e
               | Inr lower \<Rightarrow>
                   let fitted = shorten output lower
                   in case measure_output response_size fitted of
                        Inl e \<Rightarrow> Inl e
                      | Inr n \<Rightarrow>
                          if n > limit
                          then Inl (InvalidRequest (u ''Patch result exceeds maximum size of '' @ dec limit @ u '' bytes''))
                          else Inr fitted)"

definition mutation_of :: "FilesystemCore \<Rightarrow> PlannedChange \<Rightarrow> FilesystemError + FileMutation" where
  "mutation_of core c =
     (case relative (core_policy core) (case pc_move_path c of Some m \<Rightarrow> m | None \<Rightarrow> pc_file_path c) of
        Inl e \<Rightarrow> Inl e
      | Inr relative_path \<Rightarrow>
          Inr \<lparr>fm_file_path = path_text (pc_file_path c), fm_relative_path = relative_path, fm_type = pc_change_type c,
               fm_patch = fd_patch (pc_diff c), fm_additions = additions (pc_diff c), fm_deletions = deletions (pc_diff c),
               fm_truncated = fd_truncated (pc_diff c), fm_move_path = map_option path_text (pc_move_path c)\<rparr>)"

fun collect :: "('a \<Rightarrow> 'e + 'b) \<Rightarrow> 'a list \<Rightarrow> 'e + 'b list" where
  "collect f [] = Inr []"
| "collect f (x # xs) =
     (case f x of Inl e \<Rightarrow> Inl e | Inr y \<Rightarrow> (case collect f xs of Inl e \<Rightarrow> Inl e | Inr ys \<Rightarrow> Inr (y # ys)))"

definition patch_output :: "FilesystemCore \<Rightarrow> PlannedChange list \<Rightarrow> bool \<Rightarrow> FilesystemError + FileApplyPatchOutput" where
  "patch_output core changes applied =
     (case collect (mutation_of core) changes of Inl e \<Rightarrow> Inl e | Inr files \<Rightarrow> Inr (assemble files applied))"

definition fit_patch_output ::
  "(FileApplyPatchOutput \<Rightarrow> nat option) \<Rightarrow> FilesystemCore \<Rightarrow> FileApplyPatchOutput \<Rightarrow> FilesystemError + FileApplyPatchOutput" where
  "fit_patch_output response_size core output =
     fit response_size output (min (max_patch_result_bytes (core_limits core)) MCP_RAW_RESULT_CEILING_BYTES)"

text \<open>What the plan and its preview hold while the preview is made.\<close>

definition patch_preview_peak :: "Allocator \<Rightarrow> PlannedChange list \<Rightarrow> nat" where
  "patch_preview_peak alloc changes =
     sat_add (foldl sat_add 0 (map (a_change alloc) changes)) (foldl sat_add 0 (map (a_preview alloc) changes))"

definition enforce_patch_bytes :: "nat \<Rightarrow> nat \<Rightarrow> FilesystemError + unit" where
  "enforce_patch_bytes bs most =
     (if bs > most then Inl (InvalidRequest (u ''Patch plan exceeds maximum retained size of '' @ dec most @ u '' bytes''))
      else Inr ())"

definition prepare_patch_bounded ::
  "Os \<Rightarrow> Tools \<Rightarrow> Allocator \<Rightarrow> (FileApplyPatchOutput \<Rightarrow> nat option) \<Rightarrow> FilesystemCore \<Rightarrow> ustr \<Rightarrow> nat \<Rightarrow>
     (FilesystemError, PlannedChange list \<times> FileApplyPatchOutput) op" where
  "prepare_patch_bounded os tools alloc response_size core patch_text maximum_retained =
     bind (poll os) (\<lambda>_.
     bind (lift (enforce_bytes (u ''patchText'') patch_text (max_patch_bytes (core_limits core)))) (\<lambda>_.
     let maximum_retained = min maximum_retained (max_patch_plan_bytes (core_limits core))
     in bind (plan_patch os tools alloc core patch_text maximum_retained) (\<lambda>changes.
        bind (lift (enforce_patch_bytes (patch_preview_peak alloc changes) maximum_retained)) (\<lambda>_.
        bind (lift (patch_output core changes False)) (\<lambda>output.
        bind (lift (fit_patch_output response_size core output)) (\<lambda>output.
        return (changes, output)))))))"

definition change_access :: "PlannedChangeType \<Rightarrow> FileResourceAccess" where
  "change_access t = (case t of Add \<Rightarrow> Write | Update \<Rightarrow> ReadWrite | Delete \<Rightarrow> DeleteAccess | Move \<Rightarrow> DeleteAccess)"

definition change_resources :: "FilesystemCore \<Rightarrow> PlannedChange \<Rightarrow> FilesystemError + FileResource list" where
  "change_resources core c =
     (case relative (core_policy core) (pc_file_path c) of
        Inl e \<Rightarrow> Inl e
      | Inr r \<Rightarrow>
          let source = \<lparr>res_requested_path = pc_requested_path c, res_path = pc_file_path c, res_relative_path = r,
                        res_access = change_access (pc_change_type c)\<rparr>
          in case pc_move_path c of
               None \<Rightarrow> Inr [source]
             | Some target \<Rightarrow>
                 (case relative (core_policy core) target of
                    Inl e \<Rightarrow> Inl e
                  | Inr r \<Rightarrow>
                      Inr [source, \<lparr>res_requested_path = (case pc_requested_move_path c of Some q \<Rightarrow> q | None \<Rightarrow> []),
                                    res_path = target, res_relative_path = r, res_access = Write\<rparr>]))"

record PreparedFilePatch =
  pp_changes :: "PlannedChange list"
  pp_preview :: FileApplyPatchOutput
  pp_resources :: "FileResource list"

definition prepare_apply_patch_bounded ::
  "Os \<Rightarrow> Tools \<Rightarrow> Allocator \<Rightarrow> (FileApplyPatchOutput \<Rightarrow> nat option) \<Rightarrow> (PreparedFilePatch \<Rightarrow> nat) \<Rightarrow> FilesystemCore \<Rightarrow>
     ustr \<Rightarrow> nat \<Rightarrow> (FilesystemError, PreparedFilePatch) op" where
  "prepare_apply_patch_bounded os tools alloc response_size retained core patch_text maximum_retained =
     bind (lift (nonempty patch_text (u ''patchText''))) (\<lambda>_.
     bind (prepare_patch_bounded os tools alloc response_size core patch_text maximum_retained) (\<lambda>(changes, preview).
     bind (lift (collect (change_resources core) changes)) (\<lambda>resources.
     let prepared = \<lparr>pp_changes = changes, pp_preview = preview, pp_resources = concat resources\<rparr>
     in if retained prepared > maximum_retained
        then fail (InvalidRequest (u ''Patch plan exceeds maximum retained size of '' @ dec maximum_retained @ u '' bytes''))
        else return prepared)))"

definition execute_prepared_patch ::
  "Os \<Rightarrow> Tools \<Rightarrow> FilesystemCore \<Rightarrow> PreparedFilePatch \<Rightarrow> (Failure, FileApplyPatchOutput) op" where
  "execute_prepared_patch os tools core prepared =
     bind (map_err Refused (poll os)) (\<lambda>_.
     bind (publish_prepared_patch os tools core (pp_changes prepared)) (\<lambda>_.
     return ((pp_preview prepared)\<lparr>patch_applied := True\<rparr>)))"

section \<open>Plans are well formed\<close>

lemma resolve_inside: "resolve lower canon pol requested = Inr p \<Longrightarrow> confined pol \<Longrightarrow> inside lower pol p"
  using resolve_existing_checked [of lower canon pol requested _ "[]" p]
  by (auto simp: resolve_def assert_both_iff split: if_splits sum.splits)

lemma resolve_path_ok:
  "resolve_path os tools core requested log = (Inr p, log') \<Longrightarrow> confined (core_policy core) \<longrightarrow> inside (t_lower tools) (core_policy core) p"
  by (auto simp: resolve_path_def Let_def dest: resolve_inside)

definition wf_change :: "PlannedChange \<Rightarrow> bool" where
  "wf_change c =
     (case pc_change_type c of
        Add \<Rightarrow> pc_expected_source c = None \<and> pc_move_path c = None
      | Move \<Rightarrow> pc_expected_source c \<noteq> None \<and> pc_move_path c \<noteq> None \<and> pc_requested_move_path c \<noteq> None
      | _ \<Rightarrow> pc_expected_source c \<noteq> None \<and> pc_move_path c = None)"

definition change_paths :: "PlannedChange \<Rightarrow> Path list" where
  "change_paths c = pc_file_path c # (case pc_move_path c of Some m \<Rightarrow> [m] | None \<Rightarrow> [])"

text \<open>Changes are well formed, their paths are claimed, all different, and each is a path the policy resolved.\<close>

definition plan_ok :: "Tools \<Rightarrow> FilesystemCore \<Rightarrow> PatchPlan \<Rightarrow> bool" where
  "plan_ok tools core plan \<longleftrightarrow>
     list_all wf_change (plan_changes plan) \<and>
     set (plan_used plan) = set (concat (map change_paths (plan_changes plan))) \<and>
     distinct (concat (map change_paths (plan_changes plan))) \<and>
     (confined (core_policy core) \<longrightarrow> (\<forall>p\<in>set (plan_used plan). inside (t_lower tools) (core_policy core) p))"

lemma push_change_ok:
  "push_change alloc c n plan = Inr plan' \<Longrightarrow>
     plan_changes plan' = plan_changes plan @ [c] \<and> plan_used plan' = plan_used plan"
  by (auto simp: push_change_def split: sum.splits option.splits)

lemma liftE:
  assumes "lift r log = (q, log')"
  obtains "q = r" "log' = log"
  using assms by (simp add: lift_def)

text \<open>A section adds one well-formed change for its own path, and for the target it claims.\<close>

definition adds_change :: "Tools \<Rightarrow> FilesystemCore \<Rightarrow> Path \<Rightarrow> PatchPlan \<Rightarrow> PatchPlan \<Rightarrow> bool" where
  "adds_change tools core file_path plan plan' \<longleftrightarrow>
     (\<exists>c. wf_change c \<and> plan_changes plan' = plan_changes plan @ [c] \<and> pc_file_path c = file_path \<and>
        (case pc_move_path c of
           None \<Rightarrow> plan_used plan' = plan_used plan
         | Some m \<Rightarrow> plan_used plan' = m # plan_used plan \<and> m \<notin> set (plan_used plan) \<and>
             (confined (core_policy core) \<longrightarrow> inside (t_lower tools) (core_policy core) m)))"

lemma plan_add_ok:
  "plan_add os tools alloc core h p contents plan log = (Inr plan', log') \<Longrightarrow> adds_change tools core p plan plan'"
  unfolding plan_add_def
  by (auto elim!: bindE liftE simp: fail_def adds_change_def wf_change_def dest!: push_change_ok push_change_ok [OF sym] split: if_splits)

lemma plan_delete_ok:
  "plan_delete os tools alloc core h p plan log = (Inr plan', log') \<Longrightarrow> adds_change tools core p plan plan'"
  unfolding plan_delete_def Let_def
  by (auto elim!: bindE liftE simp: adds_change_def wf_change_def dest!: push_change_ok push_change_ok [OF sym])

lemma claim_target_ok:
  assumes "claim_target os tools core move_path plan log = (Inr (target, plan'), log')"
  obtains "target = None" "plan' = plan"
  | q m where "target = Some (q, m)" "plan' = plan\<lparr>plan_used := m # plan_used plan\<rparr>" "m \<notin> set (plan_used plan)"
      "confined (core_policy core) \<longrightarrow> inside (t_lower tools) (core_policy core) m"
  using assms unfolding claim_target_def
  by (auto elim!: bindE simp: return_def fail_def split: option.splits if_splits dest!: resolve_path_ok)

lemma plan_update_ok:
  assumes "plan_update os tools alloc core h p move_path chunks plan log = (Inr plan', log')"
  shows "adds_change tools core p plan plan'"
  using assms unfolding plan_update_def Let_def
  by (auto elim!: bindE liftE claim_target_ok simp: adds_change_def wf_change_def dest!: push_change_ok push_change_ok [OF sym] split: prod.splits)

lemma plan_hunk_ok:
  assumes "plan_hunk os tools alloc core hunk plan log = (Inr plan', log')" and ok: "plan_ok tools core plan"
  shows "plan_ok tools core plan'"
proof -
  let ?claimed = "\<lambda>p. plan\<lparr>plan_used := p # plan_used plan\<rparr>"
  from assms(1) obtain p log1 log2 where res: "resolve_path os tools core (hunk_path hunk) log1 = (Inr p, log2)"
    and fresh: "p \<notin> set (plan_used plan)"
    and rest: "(case hunk of
            AddFile _ contents \<Rightarrow> plan_add os tools alloc core (hunk_path hunk) p contents (?claimed p)
          | DeleteFile _ \<Rightarrow> plan_delete os tools alloc core (hunk_path hunk) p (?claimed p)
          | UpdateFile _ move_path chunks \<Rightarrow>
              plan_update os tools alloc core (hunk_path hunk) p move_path chunks (?claimed p)) log2 = (Inr plan', log')"
    unfolding plan_hunk_def Let_def by (auto elim!: bindE simp: fail_def split: if_splits)
  have r: "confined (core_policy core) \<longrightarrow> inside (t_lower tools) (core_policy core) p" by (rule resolve_path_ok [OF res])
  have "adds_change tools core p (?claimed p) plan'"
    using rest by (cases hunk) (auto dest: plan_add_ok plan_delete_ok plan_update_ok)
  then obtain c where c: "wf_change c" "plan_changes plan' = plan_changes plan @ [c]" "pc_file_path c = p"
    "case pc_move_path c of None \<Rightarrow> plan_used plan' = p # plan_used plan
     | Some m \<Rightarrow> plan_used plan' = m # p # plan_used plan \<and> m \<notin> set (p # plan_used plan) \<and>
         (confined (core_policy core) \<longrightarrow> inside (t_lower tools) (core_policy core) m)"
    unfolding adds_change_def by (auto split: option.splits)
  show ?thesis using ok c r fresh
    by (auto simp: plan_ok_def change_paths_def split: option.splits)
qed

lemma plan_hunks_ok:
  "plan_hunks os tools alloc core hunks plan log = (Inr plan', log') \<Longrightarrow> plan_ok tools core plan \<Longrightarrow> plan_ok tools core plan'"
proof (induction hunks arbitrary: plan log)
  case (Cons h hs)
  then show ?case by (auto elim!: bindE dest: plan_hunk_ok)
qed (simp add: return_def)

lemma refused_not_panic: "refused published m log = (Inl (f, pub), log') \<Longrightarrow> f \<noteq> Panic"
  by (auto simp: refused_def elim: map_errE)

lemma validate_source_not_panic:
  "pc_expected_source c \<noteq> None \<Longrightarrow> validate_source os tools core published c log = (Inl (f, pub), log') \<Longrightarrow> f \<noteq> Panic"
  by (auto simp: validate_source_def dest: refused_not_panic)

lemma publish_change_not_panic:
  assumes "wf_change c" and "publish_change os tools core published c log = (Inl (f, pub), log')"
  shows "f \<noteq> Panic"
  using assms unfolding publish_change_def finish_move_def
  by (elim bindE)
    (auto elim!: bindE simp: wf_change_def dest: refused_not_panic validate_source_not_panic [rotated]
      split: PlannedChangeType.splits option.splits)

lemma publish_from_not_panic:
  "list_all wf_change cs \<Longrightarrow> publish_from os tools core published cs log = (r, log') \<Longrightarrow> r \<noteq> Inl Panic"
proof (induction cs arbitrary: published log)
  case (Cons c cs)
  then show ?case
    using publish_change_not_panic [of c os tools core published log]
    by (auto split: prod.splits sum.splits Failure.splits)
qed auto

text \<open>
  C33. A planned patch is well formed: every change carries the version and the target its kind needs,
  no path stands in two changes or is both source and target, and under confinement every path lies
  below the root and is not protected. Publishing it later therefore never panics, at any history and
  for any answer of the operating system.
\<close>

theorem plan_well_formed:
  assumes "plan_patch os tools alloc core patch_text most log = (Inr changes, log')"
  shows "list_all wf_change changes \<and> distinct (concat (map change_paths changes)) \<and>
    (confined (core_policy core) \<longrightarrow>
       (\<forall>p\<in>set (concat (map change_paths changes)). inside (t_lower tools) (core_policy core) p)) \<and>
    fst (publish_patch os' tools core' changes log1) \<noteq> Inl Panic"
proof -
  obtain hunks plan log2 where p: "plan_hunks os tools alloc core hunks
      \<lparr>plan_used = [], plan_changes = [], plan_budget = PatchPlanBudget_new most (byte_len patch_text)\<rparr> log2 = (Inr plan, log')"
    and c: "changes = plan_changes plan"
    using assms unfolding plan_patch_def by (auto elim!: bindE liftE simp: fail_def return_def split: if_splits)
  have "plan_ok tools core plan"
    by (rule plan_hunks_ok [OF p]) (simp add: plan_ok_def)
  then show ?thesis
    using publish_from_not_panic [of changes os' tools core' False log1]
    by (cases "publish_from os' tools core' False changes log1") (auto simp: plan_ok_def c publish_patch_def)
qed

section \<open>What is replaced is what was reviewed\<close>

text \<open>The calls of a snapshot that succeeded, in order.\<close>

definition observed :: "Path \<Rightarrow> Metadata \<Rightarrow> bytes \<Rightarrow> Metadata \<Rightarrow> Event list" where
  "observed p before bs after =
     [Polled False, Stat p (Inr before), Polled False, Opened p None, ReadFile p (Inr bs), Polled False, Stat p (Inr after)]"

lemma poll_ok: "poll os log = (Inr x, log') \<Longrightarrow> log' = log @ [Polled False]"
  by (auto simp: poll_def split: if_splits)

lemma read_bounded_ok:
  "read_bounded os p n log = (Inr bs, log') \<Longrightarrow>
     length bs \<le> n \<and> log' = log @ [Polled False, Opened p None, ReadFile p (Inr bs), Polled False]"
  unfolding read_bounded_def
  by (auto elim!: bindE liftE dest!: poll_ok simp: open_file_def read_file_def done_or_io_def or_io_def return_def fail_def
      Let_def checked_add_def split: option.splits sum.splits if_splits)

lemma snapshot_ok:
  assumes "read_file_snapshot_required os sha p n log = (Inr (bs, v), log')"
  obtains before after where "log' = log @ observed p before bs after" "v_digest v = sha bs" "v_identity v = file_identity after"
  using assms unfolding read_file_snapshot_required_def
  by (auto elim!: bindE dest!: poll_ok read_bounded_ok simp: stat_def or_io_def return_def fail_def Let_def observed_def
      split: sum.splits if_splits)

lemma validate_snapshot_ok:
  assumes "validate_snapshot os sha p v n log = (Inr x, log')"
  obtains before bs after where "log' = log @ observed p before bs after" "v_digest v = sha bs" "v_identity v = file_identity after"
proof -
  obtain bs where "read_file_snapshot_required os sha p n log = (Inr (bs, v), log')"
    using assms unfolding validate_snapshot_def read_file_version_required_def
    by (auto simp: bind_def attempt_def return_def fail_def split: prod.splits sum.splits FilesystemError.splits if_splits)
  then show ?thesis using that by (blast elim: snapshot_ok)
qed

lemma commit_write_replaces:
  assumes "commit_write os tools core requested p content False (Some v) log = (Inr x, log')"
  obtains pre before bs after t where "log' = pre @ observed p before bs after @ [Did (Rename t p) None]"
    "v_digest v = t_sha tools bs" "v_identity v = file_identity after" "replay fs log' p = Some (encode_utf8 content)"
proof -
  obtain t log1 log2 where c: "check_target os tools core requested p (Some v) log1 = (Inr (), log2)"
    and l: "log' = log2 @ [Did (Rename t p) None]"
    using assms unfolding commit_write_def write_temporary_def publish_temporary_def or_cleanup_def
    by (auto elim!: bindE simp: act_def done_or_io_def return_def fail_def Let_def bind_def
        split: option.splits sum.splits prod.splits if_splits)
  obtain log3 where "validate_snapshot os (t_sha tools) p v (max_file_bytes (core_limits core)) log3 = (Inr (), log2)"
    using c unfolding check_target_def by (auto elim!: bindE)
  then obtain before bs after where o: "log2 = log3 @ observed p before bs after" "v_digest v = t_sha tools bs"
    "v_identity v = file_identity after"
    by (rule validate_snapshot_ok)
  have "replay fs log' p = Some (encode_utf8 content)"
    using assms
  proof (cases rule: commit_write_effect)
    case (replaced q)
    then show ?thesis using replaced(3) [of fs] by (auto simp: committed_def)
  qed simp
  then show ?thesis using that o l by auto
qed

text \<open>
  C32. An edit replaces the file its preview was made from. When a prepared edit is executed, at any
  later time and whatever else happened, and succeeds, then the file has exactly the prepared
  content, which is the requested replacement applied to the content that was read for the preview;
  and the last calls before the file was replaced read it again and found the same digest as that
  content had.
\<close>

theorem edit_replaces_reviewed:
  assumes "prepare_edit_bounded os tools alloc core input most log = (Inr prepared, log1)"
    and "execute_prepared_edit os' tools core' prepared log2 = (Inr output, log3)"
  shows "\<exists>p old retained relative_path pre before found after t.
     p = res_path (pr_resource prepared) \<and> ReadFile p (Inr old) \<in> set log1 \<and>
     prepare_edit retained (core_policy core) (core_limits core) p relative_path input most (decode_text old) =
       Inr (pr_content prepared, pr_preview prepared) \<and>
     log3 = pre @ observed p before found after @ [Did (Rename t p) None] \<and> t_sha tools found = t_sha tools old \<and>
     replay fs log3 p = Some (encode_utf8 (pr_content prepared)) \<and>
     output = (pr_preview prepared)\<lparr>edit_applied := True\<rparr>"
proof -
  let ?p = "res_path (pr_resource prepared)"
  obtain relative_path snapshot v log4 log5 log6 log7 where
    r: "read_text_snapshot_required os (t_sha tools) (t_format tools) ?p (max_file_bytes (core_limits core)) log4 = (Inr snapshot, log1)"
    and e: "prepare_edit (\<lambda>old new. sat_add (sat_add (a_capacity alloc old) (a_capacity alloc new)) (line_index_retained_bytes [old, new]))
        (core_policy core) (core_limits core) ?p relative_path input most (snap_content snapshot) =
        Inr (pr_content prepared, pr_preview prepared)"
    and v: "pr_expected prepared = Some (snap_version snapshot)"
    using assms(1) unfolding prepare_edit_bounded_def prepare_edit_core_def
    by (auto elim!: bindE liftE simp: return_def fail_def split: if_splits prod.splits)
  obtain old where s: "read_file_snapshot_required os (t_sha tools) ?p (max_file_bytes (core_limits core)) log4 =
      (Inr (old, snap_version snapshot), log1)" and old: "snap_content snapshot = decode_text old"
    using r unfolding read_text_snapshot_required_def by (auto elim!: bindE liftE simp: return_def split: prod.splits)
  obtain log8 where c: "commit_write os' tools core' (res_requested_path (pr_resource prepared)) ?p (pr_content prepared) False
      (Some (snap_version snapshot)) log8 = (Inr (), log3)" and o: "output = (pr_preview prepared)\<lparr>edit_applied := True\<rparr>"
    using assms(2) v unfolding execute_prepared_edit_def by (auto elim!: bindE liftE simp: return_def)
  obtain b a where "log1 = log4 @ observed ?p b old a" "v_digest (snap_version snapshot) = t_sha tools old"
    using s by (rule snapshot_ok)
  moreover obtain pre before found after t where "log3 = pre @ observed ?p before found after @ [Did (Rename t ?p) None]"
    "v_digest (snap_version snapshot) = t_sha tools found" "replay fs log3 ?p = Some (encode_utf8 (pr_content prepared))"
    using c by (rule commit_write_replaces)
  ultimately show ?thesis using e old o by (fastforce simp: observed_def)
qed

section \<open>A concrete edit and a concrete patch\<close>

definition demo_meta :: Metadata where
  "demo_meta = \<lparr>md_kind = IsFile, md_len = 2, md_dev = 1, md_ino = 2, md_modified = Some 3, md_mode = 420\<rparr>"

text \<open>The file \<open>/w/a\<close> holds the text ab, and nobody else touches it.\<close>

definition edit_os :: Os where
  "edit_os = (demo_os False)\<lparr>os_stat := (\<lambda>_ _. Inr demo_meta), os_open := (\<lambda>_ _. None), os_read := (\<lambda>_ _. Inr (u ''ab''))\<rparr>"

definition demo_alloc :: Allocator where
  "demo_alloc = \<lparr>a_capacity = (\<lambda>_. 0), a_change = (\<lambda>_. 0), a_preview = (\<lambda>_. 0)\<rparr>"

definition demo_edit_input :: FileEditInput where
  "demo_edit_input = \<lparr>edit_file_path = u ''a'', edit_old_string = u ''b'', edit_new_string = u ''c'', edit_replace_all = None\<rparr>"

lemma demo_relative_a: "relative demo_policy (components (u ''/w/a'')) = Inr (u ''a'')"
  by (simp add: demo_path_defs relative_def)

lemma demo_resolve_a: "resolve to_ascii_lowercase demo_canon demo_policy (u ''a'') = Inr (components (u ''/w/a''))"
  by (simp add: resolve_def resolve_existing.simps demo_path_defs)

lemma demo_decode_ab: "decode_text (u ''ab'') = u ''ab''"
  by (simp add: decode_text_def from_utf8_lossy.simps valid_prefix.simps next_char_def u_def)

lemma demo_edit_runs:
  assumes "retained (u ''ab'') (u ''ac'') \<le> usize_max"
  obtains out where "prepare_edit retained demo_policy default_limits (components (u ''/w/a'')) (u ''a'') demo_edit_input usize_max
     (u ''ab'') = Inr (u ''ac'', out)"
proof -
  have "\<exists>out. prepare_edit retained demo_policy default_limits (components (u ''/w/a'')) (u ''a'') demo_edit_input usize_max
     (u ''ab'') = Inr (u ''ac'', out)"
    using demo_relative_a assms
    by (simp add: prepare_edit_def demo_edit_input_def line_ending_def str_replace_def replace_exact_def starts_with_def
        default_limits_def file_diff_hunks_def file_diff_def Let_def u_def byte_len_def len_utf8_def split: option.split)
  then show ?thesis using that by blast
qed

lemmas demo_run_defs = bind_def lift_def return_def fail_def poll_def stat_def lstat_def open_file_def read_file_def act_def
  attempt_def map_err_def or_io_def done_or_io_def Let_def resolve_path_def read_bounded_def checked_add_def
  read_file_snapshot_required_def read_text_snapshot_required_def nonempty_def exists_file_def

lemma demo_sizes: "max_file_bytes default_limits = 5242880" "Suc (5242880 :: nat) \<le> usize_max"
  by (simp_all add: default_limits_def usize_max_def)

lemma demo_text_file: "reject_binary (t_format demo_tools) p (u ''ab'') = Inr ()"
  by (simp add: reject_binary_def is_binary_content_def demo_tools_def has_binary_sample_def u_def)

lemma demo_prepare:
  obtains prepared log where "prepare_edit_bounded edit_os demo_tools demo_alloc demo_core demo_edit_input usize_max [] = (Inr prepared, log)"
    "pr_expected prepared = Some \<lparr>v_identity = file_identity demo_meta, v_digest = u ''ab''\<rparr>" "pr_content prepared = u ''ac''"
    "res_path (pr_resource prepared) = components (u ''/w/a'')" "res_requested_path (pr_resource prepared) = u ''a''"
proof -
  let ?r = "\<lambda>old new. sat_add (sat_add (a_capacity demo_alloc old) (a_capacity demo_alloc new)) (line_index_retained_bytes [old, new])"
  have "?r (u ''ab'') (u ''ac'') \<le> usize_max" by (simp add: sat_add_def)
  then obtain out where e: "prepare_edit ?r demo_policy default_limits (components (u ''/w/a'')) (u ''a'') demo_edit_input usize_max
      (u ''ab'') = Inr (u ''ac'', out)"
    by (rule demo_edit_runs)
  have "edit_file_path demo_edit_input = u ''a''" "edit_old_string demo_edit_input = u ''b''" "edit_new_string demo_edit_input = u ''c''"
    "u ''a'' \<noteq> []" "u ''b'' \<noteq> []" "u ''b'' \<noteq> u ''c''" "length (u ''ab'') = 2" by (simp_all add: demo_edit_input_def u_def)
  then have "prepare_edit_bounded edit_os demo_tools demo_alloc demo_core demo_edit_input usize_max [] =
    (Inr \<lparr>pr_resource = \<lparr>res_requested_path = u ''a'', res_path = components (u ''/w/a''), res_relative_path = u ''a'',
             res_access = ReadWrite\<rparr>, pr_content = u ''ac'',
           pr_expected = Some \<lparr>v_identity = file_identity demo_meta, v_digest = u ''ab''\<rparr>, pr_preview = out\<rparr>,
     snd (prepare_edit_bounded edit_os demo_tools demo_alloc demo_core demo_edit_input usize_max []))"
    using e demo_resolve_a demo_relative_a demo_text_file demo_sizes demo_decode_ab
    by (simp add: prepare_edit_bounded_def prepare_edit_core_def demo_run_defs demo_core_def edit_os_def demo_os_def
        demo_tools_def)
  then show ?thesis by (rule that) simp_all
qed

lemma demo_parent_a: "parent (components (u ''/w/a'')) = Some (components (u ''/w''))"
  by (simp add: demo_path_defs)

lemma demo_execute_edit:
  assumes "pr_expected prepared = Some \<lparr>v_identity = file_identity demo_meta, v_digest = u ''ab''\<rparr>"
    "res_path (pr_resource prepared) = components (u ''/w/a'')" "res_requested_path (pr_resource prepared) = u ''a''"
  obtains out log' where "execute_prepared_edit edit_os demo_tools demo_core prepared log = (Inr out, log')"
proof -
  have "length (u ''ab'') = 2" by (simp add: u_def)
  then have "\<exists>out log'. execute_prepared_edit edit_os demo_tools demo_core prepared log = (Inr out, log')"
    using assms demo_resolve_a demo_parent_a demo_sizes
    by (simp add: execute_prepared_edit_def require_write_def commit_write_def or_cleanup_def write_temporary_def
        set_compatible_permissions_def check_target_def publish_temporary_def validate_prepared_path_def validate_snapshot_def
        read_file_version_required_def demo_run_defs demo_core_def edit_os_def demo_os_def demo_tools_def)
  then show ?thesis using that by blast
qed

theorem edit_replaces_reviewed_witness:
  "\<exists>prepared log1 out log3.
     prepare_edit_bounded edit_os demo_tools demo_alloc demo_core demo_edit_input usize_max [] = (Inr prepared, log1) \<and>
     execute_prepared_edit edit_os demo_tools demo_core prepared log1 = (Inr out, log3) \<and>
     replay Map.empty log3 (components (u ''/w/a'')) = Some (encode_utf8 (u ''ac''))"
proof -
  obtain prepared log1 where p: "prepare_edit_bounded edit_os demo_tools demo_alloc demo_core demo_edit_input usize_max [] = (Inr prepared, log1)"
    "pr_expected prepared = Some \<lparr>v_identity = file_identity demo_meta, v_digest = u ''ab''\<rparr>" "pr_content prepared = u ''ac''"
    "res_path (pr_resource prepared) = components (u ''/w/a'')" "res_requested_path (pr_resource prepared) = u ''a''"
    by (rule demo_prepare)
  obtain out log3 where e: "execute_prepared_edit edit_os demo_tools demo_core prepared log1 = (Inr out, log3)"
    using p(2,4,5) by (rule demo_execute_edit)
  from edit_replaces_reviewed [OF p(1) e, of Map.empty] p e show ?thesis by auto
qed

definition demo_hunks :: "PatchHunk list" where
  "demo_hunks = [AddFile (u ''new'') (u ''hi'' @ [NL])]"

lemma demo_relative_new: "relative demo_policy (components (u ''/w/new'')) = Inr (u ''new'')"
  by (simp add: demo_path_defs relative_def)

lemma demo_plan:
  obtains changes log where "plan_patch (demo_os False) demo_tools demo_alloc demo_core (print_patch demo_hunks) 4096 [] = (Inr changes, log)"
    "changes \<noteq> []"
proof -
  have parsed: "parse_patch (print_patch demo_hunks) = Inr demo_hunks"
    by (rule parse_printed) (simp_all add: demo_hunks_def wf_hunk_def wf_header_def hunk_text_def added_lines_def clean_line_def text_defs)
  have len: "byte_len (print_patch demo_hunks) \<le> 100"
    by (simp add: print_patch_def demo_hunks_def hunk_text_def added_lines_def text_defs byte_len_def len_utf8_def)
  then have budget: "sat_mul (byte_len (print_patch demo_hunks)) 2 \<le> 200" by (simp add: sat_mul_def)
  have "\<exists>changes log. plan_patch (demo_os False) demo_tools demo_alloc demo_core (print_patch demo_hunks) 4096 [] = (Inr changes, log) \<and> changes \<noteq> []"
    using budget demo_resolve demo_relative_new
    by (simp add: plan_patch_def parsed)
       (simp add: demo_hunks_def plan_hunk_def plan_add_def push_change_def ensure_peak_def PatchPlanBudget_new_def
        demo_run_defs hunk_path_def enforce_bytes_def file_diff_def demo_core_def demo_os_def demo_tools_def demo_alloc_def
        default_limits_def usize_max_def byte_len_def len_utf8_def u_def)
  then show ?thesis using that by blast
qed

theorem plan_well_formed_witness:
  "\<exists>changes log. plan_patch (demo_os False) demo_tools demo_alloc demo_core (print_patch demo_hunks) 4096 [] = (Inr changes, log) \<and>
     changes \<noteq> [] \<and> list_all wf_change changes \<and> fst (publish_patch (demo_os True) demo_tools demo_core changes []) \<noteq> Inl Panic"
proof -
  obtain changes log where p: "plan_patch (demo_os False) demo_tools demo_alloc demo_core (print_patch demo_hunks) 4096 [] = (Inr changes, log)"
    "changes \<noteq> []"
    by (rule demo_plan)
  from plan_well_formed [OF p(1), of "demo_os True" demo_core "[]"] p show ?thesis by auto
qed

section \<open>The receipt\<close>

lemma shorten_rows:
  "map (\<lambda>f. f\<lparr>fm_patch := [], fm_truncated := False\<rparr>) (patch_files (shorten out a)) =
     map (\<lambda>f. f\<lparr>fm_patch := [], fm_truncated := False\<rparr>) (patch_files out)"
  by (simp add: shorten_def assemble_def shorten_file_def split: option.splits)

lemma fit_cases:
  assumes "fit response_size out limit = Inr fitted"
  obtains (whole) n where "response_size out = Some n" "n \<le> limit" "fitted = out"
  | (cut) n k m where "response_size out = Some n" "limit < n"
      "bisect (\<lambda>candidate. case measure_output response_size (shorten out candidate) of Inl e \<Rightarrow> Inl e | Inr n \<Rightarrow> Inr (n \<le> limit))
         0 (fold max (map (byte_len \<circ> fm_patch) (patch_files out)) 0) = Inr k"
      "fitted = shorten out k" "response_size fitted = Some m" "m \<le> limit"
  using assms
  by (auto simp: fit_def measure_output_def Let_def split: sum.splits option.splits if_splits)

text \<open>A patch within the allowance is not shortened, so the largest allowance changes nothing.\<close>

lemma shorten_all:
  assumes "\<forall>f\<in>set files. byte_len (fm_patch f) \<le> k"
  shows "shorten (assemble files applied) k = assemble files applied"
proof -
  have "map (shorten_file k) files = files"
    using assms by (intro map_idI) (simp add: shorten_file_def shorten_patch_def)
  then show ?thesis by (simp add: shorten_def assemble_def)
qed

lemma fold_max_le: "x \<in> set xs \<Longrightarrow> x \<le> fold max xs (m :: nat)" and fold_max_ge: "m \<le> fold max xs (m :: nat)"
proof -
  show ge: "m \<le> fold max xs m" for m :: nat and xs by (induction xs arbitrary: m) (auto intro: order_trans [OF max.cobounded2])
  show "x \<in> set xs \<Longrightarrow> x \<le> fold max xs m" for m :: nat
    by (induction xs arbitrary: m) (auto intro: order_trans [OF max.cobounded1 ge])
qed

text \<open>
  C34. The receipt of a patch fits and loses nothing but previews. What is returned is within the
  limit and has a row for every file, in order, equal to the planned one in all but the preview and
  its truncation mark. Either it is the receipt as assembled, or every preview was cut to one shared
  allowance and with one byte more of it the response would be over the limit.
\<close>

theorem receipt_fits:
  assumes "fit response_size (assemble files applied) limit = Inr fitted"
  shows "(\<exists>n. response_size fitted = Some n \<and> n \<le> limit) \<and>
    map (\<lambda>f. f\<lparr>fm_patch := [], fm_truncated := False\<rparr>) (patch_files fitted) =
      map (\<lambda>f. f\<lparr>fm_patch := [], fm_truncated := False\<rparr>) files \<and>
    (fitted = assemble files applied \<or>
     (\<exists>k m. fitted = assemble (map (shorten_file k) files) applied \<and>
        response_size (assemble (map (shorten_file (Suc k)) files) applied) = Some m \<and> limit < m))"
  using assms
proof (cases rule: fit_cases)
  case whole
  then show ?thesis by (auto simp: assemble_def)
next
  case (cut n k m)
  let ?out = "assemble files applied"
  let ?fits = "\<lambda>candidate. case measure_output response_size (shorten ?out candidate) of Inl e \<Rightarrow> Inl e | Inr n \<Rightarrow> Inr (n \<le> limit)"
  let ?top = "fold max (map (byte_len \<circ> fm_patch) (patch_files ?out)) 0"
  have "byte_len (fm_patch f) \<le> ?top" if "f \<in> set files" for f
    by (rule fold_max_le) (use that in \<open>auto simp: assemble_def\<close>)
  then have "shorten ?out ?top = ?out" by (intro shorten_all) blast
  then have "k \<noteq> ?top" using cut(1,2,4-6) by auto
  with bisect_next [OF cut(3)] have "?fits (Suc k) = Inr False" by simp
  then have "\<exists>m. response_size (shorten ?out (Suc k)) = Some m \<and> limit < m"
    by (auto simp: measure_output_def not_le split: option.splits)
  then show ?thesis using cut(4-6) shorten_rows [of ?out k] by (auto simp: shorten_def assemble_def)
qed

definition demo_row :: "string \<Rightarrow> FileMutation" where
  "demo_row s = \<lparr>fm_file_path = u ''f'', fm_relative_path = u ''f'', fm_type = Update, fm_patch = u s, fm_additions = 1,
     fm_deletions = 1, fm_truncated = False, fm_move_path = None\<rparr>"

text \<open>A size that counts the previews and, like the serializer, a field for a mark that is set.\<close>

definition demo_size :: "FileApplyPatchOutput \<Rightarrow> nat option" where
  "demo_size out = Some (length (patch_diff out) + (if patch_truncated out then 2 else 0))"

theorem receipt_fits_witness:
  "\<exists>fitted k m. fit demo_size (assemble [demo_row ''-aaaa'', demo_row ''+b''] False) 7 = Inr fitted \<and> length (patch_files fitted) = 2 \<and>
     fitted = assemble (map (shorten_file k) [demo_row ''-aaaa'', demo_row ''+b'']) False \<and>
     demo_size (assemble (map (shorten_file (Suc k)) [demo_row ''-aaaa'', demo_row ''+b'']) False) = Some m \<and> 7 < m"
proof -
  let ?files = "[demo_row ''-aaaa'', demo_row ''+b'']"
  let ?fits = "\<lambda>k. case measure_output demo_size (shorten (assemble ?files False) k) of Inl e \<Rightarrow> Inl e | Inr n \<Rightarrow> Inr (n \<le> 7)"
  have size: "demo_size (assemble ?files False) = Some 8"
    by (simp add: demo_size_def assemble_def demo_row_def u_def)
  have least: "?fits 0 = Inr True"
    by (simp add: measure_output_def demo_size_def shorten_def shorten_file_def shorten_patch_def assemble_def demo_row_def u_def
        byte_len_def len_utf8_def mark_truncated_def BoundedPatch_new_def)
  obtain k where k: "bisect ?fits 0 (fold max (map (byte_len \<circ> fm_patch) (patch_files (assemble ?files False))) 0) = Inr k"
    using bisect_total [of ?fits] by (auto simp: measure_output_def demo_size_def)
  then have "?fits k = Inr True" using bisect_fits [OF k] least by auto
  then obtain fitted where f: "fit demo_size (assemble ?files False) 7 = Inr fitted"
    using k by (auto simp: fit_def size measure_output_def Let_def split: option.splits)
  have "fitted \<noteq> assemble ?files False" using receipt_fits [OF f] size by auto
  then show ?thesis using receipt_fits [OF f] f by (auto dest: arg_cong [of _ _ length])
qed

end
