(* ===== verification/File_Read.thy ===== *)
theory File_Read
  imports File_Mutation
begin

text \<open>
  Reading files and directories for a caller: \<open>read_operations.rs\<close>, \<open>listing_metadata.rs\<close> and the
  request checks and preparation of \<open>group.rs\<close> in \<open>crates/mcp-files/src\<close>. A file is returned as a
  window of numbered lines within a line and a byte budget, a directory as a sorted listing.
\<close>

section \<open>Listing metadata\<close>

record ListingMetadata =
  lm_size_bytes :: "nat option"
  lm_line_count :: "nat option"

definition file_listing_metadata ::
  "Os \<Rightarrow> Tools \<Rightarrow> FilesystemCore \<Rightarrow> Path \<Rightarrow> (FilesystemError, ListingMetadata) op" where
  "file_listing_metadata os tools core path =
     bind (poll os) (\<lambda>_.
     bind (stat os path) (\<lambda>m.
     case m of
       Inl _ \<Rightarrow> return \<lparr>lm_size_bytes = None, lm_line_count = None\<rparr>
     | Inr metadata \<Rightarrow>
         if md_kind metadata \<noteq> IsFile then return \<lparr>lm_size_bytes = None, lm_line_count = None\<rparr>
         else if md_len metadata > max_file_bytes (core_limits core)
         then return \<lparr>lm_size_bytes = Some (md_len metadata), lm_line_count = None\<rparr>
         else
           bind (attempt (read_bounded os path (max_file_bytes (core_limits core)))) (\<lambda>r.
           case r of
             Inl Aborted \<Rightarrow> fail Aborted
           | Inl _ \<Rightarrow> return \<lparr>lm_size_bytes = Some (md_len metadata), lm_line_count = None\<rparr>
           | Inr bs \<Rightarrow>
               return \<lparr>lm_size_bytes = Some (md_len metadata),
                       lm_line_count = (if is_binary_content (t_format tools) bs then None
                                        else Some (text_line_count bs))\<rparr>)))"

section \<open>A window of lines\<close>

definition MAX_SAFE_INTEGER :: nat where "MAX_SAFE_INTEGER = 9007199254740991"

record FileReadInput =
  ri_file_path :: ustr
  ri_offset :: "nat option"
  ri_limit :: "nat option"

definition validate_read :: "FileReadInput \<Rightarrow> FilesystemError + FileReadInput" where
  "validate_read input =
     (let input = (if ri_file_path input = [] then input\<lparr>ri_file_path := u ''.''\<rparr> else input)
      in if ri_offset input = Some 0 then Inl (InvalidRequest (u ''Invalid arguments: offset must be at least 1''))
         else if (case ri_offset input of Some v \<Rightarrow> v > MAX_SAFE_INTEGER | None \<Rightarrow> False) \<or>
                 (case ri_limit input of Some v \<Rightarrow> v > MAX_SAFE_INTEGER | None \<Rightarrow> False)
         then Inl (InvalidRequest (u ''Invalid arguments: numeric values must be safe integers''))
         else Inr input)"

datatype FileEntryKind = FileEntry | DirectoryEntry

record DirectoryEntryDetail =
  de_relative_path :: ustr
  de_kind :: FileEntryKind
  de_size_bytes :: "nat option"
  de_line_count :: "nat option"

record FileText =
  ft_path :: ustr
  ft_relative_path :: ustr
  ft_text :: ustr
  ft_numbered_text :: ustr
  ft_line_start :: nat
  ft_line_end :: nat
  ft_total_lines :: nat
  ft_truncated :: bool

record DirectoryText =
  dt_path :: ustr
  dt_relative_path :: ustr
  dt_entries :: "ustr list"
  dt_entry_details :: "DirectoryEntryDetail list"
  dt_truncated :: bool

datatype FileReadOutput = ReadFileOutput FileText | ReadDirectoryOutput DirectoryText

text \<open>The loop over the selected lines: the lines and numbered lines so far, the bytes used, and the flag.\<close>

record Window =
  wi_selected :: "ustr list"
  wi_numbered :: "ustr list"
  wi_bytes :: nat
  wi_truncated :: bool

definition numbered_line :: "nat \<Rightarrow> ustr \<Rightarrow> ustr" where
  "numbered_line index line = dec (index + 1) @ u '': '' @ line"

fun select_read_lines ::
  "Os \<Rightarrow> FilesystemLimits \<Rightarrow> nat \<Rightarrow> ustr list \<Rightarrow> Window \<Rightarrow> (FilesystemError, Window) op" where
  "select_read_lines os limits index [] w = return w"
| "select_read_lines os limits index (source # sources) w =
     bind (poll os) (\<lambda>_.
     let line = truncate_line source (max_line_length limits);
         numbered = numbered_line index line;
         len = byte_len numbered + (if wi_numbered w \<noteq> [] then 1 else 0)
     in if wi_bytes w + len > max_read_bytes limits then return (w\<lparr>wi_truncated := True\<rparr>)
        else select_read_lines os limits (index + 1) sources
               (w\<lparr>wi_selected := wi_selected w @ [line], wi_numbered := wi_numbered w @ [numbered],
                  wi_bytes := wi_bytes w + len\<rparr>))"

definition read_window ::
  "Os \<Rightarrow> FilesystemLimits \<Rightarrow> ustr list \<Rightarrow> nat \<Rightarrow> nat \<Rightarrow> Path \<Rightarrow> ustr \<Rightarrow> (FilesystemError, FileText) op" where
  "read_window os limits lines offset limit path relative_path =
     bind (select_read_lines os limits (offset - 1) (take limit (drop (offset - 1) lines))
             \<lparr>wi_selected = [], wi_numbered = [], wi_bytes = 0, wi_truncated = False\<rparr>) (\<lambda>w.
     return \<lparr>ft_path = path_text path, ft_relative_path = relative_path, ft_text = join [NL] (wi_selected w),
             ft_numbered_text = join [NL] (wi_numbered w), ft_line_start = offset,
             ft_line_end = offset + length (wi_selected w) - 1, ft_total_lines = length lines,
             ft_truncated = (wi_truncated w \<or> offset - 1 + length (wi_selected w) < length lines)\<rparr>)"

section \<open>Directories\<close>

text \<open>
  Directory calls at a position of the history: the entries of a directory in the order the system
  gives them, and the type of a path that is not followed.
\<close>

record DirCalls =
  dc_read_dir :: "nat \<Rightarrow> Path \<Rightarrow> IoErrorKind + DirEntry list"
  dc_link_kind :: "nat \<Rightarrow> Path \<Rightarrow> IoErrorKind + FileKind"

definition read_dir :: "DirCalls \<Rightarrow> Path \<Rightarrow> ('e, IoErrorKind + DirEntry list) op" where
  "read_dir dirs path log = (let r = dc_read_dir dirs (length log) path in (Inr r, log @ [ReadDir path r]))"

definition link_kind :: "DirCalls \<Rightarrow> Path \<Rightarrow> ('e, IoErrorKind + FileKind) op" where
  "link_kind dirs path log = (let r = dc_link_kind dirs (length log) path in (Inr r, log @ [LinkKind path r]))"

fun raw_entries ::
  "Os \<Rightarrow> Path \<Rightarrow> nat \<Rightarrow> DirEntry list \<Rightarrow> ustr list \<Rightarrow> (FilesystemError, ustr list \<times> bool) op" where
  "raw_entries os path most [] names = bind (poll os) (\<lambda>_. return (names, False))"
| "raw_entries os path most (r # rs) names =
     bind (poll os) (\<lambda>_.
     case r of
       Inl k \<Rightarrow> fail (io_path (u ''Cannot read directory'') path k)
     | Inr (name, _) \<Rightarrow>
         if length names = most then return (names, True) else raw_entries os path most rs (names @ [name]))"

fun list_entries ::
  "Os \<Rightarrow> Tools \<Rightarrow> FilesystemCore \<Rightarrow> Path \<Rightarrow> ustr list \<Rightarrow> DirectoryEntryDetail list \<Rightarrow>
     (FilesystemError, DirectoryEntryDetail list \<times> bool) op" where
  "list_entries os tools core path [] details = return (details, False)"
| "list_entries os tools core path (name # names) details =
     bind (poll os) (\<lambda>_.
     if length details = max_search_results (core_limits core) then return (details, True)
     else
       bind (attempt (resolve_path os tools core (path_text (path_join path [Normal name])))) (\<lambda>r.
       case r of
         Inl _ \<Rightarrow> list_entries os tools core path names details
       | Inr authorized \<Rightarrow>
           bind (stat os authorized) (\<lambda>m.
           let directory = (case m of Inr metadata \<Rightarrow> md_kind metadata = IsDir | Inl _ \<Rightarrow> False)
           in bind (if directory then return \<lparr>lm_size_bytes = None, lm_line_count = None\<rparr>
                    else file_listing_metadata os tools core authorized) (\<lambda>listing.
              list_entries os tools core path names (details @
                [\<lparr>de_relative_path = name @ (if directory then [SLASH] else []),
                  de_kind = (if directory then DirectoryEntry else FileEntry),
                  de_size_bytes = lm_size_bytes listing, de_line_count = lm_line_count listing\<rparr>])))))"

definition read_directory ::
  "Os \<Rightarrow> DirCalls \<Rightarrow> Tools \<Rightarrow> FilesystemCore \<Rightarrow> Path \<Rightarrow> ustr \<Rightarrow> (FilesystemError, DirectoryText) op" where
  "read_directory os dirs tools core path relative_path =
     bind (bind (read_dir dirs path) (or_io (u ''Cannot read directory'') path)) (\<lambda>entries.
     bind (raw_entries os path (max_traversal_entries (core_limits core)) entries []) (\<lambda>(names, scan_truncated).
     bind (list_entries os tools core path (sort names) []) (\<lambda>(details, cut_short).
     return \<lparr>dt_path = path_text path, dt_relative_path = relative_path, dt_entries = map de_relative_path details,
             dt_entry_details = details, dt_truncated = (scan_truncated \<or> cut_short)\<rparr>)))"

section \<open>The read tool\<close>

definition file_read_prepared ::
  "Os \<Rightarrow> DirCalls \<Rightarrow> Tools \<Rightarrow> FilesystemCore \<Rightarrow> FileResource \<Rightarrow> ustr \<Rightarrow> nat \<Rightarrow> nat \<Rightarrow> (FilesystemError, FileReadOutput) op" where
  "file_read_prepared os dirs tools core resource relative_path offset limit =
     bind (poll os) (\<lambda>_.
     if res_access resource = Traverse
     then bind (read_directory os dirs tools core (res_path resource) relative_path) (\<lambda>d. return (ReadDirectoryOutput d))
     else
       bind (bind (stat os (res_path resource)) (\<lambda>m.
         case m of
           Inl IoNotFound \<Rightarrow> fail (NotFound (u ''File not found: '' @ res_requested_path resource))
         | Inl k \<Rightarrow> fail (io_path (u ''Cannot inspect'') (res_path resource) k)
         | Inr metadata \<Rightarrow> return metadata)) (\<lambda>metadata.
       if md_kind metadata \<noteq> IsFile
       then fail (InvalidRequest (u ''Path is not a regular file: '' @ res_requested_path resource))
       else
         bind (read_bounded os (res_path resource) (max_file_bytes (core_limits core))) (\<lambda>bs.
         bind (lift (reject_binary (t_format tools) (res_path resource) bs)) (\<lambda>_.
         bind (read_window os (core_limits core) (split_text_lines (decode_text bs)) offset limit
                 (res_path resource) relative_path) (\<lambda>t.
         return (ReadFileOutput t))))))"

record PreparedFileRead =
  rd_resource :: FileResource
  rd_relative_path :: ustr
  rd_offset :: nat
  rd_limit :: nat

definition inspect_existing :: "Os \<Rightarrow> Path \<Rightarrow> ustr \<Rightarrow> (FilesystemError, Metadata) op" where
  "inspect_existing os path requested_path =
     bind (stat os path) (\<lambda>m.
     case m of
       Inl IoNotFound \<Rightarrow> fail (NotFound (u ''Path not found: '' @ requested_path))
     | Inl k \<Rightarrow> fail (io_path (u ''Cannot inspect'') path k)
     | Inr metadata \<Rightarrow> return metadata)"

definition prepare_read :: "Os \<Rightarrow> Tools \<Rightarrow> FilesystemCore \<Rightarrow> FileReadInput \<Rightarrow> (FilesystemError, PreparedFileRead) op" where
  "prepare_read os tools core input =
     bind (poll os) (\<lambda>_.
     bind (lift (validate_read input)) (\<lambda>input.
     let offset = (case ri_offset input of Some v \<Rightarrow> v | None \<Rightarrow> 1);
         limit = (case ri_limit input of Some v \<Rightarrow> v | None \<Rightarrow> max_read_lines (core_limits core))
     in if limit > max_read_lines (core_limits core)
        then fail (InvalidRequest (u ''limit must be an integer between 0 and '' @ dec (max_read_lines (core_limits core))))
        else
          bind (resolve_path os tools core (ri_file_path input)) (\<lambda>path.
          bind (inspect_existing os path (ri_file_path input)) (\<lambda>metadata.
          bind (if md_kind metadata = IsDir then return Traverse
                else if md_kind metadata = IsFile then return Read
                else fail (InvalidRequest (u ''Path is not a regular file: '' @ ri_file_path input))) (\<lambda>access.
          bind (lift (relative (core_policy core) path)) (\<lambda>relative_path.
          return \<lparr>rd_resource = \<lparr>res_requested_path = ri_file_path input, res_path = path,
                                  res_relative_path = relative_path, res_access = access\<rparr>,
                  rd_relative_path = relative_path, rd_offset = offset, rd_limit = limit\<rparr>))))))"

definition execute_prepared_read ::
  "Os \<Rightarrow> DirCalls \<Rightarrow> Tools \<Rightarrow> FilesystemCore \<Rightarrow> PreparedFileRead \<Rightarrow> (FilesystemError, FileReadOutput) op" where
  "execute_prepared_read os dirs tools core prepared =
     bind (poll os) (\<lambda>_.
     bind (revalidate_resource os tools core (rd_resource prepared)) (\<lambda>_.
     file_read_prepared os dirs tools core (rd_resource prepared) (rd_relative_path prepared) (rd_offset prepared)
       (rd_limit prepared)))"

definition execute_prepared_directory_read ::
  "Os \<Rightarrow> DirCalls \<Rightarrow> Tools \<Rightarrow> FilesystemCore \<Rightarrow> PreparedFileRead \<Rightarrow> (FilesystemError, FileReadOutput) op" where
  "execute_prepared_directory_read os dirs tools core prepared =
     (if res_access (rd_resource prepared) \<noteq> Traverse
      then fail (Operation (u ''Directory listing requires a prepared directory read''))
      else execute_prepared_read os dirs tools core prepared)"

definition file_read ::
  "Os \<Rightarrow> DirCalls \<Rightarrow> Tools \<Rightarrow> FilesystemCore \<Rightarrow> FileReadInput \<Rightarrow> (FilesystemError, FileReadOutput) op" where
  "file_read os dirs tools core input =
     bind (prepare_read os tools core input) (execute_prepared_read os dirs tools core)"

section \<open>What a read may do\<close>

text \<open>
  A policy on events. An operation stays within it when every event it adds to the history is
  allowed; events that only poll, resolve or inspect always are.
\<close>

fun inspects :: "Event \<Rightarrow> bool" where
  "inspects (Opened p r) = False"
| "inspects (ReadFile p r) = False"
| "inspects (ReadDir p r) = False"
| "inspects (Did a r) = False"
| "inspects _ = True"

definition gives :: "('e, 'a) op \<Rightarrow> 'a \<Rightarrow> bool" where
  "gives m x \<longleftrightarrow> (\<exists>log log'. m log = (Inr x, log'))"

lemma gives_pure [simp]:
  "gives (return x) y \<longleftrightarrow> y = x" "\<not> gives (fail e) y" "gives (lift r) y \<longleftrightarrow> r = Inr y"
  by (auto simp: gives_def op_defs)

lemma gives_bindE:
  assumes "gives (bind m f) y"
  obtains x where "gives m x" "gives (f x) y"
  using assms unfolding gives_def by (metis bindE sum.distinct(1))

lemma attempt_Inr: "attempt m log = (Inr r, log') \<longleftrightarrow> m log = (r, log')"
  by (cases "m log") (simp add: attempt_def)

lemma gives_attempt [simp]: "gives (attempt m) (Inr x) \<longleftrightarrow> gives m x"
  by (simp add: gives_def attempt_Inr)

locale event_policy =
  fixes allowed :: "Event \<Rightarrow> bool" and may_open :: "Path \<Rightarrow> bool"
  assumes inspection_allowed: "inspects e \<Longrightarrow> allowed e"
    and open_allowed: "may_open p \<Longrightarrow> allowed (Opened p r) \<and> allowed (ReadFile p b) \<and> allowed (ReadDir p d)"
begin

definition within :: "('e, 'a) op \<Rightarrow> bool" where
  "within m \<longleftrightarrow> (\<forall>log. \<exists>es. snd (m log) = log @ es \<and> list_all allowed es)"

lemma withinD: "within m \<Longrightarrow> m log = (r, log') \<Longrightarrow> \<exists>es. log' = log @ es \<and> list_all allowed es"
  unfolding within_def by (metis snd_conv)

lemma within_pure [simp]: "within (return x)" "within (fail e)" "within (lift r)"
  by (simp_all add: within_def op_defs)

lemma within_bind:
  assumes "within m" and "\<And>x. gives m x \<Longrightarrow> within (f x)"
  shows "within (bind m f)"
  unfolding within_def
proof
  fix log
  obtain r log1 where m: "m log = (r, log1)" by fastforce
  obtain es where es: "log1 = log @ es" "list_all allowed es" using withinD [OF assms(1) m] by blast
  show "\<exists>es. snd (bind m f log) = log @ es \<and> list_all allowed es"
  proof (cases r)
    case (Inr x)
    have "within (f x)" using m Inr by (intro assms(2)) (auto simp: gives_def)
    then obtain es' where "snd (f x log1) = log1 @ es'" "list_all allowed es'" unfolding within_def by blast
    then show ?thesis using m es Inr by (auto simp: bind_def)
  qed (use m es in \<open>auto simp: bind_def\<close>)
qed

lemma within_attempt: "within m \<Longrightarrow> within (attempt m)"
  by (auto simp: within_def attempt_def split: prod.splits) (metis snd_conv)

lemma within_map_err: "within m \<Longrightarrow> within (map_err h m)"
  unfolding within_def by (auto simp: map_err_def split: prod.splits sum.splits) (metis snd_conv)+

lemma within_answers [simp]: "within (or_io a p r)" "within (done_or_io a p k)"
  by (auto simp: or_io_def done_or_io_def split: sum.splits option.splits)

lemma within_event:
  assumes "\<And>log. \<exists>r e. m log = (r, log @ [e]) \<and> allowed e"
  shows "within m"
  unfolding within_def
proof
  fix log
  obtain r e where "m log = (r, log @ [e])" "allowed e" using assms by blast
  then show "\<exists>es. snd (m log) = log @ es \<and> list_all allowed es" by (intro exI [of _ "[e]"]) simp
qed

lemma within_inspections [simp]:
  "within (poll os)" "within (stat os p)" "within (lstat os p)" "within (link_kind dirs p)"
  "within (resolve_path os tools core requested)"
  by (rule within_event; auto simp: op_defs link_kind_def resolve_path_def Let_def intro: inspection_allowed)+

lemma within_opens [simp]:
  assumes "may_open p"
  shows "within (open_file os p)" "within (read_file os p)" "within (read_dir dirs p)"
  by (rule within_event; auto simp: op_defs read_dir_def Let_def open_allowed [OF assms])+

lemmas within_rules = within_bind within_attempt within_map_err

lemma within_read_bounded [simp]: "may_open p \<Longrightarrow> within (read_bounded os p n)"
  unfolding read_bounded_def by (auto simp: Let_def intro!: within_rules)

lemma within_snapshot [simp]: "may_open p \<Longrightarrow> within (read_text_snapshot_required os sha fmt p n)"
  unfolding read_text_snapshot_required_def read_file_snapshot_required_def
  by (auto simp: Let_def split: prod.splits intro!: within_rules)

lemma within_inspect_existing [simp]: "within (inspect_existing os p requested)"
  unfolding inspect_existing_def by (auto intro!: within_rules split: sum.splits IoErrorKind.splits)

lemma within_listing_metadata [simp]: "may_open p \<Longrightarrow> within (file_listing_metadata os tools core p)"
  unfolding file_listing_metadata_def
  by (auto intro!: within_rules split: sum.splits FilesystemError.splits)

lemma within_revalidate [simp]: "within (revalidate_resource os tools core resource)"
  unfolding revalidate_resource_def
  by (rule within_bind, rule within_event) (auto simp: Let_def intro!: within_rules inspection_allowed)

lemma within_select_lines [simp]: "within (select_read_lines os limits index sources w)"
  by (induction os limits index sources w rule: select_read_lines.induct) (auto simp: Let_def intro!: within_rules)

lemma within_raw_entries [simp]: "within (raw_entries os p most rs names)"
  by (induction os p most rs names rule: raw_entries.induct) (auto intro!: within_rules split: sum.splits)

end

text \<open>Reads of resolved paths.\<close>

locale authorised_reads = event_policy +
  fixes tools :: Tools and core :: FilesystemCore
  assumes resolved_may_open: "gives (resolve_path os tools core requested) p \<Longrightarrow> may_open p"
begin

lemma within_list_entries [simp]: "within (list_entries os tools core p names details)"
proof (induction names arbitrary: details)
  case (Cons name names)
  show ?case
    by (auto simp: Let_def intro!: within_rules Cons.IH within_listing_metadata split: sum.splits) (erule resolved_may_open)+
qed simp

lemma within_read_directory [simp]: "may_open p \<Longrightarrow> within (read_directory os dirs tools core p relative_path)"
  unfolding read_directory_def by (auto intro!: within_rules split: prod.splits)

lemma within_read_prepared [simp]:
  "may_open (res_path resource) \<Longrightarrow> within (file_read_prepared os dirs tools core resource relative_path offset limit)"
  unfolding file_read_prepared_def read_window_def
  by (auto intro!: within_rules split: sum.splits IoErrorKind.splits)

lemma prepared_read_may_open: "gives (prepare_read os tools core input) prepared \<Longrightarrow> may_open (res_path (rd_resource prepared))"
  unfolding prepare_read_def
  by (auto elim!: gives_bindE simp: Let_def split: if_splits) (erule resolved_may_open)+

lemma within_prepare_read [simp]: "within (prepare_read os tools core input)"
  unfolding prepare_read_def by (auto intro!: within_rules simp: Let_def)

lemma within_file_read: "within (file_read os dirs tools core input)"
  unfolding file_read_def execute_prepared_read_def
  by (auto intro!: within_rules dest: prepared_read_may_open)

end

text \<open>A path the policy lets a caller see, and the events of a reader that stays inside it.\<close>

definition permitted :: "Tools \<Rightarrow> FilesystemCore \<Rightarrow> Path \<Rightarrow> bool" where
  "permitted tools core p \<longleftrightarrow> (confined (core_policy core) \<longrightarrow> inside (t_lower tools) (core_policy core) p)"

fun read_event :: "Tools \<Rightarrow> FilesystemCore \<Rightarrow> Event \<Rightarrow> bool" where
  "read_event tools core (Opened p r) = permitted tools core p"
| "read_event tools core (ReadFile p r) = permitted tools core p"
| "read_event tools core (ReadDir p r) = permitted tools core p"
| "read_event tools core (Did a r) = False"
| "read_event tools core _ = True"

interpretation reads: authorised_reads "read_event tools core" "permitted tools core" tools core for tools core
proof unfold_locales
  show "inspects e \<Longrightarrow> read_event tools core e" for e by (cases e) auto
  show "gives (resolve_path os tools core requested) p \<Longrightarrow> permitted tools core p" for os requested p
    by (auto simp: gives_def permitted_def dest: resolve_path_ok)
qed simp

text \<open>
  C35. A read, whether it succeeds or is refused, opens and lists only paths inside the root that are
  not protected, and performs no action: no file is created, written, linked, renamed or removed.
\<close>

theorem file_read_confined:
  "\<exists>es. snd (file_read os dirs tools core input log) = log @ es \<and> list_all (read_event tools core) es"
  using reads.within_file_read [of tools core os dirs input] unfolding reads.within_def by blast

section \<open>The window is exact\<close>

lemma byte_len_join_snoc:
  "byte_len (join [NL] (ls @ [l])) = byte_len (join [NL] ls) + (byte_len l + (if ls \<noteq> [] then 1 else 0))"
  by (cases "ls = []") (auto simp: join_snoc byte_len_append byte_len_Cons len_utf8_def)

fun numbered_from :: "nat \<Rightarrow> ustr list \<Rightarrow> ustr list" where
  "numbered_from i [] = []"
| "numbered_from i (l # ls) = numbered_line i l # numbered_from (Suc i) ls"

lemma length_numbered_from [simp]: "length (numbered_from i ls) = length ls"
  by (induction i ls rule: numbered_from.induct) auto

lemma take_numbered_from [simp]: "take n (numbered_from i ls) = numbered_from i (take n ls)"
  by (induction i ls arbitrary: n rule: numbered_from.induct) (auto simp: take_Cons split: nat.splits)

definition cut_at :: "nat \<Rightarrow> ustr list \<Rightarrow> nat \<Rightarrow> bool" where
  "cut_at most ls n \<longleftrightarrow> n \<le> length ls \<and> byte_len (join [NL] (take n ls)) \<le> most \<and>
     (n < length ls \<longrightarrow> most < byte_len (join [NL] (take (Suc n) ls)))"

lemma select_lines_exact:
  assumes "select_read_lines os limits i sources w log = (Inr w', log')"
    and "wi_bytes w = byte_len (join [NL] (wi_numbered w))" and "wi_bytes w \<le> max_read_bytes limits"
  shows "\<exists>n. let shown = map (\<lambda>l. truncate_line l (max_line_length limits)) sources in
    n \<le> length sources \<and>
    cut_at (max_read_bytes limits) (wi_numbered w @ numbered_from i shown) (length (wi_numbered w) + n) \<and>
    wi_selected w' = wi_selected w @ take n shown \<and> wi_numbered w' = wi_numbered w @ numbered_from i (take n shown) \<and>
    (wi_truncated w' \<longleftrightarrow> wi_truncated w \<or> n < length sources)"
  using assms
proof (induction sources arbitrary: i w log)
  case Nil
  then show ?case by (auto simp: op_defs cut_at_def)
next
  case (Cons source sources)
  define line where "line = truncate_line source (max_line_length limits)"
  define len where "len = byte_len (numbered_line i line) + (if wi_numbered w \<noteq> [] then 1 else 0)"
  define next_w where "next_w = w\<lparr>wi_selected := wi_selected w @ [line],
    wi_numbered := wi_numbered w @ [numbered_line i line], wi_bytes := wi_bytes w + len\<rparr>"
  note names = line_def [symmetric] len_def [symmetric] next_w_def [symmetric]
  have grown: "byte_len (join [NL] (wi_numbered w @ [numbered_line i line])) = wi_bytes w + len"
    using Cons.prems(2) by (simp add: byte_len_join_snoc len_def)
  show ?case
  proof (cases "wi_bytes w + len > max_read_bytes limits")
    case True
    with Cons.prems have "w' = w\<lparr>wi_truncated := True\<rparr>"
      by (auto simp: names Let_def op_defs elim!: bindE split: if_splits)
    then show ?thesis using True grown Cons.prems(2,3)
      by (intro exI [of _ 0]) (auto simp: cut_at_def names Let_def)
  next
    case False
    obtain log1 where "select_read_lines os limits (i + 1) sources next_w log1 = (Inr w', log')"
      using Cons.prems(1) False by (auto simp: names Let_def elim!: bindE)
    moreover have "wi_bytes next_w = byte_len (join [NL] (wi_numbered next_w))" "wi_bytes next_w \<le> max_read_bytes limits"
      using False grown by (simp_all add: next_w_def)
    ultimately obtain n where "n \<le> length sources"
      and "let shown = map (\<lambda>l. truncate_line l (max_line_length limits)) sources in
        cut_at (max_read_bytes limits) (wi_numbered next_w @ numbered_from (i + 1) shown) (length (wi_numbered next_w) + n) \<and>
        wi_selected w' = wi_selected next_w @ take n shown \<and>
        wi_numbered w' = wi_numbered next_w @ numbered_from (i + 1) (take n shown) \<and>
        (wi_truncated w' \<longleftrightarrow> wi_truncated next_w \<or> n < length sources)"
      using Cons.IH [of "i + 1" next_w log1] by (auto simp: Let_def)
    then show ?thesis
      by (intro exI [of _ "Suc n"]) (simp add: Let_def next_w_def line_def)
  qed
qed

lemma file_read_shape:
  assumes "file_read os dirs tools core input log = (Inr (ReadFileOutput out), log')"
  obtains prepared checked log1 log2 log3 bs where "prepare_read os tools core input log = (Inr prepared, log1)"
    "validate_read input = Inr checked"
    "rd_offset prepared = (case ri_offset checked of Some v \<Rightarrow> v | None \<Rightarrow> 1)"
    "rd_limit prepared = (case ri_limit checked of Some v \<Rightarrow> v | None \<Rightarrow> max_read_lines (core_limits core))"
    "read_bounded os (res_path (rd_resource prepared)) (max_file_bytes (core_limits core)) log2 = (Inr bs, log3)"
    "read_window os (core_limits core) (split_text_lines (decode_text bs)) (rd_offset prepared) (rd_limit prepared)
       (res_path (rd_resource prepared)) (rd_relative_path prepared) log3 = (Inr out, log')"
proof -
  obtain prepared log1 where p: "prepare_read os tools core input log = (Inr prepared, log1)"
    and e: "execute_prepared_read os dirs tools core prepared log1 = (Inr (ReadFileOutput out), log')"
    using assms unfolding file_read_def by (auto elim: bindE)
  obtain log2 where "file_read_prepared os dirs tools core (rd_resource prepared) (rd_relative_path prepared)
      (rd_offset prepared) (rd_limit prepared) log2 = (Inr (ReadFileOutput out), log')"
    using e unfolding execute_prepared_read_def by (auto elim!: bindE)
  then obtain log3 log4 bs where
    "read_bounded os (res_path (rd_resource prepared)) (max_file_bytes (core_limits core)) log3 = (Inr bs, log4)"
    "read_window os (core_limits core) (split_text_lines (decode_text bs)) (rd_offset prepared) (rd_limit prepared)
       (res_path (rd_resource prepared)) (rd_relative_path prepared) log4 = (Inr out, log')"
    unfolding file_read_prepared_def
    by (auto elim!: bindE liftE simp: return_def fail_def split: if_splits)
  moreover obtain checked where "validate_read input = Inr checked"
    "rd_offset prepared = (case ri_offset checked of Some v \<Rightarrow> v | None \<Rightarrow> 1)"
    "rd_limit prepared = (case ri_limit checked of Some v \<Rightarrow> v | None \<Rightarrow> max_read_lines (core_limits core))"
    using p unfolding prepare_read_def Let_def
    by (auto elim!: bindE simp: return_def fail_def lift_def split: if_splits)
  ultimately show ?thesis using that p by blast
qed

text \<open>
  C36. The text returned for a file is the longest run of the requested lines, from the first, that
  fits the byte budget with its line numbers. The lines are those of bytes that were read in full from a
  permitted path, each cut to the longest line shown; the result is marked truncated exactly when
  lines of the file remain after it, and the reported positions are those of the lines returned.
\<close>

theorem file_read_exact:
  assumes "file_read os dirs tools core input log = (Inr (ReadFileOutput out), log')"
  shows "\<exists>p bs n. permitted tools core p \<and> ReadFile p (Inr bs) \<in> set log' \<and> length bs \<le> max_file_bytes (core_limits core) \<and>
    (let offset = (case ri_offset input of Some v \<Rightarrow> v | None \<Rightarrow> 1);
         limit = (case ri_limit input of Some v \<Rightarrow> v | None \<Rightarrow> max_read_lines (core_limits core));
         lines = split_text_lines (decode_text bs);
         shown = map (\<lambda>l. truncate_line l (max_line_length (core_limits core))) (take limit (drop (offset - 1) lines))
     in cut_at (max_read_bytes (core_limits core)) (numbered_from (offset - 1) shown) n \<and>
        ft_text out = join [NL] (take n shown) \<and> ft_numbered_text out = join [NL] (numbered_from (offset - 1) (take n shown)) \<and>
        ft_path out = path_text p \<and> ft_line_start out = offset \<and> ft_line_end out = offset + n - 1 \<and>
        ft_total_lines out = length lines \<and> (ft_truncated out \<longleftrightarrow> offset - 1 + n < length lines))"
  using assms
proof (cases rule: file_read_shape)
  case (1 prepared checked log1 log2 log3 bs)
  define lines where "lines = split_text_lines (decode_text bs)"
  define offset where "offset = rd_offset prepared"
  define window where "window = take (rd_limit prepared) (drop (offset - 1) lines)"
  define shown where "shown = map (\<lambda>l. truncate_line l (max_line_length (core_limits core))) window"
  define p where "p = res_path (rd_resource prepared)"
  have opts: "ri_offset checked = ri_offset input" "ri_limit checked = ri_limit input"
    using 1(2) by (auto simp: validate_read_def Let_def split: if_splits)
  obtain w log4 where w: "select_read_lines os (core_limits core) (offset - 1) window
      \<lparr>wi_selected = [], wi_numbered = [], wi_bytes = 0, wi_truncated = False\<rparr> log3 = (Inr w, log')"
    and out: "out = \<lparr>ft_path = path_text p, ft_relative_path = rd_relative_path prepared, ft_text = join [NL] (wi_selected w),
             ft_numbered_text = join [NL] (wi_numbered w), ft_line_start = offset,
             ft_line_end = offset + length (wi_selected w) - 1, ft_total_lines = length lines,
             ft_truncated = (wi_truncated w \<or> offset - 1 + length (wi_selected w) < length lines)\<rparr>"
    using 1(6) unfolding read_window_def by (auto elim!: bindE simp: return_def lines_def offset_def window_def p_def)
  obtain n where n: "n \<le> length window" "cut_at (max_read_bytes (core_limits core)) (numbered_from (offset - 1) shown) n"
    "wi_selected w = take n shown" "wi_numbered w = numbered_from (offset - 1) (take n shown)"
    "wi_truncated w \<longleftrightarrow> n < length window"
    using select_lines_exact [OF w] by (auto simp: shown_def Let_def)
  have "permitted tools core p"
    using reads.prepared_read_may_open [of os tools core input prepared] 1(1) by (auto simp: gives_def p_def)
  moreover have "ReadFile p (Inr bs) \<in> set log'" "length bs \<le> max_file_bytes (core_limits core)"
    using read_bounded_ok [OF 1(5)] reads.withinD [OF reads.within_select_lines [of tools core] w] by (auto simp: p_def)
  moreover have "length window \<le> length lines - (offset - 1)" by (simp add: window_def)
  then have "n < length window \<Longrightarrow> offset - 1 + n < length lines" by linarith
  ultimately show ?thesis
    using n out opts 1(3,4)
    by (intro exI [of _ p] exI [of _ bs] exI [of _ n])
      (auto simp: Let_def offset_def window_def shown_def lines_def)
qed

section \<open>A concrete read\<close>

definition demo_dirs :: DirCalls where
  "demo_dirs = \<lparr>dc_read_dir = (\<lambda>_ _. Inr []), dc_link_kind = (\<lambda>_ _. Inl IoNotFound)\<rparr>"

definition demo_read_input :: FileReadInput where
  "demo_read_input = \<lparr>ri_file_path = u ''a'', ri_offset = None, ri_limit = None\<rparr>"

lemma demo_revalidate_a: "revalidate to_ascii_lowercase demo_canon demo_policy (components (u ''/w/a'')) = Inr (components (u ''/w/a''))"
  by (simp add: revalidate_def demo_path_defs)

lemma edit_os_calls:
  "os_cancelled edit_os n = False" "os_realpath edit_os n = demo_canon" "os_stat edit_os n p = Inr demo_meta"
  "os_open edit_os n p = None" "os_read edit_os n p = Inr (u ''ab'')"
  by (simp_all add: edit_os_def demo_os_def)

lemma demo_window:
  "read_window edit_os default_limits [u ''ab''] (Suc 0) 2000 p r log =
     (Inr \<lparr>ft_path = path_text p, ft_relative_path = r, ft_text = u ''ab'', ft_numbered_text = u ''1: ab'', ft_line_start = 1,
           ft_line_end = 1, ft_total_lines = 1, ft_truncated = False\<rparr>, log @ [Polled False])"
  by (simp add: read_window_def bind_def return_def poll_def edit_os_def demo_os_def Let_def truncate_line_def default_limits_def
      encode_utf16_def encode_utf16_char_def u_def numbered_line_def dec.simps byte_len_def len_utf8_def)

lemma demo_read_runs:
  obtains out log where "file_read edit_os demo_dirs demo_tools demo_core demo_read_input [] = (Inr (ReadFileOutput out), log)"
    "ft_numbered_text out = u ''1: ab''"
proof -
  have "split_text_lines (u ''ab'') = [u ''ab'']"
    by (simp add: split_text_lines_def text_defs)
  moreover have kind: "md_kind demo_meta = IsFile" by (simp add: demo_meta_def)
  moreover have "validate_read demo_read_input = Inr demo_read_input" "length (u ''ab'') = 2" "max_read_lines default_limits = 2000"
    by (simp_all add: validate_read_def demo_read_input_def u_def default_limits_def)
  ultimately have "file_read edit_os demo_dirs demo_tools demo_core demo_read_input [] =
    (Inr (ReadFileOutput \<lparr>ft_path = path_text (components (u ''/w/a'')), ft_relative_path = u ''a'', ft_text = u ''ab'',
       ft_numbered_text = u ''1: ab'', ft_line_start = 1, ft_line_end = 1, ft_total_lines = 1, ft_truncated = False\<rparr>),
     snd (file_read edit_os demo_dirs demo_tools demo_core demo_read_input []))"
    using demo_resolve_a demo_relative_a demo_text_file demo_sizes demo_decode_ab demo_revalidate_a demo_window
    by (simp add: file_read_def prepare_read_def execute_prepared_read_def file_read_prepared_def revalidate_resource_def
        inspect_existing_def demo_run_defs demo_core_def edit_os_calls demo_tools_def demo_read_input_def kind)
  then show ?thesis by (rule that) simp
qed

theorem file_read_exact_witness:
  "\<exists>out log p. file_read edit_os demo_dirs demo_tools demo_core demo_read_input [] = (Inr (ReadFileOutput out), log) \<and>
     permitted demo_tools demo_core p \<and> ft_path out = path_text p"
proof -
  obtain out log where r: "file_read edit_os demo_dirs demo_tools demo_core demo_read_input [] = (Inr (ReadFileOutput out), log)"
    by (rule demo_read_runs)
  show ?thesis using file_read_exact [OF r] r by (auto simp: Let_def)
qed

end
