(* ===== verification/Glob.thy ===== *)
theory Glob
  imports File_Base Utf8
begin

text \<open>
  The bounded glob matcher (\<open>crates/mcp-files/src/glob.rs\<close>): brace expansion under depth, count
  and size limits, the token language shared with the gitignore dialect, the dynamic-programming
  matcher over UTF-16 code units, its literal fast paths and the work budget of an operation.
  The scratch buffers are overwritten before every use and are not part of the model;
  \<open>normalize_separators\<close> is the identity on the Unix build.
\<close>

section \<open>Tokens and patterns\<close>

datatype Token =
    RecursiveDirectories
  | Recursive
  | SegmentStar
  | Any
  | Literal nat
  | Class nat

record CharClass =
  negated :: bool
  ranges :: "(nat \<times> nat) list"

definition class_contains :: "CharClass \<Rightarrow> nat \<Rightarrow> bool" where
  "class_contains c unit =
     (if unit = SLASH then False
      else (list_ex (\<lambda>(low, high). low \<le> unit \<and> unit \<le> high) (ranges c)) \<noteq> negated c)"

datatype MatchOutcome = Matched | Missed | BudgetExhausted

datatype FastPath = LiteralPath ustr | RecursiveLiteralSuffix ustr

record GlobMatcher =
  alternatives :: "Token list list"
  fast_path :: "FastPath option"
  subsumes_basename :: bool

function tokenize :: "ustr \<Rightarrow> Token list" where
  "tokenize cs =
     (case cs of
        [] \<Rightarrow> []
      | c # rest \<Rightarrow>
          if c = STAR
          then if starts_with rest [STAR, SLASH] then RecursiveDirectories # tokenize (drop 2 rest)
               else if starts_with rest [STAR] then Recursive # tokenize (drop 1 rest)
               else SegmentStar # tokenize rest
          else if c = 63 then Any # tokenize rest
          else map Literal (encode_utf16_char c) @ tokenize rest)"
  by pat_completeness auto
termination
  by (relation "measure length") auto

declare tokenize.simps [simp del]

definition FastPath_new :: "ustr \<Rightarrow> FastPath option" where
  "FastPath_new pattern =
     (case strip_prefix pattern (u ''**/'') of
        Some suf \<Rightarrow>
          if suf \<noteq> [] \<and> STAR \<notin> set suf \<and> 63 \<notin> set suf then Some (RecursiveLiteralSuffix suf)
          else if STAR \<notin> set pattern \<and> 63 \<notin> set pattern then Some (LiteralPath pattern) else None
      | None \<Rightarrow>
          if STAR \<notin> set pattern \<and> 63 \<notin> set pattern then Some (LiteralPath pattern) else None)"

definition FastPath_steps :: "FastPath \<Rightarrow> nat" where
  "FastPath_steps f =
     (case f of LiteralPath l \<Rightarrow> byte_len l + 1 | RecursiveLiteralSuffix l \<Rightarrow> byte_len l + 1)"

definition FastPath_is_match :: "FastPath \<Rightarrow> ustr \<Rightarrow> bool" where
  "FastPath_is_match f value =
     (case f of
        LiteralPath l \<Rightarrow> value = l
      | RecursiveLiteralSuffix suf \<Rightarrow>
          value = suf \<or>
          (case strip_suffix value suf of Some pre \<Rightarrow> ends_with pre [SLASH] | None \<Rightarrow> False))"

section \<open>Brace expansion\<close>

definition brace_group_at :: "ustr \<Rightarrow> nat \<Rightarrow> (nat \<times> nat) option" where
  "brace_group_at pattern e =
     (if pattern ! e \<noteq> 125 then None
      else case rfind_sub [123] (take e pattern) of
             None \<Rightarrow> None
           | Some s \<Rightarrow>
               (let body = take (e - Suc s) (drop (Suc s) pattern)
                in if body \<noteq> [] \<and> 123 \<notin> set body \<and> 125 \<notin> set body then Some (s, e) else None))"

definition first_brace_group :: "ustr \<Rightarrow> (nat \<times> nat) option" where
  "first_brace_group pattern = find_map (brace_group_at pattern) [0..<length pattern]"

lemma rfind_char_Some:
  "rfind_sub [c] s = Some i \<Longrightarrow> i < length s \<and> s ! i = c \<and> c \<notin> set (drop (Suc i) s)"
proof (induction s arbitrary: i)
  case (Cons x s)
  have "rfind_sub [c] s = None \<Longrightarrow> c \<notin> set s" for s
    by (induction s) (auto simp: starts_with_def split: option.splits if_splits)
  with Cons show ?case by (auto simp: starts_with_def split: option.splits if_splits)
qed simp

lemma first_brace_group_Some:
  assumes "first_brace_group p = Some (s, e)"
  shows "s < e \<and> e < length p \<and> p ! s = 123 \<and> p ! e = 125 \<and>
    123 \<notin> set (take (e - Suc s) (drop (Suc s) p))"
proof -
  obtain i where "i < length p" and "brace_group_at p i = Some (s, e)"
    using find_map_Some [OF assms [unfolded first_brace_group_def]] by auto
  then show ?thesis
    by (auto simp: brace_group_at_def Let_def dest!: rfind_char_Some split: if_splits option.splits)
qed

lemma split_at_group:
  assumes "s < e" "e < length p"
  shows "p = take s p @ [p ! s] @ take (e - Suc s) (drop (Suc s) p) @ [p ! e] @ drop (Suc e) p"
proof -
  have "drop (Suc s) p = take (e - Suc s) (drop (Suc s) p) @ drop e p"
    using assms by (metis Suc_leI append_take_drop_id drop_drop le_add_diff_inverse2)
  moreover have "drop e p = p ! e # drop (Suc e) p" using assms by (simp add: Cons_nth_drop_Suc)
  moreover have "drop s p = p ! s # drop (Suc s) p" using assms by (simp add: Cons_nth_drop_Suc)
  ultimately show ?thesis by (metis append_Cons append_Nil append_take_drop_id)
qed

lemma brace_count_decreases:
  assumes "first_brace_group p = Some (s, e)"
    and "part \<in> set (split_on 44 (take (e - Suc s) (drop (Suc s) p)))"
  shows "count_list (take s p @ part @ drop (Suc e) p) 123 < count_list p 123"
proof -
  let ?body = "take (e - Suc s) (drop (Suc s) p)"
  note g = first_brace_group_Some [OF assms(1)]
  have "set part \<subseteq> set ?body"
    using assms(2) unfolding split_on_def by (rule split_by_subset)
  then have none: "count_list part 123 = 0" "count_list ?body 123 = 0"
    using g by (auto simp: count_list_0_iff)
  have "count_list p 123 = count_list (take s p @ [p ! s] @ ?body @ [p ! e] @ drop (Suc e) p) 123"
    using split_at_group [of s e p] g by simp
  then show ?thesis using g none by simp
qed

function expand_bounded ::
  "FilesystemLimits \<Rightarrow> ustr \<Rightarrow> nat \<Rightarrow> ustr list \<times> nat \<Rightarrow> FilesystemError + (ustr list \<times> nat)" where
  "expand_bounded limits pattern depth st =
     (case first_brace_group pattern of
        None \<Rightarrow>
          (let (output, generated_bytes) = st
           in if length output = max_glob_alternatives limits
              then Inl (InvalidRequest (u ''glob pattern exceeds maximum of '' @
                     dec (max_glob_alternatives limits) @ u '' alternatives''))
              else case checked_add generated_bytes (byte_len pattern) of
                     None \<Rightarrow> Inl (InvalidRequest (u ''glob expansion is too large''))
                   | Some generated_bytes \<Rightarrow>
                       if generated_bytes > max_glob_generated_bytes limits
                       then Inl (InvalidRequest (u ''glob expansion exceeds maximum size of '' @
                              dec (max_glob_generated_bytes limits) @ u '' bytes''))
                       else Inr (output @ [pattern], generated_bytes))
      | Some (s, e) \<Rightarrow>
          if depth = max_glob_brace_depth limits
          then Inl (InvalidRequest (u ''glob pattern exceeds maximum brace depth of '' @
                 dec (max_glob_brace_depth limits)))
          else
            (let before = take s pattern; after = drop (Suc e) pattern
             in try_fold
                  (\<lambda>st part.
                     case Option.bind (checked_add (byte_len before) (byte_len part))
                            (\<lambda>size. checked_add size (byte_len after)) of
                       None \<Rightarrow> Inl (InvalidRequest (u ''glob expansion is too large''))
                     | Some estimated \<Rightarrow>
                         if estimated > max_glob_generated_bytes limits
                         then Inl (InvalidRequest (u ''glob expansion is too large''))
                         else expand_bounded limits (before @ part @ after) (Suc depth) st)
                  st (split_on 44 (take (e - Suc s) (drop (Suc s) pattern)))))"
  by pat_completeness auto
termination
  by (relation "measure (\<lambda>(_, pattern, _, _). count_list pattern 123)")
    (auto dest: brace_count_decreases)

declare expand_bounded.simps [simp del]

definition GlobMatcher_new :: "ustr \<Rightarrow> FilesystemLimits \<Rightarrow> FilesystemError + GlobMatcher" where
  "GlobMatcher_new pattern limits =
     (if byte_len pattern > max_glob_bytes limits
      then Inl (InvalidRequest (u ''glob pattern exceeds maximum size of '' @
             dec (max_glob_bytes limits) @ u '' bytes''))
      else case expand_bounded limits pattern 0 ([], 0) of
             Inl e \<Rightarrow> Inl e
           | Inr (expanded, _) \<Rightarrow>
               Inr \<lparr>alternatives = map tokenize expanded,
                    fast_path = (if length expanded = 1 then FastPath_new (expanded ! 0) else None),
                    subsumes_basename = list_all (\<lambda>a. starts_with a (u ''**/'')) expanded\<rparr>)"

section \<open>Matching\<close>

text \<open>
  One row of the table: \<open>nxt\<close> tells for every suffix of the value whether the tokens after this
  one match it, and the result tells it with this token in front.
\<close>

definition token_row :: "CharClass list \<Rightarrow> nat list \<Rightarrow> Token \<Rightarrow> bool list \<Rightarrow> bool list" where
  "token_row classes value token nxt =
     (let n = length value; blank = replicate (Suc n) False
      in case token of
           RecursiveDirectories \<Rightarrow>
             fst (foldl
               (\<lambda>(current, slash_exit) i.
                  (let slash_exit =
                         (if i < n \<and> value ! i = SLASH \<and> nxt ! Suc i then True else slash_exit)
                   in (current[i := nxt ! i \<or> slash_exit], slash_exit)))
               (blank, False) (rev [0..<Suc n]))
         | Recursive \<Rightarrow>
             foldl (\<lambda>current i. current[i := nxt ! i \<or> (i < n \<and> current ! Suc i)]) blank
               (rev [0..<Suc n])
         | SegmentStar \<Rightarrow>
             foldl
               (\<lambda>current i. current[i := nxt ! i \<or> (i < n \<and> value ! i \<noteq> SLASH \<and> current ! Suc i)])
               blank (rev [0..<Suc n])
         | Any \<Rightarrow>
             foldl (\<lambda>current i. current[i := value ! i \<noteq> SLASH \<and> nxt ! Suc i]) blank [0..<n]
         | Literal expected \<Rightarrow>
             foldl (\<lambda>current i. current[i := value ! i = expected \<and> nxt ! Suc i]) blank [0..<n]
         | Class k \<Rightarrow>
             foldl
               (\<lambda>current i.
                  current[i := (k < length classes \<and> class_contains (classes ! k) (value ! i)) \<and> nxt ! Suc i])
               blank [0..<n])"

definition matches_tokens :: "Token list \<Rightarrow> CharClass list \<Rightarrow> nat list \<Rightarrow> bool" where
  "matches_tokens tokens classes value =
     foldl (\<lambda>nxt token. token_row classes value token nxt)
       ((replicate (Suc (length value)) False)[length value := True]) (rev tokens) ! 0"

definition outcome :: "bool \<Rightarrow> MatchOutcome" where
  "outcome matched = (if matched then Matched else Missed)"

text \<open>Results come with the steps that remain of the operation's budget.\<close>

definition try_match :: "GlobMatcher \<Rightarrow> ustr \<Rightarrow> nat \<Rightarrow> (FilesystemError + MatchOutcome) \<times> nat" where
  "try_match m value remaining_steps =
     (case fast_path m of
        Some f \<Rightarrow>
          if FastPath_steps f > remaining_steps then (Inr BudgetExhausted, remaining_steps)
          else (Inr (outcome (FastPath_is_match f value)), remaining_steps - FastPath_steps f)
      | None \<Rightarrow>
          (let units = encode_utf16 value;
               token_count = sum_list (map length (alternatives m))
           in case checked_mul token_count (sat_add (length units) 1) of
                None \<Rightarrow> (Inl (Operation (u ''glob matching work is too large'')), remaining_steps)
              | Some steps \<Rightarrow>
                  if steps > remaining_steps then (Inr BudgetExhausted, remaining_steps)
                  else (Inr (outcome (list_ex (\<lambda>tokens. matches_tokens tokens [] units) (alternatives m))),
                        remaining_steps - steps)))"

definition matches_candidate ::
  "GlobMatcher \<Rightarrow> ustr \<Rightarrow> ustr \<Rightarrow> nat \<Rightarrow> (FilesystemError + MatchOutcome) \<times> nat" where
  "matches_candidate m relative_path basename remaining_steps =
     (case try_match m relative_path remaining_steps of
        (Inr Missed, left) \<Rightarrow>
          if \<not> subsumes_basename m then try_match m basename left else (Inr Missed, left)
      | other \<Rightarrow> other)"

section \<open>What a pattern matches\<close>

text \<open>The meaning of a token list, independent of the table that computes it.\<close>

fun glob_matches :: "CharClass list \<Rightarrow> Token list \<Rightarrow> nat list \<Rightarrow> bool" where
  "glob_matches cl [] v \<longleftrightarrow> v = []"
| "glob_matches cl (RecursiveDirectories # ts) v \<longleftrightarrow>
     glob_matches cl ts v \<or> (\<exists>i<length v. v ! i = SLASH \<and> glob_matches cl ts (drop (Suc i) v))"
| "glob_matches cl (Recursive # ts) v \<longleftrightarrow> (\<exists>i\<le>length v. glob_matches cl ts (drop i v))"
| "glob_matches cl (SegmentStar # ts) v \<longleftrightarrow>
     (\<exists>i\<le>length v. SLASH \<notin> set (take i v) \<and> glob_matches cl ts (drop i v))"
| "glob_matches cl (Any # ts) v \<longleftrightarrow> v \<noteq> [] \<and> hd v \<noteq> SLASH \<and> glob_matches cl ts (tl v)"
| "glob_matches cl (Literal c # ts) v \<longleftrightarrow> v \<noteq> [] \<and> hd v = c \<and> glob_matches cl ts (tl v)"
| "glob_matches cl (Class k # ts) v \<longleftrightarrow>
     v \<noteq> [] \<and> k < length cl \<and> class_contains (cl ! k) (hd v) \<and> glob_matches cl ts (tl v)"

lemma ex_le_Suc: "(\<exists>i\<le>Suc n. P i) \<longleftrightarrow> P 0 \<or> (\<exists>i\<le>n. P (Suc i))"
  by (metis Suc_le_mono le0 not0_implies_Suc)

lemma recursive_step:
  "glob_matches cl (Recursive # ts) v \<longleftrightarrow>
     glob_matches cl ts v \<or> (v \<noteq> [] \<and> glob_matches cl (Recursive # ts) (tl v))"
  by (cases v) (auto simp: ex_le_Suc)

lemma segment_star_step:
  "glob_matches cl (SegmentStar # ts) v \<longleftrightarrow>
     glob_matches cl ts v \<or> (v \<noteq> [] \<and> hd v \<noteq> SLASH \<and> glob_matches cl (SegmentStar # ts) (tl v))"
  by (cases v) (auto simp: ex_le_Suc)

definition row_ok :: "nat \<Rightarrow> (nat \<Rightarrow> bool) \<Rightarrow> bool list \<Rightarrow> bool" where
  "row_ok n F row \<longleftrightarrow> length row = Suc n \<and> (\<forall>i\<le>n. row ! i = F i)"

lemma blank_row: "i \<le> n \<Longrightarrow> replicate (Suc n) False ! i = False"
  by (subst nth_replicate) simp_all

lemma up_row:
  "row_ok n (\<lambda>i. i < n \<and> c i)
     (foldl (\<lambda>row i. row[i := c i]) (replicate (Suc n) False) [0..<n])"
proof -
  let ?I = "\<lambda>k row. length row = Suc n \<and> (\<forall>i\<le>n. row ! i = (i < k \<and> c i))"
  have "?I n (foldl (\<lambda>row i. row[i := c i]) (replicate (Suc n) False) [0..<n])"
    by (rule up_loop [where I = ?I])
      (auto simp: nth_list_update less_Suc_eq blank_row simp del: replicate_Suc)
  then show ?thesis by (simp add: row_ok_def)
qed

lemma down_row:
  assumes "\<And>i. i \<le> n \<Longrightarrow> F i = (a i \<or> (i < n \<and> b i \<and> F (Suc i)))"
  shows "row_ok n F
    (foldl (\<lambda>row i. row[i := a i \<or> (i < n \<and> b i \<and> row ! Suc i)]) (replicate (Suc n) False) (rev [0..<Suc n]))"
proof -
  let ?I = "\<lambda>k row. length row = Suc n \<and> (\<forall>i\<le>n. k \<le> i \<longrightarrow> row ! i = F i)"
  have "?I 0 (foldl (\<lambda>row i. row[i := a i \<or> (i < n \<and> b i \<and> row ! Suc i)])
      (replicate (Suc n) False) (rev [0..<Suc n]))"
  proof (rule down_loop [where I = ?I])
    fix i row
    assume i: "i < Suc n" and I: "?I (Suc i) row"
    then have "(a i \<or> (i < n \<and> b i \<and> row ! Suc i)) = F i"
      using assms [of i] by (auto simp: Suc_le_eq)
    moreover have "row[i := F i] ! j = F j" if "j \<le> n" "i \<le> j" for j
      using that I i by (cases "i = j") auto
    ultimately show "?I i (row[i := a i \<or> (i < n \<and> b i \<and> row ! Suc i)])"
      using I by simp
  qed simp
  then show ?thesis by (simp add: row_ok_def)
qed

lemma exit_row:
  assumes "\<And>i. i \<le> n \<Longrightarrow> E i = ((i < n \<and> b i) \<or> (i < n \<and> E (Suc i)))"
  shows "row_ok n (\<lambda>i. a i \<or> E i)
    (fst (foldl (\<lambda>(row, x) i. let x = (if i < n \<and> b i then True else x) in (row[i := a i \<or> x], x))
      (replicate (Suc n) False, False) (rev [0..<Suc n])))"
proof -
  let ?f = "\<lambda>(row, x) i. let x = (if i < n \<and> b i then True else x) in (row[i := a i \<or> x], x)"
  let ?I = "\<lambda>k (row, x). length row = Suc n \<and> x = (k \<le> n \<and> E k) \<and>
      (\<forall>i\<le>n. k \<le> i \<longrightarrow> row ! i = (a i \<or> E i))"
  have "?I 0 (foldl ?f (replicate (Suc n) False, False) (rev [0..<Suc n]))"
  proof (rule down_loop [where I = ?I])
    fix i st
    assume i: "i < Suc n" and I: "?I (Suc i) st"
    obtain row x where st: "st = (row, x)" by (cases st)
    have x: "(if i < n \<and> b i then True else x) = E i"
      using I assms [of i] i by (auto simp: st Suc_le_eq)
    have "row[i := a i \<or> E i] ! j = (a j \<or> E j)" if "j \<le> n" "i \<le> j" for j
      using that I i by (cases "i = j") (auto simp: st nth_list_update)
    moreover have "?f st i = (row[i := a i \<or> E i], E i)" by (simp only: st prod.case Let_def x)
    ultimately show "?I i (?f st i)" using I i by (simp only: st prod.case length_list_update) simp
  qed simp
  then show ?thesis by (auto simp: row_ok_def split: prod.splits)
qed

lemma token_row_correct:
  assumes "row_ok (length v) (\<lambda>i. glob_matches cl ts (drop i v)) nxt"
  shows "row_ok (length v) (\<lambda>i. glob_matches cl (t # ts) (drop i v)) (token_row cl v t nxt)"
proof -
  let ?n = "length v"
  have nxt: "nxt ! i = glob_matches cl ts (drop i v)" if "i \<le> ?n" for i
    using assms that by (simp add: row_ok_def)
  have at: "drop i v \<noteq> [] \<longleftrightarrow> i < ?n" "i < ?n \<Longrightarrow> hd (drop i v) = v ! i" "tl (drop i v) = drop (Suc i) v" for i
    by (auto simp: hd_drop_conv_nth drop_Suc tl_drop)
  have same: "row_ok ?n F row" if "row_ok ?n G row" and "\<And>i. i \<le> ?n \<Longrightarrow> G i = F i" for F G row
    using that by (simp add: row_ok_def)
  show ?thesis
  proof (cases t)
    case RecursiveDirectories
    let ?E = "\<lambda>i. \<exists>j<length (drop i v). drop i v ! j = SLASH \<and> glob_matches cl ts (drop (Suc j) (drop i v))"
    have "?E i = ((i < ?n \<and> v ! i = SLASH \<and> nxt ! Suc i) \<or> (i < ?n \<and> ?E (Suc i)))" if "i \<le> ?n" for i
    proof (cases "i < ?n")
      case True
      then have "drop i v = v ! i # drop (Suc i) v" by (simp add: Cons_nth_drop_Suc)
      then show ?thesis using True nxt by (simp add: Ex_less_Suc2 del: drop_drop)
    qed simp
    from exit_row [where n = ?n and E = ?E and a = "\<lambda>i. nxt ! i" and b = "\<lambda>i. v ! i = SLASH \<and> nxt ! Suc i", OF this]
    have "row_ok ?n (\<lambda>i. nxt ! i \<or> ?E i) (token_row cl v t nxt)"
      by (simp only: RecursiveDirectories token_row_def Let_def Token.case)
    then show ?thesis by (rule same) (simp add: RecursiveDirectories nxt)
  next
    case Recursive
    have "row_ok ?n (\<lambda>i. glob_matches cl (t # ts) (drop i v))
        (foldl (\<lambda>row i. row[i := nxt ! i \<or> (i < ?n \<and> True \<and> row ! Suc i)]) (replicate (Suc ?n) False) (rev [0..<Suc ?n]))"
      unfolding Recursive
      by (rule down_row, subst recursive_step) (simp only: at nxt simp_thms)
    then show ?thesis by (simp only: Recursive token_row_def Let_def Token.case simp_thms)
  next
    case SegmentStar
    have "row_ok ?n (\<lambda>i. glob_matches cl (t # ts) (drop i v))
        (foldl (\<lambda>row i. row[i := nxt ! i \<or> (i < ?n \<and> v ! i \<noteq> SLASH \<and> row ! Suc i)])
          (replicate (Suc ?n) False) (rev [0..<Suc ?n]))"
      unfolding SegmentStar
      by (rule down_row, subst segment_star_step) (simp only: at nxt simp_thms cong: conj_cong)
    then show ?thesis by (simp only: SegmentStar token_row_def Let_def Token.case simp_thms)
  next
    case Any
    have "row_ok ?n (\<lambda>i. i < ?n \<and> (v ! i \<noteq> SLASH \<and> nxt ! Suc i)) (token_row cl v t nxt)"
      using up_row [of ?n "\<lambda>i. v ! i \<noteq> SLASH \<and> nxt ! Suc i"] by (simp only: Any token_row_def Let_def Token.case)
    then show ?thesis by (rule same) (use nxt at in \<open>auto simp: Any\<close>)
  next
    case (Literal c)
    have "row_ok ?n (\<lambda>i. i < ?n \<and> (v ! i = c \<and> nxt ! Suc i)) (token_row cl v t nxt)"
      using up_row [of ?n "\<lambda>i. v ! i = c \<and> nxt ! Suc i"] by (simp only: Literal token_row_def Let_def Token.case)
    then show ?thesis by (rule same) (use nxt at in \<open>auto simp: Literal\<close>)
  next
    case (Class k)
    have "row_ok ?n (\<lambda>i. i < ?n \<and> ((k < length cl \<and> class_contains (cl ! k) (v ! i)) \<and> nxt ! Suc i)) (token_row cl v t nxt)"
      using up_row [of ?n "\<lambda>i. (k < length cl \<and> class_contains (cl ! k) (v ! i)) \<and> nxt ! Suc i"] by (simp only: Class token_row_def Let_def Token.case)
    then show ?thesis by (rule same) (use nxt at in \<open>auto simp: Class\<close>)
  qed
qed

lemma matches_tokens_iff: "matches_tokens ts cl v \<longleftrightarrow> glob_matches cl ts v"
proof -
  let ?start = "(replicate (Suc (length v)) False)[length v := True]"
  have "row_ok (length v) (\<lambda>i. glob_matches cl ts (drop i v))
      (foldl (\<lambda>nxt t. token_row cl v t nxt) ?start (rev ts))"
  proof (induction ts)
    case Nil
    show ?case by (auto simp: row_ok_def nth_list_update nth_Cons' simp del: replicate_Suc)
  next
    case (Cons t ts)
    then show ?case by (simp add: token_row_correct)
  qed
  then show ?thesis by (simp add: matches_tokens_def row_ok_def)
qed

text \<open>
  The table-driven matcher decides the meaning of the pattern: it accepts a value exactly
  when the token list matches it, where a star stays within a segment, a double star crosses
  separators and a leading double star with a slash accepts any directory prefix or none.
\<close>

theorem matches_tokens_correct: "matches_tokens tokens classes value \<longleftrightarrow> glob_matches classes tokens value"
  by (rule matches_tokens_iff)

section \<open>The fast paths\<close>

lemma encode_char_cases:
  assumes "scalar c"
  obtains "encode_utf16_char c = [c]" "c < 0x10000" "\<not> (0xD800 \<le> c \<and> c < 0xE000)"
  | hi lo where "encode_utf16_char c = [hi, lo]" "0xD800 \<le> hi" "hi < 0xDC00" "0xDC00 \<le> lo" "lo < 0xE000"
      "c = (hi - 0xD800) * 0x400 + (lo - 0xDC00) + 0x10000"
proof (cases "c < 0x10000")
  case True
  then show ?thesis using assms that(1) by (auto simp: encode_utf16_char_def scalar_def)
next
  case False
  have "(c - 0x10000) div 0x400 < 0x400" using assms False by (auto simp: scalar_def)
  moreover have "(c - 0x10000) mod 0x400 < 0x400" by simp
  moreover have "c = (c - 0x10000) div 0x400 * 0x400 + (c - 0x10000) mod 0x400 + 0x10000" using False by simp
  ultimately show ?thesis
    using False that(2) [of "0xD800 + (c - 0x10000) div 0x400" "0xDC00 + (c - 0x10000) mod 0x400"]
    by (simp add: encode_utf16_char_def)
qed

lemma encode_char_prefix:
  assumes "scalar c" "scalar d" "encode_utf16_char c @ xs = encode_utf16_char d @ ys"
  shows "c = d \<and> xs = ys"
  using assms by (elim encode_char_cases) auto

lemma encode_Nil: "encode_utf16 [] = []"
  by (simp add: encode_utf16_def)

lemma encode_Cons: "encode_utf16 (c # s) = encode_utf16_char c @ encode_utf16 s"
  by (simp add: encode_utf16_def)

lemma encode_char_ne: "encode_utf16_char c \<noteq> []"
  by (simp add: encode_utf16_char_def)

lemma encode_append: "encode_utf16 (s @ t) = encode_utf16 s @ encode_utf16 t"
  by (simp add: encode_utf16_def)

lemma encode_ascii: "c < 0x10000 \<Longrightarrow> encode_utf16_char c = [c]"
  by (simp add: encode_utf16_char_def)

lemma encode_inj: "wf_text s \<Longrightarrow> wf_text t \<Longrightarrow> encode_utf16 s = encode_utf16 t \<longleftrightarrow> s = t"
proof (induction s arbitrary: t)
  case Nil
  then show ?case by (cases t) (auto simp: encode_Nil encode_Cons encode_char_ne)
next
  case (Cons c s)
  show ?case
  proof (cases t)
    case (Cons d t')
    then have "scalar c" "scalar d" "wf_text s" "wf_text t'"
      using \<open>wf_text (c # s)\<close> \<open>wf_text t\<close> by (simp_all add: wf_text_def)
    then show ?thesis
      using encode_char_prefix [of c d "encode_utf16 s" "encode_utf16 t'"] Cons.IH [of t']
      by (auto simp: Cons encode_Cons)
  qed (simp add: encode_Nil encode_Cons encode_char_ne)
qed

lemma encode_split_slash:
  assumes "wf_text v" "wf_text s"
  shows "(\<exists>x. encode_utf16 v = x @ SLASH # encode_utf16 s) \<longleftrightarrow> (\<exists>y. v = y @ SLASH # s)"
proof
  assume "\<exists>x. encode_utf16 v = x @ SLASH # encode_utf16 s"
  then obtain x where "encode_utf16 v = x @ SLASH # encode_utf16 s" by blast
  then show "\<exists>y. v = y @ SLASH # s" using assms(1)
  proof (induction v arbitrary: x)
    case (Cons c v)
    have scalar: "scalar c" and v: "wf_text v" using Cons.prems by (simp_all add: wf_text_def)
    show ?case
    proof (cases "\<exists>x'. x = encode_utf16_char c @ x'")
      case True
      then obtain x' where "encode_utf16 v = x' @ SLASH # encode_utf16 s"
        using Cons.prems(1) by (auto simp: encode_Cons)
      from Cons.IH [OF this v] show ?thesis by (metis append_Cons)
    next
      case False
      with Cons.prems(1) scalar have "c = SLASH \<and> x = []"
        by (elim encode_char_cases) (auto simp: encode_Cons Cons_eq_append_conv)
      with Cons.prems(1) have "c = SLASH" "encode_utf16 v = encode_utf16 s"
        by (auto simp: encode_Cons encode_ascii)
      then show ?thesis using v assms(2) by (auto simp: encode_inj)
    qed
  qed (simp add: encode_Nil)
next
  assume "\<exists>y. v = y @ SLASH # s"
  then show "\<exists>x. encode_utf16 v = x @ SLASH # encode_utf16 s"
    by (auto simp: encode_append encode_Cons encode_ascii)
qed

lemma literal_matches: "glob_matches cl (map Literal us) v \<longleftrightarrow> v = us"
proof (induction us arbitrary: v)
  case (Cons a us)
  then show ?case by (cases v) auto
qed simp

lemma recursive_literal_matches:
  "glob_matches cl (RecursiveDirectories # map Literal us) v \<longleftrightarrow> v = us \<or> (\<exists>x. v = x @ SLASH # us)"
proof -
  have "(\<exists>i<length v. v ! i = SLASH \<and> drop (Suc i) v = us) \<longleftrightarrow> (\<exists>x. v = x @ SLASH # us)"
  proof
    assume "\<exists>i<length v. v ! i = SLASH \<and> drop (Suc i) v = us"
    then show "\<exists>x. v = x @ SLASH # us" by (metis id_take_nth_drop)
  next
    assume "\<exists>x. v = x @ SLASH # us"
    then obtain x where "v = x @ SLASH # us" by blast
    then show "\<exists>i<length v. v ! i = SLASH \<and> drop (Suc i) v = us" by (intro exI [of _ "length x"]) simp
  qed
  then show ?thesis by (simp add: literal_matches)
qed

lemma tokenize_literal: "STAR \<notin> set p \<Longrightarrow> 63 \<notin> set p \<Longrightarrow> tokenize p = map Literal (encode_utf16 p)"
  by (induction p) (auto simp: tokenize.simps [of "[]"] tokenize.simps [of "_ # _"] encode_Nil encode_Cons)

lemma tokenize_recursive: "tokenize (STAR # STAR # SLASH # p) = RecursiveDirectories # tokenize p"
  by (subst tokenize.simps) (simp add: starts_with_def)

lemma fast_path_iff:
  assumes "FastPath_new p = Some f" "wf_text p" "wf_text v"
  shows "FastPath_is_match f v \<longleftrightarrow> glob_matches cl (tokenize p) (encode_utf16 v)"
proof (cases f)
  case (LiteralPath l)
  then have "STAR \<notin> set p" "63 \<notin> set p" "l = p"
    using assms(1) by (auto simp: FastPath_new_def split: option.splits if_splits)
  then show ?thesis
    using assms by (auto simp: LiteralPath FastPath_is_match_def tokenize_literal literal_matches encode_inj)
next
  case (RecursiveLiteralSuffix suf)
  then have suf: "p = STAR # STAR # SLASH # suf" "STAR \<notin> set suf" "63 \<notin> set suf"
    using assms(1)
    by (auto simp: FastPath_new_def strip_prefix_Some u_def split: option.splits if_splits)
  then have wf: "wf_text suf" using assms(2) by (simp add: wf_text_def)
  have "FastPath_is_match f v \<longleftrightarrow> v = suf \<or> (\<exists>y. v = y @ SLASH # suf)"
    by (auto simp: RecursiveLiteralSuffix FastPath_is_match_def strip_suffix_Some strip_suffix_None
        ends_with_suffix suffix_def split: option.splits)
  then show ?thesis
    using encode_split_slash [OF assms(3) wf] assms(3) wf
    by (simp add: suf(1) tokenize_recursive tokenize_literal [OF suf(2,3)] recursive_literal_matches
        encode_inj del: glob_matches.simps)
qed

section \<open>Brace alternatives\<close>

text \<open>The alternatives a pattern stands for, without the limits.\<close>

function brace_alternatives :: "ustr \<Rightarrow> ustr list" where
  "brace_alternatives p =
     (case first_brace_group p of
        None \<Rightarrow> [p]
      | Some (s, e) \<Rightarrow>
          concat (map (\<lambda>part. brace_alternatives (take s p @ part @ drop (Suc e) p))
            (split_on 44 (take (e - Suc s) (drop (Suc s) p)))))"
  by pat_completeness auto
termination
  by (relation "measure (\<lambda>p. count_list p 123)") (auto dest: brace_count_decreases)

declare brace_alternatives.simps [simp del]

definition grow :: "ustr list \<times> nat \<Rightarrow> ustr list \<Rightarrow> ustr list \<times> nat" where
  "grow st alts = (fst st @ alts, snd st + sum_list (map byte_len alts))"

lemma foldl_grow: "foldl (\<lambda>st x. grow st (F x)) st xs = grow st (concat (map F xs))"
  by (induction xs arbitrary: st) (auto simp: grow_def)

lemma expand_bounded_leaf:
  assumes "first_brace_group p = None" and "expand_bounded limits p depth st = Inr st'"
  shows "st' = grow st [p] \<and> length (fst st) \<noteq> max_glob_alternatives limits \<and>
    snd st' \<le> max_glob_generated_bytes limits"
  using assms by (auto simp: expand_bounded.simps [of limits p] grow_def checked_add_def Let_def
      split: prod.splits if_splits)

lemma expand_bounded_group:
  assumes "first_brace_group p = Some (s, e)" and "expand_bounded limits p depth st = Inr st'"
  shows "depth \<noteq> max_glob_brace_depth limits \<and>
    try_fold (\<lambda>st part. expand_bounded limits (take s p @ part @ drop (Suc e) p) (Suc depth) st) st
      (split_on 44 (take (e - Suc s) (drop (Suc s) p))) = Inr st'"
  using assms
  by (auto simp: expand_bounded.simps [of limits p] Let_def split: if_splits
      elim!: try_fold_mono split: option.splits)

lemma expand_bounded_grow:
  "expand_bounded limits p depth st = Inr st' \<Longrightarrow> st' = grow st (brace_alternatives p)"
proof (induction "count_list p 123" arbitrary: p depth st st' rule: less_induct)
  case less
  show ?case
  proof (cases "first_brace_group p")
    case None
    then show ?thesis using expand_bounded_leaf less.prems by (simp add: brace_alternatives.simps [of p])
  next
    case (Some g)
    then obtain s e where g: "first_brace_group p = Some (s, e)" by (cases g) auto
    let ?part = "\<lambda>part. take s p @ part @ drop (Suc e) p"
    have "st' = foldl (\<lambda>st part. grow st (brace_alternatives (?part part))) st
        (split_on 44 (take (e - Suc s) (drop (Suc s) p)))"
      by (rule try_fold_foldl [OF conjunct2 [OF expand_bounded_group [OF g less.prems]]])
        (rule less.hyps [OF brace_count_decreases [OF g]])
    then show ?thesis by (simp add: foldl_grow brace_alternatives.simps [of p] g)
  qed
qed

definition within_limits :: "FilesystemLimits \<Rightarrow> ustr list \<times> nat \<Rightarrow> bool" where
  "within_limits limits st \<longleftrightarrow>
     length (fst st) \<le> max_glob_alternatives limits \<and> snd st \<le> max_glob_generated_bytes limits"

lemma expand_bounded_limits:
  "expand_bounded limits p depth st = Inr st' \<Longrightarrow> within_limits limits st \<Longrightarrow> within_limits limits st'"
proof (induction "count_list p 123" arbitrary: p depth st st' rule: less_induct)
  case less
  show ?case
  proof (cases "first_brace_group p")
    case None
    then show ?thesis
      using expand_bounded_leaf [OF _ less.prems(1)] less.prems(2) by (auto simp: within_limits_def grow_def)
  next
    case (Some g)
    then obtain s e where g: "first_brace_group p = Some (s, e)" by (cases g) auto
    show ?thesis
      by (rule try_fold_inv [where I = "within_limits limits",
            OF conjunct2 [OF expand_bounded_group [OF g less.prems(1)]] less.prems(2)])
        (rule less.hyps [OF brace_count_decreases [OF g]])
  qed
qed

text \<open>
  A glob that is accepted has exactly the alternatives its braces stand for, in order, and
  both their number and their total size are within the configured limits.
\<close>

theorem glob_expansion_exact:
  assumes "GlobMatcher_new pattern limits = Inr m"
  shows "alternatives m = map tokenize (brace_alternatives pattern) \<and>
    length (alternatives m) \<le> max_glob_alternatives limits \<and>
    sum_list (map byte_len (brace_alternatives pattern)) \<le> max_glob_generated_bytes limits"
proof -
  obtain out g where e: "expand_bounded limits pattern 0 ([], 0) = Inr (out, g)"
    and m: "alternatives m = map tokenize out"
    using assms by (auto simp: GlobMatcher_new_def split: if_splits sum.splits)
  have "out = brace_alternatives pattern" "g = sum_list (map byte_len (brace_alternatives pattern))"
    using expand_bounded_grow [OF e] by (simp_all add: grow_def)
  then show ?thesis using m expand_bounded_limits [OF e] by (simp add: within_limits_def)
qed

lemma brace_alternatives_text: "a \<in> set (brace_alternatives p) \<Longrightarrow> set a \<subseteq> set p"
proof (induction p rule: brace_alternatives.induct)
  case (1 p)
  show ?case
  proof (cases "first_brace_group p")
    case None
    then show ?thesis using "1.prems" by (simp add: brace_alternatives.simps [of p])
  next
    case (Some g)
    then obtain s e where g: "first_brace_group p = Some (s, e)" by (cases g) auto
    then obtain part where part: "part \<in> set (split_on 44 (take (e - Suc s) (drop (Suc s) p)))"
      and a: "a \<in> set (brace_alternatives (take s p @ part @ drop (Suc e) p))"
      using "1.prems" by (auto simp: brace_alternatives.simps [of p])
    have "set part \<subseteq> set p"
      using split_by_subset part unfolding split_on_def by (meson set_drop_subset set_take_subset subset_trans)
    then show ?thesis
      using "1.IH" [OF g refl part a] set_take_subset [of s p] set_drop_subset [of "Suc e" p] by auto
  qed
qed

section \<open>Candidates\<close>

lemma recursive_subsumes:
  assumes "glob_matches cl (RecursiveDirectories # ts) base"
  shows "glob_matches cl (RecursiveDirectories # ts) (dir @ SLASH # base)"
proof -
  from assms consider "glob_matches cl ts base"
    | i where "i < length base" "base ! i = SLASH" "glob_matches cl ts (drop (Suc i) base)" by auto
  then have "\<exists>i<length (dir @ SLASH # base). (dir @ SLASH # base) ! i = SLASH \<and>
      glob_matches cl ts (drop (Suc i) (dir @ SLASH # base))"
  proof cases
    case 1
    then show ?thesis by (intro exI [of _ "length dir"]) simp
  next
    case (2 i)
    then show ?thesis by (intro exI [of _ "length dir + Suc i"]) (simp add: nth_append)
  qed
  then show ?thesis by simp
qed

lemma try_match_iff:
  assumes "GlobMatcher_new pattern limits = Inr m" "wf_text pattern" "wf_text v"
    and "fst (try_match m v budget) = Inr r" "r \<noteq> BudgetExhausted"
  shows "r = Matched \<longleftrightarrow> (\<exists>a\<in>set (brace_alternatives pattern). glob_matches [] (tokenize a) (encode_utf16 v))"
proof -
  obtain out g where e: "expand_bounded limits pattern 0 ([], 0) = Inr (out, g)"
    and m: "alternatives m = map tokenize out" "fast_path m = (if length out = 1 then FastPath_new (out ! 0) else None)"
    using assms(1) by (auto simp: GlobMatcher_new_def split: if_splits sum.splits)
  have out: "out = brace_alternatives pattern" using expand_bounded_grow [OF e] by (simp add: grow_def)
  show ?thesis
  proof (cases "fast_path m")
    case None
    then show ?thesis using assms(4,5)
      by (auto simp: try_match_def outcome_def list_ex_iff m out matches_tokens_iff Let_def
          split: option.splits if_splits)
  next
    case (Some f)
    then obtain p where p: "out = [p]" "FastPath_new p = Some f"
      by (auto simp: m length_Suc_conv split: if_splits)
    have "wf_text p" using brace_alternatives_text [of p pattern] assms(2)
      by (auto simp: p(1) out [symmetric] wf_text_def list_all_iff)
    then show ?thesis
      using assms(3,4,5) fast_path_iff [OF p(2)]
      by (auto simp: try_match_def Some outcome_def out [symmetric] p(1) split: if_splits)
  qed
qed

text \<open>
  C15. When the budget suffices, a traversal candidate is reported as matching exactly when some
  brace alternative of the pattern matches its relative path or its file name. The literal
  comparison shortcuts and the skipped second attempt for anchored patterns change no verdict.
\<close>

theorem matches_candidate_correct:
  assumes "GlobMatcher_new pattern limits = Inr m" "wf_text pattern" "wf_text relative_path"
    and "relative_path = basename \<or> relative_path = dir @ SLASH # basename"
    and "fst (matches_candidate m relative_path basename budget) = Inr r" "r \<noteq> BudgetExhausted"
  shows "r = Matched \<longleftrightarrow>
    (\<exists>a\<in>set (brace_alternatives pattern).
       glob_matches [] (tokenize a) (encode_utf16 relative_path) \<or>
       glob_matches [] (tokenize a) (encode_utf16 basename))"
proof -
  let ?hit = "\<lambda>v. \<exists>a\<in>set (brace_alternatives pattern). glob_matches [] (tokenize a) (encode_utf16 v)"
  obtain r1 left where first: "try_match m relative_path budget = (Inr r1, left)" "r1 \<noteq> BudgetExhausted"
    using assms(5,6) by (auto simp: matches_candidate_def split: prod.splits sum.splits MatchOutcome.splits if_splits)
  have wf: "wf_text basename" using assms(3,4) by (auto simp: wf_text_def)
  have rel: "r1 = Matched \<longleftrightarrow> ?hit relative_path"
    using try_match_iff [OF assms(1-3)] first by (metis fst_conv)
  consider "r1 = Matched" "r = Matched" | "r1 = Missed" "subsumes_basename m" "r = Missed"
    | "r1 = Missed" "fst (try_match m basename left) = Inr r"
    using first assms(5) by (cases r1) (auto simp: matches_candidate_def split: if_splits)
  then show ?thesis
  proof cases
    case 1
    then show ?thesis using rel by blast
  next
    case 2
    have "list_all (\<lambda>a. starts_with a (u ''**/'')) (brace_alternatives pattern)"
      using assms(1) 2(2) expand_bounded_grow
      by (fastforce simp: GlobMatcher_new_def grow_def split: if_splits sum.splits)
    then have "\<exists>q. a = STAR # STAR # SLASH # q" if "a \<in> set (brace_alternatives pattern)" for a
      using that by (auto simp: list_all_iff starts_with_prefix prefix_def u_def)
    then have "glob_matches [] (tokenize a) (encode_utf16 (dir @ SLASH # basename))"
      if "a \<in> set (brace_alternatives pattern)" "glob_matches [] (tokenize a) (encode_utf16 basename)" for a
      using that recursive_subsumes [of "[]" _ "encode_utf16 basename" "encode_utf16 dir"]
      by (force simp: encode_append encode_Cons encode_ascii tokenize_recursive
          simp del: glob_matches.simps)
    then have "?hit relative_path" if "?hit basename" using that assms(4) by blast
    then show ?thesis using 2 rel by auto
  next
    case 3
    then show ?thesis using try_match_iff [OF assms(1,2) wf 3(2) assms(6)] rel by auto
  qed
qed

lemma try_match_spends: "snd (try_match m v b) \<le> b"
  by (auto simp: try_match_def Let_def split: option.splits)

interpretation match_budget: refuses_cleanly "try_match m" "\<lambda>r. r = Inr BudgetExhausted \<or> isl r" for m
proof
  show "snd (try_match m v b) \<le> b" for v b by (rule try_match_spends)
  show "snd (try_match m v b) = b"
    if "fst (try_match m v b) = Inr BudgetExhausted \<or> isl (fst (try_match m v b))" for v b
    using that by (auto simp: try_match_def Let_def outcome_def split: option.splits if_splits)
qed

interpretation candidate_budget: spends_budget "\<lambda>(rel, base). matches_candidate m rel base" for m
proof
  show "snd ((case c of (rel, base) \<Rightarrow> matches_candidate m rel base) b) \<le> b" for c b
    using try_match_spends [of m "fst c" b] try_match_spends [of m "snd c" "snd (try_match m (fst c) b)"]
    by (auto simp: matches_candidate_def split: prod.splits sum.splits MatchOutcome.splits)
qed

section \<open>A concrete pattern\<close>

lemmas demo_glob_defs =
  first_brace_group_def brace_group_at_def text_defs checked_add_def usize_max_def byte_len_def
  len_utf8_def default_limits_def Let_def

lemma demo_expand:
  "expand_bounded default_limits (u ''**/{a,bc}?'') 0 ([], 0) = Inr ([u ''**/a?'', u ''**/bc?''], 11)"
  by (simp add: expand_bounded.simps demo_glob_defs)

definition demo_matcher :: GlobMatcher where
  "demo_matcher =
     \<lparr>alternatives = [[RecursiveDirectories, Literal 97, Any], [RecursiveDirectories, Literal 98, Literal 99, Any]],
      fast_path = None, subsumes_basename = True\<rparr>"

lemma demo_new: "GlobMatcher_new (u ''**/{a,bc}?'') default_limits = Inr demo_matcher"
  unfolding GlobMatcher_new_def demo_expand
  by (simp add: demo_matcher_def tokenize.simps encode_utf16_char_def
      default_limits_def byte_len_def len_utf8_def text_defs)

theorem glob_expansion_exact_witness:
  "brace_alternatives (u ''**/{a,bc}?'') = [u ''**/a?'', u ''**/bc?''] \<and> length (alternatives demo_matcher) \<le> 256"
proof -
  have "brace_alternatives (u ''**/{a,bc}?'') = [u ''**/a?'', u ''**/bc?'']"
    using expand_bounded_grow [OF demo_expand] by (simp add: grow_def)
  then show ?thesis using glob_expansion_exact [OF demo_new] by (simp add: default_limits_def)
qed

theorem matches_candidate_correct_witness:
  "matches_candidate demo_matcher (u ''d/bc1'') (u ''bc1'') 100 = (Inr Matched, 58) \<and>
   (\<exists>a\<in>set (brace_alternatives (u ''**/{a,bc}?'')).
       glob_matches [] (tokenize a) (encode_utf16 (u ''d/bc1'')) \<or>
       glob_matches [] (tokenize a) (encode_utf16 (u ''bc1'')))"
proof -
  have run: "matches_candidate demo_matcher (u ''d/bc1'') (u ''bc1'') 100 = (Inr Matched, 58)"
    by (simp add: matches_candidate_def try_match_def demo_matcher_def encode_utf16_def
        encode_utf16_char_def checked_mul_def sat_add_def usize_max_def outcome_def u_def
        matches_tokens_iff Ex_less_Suc2 Let_def)
  moreover have "wf_text (u ''**/{a,bc}?'')" "wf_text (u ''d/bc1'')"
    by (simp_all add: wf_text_def scalar_def u_def)
  moreover have "u ''d/bc1'' = u ''d'' @ SLASH # u ''bc1''" by (simp add: u_def)
  ultimately show ?thesis
    using matches_candidate_correct [OF demo_new, where relative_path = "u ''d/bc1''" and basename = "u ''bc1''"
        and dir = "u ''d''" and budget = 100 and r = Matched] by simp
qed

end
