(* ===== verification/Gitignore.thy ===== *)
theory Gitignore
  imports Glob
begin

text \<open>
  Bounded \<open>.gitignore\<close> evaluation (\<open>crates/mcp-files/src/gitignore.rs\<close>). A scope is the chain of
  ignore files from a directory up to the seed base, as the list of the files, innermost first.
  The memory a compiled pattern retains depends on the allocator and is the parameter \<open>retained\<close>.
\<close>

section \<open>Rules and budget\<close>

record IgnorePattern =
  tokens :: "Token list"
  classes :: "CharClass list"
  ip_negated :: bool
  directory_only :: bool

record IgnoreFile =
  owner_prefix :: ustr
  patterns :: "IgnorePattern list"

type_synonym IgnoreScope = "IgnoreFile list"

record IgnoreBudget =
  files :: nat
  retained_bytes :: nat
  match_steps :: nat
  complete :: bool

definition IgnoreBudget_new :: "FilesystemLimits \<Rightarrow> IgnoreBudget" where
  "IgnoreBudget_new limits =
     \<lparr>files = max_gitignore_files limits, retained_bytes = max_gitignore_retained_bytes limits,
      match_steps = max_gitignore_match_steps limits, complete = True\<rparr>"

definition rebase :: "ustr \<Rightarrow> ustr \<Rightarrow> ustr option" where
  "rebase relative p =
     (if p = [] then Some relative
      else Option.bind (strip_prefix relative p) (\<lambda>rest. strip_prefix rest [SLASH]))"

section \<open>Deciding a candidate\<close>

text \<open>
  The patterns of one file, last line first. \<open>Some r\<close> is the early return of \<open>decide\<close> with
  \<open>r\<close>, \<open>None\<close> falls through to the parent scope.
\<close>

fun decide_patterns ::
  "nat list \<Rightarrow> bool \<Rightarrow> IgnorePattern list \<Rightarrow> IgnoreBudget \<Rightarrow> bool option option \<times> IgnoreBudget" where
  "decide_patterns units is_directory [] budget = (None, budget)"
| "decide_patterns units is_directory (p # ps) budget =
     (if directory_only p \<and> \<not> is_directory then decide_patterns units is_directory ps budget
      else
        (let steps = sat_mul (length (tokens p)) (sat_add (length units) 1)
         in if steps > match_steps budget then (Some None, budget\<lparr>complete := False\<rparr>)
            else
              (let budget = budget\<lparr>match_steps := match_steps budget - steps\<rparr>
               in if matches_tokens (tokens p) (classes p) units
                  then (Some (Some (\<not> ip_negated p)), budget)
                  else decide_patterns units is_directory ps budget)))"

fun decide :: "IgnoreScope \<Rightarrow> ustr \<Rightarrow> bool \<Rightarrow> IgnoreBudget \<Rightarrow> bool option \<times> IgnoreBudget" where
  "decide [] relative is_directory budget = (None, budget)"
| "decide (file # parents) relative is_directory budget =
     (case rebase relative (owner_prefix file) of
        None \<Rightarrow> decide parents relative is_directory budget
      | Some sub \<Rightarrow>
          (case decide_patterns (encode_utf16 sub) is_directory (rev (patterns file)) budget of
             (Some r, budget) \<Rightarrow> (r, budget)
           | (None, budget) \<Rightarrow> decide parents relative is_directory budget))"

section \<open>Compiling a file\<close>

fun trim_reversed :: "ustr \<Rightarrow> ustr" where
  "trim_reversed [] = []"
| "trim_reversed (c # cs) =
     (if c = SPACE \<or> c = 9
      then if odd (length (takeWhile (\<lambda>x. x = 92) cs)) then c # cs else trim_reversed cs
      else c # cs)"

definition trim_trailing_unescaped_whitespace :: "ustr \<Rightarrow> ustr" where
  "trim_trailing_unescaped_whitespace line = rev (trim_reversed (rev line))"

definition bmp_unit :: "uchar \<Rightarrow> nat option" where
  "bmp_unit c = (if c < 0x10000 then Some c else None)"

text \<open>The loop of \<open>parse_class\<close> on the characters after the current index.\<close>

function class_members :: "bool \<Rightarrow> CharClass \<Rightarrow> ustr \<Rightarrow> (CharClass \<times> ustr) option" where
  "class_members first cc cs =
     (case cs of
        [] \<Rightarrow> None
      | c # rest \<Rightarrow>
          if c = 93 \<and> \<not> first then (if ranges cc \<noteq> [] then Some (cc, rest) else None)
          else if c = 91 \<and> starts_with rest [58] then None
          else
            (case bmp_unit c of
               None \<Rightarrow> None
             | Some low \<Rightarrow>
                 (case rest of
                    d # h # rest' \<Rightarrow>
                      if d = 45 \<and> h \<noteq> 93
                      then (case bmp_unit h of
                              None \<Rightarrow> None
                            | Some high \<Rightarrow>
                                if high < low then None
                                else class_members False
                                       (cc\<lparr>ranges := ranges cc @ [(low, high)]\<rparr>) rest')
                      else class_members False (cc\<lparr>ranges := ranges cc @ [(low, low)]\<rparr>) rest
                  | _ \<Rightarrow> class_members False (cc\<lparr>ranges := ranges cc @ [(low, low)]\<rparr>) rest)))"
  by pat_completeness auto
termination
  by (relation "measure (\<lambda>(_, _, cs). length cs)") auto

declare class_members.simps [simp del]

definition parse_class :: "ustr \<Rightarrow> (CharClass \<times> ustr) option" where
  "parse_class cs =
     (case cs of
        c # rest \<Rightarrow>
          if c = 33 \<or> c = 94 then class_members True \<lparr>negated = True, ranges = []\<rparr> rest
          else class_members True \<lparr>negated = False, ranges = []\<rparr> cs
      | [] \<Rightarrow> class_members True \<lparr>negated = False, ranges = []\<rparr> [])"

lemma class_members_shorter:
  "class_members first cc cs = Some (cc', rest) \<Longrightarrow> length rest < length cs"
proof (induction first cc cs rule: class_members.induct)
  case (1 first cc cs)
  show ?case
    using "1.prems"
    by (subst (asm) class_members.simps)
      (auto dest: "1.IH" split: list.splits if_splits option.splits)
qed

lemma parse_class_shorter: "parse_class cs = Some (cc, rest) \<Longrightarrow> length rest < length cs"
  by (auto simp: parse_class_def dest: class_members_shorter split: list.splits if_splits)

function tokenize_ignore ::
  "ustr \<Rightarrow> Token list \<Rightarrow> CharClass list \<Rightarrow> (Token list \<times> CharClass list) option" where
  "tokenize_ignore cs ts cl =
     (case cs of
        [] \<Rightarrow> if ts \<noteq> [] then Some (ts, cl) else None
      | c # rest \<Rightarrow>
          if c = 92
          then (case rest of
                  [] \<Rightarrow> None
                | escaped # rest \<Rightarrow>
                    tokenize_ignore rest (ts @ map Literal (encode_utf16_char escaped)) cl)
          else if c = STAR \<and> starts_with rest [STAR, SLASH]
          then tokenize_ignore (drop 2 rest) (ts @ [RecursiveDirectories]) cl
          else if c = STAR \<and> starts_with rest [STAR]
          then tokenize_ignore (drop 1 rest) (ts @ [Recursive]) cl
          else if c = STAR then tokenize_ignore rest (ts @ [SegmentStar]) cl
          else if c = 63 then tokenize_ignore rest (ts @ [Any]) cl
          else if c = 91
          then (case parse_class rest of
                  None \<Rightarrow> None
                | Some (cc, rest) \<Rightarrow>
                    if length cl < 0x10000
                    then tokenize_ignore rest (ts @ [Class (length cl)]) (cl @ [cc]) else None)
          else tokenize_ignore rest (ts @ map Literal (encode_utf16_char c)) cl)"
  by pat_completeness auto
termination
  by (relation "measure (\<lambda>(cs, _, _). length cs)") (auto dest: parse_class_shorter)

declare tokenize_ignore.simps [simp del]

definition parse_pattern :: "ustr \<Rightarrow> IgnorePattern option" where
  "parse_pattern line =
     (let line = trim_trailing_unescaped_whitespace line
      in if line = [] \<or> starts_with line [35] then None
         else
           (let (neg, body) = (case strip_prefix line [33] of Some r \<Rightarrow> (True, r) | None \<Rightarrow> (False, line));
                (dir, body) = (case strip_suffix body [SLASH] of Some r \<Rightarrow> (True, r) | None \<Rightarrow> (False, body))
            in if body = [] then None
               else
                 (let anchored = SLASH \<in> set body;
                      body = (case strip_prefix body [SLASH] of Some r \<Rightarrow> r | None \<Rightarrow> body)
                  in if body = [] then None
                     else case tokenize_ignore body [] [] of
                            None \<Rightarrow> None
                          | Some (ts, cl) \<Rightarrow>
                              Some \<lparr>tokens = (if anchored then ts else RecursiveDirectories # ts),
                                    classes = cl, ip_negated = neg, directory_only = dir\<rparr>)))"

fun parse_lines :: "FilesystemLimits \<Rightarrow> IgnorePattern list \<Rightarrow> ustr list \<Rightarrow> IgnorePattern list \<times> bool" where
  "parse_lines limits ps [] = (ps, True)"
| "parse_lines limits ps (line # ls) =
     (if length ps \<ge> max_gitignore_patterns limits then (ps, False)
      else parse_lines limits (case parse_pattern line of Some p \<Rightarrow> ps @ [p] | None \<Rightarrow> ps) ls)"

definition parse_patterns :: "ustr \<Rightarrow> FilesystemLimits \<Rightarrow> IgnorePattern list \<times> bool" where
  "parse_patterns contents limits = parse_lines limits [] (str_lines contents)"

definition compile_scope ::
  "(IgnorePattern \<Rightarrow> nat) \<Rightarrow> ustr \<Rightarrow> ustr \<Rightarrow> IgnoreScope \<Rightarrow> FilesystemLimits \<Rightarrow> IgnoreBudget \<Rightarrow>
     IgnoreScope \<times> IgnoreBudget" where
  "compile_scope retained contents p parent limits budget =
     (let (ps, all) = parse_patterns contents limits;
          budget = (if \<not> all then budget\<lparr>complete := False\<rparr> else budget)
      in if ps = [] then (parent, budget)
         else
           (let size = foldl sat_add (byte_len p) (map retained ps)
            in if size > retained_bytes budget then (parent, budget\<lparr>complete := False\<rparr>)
               else (\<lparr>owner_prefix = p, patterns = ps\<rparr> # parent,
                     budget\<lparr>retained_bytes := retained_bytes budget - size\<rparr>)))"

definition admit_scope ::
  "(IgnorePattern \<Rightarrow> nat) \<Rightarrow> bytes \<Rightarrow> ustr \<Rightarrow> IgnoreScope \<Rightarrow> FilesystemLimits \<Rightarrow> IgnoreBudget \<Rightarrow>
     IgnoreScope \<times> IgnoreBudget" where
  "admit_scope retained contents p parent limits budget =
     (if files budget = 0 \<or> length contents > max_gitignore_bytes limits
      then (parent, budget\<lparr>complete := False\<rparr>)
      else
        (let budget = budget\<lparr>files := files budget - 1\<rparr>
         in case decode_utf8 contents of
              None \<Rightarrow> (parent, budget\<lparr>complete := False\<rparr>)
            | Some text \<Rightarrow> compile_scope retained text p parent limits budget))"

text \<open>
  Opening an ignore file: absent, unreadable part way, or bytes, of which at most one more than
  the ceiling is read.
\<close>

datatype IgnoreRead = NotOpened | ReadFailed | FileBytes bytes

definition read_bounded :: "IgnoreRead \<Rightarrow> FilesystemLimits \<Rightarrow> IgnoreBudget \<Rightarrow> bytes option \<times> IgnoreBudget" where
  "read_bounded r limits budget =
     (case r of
        NotOpened \<Rightarrow> (None, budget)
      | ReadFailed \<Rightarrow> (None, budget\<lparr>complete := False\<rparr>)
      | FileBytes bs \<Rightarrow> (Some (take (min (2 ^ 64 - 1) (max_gitignore_bytes limits + 1)) bs), budget))"

definition extend_scope ::
  "(IgnorePattern \<Rightarrow> nat) \<Rightarrow> IgnoreRead \<Rightarrow> ustr \<Rightarrow> IgnoreScope \<Rightarrow> FilesystemLimits \<Rightarrow> IgnoreBudget \<Rightarrow>
     IgnoreScope \<times> IgnoreBudget" where
  "extend_scope retained r p parent limits budget =
     (case read_bounded r limits budget of
        (None, budget) \<Rightarrow> (parent, budget)
      | (Some contents, budget) \<Rightarrow> admit_scope retained contents p parent limits budget)"

section \<open>What the rules mean\<close>

definition applies :: "bool \<Rightarrow> nat list \<Rightarrow> IgnorePattern \<Rightarrow> bool" where
  "applies is_directory units p \<longleftrightarrow>
     (directory_only p \<longrightarrow> is_directory) \<and> glob_matches (classes p) (tokens p) units"

text \<open>In one file the last line that applies decides; of several files the innermost that decides.\<close>

definition file_verdict :: "ustr \<Rightarrow> bool \<Rightarrow> IgnoreFile \<Rightarrow> bool option" where
  "file_verdict relative is_directory file =
     (case rebase relative (owner_prefix file) of
        None \<Rightarrow> None
      | Some sub \<Rightarrow>
          (let hits = filter (applies is_directory (encode_utf16 sub)) (patterns file)
           in if hits = [] then None else Some (\<not> ip_negated (last hits))))"

definition ignore_verdict :: "IgnoreScope \<Rightarrow> ustr \<Rightarrow> bool \<Rightarrow> bool option" where
  "ignore_verdict scope relative is_directory = find_map (file_verdict relative is_directory) scope"

definition pattern_steps :: "nat list \<Rightarrow> IgnorePattern list \<Rightarrow> nat" where
  "pattern_steps units ps = sum_list (map (\<lambda>p. sat_mul (length (tokens p)) (sat_add (length units) 1)) ps)"

definition scope_steps :: "IgnoreScope \<Rightarrow> ustr \<Rightarrow> nat" where
  "scope_steps scope relative =
     sum_list (map (\<lambda>f. case rebase relative (owner_prefix f) of
       None \<Rightarrow> 0 | Some sub \<Rightarrow> pattern_steps (encode_utf16 sub) (patterns f)) scope)"

lemma find_rev_last: "find P (rev xs) = (if filter P xs = [] then None else Some (last (filter P xs)))"
  by (induction xs rule: rev_induct) auto

text \<open>
  What running the patterns of a file or of a scope promises: the verdict while the budget
  lasts, silence once it has run out, and that it lasts when it covers the work.
\<close>

definition run_ok :: "'r option \<Rightarrow> nat \<Rightarrow> IgnoreBudget \<Rightarrow> 'r option \<times> IgnoreBudget \<Rightarrow> bool" where
  "run_ok verdict cost b res \<longleftrightarrow>
     (if complete (snd res) then fst res = verdict else fst res = None) \<and>
     match_steps (snd res) \<le> match_steps b \<and>
     (cost \<le> match_steps b \<longrightarrow> complete (snd res) \<and> match_steps b - cost \<le> match_steps (snd res))"

definition first_verdict :: "bool \<Rightarrow> nat list \<Rightarrow> IgnorePattern list \<Rightarrow> bool option" where
  "first_verdict dir units ps = map_option (\<lambda>p. \<not> ip_negated p) (find (applies dir units) ps)"

lemma first_verdict_simps [simp]:
  "first_verdict dir units [] = None"
  "first_verdict dir units (p # ps) =
     (if applies dir units p then Some (\<not> ip_negated p) else first_verdict dir units ps)"
  by (simp_all add: first_verdict_def)

lemma decide_patterns_ok:
  assumes "complete b"
  shows "case decide_patterns units dir ps b of
      (None, b') \<Rightarrow> complete b' \<and> first_verdict dir units ps = None \<and> match_steps b' \<le> match_steps b \<and>
        (pattern_steps units ps \<le> match_steps b \<longrightarrow> match_steps b - pattern_steps units ps \<le> match_steps b')
    | (Some r, b') \<Rightarrow> run_ok (first_verdict dir units ps) (pattern_steps units ps) b (r, b') \<and> (complete b' \<longrightarrow> first_verdict dir units ps \<noteq> None)"
  using assms
proof (induction ps arbitrary: b)
  case (Cons p ps)
  let ?steps = "sat_mul (length (tokens p)) (sat_add (length units) 1)"
  have cost: "pattern_steps units (p # ps) = ?steps + pattern_steps units ps" by (simp add: pattern_steps_def)
  consider "directory_only p" "\<not> dir" | "\<not> (directory_only p \<and> \<not> dir)" "?steps > match_steps b"
    | "\<not> (directory_only p \<and> \<not> dir)" "?steps \<le> match_steps b" by linarith
  then show ?case
  proof cases
    case 1
    then show ?thesis using Cons.IH [OF Cons.prems] cost
      by (auto simp: applies_def run_ok_def split: prod.splits option.splits)
  next
    case 2
    then show ?thesis using cost by (auto simp: run_ok_def Let_def)
  next
    case 3
    let ?b = "b\<lparr>match_steps := match_steps b - ?steps\<rparr>"
    have "complete ?b" using Cons.prems by simp
    from Cons.IH [OF this] 3 cost show ?thesis
      by (auto simp: applies_def run_ok_def Let_def matches_tokens_iff Cons.prems
          split: prod.splits option.splits)
  qed
qed (simp add: pattern_steps_def)

lemma decide_ok:
  "complete b \<Longrightarrow> run_ok (ignore_verdict scope relative dir) (scope_steps scope relative) b
     (decide scope relative dir b)"
proof (induction scope arbitrary: b)
  case Nil
  then show ?case by (simp add: run_ok_def ignore_verdict_def scope_steps_def)
next
  case (Cons f scope)
  show ?case
  proof (cases "rebase relative (owner_prefix f)")
    case None
    then show ?thesis using Cons.IH [OF Cons.prems]
      by (simp add: ignore_verdict_def scope_steps_def file_verdict_def)
  next
    case (Some sub)
    let ?units = "encode_utf16 sub" and ?ps = "patterns f"
    have cost: "scope_steps (f # scope) relative = pattern_steps ?units (rev ?ps) + scope_steps scope relative"
      by (simp add: scope_steps_def Some pattern_steps_def rev_map [symmetric])
    have verdict: "file_verdict relative dir f =
        first_verdict dir ?units (rev ?ps)"
      by (simp add: file_verdict_def Some first_verdict_def find_rev_last Let_def)
    obtain r b' where run: "decide_patterns ?units dir (rev ?ps) b = (r, b')" by (cases "decide_patterns ?units dir (rev ?ps) b")
    note fv = decide_patterns_ok [OF Cons.prems, of dir ?units "rev ?ps", folded verdict]
    show ?thesis
    proof (cases r)
      case None
      with fv run have "complete b'" "file_verdict relative dir f = None" by auto
      from Cons.IH [OF this(1)] this fv run None show ?thesis
        by (auto simp: Some cost run_ok_def ignore_verdict_def)
    next
      case (Some v)
      with fv run show ?thesis
        by (auto simp: \<open>rebase relative (owner_prefix f) = Some sub\<close> cost run_ok_def ignore_verdict_def
            split: option.splits)
    qed
  qed
qed

text \<open>
  C16. Deciding a candidate follows the gitignore precedence: the innermost ignore file with an
  applicable line decides, by its last applicable line. When the work budget runs out the
  candidate is never reported as ignored and the result is marked incomplete, and a budget that
  covers the rules of the scope never runs out.
\<close>

theorem decide_precedence:
  assumes "complete budget" and "decide scope relative is_directory budget = (verdict, budget')"
  shows "(if complete budget' then verdict = ignore_verdict scope relative is_directory else verdict = None) \<and>
    (scope_steps scope relative \<le> match_steps budget \<longrightarrow> complete budget') \<and>
    match_steps budget' \<le> match_steps budget"
  using decide_ok [OF assms(1), of scope relative is_directory] assms(2) by (auto simp: run_ok_def)

section \<open>What the parser produces\<close>

definition range_ok :: "nat \<times> nat \<Rightarrow> bool" where
  "range_ok r = (case r of (low, high) \<Rightarrow> low \<le> high \<and> high < 0x10000)"

definition class_ok :: "CharClass \<Rightarrow> bool" where
  "class_ok c \<longleftrightarrow> ranges c \<noteq> [] \<and> list_all range_ok (ranges c)"

lemma range_ok_simp [simp]: "range_ok (low, high) \<longleftrightarrow> low \<le> high \<and> high < 0x10000"
  by (simp add: range_ok_def)

lemma class_members_step:
  assumes "class_members first cc cs = Some res"
  shows "(\<exists>rest. res = (cc, rest) \<and> ranges cc \<noteq> []) \<or>
    (\<exists>low high r. length r < length cs \<and> low \<le> high \<and> high < 0x10000 \<and>
       class_members False (cc\<lparr>ranges := ranges cc @ [(low, high)]\<rparr>) r = Some res)"
proof (cases cs)
  case Nil
  then show ?thesis using assms by (simp add: class_members.simps [of _ _ "[]"])
next
  case (Cons c r)
  consider "r = []" | d where "r = [d]" | d h r' where "r = d # h # r'" by (cases r rule: remdups_adj.cases) auto
  then show ?thesis
    using assms by cases
      (auto simp: Cons class_members.simps [of first cc "_ # _"] bmp_unit_def split: if_splits; force)+
qed

lemma class_members_ok:
  "class_members first cc cs = Some (cc', rest) \<Longrightarrow> list_all range_ok (ranges cc) \<Longrightarrow> class_ok cc'"
proof (induction "length cs" arbitrary: first cc cs rule: less_induct)
  case less
  from class_members_step [OF less.prems(1)] show ?case
  proof
    assume "\<exists>low high r. length r < length cs \<and> low \<le> high \<and> high < 0x10000 \<and>
       class_members False (cc\<lparr>ranges := ranges cc @ [(low, high)]\<rparr>) r = Some (cc', rest)"
    then obtain low high r where "length r < length cs" "low \<le> high" "high < 0x10000"
      "class_members False (cc\<lparr>ranges := ranges cc @ [(low, high)]\<rparr>) r = Some (cc', rest)" by blast
    then show ?case using less.hyps [of r False] less.prems(2) by fastforce
  qed (use less.prems(2) in \<open>auto simp: class_ok_def\<close>)
qed

lemma parse_class_ok: "parse_class cs = Some (cc, rest) \<Longrightarrow> class_ok cc"
  by (auto simp: parse_class_def intro: class_members_ok split: list.splits if_splits)

definition table_ok :: "Token list \<Rightarrow> CharClass list \<Rightarrow> bool" where
  "table_ok ts cl \<longleftrightarrow>
     (\<forall>k. Class k \<in> set ts \<longrightarrow> k < length cl) \<and> list_all class_ok cl \<and> length cl \<le> 0x10000"

lemma tokenize_ignore_step:
  assumes "tokenize_ignore cs ts cl = Some res"
  shows "ts \<noteq> [] \<and> res = (ts, cl) \<or>
    (\<exists>r us. length r < length cs \<and> (\<forall>k. Class k \<notin> set us) \<and> tokenize_ignore r (ts @ us) cl = Some res) \<or>
    (\<exists>r cc. length r < length cs \<and> class_ok cc \<and> length cl < 0x10000 \<and>
       tokenize_ignore r (ts @ [Class (length cl)]) (cl @ [cc]) = Some res)"
proof (cases cs)
  case Nil
  then show ?thesis using assms by (simp add: tokenize_ignore.simps [of "[]"] split: if_splits)
next
  case (Cons c r)
  note step = assms [unfolded Cons tokenize_ignore.simps [of "c # r"] list.case]
  show ?thesis
  proof (cases "c = 91")
    case True
    with step obtain cc r' where pc: "parse_class r = Some (cc, r')" and "length cl < 0x10000"
      "tokenize_ignore r' (ts @ [Class (length cl)]) (cl @ [cc]) = Some res"
      by (auto split: option.splits if_splits)
    then show ?thesis
      using parse_class_ok [OF pc] parse_class_shorter [OF pc]
      by (intro disjI2 exI [of _ r'] exI [of _ cc]) (simp add: Cons)
  next
    case False
    have go: ?thesis if "tokenize_ignore r' (ts @ us) cl = Some res" "\<forall>k. Class k \<notin> set us"
      "length r' \<le> length r" for r' us
      using that Cons by (intro disjI2 disjI1 exI [of _ r'] exI [of _ us]) simp
    have lit: "\<forall>k. Class k \<notin> set (map Literal us)" for us by auto
    consider e r' where "r = e # r'" "tokenize_ignore r' (ts @ map Literal (encode_utf16_char e)) cl = Some res"
      | "tokenize_ignore (drop 2 r) (ts @ [RecursiveDirectories]) cl = Some res"
      | "tokenize_ignore (drop 1 r) (ts @ [Recursive]) cl = Some res"
      | "tokenize_ignore r (ts @ [SegmentStar]) cl = Some res"
      | "tokenize_ignore r (ts @ [Any]) cl = Some res"
      | "tokenize_ignore r (ts @ map Literal (encode_utf16_char c)) cl = Some res"
      using step False by (simp split: if_splits list.splits)
    then show ?thesis
    proof cases
      case (1 e r')
      then show ?thesis by (intro go [OF 1(2) lit]) simp
    qed (erule go; force)+
  qed
qed

lemma tokenize_ignore_ok:
  "tokenize_ignore cs ts cl = Some (ts', cl') \<Longrightarrow> table_ok ts cl \<Longrightarrow> table_ok ts' cl' \<and> ts' \<noteq> []"
proof (induction "length cs" arbitrary: cs ts cl rule: less_induct)
  case less
  have grow: "table_ok (ts @ us) cl" if "\<forall>k. Class k \<notin> set us" for us
    using less.prems(2) that by (auto simp: table_ok_def)
  have new: "table_ok (ts @ [Class (length cl)]) (cl @ [cc])" if "class_ok cc" "length cl < 0x10000" for cc
    using less.prems(2) that by (auto simp: table_ok_def less_Suc_eq)
  from tokenize_ignore_step [OF less.prems(1)] show ?case
    using less.prems(2) less.hyps grow new by blast
qed

text \<open>
  A compiled pattern never refers to a bracket expression its table does not carry, and every
  bracket expression is a non-empty set of ordered ranges within the basic multilingual plane.
\<close>

theorem parse_pattern_wf:
  assumes "parse_pattern line = Some p"
  shows "tokens p \<noteq> [] \<and> (\<forall>k. Class k \<in> set (tokens p) \<longrightarrow> k < length (classes p)) \<and>
    (\<forall>c\<in>set (classes p). ranges c \<noteq> [] \<and> (\<forall>(low, high)\<in>set (ranges c). low \<le> high \<and> high < 0x10000))"
proof -
  obtain body ts cl where t: "tokenize_ignore body [] [] = Some (ts, cl)"
    and p: "tokens p = ts \<or> tokens p = RecursiveDirectories # ts" "classes p = cl"
    using assms by (auto simp: parse_pattern_def Let_def split: if_splits option.splits prod.splits)
  have "table_ok ts cl" "ts \<noteq> []" using tokenize_ignore_ok [OF t] by (simp_all add: table_ok_def)
  then show ?thesis
    using p by (auto simp: table_ok_def class_ok_def range_ok_def list_all_iff)
qed

lemma parse_lines_complete:
  "parse_lines limits ps ls = (qs, True) \<Longrightarrow> qs = ps @ List.map_filter parse_pattern ls"
proof (induction ls arbitrary: ps)
  case (Cons l ls)
  then have "parse_lines limits (case parse_pattern l of Some p \<Rightarrow> ps @ [p] | None \<Rightarrow> ps) ls = (qs, True)"
    by (auto split: if_splits)
  from Cons.IH [OF this] show ?case by (auto simp: List.map_filter_simps split: option.splits)
qed (simp add: List.map_filter_simps)

lemma compile_scope_complete:
  assumes "compile_scope retained contents p parent limits b = (scope, b')" and "complete b'"
  shows "complete b \<and> scope =
    (let ps = List.map_filter parse_pattern (str_lines contents)
     in if ps = [] then parent else \<lparr>owner_prefix = p, patterns = ps\<rparr> # parent)"
proof -
  obtain ps all where parsed: "parse_patterns contents limits = (ps, all)" by (cases "parse_patterns contents limits")
  have "all" using assms by (auto simp: compile_scope_def parsed Let_def split: if_splits)
  then have "ps = List.map_filter parse_pattern (str_lines contents)"
    using parse_lines_complete [of limits "[]" "str_lines contents" ps] parsed by (simp add: parse_patterns_def)
  then show ?thesis using assms \<open>all\<close> by (auto simp: compile_scope_def parsed Let_def split: if_splits)
qed

text \<open>
  The completeness flag is sound: when admitting an ignore file leaves it set, the file was
  UTF-8 text within the limits and every line that compiles, and nothing else, is in the scope.
\<close>

theorem admit_scope_complete:
  assumes "admit_scope retained contents p parent limits budget = (scope, budget')" and "complete budget'"
  shows "complete budget \<and> length contents \<le> max_gitignore_bytes limits \<and>
    (\<exists>text. decode_utf8 contents = Some text \<and>
       scope =
         (let ps = List.map_filter parse_pattern (str_lines text)
          in if ps = [] then parent else \<lparr>owner_prefix = p, patterns = ps\<rparr> # parent))"
  using assms compile_scope_complete
  by (fastforce simp: admit_scope_def Let_def split: if_splits option.splits)

lemma parse_lines_cut:
  "parse_lines limits ps ls = (qs, False) \<Longrightarrow> length ps \<le> max_gitignore_patterns limits \<Longrightarrow>
     length qs = max_gitignore_patterns limits \<and>
     (\<exists>n. qs = ps @ take n (List.map_filter parse_pattern ls))"
proof (induction ls arbitrary: ps)
  case (Cons l ls)
  show ?case
  proof (cases "length ps \<ge> max_gitignore_patterns limits")
    case True
    then show ?thesis using Cons.prems by (auto intro: exI [of _ 0])
  next
    case False
    then have step: "parse_lines limits (case parse_pattern l of Some p \<Rightarrow> ps @ [p] | None \<Rightarrow> ps) ls = (qs, False)"
      using Cons.prems by simp
    show ?thesis
    proof (cases "parse_pattern l")
      case None
      then show ?thesis using Cons.IH [of ps] step False by (simp add: List.map_filter_simps)
    next
      case (Some p)
      then obtain n where "length qs = max_gitignore_patterns limits"
        "qs = (ps @ [p]) @ take n (List.map_filter parse_pattern ls)"
        using Cons.IH [of "ps @ [p]"] step False by auto
      then show ?thesis by (auto simp: List.map_filter_simps Some intro: exI [of _ "Suc n"])
    qed
  qed
qed simp

text \<open>
  An ignore file with more patterns than the limit is not refused as a whole: its leading
  patterns, as many as the limit, are put in force, and the result is marked incomplete.
\<close>

theorem oversized_rules_partly_applied:
  assumes "parse_patterns contents limits = (ps, False)"
    and "0 < max_gitignore_patterns limits"
    and "foldl sat_add (byte_len p) (map retained ps) \<le> retained_bytes budget"
  shows "\<exists>budget'. compile_scope retained contents p parent limits budget =
      (\<lparr>owner_prefix = p, patterns = ps\<rparr> # parent, budget') \<and> \<not> complete budget' \<and>
    length ps = max_gitignore_patterns limits \<and>
    ps = take (max_gitignore_patterns limits) (List.map_filter parse_pattern (str_lines contents))"
proof -
  obtain n where ps: "length ps = max_gitignore_patterns limits"
    "ps = take n (List.map_filter parse_pattern (str_lines contents))"
    using parse_lines_cut [of limits "[]" "str_lines contents" ps] assms(1) by (auto simp: parse_patterns_def)
  then have "ps = take (max_gitignore_patterns limits) (List.map_filter parse_pattern (str_lines contents))"
    by (metis length_take min.cobounded2 take_all_iff take_take min_def nle_le)
  moreover have "ps \<noteq> []" using ps(1) assms(2) by auto
  ultimately show ?thesis using assms(1,3) ps(1) by (simp add: compile_scope_def Let_def)
qed

section \<open>Plain names\<close>

definition plain_name :: "ustr \<Rightarrow> bool" where
  "plain_name s \<longleftrightarrow> s \<noteq> [] \<and> hd s \<notin> {33, 35} \<and> last s \<notin> {SPACE, 9} \<and>
     (\<forall>c\<in>set s. c \<notin> {SLASH, STAR, 63, 91, 92})"

lemma tokenize_ignore_plain:
  "\<forall>c\<in>set s. c \<notin> {SLASH, STAR, 63, 91, 92} \<Longrightarrow> ts @ map Literal (encode_utf16 s) \<noteq> [] \<Longrightarrow>
     tokenize_ignore s ts cl = Some (ts @ map Literal (encode_utf16 s), cl)"
proof (induction s arbitrary: ts)
  case Nil
  then show ?case by (simp add: tokenize_ignore.simps encode_Nil)
next
  case (Cons c s)
  then show ?case
    by (subst tokenize_ignore.simps) (simp add: encode_Cons encode_char_ne)
qed

lemma trim_plain: "s \<noteq> [] \<Longrightarrow> last s \<notin> {SPACE, 9} \<Longrightarrow> trim_trailing_unescaped_whitespace s = s"
  by (cases s rule: rev_cases) (auto simp: trim_trailing_unescaped_whitespace_def)

lemma parse_plain:
  assumes "plain_name s"
  shows "parse_pattern s =
    Some \<lparr>tokens = RecursiveDirectories # map Literal (encode_utf16 s), classes = [], ip_negated = False,
          directory_only = False\<rparr>"
proof -
  have s: "s \<noteq> []" "hd s \<noteq> 33" "hd s \<noteq> 35" "SLASH \<notin> set s" "\<forall>c\<in>set s. c \<notin> {SLASH, STAR, 63, 91, 92}"
    "last s \<notin> {SPACE, 9}"
    using assms by (auto simp: plain_name_def)
  obtain c r where cr: "s = c # r" using s(1) by (cases s) auto
  have "strip_suffix s [SLASH] = None" using s(4) by (auto simp: strip_suffix_None suffix_def)
  moreover have "strip_prefix s [33] = None" "strip_prefix s [SLASH] = None" "\<not> starts_with s [35]"
    using s(2,3,4) by (simp_all add: cr strip_prefix_def starts_with_def)
  moreover have "tokenize_ignore s [] [] = Some (map Literal (encode_utf16 s), [])"
    using tokenize_ignore_plain [OF s(5), of "[]"] by (simp add: cr encode_Cons encode_char_ne)
  ultimately show ?thesis using s(1,4,6) by (simp add: parse_pattern_def trim_plain)
qed

text \<open>
  A rule that is a plain name compiles to a pattern that matches a path exactly when the path
  is that name or ends in it after a separator, so at any depth below its directory and
  nowhere else.
\<close>

theorem plain_name_rule:
  assumes "plain_name s" "wf_text s" "wf_text v"
  shows "\<exists>p. parse_pattern s = Some p \<and> \<not> ip_negated p \<and>
    (matches_tokens (tokens p) (classes p) (encode_utf16 v) \<longleftrightarrow> v = s \<or> (\<exists>dir. v = dir @ SLASH # s))"
  using assms encode_split_slash [OF assms(3,2)]
  by (simp add: parse_plain matches_tokens_iff recursive_literal_matches encode_inj del: glob_matches.simps)

text \<open>
  Inside a bracket expression a backslash does not quote: the pattern is accepted, the
  expression ends at the bracket the backslash stands before, and the rest of the intended set
  is read as literal text.
\<close>

theorem backslash_in_class_not_escape:
  "map_option (\<lambda>p. (tokens p, classes p)) (parse_pattern [91, 92, 93, 97, 93]) =
     Some ([RecursiveDirectories, Class 0, Literal 97, Literal 93],
           [\<lparr>negated = False, ranges = [(92, 92)]\<rparr>])"
  by (simp add: parse_pattern_def trim_trailing_unescaped_whitespace_def starts_with_def
      strip_prefix_def strip_suffix_def ends_with_def tokenize_ignore.simps parse_class_def
      class_members.simps bmp_unit_def encode_utf16_char_def)

section \<open>A concrete scope\<close>

text \<open>An ignore file at the base ignoring \<open>log\<close>, and one in \<open>a\<close> that re-includes it.\<close>

definition plain_rule :: "string \<Rightarrow> bool \<Rightarrow> IgnorePattern" where
  "plain_rule s neg =
     \<lparr>tokens = RecursiveDirectories # map Literal (encode_utf16 (u s)), classes = [], ip_negated = neg,
      directory_only = False\<rparr>"

definition demo_scope :: IgnoreScope where
  "demo_scope =
     [\<lparr>owner_prefix = u ''a'', patterns = [plain_rule ''log'' True]\<rparr>,
      \<lparr>owner_prefix = [], patterns = [plain_rule ''log'' False]\<rparr>]"

lemmas demo_rule_defs =
  plain_rule_def demo_scope_def rebase_def strip_prefix_def starts_with_def u_def encode_utf16_def
  encode_utf16_char_def sat_mul_def sat_add_def usize_max_def IgnoreBudget_new_def default_limits_def

theorem decide_precedence_witness:
  "fst (decide demo_scope (u ''a/log'') False (IgnoreBudget_new default_limits)) = Some False \<and>
   ignore_verdict demo_scope (u ''a/log'') False = Some False"
proof -
  obtain v b where run: "decide demo_scope (u ''a/log'') False (IgnoreBudget_new default_limits) = (v, b)" by fastforce
  have "v = Some False"
    using run by (simp add: demo_rule_defs matches_tokens_iff Let_def)
  moreover have "complete (IgnoreBudget_new default_limits)" by (simp add: IgnoreBudget_new_def)
  ultimately show ?thesis using decide_precedence [OF _ run] run by (metis fst_conv option.distinct(1))
qed

theorem parse_pattern_wf_witness:
  "\<exists>p. parse_pattern (u ''[a-c]?'') = Some p \<and> Class 0 \<in> set (tokens p) \<and> 0 < length (classes p)"
proof -
  have "\<exists>p. parse_pattern (u ''[a-c]?'') = Some p \<and> Class 0 \<in> set (tokens p)"
    by (simp add: parse_pattern_def trim_trailing_unescaped_whitespace_def text_defs
        tokenize_ignore.simps parse_class_def class_members.simps bmp_unit_def)
  then show ?thesis using parse_pattern_wf by blast
qed

lemma demo_decode: "decode_utf8 [97, NL, 98] = Some (u ''a'' @ NL # u ''b'')"
  by (simp add: decode_utf8.simps next_char_def u_def)

lemma demo_lines: "str_lines (u ''a'' @ NL # u ''b'') = [u ''a'', u ''b'']"
  by (simp add: str_lines_def strip_cr_def text_defs)

lemma demo_plain: "plain_name (u ''a'')" "plain_name (u ''b'')"
  by (simp_all add: plain_name_def u_def)

theorem admit_scope_complete_witness:
  "length (fst (admit_scope (\<lambda>_. 10) [97, NL, 98] [] [] default_limits (IgnoreBudget_new default_limits))) = 1 \<and>
   complete (IgnoreBudget_new default_limits)"
proof -
  obtain scope b where run:
    "admit_scope (\<lambda>_. 10) [97, NL, 98] [] [] default_limits (IgnoreBudget_new default_limits) = (scope, b)" by fastforce
  have "complete b"
    using run by (auto simp: admit_scope_def compile_scope_def parse_patterns_def demo_decode demo_lines
        demo_plain parse_plain default_limits_def IgnoreBudget_new_def sat_add_def usize_max_def)
  from admit_scope_complete [OF run this] show ?thesis
    by (auto simp: run demo_decode demo_lines demo_plain parse_plain List.map_filter_simps)
qed

theorem oversized_rules_partly_applied_witness:
  "\<exists>scope b. compile_scope (\<lambda>_. 10) (u ''a'' @ NL # u ''b'') [] [] (default_limits\<lparr>max_gitignore_patterns := 1\<rparr>)
       (IgnoreBudget_new default_limits) = (scope, b) \<and> length scope = 1 \<and> \<not> complete b"
proof -
  have "\<exists>p. parse_patterns (u ''a'' @ NL # u ''b'') (default_limits\<lparr>max_gitignore_patterns := 1\<rparr>) = ([p], False)"
    by (simp add: parse_patterns_def demo_lines demo_plain parse_plain)
  then obtain p where p: "parse_patterns (u ''a'' @ NL # u ''b'') (default_limits\<lparr>max_gitignore_patterns := 1\<rparr>) = ([p], False)"
    by blast
  show ?thesis
    using oversized_rules_partly_applied [OF p, of "[]" "\<lambda>_. 10" "IgnoreBudget_new default_limits" "[]"]
    by (auto simp: sat_add_def usize_max_def IgnoreBudget_new_def default_limits_def)
qed

theorem plain_name_rule_witness:
  "\<exists>p. parse_pattern (u ''b'') = Some p \<and> matches_tokens (tokens p) (classes p) (encode_utf16 (u ''a/b''))"
proof -
  have "wf_text (u ''b'')" "wf_text (u ''a/b'')" "u ''a/b'' = u ''a'' @ SLASH # u ''b''"
    by (simp_all add: wf_text_def scalar_def u_def)
  then show ?thesis using plain_name_rule [OF demo_plain(2), of "u ''a/b''"] by blast
qed

end
