(* ===== verification/File_Traversal.thy ===== *)
theory File_Traversal
  imports File_Read Gitignore
begin

text \<open>
  The traversal behind the search tools (\<open>crates/mcp-files/src/read_operations/traversal.rs\<close>): the
  files below a directory, without symbolic links, protected paths, build output and what
  \<open>.gitignore\<close> excludes, within a budget of directory entries. The loop over the stack is total:
  every entry pushed is charged to that budget.
\<close>

section \<open>The context\<close>

definition MAX_ENCLOSING_ANCESTORS :: nat where "MAX_ENCLOSING_ANCESTORS = 64"

definition SKIPPED_DIRECTORY_NAMES :: "ustr list" where
  "SKIPPED_DIRECTORY_NAMES = map u
     [''.dart_tool'', ''.git'', ''.gradle'', ''.mypy_cache'', ''.next'', ''.nuxt'', ''.parcel-cache'', ''.pytest_cache'',
      ''.ruff_cache'', ''.stack-work'', ''.svelte-kit'', ''.terraform'', ''.tox'', ''.turbo'', ''.venv'', ''__pycache__'',
      ''dist'', ''node_modules'', ''target'', ''venv'']"

record ListedFiles =
  lf_paths :: "Path list"
  lf_truncated :: bool
  lf_ignored :: nat
  lf_ignore_complete :: bool
  lf_pruned_repositories :: "Path list"

definition ListedFiles_single :: "Path \<Rightarrow> ListedFiles" where
  "ListedFiles_single path =
     \<lparr>lf_paths = [path], lf_truncated = False, lf_ignored = 0, lf_ignore_complete = True, lf_pruned_repositories = []\<rparr>"

record Pending =
  pe_path :: Path
  pe_file_type :: "FileKind option"
  pe_scope :: IgnoreScope

text \<open>The context without its budget, which is threaded through the loop.\<close>

record TraversalContext =
  tc_base :: Path
  tc_seed :: IgnoreScope
  tc_honor_gitignore :: bool
  tc_prune_nested_repositories :: bool

definition context_relative :: "Path \<Rightarrow> Path \<Rightarrow> ustr option" where
  "context_relative base path =
     map_option (foldl (\<lambda>rendered c. (if rendered \<noteq> [] then rendered @ [SLASH] else rendered) @ component_text c) [])
       (strip_prefix path base)"

text \<open>Opening and reading one ignore file.\<close>

definition read_ignore :: "Os \<Rightarrow> Path \<Rightarrow> (FilesystemError, IgnoreRead) op" where
  "read_ignore os path =
     bind (open_file os path) (\<lambda>opened.
     case opened of
       Some _ \<Rightarrow> return NotOpened
     | None \<Rightarrow> bind (read_file os path) (\<lambda>r. return (case r of Inl _ \<Rightarrow> ReadFailed | Inr bs \<Rightarrow> FileBytes bs)))"

definition extend_scope_at ::
  "Os \<Rightarrow> (IgnorePattern \<Rightarrow> nat) \<Rightarrow> FilesystemLimits \<Rightarrow> Path \<Rightarrow> ustr \<Rightarrow> IgnoreScope \<Rightarrow> IgnoreBudget \<Rightarrow>
     (FilesystemError, IgnoreScope \<times> IgnoreBudget) op" where
  "extend_scope_at os retained limits directory p scope budget =
     bind (read_ignore os (directory @ [Normal (u ''.gitignore'')])) (\<lambda>r.
     return (extend_scope retained r p scope limits budget))"

text \<open>The walk outward: the directories seen, innermost first, and the repository found. The first
  argument counts what is left of the bound on the length of the chain.\<close>

fun enclosing_repository ::
  "DirCalls \<Rightarrow> Tools \<Rightarrow> FilesystemCore \<Rightarrow> nat \<Rightarrow> Path option \<Rightarrow> Path list \<Rightarrow> (FilesystemError, Path list \<times> Path option) op" where
  "enclosing_repository dirs tools core n None chain = return (chain, None)"
| "enclosing_repository dirs tools core 0 (Some directory) chain = return (chain, None)"
| "enclosing_repository dirs tools core (Suc n) (Some directory) chain =
     (if \<not> authorize_canonical_entry (t_lower tools) (core_policy core) directory then return (chain, None)
      else
        bind (link_kind dirs (directory @ [Normal (u ''.git'')])) (\<lambda>r.
        case r of
          Inr _ \<Rightarrow> return (chain @ [directory], Some directory)
        | Inl _ \<Rightarrow> enclosing_repository dirs tools core n (parent directory) (chain @ [directory])))"

fun seed_scope ::
  "Os \<Rightarrow> (IgnorePattern \<Rightarrow> nat) \<Rightarrow> FilesystemLimits \<Rightarrow> Path \<Rightarrow> Path list \<Rightarrow> IgnoreScope \<Rightarrow> IgnoreBudget \<Rightarrow>
     (FilesystemError, IgnoreScope \<times> IgnoreBudget) op" where
  "seed_scope os retained limits base [] scope budget = return (scope, budget)"
| "seed_scope os retained limits base (directory # directories) scope budget =
     bind (extend_scope_at os retained limits directory
             (case context_relative base directory of Some p \<Rightarrow> p | None \<Rightarrow> []) scope budget) (\<lambda>(scope, budget).
     seed_scope os retained limits base directories scope budget)"

definition context_prepare ::
  "Os \<Rightarrow> DirCalls \<Rightarrow> Tools \<Rightarrow> (IgnorePattern \<Rightarrow> nat) \<Rightarrow> FilesystemCore \<Rightarrow> Path \<Rightarrow> (FilesystemError, TraversalContext \<times> IgnoreBudget) op" where
  "context_prepare os dirs tools retained core rt =
     (let limits = core_limits core;
          ctx = \<lparr>tc_base = rt, tc_seed = [], tc_honor_gitignore = honor_gitignore limits, tc_prune_nested_repositories = False\<rparr>;
          budget = IgnoreBudget_new limits
      in if \<not> honor_gitignore limits \<and> \<not> prune_nested_repositories limits then return (ctx, budget)
         else
           bind (enclosing_repository dirs tools core MAX_ENCLOSING_ANCESTORS (Some rt) []) (\<lambda>(chain, enclosing).
           case enclosing of
             None \<Rightarrow> return (ctx, budget)
           | Some repository \<Rightarrow>
               let ctx = ctx\<lparr>tc_base := repository, tc_prune_nested_repositories := prune_nested_repositories limits\<rparr>
               in if \<not> honor_gitignore limits then return (ctx, budget)
                  else
                    bind (seed_scope os retained limits repository (rev (drop 1 chain)) [] budget) (\<lambda>(scope, budget).
                    return (ctx\<lparr>tc_seed := scope\<rparr>, budget))))"

definition context_extend ::
  "Os \<Rightarrow> (IgnorePattern \<Rightarrow> nat) \<Rightarrow> FilesystemLimits \<Rightarrow> TraversalContext \<Rightarrow> Path \<Rightarrow> IgnoreScope \<Rightarrow> IgnoreBudget \<Rightarrow>
     (FilesystemError, IgnoreScope \<times> IgnoreBudget) op" where
  "context_extend os retained limits ctx directory scope budget =
     (case context_relative (tc_base ctx) directory of
        None \<Rightarrow> return (scope, budget)
      | Some p \<Rightarrow> extend_scope_at os retained limits directory p scope budget)"

definition excludes :: "TraversalContext \<Rightarrow> IgnoreScope \<Rightarrow> Path \<Rightarrow> bool \<Rightarrow> IgnoreBudget \<Rightarrow> bool \<times> IgnoreBudget" where
  "excludes ctx scope path is_directory budget =
     (if \<not> tc_honor_gitignore ctx \<or> scope = [] then (False, budget)
      else case context_relative (tc_base ctx) path of
             None \<Rightarrow> (False, budget)
           | Some r \<Rightarrow> (case decide scope r is_directory budget of (d, budget) \<Rightarrow> (d = Some True, budget)))"

section \<open>The loop\<close>

text \<open>Reading one directory, up to a number of entries.\<close>

fun scan_directory ::
  "Os \<Rightarrow> Path \<Rightarrow> nat \<Rightarrow> DirEntry list \<Rightarrow> (Path \<times> FileKind option) list \<Rightarrow>
     (FilesystemError, (Path \<times> FileKind option) list \<times> bool) op" where
  "scan_directory os path most [] entries = bind (poll os) (\<lambda>_. return (entries, False))"
| "scan_directory os path most (r # rs) entries =
     bind (poll os) (\<lambda>_.
     case r of
       Inl _ \<Rightarrow> return (entries, True)
     | Inr (name, k) \<Rightarrow>
         if length entries < most then scan_directory os path most rs (entries @ [(path @ [Normal name], k)])
         else return (entries, True))"

definition read_directory_entries ::
  "Os \<Rightarrow> DirCalls \<Rightarrow> Path \<Rightarrow> nat \<Rightarrow> (FilesystemError, (Path \<times> FileKind option) list \<times> bool) op" where
  "read_directory_entries os dirs path most =
     bind (read_dir dirs path) (\<lambda>r.
     case r of
       Inl _ \<Rightarrow> return ([], True)
     | Inr rs \<Rightarrow> bind (scan_directory os path most rs []) (\<lambda>(entries, truncated). return (sort_key fst entries, truncated)))"

definition holds :: "(Path \<times> FileKind option) list \<Rightarrow> ustr \<Rightarrow> bool" where
  "holds entries name = list_ex (\<lambda>(path, _). file_name path = Some name) entries"

record Listing =
  li_paths :: "Path list"
  li_discovered :: nat
  li_truncated :: bool
  li_ignored :: nat
  li_pruned :: "Path list"
  li_budget :: IgnoreBudget

text \<open>An entry of known type: the new state, and whether it is read as a directory.\<close>

definition judge :: "Tools \<Rightarrow> FilesystemCore \<Rightarrow> TraversalContext \<Rightarrow> Pending \<Rightarrow> Listing \<Rightarrow> FileKind \<Rightarrow> Listing \<times> bool" where
  "judge tools core ctx pe st k =
     (if k = IsSymlink then (st, False)
      else if \<not> authorize_canonical_entry (t_lower tools) (core_policy core) (pe_path pe) then (st, False)
      else if k \<noteq> IsFile \<and> k \<noteq> IsDir then (st, False)
      else
        (case excludes ctx (pe_scope pe) (pe_path pe) (k = IsDir) (li_budget st) of
           (excluded, budget) \<Rightarrow>
             let st = st\<lparr>li_budget := budget\<rparr>
             in if excluded then (st\<lparr>li_ignored := li_ignored st + 1\<rparr>, False)
                else if k = IsFile then (st\<lparr>li_paths := li_paths st @ [pe_path pe]\<rparr>, False)
                else (st, True)))"

text \<open>One popped entry up to the decision to read it as a directory.\<close>

definition examine ::
  "DirCalls \<Rightarrow> Tools \<Rightarrow> FilesystemCore \<Rightarrow> TraversalContext \<Rightarrow> Path \<Rightarrow> Pending \<Rightarrow> Listing \<Rightarrow> (FilesystemError, Listing \<times> bool) op" where
  "examine dirs tools core ctx rt pe st =
     (let candidate = pe_path pe;
          allows_protected = traversal_allows_protected (t_lower tools) (core_policy core) rt
      in if candidate = rt then return (st, True)
         else if \<not> traversal_entry_allowed (t_lower tools) (core_policy core) allows_protected candidate then return (st, False)
         else if (case file_name candidate of Some name \<Rightarrow> name \<in> set SKIPPED_DIRECTORY_NAMES | None \<Rightarrow> False)
         then return (st, False)
         else
           bind (case pe_file_type pe of Some k \<Rightarrow> return (Inr k) | None \<Rightarrow> link_kind dirs candidate) (\<lambda>r.
           return (case r of Inl _ \<Rightarrow> (st\<lparr>li_truncated := True\<rparr>, False) | Inr k \<Rightarrow> judge tools core ctx pe st k)))"

text \<open>Reading it as a directory: the new state, and the entries to push, the first to be popped first.\<close>

definition push_entries ::
  "Os \<Rightarrow> (IgnorePattern \<Rightarrow> nat) \<Rightarrow> FilesystemCore \<Rightarrow> TraversalContext \<Rightarrow> Path \<Rightarrow> Path \<Rightarrow> IgnoreScope \<Rightarrow>
     (Path \<times> FileKind option) list \<Rightarrow> Listing \<Rightarrow> (FilesystemError, Listing \<times> Pending list) op" where
  "push_entries os retained core ctx rt directory scope entries st =
     (if tc_prune_nested_repositories ctx \<and> directory \<noteq> rt \<and> holds entries (u ''.git'')
      then return (st\<lparr>li_pruned := li_pruned st @ [directory]\<rparr>, [])
      else
        bind (if tc_honor_gitignore ctx \<and> holds entries (u ''.gitignore'')
              then context_extend os retained (core_limits core) ctx directory scope (li_budget st)
              else return (scope, li_budget st)) (\<lambda>(scope, budget).
        return (st\<lparr>li_budget := budget\<rparr>,
                map (\<lambda>(path, k). \<lparr>pe_path = path, pe_file_type = k, pe_scope = scope\<rparr>) entries)))"

definition descend ::
  "Os \<Rightarrow> DirCalls \<Rightarrow> (IgnorePattern \<Rightarrow> nat) \<Rightarrow> FilesystemCore \<Rightarrow> TraversalContext \<Rightarrow> Path \<Rightarrow> Path \<Rightarrow> IgnoreScope \<Rightarrow> Listing \<Rightarrow>
     (FilesystemError, Listing \<times> Pending list) op" where
  "descend os dirs retained core ctx rt directory scope st =
     (let remaining = max_traversal_entries (core_limits core) - li_discovered st
      in if remaining = 0 then return (st\<lparr>li_truncated := True\<rparr>, [])
         else
           bind (read_directory_entries os dirs directory remaining) (\<lambda>(entries, scan_truncated).
           push_entries os retained core ctx rt directory scope entries
             (st\<lparr>li_discovered := li_discovered st + length entries, li_truncated := (li_truncated st \<or> scan_truncated)\<rparr>)))"

definition visit_pending ::
  "Os \<Rightarrow> DirCalls \<Rightarrow> Tools \<Rightarrow> (IgnorePattern \<Rightarrow> nat) \<Rightarrow> FilesystemCore \<Rightarrow> TraversalContext \<Rightarrow> Path \<Rightarrow> Pending \<Rightarrow> Listing \<Rightarrow>
     (FilesystemError, Listing \<times> Pending list) op" where
  "visit_pending os dirs tools retained core ctx rt pe st =
     bind (poll os) (\<lambda>_.
     bind (examine dirs tools core ctx rt pe st) (\<lambda>(st, enter).
     if enter then descend os dirs retained core ctx rt (pe_path pe) (pe_scope pe) st else return (st, [])))"

lemma scan_entries_length:
  "scan_directory os p most rs entries log = (Inr (found, t), log') \<Longrightarrow> length entries \<le> most \<Longrightarrow> length found \<le> most"
proof (induction rs arbitrary: entries log)
  case (Cons r rs)
  show ?case using Cons.prems Cons.IH
    by (auto elim!: bindE simp: return_def split: sum.splits if_splits)
qed (auto elim!: bindE simp: return_def)

lemma examine_discovered: "examine dirs tools core ctx rt pe st log = (Inr (st', enter), log') \<Longrightarrow> li_discovered st' = li_discovered st"
  unfolding examine_def judge_def
  by (auto elim!: bindE simp: return_def Let_def split: if_splits sum.splits prod.splits)

lemma descend_bound:
  assumes "descend os dirs retained core ctx rt p scope st log = (Inr (st', pushed), log')"
  shows "max_traversal_entries (core_limits core) - li_discovered st' + length pushed \<le>
    max_traversal_entries (core_limits core) - li_discovered st"
  using assms unfolding descend_def push_entries_def read_directory_entries_def
  by (auto elim!: bindE dest!: scan_entries_length simp: return_def Let_def 
      split: if_splits sum.splits prod.splits) linarith+

lemma visit_pending_bound:
  assumes "visit_pending os dirs tools retained core ctx rt pe st log = (Inr (st', pushed), log')"
  shows "max_traversal_entries (core_limits core) - li_discovered st' + length pushed \<le>
    max_traversal_entries (core_limits core) - li_discovered st"
  using assms unfolding visit_pending_def
  by (auto elim!: bindE dest!: examine_discovered descend_bound simp: return_def split: if_splits prod.splits)

function list_loop ::
  "Os \<Rightarrow> DirCalls \<Rightarrow> Tools \<Rightarrow> (IgnorePattern \<Rightarrow> nat) \<Rightarrow> FilesystemCore \<Rightarrow> TraversalContext \<Rightarrow> Path \<Rightarrow> Pending list \<Rightarrow>
     Listing \<Rightarrow> (FilesystemError, Listing) op" where
  "list_loop os dirs tools retained core ctx rt [] st log = (Inr st, log)"
| "list_loop os dirs tools retained core ctx rt (pe # stack) st log =
     (case visit_pending os dirs tools retained core ctx rt pe st log of
        (Inl e, log) \<Rightarrow> (Inl e, log)
      | (Inr (st, pushed), log) \<Rightarrow> list_loop os dirs tools retained core ctx rt (pushed @ stack) st log)"
  by pat_completeness auto
termination
  by (relation "measure (\<lambda>(_, _, _, _, core, _, _, stack, st, _).
        max_traversal_entries (core_limits core) - li_discovered st + length stack)")
    (auto dest!: visit_pending_bound [OF sym])

definition list_files ::
  "Os \<Rightarrow> DirCalls \<Rightarrow> Tools \<Rightarrow> (IgnorePattern \<Rightarrow> nat) \<Rightarrow> FilesystemCore \<Rightarrow> Path \<Rightarrow> (FilesystemError, ListedFiles) op" where
  "list_files os dirs tools retained core rt =
     bind (poll os) (\<lambda>_.
     bind (context_prepare os dirs tools retained core rt) (\<lambda>(ctx, budget).
     bind (list_loop os dirs tools retained core ctx rt
             [\<lparr>pe_path = rt, pe_file_type = None, pe_scope = tc_seed ctx\<rparr>]
             \<lparr>li_paths = [], li_discovered = 0, li_truncated = False, li_ignored = 0, li_pruned = [], li_budget = budget\<rparr>) (\<lambda>st.
     return \<lparr>lf_paths = sort (li_paths st), lf_truncated = li_truncated st, lf_ignored = li_ignored st,
             lf_ignore_complete = complete (li_budget st), lf_pruned_repositories = sort (li_pruned st)\<rparr>)))"

section \<open>What one step does\<close>

text \<open>A path a search may report: permitted, and not named like build output.\<close>

definition searchable :: "Tools \<Rightarrow> FilesystemCore \<Rightarrow> Path \<Rightarrow> bool" where
  "searchable tools core p \<longleftrightarrow> permitted tools core p \<and> (\<forall>name. file_name p = Some name \<longrightarrow> name \<notin> set SKIPPED_DIRECTORY_NAMES)"

lemma strip_root: "strip_prefix (r @ s) r = Some s"
  by (simp add: strip_prefix_def starts_with_def)

lemma authorize_permitted: "authorize_canonical_entry (t_lower tools) (core_policy core) p \<longleftrightarrow> permitted tools core p"
proof (cases "\<exists>r. p = root (core_policy core) @ r")
  case True
  then obtain r where p: "p = root (core_policy core) @ r" by blast
  have "\<not> protected_relative (t_lower tools) []" by (simp add: protected_relative_def)
  then show ?thesis
    by (auto simp: authorize_canonical_entry_def permitted_def inside_def p strip_root starts_with_root_def starts_with_def)
next
  case False
  then have "\<not> starts_with_root p (root (core_policy core))" by (auto simp: starts_with_root_def starts_with_prefix elim: prefixE)
  then show ?thesis using False by (auto simp: authorize_canonical_entry_def permitted_def inside_def)
qed

lemma permitted_allowed:
  "permitted tools core p \<Longrightarrow>
     traversal_entry_allowed (t_lower tools) (core_policy core) (traversal_allows_protected (t_lower tools) (core_policy core) rt) p"
  by (auto simp: traversal_entry_allowed_def traversal_allows_protected_def is_protected_path_def permitted_def inside_def strip_root)

definition kind_known :: "Event list \<Rightarrow> Path \<Rightarrow> FileKind option \<Rightarrow> FileKind \<Rightarrow> bool" where
  "kind_known es p t k \<longleftrightarrow> t = Some k \<or> t = None \<and> LinkKind p (Inr k) \<in> set es"

text \<open>What becomes of a popped entry, with the events of its examination.\<close>

definition examined :: "Tools \<Rightarrow> FilesystemCore \<Rightarrow> Path \<Rightarrow> Pending \<Rightarrow> Listing \<Rightarrow> Listing \<Rightarrow> bool \<Rightarrow> Event list \<Rightarrow> bool" where
  "examined tools core rt pe st st' enter es \<longleftrightarrow>
     li_discovered st' = li_discovered st \<and> li_pruned st' = li_pruned st \<and> (li_truncated st \<longrightarrow> li_truncated st') \<and>
     li_ignored st \<le> li_ignored st' \<and> (\<forall>e\<in>set es. \<exists>r. e = LinkKind (pe_path pe) r) \<and>
     (if enter
      then li_paths st' = li_paths st \<and>
        (pe_path pe \<noteq> rt \<longrightarrow> searchable tools core (pe_path pe) \<and> kind_known es (pe_path pe) (pe_file_type pe) IsDir)
      else pe_path pe \<noteq> rt \<and>
        (li_paths st' = li_paths st @ [pe_path pe] \<and> searchable tools core (pe_path pe) \<and>
           kind_known es (pe_path pe) (pe_file_type pe) IsFile \<or>
         li_paths st' = li_paths st \<and> (li_truncated st' \<or> li_ignored st' > 0 \<or> \<not> searchable tools core (pe_path pe) \<or>
           (\<exists>k. kind_known es (pe_path pe) (pe_file_type pe) k \<and> k \<noteq> IsFile \<and> k \<noteq> IsDir))))"

lemma judge_examined:
  assumes "judge tools core ctx pe st k = (st', enter)" and "kind_known es (pe_path pe) (pe_file_type pe) k"
    and "\<forall>e\<in>set es. \<exists>r. e = LinkKind (pe_path pe) r" and "pe_path pe \<noteq> rt"
    and "\<forall>name. file_name (pe_path pe) = Some name \<longrightarrow> name \<notin> set SKIPPED_DIRECTORY_NAMES"
  shows "examined tools core rt pe st st' enter es"
  using assms unfolding judge_def examined_def
  by (auto simp: Let_def searchable_def authorize_permitted split: if_splits prod.splits)

lemma examine_examined:
  assumes "examine dirs tools core ctx rt pe st log = (Inr (st', enter), log')"
  shows "\<exists>es. log' = log @ es \<and> examined tools core rt pe st st' enter es"
proof -
  let ?p = "pe_path pe"
  note run = assms [unfolded examine_def Let_def]
  consider (start) "?p = rt"
    | (refused) "?p \<noteq> rt" "\<not> traversal_entry_allowed (t_lower tools) (core_policy core)
        (traversal_allows_protected (t_lower tools) (core_policy core) rt) ?p \<or>
        (case file_name ?p of Some name \<Rightarrow> name \<in> set SKIPPED_DIRECTORY_NAMES | None \<Rightarrow> False)"
    | (typed) k where "?p \<noteq> rt" "pe_file_type pe = Some k" "judge tools core ctx pe st k = (st', enter)" "log' = log"
        "\<forall>name. file_name ?p = Some name \<longrightarrow> name \<notin> set SKIPPED_DIRECTORY_NAMES"
    | (asked) r where "?p \<noteq> rt" "pe_file_type pe = None" "log' = log @ [LinkKind ?p r]"
        "(st', enter) = (case r of Inl _ \<Rightarrow> (st\<lparr>li_truncated := True\<rparr>, False) | Inr k \<Rightarrow> judge tools core ctx pe st k)"
        "\<forall>name. file_name ?p = Some name \<longrightarrow> name \<notin> set SKIPPED_DIRECTORY_NAMES"
    using run by (cases "pe_file_type pe")
      (auto simp: return_def bind_def link_kind_def Let_def split: if_splits option.splits)
  then show ?thesis
  proof cases
    case start
    then show ?thesis using run by (intro exI [of _ "[]"]) (auto simp: return_def examined_def)
  next
    case refused
    then have "\<not> searchable tools core ?p" by (auto simp: searchable_def dest: permitted_allowed split: option.splits)
    then show ?thesis using run refused by (intro exI [of _ "[]"]) (auto simp: return_def examined_def split: if_splits)
  next
    case typed
    then show ?thesis by (intro exI [of _ "[]"]) (auto simp: kind_known_def intro: judge_examined)
  next
    case asked
    show ?thesis
    proof (cases r)
      case (Inl e)
      then show ?thesis using asked by (intro exI [of _ "[LinkKind ?p r]"]) (auto simp: examined_def)
    next
      case (Inr k)
      then show ?thesis using asked
        by (intro exI [of _ "[LinkKind ?p r]"]) (auto simp: kind_known_def intro!: judge_examined [of tools core ctx pe st k])
    qed
  qed
qed

text \<open>What reading a directory adds: one listing, and its entries on the stack.\<close>

definition entered :: "Path \<Rightarrow> Listing \<Rightarrow> Listing \<Rightarrow> Pending list \<Rightarrow> Event list \<Rightarrow> bool" where
  "entered p st st' pushed es \<longleftrightarrow>
     li_paths st' = li_paths st \<and> li_ignored st' = li_ignored st \<and> (li_truncated st \<longrightarrow> li_truncated st') \<and>
     (li_pruned st' = [] \<longrightarrow> li_pruned st = []) \<and> li_discovered st + length pushed \<le> li_discovered st' \<and>
     ((li_truncated st' \<and> pushed = [] \<and> (\<forall>d r. ReadDir d r \<notin> set es)) \<or>
      (\<exists>r. (\<forall>d r'. ReadDir d r' \<in> set es \<longleftrightarrow> d = p \<and> r' = r) \<and>
         (\<forall>pe\<in>set pushed. \<exists>rs name. r = Inr rs \<and> pe_path pe = p @ [Normal name] \<and> Inr (name, pe_file_type pe) \<in> set rs) \<and>
         (\<not> li_truncated st' \<and> li_pruned st' = [] \<longrightarrow>
           (\<exists>rs. r = Inr rs \<and> (\<forall>x\<in>set rs. \<exists>name k. x = Inr (name, k) \<and>
              (\<exists>pe\<in>set pushed. pe_path pe = p @ [Normal name] \<and> pe_file_type pe = k))))))"

lemma scan_entries_exact:
  "scan_directory os p most rs entries log = (Inr (found, t), log') \<Longrightarrow>
     \<exists>es. log' = log @ es \<and> (\<forall>d r. ReadDir d r \<notin> set es) \<and> set entries \<subseteq> set found \<and>
       (\<forall>x\<in>set found. x \<in> set entries \<or> (\<exists>name k. x = (p @ [Normal name], k) \<and> Inr (name, k) \<in> set rs)) \<and>
       (\<not> t \<longrightarrow> (\<forall>x\<in>set rs. \<exists>name k. x = Inr (name, k) \<and> (p @ [Normal name], k) \<in> set found))"
proof (induction rs arbitrary: entries log)
  case Nil
  then show ?case by (auto elim!: bindE dest!: poll_ok simp: return_def)
next
  case (Cons r rs)
  from Cons.prems have "poll os log = (Inr (), log @ [Polled False])"
    by (auto elim!: bindE dest: poll_ok)
  with Cons.prems have run: "(case r of Inl _ \<Rightarrow> return (entries, True) | Inr (name, k) \<Rightarrow>
      if length entries < most then scan_directory os p most rs (entries @ [(p @ [Normal name], k)])
      else return (entries, True)) (log @ [Polled False]) = (Inr (found, t), log')"
    by (simp add: bind_def)
  show ?case
  proof (cases "\<exists>name k. r = Inr (name, k) \<and> length entries < most")
    case True
    then obtain name k where r: "r = Inr (name, k)" "length entries < most" by blast
    with run have "scan_directory os p most rs (entries @ [(p @ [Normal name], k)]) (log @ [Polled False]) = (Inr (found, t), log')"
      by simp
    from Cons.IH [OF this] obtain es where es: "log' = (log @ [Polled False]) @ es" "\<forall>d r. ReadDir d r \<notin> set es"
      "set (entries @ [(p @ [Normal name], k)]) \<subseteq> set found"
      "\<forall>x\<in>set found. x \<in> set (entries @ [(p @ [Normal name], k)]) \<or> (\<exists>name k. x = (p @ [Normal name], k) \<and> Inr (name, k) \<in> set rs)"
      "\<not> t \<longrightarrow> (\<forall>x\<in>set rs. \<exists>name k. x = Inr (name, k) \<and> (p @ [Normal name], k) \<in> set found)"
      by blast
    then show ?thesis using r by (intro exI [of _ "Polled False # es"]) auto
  next
    case False
    with run show ?thesis by (intro exI [of _ "[Polled False]"]) (auto simp: return_def split: sum.splits if_splits)
  qed
qed

text \<open>Operations that read no directory.\<close>

definition unlisted :: "('e, 'a) op \<Rightarrow> bool" where
  "unlisted m \<longleftrightarrow> (\<forall>log. \<exists>es. snd (m log) = log @ es \<and> (\<forall>d r. ReadDir d r \<notin> set es))"

lemma unlistedD: "unlisted m \<Longrightarrow> m log = (r, log') \<Longrightarrow> \<exists>es. log' = log @ es \<and> (\<forall>d r. ReadDir d r \<notin> set es)"
  unfolding unlisted_def by (metis snd_conv)

lemma unlisted_return [simp]: "unlisted (return x)"
  by (simp add: unlisted_def return_def)

lemma unlisted_bind: "unlisted m \<Longrightarrow> (\<And>x. unlisted (f x)) \<Longrightarrow> unlisted (bind m f)"
proof -
  assume m: "unlisted m" and f: "\<And>x. unlisted (f x)"
  show ?thesis
    unfolding unlisted_def
  proof
    fix log
    obtain r log1 where r: "m log = (r, log1)" by fastforce
    obtain es where es: "log1 = log @ es" "\<forall>d r. ReadDir d r \<notin> set es" using unlistedD [OF m r] by blast
    show "\<exists>es. snd (bind m f log) = log @ es \<and> (\<forall>d r. ReadDir d r \<notin> set es)"
    proof (cases r)
      case (Inr x)
      obtain es' where "snd (f x log1) = log1 @ es'" "\<forall>d r. ReadDir d r \<notin> set es'" using f unfolding unlisted_def by blast
      then show ?thesis using r es Inr by (intro exI [of _ "es @ es'"]) (auto simp: bind_def)
    qed (use r es in \<open>auto simp: bind_def\<close>)
  qed
qed

lemma unlisted_calls [simp]:
  "unlisted (poll os)" "unlisted (open_file os p)" "unlisted (read_file os p)" "unlisted (link_kind dirs p)"
  by (auto simp: unlisted_def op_defs link_kind_def Let_def)

lemma unlisted_ignore [simp]: "unlisted (extend_scope_at os retained limits d p scope budget)"
  unfolding extend_scope_at_def read_ignore_def by (auto intro!: unlisted_bind split: option.splits)

lemma unlisted_extend [simp]: "unlisted (context_extend os retained limits ctx d scope budget)"
  unfolding context_extend_def by (auto split: option.splits)

lemma unlisted_enclosing [simp]: "unlisted (enclosing_repository dirs tools core n p chain)"
  by (induction dirs tools core n p chain rule: enclosing_repository.induct) (auto intro!: unlisted_bind split: sum.splits)

lemma unlisted_seed [simp]: "unlisted (seed_scope os retained limits base ds scope budget)"
  by (induction os retained limits base ds scope budget rule: seed_scope.induct) (auto intro!: unlisted_bind)

lemma unlisted_prepare: "unlisted (context_prepare os dirs tools retained core rt)"
  unfolding context_prepare_def by (auto simp: Let_def intro!: unlisted_bind split: option.splits)

lemma read_entries_exact:
  assumes "read_directory_entries os dirs p most log = (Inr (entries, t), log')"
  obtains r es where "log' = log @ ReadDir p r # es" "\<forall>d r. ReadDir d r \<notin> set es"
    "\<forall>x\<in>set entries. \<exists>rs name k. r = Inr rs \<and> x = (p @ [Normal name], k) \<and> Inr (name, k) \<in> set rs"
    "\<not> t \<longrightarrow> (\<exists>rs. r = Inr rs \<and> (\<forall>x\<in>set rs. \<exists>name k. x = Inr (name, k) \<and> (p @ [Normal name], k) \<in> set entries))"
proof -
  obtain r where run: "(case r of Inl _ \<Rightarrow> return ([], True) | Inr rs \<Rightarrow> bind (scan_directory os p most rs [])
      (\<lambda>(entries, truncated). return (sort_key fst entries, truncated))) (log @ [ReadDir p r]) = (Inr (entries, t), log')"
    using assms by (auto simp: read_directory_entries_def bind_def read_dir_def Let_def)
  show ?thesis
  proof (cases r)
    case (Inl k)
    then show ?thesis using run that [of r "[]"] by (auto simp: return_def)
  next
    case (Inr rs)
    then obtain found where f: "scan_directory os p most rs [] (log @ [ReadDir p r]) = (Inr (found, t), log')"
      "entries = sort_key fst found"
      using run by (auto elim!: bindE simp: return_def)
    from scan_entries_exact [OF f(1)] obtain es where es: "log' = (log @ [ReadDir p r]) @ es" "\<forall>d r. ReadDir d r \<notin> set es"
      "\<forall>x\<in>set found. \<exists>name k. x = (p @ [Normal name], k) \<and> Inr (name, k) \<in> set rs"
      "\<not> t \<longrightarrow> (\<forall>x\<in>set rs. \<exists>name k. x = Inr (name, k) \<and> (p @ [Normal name], k) \<in> set found)"
      by auto
    then show ?thesis using f(2) Inr by (intro that [of r es]) auto
  qed
qed

lemma push_entries_shape:
  assumes "push_entries os retained core ctx rt p scope entries st log = (Inr (st', pushed), log')"
  obtains (pruned) "st' = st\<lparr>li_pruned := li_pruned st @ [p]\<rparr>" "pushed = []" "log' = log"
  | (entered) es scope' budget where "log' = log @ es" "\<forall>d r. ReadDir d r \<notin> set es" "st' = st\<lparr>li_budget := budget\<rparr>"
      "pushed = map (\<lambda>(path, k). \<lparr>pe_path = path, pe_file_type = k, pe_scope = scope'\<rparr>) entries"
proof (cases "tc_prune_nested_repositories ctx \<and> p \<noteq> rt \<and> holds entries (u ''.git'')")
  case True
  then show ?thesis using assms pruned by (simp add: push_entries_def return_def)
next
  case False
  let ?ext = "(if tc_honor_gitignore ctx \<and> holds entries (u ''.gitignore'')
    then context_extend os retained (core_limits core) ctx p scope (li_budget st) else return (scope, li_budget st))
      :: (FilesystemError, IgnoreScope \<times> IgnoreBudget) op"
  have u: "unlisted ?ext" by simp
  obtain scope' budget where ext: "?ext log = (Inr (scope', budget), log')" and st': "st' = st\<lparr>li_budget := budget\<rparr>"
    and pushed: "pushed = map (\<lambda>(path, k). \<lparr>pe_path = path, pe_file_type = k, pe_scope = scope'\<rparr>) entries"
    using assms False unfolding push_entries_def by (simp only: if_False) (auto elim!: bindE simp: return_def)
  show ?thesis using unlistedD [OF u ext] st' pushed entered by blast
qed

lemma descend_entered:
  assumes "descend os dirs retained core ctx rt p scope st log = (Inr (st', pushed), log')"
  shows "\<exists>es. log' = log @ es \<and> entered p st st' pushed es"
proof (cases "max_traversal_entries (core_limits core) - li_discovered st = 0")
  case True
  then show ?thesis using assms
    by (intro exI [of _ "[]"]) (auto simp: descend_def Let_def return_def entered_def)
next
  case False
  then obtain entries t log1 where
    r: "read_directory_entries os dirs p (max_traversal_entries (core_limits core) - li_discovered st) log = (Inr (entries, t), log1)"
    and rest: "push_entries os retained core ctx rt p scope entries
      (st\<lparr>li_discovered := li_discovered st + length entries, li_truncated := (li_truncated st \<or> t)\<rparr>) log1 = (Inr (st', pushed), log')"
    using assms unfolding descend_def Let_def by (auto elim!: bindE)
  obtain r es where es: "log1 = log @ ReadDir p r # es" "\<forall>d r. ReadDir d r \<notin> set es"
    "\<forall>x\<in>set entries. \<exists>rs name k. r = Inr rs \<and> x = (p @ [Normal name], k) \<and> Inr (name, k) \<in> set rs"
    "\<not> t \<longrightarrow> (\<exists>rs. r = Inr rs \<and> (\<forall>x\<in>set rs. \<exists>name k. x = Inr (name, k) \<and> (p @ [Normal name], k) \<in> set entries))"
    using r by (rule read_entries_exact)
  from rest show ?thesis
  proof (cases rule: push_entries_shape)
    case pruned
    then show ?thesis using es by (intro exI [of _ "ReadDir p r # es"]) (auto simp: entered_def)
  next
    case (entered es' scope' budget)
    have "\<forall>pe\<in>set pushed. \<exists>rs name. r = Inr rs \<and> pe_path pe = p @ [Normal name] \<and> Inr (name, pe_file_type pe) \<in> set rs"
      using es(3) entered(4) by fastforce
    moreover have "\<exists>rs. r = Inr rs \<and> (\<forall>x\<in>set rs. \<exists>name k. x = Inr (name, k) \<and>
        (\<exists>pe\<in>set pushed. pe_path pe = p @ [Normal name] \<and> pe_file_type pe = k))" if nt: "\<not> t"
    proof -
      obtain rs where rs: "r = Inr rs" "\<forall>x\<in>set rs. \<exists>name k. x = Inr (name, k) \<and> (p @ [Normal name], k) \<in> set entries"
        using es(4) nt by blast
      have "\<exists>pe\<in>set pushed. pe_path pe = q \<and> pe_file_type pe = k" if "(q, k) \<in> set entries" for q k
        using that entered(4) by force
      then show ?thesis using rs by metis
    qed
    ultimately show ?thesis using es(1,2) entered
      by (intro exI [of _ "ReadDir p r # es @ es'"]) (auto simp: entered_def)
  qed
qed

section \<open>The listing\<close>

text \<open>
  A directory the traversal came to: the root, or an entry of such a directory that was listed or
  inspected as a directory, not a link, and is searchable.
\<close>

definition named :: "Event list \<Rightarrow> Path \<Rightarrow> ustr \<Rightarrow> FileKind option \<Rightarrow> bool" where
  "named es d name t \<longleftrightarrow> (\<exists>rs. ReadDir d (Inr rs) \<in> set es \<and> Inr (name, t) \<in> set rs)"

inductive reached :: "Tools \<Rightarrow> FilesystemCore \<Rightarrow> Path \<Rightarrow> Event list \<Rightarrow> Path \<Rightarrow> bool" for tools core rt es where
  start: "reached tools core rt es rt"
| step: "reached tools core rt es d \<Longrightarrow> named es d name t \<Longrightarrow> kind_known es (d @ [Normal name]) t IsDir \<Longrightarrow>
    searchable tools core (d @ [Normal name]) \<Longrightarrow> reached tools core rt es (d @ [Normal name])"

definition found :: "Tools \<Rightarrow> FilesystemCore \<Rightarrow> Path \<Rightarrow> Event list \<Rightarrow> Path \<Rightarrow> bool" where
  "found tools core rt es p \<longleftrightarrow> (\<exists>d name t. p = d @ [Normal name] \<and> reached tools core rt es d \<and> named es d name t \<and>
     kind_known es p t IsFile \<and> searchable tools core p)"

lemma named_mono: "named es d name t \<Longrightarrow> named (es @ es') d name t"
  by (auto simp: named_def)

lemma kind_known_mono: "kind_known es p t k \<Longrightarrow> kind_known (es @ es') p t k" "kind_known es p t k \<Longrightarrow> kind_known (es' @ es) p t k"
  by (auto simp: kind_known_def)

lemma reached_mono: "reached tools core rt es d \<Longrightarrow> reached tools core rt (es @ es') d"
  by (induction rule: reached.induct) (auto intro: reached.intros named_mono kind_known_mono)

lemma found_mono: "found tools core rt es p \<Longrightarrow> found tools core rt (es @ es') p"
  unfolding found_def by (blast intro: reached_mono named_mono kind_known_mono)

lemma reached_below: "reached tools core rt es d \<Longrightarrow> \<exists>r. d = rt @ r"
  by (induction rule: reached.induct) auto

text \<open>An entry is settled when it is listed, or read in turn, or neither a file nor a directory to search.\<close>

definition settled :: "Tools \<Rightarrow> FilesystemCore \<Rightarrow> Event list \<Rightarrow> Path list \<Rightarrow> Path \<Rightarrow> FileKind option \<Rightarrow> bool" where
  "settled tools core es paths p t \<longleftrightarrow> (searchable tools core p \<longrightarrow> (\<exists>k. kind_known es p t k \<and>
     (k = IsFile \<longrightarrow> p \<in> set paths) \<and> (k = IsDir \<longrightarrow> (\<exists>r. ReadDir p r \<in> set es))))"

lemma settled_mono: "settled tools core es paths p t \<Longrightarrow> set paths \<subseteq> set paths' \<Longrightarrow> settled tools core (es @ es') paths' p t"
  unfolding settled_def using kind_known_mono by fastforce

definition unabridged :: "Listing \<Rightarrow> bool" where
  "unabridged st \<longleftrightarrow> \<not> li_truncated st \<and> li_ignored st = 0 \<and> li_pruned st = []"

text \<open>Where a stacked entry comes from; what the listings are known to lead to.\<close>

definition stacked :: "Tools \<Rightarrow> FilesystemCore \<Rightarrow> Path \<Rightarrow> Event list \<Rightarrow> Pending \<Rightarrow> bool" where
  "stacked tools core rt es pe \<longleftrightarrow> pe_path pe = rt \<or> (\<exists>d name. pe_path pe = d @ [Normal name] \<and> reached tools core rt es d \<and>
     named es d name (pe_file_type pe))"

definition covered :: "Tools \<Rightarrow> FilesystemCore \<Rightarrow> Event list \<Rightarrow> Pending list \<Rightarrow> Path list \<Rightarrow> Path \<Rightarrow> DirEntry \<Rightarrow> bool" where
  "covered tools core es stack paths d x \<longleftrightarrow> (\<exists>name t. x = Inr (name, t) \<and>
     ((\<exists>pe\<in>set stack. pe_path pe = d @ [Normal name] \<and> pe_file_type pe = t) \<or> settled tools core es paths (d @ [Normal name]) t))"

definition traversal_inv :: "Tools \<Rightarrow> FilesystemCore \<Rightarrow> Path \<Rightarrow> Event list \<Rightarrow> Pending list \<Rightarrow> Listing \<Rightarrow> bool" where
  "traversal_inv tools core rt es stack st \<longleftrightarrow>
     (\<forall>pe\<in>set stack. stacked tools core rt es pe) \<and> (\<forall>p\<in>set (li_paths st). found tools core rt es p) \<and>
     (\<forall>d r. ReadDir d r \<in> set es \<longrightarrow> reached tools core rt es d) \<and>
     length (li_paths st) + length (filter (\<lambda>pe. pe_path pe \<noteq> rt) stack) \<le> li_discovered st \<and>
     li_discovered st \<le> max_traversal_entries (core_limits core) \<and>
     (unabridged st \<longrightarrow>
       ((\<exists>pe\<in>set stack. pe_path pe = rt) \<or> (\<exists>r. ReadDir rt r \<in> set es)) \<and>
       (\<forall>d r. ReadDir d r \<in> set es \<longrightarrow> (\<exists>rs. r = Inr rs \<and> (\<forall>x\<in>set rs. covered tools core es stack (li_paths st) d x))))"

lemma stacked_mono: "stacked tools core rt es pe \<Longrightarrow> stacked tools core rt (es @ es') pe"
  unfolding stacked_def by (blast intro: reached_mono named_mono)

lemma covered_step:
  assumes "covered tools core es (pe # stack) paths d x" and "set paths \<subseteq> set paths'" and "set stack \<subseteq> set stack'"
    and "\<And>name. pe_path pe = d @ [Normal name] \<Longrightarrow> settled tools core (es @ es') paths' (pe_path pe) (pe_file_type pe)"
  shows "covered tools core (es @ es') stack' paths' d x"
proof -
  obtain name t where x: "x = Inr (name, t)" and
    c: "(\<exists>q\<in>set (pe # stack). pe_path q = d @ [Normal name] \<and> pe_file_type q = t) \<or> settled tools core es paths (d @ [Normal name]) t"
    using assms(1) unfolding covered_def by blast
  from c consider "pe_path pe = d @ [Normal name]" "pe_file_type pe = t"
    | "\<exists>q\<in>set stack. pe_path q = d @ [Normal name] \<and> pe_file_type q = t" | "settled tools core es paths (d @ [Normal name]) t"
    by auto
  then show ?thesis
  proof cases
    case 1
    then show ?thesis using assms(4) [of name] x by (auto simp: covered_def)
  next
    case 2
    then show ?thesis using assms(3) x by (auto simp: covered_def)
  next
    case 3
    then show ?thesis using settled_mono [OF 3 assms(2), of es'] x by (auto simp: covered_def)
  qed
qed

lemma inv_passed:
  assumes inv: "traversal_inv tools core rt es (pe # stack) st" and ex: "examined tools core rt pe st st' False es1"
  shows "traversal_inv tools core rt (es @ Polled False # es1) stack st'"
proof -
  let ?es = "es @ Polled False # es1"
  have away: "pe_path pe \<noteq> rt" using ex by (simp add: examined_def)
  obtain d name where p: "pe_path pe = d @ [Normal name]" "reached tools core rt es d" "named es d name (pe_file_type pe)"
    using inv away unfolding traversal_inv_def stacked_def by auto
  have paths: "set (li_paths st) \<subseteq> set (li_paths st')" using ex by (auto simp: examined_def)
  have "\<forall>q\<in>set (li_paths st'). found tools core rt ?es q"
  proof -
    have "found tools core rt ?es (pe_path pe)" if "searchable tools core (pe_path pe)" "kind_known es1 (pe_path pe) (pe_file_type pe) IsFile"
      using that p kind_known_mono(2) [of es1 _ _ _ "es @ [Polled False]"] reached_mono [OF p(2)] named_mono [OF p(3)]
      unfolding found_def by fastforce
    then show ?thesis using ex inv found_mono [of tools core rt es _ "Polled False # es1"]
      by (auto simp: examined_def traversal_inv_def)
  qed
  moreover have "\<exists>rs. r = Inr rs \<and> (\<forall>x\<in>set rs. covered tools core ?es stack (li_paths st') q x)"
    if c: "unabridged st'" "ReadDir q r \<in> set ?es" for q r
  proof -
    have "ReadDir q r \<in> set es" using c(2) ex by (auto simp: examined_def)
    moreover have "unabridged st" using c(1) ex by (auto simp: unabridged_def examined_def)
    ultimately obtain rs where "r = Inr rs" "\<forall>x\<in>set rs. covered tools core es (pe # stack) (li_paths st) q x"
      using inv unfolding traversal_inv_def by blast
    moreover have "settled tools core ?es (li_paths st') (pe_path pe) (pe_file_type pe)"
      using ex c(1) kind_known_mono(2) [of es1 _ _ _ "es @ [Polled False]"]
      unfolding examined_def settled_def unabridged_def by fastforce
    ultimately show ?thesis using covered_step [OF _ paths, of tools core es pe stack q _ stack "Polled False # es1"] by blast
  qed
  moreover have "unabridged st' \<Longrightarrow> (\<exists>pe\<in>set stack. pe_path pe = rt) \<or> (\<exists>r. ReadDir rt r \<in> set ?es)"
    using inv ex away unfolding traversal_inv_def examined_def unabridged_def by auto
  moreover have "ReadDir q r \<in> set ?es \<Longrightarrow> reached tools core rt ?es q" for q r
    using inv ex reached_mono [of tools core rt es q "Polled False # es1"] unfolding traversal_inv_def examined_def by auto
  moreover have "\<forall>q\<in>set stack. stacked tools core rt ?es q"
    using inv stacked_mono [of tools core rt es _ "Polled False # es1"] unfolding traversal_inv_def by auto
  moreover have "length (li_paths st') + length (filter (\<lambda>pe. pe_path pe \<noteq> rt) stack) \<le> li_discovered st'"
    "li_discovered st' \<le> max_traversal_entries (core_limits core)"
    using inv ex away unfolding traversal_inv_def examined_def by auto
  ultimately show ?thesis unfolding traversal_inv_def by blast
qed

lemma descend_max:
  assumes "descend os dirs retained core ctx rt p scope st log = (Inr (st', pushed), log')"
    and "li_discovered st \<le> max_traversal_entries (core_limits core)"
  shows "li_discovered st' \<le> max_traversal_entries (core_limits core)"
  using assms unfolding descend_def push_entries_def read_directory_entries_def
  by (auto elim!: bindE dest!: scan_entries_length simp: return_def Let_def
      split: if_splits sum.splits prod.splits) linarith+

lemma inv_entered:
  assumes inv: "traversal_inv tools core rt es (pe # stack) st" and ex: "examined tools core rt pe st st1 True es1"
    and en: "entered (pe_path pe) st1 st' pushed es2" and max: "li_discovered st' \<le> max_traversal_entries (core_limits core)"
  shows "traversal_inv tools core rt (es @ Polled False # es1 @ es2) (pushed @ stack) st'"
proof -
  let ?new = "Polled False # es1 @ es2"
  let ?es = "es @ ?new"
  let ?p = "pe_path pe"
  have same: "li_paths st' = li_paths st" using ex en by (simp add: examined_def entered_def)
  have kind: "kind_known ?es ?p (pe_file_type pe) IsDir" if "?p \<noteq> rt"
    using ex that kind_known_mono(1) [OF kind_known_mono(2), of es1 ?p "pe_file_type pe" IsDir "es @ [Polled False]" es2]
    unfolding examined_def by simp
  have reach: "reached tools core rt ?es ?p"
  proof (cases "?p = rt")
    case False
    then obtain d name where p: "?p = d @ [Normal name]" "reached tools core rt es d" "named es d name (pe_file_type pe)"
      using inv unfolding traversal_inv_def stacked_def by auto
    then show ?thesis using kind False ex reached.step [OF reached_mono [OF p(2), of ?new] named_mono [OF p(3), of ?new]]
      unfolding examined_def by simp
  qed (simp add: reached.start)
  have new: "ReadDir q r \<in> set ?es \<Longrightarrow> ReadDir q r \<in> set es \<or> ReadDir q r \<in> set es2 \<and> q = ?p" for q r
    using ex en unfolding examined_def entered_def by auto
  have "stacked tools core rt ?es q" if q: "q \<in> set pushed" for q
  proof -
    obtain r where r: "\<forall>d r'. ReadDir d r' \<in> set es2 \<longleftrightarrow> d = ?p \<and> r' = r"
      "\<forall>pe\<in>set pushed. \<exists>rs name. r = Inr rs \<and> pe_path pe = ?p @ [Normal name] \<and> Inr (name, pe_file_type pe) \<in> set rs"
      using en q unfolding entered_def by auto
    obtain rs name where "r = Inr rs" "pe_path q = ?p @ [Normal name]" "Inr (name, pe_file_type q) \<in> set rs" using r(2) q by blast
    moreover have "ReadDir ?p r \<in> set ?es" using r(1) by simp
    ultimately show ?thesis using reach unfolding stacked_def named_def by blast
  qed
  then have "\<forall>q\<in>set (pushed @ stack). stacked tools core rt ?es q"
    using inv stacked_mono [of tools core rt es _ ?new] unfolding traversal_inv_def by auto
  moreover have "\<forall>q\<in>set (li_paths st'). found tools core rt ?es q"
    using inv same found_mono [of tools core rt es _ ?new] unfolding traversal_inv_def by auto
  moreover have "ReadDir q r \<in> set ?es \<Longrightarrow> reached tools core rt ?es q" for q r
    using new [of q r] reach inv reached_mono [of tools core rt es q ?new] unfolding traversal_inv_def by blast
  moreover have "length (li_paths st') + length (filter (\<lambda>pe. pe_path pe \<noteq> rt) (pushed @ stack)) \<le> li_discovered st'"
  proof -
    have "length (li_paths st) + length (filter (\<lambda>pe. pe_path pe \<noteq> rt) (pe # stack)) \<le> li_discovered st"
      using inv unfolding traversal_inv_def by blast
    moreover have "length (filter (\<lambda>pe. pe_path pe \<noteq> rt) stack) \<le> length (filter (\<lambda>pe. pe_path pe \<noteq> rt) (pe # stack))" by simp
    moreover have "length (filter (\<lambda>pe. pe_path pe \<noteq> rt) pushed) \<le> length pushed" by simp
    moreover have "li_discovered st + length pushed \<le> li_discovered st'" using ex en unfolding examined_def entered_def by simp
    ultimately show ?thesis unfolding same filter_append length_append by linarith
  qed
  moreover have "(\<exists>pe\<in>set (pushed @ stack). pe_path pe = rt) \<or> (\<exists>r. ReadDir rt r \<in> set ?es)" if "unabridged st'"
    using inv ex en that unfolding traversal_inv_def examined_def entered_def unabridged_def by auto
  moreover have "\<exists>rs. r = Inr rs \<and> (\<forall>x\<in>set rs. covered tools core ?es (pushed @ stack) (li_paths st') q x)"
    if c: "unabridged st'" "ReadDir q r \<in> set ?es" for q r
  proof -
    obtain r' rs' where r': "\<forall>d r''. ReadDir d r'' \<in> set es2 \<longleftrightarrow> d = ?p \<and> r'' = r'" "r' = Inr rs'"
      "\<forall>x\<in>set rs'. \<exists>name k. x = Inr (name, k) \<and> (\<exists>pe\<in>set pushed. pe_path pe = ?p @ [Normal name] \<and> pe_file_type pe = k)"
      using en c(1) unfolding entered_def unabridged_def by auto
    show ?thesis
    proof (cases "ReadDir q r \<in> set es2")
      case True
      then have "q = ?p" "r = Inr rs'" using r' by blast+
      moreover have "covered tools core ?es (pushed @ stack) (li_paths st') ?p x" if "x \<in> set rs'" for x
        using r'(3) that unfolding covered_def by (metis UnI1 set_append)
      ultimately show ?thesis by blast
    next
      case False
      then have old: "ReadDir q r \<in> set es" using c(2) new by blast
      moreover have "unabridged st" using c(1) ex en unfolding unabridged_def examined_def entered_def by auto
      ultimately obtain rs where rs: "r = Inr rs" "\<forall>x\<in>set rs. covered tools core es (pe # stack) (li_paths st) q x"
        using inv unfolding traversal_inv_def by blast
      obtain s where "q = rt @ s" using inv old reached_below unfolding traversal_inv_def by blast
      then have "settled tools core ?es (li_paths st') ?p (pe_file_type pe)" if "?p = q @ [Normal name]" for name
        using kind that r'(1) unfolding settled_def by fastforce
      then show ?thesis using rs same covered_step [of tools core es pe stack "li_paths st" q _ "li_paths st'" "pushed @ stack" ?new]
        by auto
    qed
  qed
  ultimately show ?thesis using max unfolding traversal_inv_def by blast
qed

lemma visit_inv:
  assumes "visit_pending os dirs tools retained core ctx rt pe st (log @ es) = (Inr (st', pushed), log')"
    and inv: "traversal_inv tools core rt es (pe # stack) st"
  shows "\<exists>es'. log' = log @ es @ es' \<and> traversal_inv tools core rt (es @ es') (pushed @ stack) st'"
proof -
  obtain st1 enter log1 where e: "examine dirs tools core ctx rt pe st (log @ es @ [Polled False]) = (Inr (st1, enter), log1)"
    and d: "(if enter then descend os dirs retained core ctx rt (pe_path pe) (pe_scope pe) st1 else return (st1, [])) log1 =
      (Inr (st', pushed), log')"
    using assms(1) unfolding visit_pending_def by (auto elim!: bindE dest!: poll_ok)
  obtain es1 where es1: "log1 = (log @ es @ [Polled False]) @ es1" "examined tools core rt pe st st1 enter es1"
    using examine_examined [OF e] by blast
  show ?thesis
  proof (cases enter)
    case True
    then have run: "descend os dirs retained core ctx rt (pe_path pe) (pe_scope pe) st1 log1 = (Inr (st', pushed), log')" using d by simp
    obtain es2 where es2: "log' = log1 @ es2" "entered (pe_path pe) st1 st' pushed es2" using descend_entered [OF run] by blast
    have "li_discovered st' \<le> max_traversal_entries (core_limits core)"
      using descend_max [OF run] inv es1(2) by (auto simp: traversal_inv_def examined_def)
    then show ?thesis using inv_entered [OF inv _ es2(2)] es1 es2(1) True
      by (intro exI [of _ "Polled False # es1 @ es2"]) simp
  next
    case False
    then show ?thesis using inv_passed [OF inv, of st1 es1] es1 d
      by (intro exI [of _ "Polled False # es1"]) (auto simp: return_def)
  qed
qed

lemma list_loop_inv:
  "list_loop os dirs tools retained core ctx rt stack st (log @ es) = (Inr st', log') \<Longrightarrow> traversal_inv tools core rt es stack st \<Longrightarrow>
     \<exists>es'. log' = log @ es @ es' \<and> traversal_inv tools core rt (es @ es') [] st'"
proof (induction os dirs tools retained core ctx rt stack st "log @ es" arbitrary: es rule: list_loop.induct)
  case (1 os dirs tools retained core ctx rt st)
  then show ?case by auto
next
  case (2 os dirs tools retained core ctx rt pe stack st)
  obtain st1 pushed log1 where v: "visit_pending os dirs tools retained core ctx rt pe st (log @ es) = (Inr (st1, pushed), log1)"
    and l: "list_loop os dirs tools retained core ctx rt (pushed @ stack) st1 log1 = (Inr st', log')"
    using "2.prems"(1) by (auto split: prod.splits sum.splits)
  obtain es1 where es1: "log1 = log @ (es @ es1)" "traversal_inv tools core rt (es @ es1) (pushed @ stack) st1"
    using visit_inv [OF v "2.prems"(2)] by auto
  obtain es2 where "log' = log @ (es @ es1) @ es2" "traversal_inv tools core rt ((es @ es1) @ es2) [] st'"
    using "2.hyps" [of "Inr (st1, pushed)" "es @ es1" "(st1, pushed)" st1 pushed] v l es1 by auto
  then show ?case by (intro exI [of _ "es1 @ es2"]) simp
qed

lemma list_files_inv:
  assumes "list_files os dirs tools retained core rt log = (Inr listed, log')"
  obtains es st where "log' = log @ es" "traversal_inv tools core rt es [] st" "lf_paths listed = sort (li_paths st)"
    "lf_truncated listed = li_truncated st" "lf_ignored listed = li_ignored st" "lf_pruned_repositories listed = sort (li_pruned st)"
proof -
  obtain ctx budget log1 st where
    p: "bind (poll os) (\<lambda>_. context_prepare os dirs tools retained core rt) log = (Inr (ctx, budget), log1)"
    and l: "list_loop os dirs tools retained core ctx rt [\<lparr>pe_path = rt, pe_file_type = None, pe_scope = tc_seed ctx\<rparr>]
       \<lparr>li_paths = [], li_discovered = 0, li_truncated = False, li_ignored = 0, li_pruned = [], li_budget = budget\<rparr> log1 = (Inr st, log')"
    and listed: "lf_paths listed = sort (li_paths st)" "lf_truncated listed = li_truncated st" "lf_ignored listed = li_ignored st"
      "lf_pruned_repositories listed = sort (li_pruned st)"
    using assms unfolding list_files_def by (auto simp: bind_def return_def split: prod.splits sum.splits)
  have "unlisted (bind (poll os) (\<lambda>_. context_prepare os dirs tools retained core rt))"
    by (intro unlisted_bind unlisted_prepare) simp
  from unlistedD [OF this p] obtain es0 where es0: "log1 = log @ es0" "\<forall>d r. ReadDir d r \<notin> set es0" by blast
  have "traversal_inv tools core rt es0 [\<lparr>pe_path = rt, pe_file_type = None, pe_scope = tc_seed ctx\<rparr>]
       \<lparr>li_paths = [], li_discovered = 0, li_truncated = False, li_ignored = 0, li_pruned = [], li_budget = budget\<rparr>"
    using es0(2) by (auto simp: traversal_inv_def stacked_def)
  from list_loop_inv [OF l [unfolded es0(1)] this] show ?thesis using that listed by auto
qed

text \<open>
  C37. Every file a traversal lists lies below its root, inside the policy, and was reached through
  directories each of which is searchable and was reported as a directory and not as a link; the
  list is sorted, and holds no more files than the budget of directory entries.
\<close>

theorem listing_confined:
  assumes "list_files os dirs tools retained core rt log = (Inr listed, log')"
  shows "\<exists>es. log' = log @ es \<and> (\<forall>p\<in>set (lf_paths listed). found tools core rt es p) \<and> sorted (lf_paths listed) \<and>
    length (lf_paths listed) \<le> max_traversal_entries (core_limits core)"
  using assms
proof (cases rule: list_files_inv)
  case (1 es st)
  then show ?thesis by (intro exI [of _ es]) (auto simp: traversal_inv_def)
qed

text \<open>
  C38. A listing that is not marked truncated, ignored nothing and pruned no repository is complete:
  the root was read, every directory that was read was read in full, and every entry of it that may
  be searched is in the list when it is a file and was read in turn when it is a directory.
\<close>

theorem listing_complete:
  assumes "list_files os dirs tools retained core rt log = (Inr listed, log')"
    and "\<not> lf_truncated listed" and "lf_ignored listed = 0" and "lf_pruned_repositories listed = []"
  shows "\<exists>es. log' = log @ es \<and> (\<exists>r. ReadDir rt r \<in> set es) \<and>
    (\<forall>d r. ReadDir d r \<in> set es \<longrightarrow> (\<exists>rs. r = Inr rs \<and> (\<forall>x\<in>set rs. \<exists>name t. x = Inr (name, t) \<and>
       (searchable tools core (d @ [Normal name]) \<longrightarrow> (\<exists>k. kind_known es (d @ [Normal name]) t k \<and>
          (k = IsFile \<longrightarrow> d @ [Normal name] \<in> set (lf_paths listed)) \<and>
          (k = IsDir \<longrightarrow> (\<exists>r. ReadDir (d @ [Normal name]) r \<in> set es)))))))"
  using assms(1)
proof (cases rule: list_files_inv)
  case (1 es st)
  then have "unabridged st" using assms(2-4) by (auto simp: unabridged_def dest: arg_cong [of _ _ length])
  with 1 show ?thesis by (intro exI [of _ es]) (auto simp: traversal_inv_def covered_def settled_def)
qed

section \<open>A concrete tree\<close>

text \<open>The directory \<open>/w\<close> holds a file, a link and a name whose type is not reported.\<close>

definition tree_dirs :: DirCalls where
  "tree_dirs = \<lparr>dc_read_dir = (\<lambda>_ p. if p = components (u ''/w'')
        then Inr [Inr (u ''l'', Some IsSymlink), Inr (u ''b'', None), Inr (u ''a'', Some IsFile)] else Inl IoNotFound),
     dc_link_kind = (\<lambda>_ p. if p = components (u ''/w/b'') then Inr IsFile else Inl IoNotFound)\<rparr>"

abbreviation demo_w :: Path where "demo_w \<equiv> [RootDir, Normal [119]]"

lemma demo_permitted:
  "authorize_canonical_entry to_ascii_lowercase demo_policy demo_w" "\<not> authorize_canonical_entry to_ascii_lowercase demo_policy [RootDir]"
  "authorize_canonical_entry to_ascii_lowercase demo_policy [RootDir, Normal [119], Normal [c]]"
  by (simp_all add: authorize_canonical_entry_def demo_path_defs)

lemma demo_no_git:
  "link_kind tree_dirs [RootDir, Normal [119], Normal (u ''.git'')] log =
     (Inr (Inl IoNotFound), log @ [LinkKind [RootDir, Normal [119], Normal (u ''.git'')] (Inl IoNotFound)])"
  by (simp add: link_kind_def tree_dirs_def components_def component_of_def text_defs Let_def)

lemma demo_parent_w: "parent demo_w = Some [RootDir]"
  by (simp add: parent_def)

lemma demo_enclosing:
  "enclosing_repository tree_dirs demo_tools demo_core (Suc (Suc n)) (Some demo_w) [] log =
     (Inr ([demo_w], None), log @ [LinkKind [RootDir, Normal [119], Normal (u ''.git'')] (Inl IoNotFound)])"
  by (simp add: demo_core_def demo_tools_def demo_permitted bind_def return_def demo_no_git demo_parent_w)

lemma demo_enclosing_max:
  "enclosing_repository tree_dirs demo_tools demo_core MAX_ENCLOSING_ANCESTORS (Some demo_w) [] log =
     (Inr ([demo_w], None), log @ [LinkKind [RootDir, Normal [119], Normal (u ''.git'')] (Inl IoNotFound)])"
  using demo_enclosing [of 62 log] by (simp add: MAX_ENCLOSING_ANCESTORS_def)

lemma demo_context:
  "context_prepare edit_os tree_dirs demo_tools (\<lambda>_. 0) demo_core demo_w log =
     (Inr (\<lparr>tc_base = demo_w, tc_seed = [], tc_honor_gitignore = True, tc_prune_nested_repositories = False\<rparr>,
           IgnoreBudget_new default_limits), log @ [LinkKind [RootDir, Normal [119], Normal (u ''.git'')] (Inl IoNotFound)])"
proof -
  have "honor_gitignore (core_limits demo_core)" "core_limits demo_core = default_limits"
    by (simp_all add: demo_core_def default_limits_def)
  then show ?thesis unfolding context_prepare_def by (simp add: bind_def return_def Let_def demo_enclosing_max)
qed

definition demo_ctx :: TraversalContext where
  "demo_ctx = \<lparr>tc_base = demo_w, tc_seed = [], tc_honor_gitignore = True, tc_prune_nested_repositories = False\<rparr>"

definition demo_pending :: "nat \<Rightarrow> FileKind option \<Rightarrow> Pending" where
  "demo_pending c k = \<lparr>pe_path = [RootDir, Normal [119], Normal [c]], pe_file_type = k, pe_scope = []\<rparr>"

lemmas demo_step_defs = visit_pending_def examine_def judge_def bind_def return_def poll_def edit_os_calls Let_def

lemma demo_limit: "max_traversal_entries (core_limits demo_core) = 50000" "t_lower demo_tools = to_ascii_lowercase"
  "core_policy demo_core = demo_policy"
  by (simp_all add: demo_core_def default_limits_def demo_tools_def)

lemma demo_visit_root:
  assumes "li_discovered st = 0"
  shows "\<exists>log'. visit_pending edit_os tree_dirs demo_tools retained demo_core demo_ctx demo_w \<lparr>pe_path = demo_w, pe_file_type = None, pe_scope = []\<rparr> st log =
    (Inr (st\<lparr>li_discovered := 3\<rparr>, [demo_pending 97 (Some IsFile), demo_pending 98 None, demo_pending 108 (Some IsSymlink)]), log')"
proof -
  have w: "components [47, 119] = demo_w" by (simp add: components_def component_of_def text_defs Let_def)
  show ?thesis using assms
    by (simp add: demo_step_defs descend_def push_entries_def demo_ctx_def demo_limit read_directory_entries_def read_dir_def
        tree_dirs_def w holds_def file_name_def u_def demo_pending_def less_eq_Component_def less_Component_def)
qed

lemma demo_allowed:
  "traversal_entry_allowed to_ascii_lowercase demo_policy (traversal_allows_protected to_ascii_lowercase demo_policy demo_w)
     [RootDir, Normal [119], Normal [c]]"
  by (simp add: traversal_entry_allowed_def traversal_allows_protected_def is_protected_path_def demo_path_defs)

lemma demo_unskipped: "[c] \<notin> set SKIPPED_DIRECTORY_NAMES"
  by (simp add: SKIPPED_DIRECTORY_NAMES_def u_def)

lemma demo_visit:
  assumes "k = Some kind \<or> k = None \<and> kind = IsFile \<and> c = 98" and "kind = IsFile \<or> kind = IsSymlink"
  shows "\<exists>log'. visit_pending edit_os tree_dirs demo_tools retained demo_core demo_ctx demo_w (demo_pending c k) st log =
    (Inr (if kind = IsFile then st\<lparr>li_paths := li_paths st @ [[RootDir, Normal [119], Normal [c]]]\<rparr> else st, []), log')"
proof -
  have b: "components (u ''/w/b'') = [RootDir, Normal [119], Normal [98]]" by (simp add: demo_path_defs)
  show ?thesis using assms
    by (auto simp: demo_step_defs demo_pending_def demo_limit demo_allowed demo_permitted demo_unskipped file_name_def
        excludes_def link_kind_def tree_dirs_def b)
qed

lemma demo_listing:
  obtains listed log where "list_files edit_os tree_dirs demo_tools (\<lambda>_. 0) demo_core demo_w [] = (Inr listed, log)"
    "lf_paths listed = [components (u ''/w/a''), components (u ''/w/b'')]" "\<not> lf_truncated listed" "lf_ignored listed = 0"
    "lf_pruned_repositories listed = []"
proof -
  define st :: Listing where "st = \<lparr>li_paths = [], li_discovered = 0, li_truncated = False, li_ignored = 0, li_pruned = [],
    li_budget = IgnoreBudget_new default_limits\<rparr>"
  define a where "a = [RootDir, Normal [119], Normal [97]]"
  define b where "b = [RootDir, Normal [119], Normal [98]]"
  let ?v = "visit_pending edit_os tree_dirs demo_tools (\<lambda>_. 0) demo_core demo_ctx demo_w"
  define log0 where "log0 = [Polled False, LinkKind [RootDir, Normal [119], Normal (u ''.git'')] (Inl IoNotFound)]"
  obtain log1 where 1: "?v \<lparr>pe_path = demo_w, pe_file_type = None, pe_scope = []\<rparr> st log0 =
      (Inr (st\<lparr>li_discovered := 3\<rparr>, [demo_pending 97 (Some IsFile), demo_pending 98 None, demo_pending 108 (Some IsSymlink)]), log1)"
    using demo_visit_root [of st] by (auto simp: st_def)
  obtain log2 where 2: "?v (demo_pending 97 (Some IsFile)) (st\<lparr>li_discovered := 3\<rparr>) log1 = (Inr (st\<lparr>li_discovered := 3, li_paths := [a]\<rparr>, []), log2)"
    using demo_visit [of "Some IsFile" IsFile 97 "\<lambda>_. 0" "st\<lparr>li_discovered := 3\<rparr>" log1] by (auto simp: st_def a_def)
  obtain log3 where 3: "?v (demo_pending 98 None) (st\<lparr>li_discovered := 3, li_paths := [a]\<rparr>) log2 =
      (Inr (st\<lparr>li_discovered := 3, li_paths := [a, b]\<rparr>, []), log3)"
    using demo_visit [of None IsFile 98 "\<lambda>_. 0" "st\<lparr>li_discovered := 3, li_paths := [a]\<rparr>" log2] by (auto simp: b_def)
  obtain log4 where 4: "?v (demo_pending 108 (Some IsSymlink)) (st\<lparr>li_discovered := 3, li_paths := [a, b]\<rparr>) log3 =
      (Inr (st\<lparr>li_discovered := 3, li_paths := [a, b]\<rparr>, []), log4)"
    using demo_visit [of "Some IsSymlink" IsSymlink 108 "\<lambda>_. 0" "st\<lparr>li_discovered := 3, li_paths := [a, b]\<rparr>" log3] by auto
  have "list_loop edit_os tree_dirs demo_tools (\<lambda>_. 0) demo_core demo_ctx demo_w
      [\<lparr>pe_path = demo_w, pe_file_type = None, pe_scope = []\<rparr>] st log0 = (Inr (st\<lparr>li_discovered := 3, li_paths := [a, b]\<rparr>), log4)"
    by (simp add: 1 2 3 4)
  moreover have "sort [a, b] = [a, b]" by (simp add: a_def b_def less_eq_Component_def less_Component_def)
  ultimately have "list_files edit_os tree_dirs demo_tools (\<lambda>_. 0) demo_core demo_w [] =
    (Inr \<lparr>lf_paths = [a, b], lf_truncated = False, lf_ignored = 0, lf_ignore_complete = True, lf_pruned_repositories = []\<rparr>, log4)"
    by (simp add: list_files_def bind_def return_def poll_def edit_os_calls demo_context demo_ctx_def st_def log0_def
        IgnoreBudget_new_def)
  then show ?thesis by (rule that) (simp_all add: a_def b_def demo_path_defs)
qed

theorem listing_confined_witness:
  "\<exists>listed log. list_files edit_os tree_dirs demo_tools (\<lambda>_. 0) demo_core demo_w [] = (Inr listed, log) \<and>
     (\<forall>p\<in>set (lf_paths listed). found demo_tools demo_core demo_w log p) \<and> lf_paths listed \<noteq> []"
proof -
  obtain listed log where r: "list_files edit_os tree_dirs demo_tools (\<lambda>_. 0) demo_core demo_w [] = (Inr listed, log)"
    and "lf_paths listed = [components (u ''/w/a''), components (u ''/w/b'')]"
    by (rule demo_listing)
  then show ?thesis using listing_confined [OF r] by auto
qed

theorem listing_complete_witness:
  "\<exists>listed log. list_files edit_os tree_dirs demo_tools (\<lambda>_. 0) demo_core demo_w [] = (Inr listed, log) \<and>
     (\<exists>r. ReadDir demo_w r \<in> set log)"
proof -
  obtain listed log where r: "list_files edit_os tree_dirs demo_tools (\<lambda>_. 0) demo_core demo_w [] = (Inr listed, log)"
    and "\<not> lf_truncated listed" "lf_ignored listed = 0" "lf_pruned_repositories listed = []"
    by (rule demo_listing)
  then show ?thesis using listing_complete [OF r] by auto
qed

end
