(* ===== verification/File_Search.thy ===== *)
theory File_Search
  imports File_Traversal
begin

text \<open>
  The search tools: \<open>read_operations/grep.rs\<close>, \<open>read_operations/glob.rs\<close>, their preparation and the
  cut of a result to the protocol ceiling in \<open>group.rs\<close>, and what is shown of a result
  (\<open>model_text.rs\<close>), in \<open>crates/mcp-files/src\<close>. The regular expression engine is a parameter: it
  compiles a pattern to a test on lines or refuses it with a message.
\<close>

section \<open>Requests\<close>

definition MAX_GREP_CONTEXT_LINES :: nat where "MAX_GREP_CONTEXT_LINES = 100"

record FileGlobInput =
  gi_pattern :: ustr
  gi_path :: "ustr option"

record FileGrepInput =
  si_pattern :: ustr
  si_path :: "ustr option"
  si_include :: "ustr option"
  si_context_after :: "nat option"
  si_context_before :: "nat option"
  si_context :: "nat option"
  si_head_limit :: "nat option"

definition or_else :: "'a option \<Rightarrow> 'a option \<Rightarrow> 'a option" where
  "or_else a b = (case a of Some x \<Rightarrow> Some x | None \<Rightarrow> b)"

definition unwrap_or :: "'a option \<Rightarrow> 'a \<Rightarrow> 'a" where
  "unwrap_or a d = (case a of Some x \<Rightarrow> x | None \<Rightarrow> d)"

definition after_lines :: "FileGrepInput \<Rightarrow> nat" where
  "after_lines input = unwrap_or (or_else (si_context_after input) (si_context input)) 0"

definition before_lines :: "FileGrepInput \<Rightarrow> nat" where
  "before_lines input = unwrap_or (or_else (si_context_before input) (si_context input)) 0"

definition fold_empty :: "ustr option \<Rightarrow> ustr option" where
  "fold_empty v = (if v = Some [] then None else v)"

definition validate_glob :: "FileGlobInput \<Rightarrow> FilesystemError + FileGlobInput" where
  "validate_glob input =
     (case nonempty (gi_pattern input) (u ''pattern'') of
        Inl e \<Rightarrow> Inl e
      | Inr _ \<Rightarrow> Inr (input\<lparr>gi_path := fold_empty (gi_path input)\<rparr>))"

definition validate_grep :: "FileGrepInput \<Rightarrow> FilesystemError + FileGrepInput" where
  "validate_grep input =
     (case nonempty (si_pattern input) (u ''pattern'') of
        Inl e \<Rightarrow> Inl e
      | Inr _ \<Rightarrow>
          (let clamp = map_option (\<lambda>lines. min lines MAX_GREP_CONTEXT_LINES)
           in Inr (input\<lparr>si_path := fold_empty (si_path input), si_include := fold_empty (si_include input),
                si_context_after := clamp (si_context_after input), si_context_before := clamp (si_context_before input),
                si_context := clamp (si_context input),
                si_head_limit := (if si_head_limit input = Some 0 then None else si_head_limit input)\<rparr>)))"

section \<open>Patterns of the grep tool\<close>

fun contains_unsupported_ecmascript_construct :: "bool \<Rightarrow> bytes \<Rightarrow> bool" where
  "contains_unsupported_ecmascript_construct in_class [] = False"
| "contains_unsupported_ecmascript_construct in_class (b # rest) =
     (if b = 92
      then if \<not> in_class \<and> (case rest of
                n # following \<Rightarrow> 49 \<le> n \<and> n \<le> 57 \<or> n = 107 \<and> starts_with following [60]
              | [] \<Rightarrow> False)
           then True
           else contains_unsupported_ecmascript_construct in_class (drop 1 rest)
      else if b = 91 \<and> \<not> in_class then contains_unsupported_ecmascript_construct True rest
      else if b = 93 \<and> in_class then contains_unsupported_ecmascript_construct False rest
      else if b = 40 \<and> \<not> in_class \<and>
        (starts_with (b # rest) (u ''(?='') \<or> starts_with (b # rest) (u ''(?!'') \<or>
         starts_with (b # rest) (u ''(?<='') \<or> starts_with (b # rest) (u ''(?<!''))
      then True
      else contains_unsupported_ecmascript_construct in_class rest)"

type_synonym Regex = "ustr \<Rightarrow> bool"

definition compile_linear_regex :: "(ustr \<Rightarrow> ustr + Regex) \<Rightarrow> ustr \<Rightarrow> nat \<Rightarrow> FilesystemError + Regex" where
  "compile_linear_regex regex_new pattern most =
     (if js_length pattern > most
      then Inl (InvalidRequest (u ''grep regex exceeds maximum length of '' @ dec most))
      else if contains_unsupported_ecmascript_construct False (encode_utf8 pattern)
      then Inl (InvalidRequest (u ''Unsupported grep regex construct: look-around and backreferences are not available in linear-time mode''))
      else case regex_new pattern of
             Inl message \<Rightarrow> Inl (InvalidRequest (u ''Invalid grep regex: '' @ message))
           | Inr regex \<Rightarrow> Inr regex)"

section \<open>Grep\<close>

record FileGrepRow =
  gr_path :: ustr
  gr_relative_path :: ustr
  gr_line :: nat
  gr_text :: ustr
  gr_matched :: bool

record FileGrepOutput =
  go_cwd :: ustr
  go_relative_path :: ustr
  go_pattern :: ustr
  go_include :: "ustr option"
  go_rows :: "FileGrepRow list"
  go_matches :: nat
  go_files_scanned :: nat
  go_files_listed :: nat
  go_truncated :: bool
  go_ignored :: nat
  go_ignore_complete :: bool
  go_revisions :: "ustr \<rightharpoonup> FileVersion"

record PreparedFileGrep =
  pg_resource :: FileResource
  pg_relative_path :: ustr
  pg_pattern :: ustr
  pg_include :: "ustr option"
  pg_regex :: Regex
  pg_include_matcher :: "GlobMatcher option"
  pg_context_before :: nat
  pg_context_after :: nat
  pg_head_limit :: "nat option"

definition relative_to :: "Path \<Rightarrow> Path \<Rightarrow> ustr" where
  "relative_to rt path =
     join [SLASH] (map component_text (case strip_prefix path rt of Some r \<Rightarrow> r | None \<Rightarrow> path))"

definition base_name :: "Path \<Rightarrow> ustr" where
  "base_name path = (case file_name path of Some name \<Rightarrow> name | None \<Rightarrow> [])"

text \<open>The lines of a file that are searched: cut, and without the empty one after the last line ending.\<close>

definition grep_lines :: "nat \<Rightarrow> ustr \<Rightarrow> ustr list" where
  "grep_lines most content =
     (let lines = map (\<lambda>source. truncate_line source most) (split_text_lines content)
      in if lines \<noteq> [] \<and> last lines = [] then butlast lines else lines)"

fun find_hits :: "Os \<Rightarrow> Regex \<Rightarrow> nat \<Rightarrow> ustr list \<Rightarrow> nat list \<Rightarrow> (FilesystemError, nat list) op" where
  "find_hits os regex index [] hits = return hits"
| "find_hits os regex index (line # lines) hits =
     bind (poll os) (\<lambda>_. find_hits os regex (index + 1) lines (if regex line then hits @ [index] else hits))"

definition grep_row :: "Path \<Rightarrow> ustr \<Rightarrow> ustr list \<Rightarrow> nat list \<Rightarrow> nat \<Rightarrow> FileGrepRow" where
  "grep_row path relative_path lines hits index =
     \<lparr>gr_path = path_text path, gr_relative_path = relative_path, gr_line = index + 1, gr_text = lines ! index,
      gr_matched = (index \<in> set hits)\<rparr>"

text \<open>The rows of the windows around the hits; \<open>next\<close> is the first line not yet emitted.\<close>

fun window_indices :: "nat \<Rightarrow> nat \<Rightarrow> nat \<Rightarrow> nat \<Rightarrow> nat list \<Rightarrow> nat list" where
  "window_indices before after len next [] = []"
| "window_indices before after len next (hit # hits) =
     (let start = max (hit - before) next;
          stop = min (hit + after) (len - 1)
      in if start > stop then window_indices before after len next hits
         else [start ..< stop + 1] @ window_indices before after len (stop + 1) hits)"

record GrepState =
  gs_rows :: "FileGrepRow list"
  gs_matches :: nat
  gs_truncated :: bool
  gs_steps :: nat
  gs_files_scanned :: nat
  gs_revisions :: "ustr \<rightharpoonup> FileVersion"

text \<open>The hits of one file, up to what the cap leaves.\<close>

definition take_hits ::
  "PreparedFileGrep \<Rightarrow> nat \<Rightarrow> Path \<Rightarrow> ustr \<Rightarrow> FileVersion \<Rightarrow> ustr list \<Rightarrow> nat list \<Rightarrow> GrepState \<Rightarrow> GrepState" where
  "take_hits prepared row_cap path relative_path version lines hits st =
     (if hits = [] then st
      else
        (let allowed = min (length hits) (row_cap - gs_matches st);
             kept = take allowed hits
         in st\<lparr>gs_truncated := (gs_truncated st \<or> allowed < length hits), gs_matches := gs_matches st + length kept,
               gs_revisions := (gs_revisions st)(path_text path \<mapsto> version),
               gs_rows := gs_rows st @ map (grep_row path relative_path lines kept)
                 (window_indices (pg_context_before prepared) (pg_context_after prepared) (length lines) 0 kept)\<rparr>))"

text \<open>Reading and searching one file. A file that cannot be read is passed over.\<close>

definition search_file ::
  "Os \<Rightarrow> Tools \<Rightarrow> FilesystemCore \<Rightarrow> PreparedFileGrep \<Rightarrow> nat \<Rightarrow> Path \<Rightarrow> ustr \<Rightarrow> GrepState \<Rightarrow> (FilesystemError, GrepState) op" where
  "search_file os tools core prepared row_cap path relative_path st =
     bind (attempt (read_text_snapshot_required os (t_sha tools) (t_format tools) path (max_file_bytes (core_limits core)))) (\<lambda>r.
     case r of
       Inl Aborted \<Rightarrow> fail Aborted
     | Inl _ \<Rightarrow> return st
     | Inr snapshot \<Rightarrow>
         let lines = grep_lines (max_line_length (core_limits core)) (snap_content snapshot)
         in bind (find_hits os (pg_regex prepared) 0 lines []) (\<lambda>hits.
            return (take_hits prepared row_cap path relative_path (snap_version snapshot) lines hits st)))"

fun grep_files ::
  "Os \<Rightarrow> Tools \<Rightarrow> FilesystemCore \<Rightarrow> PreparedFileGrep \<Rightarrow> nat \<Rightarrow> Path \<Rightarrow> Path list \<Rightarrow> GrepState \<Rightarrow> (FilesystemError, GrepState) op" where
  "grep_files os tools core prepared row_cap cwd [] st = return st"
| "grep_files os tools core prepared row_cap cwd (path # paths) st =
     bind (poll os) (\<lambda>_.
     if gs_matches st = row_cap then return (st\<lparr>gs_truncated := True\<rparr>)
     else
       (let relative_path = relative_to cwd path
        in case (case pg_include_matcher prepared of
                   None \<Rightarrow> (Inr Matched, gs_steps st)
                 | Some m \<Rightarrow> matches_candidate m relative_path (base_name path) (gs_steps st)) of
             (Inl e, _) \<Rightarrow> fail e
           | (Inr Missed, steps) \<Rightarrow> grep_files os tools core prepared row_cap cwd paths (st\<lparr>gs_steps := steps\<rparr>)
           | (Inr BudgetExhausted, steps) \<Rightarrow> return (st\<lparr>gs_steps := steps, gs_truncated := True\<rparr>)
           | (Inr Matched, steps) \<Rightarrow>
               bind (search_file os tools core prepared row_cap path relative_path
                       (st\<lparr>gs_steps := steps, gs_files_scanned := gs_files_scanned st + 1\<rparr>)) (\<lambda>st.
               grep_files os tools core prepared row_cap cwd paths st)))"

definition row_cap_of :: "FilesystemCore \<Rightarrow> PreparedFileGrep \<Rightarrow> nat" where
  "row_cap_of core prepared =
     (case pg_head_limit prepared of
        None \<Rightarrow> max_search_results (core_limits core)
      | Some limit \<Rightarrow> min limit (max_search_results (core_limits core)))"

definition file_grep_prepared ::
  "Os \<Rightarrow> DirCalls \<Rightarrow> Tools \<Rightarrow> (IgnorePattern \<Rightarrow> nat) \<Rightarrow> FilesystemCore \<Rightarrow> PreparedFileGrep \<Rightarrow> (FilesystemError, FileGrepOutput) op" where
  "file_grep_prepared os dirs tools retained core prepared =
     (let requested = res_path (pg_resource prepared)
      in bind (poll os) (\<lambda>_.
         bind (bind (stat os requested) (\<lambda>m.
           case m of
             Inl IoNotFound \<Rightarrow> fail (NotFound (u ''Prepared grep path is no longer available''))
           | Inl k \<Rightarrow> fail (io_path (u ''Cannot inspect'') requested k)
           | Inr metadata \<Rightarrow> return metadata)) (\<lambda>metadata.
         bind (if md_kind metadata = IsFile then return (ListedFiles_single requested)
               else list_files os dirs tools retained core requested) (\<lambda>listed.
         let cwd = (if md_kind metadata = IsFile then unwrap_or (parent requested) requested else requested)
         in bind (grep_files os tools core prepared (row_cap_of core prepared) cwd (lf_paths listed)
                    \<lparr>gs_rows = [], gs_matches = 0, gs_truncated = lf_truncated listed,
                     gs_steps = max_glob_match_steps (core_limits core), gs_files_scanned = 0, gs_revisions = Map.empty\<rparr>) (\<lambda>st.
            return \<lparr>go_cwd = path_text cwd, go_relative_path = pg_relative_path prepared, go_pattern = pg_pattern prepared,
                    go_include = pg_include prepared, go_rows = gs_rows st, go_matches = gs_matches st,
                    go_files_scanned = gs_files_scanned st, go_files_listed = length (lf_paths listed),
                    go_truncated = gs_truncated st, go_ignored = lf_ignored listed,
                    go_ignore_complete = lf_ignore_complete listed, go_revisions = gs_revisions st\<rparr>)))))"

definition prepare_grep ::
  "Os \<Rightarrow> Tools \<Rightarrow> (ustr \<Rightarrow> ustr + Regex) \<Rightarrow> FilesystemCore \<Rightarrow> FileGrepInput \<Rightarrow> (FilesystemError, PreparedFileGrep) op" where
  "prepare_grep os tools regex_new core input =
     bind (poll os) (\<lambda>_.
     bind (lift (validate_grep input)) (\<lambda>input.
     bind (lift (compile_linear_regex regex_new (si_pattern input) (max_regex_length (core_limits core)))) (\<lambda>regex.
     bind (lift (case si_include input of
                   None \<Rightarrow> Inr None
                 | Some p \<Rightarrow> (case GlobMatcher_new p (core_limits core) of Inl e \<Rightarrow> Inl e | Inr m \<Rightarrow> Inr (Some m)))) (\<lambda>include_matcher.
     let requested_path = unwrap_or (si_path input) (u ''.'')
     in bind (resolve_path os tools core requested_path) (\<lambda>path.
        bind (inspect_existing os path requested_path) (\<lambda>metadata.
        bind (if md_kind metadata = IsFile then return Read
              else if md_kind metadata = IsDir then return Traverse
              else fail (InvalidRequest (u ''Path is not a regular file or directory: '' @ requested_path))) (\<lambda>access.
        bind (lift (relative (core_policy core) path)) (\<lambda>relative_path.
        return \<lparr>pg_resource = \<lparr>res_requested_path = requested_path, res_path = path, res_relative_path = relative_path,
                                res_access = access\<rparr>,
                pg_relative_path = relative_path, pg_pattern = si_pattern input, pg_include = si_include input,
                pg_regex = regex, pg_include_matcher = include_matcher, pg_context_before = before_lines input,
                pg_context_after = after_lines input, pg_head_limit = si_head_limit input\<rparr>))))))))"

definition execute_prepared_grep ::
  "Os \<Rightarrow> DirCalls \<Rightarrow> Tools \<Rightarrow> (IgnorePattern \<Rightarrow> nat) \<Rightarrow> FilesystemCore \<Rightarrow> PreparedFileGrep \<Rightarrow> (FilesystemError, FileGrepOutput) op" where
  "execute_prepared_grep os dirs tools retained core prepared =
     bind (poll os) (\<lambda>_.
     bind (revalidate_resource os tools core (pg_resource prepared)) (\<lambda>_.
     file_grep_prepared os dirs tools retained core prepared))"

definition file_grep ::
  "Os \<Rightarrow> DirCalls \<Rightarrow> Tools \<Rightarrow> (ustr \<Rightarrow> ustr + Regex) \<Rightarrow> (IgnorePattern \<Rightarrow> nat) \<Rightarrow> FilesystemCore \<Rightarrow> FileGrepInput \<Rightarrow>
     (FilesystemError, FileGrepOutput) op" where
  "file_grep os dirs tools regex_new retained core input =
     bind (prepare_grep os tools regex_new core input) (execute_prepared_grep os dirs tools retained core)"

section \<open>Glob\<close>

record FileListing =
  fl_path :: ustr
  fl_relative_path :: ustr
  fl_size_bytes :: "nat option"
  fl_line_count :: "nat option"

record FileGlobOutput =
  bo_cwd :: ustr
  bo_relative_path :: ustr
  bo_pattern :: ustr
  bo_files :: "FileListing list"
  bo_count :: nat
  bo_total :: nat
  bo_scan_complete :: bool
  bo_truncated :: bool
  bo_ignored :: nat
  bo_ignore_complete :: bool
  bo_pruned_repositories :: "ustr list"

record PreparedFileGlob =
  pb_resource :: FileResource
  pb_relative_path :: ustr
  pb_pattern :: ustr
  pb_matcher :: GlobMatcher

record GlobState =
  bs_files :: "FileListing list"
  bs_truncated :: bool
  bs_steps :: nat
  bs_total :: nat
  bs_scan_complete :: bool

fun glob_files ::
  "Os \<Rightarrow> Tools \<Rightarrow> FilesystemCore \<Rightarrow> GlobMatcher \<Rightarrow> Path \<Rightarrow> Path list \<Rightarrow> GlobState \<Rightarrow> (FilesystemError, GlobState) op" where
  "glob_files os tools core matcher search [] st = return st"
| "glob_files os tools core matcher search (path # paths) st =
     bind (poll os) (\<lambda>_.
     let relative_path = relative_to search path
     in case matches_candidate matcher relative_path (base_name path) (bs_steps st) of
          (Inl e, _) \<Rightarrow> fail e
        | (Inr Missed, steps) \<Rightarrow> glob_files os tools core matcher search paths (st\<lparr>bs_steps := steps\<rparr>)
        | (Inr BudgetExhausted, steps) \<Rightarrow> return (st\<lparr>bs_steps := steps, bs_truncated := True, bs_scan_complete := False\<rparr>)
        | (Inr Matched, steps) \<Rightarrow>
            let st = st\<lparr>bs_steps := steps, bs_total := bs_total st + 1\<rparr>
            in if length (bs_files st) = max_search_results (core_limits core)
               then glob_files os tools core matcher search paths (st\<lparr>bs_truncated := True\<rparr>)
               else
                 bind (file_listing_metadata os tools core path) (\<lambda>metadata.
                 glob_files os tools core matcher search paths
                   (st\<lparr>bs_files := bs_files st @ [\<lparr>fl_path = path_text path, fl_relative_path = relative_path,
                        fl_size_bytes = lm_size_bytes metadata, fl_line_count = lm_line_count metadata\<rparr>]\<rparr>)))"

definition file_glob_prepared ::
  "Os \<Rightarrow> DirCalls \<Rightarrow> Tools \<Rightarrow> (IgnorePattern \<Rightarrow> nat) \<Rightarrow> FilesystemCore \<Rightarrow> Path \<Rightarrow> ustr \<Rightarrow> ustr \<Rightarrow> GlobMatcher \<Rightarrow>
     (FilesystemError, FileGlobOutput) op" where
  "file_glob_prepared os dirs tools retained core search relative_root pattern matcher =
     bind (list_files os dirs tools retained core search) (\<lambda>listed.
     bind (glob_files os tools core matcher search (lf_paths listed)
             \<lparr>bs_files = [], bs_truncated = lf_truncated listed, bs_steps = max_glob_match_steps (core_limits core),
              bs_total = 0, bs_scan_complete = (\<not> lf_truncated listed)\<rparr>) (\<lambda>st.
     return \<lparr>bo_cwd = path_text search, bo_relative_path = relative_root, bo_pattern = pattern, bo_files = bs_files st,
             bo_count = length (bs_files st), bo_total = bs_total st, bo_scan_complete = bs_scan_complete st,
             bo_truncated = bs_truncated st, bo_ignored = lf_ignored listed, bo_ignore_complete = lf_ignore_complete listed,
             bo_pruned_repositories = map (relative_to search) (lf_pruned_repositories listed)\<rparr>))"

definition prepare_glob :: "Os \<Rightarrow> Tools \<Rightarrow> FilesystemCore \<Rightarrow> FileGlobInput \<Rightarrow> (FilesystemError, PreparedFileGlob) op" where
  "prepare_glob os tools core input =
     bind (poll os) (\<lambda>_.
     bind (lift (validate_glob input)) (\<lambda>input.
     bind (lift (GlobMatcher_new (gi_pattern input) (core_limits core))) (\<lambda>matcher.
     let requested_path = unwrap_or (gi_path input) (u ''.'')
     in bind (resolve_path os tools core requested_path) (\<lambda>path.
        bind (inspect_existing os path requested_path) (\<lambda>metadata.
        if md_kind metadata \<noteq> IsDir
        then fail (InvalidRequest (u ''glob path must be a directory: '' @ requested_path))
        else
          bind (lift (relative (core_policy core) path)) (\<lambda>relative_path.
          return \<lparr>pb_resource = \<lparr>res_requested_path = requested_path, res_path = path, res_relative_path = relative_path,
                                  res_access = Traverse\<rparr>,
                  pb_relative_path = relative_path, pb_pattern = gi_pattern input, pb_matcher = matcher\<rparr>))))))"

definition execute_prepared_glob ::
  "Os \<Rightarrow> DirCalls \<Rightarrow> Tools \<Rightarrow> (IgnorePattern \<Rightarrow> nat) \<Rightarrow> FilesystemCore \<Rightarrow> PreparedFileGlob \<Rightarrow> (FilesystemError, FileGlobOutput) op" where
  "execute_prepared_glob os dirs tools retained core prepared =
     bind (poll os) (\<lambda>_.
     bind (revalidate_resource os tools core (pb_resource prepared)) (\<lambda>_.
     file_glob_prepared os dirs tools retained core (res_path (pb_resource prepared)) (pb_relative_path prepared)
       (pb_pattern prepared) (pb_matcher prepared)))"

definition file_glob ::
  "Os \<Rightarrow> DirCalls \<Rightarrow> Tools \<Rightarrow> (IgnorePattern \<Rightarrow> nat) \<Rightarrow> FilesystemCore \<Rightarrow> FileGlobInput \<Rightarrow> (FilesystemError, FileGlobOutput) op" where
  "file_glob os dirs tools retained core input =
     bind (prepare_glob os tools core input) (execute_prepared_glob os dirs tools retained core)"

section \<open>What is shown\<close>

definition append_line :: "ustr \<Rightarrow> ustr \<Rightarrow> ustr" where
  "append_line shown line = (if shown \<noteq> [] then shown @ [NL] else shown) @ line"

definition append_traversal_notes :: "ustr \<Rightarrow> nat \<Rightarrow> bool \<Rightarrow> ustr list \<Rightarrow> ustr" where
  "append_traversal_notes shown ignored ignore_complete pruned_repositories =
     (let notes = (if ignored > 0 then [dec ignored @ u '' entries excluded by .gitignore''] else []) @
                  (if \<not> ignore_complete then [u ''ignore rules were only partly read, so the exclusions are incomplete''] else []) @
                  (if pruned_repositories \<noteq> []
                   then [u ''not traversed because they are separate repositories: '' @ join (u '', '') pruned_repositories @
                         u ''; pass one as `path` to search it''] else [])
      in if notes = [] then shown else append_line shown (u ''['' @ join (u ''; '') notes @ u '']''))"

definition read_model_text :: "FileReadOutput \<Rightarrow> ustr" where
  "read_model_text output =
     (case output of ReadFileOutput t \<Rightarrow> ft_numbered_text t | ReadDirectoryOutput d \<Rightarrow> join [NL] (dt_entries d))"

definition glob_model_text :: "FileGlobOutput \<Rightarrow> ustr" where
  "glob_model_text output =
     (let shown = join [NL] (map fl_relative_path (bo_files output));
          shown = (if bo_truncated output
                  then append_line shown
                    (if bo_scan_complete output
                     then u ''[truncated: showing '' @ dec (bo_count output) @ u '' of '' @ dec (bo_total output) @ u '' matching files]''
                     else if bo_total output > bo_count output
                     then u ''[truncated: showing '' @ dec (bo_count output) @ u '' of at least '' @ dec (bo_total output) @
                          u '' matching files; scan stopped early]''
                     else u ''[truncated: showing '' @ dec (bo_count output) @ u '' matching files; scan stopped early]'')
                  else shown)
      in append_traversal_notes shown (bo_ignored output) (bo_ignore_complete output) (bo_pruned_repositories output))"

fun grep_text_lines :: "bool \<Rightarrow> (ustr \<times> nat) option \<Rightarrow> FileGrepRow list \<Rightarrow> ustr list" where
  "grep_text_lines windowed previous [] = []"
| "grep_text_lines windowed previous (row # rows) =
     (let adjacent = (case previous of None \<Rightarrow> False | Some (path, line) \<Rightarrow> path = gr_relative_path row \<and> line + 1 = gr_line row)
      in (if windowed \<and> previous \<noteq> None \<and> \<not> adjacent then [u ''--''] else []) @
         (gr_relative_path row @ u '':'' @ dec (gr_line row) @ (if gr_matched row then u '':'' else u ''-'') @ u '' '' @ gr_text row) #
         grep_text_lines windowed (Some (gr_relative_path row, gr_line row)) rows)"

definition grep_model_text :: "FileGrepOutput \<Rightarrow> ustr" where
  "grep_model_text output =
     (let windowed = list_ex (\<lambda>row. \<not> gr_matched row) (go_rows output);
          shown = join [NL] (grep_text_lines windowed None (go_rows output));
          shown = (if go_truncated output
                  then append_line shown (u ''[truncated: showing '' @ dec (go_matches output) @ u '' matches from '' @
                         dec (go_files_scanned output) @ u '' of '' @ dec (go_files_listed output) @ u '' files searched]'')
                  else shown)
      in append_traversal_notes shown (go_ignored output) (go_ignore_complete output) [])"

section \<open>The protocol ceiling\<close>

definition glob_retain_prefix :: "FileGlobOutput \<Rightarrow> nat \<Rightarrow> FileGlobOutput" where
  "glob_retain_prefix output retained =
     (let rows = take retained (bo_files output) in output\<lparr>bo_files := rows, bo_count := length rows, bo_truncated := True\<rparr>)"

definition grep_retain_prefix :: "FileGrepOutput \<Rightarrow> nat \<Rightarrow> FileGrepOutput" where
  "grep_retain_prefix output retained =
     (let rows = take retained (go_rows output) in output\<lparr>go_rows := rows, go_matches := length rows, go_truncated := True\<rparr>)"

text \<open>The cut of a result with \<open>len\<close> rows; \<open>response_size\<close> is the serialized size, which may fail.\<close>

definition fit_search_result :: "('o \<Rightarrow> 'e + nat) \<Rightarrow> ('o \<Rightarrow> nat) \<Rightarrow> ('o \<Rightarrow> nat \<Rightarrow> 'o) \<Rightarrow> 'o \<Rightarrow> 'e + 'o" where
  "fit_search_result response_size returned_len retain_prefix output =
     (case response_size output of
        Inl e \<Rightarrow> Inl e
      | Inr n \<Rightarrow>
          if n \<le> MCP_RAW_RESULT_CEILING_BYTES then Inr output
          else
            (case bisect (\<lambda>candidate. case response_size (retain_prefix output candidate) of
                            Inl e \<Rightarrow> Inl e | Inr n \<Rightarrow> Inr (n \<le> MCP_RAW_RESULT_CEILING_BYTES)) 0 (returned_len output) of
               Inl e \<Rightarrow> Inl e
             | Inr lower \<Rightarrow> Inr (retain_prefix output lower)))"

definition fit_glob_output :: "(FileGlobOutput \<Rightarrow> 'e + nat) \<Rightarrow> FileGlobOutput \<Rightarrow> 'e + FileGlobOutput" where
  "fit_glob_output response_size output = fit_search_result response_size (length \<circ> bo_files) glob_retain_prefix output"

definition fit_grep_output :: "(FileGrepOutput \<Rightarrow> 'e + nat) \<Rightarrow> FileGrepOutput \<Rightarrow> 'e + FileGrepOutput" where
  "fit_grep_output response_size output = fit_search_result response_size (length \<circ> go_rows) grep_retain_prefix output"

section \<open>The windows of a file\<close>

text \<open>A line is shown when it is within the context of some hit.\<close>

definition near :: "nat \<Rightarrow> nat \<Rightarrow> nat list \<Rightarrow> nat \<Rightarrow> bool" where
  "near before after hits i \<longleftrightarrow> (\<exists>h\<in>set hits. h \<le> i + before \<and> i \<le> h + after)"

lemma near_self: "x \<in> set hits \<Longrightarrow> near before after hits x"
  by (auto simp: near_def intro!: bexI [of _ x])

lemma window_indices_from:
  "sorted hits \<Longrightarrow> \<forall>h\<in>set hits. h < len \<Longrightarrow>
     window_indices before after len next hits = filter (\<lambda>i. next \<le> i \<and> near before after hits i) [0..<len]"
proof (induction hits arbitrary: "next")
  case Nil
  then show ?case by (simp add: near_def)
next
  case (Cons hit hits)
  define start where "start = max (hit - before) next"
  define stop where "stop = min (hit + after) (len - 1)"
  have later: "\<forall>h\<in>set hits. hit \<le> h" "hit < len" using Cons.prems by auto
  have IH: "window_indices before after len n hits = filter (\<lambda>i. n \<le> i \<and> near before after hits i) [0..<len]" for n
    using Cons by simp
  have split: "near before after (hit # hits) i \<longleftrightarrow> hit \<le> i + before \<and> i \<le> hit + after \<or> near before after hits i" for i
    by (auto simp: near_def)
  have far: "hit \<le> i + before" if "near before after hits i" for i using that later(1) by (auto simp: near_def)
  show ?case
  proof (cases "start > stop")
    case True
    then have "window_indices before after len next (hit # hits) = window_indices before after len next hits"
      by (simp add: start_def stop_def Let_def)
    also have "\<dots> = filter (\<lambda>i. next \<le> i \<and> near before after (hit # hits) i) [0..<len]"
      unfolding IH using True later(2) by (intro filter_cong) (auto simp: split start_def stop_def)
    finally show ?thesis .
  next
    case False
    then have "window_indices before after len next (hit # hits) = [start ..< stop + 1] @ window_indices before after len (stop + 1) hits"
      by (simp add: start_def stop_def Let_def)
    also have "\<dots> = filter (\<lambda>i. next \<le> i \<and> near before after (hit # hits) i) [0..<len]"
      unfolding IH
    proof (rule sorted_distinct_set_unique)
      show "set ([start..<stop + 1] @ filter (\<lambda>i. stop + 1 \<le> i \<and> near before after hits i) [0..<len]) =
        set (filter (\<lambda>i. next \<le> i \<and> near before after (hit # hits) i) [0..<len])"
      proof (rule set_eqI)
        fix i
        have "start \<le> i \<and> i < stop + 1 \<or> stop + 1 \<le> i \<and> near before after hits i \<and> i < len \<longleftrightarrow>
          (next \<le> i \<and> (hit \<le> i + before \<and> i \<le> hit + after \<or> near before after hits i)) \<and> i < len"
          using False later(2) far [of i] unfolding start_def stop_def
          by (cases "near before after hits i") (simp; linarith)+
        then show "i \<in> set ([start..<stop + 1] @ filter (\<lambda>i. stop + 1 \<le> i \<and> near before after hits i) [0..<len]) \<longleftrightarrow>
          i \<in> set (filter (\<lambda>i. next \<le> i \<and> near before after (hit # hits) i) [0..<len])"
          by (auto simp: split)
      qed
    qed (use False in \<open>auto simp: sorted_append sorted_wrt_filter\<close>)
    finally show ?thesis .
  qed
qed

text \<open>So the rows of a file are the lines within the context of a hit, each once and in order.\<close>

lemma window_indices_exact:
  "sorted hits \<Longrightarrow> \<forall>h\<in>set hits. h < len \<Longrightarrow> window_indices before after len 0 hits = filter (near before after hits) [0..<len]"
  using window_indices_from [of hits len before after 0] by simp

lemma find_hits_exact:
  "find_hits os regex index lines hits log = (Inr all_hits, log') \<Longrightarrow>
     all_hits = hits @ map (\<lambda>i. index + i) (filter (\<lambda>i. regex (lines ! i)) [0..<length lines])"
proof (induction lines arbitrary: index hits log)
  case Nil
  then show ?case by (simp add: return_def)
next
  case (Cons line lines)
  have "[0..<length (line # lines)] = 0 # map Suc [0..<length lines]"
    by (metis length_Cons map_Suc_upt upt_conv_Cons zero_less_Suc)
  then have "filter (\<lambda>i. regex ((line # lines) ! i)) [0..<length (line # lines)] =
    (if regex line then [0] else []) @ map Suc (filter (\<lambda>i. regex (lines ! i)) [0..<length lines])"
    by (simp add: filter_map comp_def)
  moreover obtain log1 where "find_hits os regex (index + 1) lines (if regex line then hits @ [index] else hits) log1 = (Inr all_hits, log')"
    using Cons.prems by (auto elim!: bindE)
  from Cons.IH [OF this] have "all_hits = (if regex line then hits @ [index] else hits) @
      map (\<lambda>i. Suc index + i) (filter (\<lambda>i. regex (lines ! i)) [0..<length lines])" by simp
  ultimately show ?case by (auto simp: comp_def)
qed

section \<open>What a grep returns\<close>

text \<open>A searched file: its path, its lines, and the hits that were kept.\<close>

type_synonym Searched = "Path \<times> ustr list \<times> nat list"

definition file_rows :: "nat \<Rightarrow> nat \<Rightarrow> Path \<Rightarrow> Searched \<Rightarrow> FileGrepRow list" where
  "file_rows before after cwd s =
     (case s of (path, lines, hits) \<Rightarrow>
        map (grep_row path (relative_to cwd path) lines hits) (filter (near before after hits) [0..<length lines]))"

definition hit_lines :: "Regex \<Rightarrow> ustr list \<Rightarrow> nat list" where
  "hit_lines regex lines = filter (\<lambda>i. regex (lines ! i)) [0..<length lines]"

lemma sorted_take_hits: "sorted (take n (hit_lines regex lines))" "distinct (take n (hit_lines regex lines))"
  "\<forall>h\<in>set (take n (hit_lines regex lines)). h < length lines"
  by (auto simp: hit_lines_def sorted_wrt_filter intro: sorted_wrt_take dest: in_set_takeD)

lemma matched_rows:
  "length (filter gr_matched (file_rows before after cwd (path, lines, take n (hit_lines regex lines)))) = length (take n (hit_lines regex lines))"
proof -
  let ?hits = "take n (hit_lines regex lines)"
  have "filter (\<lambda>i. i \<in> set ?hits) (filter (near before after ?hits) [0..<length lines]) = ?hits"
    by (rule sorted_distinct_set_unique) (use sorted_take_hits [of n regex lines] in \<open>auto simp: near_self sorted_wrt_filter\<close>)
  then have "length (filter (gr_matched \<circ> grep_row path (relative_to cwd path) lines ?hits)
      (filter (near before after ?hits) [0..<length lines])) = length ?hits"
    by (simp add: grep_row_def comp_def)
  then show ?thesis by (simp add: file_rows_def filter_map)
qed

text \<open>
  What became of a listed file: left out by the include pattern, not readable as text, or searched,
  with its lines (each cut to the greatest length) and the hits that were kept.
\<close>

datatype Fate = Excluded | Unreadable | Looked_at "ustr list" "nat list"

definition fate_rows :: "nat \<Rightarrow> nat \<Rightarrow> Path \<Rightarrow> Path \<times> Fate \<Rightarrow> FileGrepRow list" where
  "fate_rows before after cwd f =
     (case f of (path, Looked_at lines hits) \<Rightarrow> file_rows before after cwd (path, lines, hits) | _ \<Rightarrow> [])"

definition fate_hits :: "Path \<times> Fate \<Rightarrow> nat" where
  "fate_hits f = (case snd f of Looked_at lines hits \<Rightarrow> length hits | _ \<Rightarrow> 0)"

definition included :: "PreparedFileGrep \<Rightarrow> Path \<Rightarrow> Path \<Rightarrow> MatchOutcome \<Rightarrow> bool" where
  "included prepared cwd path verdict \<longleftrightarrow>
     (case pg_include_matcher prepared of
        None \<Rightarrow> verdict = Matched
      | Some m \<Rightarrow> (\<exists>steps. fst (matches_candidate m (relative_to cwd path) (base_name path) steps) = Inr verdict))"

text \<open>
  A fate that is true of the call: the pattern answered so, the read failed and was recorded, or the
  lines are those of bytes that were read and the hits the first matching ones, all of them unless
  \<open>full\<close> says that the cap was reached.
\<close>

definition true_fate ::
  "Os \<Rightarrow> Tools \<Rightarrow> FilesystemCore \<Rightarrow> PreparedFileGrep \<Rightarrow> Path \<Rightarrow> Event list \<Rightarrow> bool \<Rightarrow> bool \<Rightarrow> Path \<times> Fate \<Rightarrow> bool" where
  "true_fate os tools core prepared cwd log full cut_short f \<longleftrightarrow>
     (case f of
        (path, Excluded) \<Rightarrow> included prepared cwd path Missed
      | (path, Unreadable) \<Rightarrow>
          included prepared cwd path Matched \<and>
          (\<exists>before e during rest. read_text_snapshot_required os (t_sha tools) (t_format tools) path (max_file_bytes (core_limits core)) before =
             (Inl e, during) \<and> e \<noteq> Aborted \<and> log = during @ rest)
      | (path, Looked_at lines hits) \<Rightarrow>
          included prepared cwd path Matched \<and>
          (\<exists>bs. ReadFile path (Inr bs) \<in> set log \<and> lines = grep_lines (max_line_length (core_limits core)) (decode_text bs)) \<and>
          (\<exists>n. hits = take n (hit_lines (pg_regex prepared) lines)) \<and>
          (hits \<noteq> hit_lines (pg_regex prepared) lines \<longrightarrow> full \<and> cut_short))"

lemma unlisted_pure [simp]: "unlisted (fail e)" "unlisted (lift r)"
  by (simp_all add: unlisted_def op_defs)

lemma unlisted_stat [simp]: "unlisted (stat os p)"
  by (auto simp: unlisted_def op_defs Let_def)

lemma unlisted_attempt: "unlisted m \<Longrightarrow> unlisted (attempt m)"
  by (auto simp: unlisted_def attempt_def split: prod.splits) (metis snd_conv)

lemma unlisted_snapshot [simp]: "unlisted (read_text_snapshot_required os sha fmt p n)"
  unfolding read_text_snapshot_required_def read_file_snapshot_required_def File_Text.read_bounded_def or_io_def done_or_io_def
  by (auto simp: Let_def intro!: unlisted_bind split: sum.splits option.splits)

lemma unlisted_find_hits [simp]: "unlisted (find_hits os regex index lines hits)"
  by (induction os regex index lines hits rule: find_hits.induct) (auto intro!: unlisted_bind)

lemma unlisted_search_file [simp]: "unlisted (search_file os tools core prepared row_cap path relative_path st)"
  unfolding search_file_def by (auto simp: Let_def intro!: unlisted_bind unlisted_attempt split: sum.splits FilesystemError.splits)

lemma file_rows_none [simp]: "file_rows before after cwd (path, lines, []) = []"
  by (simp add: file_rows_def near_def)

text \<open>One file, by its fate.\<close>

lemma search_file_exact:
  assumes "search_file os tools core prepared row_cap path (relative_to cwd path) st log = (Inr st', log')"
    and "gs_matches st \<le> row_cap" and "included prepared cwd path Matched"
  obtains fate where "fate \<noteq> Excluded"
    "gs_rows st' = gs_rows st @ fate_rows (pg_context_before prepared) (pg_context_after prepared) cwd (path, fate)"
    "gs_matches st' = gs_matches st + fate_hits (path, fate)" "gs_matches st' \<le> row_cap" "gs_truncated st \<longrightarrow> gs_truncated st'"
    "gs_files_scanned st' = gs_files_scanned st"
    "true_fate os tools core prepared cwd log' (gs_matches st' = row_cap) (gs_truncated st') (path, fate)"
proof -
  let ?read = "read_text_snapshot_required os (t_sha tools) (t_format tools) path (max_file_bytes (core_limits core))"
  obtain r log1 where r: "?read log = (r, log1)" by fastforce
  show ?thesis
  proof (cases r)
    case (Inl e)
    then have "st' = st \<and> e \<noteq> Aborted \<and> log' = log1" using assms(1) r
      by (cases e) (auto simp: search_file_def bind_def attempt_def return_def fail_def)
    moreover from this have "true_fate os tools core prepared cwd log' (gs_matches st' = row_cap) (gs_truncated st') (path, Unreadable)"
      using r Inl assms(3) unfolding true_fate_def prod.case Fate.case by (metis append_Nil2)
    ultimately show ?thesis using assms(2)
      by (intro that [of Unreadable]) (auto simp: fate_rows_def fate_hits_def)
  next
    case (Inr snapshot)
    define lines where "lines = grep_lines (max_line_length (core_limits core)) (snap_content snapshot)"
    obtain hits where h: "find_hits os (pg_regex prepared) 0 lines [] log1 = (Inr hits, log')"
      and st': "st' = take_hits prepared row_cap path (relative_to cwd path) (snap_version snapshot) lines hits st"
      using assms(1) r Inr unfolding search_file_def lines_def
      by (auto simp: bind_def attempt_def return_def Let_def split: prod.splits sum.splits)
    have hits: "hits = hit_lines (pg_regex prepared) lines" using find_hits_exact [OF h] by (simp add: hit_lines_def)
    obtain bs v where "read_file_snapshot_required os (t_sha tools) path (max_file_bytes (core_limits core)) log = (Inr (bs, v), log1)"
      and c: "snap_content snapshot = decode_text bs"
      using r Inr unfolding read_text_snapshot_required_def by (auto elim!: bindE liftE simp: return_def split: prod.splits)
    then have "ReadFile path (Inr bs) \<in> set log1" by (auto elim!: snapshot_ok simp: observed_def)
    then have bs: "ReadFile path (Inr bs) \<in> set log'" using unlistedD [OF unlisted_find_hits h] by auto
    define n where "n = min (length hits) (row_cap - gs_matches st)"
    have "window_indices (pg_context_before prepared) (pg_context_after prepared) (length lines) 0 (take n hits) =
      filter (near (pg_context_before prepared) (pg_context_after prepared) (take n hits)) [0..<length lines]"
      unfolding hits by (rule window_indices_exact) (use sorted_take_hits in auto)
    then have rows: "gs_rows st' = gs_rows st @ file_rows (pg_context_before prepared) (pg_context_after prepared) cwd (path, lines, take n hits)"
      by (cases "hits = []") (simp_all add: st' take_hits_def Let_def n_def file_rows_def [of _ _ _ "(path, lines, take _ _)"])
    have cap: "gs_matches st' = gs_matches st + length (take n hits)" "take n hits \<noteq> hits \<longrightarrow> gs_matches st' = row_cap \<and> gs_truncated st'"
      "gs_truncated st \<longrightarrow> gs_truncated st'" "gs_files_scanned st' = gs_files_scanned st"
      using assms(2) by (auto simp: st' take_hits_def Let_def n_def min_def split: if_splits)
    have "true_fate os tools core prepared cwd log' (gs_matches st' = row_cap) (gs_truncated st') (path, Looked_at lines (take n hits))"
      using assms(3) bs c cap(2) by (auto simp: true_fate_def lines_def hits)
    then show ?thesis using rows cap assms(2)
      by (intro that [of "Looked_at lines (take n hits)"]) (auto simp: fate_rows_def fate_hits_def n_def)
  qed
qed

lemma true_fate_later:
  "true_fate os tools core prepared cwd log full b f \<Longrightarrow> (full \<longrightarrow> full') \<Longrightarrow> (b \<longrightarrow> b') \<Longrightarrow>
     true_fate os tools core prepared cwd (log @ es) full' b' f"
  unfolding true_fate_def by (fastforce split: prod.splits Fate.splits)

text \<open>The fates of the first of the listed files, all of them when nothing was cut short.\<close>

definition grep_outcome ::
  "Os \<Rightarrow> Tools \<Rightarrow> FilesystemCore \<Rightarrow> PreparedFileGrep \<Rightarrow> nat \<Rightarrow> Path \<Rightarrow> Path list \<Rightarrow> GrepState \<Rightarrow> GrepState \<Rightarrow> Event list \<Rightarrow> (Path \<times> Fate) list \<Rightarrow> bool" where
  "grep_outcome os tools core prepared row_cap cwd paths st st' log fates \<longleftrightarrow>
     gs_rows st' = gs_rows st @ concat (map (fate_rows (pg_context_before prepared) (pg_context_after prepared) cwd) fates) \<and>
     gs_matches st' = gs_matches st + sum_list (map fate_hits fates) \<and> gs_matches st' \<le> row_cap \<and>
     (gs_truncated st \<longrightarrow> gs_truncated st') \<and>
     (\<exists>rest. paths = map fst fates @ rest \<and> (\<not> gs_truncated st' \<longrightarrow> rest = [])) \<and>
     (\<forall>f\<in>set fates. true_fate os tools core prepared cwd log (gs_matches st' = row_cap) (gs_truncated st') f) \<and>
     gs_files_scanned st' = gs_files_scanned st + length (filter (\<lambda>f. snd f \<noteq> Excluded) fates)"

lemma grep_outcome_none:
  "gs_matches st \<le> row_cap \<Longrightarrow> gs_rows st' = gs_rows st \<Longrightarrow> gs_matches st' = gs_matches st \<Longrightarrow> (gs_truncated st \<longrightarrow> gs_truncated st') \<Longrightarrow>
     gs_files_scanned st' = gs_files_scanned st \<Longrightarrow> (\<not> gs_truncated st' \<longrightarrow> paths = []) \<Longrightarrow>
     grep_outcome os tools core prepared row_cap cwd paths st st' log []"
  by (simp add: grep_outcome_def)

lemma unlisted_grep_files [simp]: "unlisted (grep_files os tools core prepared row_cap cwd paths st)"
  by (induction paths arbitrary: st) (auto simp: Let_def intro!: unlisted_bind split: sum.splits MatchOutcome.splits prod.splits)

lemma grep_outcome_Cons:
  assumes rest: "grep_outcome os tools core prepared row_cap cwd paths st1 st' (log1 @ es) fates"
    and "gs_rows st1 = gs_rows st @ fate_rows (pg_context_before prepared) (pg_context_after prepared) cwd (path, fate)"
    and "gs_matches st1 = gs_matches st + fate_hits (path, fate)" "gs_truncated st \<longrightarrow> gs_truncated st1"
    and "gs_files_scanned st1 = gs_files_scanned st + (if fate = Excluded then 0 else 1)"
    and fate: "true_fate os tools core prepared cwd log1 (gs_matches st1 = row_cap) (gs_truncated st1) (path, fate)"
  shows "grep_outcome os tools core prepared row_cap cwd (path # paths) st st' (log1 @ es) ((path, fate) # fates)"
proof -
  have "gs_matches st1 = row_cap \<longrightarrow> gs_matches st' = row_cap" "gs_truncated st1 \<longrightarrow> gs_truncated st'"
    using rest by (auto simp: grep_outcome_def)
  from true_fate_later [OF fate this]
  have "true_fate os tools core prepared cwd (log1 @ es) (gs_matches st' = row_cap) (gs_truncated st') (path, fate)" .
  then show ?thesis using rest assms(2-5) unfolding grep_outcome_def by auto
qed

lemma grep_files_exact:
  "grep_files os tools core prepared row_cap cwd paths st log = (Inr st', log') \<Longrightarrow> gs_matches st \<le> row_cap \<Longrightarrow>
     \<exists>fates. grep_outcome os tools core prepared row_cap cwd paths st st' log' fates"
proof (induction paths arbitrary: st log)
  case Nil
  then have "st' = st" "gs_matches st \<le> row_cap" by (simp_all add: return_def)
  then show ?case by (intro exI [of _ "[]"] grep_outcome_none) auto
next
  case (Cons path paths)
  let ?verdict = "case pg_include_matcher prepared of None \<Rightarrow> (Inr Matched, gs_steps st)
    | Some m \<Rightarrow> matches_candidate m (relative_to cwd path) (base_name path) (gs_steps st)"
  obtain v steps where v: "?verdict = (v, steps)" by fastforce
  show ?case
  proof (cases "gs_matches st = row_cap")
    case True
    then have "st' = st\<lparr>gs_truncated := True\<rparr>" using Cons.prems(1) by (auto elim!: bindE simp: return_def)
    then show ?thesis using Cons.prems(2) by (intro exI [of _ "[]"] grep_outcome_none) auto
  next
    case False
    have run: "\<exists>log1. (case (v, steps) of
             (Inl e, _) \<Rightarrow> fail e
           | (Inr Missed, steps) \<Rightarrow> grep_files os tools core prepared row_cap cwd paths (st\<lparr>gs_steps := steps\<rparr>)
           | (Inr BudgetExhausted, steps) \<Rightarrow> return (st\<lparr>gs_steps := steps, gs_truncated := True\<rparr>)
           | (Inr Matched, steps) \<Rightarrow>
               bind (search_file os tools core prepared row_cap path (relative_to cwd path)
                       (st\<lparr>gs_steps := steps, gs_files_scanned := gs_files_scanned st + 1\<rparr>)) (\<lambda>st.
               grep_files os tools core prepared row_cap cwd paths st)) log1 = (Inr st', log')"
      using Cons.prems(1) False v by (auto elim!: bindE simp: Let_def)
    consider (missed) "v = Inr Missed" | (budget) "v = Inr BudgetExhausted" | (matched) "v = Inr Matched"
      using run by (cases v) (auto simp: fail_def intro: MatchOutcome.exhaust)
    then show ?thesis
    proof cases
      case missed
      then obtain log1 where g: "grep_files os tools core prepared row_cap cwd paths (st\<lparr>gs_steps := steps\<rparr>) log1 = (Inr st', log')"
        using run by auto
      from Cons.IH [OF this] Cons.prems(2) obtain fates where
        "grep_outcome os tools core prepared row_cap cwd paths (st\<lparr>gs_steps := steps\<rparr>) st' log' fates" by auto
      moreover have "included prepared cwd path Missed"
        using v missed unfolding included_def by (auto split: option.splits) (metis fst_conv)
      ultimately have "grep_outcome os tools core prepared row_cap cwd (path # paths) st st' ([] @ log') ((path, Excluded) # fates)"
        by (intro grep_outcome_Cons [of _ _ _ _ _ _ _ "st\<lparr>gs_steps := steps\<rparr>"]) (simp_all add: fate_rows_def fate_hits_def true_fate_def)
      then show ?thesis by auto
    next
      case budget
      then show ?thesis using run Cons.prems(2) by (intro exI [of _ "[]"] grep_outcome_none) (auto simp: return_def)
    next
      case matched
      then obtain log1 log2 st1 where s: "search_file os tools core prepared row_cap path (relative_to cwd path)
            (st\<lparr>gs_steps := steps, gs_files_scanned := gs_files_scanned st + 1\<rparr>) log1 = (Inr st1, log2)"
        and g: "grep_files os tools core prepared row_cap cwd paths st1 log2 = (Inr st', log')"
        using run by (auto elim!: bindE)
      have m: "gs_matches (st\<lparr>gs_steps := steps, gs_files_scanned := gs_files_scanned st + 1\<rparr>) \<le> row_cap" using Cons.prems(2) by simp
      have i: "included prepared cwd path Matched"
        using v matched unfolding included_def by (auto split: option.splits) (metis fst_conv)
      obtain es where es: "log' = log2 @ es" using unlistedD [OF unlisted_grep_files g] by blast
      from s m i obtain fate where f: "fate \<noteq> Excluded"
        "gs_rows st1 = gs_rows st @ fate_rows (pg_context_before prepared) (pg_context_after prepared) cwd (path, fate)"
        "gs_matches st1 = gs_matches st + fate_hits (path, fate)" "gs_matches st1 \<le> row_cap" "gs_truncated st \<longrightarrow> gs_truncated st1"
        "gs_files_scanned st1 = gs_files_scanned st + 1"
        "true_fate os tools core prepared cwd log2 (gs_matches st1 = row_cap) (gs_truncated st1) (path, fate)"
        by (rule search_file_exact) auto
      from Cons.IH [OF g f(4)] obtain fates where "grep_outcome os tools core prepared row_cap cwd paths st1 st' log' fates" by blast
      then have "grep_outcome os tools core prepared row_cap cwd (path # paths) st st' log' ((path, fate) # fates)"
        unfolding es using f by (intro grep_outcome_Cons) auto
      then show ?thesis by blast
    qed
  qed
qed

lemma matched_fates:
  "\<forall>f\<in>set fates. true_fate os tools core prepared cwd log full b f \<Longrightarrow>
     length (filter gr_matched (concat (map (fate_rows before after cwd) fates))) = sum_list (map fate_hits fates)"
proof (induction fates)
  case (Cons f fates)
  have "length (filter gr_matched (fate_rows before after cwd f)) = fate_hits f"
  proof (cases "snd f")
    case (Looked_at lines hits)
    then have f: "f = (fst f, Looked_at lines hits)" by (metis prod.collapse)
    have "true_fate os tools core prepared cwd log full b (fst f, Looked_at lines hits)" using Cons.prems f by simp
    then obtain n where "hits = take n (hit_lines (pg_regex prepared) lines)" by (auto simp: true_fate_def)
    then show ?thesis using matched_rows [of before after cwd "fst f" lines n "pg_regex prepared"]
      by (subst (1 2) f) (simp add: fate_rows_def fate_hits_def)
  qed (auto simp: fate_rows_def fate_hits_def split: prod.splits)
  then show ?case using Cons by simp
qed simp

text \<open>The files a grep is to look at: the one that was asked for, or those the traversal lists.\<close>

definition grep_listing ::
  "Os \<Rightarrow> DirCalls \<Rightarrow> Tools \<Rightarrow> (IgnorePattern \<Rightarrow> nat) \<Rightarrow> FilesystemCore \<Rightarrow> Path \<Rightarrow> Event list \<Rightarrow> Path \<Rightarrow> ListedFiles \<Rightarrow> bool" where
  "grep_listing os dirs tools retained core requested log cwd listed \<longleftrightarrow>
     (\<exists>metadata. Stat requested (Inr metadata) \<in> set log \<and>
        (if md_kind metadata = IsFile
         then listed = ListedFiles_single requested \<and> cwd = unwrap_or (parent requested) requested
         else cwd = requested \<and>
           (\<exists>before during rest. list_files os dirs tools retained core requested before = (Inr listed, during) \<and> log = during @ rest)))"

lemma grep_listed:
  assumes "file_grep_prepared os dirs tools retained core prepared log = (Inr out, log')"
  obtains cwd log1 st and listed :: ListedFiles where
    "grep_listing os dirs tools retained core (res_path (pg_resource prepared)) log1 cwd listed"
    "grep_files os tools core prepared (row_cap_of core prepared) cwd (lf_paths listed)
       \<lparr>gs_rows = [], gs_matches = 0, gs_truncated = lf_truncated listed,
        gs_steps = max_glob_match_steps (core_limits core), gs_files_scanned = 0, gs_revisions = Map.empty\<rparr> log1 = (Inr st, log')"
    "go_rows out = gs_rows st" "go_matches out = gs_matches st" "go_truncated out = gs_truncated st"
    "go_files_scanned out = gs_files_scanned st" "go_files_listed out = length (lf_paths listed)"
proof -
  let ?p = "res_path (pg_resource prepared)"
  define inspect :: "(FilesystemError, Metadata) op" where "inspect = bind (stat os ?p) (\<lambda>m.
           case m of
             Inl IoNotFound \<Rightarrow> fail (NotFound (u ''Prepared grep path is no longer available''))
           | Inl k \<Rightarrow> fail (io_path (u ''Cannot inspect'') ?p k)
           | Inr metadata \<Rightarrow> return metadata)"
  obtain metadata logp log0 log1 st and listed :: ListedFiles where
    i: "inspect logp = (Inr metadata, log0)"
    and l: "(if md_kind metadata = IsFile then return (ListedFiles_single ?p) else list_files os dirs tools retained core ?p) log0 = (Inr listed, log1)"
    and g: "grep_files os tools core prepared (row_cap_of core prepared)
        (if md_kind metadata = IsFile then unwrap_or (parent ?p) ?p else ?p) (lf_paths listed)
       \<lparr>gs_rows = [], gs_matches = 0, gs_truncated = lf_truncated listed,
        gs_steps = max_glob_match_steps (core_limits core), gs_files_scanned = 0, gs_revisions = Map.empty\<rparr> log1 = (Inr st, log')"
    and out: "go_rows out = gs_rows st" "go_matches out = gs_matches st" "go_truncated out = gs_truncated st"
      "go_files_scanned out = gs_files_scanned st" "go_files_listed out = length (lf_paths listed)"
    using assms unfolding file_grep_prepared_def Let_def inspect_def [symmetric]
    by (auto elim!: bindE simp: return_def)
  have m: "Stat ?p (Inr metadata) \<in> set log0"
    using i unfolding inspect_def by (auto elim!: bindE simp: return_def fail_def stat_def Let_def split: sum.splits IoErrorKind.splits)
  have "grep_listing os dirs tools retained core ?p log1 (if md_kind metadata = IsFile then unwrap_or (parent ?p) ?p else ?p) listed"
  proof (cases "md_kind metadata = IsFile")
    case True
    then show ?thesis using m l by (auto simp: grep_listing_def return_def)
  next
    case False
    then have r: "list_files os dirs tools retained core ?p log0 = (Inr listed, log1)" using l by simp
    have "Stat ?p (Inr metadata) \<in> set log1" using m r by (auto elim!: list_files_inv)
    then show ?thesis using r False by (auto simp: grep_listing_def) (metis append_Nil2)
  qed
  then show ?thesis using g out by (rule that)
qed


section \<open>What a search may do\<close>

locale authorised_search = authorised_reads +
  assumes canonical_may_open: "authorize_canonical_entry (t_lower tools) (core_policy core) p \<Longrightarrow> may_open p"
    and ignore_may_open: "may_open d \<Longrightarrow> may_open (d @ [Normal (u ''.gitignore'')])"
begin

lemma within_extend_scope [simp]: "may_open d \<Longrightarrow> within (extend_scope_at os retained limits d p scope budget)"
  unfolding extend_scope_at_def read_ignore_def using ignore_may_open
  by (auto intro!: within_rules split: option.splits)

lemma within_seed [simp]: "\<forall>d\<in>set ds. may_open d \<Longrightarrow> within (seed_scope os retained limits base ds scope budget)"
  by (induction os retained limits base ds scope budget rule: seed_scope.induct) (auto intro!: within_rules)

lemma within_enclosing [simp]: "within (enclosing_repository dirs tools core n p chain)"
  by (induction n arbitrary: p chain; case_tac p) (auto intro!: within_rules split: sum.splits)

lemma enclosing_may_open:
  "gives (enclosing_repository dirs tools core n p chain) (chain', e) \<Longrightarrow> \<forall>d\<in>set chain. may_open d \<Longrightarrow> \<forall>d\<in>set chain'. may_open d"
proof (induction n arbitrary: p chain)
  case 0
  then show ?case by (cases p) auto
next
  case (Suc n)
  show ?case
  proof (cases p)
    case None
    then show ?thesis using Suc.prems by simp
  next
    case (Some d)
    show ?thesis
    proof (cases "authorize_canonical_entry (t_lower tools) (core_policy core) d")
      case True
      then have ok: "\<forall>q\<in>set (chain @ [d]). may_open q" using Suc.prems(2) canonical_may_open by auto
      obtain r :: "IoErrorKind + FileKind" where "gives (case r of Inr _ \<Rightarrow> return (chain @ [d], Some d)
          | Inl _ \<Rightarrow> enclosing_repository dirs tools core n (parent d) (chain @ [d])) (chain', e)"
        using Suc.prems(1) True Some by (auto elim!: gives_bindE)
      then show ?thesis using ok Suc.IH [OF _ ok] by (auto split: sum.splits)
    next
      case False
      then show ?thesis using Suc.prems Some by simp
    qed
  qed
qed

lemma within_context [simp]: "within (context_prepare os dirs tools retained core rt)"
proof -
  have "\<forall>d\<in>set chain. may_open d" if "gives (enclosing_repository dirs tools core n (Some rt) []) (chain, e)" for n chain e
    using enclosing_may_open [OF that] by simp
  then show ?thesis unfolding context_prepare_def
    by (auto simp: Let_def intro!: within_rules within_seed dest!: set_mp [OF set_drop_subset] split: option.splits)
qed

lemma within_scan_entries [simp]: "within (scan_directory os p most rs entries)"
  by (induction os p most rs entries rule: scan_directory.induct) (auto intro!: within_rules split: sum.splits)

lemma within_descend:
  "may_open p \<Longrightarrow> within (descend os dirs retained core ctx rt p scope st)"
  unfolding descend_def push_entries_def read_directory_entries_def context_extend_def
  by (auto simp: Let_def intro!: within_rules split: sum.splits option.splits prod.splits)

lemma examine_may_open: "gives (examine dirs tools core ctx rt pe st) (st', True) \<Longrightarrow> pe_path pe = rt \<or> may_open (pe_path pe)"
  unfolding examine_def judge_def
  by (auto elim!: gives_bindE simp: Let_def intro: canonical_may_open split: if_splits sum.splits prod.splits)

lemma within_visit:
  assumes "may_open rt"
  shows "within (visit_pending os dirs tools retained core ctx rt pe st)"
proof -
  have "within (examine dirs tools core ctx rt pe st)"
    unfolding examine_def by (auto simp: Let_def intro!: within_rules split: option.splits)
  moreover have "may_open (pe_path pe)" if "gives (examine dirs tools core ctx rt pe st) (st', True)" for st'
    using examine_may_open [OF that] assms by auto
  ultimately show ?thesis unfolding visit_pending_def by (auto intro!: within_rules within_descend)
qed

lemma within_list_loop:
  assumes "may_open rt"
  shows "within (list_loop os dirs tools retained core ctx rt stack st)"
proof -
  have "\<exists>es. snd (list_loop os dirs tools' retained core' ctx rt stack st log) = log @ es \<and> list_all allowed es"
    if "tools' = tools" "core' = core" for tools' core' log
    using that assms
  proof (induction os dirs tools' retained core' ctx rt stack st log rule: list_loop.induct)
    case (2 os dirs tools' retained core' ctx rt pe stack st log)
    obtain r log1 where v: "visit_pending os dirs tools retained core ctx rt pe st log = (r, log1)" by fastforce
    then have v': "(r, log1) = visit_pending os dirs tools' retained core' ctx rt pe st log" unfolding "2.prems"(1,2) by simp
    obtain es where es: "log1 = log @ es" "list_all allowed es"
      using withinD [OF within_visit v] "2.prems"(3) by blast
    show ?case
    proof (cases r)
      case (Inr x)
      obtain st' pushed where x: "x = (st', pushed)" by (cases x)
      obtain es' where "snd (list_loop os dirs tools retained core ctx rt (pushed @ stack) st' log1) = log1 @ es'" "list_all allowed es'"
        using "2.IH" [OF v' Inr x [symmetric] "2.prems"] unfolding "2.prems"(1,2) by blast
      then show ?thesis unfolding "2.prems"(1,2) using v es Inr x by auto
    qed (unfold "2.prems"(1,2), use v es in auto)
  qed simp
  then show ?thesis unfolding within_def by blast
qed

lemma within_list_files: "may_open rt \<Longrightarrow> within (list_files os dirs tools retained core rt)"
  unfolding list_files_def by (auto intro!: within_rules within_list_loop)

lemma listed_may_open: "gives (list_files os dirs tools retained core rt) listed \<Longrightarrow> \<forall>p\<in>set (lf_paths listed). may_open p"
  unfolding gives_def
  by (auto elim!: list_files_inv simp: traversal_inv_def found_def searchable_def authorize_permitted [symmetric] intro!: canonical_may_open)

lemma within_search_file: "may_open p \<Longrightarrow> within (search_file os tools core prepared cap p relative_path st)"
proof -
  have hits: "within (find_hits os regex index lines hits)" for regex index lines hits
    by (induction os regex index lines hits rule: find_hits.induct) (auto intro!: within_rules)
  show "may_open p \<Longrightarrow> ?thesis" unfolding search_file_def
    by (auto simp: Let_def hits intro!: within_rules split: sum.splits FilesystemError.splits)
qed

lemma within_grep_files: "\<forall>p\<in>set paths. may_open p \<Longrightarrow> within (grep_files os tools core prepared cap cwd paths st)"
  by (induction paths arbitrary: st)
    (auto simp: Let_def intro!: within_rules within_search_file split: sum.splits MatchOutcome.splits prod.splits)

lemma within_glob_files: "\<forall>p\<in>set paths. may_open p \<Longrightarrow> within (glob_files os tools core matcher search paths st)"
  by (induction paths arbitrary: st)
    (auto simp: Let_def intro!: within_rules split: sum.splits MatchOutcome.splits prod.splits)

lemma within_grep_prepared:
  assumes "may_open (res_path (pg_resource prepared))"
  shows "within (file_grep_prepared os dirs tools retained core prepared)"
proof -
  have "\<forall>p\<in>set (lf_paths listed). may_open p"
    if "gives (if b then return (ListedFiles_single (res_path (pg_resource prepared)))
       else list_files os dirs tools retained core (res_path (pg_resource prepared))) listed" for b listed
    using that assms listed_may_open [of os dirs retained _ listed] by (cases b) (auto simp: ListedFiles_single_def)
  then show ?thesis unfolding file_grep_prepared_def Let_def using assms
    by (intro within_bind) (auto intro!: within_grep_files within_list_files split: sum.splits IoErrorKind.splits)
qed

lemma within_file_grep: "within (file_grep os dirs tools regex_new retained core input)"
proof -
  have "may_open (res_path (pg_resource prepared))" if "gives (prepare_grep os tools regex_new core input) prepared" for prepared
    using that unfolding prepare_grep_def
    by (auto elim!: gives_bindE simp: Let_def split: if_splits) (erule resolved_may_open)+
  moreover have "within (prepare_grep os tools regex_new core input)"
    unfolding prepare_grep_def by (auto simp: Let_def intro!: within_rules)
  ultimately show ?thesis unfolding file_grep_def execute_prepared_grep_def
    by (auto intro!: within_rules within_grep_prepared)
qed

lemma within_file_glob: "within (file_glob os dirs tools retained core input)"
proof -
  have "may_open (res_path (pb_resource prepared))" if "gives (prepare_glob os tools core input) prepared" for prepared
    using that unfolding prepare_glob_def
    by (auto elim!: gives_bindE simp: Let_def split: if_splits) (erule resolved_may_open)+
  moreover have "within (prepare_glob os tools core input)"
    unfolding prepare_glob_def by (auto simp: Let_def intro!: within_rules)
  ultimately show ?thesis unfolding file_glob_def execute_prepared_glob_def file_glob_prepared_def
    by (auto intro!: within_rules within_list_files within_glob_files dest: listed_may_open)
qed

end

text \<open>An ignore file lies inside the policy when its directory does: its name protects nothing.\<close>

lemma protected_from_snoc:
  "\<not> protected_from lower b r \<Longrightarrow> fold_case lower (component_text c) \<notin> set protected_directories \<Longrightarrow>
     \<not> protected_basename (fold_case lower (component_text c)) \<Longrightarrow> \<not> protected_from lower b (r @ [c])"
  by (induction r arbitrary: b) (auto simp: Let_def split: if_splits)

lemma ignore_file_permitted:
  assumes "permitted tools core d"
  shows "permitted tools core (d @ [Normal (u ''.gitignore'')])"
proof -
  have name: "fold_case lower (component_text (Normal (u ''.gitignore''))) = u ''.gitignore''" for lower
    by (simp add: fold_case_def component_text_def u_def is_ascii_uppercase_def)
  have "u ''.gitignore'' \<notin> set protected_directories" "\<not> protected_basename (u ''.gitignore'')"
    by (simp_all add: protected_directories_def protected_basename_def u_def starts_with_def ends_with_def)
  then have "\<not> protected_relative lower r \<Longrightarrow> \<not> protected_relative lower (r @ [Normal (u ''.gitignore'')])" for lower r
    unfolding protected_relative_def by (intro protected_from_snoc) (simp_all add: name)
  then show ?thesis using assms unfolding permitted_def inside_def by auto
qed

interpretation searches: authorised_search "read_event tools core" "permitted tools core" tools core for tools core
  by unfold_locales (auto simp: authorize_permitted ignore_file_permitted)

text \<open>
  C40. The search tools, whether they succeed or are refused, open and list only paths inside the root
  that are not protected, the ignore files they read included, and perform no action.
\<close>

theorem search_confined:
  "(\<exists>es. snd (file_grep os dirs tools regex_new retained core grep log) = log @ es \<and> list_all (read_event tools core) es) \<and>
   (\<exists>es. snd (file_glob os dirs tools retained core glob log) = log @ es \<and> list_all (read_event tools core) es)"
  using searches.within_file_grep [of tools core os dirs regex_new retained grep]
    searches.within_file_glob [of tools core os dirs retained glob]
  unfolding reads.within_def by blast

section \<open>Counts and cuts\<close>

text \<open>What a glob reports: no more than the cap, and a total above the count only when marked truncated.\<close>

lemma glob_files_counts:
  "glob_files os tools core m search paths st log = (Inr st', log') \<Longrightarrow>
     length (bs_files st) \<le> max_search_results (core_limits core) \<and> length (bs_files st) \<le> bs_total st \<and>
       (\<not> bs_truncated st \<longrightarrow> length (bs_files st) = bs_total st) \<and> (bs_scan_complete st \<or> bs_truncated st) \<Longrightarrow>
     length (bs_files st') \<le> max_search_results (core_limits core) \<and> length (bs_files st') \<le> bs_total st' \<and>
       (\<not> bs_truncated st' \<longrightarrow> length (bs_files st') = bs_total st' \<and> bs_scan_complete st')"
proof (induction paths arbitrary: st log)
  case Nil
  then show ?case by (auto simp: return_def)
next
  case (Cons path paths)
  show ?case using Cons.prems
    by (auto elim!: bindE simp: Let_def return_def fail_def dest!: Cons.IH split: prod.splits sum.splits MatchOutcome.splits if_splits)
qed

text \<open>A cut result is within the ceiling, unless nothing but its frame is left, and keeps a prefix of the rows.\<close>

lemma fit_search_result_sound:
  assumes "fit_search_result response_size len retain output = Inr fitted"
  shows "fitted = output \<and> (\<exists>n\<le>MCP_RAW_RESULT_CEILING_BYTES. response_size output = Inr n) \<or>
    (\<exists>k\<le>len output. fitted = retain output k \<and> (k = 0 \<or> (\<exists>n\<le>MCP_RAW_RESULT_CEILING_BYTES. response_size fitted = Inr n)))"
proof -
  obtain n where n: "response_size output = Inr n" using assms by (auto simp: fit_search_result_def split: sum.splits)
  show ?thesis
  proof (cases "n \<le> MCP_RAW_RESULT_CEILING_BYTES")
    case True
    then show ?thesis using assms n by (simp add: fit_search_result_def)
  next
    case False
    then obtain k where k: "bisect (\<lambda>candidate. case response_size (retain output candidate) of Inl e \<Rightarrow> Inl e
        | Inr n \<Rightarrow> Inr (n \<le> MCP_RAW_RESULT_CEILING_BYTES)) 0 (len output) = Inr k" "fitted = retain output k"
      using assms n by (auto simp: fit_search_result_def split: sum.splits)
    from bisect_fits [OF k(1)] k(2) show ?thesis by (auto split: sum.splits)
  qed
qed

section \<open>A concrete search\<close>

text \<open>A search for lines that hold a b, in the file \<open>/w/a\<close>.\<close>

definition demo_grep :: PreparedFileGrep where
  "demo_grep = \<lparr>pg_resource = \<lparr>res_requested_path = u ''a'', res_path = components (u ''/w/a''), res_relative_path = u ''a'',
       res_access = Read\<rparr>,
     pg_relative_path = u ''a'', pg_pattern = u ''b'', pg_include = None, pg_regex = (\<lambda>line. 98 \<in> set line),
     pg_include_matcher = None, pg_context_before = 1, pg_context_after = 1, pg_head_limit = None\<rparr>"

lemma demo_grep_lines: "grep_lines 2000 (u ''ab'') = [u ''ab'']"
  by (simp add: grep_lines_def split_text_lines_def text_defs truncate_line_def encode_utf16_def encode_utf16_char_def Let_def)

lemma demo_grep_runs:
  obtains out log where "file_grep_prepared edit_os demo_dirs demo_tools (\<lambda>_. 0) demo_core demo_grep [] = (Inr out, log)"
    "go_matches out = 1" "go_truncated out = False"
proof -
  have kind: "md_kind demo_meta = IsFile" by (simp add: demo_meta_def)
  have limits: "core_limits demo_core = default_limits" "max_line_length default_limits = 2000" "max_search_results default_limits = 500"
    by (simp_all add: demo_core_def default_limits_def)
  have search: "\<exists>log2. search_file edit_os demo_tools demo_core demo_grep 500 p r st log1 =
      (Inr (take_hits demo_grep 500 p r \<lparr>v_identity = file_identity demo_meta, v_digest = u ''ab''\<rparr> [u ''ab''] [0] st), log2)"
    for p r st log1
    using demo_text_file demo_sizes demo_decode_ab demo_grep_lines limits
    by (simp add: search_file_def demo_run_defs File_Text.read_bounded_def edit_os_calls demo_tools_def demo_grep_def u_def kind)
  have cap: "row_cap_of demo_core demo_grep = 500" "pg_include_matcher demo_grep = None"
    by (simp_all add: row_cap_of_def demo_grep_def limits)
  have grep: "\<exists>st' log2. grep_files edit_os demo_tools demo_core demo_grep 500 cwd [p] st log1 = (Inr st', log2) \<and>
      gs_matches st' = 1 \<and> gs_truncated st' = gs_truncated st" if "gs_matches st = 0" for cwd p st log1
  proof -
    obtain log2 where "search_file edit_os demo_tools demo_core demo_grep 500 p (relative_to cwd p)
        (st\<lparr>gs_files_scanned := Suc (gs_files_scanned st)\<rparr>) (log1 @ [Polled False]) =
      (Inr (take_hits demo_grep 500 p (relative_to cwd p) \<lparr>v_identity = file_identity demo_meta, v_digest = u ''ab''\<rparr> [u ''ab''] [0]
        (st\<lparr>gs_files_scanned := Suc (gs_files_scanned st)\<rparr>)), log2)"
      using search by blast
    then show ?thesis using that by (simp add: bind_def poll_def edit_os_calls cap return_def take_hits_def Let_def)
  qed
  obtain st' log2 where g: "grep_files edit_os demo_tools demo_core demo_grep 500
      (unwrap_or (parent (components (u ''/w/a''))) (components (u ''/w/a''))) [components (u ''/w/a'')]
      \<lparr>gs_rows = [], gs_matches = 0, gs_truncated = False, gs_steps = max_glob_match_steps default_limits, gs_files_scanned = 0,
       gs_revisions = Map.empty\<rparr> [Polled False, Stat (components (u ''/w/a'')) (Inr demo_meta)] = (Inr st', log2)"
    "gs_matches st' = 1" "\<not> gs_truncated st'"
  proof -
    have "gs_matches \<lparr>gs_rows = [], gs_matches = 0, gs_truncated = False, gs_steps = max_glob_match_steps default_limits,
       gs_files_scanned = 0, gs_revisions = Map.empty\<rparr> = 0" by (simp only: GrepState.simps)
    from grep [OF this] that show ?thesis by (simp only: GrepState.simps) blast
  qed
  have res: "res_path (pg_resource demo_grep) = components (u ''/w/a'')" by (simp add: demo_grep_def)
  define result where "result = file_grep_prepared edit_os demo_dirs demo_tools (\<lambda>_. 0) demo_core demo_grep []"
  have "\<exists>out log. result = (Inr out, log) \<and> go_matches out = 1 \<and> \<not> go_truncated out"
    unfolding result_def file_grep_prepared_def
    using g by (simp add: bind_def poll_def stat_def edit_os_calls return_def Let_def kind cap ListedFiles_single_def res limits)
  then show ?thesis using that unfolding result_def by blast
qed


text \<open>
  A result that is cut to the ceiling counts the rows it keeps as matches, although rows of context
  are among them.
\<close>

lemma cut_counts_context:
  "grep_retain_prefix out (length (go_rows out)) = out\<lparr>go_matches := length (go_rows out), go_truncated := True\<rparr>"
  by (simp add: grep_retain_prefix_def Let_def)

end
