(* ===== verification/Output_Escape.thy ===== *)
theory Output_Escape
  imports Prelude
begin

text \<open>
  Escape sequences in captured output (\<open>crates/output-filter/src/escape.rs\<close>): where a sequence
  ends, and the strip that removes them. The code scans an array from a start index; here the
  scan is given the rest of the text from that index, and a found end is the number of
  characters of the sequence.
\<close>

abbreviation (input) ESC :: uchar where "ESC \<equiv> 27"
abbreviation (input) BEL :: uchar where "BEL \<equiv> 7"

definition MAX_ESCAPE_CHARS :: nat where "MAX_ESCAPE_CHARS = 64"
definition MAX_OSC_CHARS :: nat where "MAX_OSC_CHARS = 512"
definition SCAN_WINDOW_CHARS :: nat where "SCAN_WINDOW_CHARS = MAX_OSC_CHARS + 2"

datatype Scan = Found nat | Incomplete

text \<open>The three loops; \<open>index\<close> is the offset from the introducer of the character looked at.\<close>

fun scan_csi :: "nat \<Rightarrow> ustr \<Rightarrow> Scan" where
  "scan_csi index [] = Incomplete"
| "scan_csi index (c # cs) =
     (if 0x40 \<le> c \<and> c \<le> 0x7e then Found (index + 1)
      else if index + 1 > MAX_ESCAPE_CHARS then Found 1
      else scan_csi (index + 1) cs)"

fun scan_osc :: "nat \<Rightarrow> ustr \<Rightarrow> Scan" where
  "scan_osc index [] = Incomplete"
| "scan_osc index (c # cs) =
     (if c = BEL then Found (index + 1)
      else if c = ESC \<and> cs \<noteq> [] \<and> hd cs = 92 then Found (index + 2)
      else if index + 1 > MAX_OSC_CHARS then Found 1
      else scan_osc (index + 1) cs)"

fun scan_nf :: "nat \<Rightarrow> ustr \<Rightarrow> Scan" where
  "scan_nf index [] = Incomplete"
| "scan_nf index (c # cs) =
     (if \<not> (0x20 \<le> c \<and> c \<le> 0x2f) then Found (index + 1)
      else if index + 1 > MAX_ESCAPE_CHARS then Found 1
      else scan_nf (index + 1) cs)"

definition scan_escape :: "ustr \<Rightarrow> Scan" where
  "scan_escape rest =
     (case rest of
        e # introducer # cs \<Rightarrow>
          if introducer = 91 then scan_csi 2 cs
          else if introducer = 93 then scan_osc 2 cs
          else scan_nf 1 (introducer # cs)
      | _ \<Rightarrow> Incomplete)"

text \<open>
  \<open>sequence_bytes\<close>, counted in characters: the length of the sequence at the front of the
  window when the strip removes it.
\<close>

definition sequence_chars :: "ustr \<Rightarrow> nat option" where
  "sequence_chars window =
     (case scan_escape window of
        Incomplete \<Rightarrow> None
      | Found n \<Rightarrow>
          if n \<le> 1 then None
          else if length window \<le> 1 then None
          else if \<not> (0x20 \<le> window ! 1 \<and> window ! 1 \<le> 0x7e) then None
          else Some n)"

text \<open>The loop of \<open>strip_escape_sequences\<close>: \<open>rest\<close> begins at an escape character.\<close>

lemma sequence_chars_pos: "sequence_chars w = Some n \<Longrightarrow> 2 \<le> n"
  by (auto simp: sequence_chars_def split: Scan.splits if_splits)

function strip_loop :: "ustr \<Rightarrow> ustr \<Rightarrow> nat \<Rightarrow> ustr \<times> nat" where
  "strip_loop out rest removed =
     (if rest = [] then (out, removed)
      else let (out1, rest1, removed1) =
             (case sequence_chars (take SCAN_WINDOW_CHARS rest) of
                Some n \<Rightarrow> (out, drop n rest, min (2 ^ 64 - 1) (removed + 1))
              | None \<Rightarrow> (out @ [ESC], drop 1 rest, removed));
             plain = takeWhile (\<lambda>c. c \<noteq> ESC) rest1
           in strip_loop (out1 @ plain) (drop (length plain) rest1) removed1)"
  by pat_completeness auto
termination
proof (relation "measure (\<lambda>(_, rest, _). length rest)")
  show "((out1 @ plain, drop (length plain) rest1, removed1), (out, rest, removed)) \<in> measure (\<lambda>(_, rest, _). length rest)"
    if "rest \<noteq> []" and "x = (case sequence_chars (take SCAN_WINDOW_CHARS rest) of
          Some n \<Rightarrow> (out, drop n rest, min (2 ^ 64 - 1) (removed + 1))
        | None \<Rightarrow> (out @ [ESC], drop 1 rest, removed))"
      "(out1, y) = x" "(rest1, removed1) = y"
    for out rest removed x out1 y rest1 removed1 plain
    using that by (cases rest) (auto dest!: sequence_chars_pos split: option.splits)
qed simp

declare strip_loop.simps [simp del]

definition strip_escape_sequences :: "ustr \<Rightarrow> ustr \<times> nat" where
  "strip_escape_sequences text =
     (let plain = takeWhile (\<lambda>c. c \<noteq> ESC) text
      in if length plain = length text then (text, 0)
         else strip_loop plain (drop (length plain) text) 0)"

section \<open>Where a sequence ends\<close>

text \<open>
  A scan that finds an end finds it inside the text, at the introducer or later, and one that
  does not has seen a text within the bounds.
\<close>

lemma scan_csi_bounds:
  "scan_csi i s = Found n \<Longrightarrow> n = 1 \<or> i < n \<and> n \<le> i + length s"
  "scan_csi i s = Incomplete \<Longrightarrow> i \<le> MAX_ESCAPE_CHARS \<Longrightarrow> i + length s \<le> MAX_ESCAPE_CHARS"
  by (induction i s rule: scan_csi.induct) (auto split: if_splits)

lemma scan_nf_bounds:
  "scan_nf i s = Found n \<Longrightarrow> n = 1 \<or> i < n \<and> n \<le> i + length s"
  "scan_nf i s = Incomplete \<Longrightarrow> i \<le> MAX_ESCAPE_CHARS \<Longrightarrow> i + length s \<le> MAX_ESCAPE_CHARS"
  by (induction i s rule: scan_nf.induct) (auto split: if_splits)

lemma scan_osc_bounds:
  "scan_osc i s = Found n \<Longrightarrow> n = 1 \<or> i < n \<and> n \<le> i + length s"
  "scan_osc i s = Incomplete \<Longrightarrow> i \<le> MAX_OSC_CHARS \<Longrightarrow> i + length s \<le> MAX_OSC_CHARS"
  by (induction i s rule: scan_osc.induct) (auto simp: Suc_le_eq split: if_splits)

lemma scan_escape_found: "scan_escape s = Found n \<Longrightarrow> 1 \<le> n \<and> n \<le> length s"
  unfolding scan_escape_def
  by (auto split: list.splits if_splits dest!: scan_csi_bounds(1) scan_osc_bounds(1) scan_nf_bounds(1))

lemma scan_escape_incomplete: "scan_escape s = Incomplete \<Longrightarrow> length s \<le> MAX_OSC_CHARS"
  unfolding scan_escape_def MAX_OSC_CHARS_def
  by (auto split: list.splits if_splits dest!: scan_csi_bounds(2) scan_osc_bounds(2) scan_nf_bounds(2)
      simp: MAX_ESCAPE_CHARS_def MAX_OSC_CHARS_def)

text \<open>
  More text after a found end does not move it, with one exception: an operating-system command
  whose two-character terminator starts at the very limit is given up when the text ends between
  the two characters, and found when it does not.
\<close>

lemma scan_csi_append: "scan_csi i s = Found n \<Longrightarrow> scan_csi i (s @ t) = Found n"
  by (induction i s rule: scan_csi.induct) (auto split: if_splits)

lemma scan_nf_append: "scan_nf i s = Found n \<Longrightarrow> scan_nf i (s @ t) = Found n"
  by (induction i s rule: scan_nf.induct) (auto split: if_splits)

lemma scan_osc_append:
  "scan_osc i s = Found n \<Longrightarrow> i \<le> MAX_OSC_CHARS \<Longrightarrow> scan_osc i (s @ t) \<in> {Found n, Found (MAX_OSC_CHARS + 2)}"
  by (induction i s rule: scan_osc.induct) (auto simp: hd_append split: if_splits)

lemma scan_osc_append_late:
  "scan_osc i s = Found (MAX_OSC_CHARS + 2) \<Longrightarrow> i \<le> MAX_OSC_CHARS \<Longrightarrow> scan_osc i (s @ t) = Found (MAX_OSC_CHARS + 2)"
  using scan_osc_append by fastforce

lemma scan_escape_append:
  assumes "scan_escape s = Found n"
  shows "scan_escape (s @ t) \<in> {Found n, Found (MAX_OSC_CHARS + 2)}"
  using assms scan_osc_append [of 2 "tl (tl s)" n t]
  by (auto simp: scan_escape_def MAX_OSC_CHARS_def scan_csi_append scan_nf_append split: list.splits if_splits)

section \<open>The strip\<close>

lemma sequence_chars_le: "sequence_chars (take k s) = Some n \<Longrightarrow> n \<le> length s"
  by (auto simp: sequence_chars_def split: Scan.splits if_splits dest!: scan_escape_found)

lemma strip_loop_subseq:
  "(rest = [] \<or> hd rest = ESC) \<Longrightarrow> \<exists>kept. fst (strip_loop out rest removed) = out @ kept \<and> subseq kept rest"
proof (induction out rest removed rule: strip_loop.induct)
  case (1 out rest removed)
  show ?case
  proof (cases "rest = []")
    case True
    then show ?thesis by (subst strip_loop.simps) simp
  next
    case False
    define x where "x = (case sequence_chars (take SCAN_WINDOW_CHARS rest) of
        Some n \<Rightarrow> (out, drop n rest, min (2 ^ 64 - 1) (removed + 1)) | None \<Rightarrow> (out @ [ESC], drop 1 rest, removed))"
    obtain out1 rest1 removed1 where x: "x = (out1, rest1, removed1)" by (cases x)
    define plain where "plain = takeWhile (\<lambda>c. c \<noteq> ESC) rest1"
    have "drop (length plain) rest1 = dropWhile (\<lambda>c. c \<noteq> ESC) rest1"
      by (simp add: plain_def dropWhile_eq_drop)
    then have hd: "drop (length plain) rest1 = [] \<or> hd (drop (length plain) rest1) = ESC"
      by (metis (full_types) hd_dropWhile)
    obtain kept where k: "fst (strip_loop (out1 @ plain) (drop (length plain) rest1) removed1) = out1 @ plain @ kept"
      "subseq kept (drop (length plain) rest1)"
      using "1.IH" [OF False x_def x [symmetric] refl plain_def hd] by auto
    have rest1: "subseq (plain @ kept) rest1"
      using k(2) list_emb_append_mono [of "(=)" plain plain kept "drop (length plain) rest1"]
      by (simp add: plain_def dropWhile_eq_drop [symmetric])
    obtain p where p: "out1 = out @ p" "subseq (p @ plain @ kept) rest"
    proof (cases "sequence_chars (take SCAN_WINDOW_CHARS rest)")
      case None
      then have "out1 = out @ [ESC]" "rest = ESC # rest1"
        using x 1(2) False by (auto simp: x_def) (metis drop_Suc drop_0 list.collapse One_nat_def)
      then show ?thesis using rest1 by (intro that [of "[ESC]"]) auto
    next
      case (Some n)
      then have "out1 = out" "rest1 = drop n rest" using x by (auto simp: x_def)
      then show ?thesis
        using rest1 by (intro that [of "[]"]) (auto intro: subseq_order.trans [OF _ suffix_imp_subseq [OF suffix_drop]])
    qed
    have "strip_loop out rest removed = strip_loop (out1 @ plain) (drop (length plain) rest1) removed1"
      using False x by (subst strip_loop.simps) (simp add: x_def plain_def Let_def)
    then show ?thesis using p k(1) by auto
  qed
qed

lemma strip_plain:
  assumes "ESC \<notin> set t"
  shows "strip_escape_sequences t = (t, 0)"
proof -
  have e: "takeWhile (\<lambda>c. c \<noteq> ESC) t = t" using assms by (auto simp: takeWhile_eq_all_conv)
  show ?thesis unfolding strip_escape_sequences_def Let_def e by simp
qed

text \<open>
  Stripping only removes: what remains is the input with some characters left out, in
  their order, and text without an escape character is returned as it is, with a count of zero.
\<close>

theorem strip_only_removes:
  "subseq (fst (strip_escape_sequences t)) t \<and> (ESC \<notin> set t \<longrightarrow> strip_escape_sequences t = (t, 0))"
proof -
  let ?p = "takeWhile (\<lambda>c. c \<noteq> ESC) t"
  have "drop (length ?p) t = [] \<or> hd (drop (length ?p) t) = ESC"
    by (metis (full_types) dropWhile_eq_drop hd_dropWhile)
  then obtain kept where "fst (strip_loop ?p (drop (length ?p) t) 0) = ?p @ kept" "subseq kept (drop (length ?p) t)"
    using strip_loop_subseq by blast
  moreover from this(2) have "subseq (?p @ kept) t"
    using list_emb_append_mono [of "(=)" ?p ?p kept "drop (length ?p) t"] by (simp add: dropWhile_eq_drop [symmetric])
  ultimately have "subseq (fst (strip_escape_sequences t)) t" by (simp add: strip_escape_sequences_def Let_def)
  then show ?thesis using strip_plain by blast
qed

text \<open>A control sequence as terminals define it: parameter and intermediate characters, then a final one.\<close>

definition control_sequence :: "ustr \<Rightarrow> bool" where
  "control_sequence q \<longleftrightarrow>
     (\<exists>ps f. q = ESC # 91 # ps @ [f] \<and> list_all (\<lambda>c. 0x20 \<le> c \<and> c < 0x40) ps \<and> 0x40 \<le> f \<and> f \<le> 0x7e \<and>
        length ps \<le> 62)"

lemma scan_csi_sequence:
  "list_all (\<lambda>c. 0x20 \<le> c \<and> c < 0x40) ps \<Longrightarrow> 0x40 \<le> f \<Longrightarrow> f \<le> 0x7e \<Longrightarrow> i + length ps \<le> MAX_ESCAPE_CHARS \<Longrightarrow>
     scan_csi i (ps @ f # r) = Found (i + length ps + 1)"
  by (induction ps arbitrary: i) auto

lemma sequence_chars_control:
  assumes "control_sequence q"
  shows "sequence_chars (take SCAN_WINDOW_CHARS (q @ r)) = Some (length q)"
proof -
  obtain ps f where q: "q = ESC # 91 # ps @ [f]" and ps: "list_all (\<lambda>c. 0x20 \<le> c \<and> c < 0x40) ps"
    and f: "0x40 \<le> f" "f \<le> 0x7e" and l: "length ps \<le> 62"
    using assms by (auto simp: control_sequence_def)
  define r' where "r' = take (SCAN_WINDOW_CHARS - length q) r"
  have "length q \<le> SCAN_WINDOW_CHARS" using l by (simp add: q SCAN_WINDOW_CHARS_def MAX_OSC_CHARS_def)
  then have w: "take SCAN_WINDOW_CHARS (q @ r) = ESC # 91 # ps @ f # r'"
    unfolding take_append r'_def by (simp add: q)
  have "scan_csi 2 (ps @ f # r') = Found (length ps + 3)"
    using scan_csi_sequence [OF ps f, of 2 r'] l by (simp add: MAX_ESCAPE_CHARS_def)
  then show ?thesis unfolding w by (simp add: sequence_chars_def scan_escape_def q)
qed

lemma strip_loop_decorated:
  "list_all (\<lambda>(q, t). control_sequence q \<and> ESC \<notin> set t) segs \<Longrightarrow> k + length segs < 2 ^ 64 \<Longrightarrow>
     strip_loop out (concat (map (\<lambda>(q, t). q @ t) segs)) k = (out @ concat (map snd segs), k + length segs)"
proof (induction segs arbitrary: out k)
  case Nil
  then show ?case by (subst strip_loop.simps) simp
next
  case (Cons seg segs)
  obtain q t where seg: "seg = (q, t)" by (cases seg)
  let ?rest = "concat (map (\<lambda>(q, t). q @ t) segs)"
  have q: "control_sequence q" and t: "ESC \<notin> set t" and segs: "list_all (\<lambda>(q, t). control_sequence q \<and> ESC \<notin> set t) segs"
    using Cons.prems(1) by (auto simp: seg)
  have hd: "?rest = [] \<or> hd ?rest = ESC"
    using segs by (cases segs) (auto simp: control_sequence_def split: prod.splits)
  have tw: "takeWhile (\<lambda>c. c \<noteq> ESC) (t @ ?rest) = t"
  proof -
    have "takeWhile (\<lambda>c. c \<noteq> ESC) (t @ ?rest) = t @ takeWhile (\<lambda>c. c \<noteq> ESC) ?rest"
      using t by (intro takeWhile_append2) auto
    also have "takeWhile (\<lambda>c. c \<noteq> ESC) ?rest = []" unfolding takeWhile_eq_Nil_iff using hd by blast
    finally show ?thesis by simp
  qed
  have "strip_loop out (q @ t @ ?rest) k = strip_loop (out @ t) ?rest (k + 1)"
  proof -
    have "min (2 ^ 64 - 1) (k + 1) = k + 1" "q \<noteq> []"
      using Cons.prems(2) q by (auto simp: control_sequence_def)
    then show ?thesis
      by (subst strip_loop.simps) (simp only: sequence_chars_control [OF q] option.case prod.case Let_def,
          simp add: tw del: take_append)
  qed
  also have "\<dots> = (out @ t @ concat (map snd segs), k + 1 + length segs)"
    using Cons.IH [OF segs, of "k + 1" "out @ t"] Cons.prems(2) by simp
  finally show ?case by (simp add: seg)
qed

text \<open>
  Decoration disappears and nothing else does: text interleaved with any number of control
  sequences is returned without them, and each is counted.
\<close>

theorem strip_decorated:
  assumes "ESC \<notin> set t0" "list_all (\<lambda>(q, t). control_sequence q \<and> ESC \<notin> set t) segs" "length segs < 2 ^ 64"
  shows "strip_escape_sequences (t0 @ concat (map (\<lambda>(q, t). q @ t) segs)) = (t0 @ concat (map snd segs), length segs)"
proof (cases segs)
  case Nil
  then show ?thesis using assms(1) strip_plain [of t0] by simp
next
  case (Cons seg segs')
  let ?rest = "concat (map (\<lambda>(q, t). q @ t) segs)"
  have r: "?rest \<noteq> []" "hd ?rest = ESC"
    using assms(2) by (auto simp: Cons control_sequence_def split: prod.splits)
  have "takeWhile (\<lambda>c. c \<noteq> ESC) (t0 @ ?rest) = t0 @ takeWhile (\<lambda>c. c \<noteq> ESC) ?rest"
    using assms(1) by (intro takeWhile_append2) auto
  also have "takeWhile (\<lambda>c. c \<noteq> ESC) ?rest = []" unfolding takeWhile_eq_Nil_iff using r by blast
  finally have tw: "takeWhile (\<lambda>c. c \<noteq> ESC) (t0 @ ?rest) = t0" by simp
  have "length t0 \<noteq> length (t0 @ ?rest)" using r(1) by (simp only: length_append) simp
  then show ?thesis
    using strip_loop_decorated [OF assms(2), of 0 t0] assms(3)
    unfolding strip_escape_sequences_def Let_def tw by (simp only: if_False) simp
qed

theorem strip_decorated_witness:
  "strip_escape_sequences (u ''a'' @ [27, 91, 51, 109] @ u ''b'') = (u ''ab'', 1)"
  using strip_decorated [of "u ''a''" "[([27, 91, 51, 109], u ''b'')]"]
  by (simp add: control_sequence_def u_def)

theorem strip_only_removes_witness: "strip_escape_sequences (u ''plain'') = (u ''plain'', 0)"
  using strip_only_removes [of "u ''plain''"] by (simp add: u_def)

text \<open>
  Lines can be joined: the parameters of a control sequence are not checked, so a line
  ending between the introducer and the next letter is removed with the sequence.
\<close>

theorem strip_joins_lines: "strip_escape_sequences (u ''a'' @ [27, 91, 10, 109] @ u ''b'') = (u ''ab'', 1)"
  by (simp add: strip_escape_sequences_def strip_loop.simps sequence_chars_def scan_escape_def
      SCAN_WINDOW_CHARS_def MAX_OSC_CHARS_def MAX_ESCAPE_CHARS_def u_def)

end
