(* ===== verification/Output_Terminal.thy ===== *)
theory Output_Terminal
  imports Output_Escape
begin

text \<open>
  The incremental row renderer (\<open>crates/output-filter/src/terminal.rs\<close>). The state is one row:
  the canvas, the zero-width marks anchored to columns, the cursor, and the characters held
  back at a chunk boundary. Output is returned instead of appended to a buffer.
\<close>

definition ROW_CANVAS_CHARS :: nat where "ROW_CANVAS_CHARS = 16384"
definition ROW_MARK_BYTES :: nat where "ROW_MARK_BYTES = 4096"

abbreviation (input) u64_max :: nat where "u64_max \<equiv> 2 ^ 64 - 1"

record RowRenderer =
  canvas :: ustr
  marks :: "(nat \<times> ustr) list"
  mark_bytes :: nat
  column :: nat
  row_redraws :: nat
  row_dirty :: bool
  partial :: ustr
  redraws :: nat

definition new_renderer :: RowRenderer where
  "new_renderer = \<lparr>canvas = [], marks = [], mark_bytes = 0, column = 0, row_redraws = 0,
     row_dirty = False, partial = [], redraws = 0\<rparr>"

definition carriage_return :: "RowRenderer \<Rightarrow> RowRenderer" where
  "carriage_return r =
     (let r1 = (if canvas r \<noteq> [] then r\<lparr>row_redraws := min u64_max (row_redraws r + 1), row_dirty := True\<rparr> else r)
      in r1\<lparr>column := 0, marks := [], mark_bytes := 0\<rparr>)"

text \<open>The row as a terminal would show it: marks before the character at their column.\<close>

fun render_cells :: "nat \<Rightarrow> (nat \<times> ustr) list \<Rightarrow> ustr \<Rightarrow> ustr" where
  "render_cells col ms [] = concat (map snd ms)"
| "render_cells col ms (c # cs) =
     concat (map snd (takeWhile (\<lambda>m. fst m \<le> col) ms)) @ [c] @
     render_cells (Suc col) (dropWhile (\<lambda>m. fst m \<le> col) ms) cs"

definition render_row :: "RowRenderer \<Rightarrow> ustr" where
  "render_row r =
     render_cells 0 (marks r)
       (if row_dirty r then rev (dropWhile (\<lambda>c. c = SPACE) (rev (canvas r))) else canvas r)"

definition flush_row :: "RowRenderer \<Rightarrow> RowRenderer \<times> ustr" where
  "flush_row r = (r\<lparr>redraws := min u64_max (redraws r + row_redraws r)\<rparr>, render_row r)"

definition reset_row :: "RowRenderer \<Rightarrow> RowRenderer" where
  "reset_row r = r\<lparr>canvas := [], marks := [], mark_bytes := 0, column := 0, row_redraws := 0, row_dirty := False\<rparr>"

definition end_row :: "RowRenderer \<Rightarrow> RowRenderer \<times> ustr" where
  "end_row r = (let (r1, out) = flush_row r in (reset_row r1, out @ [NL]))"

definition write_char :: "uchar \<Rightarrow> RowRenderer \<Rightarrow> RowRenderer \<times> ustr" where
  "write_char c r =
     (let (r1, out) = (if column r \<ge> ROW_CANVAS_CHARS then end_row r else (r, []));
          padded = canvas r1 @ replicate (column r1 - length (canvas r1)) SPACE;
          cells = (if column r1 < length padded then padded[column r1 := c] else padded @ [c])
      in (r1\<lparr>canvas := cells, column := column r1 + 1\<rparr>, out))"

text \<open>Marks are kept in column order; a new one goes after every mark at its column.\<close>

definition push_mark :: "ustr \<Rightarrow> RowRenderer \<Rightarrow> RowRenderer" where
  "push_mark raw r =
     (if sat_add (mark_bytes r) (byte_len raw) > ROW_MARK_BYTES then r
      else r\<lparr>mark_bytes := mark_bytes r + byte_len raw,
             marks := takeWhile (\<lambda>m. fst m \<le> column r) (marks r) @
                      [(column r, raw)] @ dropWhile (\<lambda>m. fst m \<le> column r) (marks r)\<rparr>)"

definition move_to :: "nat \<Rightarrow> RowRenderer \<Rightarrow> RowRenderer" where
  "move_to col r =
     (let r1 = (if col < column r \<and> col < length (canvas r) then r\<lparr>row_dirty := True\<rparr> else r)
      in r1\<lparr>column := col\<rparr>)"

text \<open>\<open>str::parse::<usize>\<close>: an optional plus sign and decimal digits within range.\<close>

definition parse_usize :: "ustr \<Rightarrow> nat option" where
  "parse_usize s =
     (let digits = (case s of c # cs \<Rightarrow> if c = 43 then cs else s | [] \<Rightarrow> s)
      in if digits = [] \<or> (\<exists>c\<in>set digits. \<not> is_ascii_digit c) then None
         else let n = foldl (\<lambda>n c. 10 * n + (c - 48)) 0 digits
              in if n \<le> usize_max then Some n else None)"

definition erase :: "ustr \<Rightarrow> ustr \<Rightarrow> RowRenderer \<Rightarrow> RowRenderer" where
  "erase parameters raw r =
     (if parameters = [] \<or> parameters = u ''0''
      then if length (canvas r) > column r
           then r\<lparr>canvas := take (column r) (canvas r), row_dirty := True\<rparr> else r
      else if parameters = u ''1''
      then let n = min (column r) (length (canvas r))
           in if n > 0 then r\<lparr>canvas := replicate n SPACE @ drop n (canvas r), row_dirty := True\<rparr> else r
      else if parameters = u ''2''
      then if canvas r \<noteq> [] then r\<lparr>canvas := [], row_dirty := True\<rparr> else r
      else push_mark raw r)"

definition apply_escape :: "ustr \<Rightarrow> RowRenderer \<Rightarrow> RowRenderer" where
  "apply_escape raw r =
     (case strip_prefix raw [ESC, 91] of
        None \<Rightarrow> push_mark raw r
      | Some body \<Rightarrow>
          if body = [] then push_mark raw r
          else let final_byte = last body; parameters = butlast body
               in if starts_with parameters (u ''?'') \<or> 58 \<in> set parameters then push_mark raw r
                  else let count = max 1 (case parse_usize parameters of Some n \<Rightarrow> n | None \<Rightarrow> 1)
                       in if final_byte = 75 then erase parameters raw r
                          else if final_byte = 67
                          then r\<lparr>column := min (sat_add (column r) count) ROW_CANVAS_CHARS\<rparr>
                          else if final_byte = 68 then move_to (column r - count) r
                          else if final_byte = 71 then move_to (min (count - 1) ROW_CANVAS_CHARS) r
                          else if final_byte \<in> {65, 66, 74} then r
                          else if final_byte \<in> {69, 70, 72, 102} then move_to 0 r
                          else push_mark raw r)"

text \<open>The loop of \<open>push\<close> over what is left of the chunk.\<close>

lemma scan_found_pos: "scan_escape s = Found n \<Longrightarrow> s \<noteq> [] \<Longrightarrow> length (drop n s) < length s"
  using scan_escape_found [of s n] by simp

function push_from :: "RowRenderer \<Rightarrow> ustr \<Rightarrow> RowRenderer \<times> ustr" where
  "push_from r [] = (r, [])"
| "push_from r (c # cs) =
     (if c = NL
      then let (r1, o1) = end_row r; (r2, o2) = push_from r1 cs in (r2, o1 @ o2)
      else if c = CR
      then (case cs of
              [] \<Rightarrow> (r\<lparr>partial := partial r @ [CR]\<rparr>, [])
            | n # _ \<Rightarrow> if n = NL then push_from r cs else push_from (carriage_return r) cs)
      else if c = 8
      then push_from (if column r > 0 then r\<lparr>column := column r - 1, row_dirty := True\<rparr> else r) cs
      else if c = ESC
      then (case scan_escape (c # cs) of
              Incomplete \<Rightarrow> (r\<lparr>partial := c # cs\<rparr>, [])
            | Found n \<Rightarrow> push_from (apply_escape (take n (c # cs)) r) (drop n (c # cs)))
      else let (r1, o1) = write_char c r; (r2, o2) = push_from r1 cs in (r2, o1 @ o2))"
  by pat_completeness auto
termination
  by (relation "measure (\<lambda>(_, s). length s)") (auto dest: scan_found_pos)

declare push_from.simps(2) [simp del]

definition push :: "RowRenderer \<Rightarrow> ustr \<Rightarrow> RowRenderer \<times> ustr" where
  "push r text = push_from (r\<lparr>partial := []\<rparr>) (partial r @ text)"

definition finish :: "RowRenderer \<Rightarrow> RowRenderer \<times> ustr" where
  "finish r =
     (let orphan = partial r;
          r0 = r\<lparr>partial := []\<rparr>;
          r1 = (if starts_with orphan [ESC] then push_mark orphan r0
                else if starts_with orphan [CR] then carriage_return r0
                else r0)
      in if canvas r1 = [] \<and> \<not> row_dirty r1 then (r1, [])
         else let (r2, out) = flush_row r1 in (reset_row r2, out))"

text \<open>\<open>row\<close>: the row so far, without ending it.\<close>

definition row_view :: "RowRenderer \<Rightarrow> ustr" where
  "row_view r = (if canvas r = [] \<and> \<not> row_dirty r then [] else render_row r)"

definition render_terminal :: "ustr \<Rightarrow> ustr \<times> nat" where
  "render_terminal text =
     (let (r1, o1) = push new_renderer text; (r2, o2) = finish r1 in (o1 @ o2, redraws r2))"

section \<open>Retained state is one row\<close>

definition row_inv :: "RowRenderer \<Rightarrow> bool" where
  "row_inv r \<longleftrightarrow>
     length (canvas r) \<le> ROW_CANVAS_CHARS \<and> column r \<le> ROW_CANVAS_CHARS \<and>
     sorted (map fst (marks r)) \<and> mark_bytes r = sum_list (map (byte_len \<circ> snd) (marks r)) \<and>
     mark_bytes r \<le> ROW_MARK_BYTES \<and> length (partial r) \<le> MAX_OSC_CHARS \<and>
     row_redraws r \<le> u64_max \<and> redraws r \<le> u64_max"

lemma row_inv_new [invar_intros]: "row_inv new_renderer"
  by (simp add: row_inv_def new_renderer_def)

lemma row_inv_return [invar_intros]: "row_inv r \<Longrightarrow> row_inv (carriage_return r)"
  by (auto simp: row_inv_def carriage_return_def Let_def)

lemma row_inv_end_row [invar_intros]: "row_inv r \<Longrightarrow> row_inv (fst (end_row r))"
  by (simp add: row_inv_def end_row_def flush_row_def reset_row_def)

lemma row_inv_write [invar_intros]: "row_inv r \<Longrightarrow> row_inv (fst (write_char c r))"
proof -
  assume r: "row_inv r"
  define r1 where "r1 = fst (if column r \<ge> ROW_CANVAS_CHARS then end_row r else (r, []))"
  have "row_inv r1" using r row_inv_end_row by (simp add: r1_def)
  moreover have "column r1 < ROW_CANVAS_CHARS"
    by (simp add: r1_def end_row_def flush_row_def reset_row_def ROW_CANVAS_CHARS_def)
  ultimately show ?thesis
    by (auto simp: write_char_def case_prod_unfold Let_def r1_def [symmetric] row_inv_def)
qed

lemma row_inv_mark [invar_intros]: "row_inv r \<Longrightarrow> row_inv (push_mark raw r)"
proof -
  assume r: "row_inv r"
  let ?a = "takeWhile (\<lambda>m. fst m \<le> column r) (marks r)" and ?b = "dropWhile (\<lambda>m. fst m \<le> column r) (marks r)"
  have s: "sorted (map fst (?a @ ?b))" using r by (simp add: row_inv_def)
  have a: "fst m \<le> column r" if "m \<in> set ?a" for m using that by (auto dest: set_takeWhileD)
  have b: "column r \<le> fst m" if m: "m \<in> set ?b" for m
  proof -
    obtain h t where ht: "?b = h # t" using m by (cases ?b) auto
    then have "\<not> fst h \<le> column r" using hd_dropWhile [of "\<lambda>m. fst m \<le> column r" "marks r"] by simp
    moreover have "sorted (map fst ?b)" using s unfolding map_append sorted_append by blast
    then have "fst h \<le> fst m" using m by (auto simp: ht)
    ultimately show ?thesis by simp
  qed
  have "sorted (map fst (?a @ [(column r, raw)] @ ?b))"
    using s a b unfolding map_append sorted_append by (auto simp: sorted_append)
  moreover have "sum_list (map (byte_len \<circ> snd) (marks r)) =
      sum_list (map (byte_len \<circ> snd) ?a) + sum_list (map (byte_len \<circ> snd) ?b)"
    by (metis map_append sum_list_append takeWhile_dropWhile_id)
  ultimately show ?thesis using r
    by (auto simp: push_mark_def row_inv_def sat_add_def usize_max_def ROW_MARK_BYTES_def)
qed

lemma row_inv_move [invar_intros]: "row_inv r \<Longrightarrow> col \<le> ROW_CANVAS_CHARS \<Longrightarrow> row_inv (move_to col r)"
  by (auto simp: row_inv_def move_to_def Let_def)

lemma row_inv_erase [invar_intros]: "row_inv r \<Longrightarrow> row_inv (erase ps raw r)"
  using row_inv_mark [of r raw] by (auto simp: erase_def Let_def row_inv_def)

lemma row_inv_escape [invar_intros]: "row_inv r \<Longrightarrow> row_inv (apply_escape raw r)"
proof -
  assume r: "row_inv r"
  then have c: "column r \<le> ROW_CANVAS_CHARS" by (simp add: row_inv_def)
  have "row_inv (r\<lparr>column := min k ROW_CANVAS_CHARS\<rparr>)" for k using r by (simp add: row_inv_def)
  then show ?thesis
    using r c row_inv_mark [OF r] row_inv_erase [OF r] row_inv_move [OF r]
    by (simp add: apply_escape_def Let_def le_diff_conv split: option.split)
qed

lemma row_inv_partial: "row_inv r \<Longrightarrow> length s \<le> MAX_OSC_CHARS \<Longrightarrow> row_inv (r\<lparr>partial := s\<rparr>)"
  by (simp add: row_inv_def)

text \<open>No operation but the loop itself touches the held-back characters.\<close>

lemma partial_kept [simp]:
  "partial (carriage_return r) = partial r" "partial (fst (end_row r)) = partial r"
  "partial (fst (write_char c r)) = partial r" "partial (push_mark raw r) = partial r"
  "partial (move_to col r) = partial r" "partial (erase ps raw r) = partial r"
  "partial (apply_escape raw r) = partial r"
proof -
  show m: "partial (push_mark raw r) = partial r" for raw by (simp add: push_mark_def)
  show e: "partial (erase ps raw r) = partial r" for ps raw by (simp add: erase_def Let_def m)
  show v: "partial (move_to col r) = partial r" for col by (simp add: move_to_def Let_def)
  show "partial (apply_escape raw r) = partial r"
    by (simp add: apply_escape_def Let_def m e v split: option.split)
  show "partial (fst (end_row r)) = partial r" by (simp add: end_row_def flush_row_def reset_row_def)
  then show "partial (fst (write_char c r)) = partial r" by (simp add: write_char_def case_prod_unfold Let_def)
qed (simp add: carriage_return_def Let_def)

lemma row_inv_push_from: "row_inv r \<Longrightarrow> partial r = [] \<Longrightarrow> row_inv (fst (push_from r s))"
proof (induction r s rule: push_from.induct)
  case (2 r c cs)
  note IH = "2.IH" and r = "2.prems"
  have b: "row_inv (r\<lparr>column := column r - 1, row_dirty := True\<rparr>)" using r(1) by (auto simp: row_inv_def)
  consider "c = NL" | "c = CR" "cs = []" | n ns where "c = CR" "cs = n # ns" "n = NL"
    | n ns where "c = CR" "cs = n # ns" "n \<noteq> NL" | "c = 8"
    | "c = ESC" "scan_escape (c # cs) = Incomplete" | k where "c = ESC" "scan_escape (c # cs) = Found k"
    | "c \<noteq> NL" "c \<noteq> CR" "c \<noteq> 8" "c \<noteq> ESC"
    by (cases cs; cases "scan_escape (c # cs)") auto
  then show ?case
  proof cases
    case 1
    then show ?thesis using IH(1) [OF 1 refl prod.collapse] r invar_intros
      by (simp add: push_from.simps case_prod_unfold Let_def)
  next
    case 2
    then show ?thesis using r by (simp add: push_from.simps row_inv_def MAX_OSC_CHARS_def)
  next
    case 3
    then show ?thesis using IH(2) r by (simp add: push_from.simps)
  next
    case 4
    then show ?thesis using IH(3) r invar_intros by (simp add: push_from.simps)
  next
    case 5
    then show ?thesis using IH(4) r b by (simp add: push_from.simps)
  next
    case 6
    then show ?thesis using r scan_escape_incomplete [OF 6(2)] by (simp add: push_from.simps row_inv_partial)
  next
    case 7
    then show ?thesis using IH(5) [OF _ _ _ _ 7(2)] r invar_intros by (simp add: push_from.simps)
  next
    case 8
    then show ?thesis using IH(6) [OF 8 refl prod.collapse] r invar_intros
      by (simp add: push_from.simps case_prod_unfold Let_def)
  qed
qed simp

lemma row_inv_push: "row_inv r \<Longrightarrow> row_inv (fst (push r t))"
  unfolding push_def by (rule row_inv_push_from) (simp_all add: row_inv_partial)

lemma row_inv_finish: "row_inv r \<Longrightarrow> row_inv (fst (finish r))"
proof -
  assume r: "row_inv r"
  have r0: "row_inv (r\<lparr>partial := []\<rparr>)" using r by (simp add: row_inv_partial)
  have "row_inv (reset_row (fst (flush_row q)))" if "row_inv q" for q
    using row_inv_end_row [OF that] by (simp add: end_row_def case_prod_unfold Let_def)
  then show ?thesis
    using r0 row_inv_mark [OF r0] row_inv_return [OF r0] by (simp add: finish_def case_prod_unfold Let_def)
qed

interpretation renderer: keeps_invariant "\<lambda>r t. fst (push r t)" row_inv
  by unfold_locales (rule row_inv_push)

text \<open>
  However much is written, and however it is cut into chunks, what the renderer retains is
  one row: at most the canvas width in cells, marks in column order within their byte
  allowance, and no more held-back characters than the longest sequence scanned for.
\<close>

theorem renderer_bounded: "row_inv (foldl (\<lambda>r t. fst (push r t)) new_renderer chunks)"
  by (rule renderer.run_inv [OF row_inv_new])

section \<open>Chunk boundaries\<close>

text \<open>Feeding a stream chunk by chunk.\<close>

fun push_all :: "RowRenderer \<Rightarrow> ustr list \<Rightarrow> RowRenderer \<times> ustr" where
  "push_all r [] = (r, [])"
| "push_all r (t # ts) = (let (r1, o1) = push r t; (r2, o2) = push_all r1 ts in (r2, o1 @ o2))"

text \<open>
  No operating-system command in the text is ended by a two-character terminator that starts at
  the limit of the scan, 512 characters after its introducer.
\<close>

fun no_late_osc :: "ustr \<Rightarrow> bool" where
  "no_late_osc [] = True"
| "no_late_osc (c # s) = (\<not> (c = ESC \<and> scan_escape (c # s) = Found (MAX_OSC_CHARS + 2)) \<and> no_late_osc s)"

lemma no_late_osc_drop: "no_late_osc s \<Longrightarrow> no_late_osc (drop n s)"
proof (induction n arbitrary: s)
  case (Suc n)
  then show ?case by (cases s) auto
qed simp

lemma no_late_osc_prefix: "no_late_osc (x @ y) \<Longrightarrow> no_late_osc x"
proof (induction x)
  case (Cons c x)
  then show ?case using scan_escape_append [of "c # x" "MAX_OSC_CHARS + 2" y] by auto
qed simp

lemma partial_none: "partial r = [] \<Longrightarrow> r\<lparr>partial := []\<rparr> = r"
  by (cases r) simp

lemma push_from_split:
  "partial r = [] \<Longrightarrow> no_late_osc (x @ y) \<Longrightarrow>
     push_from r (x @ y) =
       (let (r1, o1) = push_from r x; (r2, o2) = push r1 y in (r2, o1 @ o2))"
proof (induction r x rule: push_from.induct)
  case (1 r)
  then show ?case by (simp add: push_def partial_none)
next
  case (2 r c cs)
  note IH = "2.IH"
  have p: "partial r = []" by (rule 2)
  have osc: "no_late_osc (cs @ y)" using 2(8) by simp
  consider "c = NL" | "c = CR" "cs = []" | n ns where "c = CR" "cs = n # ns" "n = NL"
    | n ns where "c = CR" "cs = n # ns" "n \<noteq> NL" | "c = 8"
    | "c = ESC" "scan_escape (c # cs) = Incomplete" | k where "c = ESC" "scan_escape (c # cs) = Found k"
    | "c \<noteq> NL" "c \<noteq> CR" "c \<noteq> 8" "c \<noteq> ESC"
    by (cases cs; cases "scan_escape (c # cs)") auto
  then show ?case
  proof cases
    case 1
    then show ?thesis using IH(1) [OF 1 refl prod.collapse _ osc] p
      by (simp add: push_from.simps case_prod_unfold Let_def)
  next
    case 2
    then show ?thesis using p by (simp add: push_from.simps(2) [of _ CR "[]"] push_def partial_none)
  next
    case 3
    then show ?thesis using IH(2) p osc by (simp add: push_from.simps(2) [of r CR])
  next
    case 4
    then show ?thesis using IH(3) p osc by (simp add: push_from.simps(2) [of r CR])
  next
    case 5
    then show ?thesis using IH(4) p osc by (simp add: push_from.simps(2) [of r 8])
  next
    case 6
    then show ?thesis using p by (simp add: push_from.simps(2) [of r ESC cs] push_def partial_none)
  next
    case (7 k)
    have s: "scan_escape (c # cs @ y) = Found k" using scan_escape_append [OF 7(2), of y] 2(8) 7(1) by auto
    have k: "k \<le> length (c # cs)" using scan_escape_found [OF 7(2)] by simp
    then have d: "drop k (c # cs @ y) = drop k (c # cs) @ y" "take k (c # cs @ y) = take k (c # cs)"
      using drop_append [of k "c # cs" y] take_append [of k "c # cs" y] by simp_all
    have "no_late_osc (drop k (c # cs) @ y)" using no_late_osc_drop [of "c # cs @ y" k] 2(8) d(1) by simp
    then show ?thesis
      using IH(5) [OF _ _ _ _ 7(2)] p 7 s
      by (simp add: push_from.simps(2) [of r ESC] d [unfolded 7(1)])
  next
    case 8
    then show ?thesis using IH(6) [OF 8 refl prod.collapse _ osc] p
      by (simp add: push_from.simps case_prod_unfold Let_def)
  qed
qed

lemma push_all_snoc:
  "push_all r (ts @ [t]) = (let (r1, o1) = push_all r ts; (r2, o2) = push r1 t in (r2, o1 @ o2))"
  by (induction ts arbitrary: r) (simp_all add: case_prod_unfold Let_def)

lemma push_all_concat:
  assumes "no_late_osc (concat ts)"
  shows "push_all new_renderer ts = push new_renderer (concat ts)"
  using assms
proof (induction ts rule: rev_induct)
  case Nil
  then show ?case by (simp add: push_def new_renderer_def)
next
  case (snoc t ts)
  have n: "new_renderer\<lparr>partial := []\<rparr> = new_renderer" "partial new_renderer = []" by (simp_all add: new_renderer_def)
  have "push_all new_renderer ts = push new_renderer (concat ts)"
    by (rule snoc.IH) (use snoc.prems no_late_osc_prefix in simp)
  moreover have "push new_renderer (concat ts @ t) =
      (let (r1, o1) = push new_renderer (concat ts); (r2, o2) = push r1 t in (r2, o1 @ o2))"
    using push_from_split [OF n(2), of "concat ts" t] snoc.prems unfolding push_def [of new_renderer] n by simp
  ultimately show ?case by (simp add: push_all_snoc)
qed

text \<open>
  C21. Where a read happens to end does not matter, but in one case: a stream in which no
  operating-system command is ended by a two-character terminator that starts at the limit of the scan
  gives the same output and leaves the same state whether it is pushed whole or in any chunks, even
  when a chunk ends inside a control sequence, a title or a hyperlink, or between a return and its
  newline.
\<close>

theorem chunking_irrelevant:
  assumes "no_late_osc (concat ts)"
  shows "push_all new_renderer ts = push new_renderer (concat ts)"
  by (rule push_all_concat [OF assms])

text \<open>A stream rendered in the pieces it came in, and rendered whole.\<close>

definition render_chunks :: "ustr list \<Rightarrow> ustr \<times> nat" where
  "render_chunks ts = (let (r1, o1) = push_all new_renderer ts; (r2, o2) = finish r1 in (o1 @ o2, redraws r2))"

lemma render_chunks_whole: "no_late_osc (concat ts) \<Longrightarrow> render_chunks ts = render_terminal (concat ts)"
  by (simp add: render_chunks_def render_terminal_def push_all_concat)

text \<open>
  The excepted case is real: a command of the greatest length, cut between the two characters of
  its terminator, is written into the row instead of being taken as decoration.
\<close>

definition late_command :: ustr where
  "late_command = ESC # 93 # replicate 510 97 @ [ESC]"

lemma scan_osc_replicate: "i + k \<le> MAX_OSC_CHARS \<Longrightarrow> scan_osc i (replicate k 97 @ s) = scan_osc (i + k) s"
  by (induction k arbitrary: i) auto

lemma scan_late_command: "scan_escape late_command = Found 1" "scan_escape (late_command @ [92]) = Found 514"
  using scan_osc_replicate [of 2 510 "[ESC]"] scan_osc_replicate [of 2 510 "[ESC, 92]"]
  by (simp_all add: late_command_def scan_escape_def MAX_OSC_CHARS_def)

lemma write_row:
  "column r = length (canvas r) \<Longrightarrow> column r + length s \<le> ROW_CANVAS_CHARS \<Longrightarrow> list_all (\<lambda>c. 32 \<le> c) s \<Longrightarrow> partial r = [] \<Longrightarrow>
     push_from r (s @ [ESC]) = (r\<lparr>canvas := canvas r @ s, column := column r + length s, partial := [ESC]\<rparr>, [])"
proof (induction s arbitrary: r)
  case Nil
  then show ?case by (simp add: push_from.simps scan_escape_def)
next
  case (Cons c s)
  have w: "write_char c r = (r\<lparr>canvas := canvas r @ [c], column := Suc (column r)\<rparr>, [])"
    using Cons.prems by (simp add: write_char_def)
  show ?case
    using Cons.IH [of "r\<lparr>canvas := canvas r @ [c], column := Suc (column r)\<rparr>"] Cons.prems
    by (simp add: push_from.simps w)
qed

lemma late_command_depends_on_cut:
  "canvas (fst (push new_renderer (late_command @ [92]))) = []"
  "length (canvas (fst (push_all new_renderer [late_command, [92]]))) = 511"
proof -
  let ?row = "93 # replicate 510 97"
  have whole: "push_from new_renderer (late_command @ [92]) = (apply_escape (late_command @ [92]) new_renderer, [])"
  proof -
    obtain rest where rest: "late_command @ [92] = ESC # rest" "length rest = 513"
      by (simp add: late_command_def)
    have "scan_escape (ESC # rest) = Found 514" using scan_late_command(2) rest(1) by simp
    then show ?thesis unfolding rest(1) using rest(2) by (simp add: push_from.simps)
  qed
  have mark: "apply_escape (late_command @ [92]) new_renderer = push_mark (late_command @ [92]) new_renderer"
    by (simp add: apply_escape_def late_command_def strip_prefix_def starts_with_def)
  show "canvas (fst (push new_renderer (late_command @ [92]))) = []"
  proof -
    have "push new_renderer (late_command @ [92]) = push_from new_renderer (late_command @ [92])"
      by (simp add: push_def new_renderer_def)
    then show ?thesis unfolding whole mark by (simp add: push_mark_def new_renderer_def)
  qed
  define r where "r = push_mark [ESC] new_renderer"
  have r: "column r = length (canvas r)" "canvas r = []" "partial r = []" by (simp_all add: r_def push_mark_def new_renderer_def)
  have "apply_escape [ESC] new_renderer = r" by (simp add: apply_escape_def strip_prefix_def starts_with_def r_def)
  then have "push new_renderer late_command = push_from r (?row @ [ESC])"
    using scan_late_command(1) unfolding push_def by (simp add: late_command_def push_from.simps new_renderer_def)
  also have "\<dots> = (r\<lparr>canvas := ?row, column := 511, partial := [ESC]\<rparr>, [])"
    using write_row [of r ?row] r by (simp add: ROW_CANVAS_CHARS_def list_all_iff)
  finally have one: "push new_renderer late_command = (r\<lparr>canvas := ?row, column := 511, partial := [ESC]\<rparr>, [])" .
  have "canvas (fst (push (r\<lparr>canvas := ?row, column := 511, partial := [ESC]\<rparr>) [92])) = ?row"
    by (simp add: push_def push_from.simps scan_escape_def apply_escape_def strip_prefix_def starts_with_def push_mark_def)
  then show "length (canvas (fst (push_all new_renderer [late_command, [92]]))) = 511"
    by (simp add: one case_prod_unfold)
qed

section \<open>Ordinary output\<close>

definition clean_row :: "ustr \<Rightarrow> RowRenderer" where
  "clean_row w = new_renderer\<lparr>canvas := w, column := length w\<rparr>"

lemma render_cells_plain: "render_cells i [] s = s"
  by (induction i "[] :: (nat \<times> ustr) list" s rule: render_cells.induct) auto

lemma clean_end_row: "end_row (clean_row w) = (clean_row [], w @ [NL])"
  by (simp add: end_row_def flush_row_def reset_row_def clean_row_def new_renderer_def render_row_def render_cells_plain)

lemma clean_write:
  "length w < ROW_CANVAS_CHARS \<Longrightarrow> write_char c (clean_row w) = (clean_row (w @ [c]), [])"
  by (simp add: write_char_def clean_row_def new_renderer_def)

definition ordinary :: "ustr \<Rightarrow> bool" where
  "ordinary s \<longleftrightarrow> CR \<notin> set s \<and> 8 \<notin> set s \<and> ESC \<notin> set s \<and>
     list_all (\<lambda>l. length l \<le> ROW_CANVAS_CHARS) (split_on NL s)"

lemma split_on_Cons_line: "NL \<notin> set w \<Longrightarrow> split_on NL (w @ NL # s) = w # split_on NL s"
  unfolding split_on_def by (rule split_by_append_sep) auto

lemma hd_split_on: "NL \<notin> set w \<Longrightarrow> length w \<le> length (hd (split_on NL (w @ s)))"
  unfolding split_on_def by (induction w) auto

lemma push_from_clean:
  "NL \<notin> set w \<Longrightarrow> CR \<notin> set s \<Longrightarrow> 8 \<notin> set s \<Longrightarrow> ESC \<notin> set s \<Longrightarrow>
   list_all (\<lambda>l. length l \<le> ROW_CANVAS_CHARS) (split_on NL (w @ s)) \<Longrightarrow>
     \<exists>v out. push_from (clean_row w) s = (clean_row v, out) \<and> w @ s = out @ v"
proof (induction s arbitrary: w)
  case (Cons c s)
  show ?case
  proof (cases "c = NL")
    case True
    have "list_all (\<lambda>l. length l \<le> ROW_CANVAS_CHARS) (split_on NL ([] @ s))"
      using Cons.prems(5) split_on_Cons_line [OF Cons.prems(1), of s] True by simp
    then obtain v out where "push_from (clean_row []) s = (clean_row v, out)" "s = out @ v"
      using Cons.IH [of "[]"] Cons.prems by auto
    then show ?thesis using True by (simp add: push_from.simps clean_end_row)
  next
    case False
    have nl: "NL \<notin> set (w @ [c])" using False Cons.prems(1) by simp
    have eq: "w @ c # s = (w @ [c]) @ s" by simp
    have "length (hd (split_on NL (w @ c # s))) \<le> ROW_CANVAS_CHARS"
      using Cons.prems(5) by (simp add: list_all_iff)
    then have len: "length w < ROW_CANVAS_CHARS"
      using hd_split_on [OF nl, of s] unfolding eq by simp
    obtain v out where "push_from (clean_row (w @ [c])) s = (clean_row v, out)" "(w @ [c]) @ s = out @ v"
      using Cons.IH [OF nl] Cons.prems by auto
    then show ?thesis
      using Cons.prems(2-4) False len by (simp add: push_from.simps clean_write)
  qed
qed simp

text \<open>
  Ordinary output is reproduced exactly: text without returns, backspaces and escapes,
  with no line wider than the canvas, renders as itself, trailing blanks and a missing final
  newline included, and no redraw is counted.
\<close>

theorem ordinary_unchanged:
  assumes "ordinary t"
  shows "render_terminal t = (t, 0)"
proof -
  obtain v out where p: "push_from (clean_row []) t = (clean_row v, out)" and t: "t = out @ v"
    using push_from_clean [of "[]" t] assms by (auto simp: ordinary_def)
  have n: "new_renderer\<lparr>partial := []\<rparr> = clean_row []" "partial new_renderer = []"
    by (simp_all add: clean_row_def new_renderer_def)
  have "finish (clean_row v) = (clean_row [], v)"
    by (auto simp: finish_def flush_row_def reset_row_def clean_row_def new_renderer_def render_row_def
        render_cells_plain starts_with_def Let_def)
  then show ?thesis
    using p t by (simp add: render_terminal_def push_def n) (simp add: clean_row_def new_renderer_def)
qed

theorem ordinary_unchanged_witness: "render_terminal (u ''ok  '' @ [10] @ u ''done'') = (u ''ok  '' @ [10] @ u ''done'', 0)"
  by (rule ordinary_unchanged) (simp add: ordinary_def u_def split_on_def ROW_CANVAS_CHARS_def)

theorem chunking_irrelevant_witness:
  "push_all new_renderer [[97, 13], [10, 27], [93, 48, 59, 116], [27], [92, 98]] =
     push new_renderer [97, 13, 10, 27, 93, 48, 59, 116, 27, 92, 98]"
  using chunking_irrelevant [of "[[97, 13], [10, 27], [93, 48, 59, 116], [27], [92, 98]]"]
  by (simp del: push_all.simps add: scan_escape_def MAX_OSC_CHARS_def)

text \<open>
  A stream that ends with an unfinished sequence on an otherwise empty row loses those
  characters: they are kept as a mark, and a row with nothing but marks is not flushed.
\<close>

theorem finish_drops_orphan: "render_terminal [97, 10, 27, 91, 51] = ([97, 10], 0)"
  by (simp add: render_terminal_def push_def new_renderer_def push_from.simps scan_escape_def
      MAX_ESCAPE_CHARS_def write_char_def end_row_def flush_row_def reset_row_def render_row_def
      finish_def push_mark_def starts_with_def ROW_CANVAS_CHARS_def Let_def)

end
