(* ===== verification/Shell_Output.thy ===== *)
theory Shell_Output
  imports Output_Terminal Utf8
begin

text \<open>
  Output ingestion of the shell tool (\<open>crates/mcp-shell/src/output.rs\<close>): the retained tail of a
  stream, and the reader that turns raw reads into bounded text events. Bytes of the process
  arrive as a list of non-empty reads and idle timeouts, which ends where a read returns nothing
  or fails; sending an event always succeeds, and a reader whose receiver is gone stops, which is
  the prefix of a run.
\<close>

section \<open>Decoding\<close>

text \<open>\<open>decode_available\<close>: the text decoded now and how many bytes it used.\<close>

definition decode_available :: "bytes \<Rightarrow> ustr \<times> nat" where
  "decode_available bs =
     (let (s, rest) = valid_prefix bs
      in if rest = [] then (s, length bs)
         else case error_len rest of
                None \<Rightarrow> (s, length bs - length rest)
              | Some k \<Rightarrow>
                  let n = length bs - length rest + k
                  in (from_utf8_lossy (take n bs), n))"

section \<open>The reader\<close>

definition CHUNK_BYTES :: nat where "CHUNK_BYTES = 16 * 1024"

datatype ShellStream = Stdout | Stderr

record OutputEvent =
  event_stream :: ShellStream
  event_text :: ustr
  raw_bytes :: nat

record ReaderState =
  pending_bytes :: bytes
  pending_text :: ustr
  pending_raw :: nat

text \<open>The longest prefix within so many bytes, cut at a character boundary.\<close>

fun split_chunk :: "nat \<Rightarrow> ustr \<Rightarrow> ustr" where
  "split_chunk n [] = []"
| "split_chunk n (c # cs) = (if len_utf8 c \<le> n then c # split_chunk (n - len_utf8 c) cs else [])"

lemma split_chunk_take: "split_chunk n s = take (length (split_chunk n s)) s"
  by (induction n s rule: split_chunk.induct) auto

lemma split_chunk_bound: "byte_len (split_chunk n s) \<le> n"
  by (induction n s rule: split_chunk.induct) (auto simp: byte_len_Cons)

lemma split_chunk_ne: "s \<noteq> [] \<Longrightarrow> 4 \<le> n \<Longrightarrow> split_chunk n s \<noteq> []"
  using len_utf8_bounds(2) by (cases s) (auto intro: order_trans)

function emit_full_chunks :: "ShellStream \<Rightarrow> ustr \<Rightarrow> nat \<Rightarrow> OutputEvent list \<times> ustr \<times> nat" where
  "emit_full_chunks stream text raw =
     (if byte_len text < CHUNK_BYTES then ([], text, raw)
      else let chunk = split_chunk CHUNK_BYTES text;
               (evs, rest, raw') = emit_full_chunks stream (drop (length chunk) text) 0
           in (\<lparr>event_stream = stream, event_text = chunk, raw_bytes = raw\<rparr> # evs, rest, raw'))"
  by pat_completeness auto
termination
proof (relation "measure (\<lambda>(_, text, _). length text)")
  show "((stream, drop (length chunk) t, 0), stream, t, raw) \<in> measure (\<lambda>(_, text, _). length text)"
    if "\<not> byte_len t < CHUNK_BYTES" "chunk = split_chunk CHUNK_BYTES t" for stream :: ShellStream and t raw chunk
  proof -
    have "t \<noteq> []" using that(1) by (auto simp: CHUNK_BYTES_def)
    then show ?thesis using that(2) split_chunk_ne [of t CHUNK_BYTES] by (simp add: CHUNK_BYTES_def)
  qed
qed simp

declare emit_full_chunks.simps [simp del]

definition emit_remainder :: "ShellStream \<Rightarrow> ReaderState \<Rightarrow> OutputEvent list \<times> ReaderState" where
  "emit_remainder stream s =
     (if pending_text s = [] then ([], s)
      else ([\<lparr>event_stream = stream, event_text = pending_text s, raw_bytes = pending_raw s\<rparr>],
            s\<lparr>pending_text := [], pending_raw := 0\<rparr>))"

text \<open>One turn of the loop: a read of some bytes, or the idle timeout when text is pending.\<close>

datatype ReadInput = Data bytes | Idle

definition reader_step :: "ShellStream \<Rightarrow> ReaderState \<Rightarrow> ReadInput \<Rightarrow> OutputEvent list \<times> ReaderState" where
  "reader_step stream s i =
     (case i of
        Idle \<Rightarrow> emit_remainder stream s
      | Data bs \<Rightarrow>
          let all = pending_bytes s @ bs;
              (t, consumed) = decode_available all;
              (evs, text, raw) = emit_full_chunks stream (pending_text s @ t) (pending_raw s + length bs)
          in (evs, \<lparr>pending_bytes = drop consumed all, pending_text = text, pending_raw = raw\<rparr>))"

fun reader_run :: "ShellStream \<Rightarrow> ReaderState \<Rightarrow> ReadInput list \<Rightarrow> OutputEvent list \<times> ReaderState" where
  "reader_run stream s [] = ([], s)"
| "reader_run stream s (i # is) =
     (let (e1, s1) = reader_step stream s i; (e2, s2) = reader_run stream s1 is in (e1 @ e2, s2))"

definition reader_end :: "ShellStream \<Rightarrow> ReaderState \<Rightarrow> OutputEvent list" where
  "reader_end stream s =
     fst (emit_remainder stream
       (if pending_bytes s = [] then s
        else s\<lparr>pending_text := pending_text s @ from_utf8_lossy (pending_bytes s)\<rparr>))"

definition read_stream :: "ShellStream \<Rightarrow> ReadInput list \<Rightarrow> OutputEvent list" where
  "read_stream stream inputs =
     (let (evs, s) = reader_run stream \<lparr>pending_bytes = [], pending_text = [], pending_raw = 0\<rparr> inputs
      in evs @ reader_end stream s)"

section \<open>The tail\<close>

definition STREAM_CAPTURE_BYTES :: nat where "STREAM_CAPTURE_BYTES = 1048576"
definition FALLBACK_PREVIEW_BYTES :: nat where "FALLBACK_PREVIEW_BYTES = 24 * 1024"

record Tail =
  tail_bytes :: bytes
  tail_renderer :: RowRenderer
  tail_truncated :: bool

definition new_tail :: Tail where
  "new_tail = \<lparr>tail_bytes = [], tail_renderer = new_renderer, tail_truncated = False\<rparr>"

definition last_bytes :: "nat \<Rightarrow> bytes \<Rightarrow> bytes" where
  "last_bytes n bs = drop (length bs - n) bs"

definition tail_append :: "bytes \<Rightarrow> Tail \<Rightarrow> Tail" where
  "tail_append bs t =
     (if bs = [] then t
      else if length bs \<ge> STREAM_CAPTURE_BYTES
      then t\<lparr>tail_bytes := last_bytes STREAM_CAPTURE_BYTES bs, tail_truncated := True\<rparr>
      else let excess = length (tail_bytes t) + length bs - STREAM_CAPTURE_BYTES
           in t\<lparr>tail_bytes := drop excess (tail_bytes t) @ bs,
                tail_truncated := (tail_truncated t \<or> excess > 0)\<rparr>)"

definition tail_push :: "Tail \<Rightarrow> ustr \<Rightarrow> Tail" where
  "tail_push t text =
     (let (r, rendered) = push (tail_renderer t) text
      in tail_append (encode_utf8 rendered) (t\<lparr>tail_renderer := r\<rparr>))"

definition tail_finish :: "Tail \<Rightarrow> Tail" where
  "tail_finish t =
     (let (r, rendered) = finish (tail_renderer t)
      in tail_append (encode_utf8 rendered) (t\<lparr>tail_renderer := r\<rparr>))"

definition preview :: "nat \<Rightarrow> Tail \<Rightarrow> ustr \<times> bool" where
  "preview limit t =
     (from_utf8_lossy (if length (tail_bytes t) > limit then last_bytes limit (tail_bytes t) else tail_bytes t),
      length (tail_bytes t) > limit)"

definition tail_text :: "Tail \<Rightarrow> ustr" where
  "tail_text t = fst (preview usize_max t)"

section \<open>Incomplete characters\<close>

definition incomplete_char :: "bytes \<Rightarrow> bool" where
  "incomplete_char p \<longleftrightarrow> p \<noteq> [] \<and> (\<exists>c q. scalar c \<and> q \<noteq> [] \<and> encode_utf8_char c = p @ q)"

lemma incomplete_char_cases:
  assumes "incomplete_char p"
  shows "next_char p = None \<and> error_len p = None"
proof -
  obtain c q where c: "scalar c" and q: "q \<noteq> []" and e: "encode_utf8_char c = p @ q" and p: "p \<noteq> []"
    using assms by (auto simp: incomplete_char_def)
  consider "c < 0x80" | "0x80 \<le> c" "c < 0x800" | "0x800 \<le> c" "c < 0x10000" | "0x10000 \<le> c" by linarith
  then show ?thesis
  proof cases
    case 1
    then show ?thesis using e [symmetric] p q by (simp add: encode_utf8_char_def append_eq_Cons_conv)
  next
    case 2
    then have "encode_utf8_char c = [0xC0 + c div 64, 0x80 + c mod 64]" by (simp add: encode_utf8_char_def)
    then have "p = [0xC0 + c div 64]" using e [symmetric] p q by (auto simp: append_eq_Cons_conv)
    moreover have "2 \<le> c div 64" "c div 64 < 32" using 2 by linarith+
    ultimately show ?thesis by (simp add: next_char_def error_len_def)
  next
    case 3
    define a b where "a = c div 4096" and "b = c div 64 mod 64"
    have "encode_utf8_char c = [0xE0 + a, 0x80 + b, 0x80 + c mod 64]"
      using 3 by (simp add: encode_utf8_char_def a_def b_def)
    then have "p = [0xE0 + a] \<or> p = [0xE0 + a, 0x80 + b]" using e [symmetric] p q by (auto simp: append_eq_Cons_conv)
    moreover have "a < 16" "b < 64" using 3 by (auto simp: a_def b_def)
    moreover have "c div 64 = a * 64 + b"
      using div_mult_mod_eq [of "c div 64" 64] by (simp add: a_def b_def div_mult2_eq [symmetric])
    then have "a = 0 \<Longrightarrow> 32 \<le> b" "a = 13 \<Longrightarrow> b < 32"
      using 3 c \<open>b < 64\<close> div_mult_mod_eq [of c 64] mod_less_divisor [of 64 c] unfolding scalar_def by linarith+
    ultimately show ?thesis by (auto simp: next_char_def error_len_def second_ok_def continuation_def)
  next
    case 4
    define a b d where "a = c div 262144" and "b = c div 4096 mod 64" and "d = c div 64 mod 64"
    have "encode_utf8_char c = [0xF0 + a, 0x80 + b, 0x80 + d, 0x80 + c mod 64]"
      using 4 by (simp add: encode_utf8_char_def a_def b_def d_def)
    then have "p = [0xF0 + a] \<or> p = [0xF0 + a, 0x80 + b] \<or> p = [0xF0 + a, 0x80 + b, 0x80 + d]"
      using e [symmetric] p q by (auto simp: append_eq_Cons_conv)
    moreover have "a < 5" "b < 64" "d < 64" using c by (auto simp: a_def b_def d_def scalar_def)
    moreover have "c div 4096 = a * 64 + b"
      using div_mult_mod_eq [of "c div 4096" 64] by (simp add: a_def b_def div_mult2_eq [symmetric])
    then have "a = 0 \<Longrightarrow> 16 \<le> b" "a = 4 \<Longrightarrow> b < 16" using 4 c by (auto simp: scalar_def)
    ultimately show ?thesis by (auto simp: next_char_def error_len_def second_ok_def continuation_def)
  qed
qed

lemma next_char_Nil [simp]: "next_char [] = None"
  by (simp add: next_char_def)

lemma valid_prefix_encode:
  "wf_text s \<Longrightarrow> next_char r = None \<Longrightarrow> valid_prefix (encode_utf8 s @ r) = (s, r)"
proof (induction s)
  case Nil
  then show ?case by (subst valid_prefix.simps) (simp add: encode_utf8_def)
next
  case (Cons c s)
  then show ?case
    by (subst valid_prefix.simps) (simp add: encode_utf8_Cons next_char_encode wf_text_def)
qed

text \<open>A prefix of the bytes of a text is the bytes of a prefix and at most part of one character.\<close>

lemma encode_prefix:
  "encode_utf8 s = bs @ r \<Longrightarrow> wf_text s \<Longrightarrow>
     \<exists>t w p. s = t @ w \<and> bs = encode_utf8 t @ p \<and> encode_utf8 w = p @ r \<and> (p = [] \<or> incomplete_char p)"
proof (induction s arbitrary: bs)
  case Nil
  then show ?case by (simp add: encode_utf8_def)
next
  case (Cons c s)
  have e: "encode_utf8_char c @ encode_utf8 s = bs @ r" using Cons.prems(1) by (simp add: encode_utf8_Cons)
  have c: "scalar c" "wf_text s" using Cons.prems(2) by (simp_all add: wf_text_def)
  show ?case
  proof (cases "length (encode_utf8_char c) \<le> length bs")
    case True
    then obtain bs' where bs: "bs = encode_utf8_char c @ bs'" "encode_utf8 s = bs' @ r"
      using e by (metis append_eq_append_conv_if append_eq_conv_conj)
    from Cons.IH [OF bs(2) c(2)] obtain t w p where
      "s = t @ w" "bs' = encode_utf8 t @ p" "encode_utf8 w = p @ r" "p = [] \<or> incomplete_char p" by blast
    then show ?thesis
      by (intro exI [of _ "c # t"] exI [of _ w] exI [of _ p]) (simp add: bs encode_utf8_Cons)
  next
    case False
    define q where "q = drop (length bs) (encode_utf8_char c)"
    have "take (length bs) (encode_utf8_char c @ encode_utf8 s) = bs" using e by simp
    then have q: "encode_utf8_char c = bs @ q" "q \<noteq> []"
      using False by (simp_all add: q_def) (metis append_take_drop_id)
    then have "bs = [] \<or> incomplete_char bs" using c(1) by (auto simp: incomplete_char_def)
    then show ?thesis
      using Cons.prems(1) by (intro exI [of _ "[]"] exI [of _ "c # s"] exI [of _ bs]) (simp add: encode_utf8_def)
  qed
qed

lemma decode_available_prefix:
  assumes "wf_text t" "p = [] \<or> incomplete_char p"
  shows "decode_available (encode_utf8 t @ p) = (t, length (encode_utf8 t))"
proof -
  have "next_char p = None" "p = [] \<or> error_len p = None" using assms(2) incomplete_char_cases by auto
  then show ?thesis using assms(1) by (auto simp: decode_available_def valid_prefix_encode)
qed

section \<open>The reader delivers the stream\<close>

definition texts :: "OutputEvent list \<Rightarrow> ustr" where
  "texts evs = concat (map event_text evs)"

definition raws :: "OutputEvent list \<Rightarrow> nat" where
  "raws evs = sum_list (map raw_bytes evs)"

definition bounded_events :: "OutputEvent list \<Rightarrow> bool" where
  "bounded_events evs \<longleftrightarrow> list_all (\<lambda>e. event_text e \<noteq> [] \<and> byte_len (event_text e) \<le> CHUNK_BYTES) evs"

lemma events_append [simp]:
  "texts (a @ b) = texts a @ texts b" "raws (a @ b) = raws a + raws b"
  "bounded_events (a @ b) \<longleftrightarrow> bounded_events a \<and> bounded_events b"
  "texts [] = []" "raws [] = 0" "bounded_events []"
  by (simp_all add: texts_def raws_def bounded_events_def)

lemma emit_full_chunks_spec:
  "emit_full_chunks stream s raw = (evs, rest, raw') \<Longrightarrow>
     texts evs @ rest = s \<and> raws evs + raw' = raw \<and> byte_len rest < CHUNK_BYTES \<and> bounded_events evs \<and>
     (evs \<noteq> [] \<longrightarrow> raw' = 0)"
proof (induction stream s raw arbitrary: evs rest raw' rule: emit_full_chunks.induct)
  case (1 stream s raw)
  show ?case
  proof (cases "byte_len s < CHUNK_BYTES")
    case True
    then show ?thesis using "1.prems" by (simp add: emit_full_chunks.simps [of stream s raw])
  next
    case False
    define chunk where "chunk = split_chunk CHUNK_BYTES s"
    obtain evs1 where r: "emit_full_chunks stream (drop (length chunk) s) 0 = (evs1, rest, raw')"
      and evs: "evs = \<lparr>event_stream = stream, event_text = chunk, raw_bytes = raw\<rparr> # evs1"
      using "1.prems" False
      by (auto simp: emit_full_chunks.simps [of stream s raw] chunk_def Let_def split: prod.splits)
    have "s \<noteq> []" using False by (auto simp: CHUNK_BYTES_def)
    then have "chunk \<noteq> []" "byte_len chunk \<le> CHUNK_BYTES" "chunk = take (length chunk) s"
      using split_chunk_ne [of s CHUNK_BYTES] split_chunk_bound split_chunk_take
      by (simp_all add: chunk_def CHUNK_BYTES_def)
    moreover have "texts evs1 @ rest = drop (length chunk) s" "raws evs1 + raw' = 0" "byte_len rest < CHUNK_BYTES"
      "bounded_events evs1"
      using "1.IH" [OF False chunk_def r] by auto
    ultimately show ?thesis
      by (simp add: evs texts_def raws_def bounded_events_def) (metis append_take_drop_id)
  qed
qed

fun input_bytes :: "ReadInput \<Rightarrow> bytes" where
  "input_bytes Idle = []"
| "input_bytes (Data bs) = bs"

lemma emit_remainder_spec:
  assumes "emit_remainder stream s = (evs, s')" "byte_len (pending_text s) \<le> CHUNK_BYTES"
  shows "texts evs @ pending_text s' = texts [] @ pending_text s" "raws evs + pending_raw s' = pending_raw s"
    "bounded_events evs" "pending_bytes s' = pending_bytes s" "byte_len (pending_text s') \<le> byte_len (pending_text s)"
    "pending_text s' = []"
  using assms by (auto simp: emit_remainder_def texts_def raws_def bounded_events_def split: if_splits)

text \<open>The state while the rest of the stream is \<open>future\<close> and the undelivered text is \<open>w\<close>.\<close>

definition reader_ok :: "ustr \<Rightarrow> bytes \<Rightarrow> ReaderState \<Rightarrow> bool" where
  "reader_ok w future s \<longleftrightarrow>
     wf_text w \<and> encode_utf8 w = pending_bytes s @ future \<and> byte_len (pending_text s) < CHUNK_BYTES \<and>
     (pending_bytes s = [] \<or> incomplete_char (pending_bytes s))"

lemma reader_step_ok:
  assumes ok: "reader_ok w (input_bytes i @ future) s" and r: "reader_step stream s i = (evs, s')"
  shows "\<exists>t v. w = t @ v \<and> reader_ok v future s' \<and> texts evs @ pending_text s' = pending_text s @ t \<and> bounded_events evs"
proof (cases i)
  case Idle
  then have e: "emit_remainder stream s = (evs, s')" using r by (simp add: reader_step_def)
  show ?thesis
    using emit_remainder_spec [OF e] ok Idle
    by (intro exI [of _ "[]"] exI [of _ w]) (auto simp: reader_ok_def)
next
  case (Data bs)
  have wf: "wf_text w" and w: "encode_utf8 w = (pending_bytes s @ bs) @ future"
    using ok Data by (simp_all add: reader_ok_def)
  obtain t v p where t: "w = t @ v" "pending_bytes s @ bs = encode_utf8 t @ p" "encode_utf8 v = p @ future"
    "p = [] \<or> incomplete_char p"
    using encode_prefix [OF w wf] by blast
  have wf': "wf_text t" "wf_text v" using wf t(1) by (auto simp: wf_text_def)
  obtain left raw where e: "emit_full_chunks stream (pending_text s @ t) (pending_raw s + length bs) = (evs, left, raw)"
    and s': "s' = \<lparr>pending_bytes = p, pending_text = left, pending_raw = raw\<rparr>"
    using r Data decode_available_prefix [OF wf'(1) t(4)]
    by (auto simp: reader_step_def t(2) Let_def split: prod.splits)
  show ?thesis
    using emit_full_chunks_spec [OF e] t wf' by (intro exI [of _ t] exI [of _ v]) (simp add: reader_ok_def s')
qed

lemma reader_run_ok:
  "reader_ok w (concat (map input_bytes is)) s \<Longrightarrow> reader_run stream s is = (evs, s') \<Longrightarrow>
     \<exists>t v. w = t @ v \<and> reader_ok v [] s' \<and> texts evs @ pending_text s' = pending_text s @ t \<and> bounded_events evs"
proof (induction "is" arbitrary: w s evs)
  case Nil
  then show ?case by (intro exI [of _ "[]"] exI [of _ w]) simp
next
  case (Cons i rest)
  obtain e1 s1 e2 where st: "reader_step stream s i = (e1, s1)" "reader_run stream s1 rest = (e2, s')" "evs = e1 @ e2"
    using Cons.prems(2) by (auto simp: Let_def split: prod.splits)
  obtain t v where tv: "w = t @ v" "reader_ok v (concat (map input_bytes rest)) s1"
    "texts e1 @ pending_text s1 = pending_text s @ t" "bounded_events e1"
    using reader_step_ok [OF _ st(1), where w = w and future = "concat (map input_bytes rest)"] Cons.prems(1)
    by (simp; blast)
  obtain t' v' where tv': "v = t' @ v'" "reader_ok v' [] s'" "texts e2 @ pending_text s' = pending_text s1 @ t'"
    "bounded_events e2"
    using Cons.IH [OF tv(2) st(2)] by blast
  have "texts evs @ pending_text s' = (texts e1 @ pending_text s1) @ t'" using tv'(3) by (simp add: st(3))
  then have "texts evs @ pending_text s' = pending_text s @ (t @ t')" using tv(3) by simp
  then show ?case using tv(1,4) tv'(1,2,4) st(3) by (metis append_assoc events_append(3))
qed

text \<open>Raw bytes are conserved whatever the stream holds.\<close>

definition raw_settled :: "ReaderState \<Rightarrow> bool" where
  "raw_settled s \<longleftrightarrow> (pending_text s = [] \<longrightarrow> pending_bytes s = [] \<longrightarrow> pending_raw s = 0)"

lemma valid_prefix_Nil: "valid_prefix bs = ([], r) \<Longrightarrow> r = bs"
  by (subst (asm) valid_prefix.simps) (auto simp: Let_def split: option.splits prod.splits)

lemma lossy_ne: "bs \<noteq> [] \<Longrightarrow> from_utf8_lossy bs \<noteq> []"
proof -
  assume bs: "bs \<noteq> []"
  obtain s r where v: "valid_prefix bs = (s, r)" by fastforce
  then have "s \<noteq> [] \<or> r \<noteq> []" using bs valid_prefix_Nil by auto
  then show ?thesis by (subst from_utf8_lossy.simps) (auto simp: v)
qed

lemma decode_available_all: "decode_available bs = ([], n) \<Longrightarrow> length bs \<le> n \<Longrightarrow> bs = []"
proof -
  assume d: "decode_available bs = ([], n)" and n: "length bs \<le> n"
  obtain s r where v: "valid_prefix bs = (s, r)" by fastforce
  have "from_utf8_lossy (take n bs) \<noteq> []" if "bs \<noteq> []" using lossy_ne [of bs] n that by simp
  moreover have "r = bs" if "s = []" using valid_prefix_Nil v that by simp
  ultimately show "bs = []"
    using d n by (cases "bs = []") (auto simp: decode_available_def v Let_def split: if_splits option.splits)
qed

lemma reader_step_raw:
  assumes "reader_step stream s i = (evs, s')" "raw_settled s"
  shows "raws evs + pending_raw s' = pending_raw s + length (input_bytes i) \<and> raw_settled s'"
proof (cases i)
  case Idle
  then show ?thesis using assms
    by (auto simp: reader_step_def emit_remainder_def raw_settled_def raws_def split: if_splits)
next
  case (Data bs)
  obtain t n left raw where d: "decode_available (pending_bytes s @ bs) = (t, n)"
    and e: "emit_full_chunks stream (pending_text s @ t) (pending_raw s + length bs) = (evs, left, raw)"
    and s': "s' = \<lparr>pending_bytes = drop n (pending_bytes s @ bs), pending_text = left, pending_raw = raw\<rparr>"
    using assms(1) Data by (auto simp: reader_step_def Let_def split: prod.splits)
  note E = emit_full_chunks_spec [OF e]
  have "raw = 0" if none: "left = []" "drop n (pending_bytes s @ bs) = []"
  proof (cases "evs = []")
    case True
    then have "pending_text s = []" "t = []" using E none(1) by auto
    moreover from this(2) have "pending_bytes s @ bs = []"
      using decode_available_all [OF d [unfolded \<open>t = []\<close>]] none(2) unfolding drop_eq_Nil by blast
    ultimately show ?thesis using E assms(2) True by (simp add: raw_settled_def)
  qed (use E in simp)
  then show ?thesis using E Data by (simp add: s' raw_settled_def)
qed

lemma reader_run_raw:
  "reader_run stream s is = (evs, s') \<Longrightarrow> raw_settled s \<Longrightarrow>
     raws evs + pending_raw s' = pending_raw s + length (concat (map input_bytes is)) \<and> raw_settled s'"
proof (induction "is" arbitrary: s evs)
  case (Cons i rest)
  obtain e1 s1 e2 where st: "reader_step stream s i = (e1, s1)" "reader_run stream s1 rest = (e2, s')" "evs = e1 @ e2"
    using Cons.prems(1) by (auto simp: Let_def split: prod.splits)
  show ?case using reader_step_raw [OF st(1) Cons.prems(2)] Cons.IH [OF st(2)] by (simp add: st(3))
qed simp

lemma reader_end_raw: "raw_settled s \<Longrightarrow> raws (reader_end stream s) = pending_raw s"
  using lossy_ne [of "pending_bytes s"]
  by (auto simp: reader_end_def emit_remainder_def raw_settled_def raws_def)

text \<open>
  C22. What the events of a stream add up to, however the process writes and whenever the reader
  idles: the raw bytes charged are exactly the bytes read, malformed output included; and when
  the bytes are the UTF-8 form of a text, the event texts joined are that text, each event is
  non-empty and no larger than the chunk limit.
\<close>

theorem read_stream_exact:
  "raws (read_stream stream inputs) = length (concat (map input_bytes inputs)) \<and>
   (wf_text s \<and> concat (map input_bytes inputs) = encode_utf8 s \<longrightarrow>
      texts (read_stream stream inputs) = s \<and> bounded_events (read_stream stream inputs))"
proof -
  let ?s0 = "\<lparr>pending_bytes = [], pending_text = [], pending_raw = 0\<rparr>"
  obtain evs s' where r: "reader_run stream ?s0 inputs = (evs, s')" by fastforce
  have rs: "read_stream stream inputs = evs @ reader_end stream s'" by (simp add: read_stream_def r)
  have raw: "raws evs + pending_raw s' = length (concat (map input_bytes inputs))" "raw_settled s'"
    using reader_run_raw [OF r] by (simp_all add: raw_settled_def)
  have "texts (read_stream stream inputs) = s \<and> bounded_events (read_stream stream inputs)"
    if "wf_text s" "concat (map input_bytes inputs) = encode_utf8 s"
  proof -
    have ok: "reader_ok s (concat (map input_bytes inputs)) ?s0"
      using that by (simp add: reader_ok_def CHUNK_BYTES_def)
    obtain t v where tv: "s = t @ v" "reader_ok v [] s'" "texts evs @ pending_text s' = t" "bounded_events evs"
      using reader_run_ok [OF ok r] unfolding ReaderState.simps append_Nil by blast
    have "v = []"
    proof (rule ccontr)
      assume "v \<noteq> []"
      then obtain c cs where v: "v = c # cs" by (cases v) auto
      then have "next_char (pending_bytes s') = Some (c, encode_utf8 cs)"
        using tv(2) next_char_encode [of c "encode_utf8 cs"] by (simp add: reader_ok_def encode_utf8_Cons wf_text_def)
      then show False using tv(2) incomplete_char_cases by (auto simp: reader_ok_def)
    qed
    moreover from this have "pending_bytes s' = []" using tv(2) by (simp add: reader_ok_def encode_utf8_def)
    moreover have "byte_len (pending_text s') < CHUNK_BYTES" using tv(2) by (simp add: reader_ok_def)
    ultimately show ?thesis
      using tv(1,3,4) by (auto simp: rs reader_end_def emit_remainder_def texts_def bounded_events_def)
  qed
  then show ?thesis using raw reader_end_raw [OF raw(2)] by (simp add: rs)
qed

theorem read_stream_exact_witness:
  "raws (read_stream Stdout [Data [0x61, 0xC3], Idle, Data [0xA9], Idle]) = 3 \<and>
   texts (read_stream Stdout [Data [0x61, 0xC3], Idle, Data [0xA9], Idle]) = [0x61, 0xE9]"
  using read_stream_exact [of Stdout "[Data [0x61, 0xC3], Idle, Data [0xA9], Idle]" "[0x61, 0xE9]"]
  by (simp add: wf_text_def scalar_def encode_utf8_def encode_utf8_char_def)

text \<open>
  A read that holds an invalid sequence is decoded only up to it: what follows in the same read
  stays pending until more output, or the end, arrives, and its raw bytes are charged with the
  text before it.
\<close>

lemma decode_stops_at_invalid:
  "decode_available [0xFF, 0x61, 0x62] = ([REPLACEMENT], 1)"
  by (simp add: decode_available_def valid_prefix.simps from_utf8_lossy.simps next_char_def error_len_def)

section \<open>The tail keeps the newest rendered bytes\<close>

definition tail_inv :: "bytes \<Rightarrow> Tail \<Rightarrow> bool" where
  "tail_inv h t \<longleftrightarrow>
     tail_bytes t = last_bytes STREAM_CAPTURE_BYTES h \<and>
     (length h > STREAM_CAPTURE_BYTES \<longrightarrow> tail_truncated t) \<and>
     (tail_truncated t \<longrightarrow> length h \<ge> STREAM_CAPTURE_BYTES)"

lemma last_bytes_length: "length (last_bytes n bs) = min n (length bs)"
  by (simp add: last_bytes_def)

lemma last_bytes_append:
  "last_bytes n (h @ bs) =
     (if n \<le> length bs then last_bytes n bs
      else drop (length (last_bytes n h) + length bs - n) (last_bytes n h) @ bs)"
proof -
  have "length bs + length h - (n + (length h - n)) + (length h - n) = length bs + length h - n" if "length bs < n"
    using that by linarith
  then show ?thesis by (auto simp: last_bytes_def not_le add.commute)
qed

lemma tail_append_inv:
  assumes "tail_inv h t"
  shows "tail_inv (h @ bs) (tail_append bs t)"
proof -
  have l: "length (tail_bytes t) = min STREAM_CAPTURE_BYTES (length h)"
    using assms by (simp add: tail_inv_def last_bytes_length)
  have pos: "0 < STREAM_CAPTURE_BYTES" by (simp add: STREAM_CAPTURE_BYTES_def)
  show ?thesis
    using assms l pos
    by (auto simp: tail_inv_def tail_append_def Let_def last_bytes_append)
qed

lemma tail_append_renderer [simp]: "tail_renderer (tail_append bs t) = tail_renderer t"
  by (simp add: tail_append_def Let_def)

lemma tail_inv_renderer [simp]: "tail_inv h (t\<lparr>tail_renderer := r\<rparr>) = tail_inv h t"
  by (simp add: tail_inv_def)

lemma encode_utf8_append: "encode_utf8 (a @ b) = encode_utf8 a @ encode_utf8 b"
  by (simp add: encode_utf8_def)

lemma tail_push_all:
  "tail_inv h t \<Longrightarrow> push_all (tail_renderer t) ts = (r, out) \<Longrightarrow>
     tail_inv (h @ encode_utf8 out) (foldl tail_push t ts) \<and> tail_renderer (foldl tail_push t ts) = r"
proof (induction ts arbitrary: h t out)
  case Nil
  then show ?case by (simp add: encode_utf8_def)
next
  case (Cons x ts)
  obtain r1 o1 o2 where p: "push (tail_renderer t) x = (r1, o1)" "push_all r1 ts = (r, o2)" "out = o1 @ o2"
    using Cons.prems(2) by (auto simp: Let_def split: prod.splits)
  have t: "tail_push t x = tail_append (encode_utf8 o1) (t\<lparr>tail_renderer := r1\<rparr>)"
    by (simp add: tail_push_def p(1))
  have "tail_inv (h @ encode_utf8 o1) (tail_push t x)" "tail_renderer (tail_push t x) = r1"
    using Cons.prems(1) by (simp_all add: t tail_append_inv)
  then show ?case using Cons.IH [of "h @ encode_utf8 o1" "tail_push t x" o2] p(2,3) by (simp add: encode_utf8_append)
qed

text \<open>The window after a whole stream.\<close>

lemma tail_window:
  "tail_inv (encode_utf8 (fst (render_chunks ts))) (tail_finish (foldl tail_push new_tail ts))"
  "redraws (tail_renderer (tail_finish (foldl tail_push new_tail ts))) = snd (render_chunks ts)"
proof -
  obtain r out r' out' where p: "push_all new_renderer ts = (r, out)" and f: "finish r = (r', out')"
    by fastforce
  let ?t = "foldl tail_push new_tail ts"
  have "tail_inv [] new_tail" by (simp add: tail_inv_def new_tail_def last_bytes_def STREAM_CAPTURE_BYTES_def)
  then have t: "tail_inv (encode_utf8 out) ?t" "tail_renderer ?t = r"
    using tail_push_all [of "[]" new_tail ts r out] p by (simp_all add: new_tail_def)
  then have "tail_inv (encode_utf8 out @ encode_utf8 out') (tail_finish ?t)"
    using tail_append_inv [of "encode_utf8 out" "?t\<lparr>tail_renderer := r'\<rparr>"] by (simp add: tail_finish_def f)
  then show "tail_inv (encode_utf8 (fst (render_chunks ts))) (tail_finish ?t)"
    by (simp add: render_chunks_def p f encode_utf8_append)
  show "redraws (tail_renderer (tail_finish ?t)) = snd (render_chunks ts)"
    by (simp add: tail_finish_def render_chunks_def p f t(2))
qed

text \<open>A preview is a suffix of what the window is a suffix of.\<close>

lemma preview_of_window:
  assumes "tail_inv h t" "n < STREAM_CAPTURE_BYTES"
  shows "preview n t = (from_utf8_lossy (last_bytes n h), length h > n)"
proof -
  have "last_bytes n (last_bytes STREAM_CAPTURE_BYTES h) = last_bytes n h"
    if "n \<le> STREAM_CAPTURE_BYTES" for n
  proof -
    have "length h - (length h - STREAM_CAPTURE_BYTES + n) + (length h - STREAM_CAPTURE_BYTES) = length h - n"
      using that by linarith
    then show ?thesis by (simp add: last_bytes_def)
  qed
  moreover have "last_bytes n x = x" if "length x \<le> n" for x :: bytes and n using that by (simp add: last_bytes_def)
  ultimately show ?thesis
    using assms last_bytes_length [of STREAM_CAPTURE_BYTES h]
    by (auto simp: preview_def tail_inv_def not_less min_def)
qed

text \<open>
  C23. What a stream's window holds when the command ends: the last megabyte of the UTF-8 form of
  the output as the renderer shows it, fed with the events the reader made. A window that lost bytes
  says so, and one that says so has seen at least a full window. How the reader cut the output into
  events does not show, unless an operating-system command is ended by a two-character terminator that
  starts at the limit of the scan: otherwise it is the output rendered whole.
\<close>

theorem tail_refines_rendering:
  "let out = encode_utf8 (fst (render_chunks ts));
       t = tail_finish (foldl tail_push new_tail ts)
   in tail_bytes t = last_bytes STREAM_CAPTURE_BYTES out \<and>
      (length out > STREAM_CAPTURE_BYTES \<longrightarrow> tail_truncated t) \<and>
      (tail_truncated t \<longrightarrow> length out \<ge> STREAM_CAPTURE_BYTES) \<and>
      (no_late_osc (concat ts) \<longrightarrow> render_chunks ts = render_terminal (concat ts))"
  using tail_window(1) [of ts] render_chunks_whole by (simp add: tail_inv_def Let_def)

theorem tail_refines_rendering_witness:
  "let out = encode_utf8 (fst (render_terminal [111, 107, 27, 93, 48, 7, 10, 49]));
       t = tail_finish (foldl tail_push new_tail [[111, 107, 27], [93, 48], [7, 10, 49]])
   in tail_bytes t = last_bytes STREAM_CAPTURE_BYTES out"
proof -
  have "no_late_osc (concat [[111, 107, 27], [93, 48], [7, 10, 49]])" by (simp add: scan_escape_def MAX_OSC_CHARS_def)
  then show ?thesis using tail_refines_rendering [of "[[111, 107, 27], [93, 48], [7, 10, 49]]"] by (simp add: Let_def)
qed

end
