(* ===== verification/Shell_Progress.thy ===== *)
theory Shell_Progress
  imports Shell_Output
begin

text \<open>
  Live progress (\<open>crates/mcp-shell/src/progress.rs\<close>): the bounded queue between the supervisor
  and a host's sink, the worker that delivers from it, and the message text of a chunk. The sink
  is outside the program: each delivery has an outcome, and the scheduler decides when the worker
  runs, so the worker's moves are steps of their own.
\<close>

record ShellProgressChunk =
  chunk_version :: nat
  chunk_sequence :: nat
  chunk_stream :: ShellStream
  chunk_text :: ustr

definition PROGRESS_QUEUE_CAPACITY :: nat where "PROGRESS_QUEUE_CAPACITY = 32"

section \<open>The pump\<close>

text \<open>
  \<open>delivered\<close> is what the sink accepted, in order; it is a ghost of the host's side. The worker
  holds a chunk \<open>in_flight\<close> while it waits for the sink. \<open>failed\<close> is the error it ended with.
\<close>

record ProgressPump =
  queue :: "ShellProgressChunk list"
  in_flight :: "ShellProgressChunk option"
  delivered :: "ShellProgressChunk list"
  failed :: "ustr option"

definition start_pump :: ProgressPump where
  "start_pump = \<lparr>queue = [], in_flight = None, delivered = [], failed = None\<rparr>"

definition enqueue :: "nat \<Rightarrow> ShellStream \<Rightarrow> ustr \<Rightarrow> ProgressPump \<Rightarrow> ustr + ProgressPump" where
  "enqueue sequence stream text p =
     (if failed p \<noteq> None then Inl (u ''progress delivery stopped'')
      else if length (queue p) \<ge> PROGRESS_QUEUE_CAPACITY then Inl (u ''progress queue is saturated'')
      else Inr (p\<lparr>queue := queue p @
             [\<lparr>chunk_version = 1, chunk_sequence = sequence, chunk_stream = stream, chunk_text = text\<rparr>]\<rparr>))"

text \<open>The worker: it takes the next chunk, or the publication it waits for ends or times out.\<close>

datatype WorkerMove = Take | Published | PublishFailed ustr | PublishTimedOut

definition worker_step :: "WorkerMove \<Rightarrow> ProgressPump \<Rightarrow> ProgressPump" where
  "worker_step m p =
     (if failed p \<noteq> None then p
      else case m of
             Take \<Rightarrow>
               (case (in_flight p, queue p) of
                  (None, c # cs) \<Rightarrow> p\<lparr>queue := cs, in_flight := Some c\<rparr>
                | _ \<Rightarrow> p)
           | Published \<Rightarrow>
               (case in_flight p of
                  None \<Rightarrow> p
                | Some c \<Rightarrow> p\<lparr>in_flight := None, delivered := delivered p @ [c]\<rparr>)
           | PublishFailed e \<Rightarrow> if in_flight p = None then p else p\<lparr>in_flight := None, failed := Some e\<rparr>
           | PublishTimedOut \<Rightarrow>
               if in_flight p = None then p
               else p\<lparr>in_flight := None, failed := Some (u ''progress delivery timed out'')\<rparr>)"

text \<open>
  \<open>finish\<close>: the producer is gone; the worker runs through the moves it makes before the drain
  timeout, and has ended when it failed or when nothing is left to deliver.
\<close>

definition pump_finish :: "WorkerMove list \<Rightarrow> ProgressPump \<Rightarrow> ustr + ProgressPump" where
  "pump_finish moves p =
     (let p' = fold worker_step moves p
      in case failed p' of
           Some e \<Rightarrow> Inl e
         | None \<Rightarrow> if in_flight p' = None \<and> queue p' = [] then Inr p' else Inl (u ''progress drain timed out''))"

text \<open>\<open>receive_failure\<close>: ready exactly when the worker reported an error.\<close>

definition receive_failure :: "ProgressPump option \<Rightarrow> ustr option" where
  "receive_failure p = Option.bind p failed"

section \<open>Nothing is lost or reordered\<close>

definition pump_content :: "ProgressPump \<Rightarrow> ShellProgressChunk list" where
  "pump_content p = delivered p @ (case in_flight p of None \<Rightarrow> [] | Some c \<Rightarrow> [c]) @ queue p"

definition pump_ok :: "ShellProgressChunk list \<Rightarrow> ProgressPump \<Rightarrow> bool" where
  "pump_ok accepted p \<longleftrightarrow>
     length (queue p) \<le> PROGRESS_QUEUE_CAPACITY \<and> (failed p = None \<longrightarrow> pump_content p = accepted) \<and>
     (\<exists>rest. accepted = delivered p @ rest)"

lemma start_pump_ok: "pump_ok [] start_pump"
  by (simp add: pump_ok_def pump_content_def start_pump_def)

lemma enqueue_ok:
  assumes "pump_ok accepted p" "enqueue n s t p = Inr p'"
  shows "pump_ok (accepted @ [\<lparr>chunk_version = 1, chunk_sequence = n, chunk_stream = s, chunk_text = t\<rparr>]) p'"
  using assms by (auto simp: pump_ok_def enqueue_def pump_content_def split: if_splits)

lemma worker_step_ok: "pump_ok accepted p \<Longrightarrow> pump_ok accepted (worker_step m p)"
  by (auto simp: pump_ok_def worker_step_def pump_content_def split: WorkerMove.splits list.splits option.splits)

lemma worker_steps_ok: "pump_ok accepted p \<Longrightarrow> pump_ok accepted (fold worker_step moves p)"
  by (induction moves arbitrary: p) (auto simp: worker_step_ok)

lemma pump_finish_delivers: "pump_ok accepted p \<Longrightarrow> pump_finish moves p = Inr p' \<Longrightarrow> delivered p' = accepted"
  using worker_steps_ok [of accepted p moves]
  by (auto simp: pump_finish_def Let_def pump_ok_def pump_content_def split: option.splits if_splits)

section \<open>The standard message\<close>

definition STANDARD_MESSAGE_BYTES :: nat where "STANDARD_MESSAGE_BYTES = 16 * 1024"

fun hex :: "nat \<Rightarrow> ustr" where
  "hex n = (if n < 16 then [hex_digit n] else hex (n div 16) @ [hex_digit (n mod 16)])"

declare hex.simps [simp del]

definition bidi_control :: "uchar \<Rightarrow> bool" where
  "bidi_control c \<longleftrightarrow>
     c = 0x061C \<or> c = 0x200E \<or> c = 0x200F \<or> 0x2028 \<le> c \<and> c \<le> 0x202E \<or> 0x2066 \<le> c \<and> c \<le> 0x2069"

definition message_piece :: "uchar \<Rightarrow> ustr" where
  "message_piece c =
     (if c = 0 then [92, 48] else if c = 10 then [92, 110] else if c = 13 then [92, 114] else if c = 9 then [92, 116]
      else if c < 32 \<or> c = 127 then [92, 120] @ hex2 c
      else if is_control c then [92, 117, 123] @ hex c @ [125]
      else if bidi_control c then [92, 117, 123] @ hex c @ [125]
      else [c])"

fun message_loop :: "ustr \<Rightarrow> ustr \<Rightarrow> ustr" where
  "message_loop rendered [] = rendered"
| "message_loop rendered (c # cs) =
     (let piece = message_piece c
      in if byte_len rendered + byte_len piece > STANDARD_MESSAGE_BYTES - 3 then rendered @ u ''...''
         else message_loop (rendered @ piece) cs)"

definition standard_message :: "ShellProgressChunk \<Rightarrow> ustr" where
  "standard_message chunk =
     message_loop (u ''['' @ (case chunk_stream chunk of Stdout \<Rightarrow> u ''stdout'' | Stderr \<Rightarrow> u ''stderr'') @ u ''] '')
       (chunk_text chunk)"

text \<open>What a terminal would act on: control characters and the bidirectional controls.\<close>

definition inert :: "uchar \<Rightarrow> bool" where
  "inert c \<longleftrightarrow> \<not> is_control c \<and> \<not> bidi_control c"

lemma inert_small: "33 \<le> c \<Longrightarrow> c < 127 \<Longrightarrow> inert c"
  by (simp add: inert_def is_control_def bidi_control_def)

lemma hex_digit_inert: "n < 16 \<Longrightarrow> inert (hex_digit n)"
  by (rule inert_small) (auto simp: hex_digit_def)

lemma hex_inert: "list_all inert (hex n)"
  by (induction n rule: hex.induct) (subst hex.simps, auto simp: hex_digit_inert)

lemma message_piece_inert: "list_all inert (message_piece c)"
  using hex_inert hex_digit_inert
  by (auto simp: message_piece_def hex2_def inert_small) (auto simp: inert_def)

lemma message_loop_ok:
  "byte_len rendered + 3 \<le> STANDARD_MESSAGE_BYTES \<Longrightarrow> list_all inert rendered \<Longrightarrow>
     byte_len (message_loop rendered s) \<le> STANDARD_MESSAGE_BYTES \<and> list_all inert (message_loop rendered s)"
proof (induction s arbitrary: rendered)
  case (Cons c s)
  have "list_all inert (message_piece c)" by (rule message_piece_inert)
  moreover have "byte_len (u ''...'') = 3" "list_all inert (u ''...'')"
    by (simp_all add: u_def byte_len_def len_utf8_def inert_def is_control_def bidi_control_def)
  ultimately show ?case
    using Cons.IH [of "rendered @ message_piece c"] Cons.prems by (auto simp: Let_def byte_len_append)
qed auto

text \<open>
  The message a client shows for a chunk is inert and small, whatever the command wrote: it
  holds no control character and no bidirectional control, and stays within the message limit.
\<close>

theorem standard_message_inert:
  "byte_len (standard_message chunk) \<le> STANDARD_MESSAGE_BYTES \<and> list_all inert (standard_message chunk)"
proof -
  let ?h = "u ''['' @ (case chunk_stream chunk of Stdout \<Rightarrow> u ''stdout'' | Stderr \<Rightarrow> u ''stderr'') @ u ''] ''"
  have "byte_len ?h + 3 \<le> STANDARD_MESSAGE_BYTES" "list_all inert ?h"
    by (auto simp: u_def byte_len_def len_utf8_def inert_def is_control_def bidi_control_def STANDARD_MESSAGE_BYTES_def
        split: ShellStream.splits)
  then show ?thesis using message_loop_ok unfolding standard_message_def by blast
qed

end
