(* ===== verification/Bash_Program.thy ===== *)
theory Bash_Program
  imports Path_Policy
begin

text \<open>
  The typed form of a Bash command line (\<open>crates/mcp-shell/src/bash.rs\<close>): spans, words,
  commands with their redirections and payloads, and the flat node table of a program. The
  parser is tree-sitter and its result arrives as a tree of \<open>CstNode\<close>; the walk that bounds
  the size and depth of that tree before anything reads it is modelled on it.
\<close>

section \<open>Programs\<close>

record BashLimits =
  max_source_bytes :: nat
  max_cst_nodes :: nat
  max_depth :: nat
  parse_millis :: nat

definition MAX_BASH_SOURCE_BYTES :: nat where "MAX_BASH_SOURCE_BYTES = 64 * 1024"
definition MAX_BASH_CST_NODES :: nat where "MAX_BASH_CST_NODES = 4096"
definition MAX_BASH_DEPTH :: nat where "MAX_BASH_DEPTH = 64"
definition MAX_BASH_PARSE_MILLIS :: nat where "MAX_BASH_PARSE_MILLIS = 250"

definition default_bash_limits :: BashLimits where
  "default_bash_limits =
     \<lparr>max_source_bytes = MAX_BASH_SOURCE_BYTES, max_cst_nodes = MAX_BASH_CST_NODES,
      max_depth = MAX_BASH_DEPTH, parse_millis = MAX_BASH_PARSE_MILLIS\<rparr>"

datatype BashParseError =
  InvalidLimits | SourceLimit | NodeLimit | DepthLimit | ParserUnavailable | ParseDeadline

record BashSpan =
  span_start :: nat
  span_end :: nat

type_synonym BashNodeId = nat

datatype BashDiagnosticKind =
  SyntaxError | SourceGap | OverlappingCoverage | UnsupportedSyntax ustr | AmbiguousRedirect

record BashDiagnostic =
  diag_span :: BashSpan
  diag_kind :: BashDiagnosticKind

datatype BashOperatorKind =
  Semicolon | Newline | And | Or | Pipe | PipeStderr | Background_op |
  OpenSubshell | CloseSubshell | OpenBrace | CloseBrace

record BashOperator =
  op_span :: BashSpan
  op_kind :: BashOperatorKind

datatype BashQuoting = Unquoted | Single | Double | AnsiC | Translated

datatype BashFragmentValue = Literal_fragment ustr | Dynamic ustr

record BashWordFragment =
  fragment_span :: BashSpan
  quoting :: BashQuoting
  fragment_value :: BashFragmentValue

record BashWord =
  word_span :: BashSpan
  literal :: "ustr option"
  fragments :: "BashWordFragment list"

record BashAssignment =
  assign_span :: BashSpan
  assign_name :: ustr
  assign_value :: BashWord

datatype BashRedirectKind =
  Read | Write | Append | WriteBoth | AppendBoth | DuplicateInput | DuplicateOutput |
  Clobber | CloseInput | CloseOutput

record BashRedirect =
  redirect_span :: BashSpan
  redirect_operator :: BashSpan
  redirect_kind :: BashRedirectKind
  redirect_descriptor :: "BashSpan option"
  target :: "BashWord option"

datatype BashPayloadKind = Heredoc bool | HereString

record BashPayload =
  payload_span :: BashSpan
  payload_operator :: BashSpan
  payload_descriptor :: "BashSpan option"
  payload_body :: BashSpan
  payload_kind :: BashPayloadKind
  payload_literal :: "ustr option"

datatype BashCommandPart = Word_part nat | Assignment_part nat | Redirect_part nat | Payload_part nat

record BashCommand =
  command_complete :: bool
  words :: "BashWord list"
  assignments :: "BashAssignment list"
  redirects :: "BashRedirect list"
  payloads :: "BashPayload list"
  parts :: "BashCommandPart list"

text \<open>\<open>collect\<close> into an \<open>Option\<close>: every element must be present.\<close>

fun all_some :: "'a option list \<Rightarrow> 'a list option" where
  "all_some [] = Some []"
| "all_some (None # xs) = None"
| "all_some (Some x # xs) = map_option (Cons x) (all_some xs)"

definition static_argv :: "BashCommand \<Rightarrow> ustr list option" where
  "static_argv c = (if command_complete c then all_some (map literal (words c)) else None)"

datatype BashNodeKind =
  Sequence "BashNodeId list" "BashOperator list"
| AndOr BashNodeId BashOperator BashNodeId
| Pipeline "BashNodeId list" "BashOperator list"
| Background BashNodeId BashOperator
| Subshell BashNodeId BashOperator BashOperator
| BraceGroup BashNodeId BashOperator BashOperator
| Command BashCommand
| Assignments "BashAssignment list"
| Unknown_node BashDiagnosticKind

record BashNode =
  node_span :: BashSpan
  node_structure :: BashNodeKind

record BashProgram =
  source_text :: ustr
  program_root :: BashNodeId
  nodes :: "BashNode list"
  diagnostics :: "BashDiagnostic list"

definition is_complete :: "BashProgram \<Rightarrow> bool" where
  "is_complete p \<longleftrightarrow> diagnostics p = []"

definition commands :: "BashProgram \<Rightarrow> (BashNodeId \<times> BashCommand) list" where
  "commands p =
     concat (map (\<lambda>(i, n). case node_structure n of Command c \<Rightarrow> [(i, c)] | _ \<Rightarrow> [])
       (zip [0..<length (nodes p)] (nodes p)))"

text \<open>
  \<open>str::get\<close> with a byte range: the characters between two byte offsets, when both are
  character boundaries within the text.
\<close>

fun split_at_byte :: "nat \<Rightarrow> ustr \<Rightarrow> (ustr \<times> ustr) option" where
  "split_at_byte n s =
     (if n = 0 then Some ([], s)
      else case s of
             [] \<Rightarrow> None
           | c # cs \<Rightarrow>
               if n < len_utf8 c then None
               else map_option (\<lambda>(a, b). (c # a, b)) (split_at_byte (n - len_utf8 c) cs))"

declare split_at_byte.simps [simp del]

definition byte_slice :: "ustr \<Rightarrow> nat \<Rightarrow> nat \<Rightarrow> ustr option" where
  "byte_slice s a b =
     (if b < a then None
      else case split_at_byte a s of
             None \<Rightarrow> None
           | Some (_, rest) \<Rightarrow> map_option fst (split_at_byte (b - a) rest))"

definition span_text :: "BashProgram \<Rightarrow> BashSpan \<Rightarrow> ustr option" where
  "span_text p sp = byte_slice (source_text p) (span_start sp) (span_end sp)"

lemma all_some_map: "all_some xs = Some ys \<Longrightarrow> xs = map Some ys"
  by (induction xs arbitrary: ys rule: all_some.induct) auto

lemma all_some_of_map: "all_some (map Some ys) = Some ys"
  by (induction ys) auto

lemma commands_iff:
  "(i, c) \<in> set (commands p) \<longleftrightarrow> i < length (nodes p) \<and> node_structure (nodes p ! i) = Command c"
proof -
  have "set (zip [0..<length (nodes p)] (nodes p)) = {(j, nodes p ! j) | j. j < length (nodes p)}"
    by (force simp: set_zip)
  then show ?thesis by (auto simp: commands_def split: BashNodeKind.splits)
qed

lemma split_at_byte_append: "split_at_byte (byte_len a) (a @ b) = Some (a, b)"
proof (induction a)
  case Nil
  then show ?case by (simp add: split_at_byte.simps)
next
  case (Cons c a)
  then show ?case
    using len_utf8_bounds(1) [of c] by (subst split_at_byte.simps) (simp add: byte_len_Cons)
qed

lemma split_at_byte_Some: "split_at_byte n s = Some (a, b) \<Longrightarrow> s = a @ b \<and> byte_len a = n"
proof (induction n s arbitrary: a b rule: split_at_byte.induct)
  case (1 n s)
  show ?case
  proof (cases "n = 0 \<or> s = []")
    case True
    then show ?thesis using 1(2) by (subst (asm) split_at_byte.simps) (auto split: if_splits)
  next
    case False
    then obtain c cs where s: "s = c # cs" and n: "n \<noteq> 0" by (cases s) auto
    with 1(2) obtain a' where a': "split_at_byte (n - len_utf8 c) cs = Some (a', b)" "a = c # a'"
      "\<not> n < len_utf8 c"
      by (subst (asm) split_at_byte.simps) (auto split: if_splits)
    with 1(1) [OF n s] show ?thesis by (auto simp: s byte_len_Cons)
  qed
qed

text \<open>A byte range that names whole characters reads exactly them.\<close>

lemma byte_slice_iff:
  "byte_slice s a b = Some m \<longleftrightarrow>
     (\<exists>l r. s = l @ m @ r \<and> byte_len l = a \<and> byte_len (l @ m) = b)"
proof
  assume h: "byte_slice s a b = Some m"
  then obtain l rest r where "split_at_byte a s = Some (l, rest)"
    "split_at_byte (b - a) rest = Some (m, r)" "a \<le> b"
    by (auto simp: byte_slice_def split: if_splits option.splits)
  then show "\<exists>l r. s = l @ m @ r \<and> byte_len l = a \<and> byte_len (l @ m) = b"
    using split_at_byte_Some by (metis byte_len_append le_add_diff_inverse)
next
  assume "\<exists>l r. s = l @ m @ r \<and> byte_len l = a \<and> byte_len (l @ m) = b"
  then show "byte_slice s a b = Some m"
    by (auto simp: byte_slice_def byte_len_append split_at_byte_append)
qed

section \<open>The syntax tree and its bounds\<close>

text \<open>
  What the code reads of a tree-sitter node: its kind, byte range, flags, the field \<open>name\<close>,
  and its children in order, each marked as named or anonymous.
\<close>

datatype CstNode =
  CstNode (cst_kind: ustr) (cst_start: nat) (cst_end: nat) (cst_named: bool) (cst_has_error: bool)
    (cst_name: "nat option") (cst_children: "CstNode list")

text \<open>
  The cursor walk of \<open>parse_tree_within\<close>: depth first, counting nodes; at each node the count
  is tested before the depth.
\<close>

fun walk_tree :: "BashLimits \<Rightarrow> nat \<Rightarrow> nat \<Rightarrow> CstNode \<Rightarrow> BashParseError + nat"
  and walk_children :: "BashLimits \<Rightarrow> nat \<Rightarrow> nat \<Rightarrow> CstNode list \<Rightarrow> BashParseError + nat" where
  "walk_tree lim depth visited (CstNode k s e nm er f cs) =
     (if Suc visited > max_cst_nodes lim then Inl NodeLimit
      else if depth > max_depth lim then Inl DepthLimit
      else walk_children lim (Suc depth) (Suc visited) cs)"
| "walk_children lim depth visited [] = Inr visited"
| "walk_children lim depth visited (c # cs) =
     (case walk_tree lim depth visited c of
        Inl e \<Rightarrow> Inl e
      | Inr v \<Rightarrow> walk_children lim depth v cs)"

text \<open>
  \<open>parse_tree\<close>. The parser is a parameter: \<open>None\<close> when its progress callback stopped it at the
  deadline, and \<open>grammar\<close> says whether the grammar could be loaded.
\<close>

definition parse_tree ::
  "bool \<Rightarrow> (ustr \<Rightarrow> nat \<Rightarrow> CstNode option) \<Rightarrow> ustr \<Rightarrow> BashLimits \<Rightarrow> BashParseError + CstNode" where
  "parse_tree grammar parser source lim =
     (if max_source_bytes lim = 0 \<or> max_source_bytes lim > MAX_BASH_SOURCE_BYTES \<or>
         max_cst_nodes lim = 0 \<or> max_cst_nodes lim > MAX_BASH_CST_NODES \<or>
         max_depth lim = 0 \<or> max_depth lim > MAX_BASH_DEPTH \<or>
         parse_millis lim = 0 \<or> parse_millis lim > MAX_BASH_PARSE_MILLIS
      then Inl InvalidLimits
      else if byte_len source > max_source_bytes lim then Inl SourceLimit
      else if \<not> grammar then Inl ParserUnavailable
      else case parser source (parse_millis lim) of
             None \<Rightarrow> Inl ParseDeadline
           | Some tree \<Rightarrow>
               (case walk_tree lim 0 0 tree of Inl e \<Rightarrow> Inl e | Inr _ \<Rightarrow> Inr tree))"

fun cst_size :: "CstNode \<Rightarrow> nat" where
  "cst_size (CstNode k s e nm er f cs) = Suc (sum_list (map cst_size cs))"

fun cst_depth :: "CstNode \<Rightarrow> nat" where
  "cst_depth (CstNode k s e nm er f cs) = (if cs = [] then 0 else Suc (Max (set (map cst_depth cs))))"

lemma walk_ok:
  "walk_tree lim d v t = Inr v' \<Longrightarrow>
     v' = v + cst_size t \<and> v' \<le> max_cst_nodes lim \<and> d + cst_depth t \<le> max_depth lim"
  "walk_children lim d v cs = Inr v' \<Longrightarrow>
     v' = v + sum_list (map cst_size cs) \<and> (v \<le> max_cst_nodes lim \<longrightarrow> v' \<le> max_cst_nodes lim) \<and>
     (\<forall>c\<in>set cs. d + cst_depth c \<le> max_depth lim)"
proof (induction lim d v t and lim d v cs arbitrary: v' and v' rule: walk_tree_walk_children.induct)
  case (1 lim d v k s e nm er f cs)
  then have ih: "v' = Suc v + sum_list (map cst_size cs)" "v' \<le> max_cst_nodes lim"
    "\<forall>c\<in>set cs. Suc d + cst_depth c \<le> max_depth lim" and d: "d \<le> max_depth lim"
    by (auto split: if_splits)
  have "d + cst_depth (CstNode k s e nm er f cs) \<le> max_depth lim"
  proof (cases "cs = []")
    case False
    then have "Max (set (map cst_depth cs)) \<in> set (map cst_depth cs)" by (intro Max_in) auto
    then obtain c where "c \<in> set cs" "Max (set (map cst_depth cs)) = cst_depth c" by auto
    then show ?thesis using ih(3) False by fastforce
  qed (use d in simp)
  then show ?case using ih by simp
next
  case (3 lim d v c cs)
  then show ?case by (force split: sum.splits)
qed auto

end
