(* ===== verification/Bash_Contexts.thy ===== *)
theory Bash_Contexts
  imports Bash_Program
begin

text \<open>
  The working-directory analysis (\<open>crates/mcp-shell/src/bash/contexts.rs\<close>): for every command
  of a program, the set of directories it may start in. The analysis is an abstract
  interpretation over sets of symbolic paths; what it is measured against is a relational
  semantics of the program constructs, in which the effect of a single command is a parameter
  that has to satisfy the documented behaviour of Bash (\<open>documented\<close>). The analysis does not look at
  here documents and here strings, so soundness asks that theirs expand no parameter, and the last
  section shows a program where one does and the analysis is wrong.

  A \<open>PathBuf\<close> keeps its spelling and is compared by components, so a path is a text here and
  \<open>components\<close> is its identity. What the allocator retains for a set of paths is the
  parameter \<open>bytes\<close>, and the size of the empty result is \<open>base\<close>.
\<close>

section \<open>Paths\<close>

text \<open>\<open>Path::join\<close> on the spelling.\<close>

definition path_push :: "ustr \<Rightarrow> ustr \<Rightarrow> ustr" where
  "path_push p q =
     (if starts_with q [SLASH] then q
      else if p = [] \<or> last p = SLASH then p @ q
      else p @ SLASH # q)"

text \<open>\<open>dedup\<close> on \<open>PathBuf\<close>s: consecutive paths with the same components, the first one kept.\<close>

fun dedup_paths :: "ustr list \<Rightarrow> ustr list" where
  "dedup_paths (p # q # ps) =
     (if components p = components q then dedup_paths (p # ps) else p # dedup_paths (q # ps))"
| "dedup_paths ps = ps"

definition sort_dedup :: "ustr list \<Rightarrow> ustr list" where
  "sort_dedup ps = dedup_paths (sort_key components ps)"

section \<open>The analysis\<close>

definition MAX_CWD_STATES :: nat where "MAX_CWD_STATES = 32"
definition MAX_CWD_PATH_BYTES :: nat where "MAX_CWD_PATH_BYTES = 4096"
definition MAX_CONTEXT_BYTES :: nat where "MAX_CONTEXT_BYTES = 1024 * 1024"
definition TYPE_FLAGS :: ustr where "TYPE_FLAGS = u ''afptP''"
definition EXPANSION :: uchar where "EXPANSION = 36"

definition BASH_BUILTINS :: "ustr list" where
  "BASH_BUILTINS = map u
     [''.'', '':'', ''['', ''alias'', ''bg'', ''bind'', ''break'', ''builtin'', ''caller'', ''cd'',
      ''command'', ''compgen'', ''complete'', ''compopt'', ''continue'', ''declare'', ''dirs'',
      ''disown'', ''echo'', ''enable'', ''eval'', ''exec'', ''exit'', ''export'', ''false'', ''fc'',
      ''fg'', ''getopts'', ''hash'', ''help'', ''history'', ''jobs'', ''kill'', ''let'', ''local'',
      ''logout'', ''mapfile'', ''popd'', ''printf'', ''pushd'', ''pwd'', ''read'', ''readarray'',
      ''readonly'', ''return'', ''set'', ''shift'', ''shopt'', ''source'', ''suspend'', ''test'',
      ''times'', ''trap'', ''true'', ''type'', ''typeset'', ''ulimit'', ''umask'', ''unalias'',
      ''unset'', ''wait'']"

record BashContextAssumptions =
  startup_preserves_cwd :: bool
  no_aliases_functions_or_command_not_found_hook :: bool
  no_traps :: bool
  default_shell_options :: bool
  standard_builtins :: bool
  directory_variables_are_standard :: bool
  cdpath_empty :: bool
  lastpipe_disabled :: bool
  logical_pwd_matches_initial :: bool

definition declared :: "BashContextAssumptions \<Rightarrow> bool" where
  "declared a \<longleftrightarrow>
     startup_preserves_cwd a \<and> no_aliases_functions_or_command_not_found_hook a \<and> no_traps a \<and>
     default_shell_options a \<and> standard_builtins a \<and> directory_variables_are_standard a \<and>
     cdpath_empty a \<and> lastpipe_disabled a \<and> logical_pwd_matches_initial a"

datatype BashCwdSet = Known "ustr list" | Unknown

datatype BashContextIssue =
  UndeclaredShellAssumptions | InvalidInitialCwd | IncompleteProgram | UnknownStateEffect |
  StateLimit | PathLimit | RetainedBytesLimit

record BashCommandContext =
  ctx_command :: BashNodeId
  ctx_incoming :: BashCwdSet
  ctx_complete :: bool

record Outcomes =
  success :: BashCwdSet
  failure :: BashCwdSet

definition unchanged :: "BashCwdSet \<Rightarrow> Outcomes" where
  "unchanged inc = \<lparr>success = inc, failure = inc\<rparr>"

text \<open>The builder: what has been found so far and the bytes retained for it.\<close>

record ContextBuilder =
  cb_commands :: "BashCommandContext list"
  cb_complete :: bool
  cb_diagnostics :: "(BashNodeId \<times> BashContextIssue) list"
  cb_bytes :: nat

record BashCommandContexts =
  contexts :: "BashCommandContext list"
  on_success :: BashCwdSet
  on_failure :: BashCwdSet
  contexts_complete :: bool
  context_diagnostics :: "(BashNodeId \<times> BashContextIssue) list"

definition issue :: "BashNodeId \<Rightarrow> BashContextIssue \<Rightarrow> ContextBuilder \<Rightarrow> ContextBuilder" where
  "issue i k b =
     b\<lparr>cb_complete := False,
       cb_diagnostics :=
         (if (i, k) \<in> set (cb_diagnostics b) then cb_diagnostics b else cb_diagnostics b @ [(i, k)])\<rparr>"

definition join_states ::
  "BashNodeId \<Rightarrow> BashCwdSet \<Rightarrow> BashCwdSet \<Rightarrow> ContextBuilder \<Rightarrow> BashCwdSet \<times> ContextBuilder" where
  "join_states i l r b =
     (case (l, r) of
        (Known ls, Known rs) \<Rightarrow>
          let ps = sort_dedup (ls @ rs)
          in if length ps > MAX_CWD_STATES then (Unknown, issue i StateLimit b) else (Known ps, b)
      | _ \<Rightarrow> (Unknown, b))"

definition retain ::
  "(ustr list \<Rightarrow> nat) \<Rightarrow> BashNodeId \<Rightarrow> BashCwdSet \<Rightarrow> ContextBuilder \<Rightarrow> BashCwdSet \<times> ContextBuilder" where
  "retain bytes i states b =
     (case states of
        Unknown \<Rightarrow> (Unknown, b)
      | Known ps \<Rightarrow>
          let b' = b\<lparr>cb_bytes := sat_add (cb_bytes b) (bytes ps)\<rparr>
          in if cb_bytes b' > MAX_CONTEXT_BYTES then (Unknown, issue i RetainedBytesLimit b')
             else (states, b'))"

definition unknown_effect :: "BashNodeId \<Rightarrow> ContextBuilder \<Rightarrow> Outcomes \<times> ContextBuilder" where
  "unknown_effect i b = (unchanged Unknown, issue i UnknownStateEffect b)"

definition looks_up_names :: "ustr list \<Rightarrow> bool" where
  "looks_up_names argv =
     (let names =
        (case argv of
           c # args \<Rightarrow>
             if c = u ''command''
             then (case args of
                     v # ns \<Rightarrow> if v = u ''-v'' \<or> v = u ''-V'' then Some ns else None
                   | [] \<Rightarrow> None)
             else if c = u ''type''
             then let options = takeWhile (\<lambda>a. starts_with a (u ''-'')) args
                  in if list_all (\<lambda>o'. byte_len o' > 1 \<and> set (tl o') \<subseteq> set TYPE_FLAGS) options
                     then Some (drop (length options) args) else None
             else None
         | [] \<Rightarrow> None)
      in case names of
           None \<Rightarrow> False
         | Some ns \<Rightarrow> ns \<noteq> [] \<and> list_all (\<lambda>n. n \<noteq> [] \<and> \<not> starts_with n (u ''-'')) ns)"

definition external_with_inert_expansions :: "BashProgram \<Rightarrow> BashCommand \<Rightarrow> bool" where
  "external_with_inert_expansions p c \<longleftrightarrow>
     command_complete c \<and>
     (case words c of
        w # _ \<Rightarrow> (case literal w of Some x \<Rightarrow> x \<notin> set BASH_BUILTINS | None \<Rightarrow> False)
      | [] \<Rightarrow> False) \<and>
     list_all (\<lambda>w. literal w \<noteq> None \<or>
       (case span_text p (word_span w) of Some t \<Rightarrow> EXPANSION \<notin> set t | None \<Rightarrow> False)) (words c)"

text \<open>The operand of a \<open>cd\<close> whose target can be named, if its words have that shape.\<close>

definition cd_operand :: "ustr list \<Rightarrow> ustr option" where
  "cd_operand argv =
     (case argv of
        [_, w] \<Rightarrow> if \<not> starts_with w (u ''-'') \<and> w \<noteq> [] then Some w else None
      | [_, d, w] \<Rightarrow> if d = u ''--'' \<and> w \<noteq> u ''-'' \<and> w \<noteq> [] then Some w else None
      | _ \<Rightarrow> None)"

definition cd_command ::
  "BashNodeId \<Rightarrow> ustr list \<Rightarrow> BashCwdSet \<Rightarrow> ContextBuilder \<Rightarrow> Outcomes \<times> ContextBuilder" where
  "cd_command i argv inc b =
     (case cd_operand argv of
        None \<Rightarrow> unknown_effect i b
      | Some w \<Rightarrow>
          if \<exists>s\<in>set (split_on SLASH w). s = u ''.'' \<or> s = u ''..'' then unknown_effect i b
          else case inc of
                 Unknown \<Rightarrow> (\<lparr>success = Unknown, failure = inc\<rparr>, b)
               | Known ps \<Rightarrow>
                   let next = map (\<lambda>q. path_push q w) ps
                   in if \<exists>q\<in>set next. byte_len q > MAX_CWD_PATH_BYTES
                      then (\<lparr>success = Unknown, failure = inc\<rparr>, issue i PathLimit b)
                      else (\<lparr>success = Known (sort_dedup next), failure = inc\<rparr>, b))"

definition dynamic_redirect :: "BashCommand \<Rightarrow> bool" where
  "dynamic_redirect c \<longleftrightarrow>
     (\<exists>r\<in>set (redirects c). case target r of Some w \<Rightarrow> literal w = None | None \<Rightarrow> False)"

definition visit_command ::
  "BashProgram \<Rightarrow> BashNodeId \<Rightarrow> BashCommand \<Rightarrow> BashCwdSet \<Rightarrow> ContextBuilder \<Rightarrow> Outcomes \<times> ContextBuilder" where
  "visit_command p i c inc b =
     (if assignments c \<noteq> [] \<or> dynamic_redirect c then unknown_effect i b
      else case static_argv c of
             None \<Rightarrow>
               if external_with_inert_expansions p c then (unchanged inc, b) else unknown_effect i b
           | Some [] \<Rightarrow> unknown_effect i b
           | Some (x # args) \<Rightarrow>
               if x = u ''cd'' then cd_command i (x # args) inc b
               else if x \<in> set BASH_BUILTINS
               then if x \<in> set [u '':'', u ''true'', u ''false'', u ''echo''] then (unchanged inc, b)
                    else if x = u ''pwd'' \<and> args = [] then (unchanged inc, b)
                    else if x \<in> set [u ''command'', u ''type''] \<and> looks_up_names (x # args)
                    then (unchanged inc, b)
                    else unknown_effect i b
               else (unchanged inc, b))"

text \<open>
  The recursive visit follows node identifiers through the node table. The fuel bounds the
  nesting it may follow; an identifier outside the table is an index panic.
\<close>

datatype Stuck = OutOfFuel | IndexPanic

primrec visit ::
  "nat \<Rightarrow> (ustr list \<Rightarrow> nat) \<Rightarrow> BashProgram \<Rightarrow> BashNodeId \<Rightarrow> BashCwdSet \<Rightarrow> ContextBuilder \<Rightarrow>
     Stuck + (Outcomes \<times> ContextBuilder)" where
  "visit 0 bytes p i inc b = Inl OutOfFuel"
| "visit (Suc n) bytes p i inc b =
     (if i \<ge> length (nodes p) then Inl IndexPanic
      else case node_structure (nodes p ! i) of
        Sequence items _ \<Rightarrow>
          try_fold (\<lambda>(out, b) item.
            let (inc', b') = join_states item (success out) (failure out) b
            in visit n bytes p item inc' b') (unchanged inc, b) items
      | AndOr l operator r \<Rightarrow>
          (case visit n bytes p l inc b of
             Inl e \<Rightarrow> Inl e
           | Inr (lo, b1) \<Rightarrow>
               if op_kind operator = And
               then (case visit n bytes p r (success lo) b1 of
                       Inl e \<Rightarrow> Inl e
                     | Inr (ro, b2) \<Rightarrow>
                         let (f, b3) = join_states i (failure lo) (failure ro) b2
                         in Inr (\<lparr>success = success ro, failure = f\<rparr>, b3))
               else (case visit n bytes p r (failure lo) b1 of
                       Inl e \<Rightarrow> Inl e
                     | Inr (ro, b2) \<Rightarrow>
                         let (s, b3) = join_states i (success lo) (success ro) b2
                         in Inr (\<lparr>success = s, failure = failure ro\<rparr>, b3)))
      | Pipeline cs _ \<Rightarrow>
          (case try_fold (\<lambda>b c. case visit n bytes p c inc b of Inl e \<Rightarrow> Inl e | Inr (_, b') \<Rightarrow> Inr b') b cs of
             Inl e \<Rightarrow> Inl e
           | Inr b' \<Rightarrow> Inr (unchanged inc, b'))
      | Subshell body _ _ \<Rightarrow>
          (case visit n bytes p body inc b of Inl e \<Rightarrow> Inl e | Inr (_, b') \<Rightarrow> Inr (unchanged inc, b'))
      | Background body _ \<Rightarrow>
          (case visit n bytes p body inc b of Inl e \<Rightarrow> Inl e | Inr (_, b') \<Rightarrow> Inr (unchanged inc, b'))
      | BraceGroup body _ _ \<Rightarrow> visit n bytes p body inc b
      | Command c \<Rightarrow>
          let (inc', b1) = retain bytes i inc b;
              ctx = \<lparr>ctx_command = i, ctx_incoming = inc', ctx_complete = (inc' \<noteq> Unknown)\<rparr>
          in Inr (visit_command p i c inc' (b1\<lparr>cb_commands := cb_commands b1 @ [ctx]\<rparr>))
      | Assignments _ \<Rightarrow> Inr (unknown_effect i b)
      | Unknown_node _ \<Rightarrow> Inr (unknown_effect i b))"

definition valid_initial :: "ustr \<Rightarrow> bool" where
  "valid_initial cwd \<longleftrightarrow> starts_with cwd [SLASH] \<and> byte_len cwd \<le> MAX_CWD_PATH_BYTES"

definition initial_states ::
  "BashProgram \<Rightarrow> ustr \<Rightarrow> BashContextAssumptions \<Rightarrow> nat \<Rightarrow> BashCwdSet \<times> ContextBuilder" where
  "initial_states p cwd a base =
     (let b0 = \<lparr>cb_commands = [], cb_complete = True, cb_diagnostics = [], cb_bytes = base\<rparr>;
          inc0 = (if valid_initial cwd then Known [cwd] else Unknown);
          (inc1, b1) = (if declared a then (inc0, b0)
                        else (Unknown, issue (program_root p) UndeclaredShellAssumptions b0));
          (inc2, b2) = (if valid_initial cwd then (inc1, b1)
                        else (Unknown, issue (program_root p) InvalidInitialCwd b1))
      in if is_complete p then (inc2, b2)
         else (Unknown, issue (program_root p) IncompleteProgram b2))"

definition command_contexts_with_assumptions ::
  "nat \<Rightarrow> nat \<Rightarrow> (ustr list \<Rightarrow> nat) \<Rightarrow> BashProgram \<Rightarrow> ustr \<Rightarrow> BashContextAssumptions \<Rightarrow>
     Stuck + BashCommandContexts" where
  "command_contexts_with_assumptions fuel base bytes p cwd a =
     (let (inc, b) = initial_states p cwd a base
      in case visit fuel bytes p (program_root p) inc b of
           Inl e \<Rightarrow> Inl e
         | Inr (out, b1) \<Rightarrow>
             let (s, b2) = retain bytes (program_root p) (success out) b1;
                 (f, b3) = retain bytes (program_root p) (failure out) b2
             in Inr \<lparr>contexts =
                       sort_key (\<lambda>c. span_start (node_span (nodes p ! ctx_command c))) (cb_commands b3),
                     on_success = s, on_failure = f, contexts_complete = cb_complete b3,
                     context_diagnostics = cb_diagnostics b3\<rparr>)"

section \<open>What Bash does\<close>

text \<open>
  The state of the shell: its directory, and whether a variable that \<open>cd\<close> reads (\<open>CDPATH\<close> above all) may
  have been assigned since it was started. \<open>eff c d st d'\<close>: the command may end with status \<open>st\<close> (true for
  success) and leave the shell in \<open>d'\<close> when it is started in \<open>d\<close>. Expansions run before the command
  does, and a parameter expansion may assign. The clauses are the documented behaviour of Bash, under
  the declared assumptions, for a command without assignments whose redirections and payloads (here
  documents and here strings) expand no parameter: an external program runs in a child process, and
  only an expansion in its words could touch the shell; the builtins that only report touch nothing;
  \<open>cd\<close> with a plain operand goes there or stays, as long as the variables it reads are untouched.
\<close>

record ShellState =
  ss_dir :: Path
  ss_assigned :: bool

type_synonym effects = "BashCommand \<Rightarrow> ShellState \<Rightarrow> bool \<Rightarrow> ShellState \<Rightarrow> bool"

definition quiet_payloads :: "BashProgram \<Rightarrow> BashCommand \<Rightarrow> bool" where
  "quiet_payloads p c \<longleftrightarrow>
     list_all (\<lambda>pl. payload_literal pl \<noteq> None \<or>
       (case span_text p (payload_body pl) of Some t \<Rightarrow> EXPANSION \<notin> set t | None \<Rightarrow> False)) (payloads c)"

text \<open>No command of the program has a payload that expands a parameter.\<close>

definition inert_payloads :: "BashProgram \<Rightarrow> bool" where
  "inert_payloads p \<longleftrightarrow>
     list_all (\<lambda>n. case node_structure n of Command c \<Rightarrow> quiet_payloads p c | _ \<Rightarrow> True) (nodes p)"

definition quiet_words :: "BashProgram \<Rightarrow> BashCommand \<Rightarrow> bool" where
  "quiet_words p c \<longleftrightarrow>
     (\<forall>w\<in>set (words c). literal w \<noteq> None \<or>
        (\<exists>t. span_text p (word_span w) = Some t \<and> EXPANSION \<notin> set t))"

definition reporting_argv :: "ustr list \<Rightarrow> bool" where
  "reporting_argv argv \<longleftrightarrow>
     (\<exists>x args. argv = x # args \<and>
        (x \<in> set [u '':'', u ''true'', u ''false'', u ''echo'', u ''pwd'', u ''type''] \<or>
         x = u ''command'' \<and> args \<noteq> [] \<and> hd args \<in> set [u ''-v'', u ''-V'']))"

definition documented :: "BashProgram \<Rightarrow> effects \<Rightarrow> bool" where
  "documented p eff \<longleftrightarrow>
     (\<forall>c d st d'. eff c d st d' \<longrightarrow> assignments c = [] \<longrightarrow> \<not> dynamic_redirect c \<longrightarrow> quiet_payloads p c \<longrightarrow> command_complete c \<longrightarrow>
        (words c \<noteq> [] \<longrightarrow> literal (hd (words c)) \<noteq> None \<longrightarrow>
           the (literal (hd (words c))) \<notin> set BASH_BUILTINS \<longrightarrow> quiet_words p c \<longrightarrow> d' = d) \<and>
        (\<forall>argv. static_argv c = Some argv \<longrightarrow> reporting_argv argv \<longrightarrow> d' = d) \<and>
        (\<forall>argv w. static_argv c = Some argv \<longrightarrow> hd argv = u ''cd'' \<longrightarrow> cd_operand argv = Some w \<longrightarrow>
           u ''.'' \<notin> set (split_on SLASH w) \<longrightarrow> u ''..'' \<notin> set (split_on SLASH w) \<longrightarrow> \<not> ss_assigned d \<longrightarrow>
           d' = (if st then d\<lparr>ss_dir := path_join (ss_dir d) (components w)\<rparr> else d)))"

text \<open>
  Running a node: \<open>ends\<close> relates the state before and after with the exit status, and
  \<open>starts\<close> says which command may be started in which state on the way, whether or not
  anything started ever ends. Pipelines, subshells and background jobs run in child processes.
  A region the program does not describe may do anything.
\<close>

definition node_at :: "BashProgram \<Rightarrow> BashNodeId \<Rightarrow> BashNodeKind \<Rightarrow> bool" where
  "node_at p i k \<longleftrightarrow> i < length (nodes p) \<and> node_structure (nodes p ! i) = k"

inductive ends :: "effects \<Rightarrow> BashProgram \<Rightarrow> BashNodeId \<Rightarrow> ShellState \<Rightarrow> bool \<Rightarrow> ShellState \<Rightarrow> bool"
  and ends_all :: "effects \<Rightarrow> BashProgram \<Rightarrow> BashNodeId list \<Rightarrow> bool \<Rightarrow> ShellState \<Rightarrow> bool \<Rightarrow> ShellState \<Rightarrow> bool"
  for eff p where
  ends_sequence: "node_at p i (Sequence is ops) \<Longrightarrow> ends_all eff p is st0 d st d' \<Longrightarrow> ends eff p i d st d'"
| ends_and: "node_at p i (AndOr l op r) \<Longrightarrow> op_kind op = And \<Longrightarrow> ends eff p l d True d1 \<Longrightarrow>
     ends eff p r d1 st d' \<Longrightarrow> ends eff p i d st d'"
| ends_and_stop: "node_at p i (AndOr l op r) \<Longrightarrow> op_kind op = And \<Longrightarrow> ends eff p l d False d' \<Longrightarrow>
     ends eff p i d False d'"
| ends_or: "node_at p i (AndOr l op r) \<Longrightarrow> op_kind op = Or \<Longrightarrow> ends eff p l d False d1 \<Longrightarrow>
     ends eff p r d1 st d' \<Longrightarrow> ends eff p i d st d'"
| ends_or_stop: "node_at p i (AndOr l op r) \<Longrightarrow> op_kind op = Or \<Longrightarrow> ends eff p l d True d' \<Longrightarrow>
     ends eff p i d True d'"
| ends_pipeline: "node_at p i (Pipeline cs ops) \<Longrightarrow> ends eff p i d st d"
| ends_background: "node_at p i (Background body op) \<Longrightarrow> ends eff p i d st d"
| ends_subshell: "node_at p i (Subshell body op cl) \<Longrightarrow> ends eff p i d st d"
| ends_brace: "node_at p i (BraceGroup body op cl) \<Longrightarrow> ends eff p body d st d' \<Longrightarrow> ends eff p i d st d'"
| ends_command: "node_at p i (Command c) \<Longrightarrow> eff c d st d' \<Longrightarrow> ends eff p i d st d'"
| ends_assignments: "node_at p i (Assignments as) \<Longrightarrow> ends eff p i d st d'"
| ends_unknown: "node_at p i (Unknown_node k) \<Longrightarrow> ends eff p i d st d'"
| ends_none: "ends_all eff p [] st d st d"
| ends_some: "ends eff p i d st1 d1 \<Longrightarrow> ends_all eff p is st1 d1 st d' \<Longrightarrow> ends_all eff p (i # is) st0 d st d'"

inductive starts :: "effects \<Rightarrow> BashProgram \<Rightarrow> BashNodeId \<Rightarrow> ShellState \<Rightarrow> BashNodeId \<Rightarrow> ShellState \<Rightarrow> bool"
  and starts_all :: "effects \<Rightarrow> BashProgram \<Rightarrow> BashNodeId list \<Rightarrow> ShellState \<Rightarrow> BashNodeId \<Rightarrow> ShellState \<Rightarrow> bool"
  for eff p where
  starts_sequence: "node_at p i (Sequence is ops) \<Longrightarrow> starts_all eff p is d c e \<Longrightarrow> starts eff p i d c e"
| starts_left: "node_at p i (AndOr l op r) \<Longrightarrow> starts eff p l d c e \<Longrightarrow> starts eff p i d c e"
| starts_and: "node_at p i (AndOr l op r) \<Longrightarrow> op_kind op = And \<Longrightarrow> ends eff p l d True d1 \<Longrightarrow>
     starts eff p r d1 c e \<Longrightarrow> starts eff p i d c e"
| starts_or: "node_at p i (AndOr l op r) \<Longrightarrow> op_kind op = Or \<Longrightarrow> ends eff p l d False d1 \<Longrightarrow>
     starts eff p r d1 c e \<Longrightarrow> starts eff p i d c e"
| starts_pipeline: "node_at p i (Pipeline cs ops) \<Longrightarrow> j \<in> set cs \<Longrightarrow> starts eff p j d c e \<Longrightarrow> starts eff p i d c e"
| starts_background: "node_at p i (Background body op) \<Longrightarrow> starts eff p body d c e \<Longrightarrow> starts eff p i d c e"
| starts_subshell: "node_at p i (Subshell body op cl) \<Longrightarrow> starts eff p body d c e \<Longrightarrow> starts eff p i d c e"
| starts_brace: "node_at p i (BraceGroup body op cl) \<Longrightarrow> starts eff p body d c e \<Longrightarrow> starts eff p i d c e"
| starts_command: "node_at p i (Command c) \<Longrightarrow> starts eff p i d i d"
| starts_here: "starts eff p i d c e \<Longrightarrow> starts_all eff p (i # is) d c e"
| starts_later: "ends eff p i d st d1 \<Longrightarrow> starts_all eff p is d1 c e \<Longrightarrow> starts_all eff p (i # is) d c e"

inductive_cases ends_node: "ends eff p i d st d'"
inductive_cases starts_node: "starts eff p i d c e"
inductive_cases ends_NilE: "ends_all eff p [] st0 d st d'"
inductive_cases ends_ConsE: "ends_all eff p (i # is) st0 d st d'"
inductive_cases starts_NilE: "starts_all eff p [] d c e"
inductive_cases starts_ConsE: "starts_all eff p (i # is) d c e"

section \<open>Symbolic paths\<close>

definition parts_of :: "ustr \<Rightarrow> Path" where
  "parts_of s = filter (\<lambda>c. c \<noteq> CurDir) (map component_of (filter (\<lambda>p. p \<noteq> []) (split_on SLASH s)))"

lemma components_absolute: "starts_with s [SLASH] \<Longrightarrow> components s = RootDir # parts_of s"
  by (simp add: components_def parts_of_def Let_def)

lemma parts_of_relative:
  "\<not> starts_with q [SLASH] \<Longrightarrow> filter (\<lambda>c. c \<noteq> CurDir) (components q) = parts_of q"
  by (auto simp: components_def parts_of_def Let_def filter_filter conj_commute split: list.splits Component.splits)

lemma parts_of_append: "parts_of (p @ SLASH # q) = parts_of p @ parts_of q"
  by (simp add: parts_of_def split_on_append_sep)

lemma parts_of_Nil [simp]: "parts_of [] = []"
  by (simp add: parts_of_def split_on_def)

lemma parts_of_trailing: "parts_of (p @ [SLASH]) = parts_of p"
  using parts_of_append [of p "[]"] by simp

lemma components_relative: "\<not> starts_with q [SLASH] \<Longrightarrow> \<not> is_absolute (components q)"
proof -
  assume q: "\<not> starts_with q [SLASH]"
  have "component_of s \<noteq> RootDir" "RootDir \<noteq> component_of s" for s by (simp_all add: component_of_def)
  then have "RootDir \<notin> set (components q)"
    using q by (auto simp: components_def Let_def split: list.splits Component.splits)
  then show ?thesis by (auto simp: is_absolute_def split: list.splits Component.splits)
qed

text \<open>Extending the spelling of an absolute path extends its components.\<close>

lemma components_path_push:
  assumes p: "starts_with p [SLASH]"
  shows "components (path_push p q) = path_join (components p) (components q)"
    and "starts_with (path_push p q) [SLASH]"
proof -
  obtain p' where p': "p = SLASH # p'" using p by (cases p) (auto simp: starts_with_def)
  show "starts_with (path_push p q) [SLASH]" by (auto simp: path_push_def p' starts_with_def)
  show "components (path_push p q) = path_join (components p) (components q)"
  proof (cases "starts_with q [SLASH]")
    case True
    then show ?thesis by (simp add: path_push_def path_join_def components_absolute is_absolute_def)
  next
    case False
    have parts: "parts_of (path_push p q) = parts_of p @ parts_of q"
    proof (cases "last p = SLASH")
      case True
      then obtain r where r: "p = r @ [SLASH]" using p' by (metis append_butlast_last_id list.distinct(1))
      then show ?thesis using False by (simp add: path_push_def parts_of_append parts_of_trailing)
    qed (use False p' parts_of_append [of p q] in \<open>simp add: path_push_def\<close>)
    have "starts_with (path_push p q) [SLASH]" by (auto simp: path_push_def p' starts_with_def)
    then show ?thesis
      using components_absolute p parts False
      by (simp add: path_join_def components_relative parts_of_relative)
  qed
qed

lemma dedup_paths_set: "components ` set (dedup_paths ps) = components ` set ps"
  by (induction ps rule: dedup_paths.induct) auto

lemma dedup_paths_subset: "set (dedup_paths ps) \<subseteq> set ps"
  by (induction ps rule: dedup_paths.induct) auto

lemma sort_dedup_set: "components ` set (sort_dedup ps) = components ` set ps"
  by (simp add: sort_dedup_def dedup_paths_set)

lemma sort_dedup_subset: "set (sort_dedup ps) \<subseteq> set ps"
  using dedup_paths_subset by (fastforce simp: sort_dedup_def)

section \<open>Soundness of the analysis\<close>

text \<open>The states an abstract value stands for: a known set also promises that \<open>cd\<close> is not redirected.\<close>

fun gamma :: "BashCwdSet \<Rightarrow> ShellState set" where
  "gamma Unknown = UNIV"
| "gamma (Known ps) = {d. ss_dir d \<in> components ` set ps \<and> \<not> ss_assigned d}"

fun absolute_set :: "BashCwdSet \<Rightarrow> bool" where
  "absolute_set Unknown = True"
| "absolute_set (Known ps) = (\<forall>p\<in>set ps. starts_with p [SLASH])"

definition after :: "bool \<Rightarrow> Outcomes \<Rightarrow> BashCwdSet" where
  "after st out = (if st then success out else failure out)"

definition sound_outcomes :: "Outcomes \<Rightarrow> bool" where
  "sound_outcomes out \<longleftrightarrow> absolute_set (success out) \<and> absolute_set (failure out)"

lemma after_simps [simp]:
  "after True out = success out" "after False out = failure out" "after st (unchanged inc) = inc"
  by (simp_all add: after_def unchanged_def)

lemma unchanged_simps [simp]: "success (unchanged i) = i" "failure (unchanged i) = i"
  by (simp_all add: unchanged_def)

lemma issue_simps [simp]:
  "cb_commands (issue i k b) = cb_commands b" "\<not> cb_complete (issue i k b)"
  "cb_bytes (issue i k b) = cb_bytes b"
  by (simp_all add: issue_def)

lemma join_states_sound:
  assumes "join_states i l r b = (j, b')"
  shows "gamma l \<subseteq> gamma j" "gamma r \<subseteq> gamma j" "cb_commands b' = cb_commands b"
    "absolute_set l \<Longrightarrow> absolute_set r \<Longrightarrow> absolute_set j"
  using assms
  by (auto simp: join_states_def Let_def sort_dedup_set split: BashCwdSet.splits if_splits)
    (fastforce dest: subsetD [OF sort_dedup_subset])+

lemma retain_sound:
  assumes "retain bytes i s b = (s', b')"
  shows "gamma s \<subseteq> gamma s'" "cb_commands b' = cb_commands b" "absolute_set s \<Longrightarrow> absolute_set s'"
  using assms by (auto simp: retain_def Let_def split: BashCwdSet.splits if_splits)

text \<open>The clauses of the documented behaviour, one rule each.\<close>

lemma documented_external:
  assumes "documented p eff" "eff c d st d'" "assignments c = []" "\<not> dynamic_redirect c" "quiet_payloads p c"
    "command_complete c" "words c = w # ws" "literal w = Some x" "x \<notin> set BASH_BUILTINS" "quiet_words p c"
  shows "d' = d"
  using assms unfolding documented_def by (metis list.sel(1) list.distinct(1) option.distinct(1) option.sel)

lemma documented_reporting:
  assumes "documented p eff" "eff c d st d'" "assignments c = []" "\<not> dynamic_redirect c" "quiet_payloads p c"
    "static_argv c = Some argv" "reporting_argv argv"
  shows "d' = d"
  using assms unfolding documented_def by (metis static_argv_def option.distinct(1))

lemma documented_cd:
  assumes "documented p eff" "eff c d st d'" "assignments c = []" "\<not> dynamic_redirect c" "quiet_payloads p c"
    "static_argv c = Some argv" "hd argv = u ''cd''" "cd_operand argv = Some w"
    "u ''.'' \<notin> set (split_on SLASH w)" "u ''..'' \<notin> set (split_on SLASH w)" "\<not> ss_assigned d"
  shows "d' = (if st then d\<lparr>ss_dir := path_join (ss_dir d) (components w)\<rparr> else d)"
  using assms unfolding documented_def by (metis static_argv_def option.distinct(1))

lemma static_argv_words:
  assumes "static_argv c = Some (x # args)"
  obtains w ws where "command_complete c" "words c = w # ws" "literal w = Some x" "quiet_words p c"
proof -
  from assms have cc: "command_complete c" and l: "map literal (words c) = map Some (x # args)"
    by (auto simp: static_argv_def dest: all_some_map split: if_splits)
  then obtain w ws where w: "words c = w # ws" "literal w = Some x" by (cases "words c") auto
  have "literal v \<noteq> None" if "v \<in> set (words c)" for v
  proof -
    have "literal v \<in> set (map Some (x # args))" using that l by (metis imageI set_map)
    then show ?thesis by auto
  qed
  then show ?thesis using that [OF cc w] by (auto simp: quiet_words_def)
qed

lemma looks_up_reporting:
  "x \<in> set [u ''command'', u ''type''] \<Longrightarrow> looks_up_names (x # args) \<Longrightarrow> reporting_argv (x # args)"
  by (cases args) (auto simp: looks_up_names_def reporting_argv_def u_def split: if_splits)

lemma external_inert_quiet:
  assumes "external_with_inert_expansions p c"
  obtains w ws x where "command_complete c" "words c = w # ws" "literal w = Some x"
    "x \<notin> set BASH_BUILTINS" "quiet_words p c"
proof -
  from assms obtain w ws x where "command_complete c" "words c = w # ws" "literal w = Some x"
    "x \<notin> set BASH_BUILTINS"
    by (auto simp: external_with_inert_expansions_def split: list.splits option.splits)
  moreover have "quiet_words p c"
    using assms unfolding external_with_inert_expansions_def quiet_words_def list_all_iff
    by (metis (no_types, lifting) option.case_eq_if option.exhaust_sel)
  ultimately show ?thesis using that by blast
qed

lemma cd_command_commands:
  "cd_command i argv inc b = (out, b') \<Longrightarrow> cb_commands b' = cb_commands b"
  by (auto simp: cd_command_def unknown_effect_def Let_def split: option.splits if_splits BashCwdSet.splits)

lemma cd_command_absolute:
  assumes "cd_command i argv inc b = (out, b')" "absolute_set inc"
  shows "sound_outcomes out"
proof -
  have "absolute_set (Known (sort_dedup (map (\<lambda>q. path_push q w) ps)))" if "inc = Known ps" for ps w
    using assms(2) that components_path_push(2) subsetD [OF sort_dedup_subset]
    by fastforce
  then show ?thesis
    using assms
    by (auto simp: cd_command_def unknown_effect_def Let_def sound_outcomes_def
        split: option.splits if_splits BashCwdSet.splits)
qed

lemma cd_command_sound:
  assumes r: "cd_command i argv inc b = (out, b')" and "absolute_set inc" and d: "d \<in> gamma inc"
    and doc: "documented p eff" "eff c d st d'" "assignments c = []" "\<not> dynamic_redirect c" "quiet_payloads p c"
      "static_argv c = Some argv" "hd argv = u ''cd''"
  shows "d' \<in> gamma (after st out)"
proof (cases "\<exists>w. cd_operand argv = Some w \<and> \<not> (\<exists>s\<in>set (split_on SLASH w). s = u ''.'' \<or> s = u ''..'')")
  case False
  then show ?thesis using r by (auto simp: cd_command_def unknown_effect_def split: option.splits if_splits)
next
  case True
  then obtain w where w: "cd_operand argv = Some w" "u ''.'' \<notin> set (split_on SLASH w)" "u ''..'' \<notin> set (split_on SLASH w)"
    by blast
  show ?thesis
  proof (cases inc)
    case Unknown
    then show ?thesis using r w by (auto simp: cd_command_def after_def split: if_splits)
  next
    case (Known ps)
    then obtain q where q: "q \<in> set ps" "ss_dir d = components q" and a: "\<not> ss_assigned d" using d by auto
    have d': "d' = (if st then d\<lparr>ss_dir := path_join (ss_dir d) (components w)\<rparr> else d)" by (rule documented_cd [OF doc w a])
    from q Known assms(2) have j: "components (path_push q w) = path_join (ss_dir d) (components w)"
      using components_path_push(1) by simp
    have "components (path_push q w) \<in> components ` set (sort_dedup (map (\<lambda>q. path_push q w) ps))"
      unfolding sort_dedup_set using q(1) by auto
    then show ?thesis
      using r w d d' j a Known
      by (auto simp: cd_command_def after_def Let_def split: if_splits)
  qed
qed

lemma visit_command_sound:
  assumes r: "visit_command p i c inc b = (out, b')" and a: "absolute_set inc"
  shows "cb_commands b' = cb_commands b" "sound_outcomes out"
    "documented p eff \<Longrightarrow> quiet_payloads p c \<Longrightarrow> d \<in> gamma inc \<Longrightarrow> eff c d st d' \<Longrightarrow> d' \<in> gamma (after st out)"
proof -
  note unfolded = r [unfolded visit_command_def]
  show "cb_commands b' = cb_commands b"
    using unfolded cd_command_commands
    by (auto simp: unknown_effect_def split: if_splits option.splits list.splits)
  show "sound_outcomes out"
    using unfolded cd_command_absolute [OF _ a] a
    by (auto simp: unknown_effect_def sound_outcomes_def split: if_splits option.splits list.splits)
  assume doc: "documented p eff" and pl: "quiet_payloads p c" and d: "d \<in> gamma inc" and e: "eff c d st d'"
  show "d' \<in> gamma (after st out)"
  proof (cases "out = unchanged Unknown")
    case False
    then have plain: "assignments c = []" "\<not> dynamic_redirect c" "quiet_payloads p c"
      using unfolded pl by (auto simp: unknown_effect_def split: if_splits)
    show ?thesis
    proof (cases "static_argv c")
      case None
      then have ext: "external_with_inert_expansions p c" and out: "out = unchanged inc"
        using unfolded plain False by (auto simp: unknown_effect_def split: if_splits)
      from ext have "d' = d"
        by (rule external_inert_quiet) (rule documented_external [OF doc e plain])
      then show ?thesis using d out by simp
    next
      case (Some argv)
      then obtain x args where argv: "static_argv c = Some (x # args)"
        using unfolded plain False by (cases argv) (auto simp: unknown_effect_def)
      show ?thesis
      proof (cases "x = u ''cd''")
        case True
        then have "cd_command i (x # args) inc b = (out, b')" using unfolded plain argv by simp
        then show ?thesis
          by (rule cd_command_sound [OF _ a d doc e plain argv]) (simp add: True)
      next
        case ncd: False
        have "out = unchanged inc \<and> d' = d"
        proof (cases "x \<in> set BASH_BUILTINS")
          case True
          then have "reporting_argv (x # args)" "out = unchanged inc"
            using unfolded plain argv ncd False looks_up_reporting [of x args]
            by (auto simp: unknown_effect_def reporting_argv_def split: if_splits)
          then show ?thesis using documented_reporting [OF doc e plain argv] by simp
        next
          case False
          obtain w ws where "command_complete c" "words c = w # ws" "literal w = Some x" "quiet_words p c"
            by (rule static_argv_words [OF argv])
          then have "d' = d" using documented_external [OF doc e plain] False by blast
          then show ?thesis using unfolded plain argv ncd False by simp
        qed
        then show ?thesis using d by simp
      qed
    qed
  qed simp
qed

text \<open>
  What one visit promises: the outcomes cover every way the node may end, and every command it
  may start is recorded with a set that contains the directory it starts in.
\<close>

definition recorded :: "BashCommandContext set \<Rightarrow> BashNodeId \<Rightarrow> ShellState \<Rightarrow> bool" where
  "recorded K c e \<longleftrightarrow> (\<exists>k\<in>K. ctx_command k = c \<and> e \<in> gamma (ctx_incoming k))"

definition covers ::
  "effects \<Rightarrow> BashProgram \<Rightarrow> BashNodeId \<Rightarrow> BashCwdSet \<Rightarrow> Outcomes \<Rightarrow> BashCommandContext set \<Rightarrow> bool" where
  "covers eff p i inc out K \<longleftrightarrow>
     (\<forall>d\<in>gamma inc. (\<forall>st d'. ends eff p i d st d' \<longrightarrow> d' \<in> gamma (after st out)) \<and>
                     (\<forall>c e. starts eff p i d c e \<longrightarrow> recorded K c e))"

definition visit_ok ::
  "effects \<Rightarrow> BashProgram \<Rightarrow> BashNodeId \<Rightarrow> BashCwdSet \<Rightarrow> ContextBuilder \<Rightarrow> Outcomes \<Rightarrow> ContextBuilder \<Rightarrow> bool" where
  "visit_ok eff p i inc b out b' \<longleftrightarrow>
     sound_outcomes out \<and> set (cb_commands b) \<subseteq> set (cb_commands b') \<and>
     covers eff p i inc out (set (cb_commands b'))"

lemma recorded_mono: "recorded K c e \<Longrightarrow> K \<subseteq> K' \<Longrightarrow> recorded K' c e"
  by (auto simp: recorded_def)

lemma covers_ends: "covers eff p i inc out K \<Longrightarrow> d \<in> gamma inc \<Longrightarrow> ends eff p i d st d' \<Longrightarrow> d' \<in> gamma (after st out)"
  by (auto simp: covers_def)

lemma covers_starts:
  "covers eff p i inc out K \<Longrightarrow> d \<in> gamma inc \<Longrightarrow> starts eff p i d c e \<Longrightarrow> K \<subseteq> K' \<Longrightarrow> recorded K' c e"
  unfolding covers_def using recorded_mono by blast

definition sound_at :: "effects \<Rightarrow> BashProgram \<Rightarrow> (ustr list \<Rightarrow> nat) \<Rightarrow> nat \<Rightarrow> bool" where
  "sound_at eff p bytes n \<longleftrightarrow>
     (\<forall>i inc b out b'. visit n bytes p i inc b = Inr (out, b') \<longrightarrow> absolute_set inc \<longrightarrow>
        visit_ok eff p i inc b out b')"

lemma sound_atD:
  assumes "sound_at eff p bytes n" "visit n bytes p i inc b = Inr (out, b')" "absolute_set inc"
  shows "sound_outcomes out" "set (cb_commands b) \<subseteq> set (cb_commands b')"
    "covers eff p i inc out (set (cb_commands b'))"
  using assms by (auto simp: sound_at_def visit_ok_def)

lemma sequence_sound:
  assumes IH: "sound_at eff p bytes n"
    and r: "try_fold (\<lambda>(out, b) item. let (inc', b') = join_states item (success out) (failure out) b
               in visit n bytes p item inc' b') (out0, b0) items = Inr (out, b')"
    and a: "sound_outcomes out0"
  shows "sound_outcomes out \<and> set (cb_commands b0) \<subseteq> set (cb_commands b') \<and>
    (\<forall>st0 d. d \<in> gamma (after st0 out0) \<longrightarrow>
       (\<forall>st d'. ends_all eff p items st0 d st d' \<longrightarrow> d' \<in> gamma (after st out)) \<and>
       (\<forall>c e. starts_all eff p items d c e \<longrightarrow> recorded (set (cb_commands b')) c e))"
  using r a
proof (induction items arbitrary: out0 b0)
  case Nil
  then show ?case by (auto elim: ends_NilE starts_NilE)
next
  case (Cons i items)
  obtain j b1 where j: "join_states i (success out0) (failure out0) b0 = (j, b1)" by fastforce
  obtain o2 b2 where v: "visit n bytes p i j b1 = Inr (o2, b2)"
    and rest: "try_fold (\<lambda>(out, b) item. let (inc', b') = join_states item (success out) (failure out) b
               in visit n bytes p item inc' b') (o2, b2) items = Inr (out, b')"
    using Cons.prems(1) by (auto simp: j split: sum.splits)
  have ja: "absolute_set j" using join_states_sound(4) [OF j] Cons.prems(2) by (simp add: sound_outcomes_def)
  note here = sound_atD [OF IH v ja]
  note later = Cons.IH [OF rest here(1)]
  have sub: "set (cb_commands b2) \<subseteq> set (cb_commands b')" using later by blast
  have dj: "d \<in> gamma j" if "d \<in> gamma (after st0 out0)" for st0 d
    using that join_states_sound(1,2) [OF j] by (auto simp: after_def split: if_splits)
  have "d' \<in> gamma (after st out)"
    if "d \<in> gamma (after st0 out0)" "ends_all eff p (i # items) st0 d st d'" for st0 d st d'
    using that(2) covers_ends [OF here(3) dj [OF that(1)]] later by (elim ends_ConsE) blast
  moreover have "recorded (set (cb_commands b')) c e"
    if "d \<in> gamma (after st0 out0)" "starts_all eff p (i # items) d c e" for st0 d c e
    using that(2) covers_ends [OF here(3) dj [OF that(1)]] covers_starts [OF here(3) dj [OF that(1)] _ sub] later
    by (elim starts_ConsE) blast+
  moreover have "set (cb_commands b0) \<subseteq> set (cb_commands b')"
    using join_states_sound(3) [OF j] here(2) sub by auto
  ultimately show ?case using later by simp
qed

lemma pipeline_sound:
  assumes IH: "sound_at eff p bytes n"
    and r: "try_fold (\<lambda>b c. case visit n bytes p c inc b of Inl e \<Rightarrow> Inl e | Inr (_, b') \<Rightarrow> Inr b') b0 cs = Inr b'"
    and a: "absolute_set inc"
  shows "set (cb_commands b0) \<subseteq> set (cb_commands b') \<and>
    (\<forall>d\<in>gamma inc. \<forall>j\<in>set cs. \<forall>c e. starts eff p j d c e \<longrightarrow> recorded (set (cb_commands b')) c e)"
  using r
proof (induction cs arbitrary: b0)
  case (Cons i cs)
  obtain o2 b2 where v: "visit n bytes p i inc b0 = Inr (o2, b2)"
    and rest: "try_fold (\<lambda>b c. case visit n bytes p c inc b of Inl e \<Rightarrow> Inl e | Inr (_, b') \<Rightarrow> Inr b') b2 cs = Inr b'"
    using Cons.prems by (cases "visit n bytes p i inc b0") auto
  note here = sound_atD [OF IH v a]
  note later = Cons.IH [OF rest]
  then have sub: "set (cb_commands b2) \<subseteq> set (cb_commands b')" by blast
  then have "recorded (set (cb_commands b')) c e" if "d \<in> gamma inc" "starts eff p i d c e" for d c e
    using that covers_starts [OF here(3)] by blast
  then show ?case using later here(2) sub by auto
qed simp

text \<open>What a node of each kind may do, by inversion of the two relations.\<close>

lemma ends_of:
  assumes "ends eff p i d st d'"
  shows "node_at p i (Sequence is ops) \<Longrightarrow> \<exists>st0. ends_all eff p is st0 d st d'"
    and "node_at p i (AndOr l op r) \<Longrightarrow> op_kind op = And \<Longrightarrow>
      (\<exists>d1. ends eff p l d True d1 \<and> ends eff p r d1 st d') \<or> \<not> st \<and> ends eff p l d False d'"
    and "node_at p i (AndOr l op r) \<Longrightarrow> op_kind op \<noteq> And \<Longrightarrow>
      (\<exists>d1. ends eff p l d False d1 \<and> ends eff p r d1 st d') \<or> st \<and> ends eff p l d True d'"
    and "node_at p i (Pipeline cs ops) \<Longrightarrow> d' = d"
    and "node_at p i (Background body op) \<Longrightarrow> d' = d"
    and "node_at p i (Subshell body op cl) \<Longrightarrow> d' = d"
    and "node_at p i (BraceGroup body op cl) \<Longrightarrow> ends eff p body d st d'"
    and "node_at p i (Command c) \<Longrightarrow> eff c d st d'"
  by - (rule ends_node [OF assms]; force simp: node_at_def)+

lemma starts_of:
  assumes "starts eff p i d c e"
  shows "node_at p i (Sequence is ops) \<Longrightarrow> starts_all eff p is d c e"
    and "node_at p i (AndOr l op r) \<Longrightarrow> op_kind op = And \<Longrightarrow>
      starts eff p l d c e \<or> (\<exists>d1. ends eff p l d True d1 \<and> starts eff p r d1 c e)"
    and "node_at p i (AndOr l op r) \<Longrightarrow> op_kind op \<noteq> And \<Longrightarrow>
      starts eff p l d c e \<or> (\<exists>d1. ends eff p l d False d1 \<and> starts eff p r d1 c e)"
    and "node_at p i (Pipeline cs ops) \<Longrightarrow> \<exists>j\<in>set cs. starts eff p j d c e"
    and "node_at p i (Background body op) \<Longrightarrow> starts eff p body d c e"
    and "node_at p i (Subshell body op cl) \<Longrightarrow> starts eff p body d c e"
    and "node_at p i (BraceGroup body op cl) \<Longrightarrow> starts eff p body d c e"
    and "node_at p i (Command b) \<Longrightarrow> c = i \<and> e = d"
    and "node_at p i (Assignments as) \<Longrightarrow> False"
    and "node_at p i (Unknown_node k) \<Longrightarrow> False"
  by - (rule starts_node [OF assms]; force simp: node_at_def)+

lemma visit_okI:
  assumes "sound_outcomes out" "set (cb_commands b) \<subseteq> set (cb_commands b')"
    "\<And>d st d'. d \<in> gamma inc \<Longrightarrow> ends eff p i d st d' \<Longrightarrow> d' \<in> gamma (after st out)"
    "\<And>d c e. d \<in> gamma inc \<Longrightarrow> starts eff p i d c e \<Longrightarrow> recorded (set (cb_commands b')) c e"
  shows "visit_ok eff p i inc b out b'"
  using assms by (simp add: visit_ok_def covers_def)

lemma sound_unchanged: "absolute_set inc \<Longrightarrow> sound_outcomes (unchanged inc)"
  by (simp add: sound_outcomes_def)

lemma andor_sound:
  assumes IH: "sound_at eff p bytes n" and node: "node_at p i (AndOr l op r)"
    and r: "visit (Suc n) bytes p i inc b = Inr (out, b')" and a: "absolute_set inc"
  shows "visit_ok eff p i inc b out b'"
proof -
  let ?go = "if op_kind op = And then success else failure"
  let ?stop = "if op_kind op = And then failure else success"
  obtain lo b1 where l: "visit n bytes p l inc b = Inr (lo, b1)"
    using r node by (auto simp: node_at_def split: sum.splits)
  obtain ro b2 where v: "visit n bytes p r (?go lo) b1 = Inr (ro, b2)"
    using r node l by (auto simp: node_at_def split: sum.splits if_splits)
  obtain j where j: "join_states i (?stop lo) (?stop ro) b2 = (j, b')"
    and out: "out = (if op_kind op = And then \<lparr>success = success ro, failure = j\<rparr>
                     else \<lparr>success = j, failure = failure ro\<rparr>)"
    using r node l v by (auto simp: node_at_def split: sum.splits if_splits prod.splits)
  note L = sound_atD [OF IH l a]
  have "absolute_set (?go lo)" using L(1) by (simp add: sound_outcomes_def)
  note R = sound_atD [OF IH v this]
  note J = join_states_sound [OF j]
  have sub: "set (cb_commands b1) \<subseteq> set (cb_commands b')" "set (cb_commands b2) \<subseteq> set (cb_commands b')"
    using R(2) J(3) by auto
  have after: "gamma (after st ro) \<subseteq> gamma (after st out)"
    "gamma (?stop lo) \<subseteq> gamma (?stop out)" for st
    using J(1,2) out by (auto simp: after_def split: if_splits)
  show ?thesis
  proof (rule visit_okI)
    show "sound_outcomes out" using J(4) L(1) R(1) out by (auto simp: sound_outcomes_def split: if_splits)
    show "set (cb_commands b) \<subseteq> set (cb_commands b')" using L(2) sub by blast
    show "d' \<in> gamma (after st out)" if "d \<in> gamma inc" "ends eff p i d st d'" for d st d'
    proof (cases "op_kind op = And")
      case True
      then show ?thesis
        using ends_of(2) [OF that(2) node True] covers_ends [OF L(3) that(1), of True]
          covers_ends [OF L(3) that(1), of False] covers_ends [OF R(3), where st = st] after(1) [of st] after(2)
        by (cases st; simp; blast)
    next
      case False
      then show ?thesis
        using ends_of(3) [OF that(2) node False] covers_ends [OF L(3) that(1), of True]
          covers_ends [OF L(3) that(1), of False] covers_ends [OF R(3), where st = st] after(1) [of st] after(2)
        by (cases st; simp; blast)
    qed
    show "recorded (set (cb_commands b')) c e" if "d \<in> gamma inc" "starts eff p i d c e" for d c e
    proof (cases "op_kind op = And")
      case True
      then show ?thesis
        using starts_of(2) [OF that(2) node True] covers_ends [OF L(3) that(1), of True]
          covers_starts [OF L(3) that(1) _ sub(1)] covers_starts [OF R(3) _ _ sub(2)]
        by (simp; blast)
    next
      case False
      then show ?thesis
        using starts_of(3) [OF that(2) node False] covers_ends [OF L(3) that(1), of False]
          covers_starts [OF L(3) that(1) _ sub(1)] covers_starts [OF R(3) _ _ sub(2)]
        by (simp; blast)
    qed
  qed
qed

text \<open>A node whose body runs in a child process.\<close>

lemma child_sound:
  assumes IH: "sound_at eff p bytes n" and v: "visit n bytes p body inc b = Inr (o1, b')"
    and a: "absolute_set inc"
    and e: "\<And>d st d'. ends eff p i d st d' \<Longrightarrow> d' = d" and s: "\<And>d c e. starts eff p i d c e \<Longrightarrow> starts eff p body d c e"
  shows "visit_ok eff p i inc b (unchanged inc) b'"
proof (rule visit_okI)
  show "recorded (set (cb_commands b')) c e" if "d \<in> gamma inc" "starts eff p i d c e" for d c e
    by (rule covers_starts [OF sound_atD(3) [OF IH v a] that(1) s [OF that(2)]]) simp
qed (use sound_atD(2) [OF IH v a] a e in \<open>auto simp: sound_unchanged\<close>)

lemma command_sound:
  assumes doc: "documented p eff" "inert_payloads p" and node: "node_at p i (Command c)"
    and r: "visit (Suc n) bytes p i inc b = Inr (out, b')" and a: "absolute_set inc"
  shows "visit_ok eff p i inc b out b'"
proof -
  obtain inc' b1 where ret: "retain bytes i inc b = (inc', b1)" by fastforce
  define ctx where "ctx = \<lparr>ctx_command = i, ctx_incoming = inc', ctx_complete = (inc' \<noteq> Unknown)\<rparr>"
  have v: "visit_command p i c inc' (b1\<lparr>cb_commands := cb_commands b1 @ [ctx]\<rparr>) = (out, b')"
    using r node by (simp add: node_at_def ret ctx_def)
  have a': "absolute_set inc'" by (rule retain_sound(3) [OF ret a])
  note V = visit_command_sound [OF v a']
  have quiet: "quiet_payloads p c" using doc(2) node by (auto simp: inert_payloads_def node_at_def list_all_length)
  have cmds: "cb_commands b' = cb_commands b @ [ctx]" using V(1) retain_sound(2) [OF ret] by simp
  show ?thesis
  proof (rule visit_okI)
    show "sound_outcomes out" by (rule V(2))
    show "d' \<in> gamma (after st out)" if "d \<in> gamma inc" "ends eff p i d st d'" for d st d'
      using V(3) [OF doc(1) quiet _ ends_of(8) [OF that(2) node]] that(1) retain_sound(1) [OF ret] by blast
    show "recorded (set (cb_commands b')) k e" if "d \<in> gamma inc" "starts eff p i d k e" for d k e
      using starts_of(8) [OF that(2) node] that(1) retain_sound(1) [OF ret]
      by (auto simp: recorded_def cmds ctx_def)
  qed (use cmds in auto)
qed

lemma visit_sound:
  assumes doc: "documented p eff" "inert_payloads p"
  shows "sound_at eff p bytes n"
proof (induction n)
  case 0
  then show ?case by (simp add: sound_at_def)
next
  case (Suc n)
  have "visit_ok eff p i inc b out b'"
    if r: "visit (Suc n) bytes p i inc b = Inr (out, b')" and a: "absolute_set inc" for i inc b out b'
  proof -
    have i: "i < length (nodes p)" using r by (simp split: if_splits)
    show ?thesis
    proof (cases "node_structure (nodes p ! i)")
      case (Sequence items ops)
      then have node: "node_at p i (Sequence items ops)" using i by (simp add: node_at_def)
      note S = sequence_sound [OF Suc.IH, of "unchanged inc" b items out b']
      have S': "sound_outcomes out \<and> set (cb_commands b) \<subseteq> set (cb_commands b') \<and>
        (\<forall>st0 d. d \<in> gamma inc \<longrightarrow>
           (\<forall>st d'. ends_all eff p items st0 d st d' \<longrightarrow> d' \<in> gamma (after st out)) \<and>
           (\<forall>c e. starts_all eff p items d c e \<longrightarrow> recorded (set (cb_commands b')) c e))"
        using S r i Sequence a by (simp add: sound_outcomes_def)
      then show ?thesis
        using ends_of(1) [OF _ node] starts_of(1) [OF _ node] by (intro visit_okI) blast+
    next
      case (AndOr l op r')
      then show ?thesis using andor_sound [OF Suc.IH _ r a] i by (simp add: node_at_def)
    next
      case (Pipeline cs ops)
      then have node: "node_at p i (Pipeline cs ops)" using i by (simp add: node_at_def)
      obtain b1 where f: "try_fold (\<lambda>b c. case visit n bytes p c inc b of Inl e \<Rightarrow> Inl e | Inr (_, b') \<Rightarrow> Inr b') b cs = Inr b1"
        and out: "out = unchanged inc" "b' = b1"
        using r i Pipeline by (auto split: sum.splits)
      show ?thesis
        using pipeline_sound [OF Suc.IH f a] ends_of(4) [OF _ node] starts_of(4) [OF _ node, of eff] a
        by (intro visit_okI) (force simp: out sound_unchanged)+
    next
      case (Background body op)
      then have node: "node_at p i (Background body op)" using i by (simp add: node_at_def)
      obtain o1 where v: "visit n bytes p body inc b = Inr (o1, b')" and out: "out = unchanged inc"
        using r i Background by (auto split: sum.splits)
      show ?thesis
        unfolding out by (rule child_sound [OF Suc.IH v a ends_of(5) [OF _ node] starts_of(5) [OF _ node]])
    next
      case (Subshell body op cl)
      then have node: "node_at p i (Subshell body op cl)" using i by (simp add: node_at_def)
      obtain o1 where v: "visit n bytes p body inc b = Inr (o1, b')" and out: "out = unchanged inc"
        using r i Subshell by (auto split: sum.splits)
      show ?thesis
        unfolding out by (rule child_sound [OF Suc.IH v a ends_of(6) [OF _ node] starts_of(6) [OF _ node]])
    next
      case (BraceGroup body op cl)
      then have node: "node_at p i (BraceGroup body op cl)" using i by (simp add: node_at_def)
      have v: "visit n bytes p body inc b = Inr (out, b')" using r i BraceGroup by simp
      show ?thesis
        using sound_atD(1,2) [OF Suc.IH v a] covers_ends [OF sound_atD(3) [OF Suc.IH v a] _ ends_of(7) [OF _ node]]
          covers_starts [OF sound_atD(3) [OF Suc.IH v a] _ starts_of(7) [OF _ node] order_refl]
        by (intro visit_okI) blast+
    next
      case (Command c)
      then show ?thesis using command_sound [OF doc _ r a] i by (simp add: node_at_def)
    next
      case (Assignments as)
      then have node: "node_at p i (Assignments as)" using i by (simp add: node_at_def)
      show ?thesis
        using r i Assignments starts_of(9) [OF _ node]
        by (intro visit_okI) (auto simp: unknown_effect_def sound_unchanged)
    next
      case (Unknown_node k)
      then have node: "node_at p i (Unknown_node k)" using i by (simp add: node_at_def)
      show ?thesis
        using r i Unknown_node starts_of(10) [OF _ node]
        by (intro visit_okI) (auto simp: unknown_effect_def sound_unchanged)
    qed
  qed
  then show ?case by (simp add: sound_at_def)
qed

section \<open>What every set of the analysis satisfies\<close>

lemma visit_command_cases:
  obtains "visit_command p i c inc b = unknown_effect i b" | "visit_command p i c inc b = (unchanged inc, b)"
  | argv where "visit_command p i c inc b = cd_command i argv inc b"
proof -
  have "visit_command p i c inc b \<in> {unknown_effect i b, (unchanged inc, b)} \<or>
      (\<exists>argv. visit_command p i c inc b = cd_command i argv inc b)"
    unfolding visit_command_def by (auto split: option.split list.split)
  then show ?thesis using that by auto
qed

lemma kept_commands [simp]:
  "cb_commands (snd (cd_command i argv inc b)) = cb_commands b"
  "cb_commands (snd (join_states i l r b)) = cb_commands b"
  "cb_commands (snd (retain bytes i s b)) = cb_commands b"
  "cb_commands (snd (visit_command p i c inc b)) = cb_commands b"
proof -
  show cd: "cb_commands (snd (cd_command i argv inc b)) = cb_commands b" for argv
    by (rule cd_command_commands) (rule prod.collapse [symmetric])
  show "cb_commands (snd (join_states i l r b)) = cb_commands b"
    by (rule join_states_sound(3)) (rule prod.collapse [symmetric])
  show "cb_commands (snd (retain bytes i s b)) = cb_commands b"
    by (rule retain_sound(2)) (rule prod.collapse [symmetric])
  show "cb_commands (snd (visit_command p i c inc b)) = cb_commands b"
    by (rule visit_command_cases [of p i c inc b]) (simp_all add: unknown_effect_def cd)
qed

text \<open>
  A property of abstract values that the three ways of making a new one keep; the analysis
  then only ever holds and records values with the property.
\<close>

locale cwd_domain =
  fixes Q :: "BashCwdSet \<Rightarrow> bool"
  assumes Q_unknown: "Q Unknown"
    and Q_join: "Q l \<Longrightarrow> Q r \<Longrightarrow> Q (fst (join_states i l r b))"
    and Q_cd: "Q inc \<Longrightarrow> Q (success (fst (cd_command i argv inc b))) \<and> Q (failure (fst (cd_command i argv inc b)))"
begin

definition all_Q :: "Outcomes \<times> ContextBuilder \<Rightarrow> bool" where
  "all_Q r \<longleftrightarrow> Q (success (fst r)) \<and> Q (failure (fst r)) \<and> (\<forall>k\<in>set (cb_commands (snd r)). Q (ctx_incoming k))"

lemma Q_retain: "Q s \<Longrightarrow> Q (fst (retain bytes i s b))"
  by (auto simp: retain_def Let_def Q_unknown split: BashCwdSet.splits)

lemma Q_command:
  assumes "Q inc"
  shows "Q (success (fst (visit_command p i c inc b))) \<and> Q (failure (fst (visit_command p i c inc b)))"
  using Q_cd [OF assms] Q_unknown assms
  by (cases rule: visit_command_cases [of p i c inc b]) (simp_all add: unknown_effect_def)

lemma visit_domain:
  "visit n bytes p i inc b = Inr r \<Longrightarrow> Q inc \<Longrightarrow> \<forall>k\<in>set (cb_commands b). Q (ctx_incoming k) \<Longrightarrow> all_Q r"
proof (induction n arbitrary: i inc b r)
  case (Suc n)
  note IH = Suc.IH and Qi = Suc.prems(2) and Qb = Suc.prems(3)
  have i: "i < length (nodes p)" using Suc.prems(1) by (simp split: if_splits)
  show ?case
  proof (cases "node_structure (nodes p ! i)")
    case (Sequence items ops)
    then have "try_fold (\<lambda>(out, b) item. let (inc', b') = join_states item (success out) (failure out) b
        in visit n bytes p item inc' b') (unchanged inc, b) items = Inr r"
      using Suc.prems(1) i by simp
    then show ?thesis
    proof (rule try_fold_inv [where I = all_Q])
      show "all_Q r'" if "all_Q q" "(case q of (out, b) \<Rightarrow> \<lambda>item.
          let (inc', b') = join_states item (success out) (failure out) b in visit n bytes p item inc' b') x = Inr r'"
        for q x r'
        using that IH [of x "fst (join_states x (success (fst q)) (failure (fst q)) (snd q))"
            "snd (join_states x (success (fst q)) (failure (fst q)) (snd q))" r'] Q_join
        by (simp add: all_Q_def case_prod_unfold Let_def)
    qed (use Qi Qb in \<open>simp add: all_Q_def\<close>)
  next
    case (AndOr l op r')
    then obtain lo ro b1 b2 where v: "visit n bytes p l inc b = Inr (lo, b1)"
      "visit n bytes p r' (if op_kind op = And then success lo else failure lo) b1 = Inr (ro, b2)"
      using Suc.prems(1) i by (auto split: sum.splits if_splits)
    then have q: "all_Q (lo, b1)" "all_Q (ro, b2)"
    proof -
      show l: "all_Q (lo, b1)" by (rule IH [OF v(1) Qi Qb])
      show "all_Q (ro, b2)" by (rule IH [OF v(2)]) (use l in \<open>simp_all add: all_Q_def\<close>)
    qed
    then show ?thesis
      using Suc.prems(1) i AndOr v Q_join
      by (auto simp: all_Q_def case_prod_unfold Let_def split: if_splits)
  next
    case (Pipeline cs ops)
    then obtain b1 where f: "try_fold (\<lambda>b c. case visit n bytes p c inc b of Inl e \<Rightarrow> Inl e | Inr (_, b') \<Rightarrow> Inr b') b cs = Inr b1"
      and r: "r = (unchanged inc, b1)"
      using Suc.prems(1) i by (auto split: sum.splits)
    have "\<forall>k\<in>set (cb_commands b1). Q (ctx_incoming k)"
      using f Qb
    proof (rule try_fold_inv)
      show "\<forall>k\<in>set (cb_commands b'). Q (ctx_incoming k)"
        if "\<forall>k\<in>set (cb_commands b). Q (ctx_incoming k)"
          "(case visit n bytes p c inc b of Inl e \<Rightarrow> Inl e | Inr (_, b') \<Rightarrow> Inr b') = Inr b'" for b c b'
        using that IH [of c inc b] Qi by (auto simp: all_Q_def split: sum.splits)
    qed
    then show ?thesis using Qi by (simp add: all_Q_def r)
  next
    case (Command c)
    then have r: "r = visit_command p i c (fst (retain bytes i inc b))
        ((snd (retain bytes i inc b))\<lparr>cb_commands := cb_commands (snd (retain bytes i inc b)) @
           [\<lparr>ctx_command = i, ctx_incoming = fst (retain bytes i inc b),
             ctx_complete = (fst (retain bytes i inc b) \<noteq> Unknown)\<rparr>]\<rparr>)"
      using Suc.prems(1) i by (simp add: case_prod_unfold Let_def)
    show ?thesis
      using Qb Q_retain [OF Qi] Q_command by (auto simp: all_Q_def r)
  qed (use Suc.prems(1) i IH Qi Qb Q_unknown in
      \<open>auto simp: all_Q_def unknown_effect_def split: sum.splits\<close>)
qed simp

end

text \<open>Without a known starting point the analysis claims nothing.\<close>

interpretation blind: cwd_domain "\<lambda>s. s = Unknown"
  by unfold_locales
    (auto simp: join_states_def cd_command_def unknown_effect_def split: option.splits)

text \<open>Known sets are small, and so are their members.\<close>

fun within_limits :: "BashCwdSet \<Rightarrow> bool" where
  "within_limits Unknown = True"
| "within_limits (Known ps) =
     (length ps \<le> MAX_CWD_STATES \<and> list_all (\<lambda>p. starts_with p [SLASH] \<and> byte_len p \<le> MAX_CWD_PATH_BYTES) ps)"

lemma dedup_paths_length: "length (dedup_paths ps) \<le> length ps"
  by (induction ps rule: dedup_paths.induct) auto

lemma sort_dedup_length: "length (sort_dedup ps) \<le> length ps"
  using dedup_paths_length [of "sort_key components ps"] by (simp add: sort_dedup_def)

lemma sort_dedup_all: "list_all P ps \<Longrightarrow> list_all P (sort_dedup ps)"
  using sort_dedup_subset by (auto simp: list_all_iff)

lemma cd_within_limits:
  assumes "within_limits inc"
  shows "within_limits (success (fst (cd_command i argv inc b))) \<and> within_limits (failure (fst (cd_command i argv inc b)))"
proof -
  have "within_limits (Known (sort_dedup (map (\<lambda>q. path_push q w) ps)))"
    if "inc = Known ps" "\<not> (\<exists>q\<in>set (map (\<lambda>q. path_push q w) ps). byte_len q > MAX_CWD_PATH_BYTES)" for ps w
    using assms that components_path_push(2) sort_dedup_length [of "map (\<lambda>q. path_push q w) ps"]
    by (simp, intro conjI sort_dedup_all) (auto simp: list_all_iff not_less)
  then show ?thesis
    using assms by (auto simp: cd_command_def unknown_effect_def Let_def split: option.split BashCwdSet.split)
qed

interpretation limits: cwd_domain within_limits
proof
  show "within_limits (fst (join_states i l r b))" if "within_limits l" "within_limits r" for l r i b
    using that sort_dedup_all
    by (auto simp: join_states_def Let_def split: BashCwdSet.split)
qed (simp_all add: cd_within_limits)

section \<open>Completeness\<close>

text \<open>As long as no issue is reported, nothing known becomes unknown.\<close>

definition stays_known :: "BashCwdSet \<Rightarrow> ContextBuilder \<Rightarrow> Outcomes \<times> ContextBuilder \<Rightarrow> bool" where
  "stays_known inc b r \<longleftrightarrow>
     (cb_complete (snd r) \<longrightarrow>
        cb_complete b \<and>
        (inc \<noteq> Unknown \<longrightarrow> (\<forall>k\<in>set (cb_commands b). ctx_incoming k \<noteq> Unknown) \<longrightarrow>
           success (fst r) \<noteq> Unknown \<and> failure (fst r) \<noteq> Unknown \<and>
           (\<forall>k\<in>set (cb_commands (snd r)). ctx_incoming k \<noteq> Unknown)))"

lemma join_known:
  "cb_complete (snd (join_states i l r b)) \<Longrightarrow>
     cb_complete b \<and> (l \<noteq> Unknown \<longrightarrow> r \<noteq> Unknown \<longrightarrow> fst (join_states i l r b) \<noteq> Unknown)"
  by (auto simp: join_states_def Let_def split: BashCwdSet.splits if_splits)

lemma retain_known:
  "cb_complete (snd (retain bytes i s b)) \<Longrightarrow>
     cb_complete b \<and> (s \<noteq> Unknown \<longrightarrow> fst (retain bytes i s b) \<noteq> Unknown)"
  by (auto simp: retain_def Let_def split: BashCwdSet.splits if_splits)

lemma cd_known:
  "cb_complete (snd (cd_command i argv inc b)) \<Longrightarrow>
     cb_complete b \<and> (inc \<noteq> Unknown \<longrightarrow>
       success (fst (cd_command i argv inc b)) \<noteq> Unknown \<and> failure (fst (cd_command i argv inc b)) \<noteq> Unknown)"
  by (auto simp: cd_command_def unknown_effect_def Let_def split: option.splits BashCwdSet.splits if_splits)

lemma command_known:
  "cb_complete (snd (visit_command p i c inc b)) \<Longrightarrow>
     cb_complete b \<and> (inc \<noteq> Unknown \<longrightarrow>
       success (fst (visit_command p i c inc b)) \<noteq> Unknown \<and> failure (fst (visit_command p i c inc b)) \<noteq> Unknown)"
  by (cases rule: visit_command_cases [of p i c inc b]) (auto simp: unknown_effect_def dest: cd_known)

lemma visit_known: "visit n bytes p i inc b = Inr r \<Longrightarrow> stays_known inc b r"
proof (induction n arbitrary: i inc b r)
  case (Suc n)
  note IH = Suc.IH
  have i: "i < length (nodes p)" using Suc.prems by (simp split: if_splits)
  show ?case
  proof (cases "node_structure (nodes p ! i)")
    case (Sequence items ops)
    then have "try_fold (\<lambda>(out, b) item. let (inc', b') = join_states item (success out) (failure out) b
        in visit n bytes p item inc' b') (unchanged inc, b) items = Inr r"
      using Suc.prems i by simp
    then show ?thesis
    proof (rule try_fold_inv [where I = "stays_known inc b"])
      fix q x r'
      assume q: "stays_known inc b q" and v: "(case q of (out, b) \<Rightarrow> \<lambda>item.
          let (inc', b') = join_states item (success out) (failure out) b in visit n bytes p item inc' b') x = Inr r'"
      let ?j = "join_states x (success (fst q)) (failure (fst q)) (snd q)"
      have "stays_known (fst ?j) (snd ?j) r'" using v by (intro IH) (simp add: case_prod_unfold Let_def)
      then show "stays_known inc b r'"
        using q join_known [of x "success (fst q)" "failure (fst q)" "snd q"]
        unfolding stays_known_def kept_commands by blast
    qed (simp add: stays_known_def)
  next
    case (AndOr l op r')
    then obtain lo ro b1 b2 where v: "visit n bytes p l inc b = Inr (lo, b1)"
      "visit n bytes p r' (if op_kind op = And then success lo else failure lo) b1 = Inr (ro, b2)"
      using Suc.prems i by (auto split: sum.splits if_splits)
    note known = IH [OF v(1), unfolded stays_known_def] IH [OF v(2), unfolded stays_known_def]
    show ?thesis
    proof (cases "op_kind op = And")
      case True
      then have "r = (\<lparr>success = success ro, failure = fst (join_states i (failure lo) (failure ro) b2)\<rparr>,
          snd (join_states i (failure lo) (failure ro) b2))"
        using Suc.prems i AndOr v by (simp add: case_prod_unfold Let_def)
      then show ?thesis
        using known(1) known(2) [unfolded if_P [OF True]] join_known [of i "failure lo" "failure ro" b2]
        by (simp only: stays_known_def kept_commands fst_conv snd_conv Outcomes.simps) blast
    next
      case False
      then have "r = (\<lparr>success = fst (join_states i (success lo) (success ro) b2), failure = failure ro\<rparr>,
          snd (join_states i (success lo) (success ro) b2))"
        using Suc.prems i AndOr v by (simp add: case_prod_unfold Let_def)
      then show ?thesis
        using known(1) known(2) [unfolded if_not_P [OF False]] join_known [of i "success lo" "success ro" b2]
        by (simp only: stays_known_def kept_commands fst_conv snd_conv Outcomes.simps) blast
    qed
  next
    case (Pipeline cs ops)
    then obtain b1 where f: "try_fold (\<lambda>b c. case visit n bytes p c inc b of Inl e \<Rightarrow> Inl e | Inr (_, b') \<Rightarrow> Inr b') b cs = Inr b1"
      and r: "r = (unchanged inc, b1)"
      using Suc.prems i by (auto split: sum.splits)
    have "stays_known inc b (unchanged inc, b1)"
      using f
    proof (rule try_fold_inv)
      show "stays_known inc b (unchanged inc, b2')"
        if "stays_known inc b (unchanged inc, b2)"
          "(case visit n bytes p c inc b2 of Inl e \<Rightarrow> Inl e | Inr (_, b') \<Rightarrow> Inr b') = Inr b2'" for b2 c b2'
        using that IH [of c inc b2] by (auto simp: stays_known_def split: sum.splits)
    qed (simp add: stays_known_def)
    then show ?thesis by (simp add: r)
  next
    case (Command c)
    then have r: "r = visit_command p i c (fst (retain bytes i inc b))
        ((snd (retain bytes i inc b))\<lparr>cb_commands := cb_commands (snd (retain bytes i inc b)) @
           [\<lparr>ctx_command = i, ctx_incoming = fst (retain bytes i inc b),
             ctx_complete = (fst (retain bytes i inc b) \<noteq> Unknown)\<rparr>]\<rparr>)"
      using Suc.prems i by (simp add: case_prod_unfold Let_def)
    show ?thesis
      using retain_known [of bytes i inc b] by (auto simp: stays_known_def r dest!: command_known)
  qed (use Suc.prems i IH in \<open>auto simp: stays_known_def unknown_effect_def split: sum.splits\<close>)
qed simp

section \<open>Termination\<close>

text \<open>
  The node table as a tree: the identifiers below a node are in the table and nest at most
  \<open>n\<close> deep. The visit of such a node returns.
\<close>

fun node_children :: "BashNodeKind \<Rightarrow> BashNodeId list" where
  "node_children (Sequence is _) = is"
| "node_children (AndOr l _ r) = [l, r]"
| "node_children (Pipeline cs _) = cs"
| "node_children (Background body _) = [body]"
| "node_children (Subshell body _ _) = [body]"
| "node_children (BraceGroup body _ _) = [body]"
| "node_children _ = []"

primrec nests :: "nat \<Rightarrow> BashProgram \<Rightarrow> BashNodeId \<Rightarrow> bool" where
  "nests 0 p i = False"
| "nests (Suc n) p i \<longleftrightarrow>
     i < length (nodes p) \<and> list_all (nests n p) (node_children (node_structure (nodes p ! i)))"

lemma visit_total: "nests n p i \<Longrightarrow> \<exists>r. visit n bytes p i inc b = Inr r"
proof (induction n arbitrary: i inc b)
  case (Suc n)
  then have i: "i < length (nodes p)" and sub: "\<And>j. j \<in> set (node_children (node_structure (nodes p ! i))) \<Longrightarrow> nests n p j"
    by (auto simp: list_all_iff)
  note IH = Suc.IH [OF sub]
  show ?case
  proof (cases "node_structure (nodes p ! i)")
    case (Sequence items ops)
    have "\<exists>t. try_fold (\<lambda>(out, b) item. let (inc', b') = join_states item (success out) (failure out) b
        in visit n bytes p item inc' b') (unchanged inc, b) items = Inr t"
      using IH Sequence by (intro try_fold_total) (simp add: case_prod_unfold Let_def)
    then show ?thesis using i Sequence by simp
  next
    case (AndOr l op r)
    obtain lo b1 where l: "visit n bytes p l inc b = Inr (lo, b1)" using IH [of l inc b] AndOr by auto
    obtain ro b2 where "visit n bytes p r (if op_kind op = And then success lo else failure lo) b1 = Inr (ro, b2)"
      using IH [of r "if op_kind op = And then success lo else failure lo" b1] AndOr by auto
    then show ?thesis using i AndOr l by (auto simp: case_prod_unfold Let_def)
  next
    case (Pipeline cs ops)
    have "\<exists>t. (case visit n bytes p c inc b of Inl e \<Rightarrow> Inl e | Inr (_, b') \<Rightarrow> Inr b') = Inr t" if "c \<in> set cs" for c b
      using IH [of c inc b] Pipeline that by auto
    then have "\<exists>t. try_fold (\<lambda>b c. case visit n bytes p c inc b of Inl e \<Rightarrow> Inl e | Inr (_, b') \<Rightarrow> Inr b') b cs = Inr t"
      by (rule try_fold_total)
    then show ?thesis using i Pipeline by auto
  next
    case (Background body op)
    then show ?thesis using i IH [of body inc b] by auto
  next
    case (Subshell body op cl)
    then show ?thesis using i IH [of body inc b] by auto
  next
    case (BraceGroup body op cl)
    then show ?thesis using i IH [of body inc b] by auto
  qed (use i in \<open>auto simp: case_prod_unfold Let_def\<close>)
qed simp

section \<open>The result\<close>

text \<open>
  A model of the documented behaviour: nothing but \<open>cd\<close> moves, an expanding payload may assign
  \<open>CDPATH\<close>, and then \<open>cd\<close> goes to the directory found through it.
\<close>

definition standard_effect :: "BashProgram \<Rightarrow> Path \<Rightarrow> effects" where
  "standard_effect p cdpath c d st d' \<longleftrightarrow>
     d' = (case static_argv c of
             Some argv \<Rightarrow>
               if argv \<noteq> [] \<and> hd argv = u ''cd'' \<and> st
               then (case cd_operand argv of
                       Some w \<Rightarrow> d\<lparr>ss_dir := path_join (if ss_assigned d then cdpath else ss_dir d) (components w)\<rparr>
                     | None \<Rightarrow> d)
               else d\<lparr>ss_assigned := (ss_assigned d \<or> \<not> quiet_payloads p c)\<rparr>
           | None \<Rightarrow> d)"

lemma cd_builtin: "u ''cd'' \<in> set BASH_BUILTINS"
  by (simp add: BASH_BUILTINS_def)

lemma standard_effect_documented: "documented p (standard_effect p cdpath)"
proof -
  have "hd argv \<noteq> u ''cd''"
    if c: "static_argv c = Some argv" "argv \<noteq> []" "the (literal (hd (words c))) \<notin> set BASH_BUILTINS" for c argv
  proof -
    obtain x args where argv: "argv = x # args" using c(2) by (cases argv) auto
    obtain w ws where "words c = w # ws" "literal w = Some x"
      using static_argv_words [OF c(1) [unfolded argv]] by metis
    then show ?thesis using c(3) cd_builtin argv by auto
  qed
  moreover have "hd argv \<noteq> u ''cd''" if "reporting_argv argv" for argv
    using that by (auto simp: reporting_argv_def u_def)
  moreover have "cd_operand argv = None" if "argv = []" for argv
    using that by (simp add: cd_operand_def)
  ultimately show ?thesis
    unfolding documented_def standard_effect_def
    by (fastforce split: option.splits)
qed

lemma initial_states_cases:
  assumes "initial_states p cwd a base = (inc, b)"
  shows "cb_commands b = []" "ss_dir d = components cwd \<Longrightarrow> (declared a \<longrightarrow> \<not> ss_assigned d) \<Longrightarrow> d \<in> gamma inc"
    "absolute_set inc" "within_limits inc"
    "\<not> (declared a \<and> valid_initial cwd \<and> is_complete p) \<Longrightarrow> inc = Unknown"
    "cb_complete b \<Longrightarrow> declared a \<and> valid_initial cwd \<and> is_complete p \<and> inc \<noteq> Unknown"
  using assms by (auto simp: initial_states_def Let_def valid_initial_def MAX_CWD_STATES_def split: if_splits)

lemma contexts_result:
  assumes "command_contexts_with_assumptions fuel base bytes p cwd a = Inr r"
  obtains inc b out b1 where "initial_states p cwd a base = (inc, b)"
    "visit fuel bytes p (program_root p) inc b = Inr (out, b1)"
    "set (contexts r) = set (cb_commands b1)"
    "on_success r = fst (retain bytes (program_root p) (success out) b1)"
    "on_failure r = fst (retain bytes (program_root p) (failure out) (snd (retain bytes (program_root p) (success out) b1)))"
    "contexts_complete r = cb_complete (snd (retain bytes (program_root p) (failure out) (snd (retain bytes (program_root p) (success out) b1))))"
  using assms that
  by (auto simp: command_contexts_with_assumptions_def case_prod_unfold Let_def split: sum.splits prod.splits)
    (metis prod.collapse)

text \<open>
  C9. The directory analysis is sound for programs whose here documents and here strings expand no
  parameter. Whatever the commands do, as long as it agrees with the documented behaviour of Bash,
  every command the program can start from the initial directory has a context, whose set contains
  the directory the command is started in; and the directory after the program is in the set for its
  exit status. The shell must start with untouched directory variables if the caller declared that.
\<close>

theorem contexts_sound:
  assumes doc: "documented p eff" "inert_payloads p"
    and r: "command_contexts_with_assumptions fuel base bytes p cwd a = Inr r"
    and d: "ss_dir d = components cwd" "declared a \<longrightarrow> \<not> ss_assigned d"
  shows "(starts eff p (program_root p) d c e \<longrightarrow>
            (\<exists>k\<in>set (contexts r). ctx_command k = c \<and> e \<in> gamma (ctx_incoming k))) \<and>
         (ends eff p (program_root p) d st d' \<longrightarrow>
            d' \<in> gamma (if st then on_success r else on_failure r))"
proof -
  obtain inc b out b1 where i: "initial_states p cwd a base = (inc, b)"
    and v: "visit fuel bytes p (program_root p) inc b = Inr (out, b1)"
    and cs: "set (contexts r) = set (cb_commands b1)"
    and sf: "on_success r = fst (retain bytes (program_root p) (success out) b1)"
      "on_failure r = fst (retain bytes (program_root p) (failure out) (snd (retain bytes (program_root p) (success out) b1)))"
    by (rule contexts_result [OF r])
  note I = initial_states_cases [OF i]
  note S = sound_atD(3) [OF visit_sound [OF doc] v I(3)]
  have ret: "gamma s \<subseteq> gamma (fst (retain bytes j s b))" for s j b
    by (rule retain_sound(1)) (rule prod.collapse [symmetric])
  have "d' \<in> gamma (if st then on_success r else on_failure r)"
    if "ends eff p (program_root p) d st d'"
    using covers_ends [OF S I(2) [OF d] that] subsetD [OF ret] by (cases st) (simp_all add: sf)
  then show ?thesis
    using covers_starts [OF S I(2) [OF d] _ order_refl] by (simp add: recorded_def cs)
qed

text \<open>
  What the completeness flag and the sets claim. A complete result was computed from
  declared assumptions, an absolute start and a program without diagnostics, and every set in
  it is known; without those three every set is unknown; and a known set never holds more than
  the limit of absolute paths of limited length.
\<close>

theorem contexts_claims:
  assumes r: "command_contexts_with_assumptions fuel base bytes p cwd a = Inr r"
  shows "(contexts_complete r \<longrightarrow> declared a \<and> valid_initial cwd \<and> is_complete p \<and>
            on_success r \<noteq> Unknown \<and> on_failure r \<noteq> Unknown \<and>
            (\<forall>k\<in>set (contexts r). ctx_incoming k \<noteq> Unknown)) \<and>
         (\<not> (declared a \<and> valid_initial cwd \<and> is_complete p) \<longrightarrow>
            on_success r = Unknown \<and> on_failure r = Unknown \<and>
            (\<forall>k\<in>set (contexts r). ctx_incoming k = Unknown)) \<and>
         within_limits (on_success r) \<and> within_limits (on_failure r) \<and>
         (\<forall>k\<in>set (contexts r). within_limits (ctx_incoming k))"
proof -
  obtain inc b out b1 where i: "initial_states p cwd a base = (inc, b)"
    and v: "visit fuel bytes p (program_root p) inc b = Inr (out, b1)"
    and cs: "set (contexts r) = set (cb_commands b1)"
    and sf: "on_success r = fst (retain bytes (program_root p) (success out) b1)"
      "on_failure r = fst (retain bytes (program_root p) (failure out) (snd (retain bytes (program_root p) (success out) b1)))"
    and c: "contexts_complete r = cb_complete (snd (retain bytes (program_root p) (failure out) (snd (retain bytes (program_root p) (success out) b1))))"
    by (rule contexts_result [OF r])
  note I = initial_states_cases [OF i]
  have known: "stays_known inc b (out, b1)" by (rule visit_known [OF v])
  have "limits.all_Q (out, b1)" by (rule limits.visit_domain [OF v I(4)]) (simp add: I(1))
  then have L: "within_limits (on_success r) \<and> within_limits (on_failure r) \<and>
      (\<forall>k\<in>set (contexts r). within_limits (ctx_incoming k))"
    by (simp add: limits.all_Q_def sf cs limits.Q_retain)
  have U: "on_success r = Unknown \<and> on_failure r = Unknown \<and> (\<forall>k\<in>set (contexts r). ctx_incoming k = Unknown)"
    if "inc = Unknown"
  proof -
    have "blind.all_Q (out, b1)" by (rule blind.visit_domain [OF v that]) (simp add: I(1))
    then show ?thesis by (simp add: blind.all_Q_def sf cs blind.Q_retain)
  qed
  have "contexts_complete r \<longrightarrow> declared a \<and> valid_initial cwd \<and> is_complete p \<and>
      on_success r \<noteq> Unknown \<and> on_failure r \<noteq> Unknown \<and> (\<forall>k\<in>set (contexts r). ctx_incoming k \<noteq> Unknown)"
    using known I(1,6) retain_known [of bytes "program_root p" "success out" b1]
      retain_known [of bytes "program_root p" "failure out" "snd (retain bytes (program_root p) (success out) b1)"]
    unfolding stays_known_def c sf cs fst_conv snd_conv by auto
  then show ?thesis using L U I(5) by blast
qed

text \<open>
  C20. The analysis of every program whose nodes form a finite tree returns, for any size
  accounting: fuel equal to its nesting is enough.
\<close>

theorem contexts_total:
  assumes "nests fuel p (program_root p)"
  shows "\<exists>r. command_contexts_with_assumptions fuel base bytes p cwd a = Inr r"
proof -
  obtain inc b where i: "initial_states p cwd a base = (inc, b)" by fastforce
  obtain out b1 where "visit fuel bytes p (program_root p) inc b = Inr (out, b1)"
    using visit_total [OF assms] by fast
  then show ?thesis by (simp add: command_contexts_with_assumptions_def i case_prod_unfold Let_def)
qed

text \<open>The program \<open>cd left || cat note\<close>, started in \<open>/w\<close>.\<close>

definition sample_word :: "string \<Rightarrow> BashWord" where
  "sample_word s = \<lparr>word_span = \<lparr>span_start = 0, span_end = 0\<rparr>, literal = Some (u s), fragments = []\<rparr>"

definition sample_command :: "string list \<Rightarrow> BashCommand" where
  "sample_command ws = \<lparr>command_complete = True, words = map sample_word ws, assignments = [],
     redirects = [], payloads = [], parts = []\<rparr>"

definition sample_node :: "BashNodeKind \<Rightarrow> BashNode" where
  "sample_node k = \<lparr>node_span = \<lparr>span_start = 0, span_end = 0\<rparr>, node_structure = k\<rparr>"

definition sample_program :: BashProgram where
  "sample_program =
     \<lparr>source_text = u ''cd left || cat note'', program_root = 0,
      nodes = map sample_node
        [Sequence [1] [], AndOr 2 \<lparr>op_span = \<lparr>span_start = 8, span_end = 10\<rparr>, op_kind = Or\<rparr> 3,
         Command (sample_command [''cd'', ''left'']), Command (sample_command [''cat'', ''note''])],
      diagnostics = []\<rparr>"

definition sample_assumptions :: BashContextAssumptions where
  "sample_assumptions =
     \<lparr>startup_preserves_cwd = True, no_aliases_functions_or_command_not_found_hook = True,
      no_traps = True, default_shell_options = True, standard_builtins = True,
      directory_variables_are_standard = True, cdpath_empty = True, lastpipe_disabled = True,
      logical_pwd_matches_initial = True\<rparr>"

lemma sample_nodes:
  "node_at sample_program 0 (Sequence [1] [])"
  "node_at sample_program 1 (AndOr 2 \<lparr>op_span = \<lparr>span_start = 8, span_end = 10\<rparr>, op_kind = Or\<rparr> 3)"
  "node_at sample_program 2 (Command (sample_command [''cd'', ''left'']))"
  "node_at sample_program 3 (Command (sample_command [''cat'', ''note'']))"
  "program_root sample_program = 0"
  by (simp_all add: node_at_def sample_program_def sample_node_def)

lemma sample_nests: "nests 3 sample_program 0"
  by (simp add: numeral_3_eq_3 sample_program_def sample_node_def)

definition start_state :: "string \<Rightarrow> ShellState" where
  "start_state w = \<lparr>ss_dir = components (u w), ss_assigned = False\<rparr>"

lemma sample_inert: "inert_payloads sample_program"
  by (simp add: inert_payloads_def sample_program_def sample_node_def quiet_payloads_def sample_command_def)

lemma sample_starts: "starts (standard_effect sample_program []) sample_program 0 (start_state ''/w'') 3 (start_state ''/w'')"
proof -
  let ?eff = "standard_effect sample_program []"
  have "ends ?eff sample_program 2 d False d" for d
    by (rule ends_command [OF sample_nodes(3)])
      (simp add: standard_effect_def static_argv_def sample_command_def sample_word_def quiet_payloads_def)
  then have "starts ?eff sample_program 1 d 3 d" for d
    using starts_command [OF sample_nodes(4), of ?eff d]
    by (intro starts_or [OF sample_nodes(2)]) simp_all
  then show ?thesis by (intro starts_sequence [OF sample_nodes(1)] starts_here)
qed

lemma sample_returns:
  obtains r where "command_contexts_with_assumptions 3 0 (\<lambda>_. 0) sample_program (u ''/w'') sample_assumptions = Inr r"
proof -
  obtain inc b where i: "initial_states sample_program (u ''/w'') sample_assumptions 0 = (inc, b)" by fastforce
  obtain out b1 where "visit 3 (\<lambda>_. 0) sample_program 0 inc b = Inr (out, b1)"
    using visit_total [OF sample_nests] by fast
  then show ?thesis
    by (intro that) (simp add: command_contexts_with_assumptions_def i sample_nodes(5) case_prod_unfold Let_def)
qed

theorem contexts_sound_witness:
  "\<exists>r. command_contexts_with_assumptions 3 0 (\<lambda>_. 0) sample_program (u ''/w'') sample_assumptions = Inr r \<and>
     (\<exists>k\<in>set (contexts r). ctx_command k = 3 \<and> start_state ''/w'' \<in> gamma (ctx_incoming k))"
proof -
  obtain r where r: "command_contexts_with_assumptions 3 0 (\<lambda>_. 0) sample_program (u ''/w'') sample_assumptions = Inr r"
    by (rule sample_returns)
  then show ?thesis
    using contexts_sound [OF standard_effect_documented sample_inert r, of "start_state ''/w''" "[]" 3 "start_state ''/w''"] sample_starts
    by (simp add: sample_nodes(5) start_state_def)
qed

theorem contexts_claims_witness:
  "\<exists>r. command_contexts_with_assumptions 3 0 (\<lambda>_. 0) sample_program (u ''/w'') sample_assumptions = Inr r \<and>
     within_limits (on_success r) \<and> within_limits (on_failure r)"
proof -
  obtain r where r: "command_contexts_with_assumptions 3 0 (\<lambda>_. 0) sample_program (u ''/w'') sample_assumptions = Inr r"
    by (rule sample_returns)
  then show ?thesis using contexts_claims [OF r] by blast
qed

theorem contexts_total_witness:
  "\<exists>r. command_contexts_with_assumptions 3 0 (\<lambda>_. 0) sample_program (u ''/w'') sample_assumptions = Inr r"
  using sample_nests by (intro contexts_total) (simp add: sample_nodes(5))

section \<open>An expanding payload\<close>

text \<open>
  The program \<open>: <<< ${CDPATH:=/outside}; cd left && cat note\<close>. The here string assigns \<open>CDPATH\<close>, which
  the analysis does not look at: the result is complete and gives \<open>cat\<close> the directory \<open>/w/left\<close>, while
  the shell, behaving as documented, starts it in \<open>/outside/left\<close>.
\<close>

definition expanding_payload :: BashPayload where
  "expanding_payload = \<lparr>payload_span = \<lparr>span_start = 2, span_end = 25\<rparr>, payload_operator = \<lparr>span_start = 2, span_end = 5\<rparr>,
     payload_descriptor = None, payload_body = \<lparr>span_start = 6, span_end = 25\<rparr>, payload_kind = HereString, payload_literal = None\<rparr>"

definition payload_program :: BashProgram where
  "payload_program =
     \<lparr>source_text = u '': <<< ${CDPATH:=/outside}; cd left && cat note'', program_root = 0,
      nodes = map sample_node
        [Sequence [1, 2] [], Command ((sample_command ['':''])\<lparr>payloads := [expanding_payload]\<rparr>),
         AndOr 3 \<lparr>op_span = \<lparr>span_start = 35, span_end = 37\<rparr>, op_kind = And\<rparr> 4,
         Command (sample_command [''cd'', ''left'']), Command (sample_command [''cat'', ''note''])],
      diagnostics = []\<rparr>"

lemma payload_nodes:
  "node_at payload_program 0 (Sequence [1, 2] [])"
  "node_at payload_program 1 (Command ((sample_command ['':''])\<lparr>payloads := [expanding_payload]\<rparr>))"
  "node_at payload_program 2 (AndOr 3 \<lparr>op_span = \<lparr>span_start = 35, span_end = 37\<rparr>, op_kind = And\<rparr> 4)"
  "node_at payload_program 3 (Command (sample_command [''cd'', ''left'']))"
  "node_at payload_program 4 (Command (sample_command [''cat'', ''note'']))"
  "program_root payload_program = 0"
  by (simp_all add: node_at_def payload_program_def sample_node_def)

lemma payload_expands: "\<not> quiet_payloads payload_program ((sample_command ['':''])\<lparr>payloads := [expanding_payload]\<rparr>)"
proof -
  have "byte_slice (source_text payload_program) 6 25 = Some (u ''${CDPATH:=/outside}'')"
    unfolding byte_slice_iff
    by (intro exI [of _ "u '': <<< ''"] exI [of _ "u ''; cd left && cat note''"])
      (simp add: payload_program_def u_def byte_len_def len_utf8_def)
  then show ?thesis by (simp add: quiet_payloads_def expanding_payload_def span_text_def EXPANSION_def u_def)
qed

lemma payload_starts_outside:
  "starts (standard_effect payload_program (components (u ''/outside''))) payload_program 0 (start_state ''/w'')
     4 \<lparr>ss_dir = components (u ''/outside/left''), ss_assigned = True\<rparr>"
proof -
  let ?eff = "standard_effect payload_program (components (u ''/outside''))"
  let ?out = "\<lparr>ss_dir = components (u ''/outside/left''), ss_assigned = True\<rparr>"
  have 1: "ends ?eff payload_program 1 (start_state ''/w'') True ((start_state ''/w'')\<lparr>ss_assigned := True\<rparr>)"
    by (rule ends_command [OF payload_nodes(2)])
      (use payload_expands in \<open>simp add: standard_effect_def static_argv_def sample_command_def sample_word_def u_def\<close>)
  have "ends ?eff payload_program 3 ((start_state ''/w'')\<lparr>ss_assigned := True\<rparr>) True ?out"
    by (rule ends_command [OF payload_nodes(4)])
      (simp add: standard_effect_def static_argv_def sample_command_def sample_word_def cd_operand_def start_state_def u_def
        components_def component_of_def split_on_def path_join_def starts_with_def is_absolute_def Let_def)
  then have "starts ?eff payload_program 2 ((start_state ''/w'')\<lparr>ss_assigned := True\<rparr>) 4 ?out"
    using starts_and [OF payload_nodes(3) _ _ starts_command [OF payload_nodes(5)]] by simp
  then show ?thesis by (intro starts_sequence [OF payload_nodes(1)] starts_later [OF 1] starts_here)
qed

lemma visit_Command:
  "node_at p i (Command c) \<Longrightarrow> retain bytes i inc b = (Known ps, b1) \<Longrightarrow>
     visit (Suc n) bytes p i inc b =
       Inr (visit_command p i c (Known ps)
         (b1\<lparr>cb_commands := cb_commands b1 @ [\<lparr>ctx_command = i, ctx_incoming = Known ps, ctx_complete = True\<rparr>]\<rparr>))"
  by (simp add: node_at_def)

lemma payload_contexts:
  "\<exists>r. command_contexts_with_assumptions 3 0 (\<lambda>_. 0) payload_program (u ''/w'') sample_assumptions = Inr r \<and>
     contexts_complete r \<and> (\<forall>k\<in>set (contexts r). ctx_command k = 4 \<longrightarrow> ctx_incoming k = Known [u ''/w/left''])"
proof -
  define b where "b = \<lparr>cb_commands = [], cb_complete = True, cb_diagnostics = [], cb_bytes = 0\<rparr>"
  have init: "initial_states payload_program (u ''/w'') sample_assumptions 0 = (Known [u ''/w''], b)"
    by (simp add: initial_states_def valid_initial_def declared_def sample_assumptions_def b_def is_complete_def Let_def
        payload_program_def starts_with_def byte_len_def len_utf8_def MAX_CWD_PATH_BYTES_def u_def)
  let ?visit = "\<lambda>n. visit n (\<lambda>_. 0) payload_program" and ?w = "Known [u ''/w'']" and ?l = "Known [u ''/w/left'']"
  let ?ctx = "\<lambda>i inc. \<lparr>ctx_command = i, ctx_incoming = inc, ctx_complete = True\<rparr>"
  have ret: "retain (\<lambda>_. 0) i (Known ps) (b\<lparr>cb_commands := cs\<rparr>) = (Known ps, b\<lparr>cb_commands := cs\<rparr>)" for i ps cs
    by (simp add: retain_def b_def sat_add_def Let_def MAX_CONTEXT_BYTES_def)
  have one: "sort_dedup [w, w] = [w]" "sort_dedup [w] = [w]" for w by (simp_all add: sort_dedup_def)
  have join: "join_states i ?w ?w (b\<lparr>cb_commands := cs\<rparr>) = (?w, b\<lparr>cb_commands := cs\<rparr>)" for i cs
    by (simp add: join_states_def one MAX_CWD_STATES_def)
  note run = visit_command_def static_argv_def sample_command_def sample_word_def dynamic_redirect_def
  have v1: "?visit (Suc n) 1 ?w (b\<lparr>cb_commands := cs\<rparr>) = Inr (unchanged ?w, b\<lparr>cb_commands := cs @ [?ctx 1 ?w]\<rparr>)" for n cs
    unfolding visit_Command [OF payload_nodes(2) ret] by (simp add: run BASH_BUILTINS_def) (simp add: u_def)
  have "path_push (u ''/w'') (u ''left'') = u ''/w/left''" "byte_len (u ''/w/left'') \<le> MAX_CWD_PATH_BYTES"
    "cd_operand [u ''cd'', u ''left''] = Some (u ''left'')" "split_on SLASH (u ''left'') = [u ''left'']"
    "u ''left'' \<noteq> u ''.''" "u ''left'' \<noteq> u ''..''"
    by (simp_all add: path_push_def cd_operand_def split_on_def starts_with_def byte_len_def len_utf8_def MAX_CWD_PATH_BYTES_def u_def)
  then have v3: "?visit (Suc n) 3 ?w (b\<lparr>cb_commands := cs\<rparr>) =
      Inr (\<lparr>success = ?l, failure = ?w\<rparr>, b\<lparr>cb_commands := cs @ [?ctx 3 ?w]\<rparr>)" for n cs
    unfolding visit_Command [OF payload_nodes(4) ret] by (simp add: run cd_command_def one Let_def)
  have v4: "?visit (Suc n) 4 ?l (b\<lparr>cb_commands := cs\<rparr>) = Inr (unchanged ?l, b\<lparr>cb_commands := cs @ [?ctx 4 ?l]\<rparr>)" for n cs
  proof -
    have "u ''cat'' \<notin> set BASH_BUILTINS" "u ''cat'' \<noteq> u ''cd''" by (simp_all add: BASH_BUILTINS_def u_def)
    then show ?thesis unfolding visit_Command [OF payload_nodes(5) ret] by (simp add: run)
  qed
  define f where "f = sort_dedup [u ''/w'', u ''/w/left'']"
  have f: "sort_dedup [u ''/w'', u ''/w/left''] = f" "length f \<le> MAX_CWD_STATES"
    using sort_dedup_length [of "[u ''/w'', u ''/w/left'']"] by (simp_all add: f_def MAX_CWD_STATES_def)
  have v2: "?visit (Suc (Suc n)) 2 ?w (b\<lparr>cb_commands := cs\<rparr>) =
      Inr (\<lparr>success = ?l, failure = Known f\<rparr>, b\<lparr>cb_commands := cs @ [?ctx 3 ?w, ?ctx 4 ?l]\<rparr>)" for n cs
  proof -
    have j: "join_states 2 ?w ?l (b\<lparr>cb_commands := cs\<rparr>) = (Known f, b\<lparr>cb_commands := cs\<rparr>)" for cs
      using f by (simp add: join_states_def)
    show ?thesis
      using payload_nodes(3) unfolding visit.simps(2) [of "Suc n" "\<lambda>_. 0" payload_program 2]
      by (simp add: node_at_def v3 v4 j del: visit.simps)
  qed
  have "?visit 3 0 ?w b = Inr (\<lparr>success = ?l, failure = Known f\<rparr>, b\<lparr>cb_commands := [?ctx 1 ?w, ?ctx 3 ?w, ?ctx 4 ?l]\<rparr>)"
  proof -
    have b: "b\<lparr>cb_commands := []\<rparr> = b" by (simp add: b_def)
    show ?thesis
      using payload_nodes(1) v1 [of 1 "[]"] v2 [of 0] join [of _ "[]"] join
      unfolding numeral_3_eq_3 visit.simps(2) [of "Suc (Suc 0)" "\<lambda>_. 0" payload_program 0] b
      by (simp add: node_at_def del: visit.simps)
  qed
  then show ?thesis
    using ret [of 0] by (simp add: command_contexts_with_assumptions_def init payload_nodes(6) b_def)
qed

end
