(* ===== verification/Shell_Process.thy ===== *)
theory Shell_Process
  imports Bash_Contexts "HOL-Library.Word"
begin

text \<open>
  The shell launcher and its processes (\<open>crates/mcp-shell/src/process.rs\<close>), for the Unix build:
  binding and revalidating the Bash executable, the command line and environment a command runs
  with, and the termination of its process group. The file system, the host environment and the
  kernel are parameters: \<open>canon\<close> is \<open>realpath\<close>, \<open>stat\<close> is \<open>metadata\<close>, \<open>read\<close> is \<open>var_os\<close>, and a
  \<open>ReapTrace\<close> is what the kernel answers while a group is being terminated.
\<close>

unbundle bit_operations_syntax

section \<open>The launcher\<close>

record Metadata =
  md_is_file :: bool
  md_is_dir :: bool
  md_mode :: "32 word"
  md_dev :: nat
  md_ino :: nat
  md_len :: nat
  md_mtime :: "int \<times> int"
  md_ctime :: "int \<times> int"

datatype ShellLauncherError = InvalidPath | Unavailable | NotExecutable | Changed

record BashExecutableIdentity =
  device :: nat
  inode :: nat
  exe_length :: nat
  modified :: "int \<times> int"
  changed :: "int \<times> int"

record ShellLauncher =
  exe_path :: Path
  exe_identity :: BashExecutableIdentity

definition EXECUTABLE_MODE :: "32 word" where "EXECUTABLE_MODE = 0x49"
definition MAX_LAUNCHER_PATH_BYTES :: nat where "MAX_LAUNCHER_PATH_BYTES = 4096"
definition DEFAULT_BASH_EXECUTABLES :: "ustr list" where
  "DEFAULT_BASH_EXECUTABLES = [u ''/bin/bash'', u ''/usr/bin/bash'']"

definition from_metadata :: "Metadata \<Rightarrow> ShellLauncherError + BashExecutableIdentity" where
  "from_metadata m =
     (if \<not> md_is_file m \<or> md_mode m AND EXECUTABLE_MODE = 0 then Inl NotExecutable
      else Inr \<lparr>device = md_dev m, inode = md_ino m, exe_length = md_len m, modified = md_mtime m, changed = md_ctime m\<rparr>)"

definition bind_bash ::
  "(Path \<Rightarrow> Path option) \<Rightarrow> (Path \<Rightarrow> Metadata option) \<Rightarrow> ustr \<Rightarrow> ShellLauncherError + ShellLauncher" where
  "bind_bash canon stat path =
     (if \<not> is_absolute (components path) \<or> byte_len path > MAX_LAUNCHER_PATH_BYTES then Inl InvalidPath
      else case canon (components path) of
             None \<Rightarrow> Inl Unavailable
           | Some exe \<Rightarrow>
               if byte_len (path_text exe) > MAX_LAUNCHER_PATH_BYTES then Inl InvalidPath
               else case stat exe of
                      None \<Rightarrow> Inl Unavailable
                    | Some m \<Rightarrow>
                        (case from_metadata m of
                           Inl e \<Rightarrow> Inl e
                         | Inr i \<Rightarrow> Inr \<lparr>exe_path = exe, exe_identity = i\<rparr>))"

fun select_default ::
  "(Path \<Rightarrow> Path option) \<Rightarrow> (Path \<Rightarrow> Metadata option) \<Rightarrow> ustr list \<Rightarrow> ShellLauncherError + ShellLauncher" where
  "select_default canon stat [] = Inl Unavailable"
| "select_default canon stat (p # ps) =
     (case bind_bash canon stat p of
        Inr l \<Rightarrow> Inr l
      | Inl Unavailable \<Rightarrow> select_default canon stat ps
      | Inl e \<Rightarrow> Inl e)"

definition select_bash ::
  "(Path \<Rightarrow> Path option) \<Rightarrow> (Path \<Rightarrow> Metadata option) \<Rightarrow> ustr option \<Rightarrow> ShellLauncherError + ShellLauncher" where
  "select_bash canon stat configured =
     (case configured of
        Some p \<Rightarrow> bind_bash canon stat p
      | None \<Rightarrow> select_default canon stat DEFAULT_BASH_EXECUTABLES)"

text \<open>\<open>from_host\<close>: the variable of the running host, then the one recorded when it was built.\<close>

definition from_host ::
  "(Path \<Rightarrow> Path option) \<Rightarrow> (Path \<Rightarrow> Metadata option) \<Rightarrow> (ustr \<Rightarrow> ustr option) \<Rightarrow> ustr option \<Rightarrow>
     ShellLauncherError + ShellLauncher" where
  "from_host canon stat read built =
     select_bash canon stat
       (case read (u ''WORKCELL_BASH_EXECUTABLE'') of Some p \<Rightarrow> Some p | None \<Rightarrow> built)"

definition bash_executable :: "ShellLauncher \<Rightarrow> Path option" where
  "bash_executable l = Some (exe_path l)"

definition launcher_revalidate :: "(Path \<Rightarrow> Metadata option) \<Rightarrow> ShellLauncher \<Rightarrow> ShellLauncherError + unit" where
  "launcher_revalidate stat l =
     (case stat (exe_path l) of
        None \<Rightarrow> Inl Changed
      | Some m \<Rightarrow> if from_metadata m \<noteq> Inr (exe_identity l) then Inl Changed else Inr ())"

definition bash_startup_assumptions :: "ShellLauncher \<Rightarrow> BashContextAssumptions option" where
  "bash_startup_assumptions l =
     map_option (\<lambda>_.
       \<lparr>startup_preserves_cwd = True, no_aliases_functions_or_command_not_found_hook = True, no_traps = True,
        default_shell_options = True, standard_builtins = True, directory_variables_are_standard = True,
        cdpath_empty = True, lastpipe_disabled = True, logical_pwd_matches_initial = True\<rparr>)
     (bash_executable l)"

section \<open>The command\<close>

definition BASH_ARGUMENTS :: "ustr list" where
  "BASH_ARGUMENTS = [u ''--noprofile'', u ''--norc'', u ''-c'']"

definition STARTUP_VARIABLES :: "ustr list" where
  "STARTUP_VARIABLES = map u
     [''WORKCELL_BASH_EXECUTABLE'', ''ENV'', ''SHELLOPTS'', ''POSIXLY_CORRECT'', ''CDPATH'', ''PWD'', ''OLDPWD'',
      ''PROMPT_COMMAND'', ''PS4'', ''IFS'', ''GLOBIGNORE'', ''EXECIGNORE'']"

definition FORWARDED_VARIABLES :: "ustr list" where
  "FORWARDED_VARIABLES = map u
     [''PATH'', ''HOME'', ''USER'', ''LOGNAME'', ''TMPDIR'', ''TMP'', ''TEMP'', ''LANG'', ''LC_ALL'', ''TERM'',
      ''ComSpec'', ''SystemRoot'', ''WINDIR'', ''HTTP_PROXY'', ''http_proxy'', ''HTTPS_PROXY'', ''https_proxy'',
      ''ALL_PROXY'', ''all_proxy'', ''NO_PROXY'', ''no_proxy'']"

definition decides_bash_startup :: "ustr \<Rightarrow> bool" where
  "decides_bash_startup name \<longleftrightarrow> starts_with name (u ''BASH'') \<or> name \<in> set STARTUP_VARIABLES"

text \<open>The \<open>Command\<close> under construction: its program, arguments, environment and process group.\<close>

record Command =
  program :: Path
  args :: "ustr list"
  environment :: "ustr \<rightharpoonup> ustr"
  process_group :: nat

definition env_set :: "ustr \<Rightarrow> ustr \<Rightarrow> Command \<Rightarrow> Command" where
  "env_set name v c = c\<lparr>environment := (environment c)(name \<mapsto> v)\<rparr>"

definition forward :: "(ustr \<Rightarrow> ustr option) \<Rightarrow> Command \<Rightarrow> ustr \<Rightarrow> Command" where
  "forward read c name = (case read name of Some v \<Rightarrow> env_set name v c | None \<Rightarrow> c)"

definition clean_environment_with :: "ustr list \<Rightarrow> (ustr \<Rightarrow> ustr option) \<Rightarrow> Command \<Rightarrow> Command" where
  "clean_environment_with inherited read c =
     (let listed = filter (\<lambda>name. \<not> decides_bash_startup name) inherited
      in env_set (u ''CLICOLOR'') (u ''0'')
           (env_set (u ''NO_COLOR'') (u ''1'')
              (foldl (forward read) (c\<lparr>environment := Map.empty\<rparr>) (FORWARDED_VARIABLES @ listed))))"

definition platform_command ::
  "ShellLauncher \<Rightarrow> ustr \<Rightarrow> ustr list \<Rightarrow> (ustr \<Rightarrow> ustr option) \<Rightarrow> Command" where
  "platform_command l script inherited read =
     (clean_environment_with inherited read
        \<lparr>program = exe_path l, args = BASH_ARGUMENTS @ [script], environment = Map.empty, process_group = 0\<rparr>)
     \<lparr>process_group := 0\<rparr>"

section \<open>Termination\<close>

record ExitStatus =
  exit_code :: "int option"
  exit_signal :: "int option"

datatype Signal = Term | Kill

text \<open>
  What the kernel answers during one termination: the \<open>try_wait\<close> of every turn of the first
  loop, whose length is the number of turns that found the group alive before the deadline,
  whether the group is alive after it, the blocking \<open>wait\<close>, and whether the group is alive at
  the end of the second loop.
\<close>

record ReapTrace =
  grace_turns :: "(ustr + ExitStatus option) list"
  alive_after_grace :: bool
  final_wait :: "ustr + ExitStatus"
  alive_at_end :: bool

text \<open>The process group to signal: a process id that is a positive \<open>i32\<close>.\<close>

definition group_of :: "nat option \<Rightarrow> nat option" where
  "group_of pid = (case pid of None \<Rightarrow> None | Some v \<Rightarrow> if 0 < v \<and> v < 2 ^ 31 then Some v else None)"

definition signal_group :: "nat option \<Rightarrow> bool \<Rightarrow> (nat \<times> Signal) list" where
  "signal_group pid force =
     (case group_of pid of None \<Rightarrow> [] | Some g \<Rightarrow> [(g, if force then Kill else Term)])"

fun grace_loop :: "ExitStatus option \<Rightarrow> (ustr + ExitStatus option) list \<Rightarrow> ustr + ExitStatus option" where
  "grace_loop status [] = Inr status"
| "grace_loop status (a # as) =
     (case status of
        Some s \<Rightarrow> grace_loop (Some s) as
      | None \<Rightarrow> (case a of Inl e \<Rightarrow> Inl (u ''Failed to reap shell: '' @ e) | Inr st \<Rightarrow> grace_loop st as))"

definition terminate_and_reap ::
  "nat option \<Rightarrow> ReapTrace \<Rightarrow> (nat \<times> Signal) list \<times> (ustr + ExitStatus option)" where
  "terminate_and_reap pid tr =
     (let exists = group_of pid \<noteq> None;
          sent = signal_group pid False
      in case grace_loop None (if exists then grace_turns tr else []) of
           Inl e \<Rightarrow> (sent, Inl e)
         | Inr status \<Rightarrow>
             let sent = sent @ (if exists \<and> alive_after_grace tr then signal_group pid True else [])
             in case (case status of
                        Some s \<Rightarrow> Inr (Some s)
                      | None \<Rightarrow> (case final_wait tr of
                                  Inl e \<Rightarrow> Inl (u ''Failed to reap shell: '' @ e) | Inr s \<Rightarrow> Inr (Some s))) of
                  Inl e \<Rightarrow> (sent, Inl e)
                | Inr status \<Rightarrow>
                    if exists \<and> alive_at_end tr then (sent, Inl (u ''Shell process group survived SIGKILL''))
                    else (sent, Inr status))"

definition terminate_residual_group :: "nat option \<Rightarrow> bool \<Rightarrow> (nat \<times> Signal) list" where
  "terminate_residual_group pid alive =
     signal_group pid False @ (if group_of pid \<noteq> None \<and> alive then signal_group pid True else [])"

section \<open>What a command inherits\<close>

lemma forward_env:
  "environment (forward read c name) x = (if x = name \<and> read name \<noteq> None then read name else environment c x)"
  by (auto simp: forward_def env_set_def split: option.splits)

lemma forward_rest: "program (forward read c name) = program c" "args (forward read c name) = args c"
  by (auto simp: forward_def env_set_def split: option.splits)

lemma foldl_forward:
  "environment (foldl (forward read) c names) x =
     (if x \<in> set names \<and> read x \<noteq> None then read x else environment c x) \<and>
   program (foldl (forward read) c names) = program c \<and> args (foldl (forward read) c names) = args c"
  by (induction names arbitrary: c) (auto simp: forward_env forward_rest)

lemma u_inj: "u a = u b \<longleftrightarrow> a = b"
proof -
  have "inj (of_char :: char \<Rightarrow> nat)" by (rule injI) simp
  then show ?thesis by (simp add: u_def inj_map_eq_map)
qed

lemma starts_with_u: "starts_with (u a) (u b) \<longleftrightarrow> starts_with a b"
  using u_inj [of "take (length b) a" b] by (simp add: starts_with_def u_def take_map)

lemma decides_u:
  "decides_bash_startup (u s) \<longleftrightarrow> starts_with s ''BASH'' \<or>
     s \<in> set [''WORKCELL_BASH_EXECUTABLE'', ''ENV'', ''SHELLOPTS'', ''POSIXLY_CORRECT'', ''CDPATH'', ''PWD'', ''OLDPWD'',
             ''PROMPT_COMMAND'', ''PS4'', ''IFS'', ''GLOBIGNORE'', ''EXECIGNORE'']"
  unfolding decides_bash_startup_def STARTUP_VARIABLES_def starts_with_u
  by (simp only: list.map set_simps insert_iff empty_iff u_inj)

lemma forwarded_is_inert: "name \<in> set FORWARDED_VARIABLES \<Longrightarrow> \<not> decides_bash_startup name"
proof -
  have "list_all (\<lambda>name. \<not> decides_bash_startup name) FORWARDED_VARIABLES"
    unfolding FORWARDED_VARIABLES_def list.map list.pred_inject decides_u
    by (simp add: starts_with_def)
  then show "name \<in> set FORWARDED_VARIABLES \<Longrightarrow> \<not> decides_bash_startup name"
    unfolding list_all_iff by blast
qed

lemma color_is_inert: "\<not> decides_bash_startup (u ''NO_COLOR'')" "\<not> decides_bash_startup (u ''CLICOLOR'')"
  unfolding decides_u by (simp_all add: starts_with_def)

lemma clean_environment_env:
  "environment (clean_environment_with inherited read c) x =
     (if x = u ''CLICOLOR'' then Some (u ''0'') else if x = u ''NO_COLOR'' then Some (u ''1'')
      else if x \<in> set FORWARDED_VARIABLES \<or> x \<in> set inherited \<and> \<not> decides_bash_startup x then read x else None)"
  by (auto simp: clean_environment_with_def env_set_def Let_def foldl_forward)

lemma clean_environment_args:
  "program (clean_environment_with inherited read c) = program c"
  "args (clean_environment_with inherited read c) = args c"
  by (simp_all add: clean_environment_with_def env_set_def Let_def foldl_forward)

text \<open>
  A command always runs in the bound Bash with its startup files off, and its environment is
  exactly the two colour defaults, the fixed allowlist, and what the host lists, less every name
  that decides how Bash starts: none of those reaches it, whatever the host lists or has set.
\<close>

theorem command_environment_exact:
  "program (platform_command l script inherited read) = exe_path l \<and>
   args (platform_command l script inherited read) = [u ''--noprofile'', u ''--norc'', u ''-c'', script] \<and>
   environment (platform_command l script inherited read) x =
     (if x = u ''NO_COLOR'' then Some (u ''1'') else if x = u ''CLICOLOR'' then Some (u ''0'')
      else if decides_bash_startup x then None
      else if x \<in> set FORWARDED_VARIABLES \<union> set inherited then read x else None)"
  using forwarded_is_inert color_is_inert
  by (auto simp: platform_command_def clean_environment_env clean_environment_args BASH_ARGUMENTS_def u_inj)

section \<open>The executable that was bound\<close>

definition executable_file :: "(Path \<Rightarrow> Metadata option) \<Rightarrow> Path \<Rightarrow> bool" where
  "executable_file stat p \<longleftrightarrow> (\<exists>m. stat p = Some m \<and> md_is_file m \<and> md_mode m AND EXECUTABLE_MODE \<noteq> 0)"

lemma bind_bash_Inr:
  "bind_bash canon stat p = Inr l \<Longrightarrow>
     canon (components p) = Some (exe_path l) \<and> is_absolute (components p) \<and>
     byte_len (path_text (exe_path l)) \<le> MAX_LAUNCHER_PATH_BYTES \<and>
     (\<exists>m. stat (exe_path l) = Some m \<and> from_metadata m = Inr (exe_identity l))"
  by (auto simp: bind_bash_def not_le split: if_splits option.splits sum.splits)

lemma select_default_Inr:
  "select_default canon stat ps = Inr l \<Longrightarrow> \<exists>p \<in> set ps. bind_bash canon stat p = Inr l"
  by (induction ps) (auto split: sum.splits ShellLauncherError.splits)

lemma select_bash_Inr:
  assumes "select_bash canon stat configured = Inr l"
  obtains p where "bind_bash canon stat p = Inr l"
    "case configured of Some q \<Rightarrow> p = q | None \<Rightarrow> p \<in> set DEFAULT_BASH_EXECUTABLES"
  using assms select_default_Inr [of canon stat DEFAULT_BASH_EXECUTABLES l]
  by (auto simp: select_bash_def split: option.splits)

lemma revalidate_iff:
  "launcher_revalidate stat l = Inr () \<longleftrightarrow>
     (\<exists>m. stat (exe_path l) = Some m \<and> from_metadata m = Inr (exe_identity l))"
  by (auto simp: launcher_revalidate_def split: option.splits)

text \<open>
  A launcher is the canonical form of an absolute path the host configured, or failing that of
  one of the two defaults, and an executable file when it is bound; it is accepted again later
  exactly while the file there is still the one that was bound.
\<close>

theorem launcher_bound:
  assumes "select_bash canon stat configured = Inr l"
  shows "(\<exists>p. canon (components p) = Some (exe_path l) \<and> is_absolute (components p) \<and>
            (case configured of Some q \<Rightarrow> p = q | None \<Rightarrow> p \<in> set DEFAULT_BASH_EXECUTABLES)) \<and>
         executable_file stat (exe_path l) \<and> launcher_revalidate stat l = Inr () \<and>
         (launcher_revalidate stat' l = Inr () \<longleftrightarrow>
            (\<exists>m m'. stat (exe_path l) = Some m \<and> stat' (exe_path l) = Some m' \<and> from_metadata m' = from_metadata m))"
proof -
  obtain p where p: "bind_bash canon stat p = Inr l"
    "case configured of Some q \<Rightarrow> p = q | None \<Rightarrow> p \<in> set DEFAULT_BASH_EXECUTABLES"
    using select_bash_Inr [OF assms] by blast
  note b = bind_bash_Inr [OF p(1)]
  then have "executable_file stat (exe_path l)"
    by (auto simp: executable_file_def from_metadata_def split: if_splits)
  then show ?thesis using b p(2) by (auto simp: revalidate_iff)
qed

section \<open>Reaping\<close>

lemma grace_loop_Some: "grace_loop (Some s) as = Inr (Some s)"
  by (induction as) auto

text \<open>
  Termination that reports success has an exit status of the child and leaves no process of
  its group; a group that still exists afterwards is an error, and only a group that survived the
  grace period is killed.
\<close>

theorem terminate_reaps:
  assumes "terminate_and_reap pid tr = (sent, r)"
  shows "(r = Inr st \<longrightarrow> st \<noteq> None \<and> \<not> (group_of pid \<noteq> None \<and> alive_at_end tr)) \<and>
         (group_of pid = Some g \<longrightarrow>
            hd sent = (g, Term) \<and> ((g, Kill) \<in> set sent \<longrightarrow> alive_after_grace tr))"
  using assms
  by (auto simp: terminate_and_reap_def signal_group_def Let_def split: sum.splits option.splits if_splits)

lemma terminate_Some: "snd (terminate_and_reap pid tr) = Inr st \<Longrightarrow> \<exists>s. st = Some s"
  by (auto simp: terminate_and_reap_def Let_def split: sum.splits option.splits if_splits)

section \<open>Examples\<close>

definition sample_stat :: "nat \<Rightarrow> Path \<Rightarrow> Metadata option" where
  "sample_stat ino p =
     (if p = components (u ''/bin/bash'')
      then Some \<lparr>md_is_file = True, md_is_dir = False, md_mode = 0x1ED, md_dev = 1, md_ino = ino, md_len = 9,
             md_mtime = (0, 0), md_ctime = (0, 0)\<rparr>
      else None)"

lemma sample_bash: "components (u ''/bin/bash'') = [RootDir, Normal (u ''bin''), Normal (u ''bash'')]"
  by (simp add: components_def split_on_def component_of_def starts_with_def u_def Let_def)

theorem launcher_bound_witness:
  "let l = \<lparr>exe_path = components (u ''/bin/bash''),
            exe_identity = \<lparr>device = 1, inode = 7, exe_length = 9, modified = (0, 0), changed = (0, 0)\<rparr>\<rparr>
   in launcher_revalidate (sample_stat 7) l = Inr () \<and> launcher_revalidate (sample_stat 8) l \<noteq> Inr ()"
proof -
  define l where "l = \<lparr>exe_path = components (u ''/bin/bash''),
    exe_identity = \<lparr>device = 1, inode = 7, exe_length = 9, modified = (0, 0), changed = (0, 0)\<rparr>\<rparr>"
  have f: "from_metadata m = Inr (exe_identity l) \<longleftrightarrow> md_ino m = 7" if "sample_stat n (exe_path l) = Some m" for n m
    using that by (auto simp: sample_stat_def l_def from_metadata_def EXECUTABLE_MODE_def split: if_splits)
  have t: "byte_len (path_text [RootDir, Normal (u ''bin''), Normal (u ''bash'')]) = 9" "byte_len (u ''/bin/bash'') = 9"
    by (simp_all add: byte_len_def len_utf8_def path_text_def component_text_def u_def)
  have "select_bash Some (sample_stat 7) None = Inr l"
    by (simp add: select_bash_def DEFAULT_BASH_EXECUTABLES_def bind_bash_def sample_bash is_absolute_def
        sample_stat_def from_metadata_def EXECUTABLE_MODE_def l_def MAX_LAUNCHER_PATH_BYTES_def t)
  from launcher_bound [OF this, of "sample_stat 8"] have "launcher_revalidate (sample_stat 7) l = Inr ()"
    "launcher_revalidate (sample_stat 8) l = Inr () \<longleftrightarrow>
       (\<exists>m m'. sample_stat 7 (exe_path l) = Some m \<and> sample_stat 8 (exe_path l) = Some m' \<and>
          from_metadata m' = from_metadata m)" by auto
  then show ?thesis
    unfolding l_def [symmetric] Let_def
    by (auto simp: sample_stat_def from_metadata_def EXECUTABLE_MODE_def l_def)
qed

definition sample_trace :: ReapTrace where
  "sample_trace =
     \<lparr>grace_turns = [Inr None, Inr None], alive_after_grace = True,
      final_wait = Inr \<lparr>exit_code = None, exit_signal = Some 9\<rparr>, alive_at_end = False\<rparr>"

theorem terminate_reaps_witness:
  "\<exists>sent r. terminate_and_reap (Some 7) sample_trace = (sent, r) \<and> sent = [(7, Term), (7, Kill)] \<and>
     r = Inr (Some \<lparr>exit_code = None, exit_signal = Some 9\<rparr>) \<and> hd sent = (7, Term)"
proof -
  have r: "terminate_and_reap (Some 7) sample_trace =
    ([(7, Term), (7, Kill)], Inr (Some \<lparr>exit_code = None, exit_signal = Some 9\<rparr>))"
    by (simp add: terminate_and_reap_def sample_trace_def signal_group_def group_of_def Let_def)
  then show ?thesis using terminate_reaps [OF r, of _ 7] by (simp add: group_of_def)
qed

end
