(* ===== verification/Shell_Supervisor.thy ===== *)
theory Shell_Supervisor
  imports Shell_Progress Shell_Process
begin

text \<open>
  The supervisor of a running command (\<open>execute_prepared\<close> of \<open>crates/mcp-shell/src/group.rs\<close>): the
  biased select loop that ends when the child has a status and both pipes are closed, and the
  result it builds. A run is a list of moves: a turn of the loop with what is ready at that
  moment, or a move of the progress worker. Time is milliseconds since the process was spawned.
\<close>

section \<open>State\<close>

definition PIPE_CLOSE_GRACE :: nat where "PIPE_CLOSE_GRACE = 100"
definition COMBINED_OUTPUT_BYTES :: nat where "COMBINED_OUTPUT_BYTES = 100 * 1024 * 1024"

definition U64_MAX :: nat where "U64_MAX = 2 ^ 64 - 1"

definition add64 :: "nat \<Rightarrow> nat \<Rightarrow> nat" where
  "add64 a b = min U64_MAX (a + b)"

record Supervisor =
  stdout_tail :: Tail
  stderr_tail :: Tail
  total_bytes :: nat
  sequence_no :: nat
  stdout_utf8 :: nat
  stderr_utf8 :: nat
  timed_out :: bool
  limit_exceeded :: bool
  status :: "ExitStatus option"
  pipes_closed :: bool
  close_deadline :: "nat option"
  progress :: "ProgressPump option"

definition initial_state :: "bool \<Rightarrow> Supervisor" where
  "initial_state with_progress =
     \<lparr>stdout_tail = new_tail, stderr_tail = new_tail, total_bytes = 0, sequence_no = 0, stdout_utf8 = 0,
      stderr_utf8 = 0, timed_out = False, limit_exceeded = False, status = None, pipes_closed = False,
      close_deadline = None, progress = (if with_progress then Some start_pump else None)\<rparr>"

text \<open>
  What a turn finds: the clock, the clock once the chosen branch has run, whether the call was
  cancelled, the end of the child, the next event of the channel (\<open>Some None\<close> when both readers
  are gone), and what the kernel answers if the branch terminates the group.
\<close>

record Ready =
  now :: nat
  later :: nat
  cancelled :: bool
  child_exit :: "(ustr + ExitStatus) option"
  channel :: "OutputEvent option option"
  reap :: ReapTrace

datatype Move = Select Ready | Worker WorkerMove

datatype Outcome = Running Supervisor | Finished Supervisor | Cancelled_call | Failed_call ustr

section \<open>One turn\<close>

datatype Branch = On_cancel | On_failure ustr | On_timeout | On_exit "ustr + ExitStatus" | On_deadline |
  On_event OutputEvent | On_eof | Pending

definition select :: "nat \<Rightarrow> Supervisor \<Rightarrow> Ready \<Rightarrow> Branch" where
  "select timeout s r =
     (if cancelled r then On_cancel
      else case receive_failure (progress s) of
        Some e \<Rightarrow> On_failure e
      | None \<Rightarrow>
          if timeout \<le> now r \<and> \<not> timed_out s \<and> (status s = None \<or> \<not> pipes_closed s) then On_timeout
          else case (child_exit r, status s) of
            (Some x, None) \<Rightarrow> On_exit x
          | _ \<Rightarrow>
              if (case close_deadline s of Some d \<Rightarrow> d \<le> now r | None \<Rightarrow> False) \<and>
                 status s \<noteq> None \<and> \<not> pipes_closed s
              then On_deadline
              else if \<not> pipes_closed s
              then case channel r of
                     None \<Rightarrow> Pending
                   | Some None \<Rightarrow> On_eof
                   | Some (Some ev) \<Rightarrow> On_event ev
              else Pending)"

definition after_turn :: "Supervisor \<Rightarrow> Outcome" where
  "after_turn s = (if status s \<noteq> None \<and> pipes_closed s then Finished s else Running s)"

definition reaping :: "nat option \<Rightarrow> Ready \<Rightarrow> (ExitStatus option \<Rightarrow> Outcome) \<Rightarrow> Outcome" where
  "reaping pid r k =
     (case snd (terminate_and_reap pid (reap r)) of Inl e \<Rightarrow> Failed_call e | Inr st \<Rightarrow> k st)"

definition or_status :: "ExitStatus option \<Rightarrow> ExitStatus option \<Rightarrow> ExitStatus option" where
  "or_status st old = (case st of Some x \<Rightarrow> Some x | None \<Rightarrow> old)"

definition grace_from :: "Ready \<Rightarrow> nat option" where
  "grace_from r = Some (later r + PIPE_CLOSE_GRACE)"

text \<open>The rest of an output turn once its bytes are charged: number it, publish it, keep it.\<close>

definition record_event :: "nat option \<Rightarrow> Ready \<Rightarrow> OutputEvent \<Rightarrow> Supervisor \<Rightarrow> Outcome" where
  "record_event pid r ev s =
     (if event_text ev = [] then Running s
      else
        let n = add64 (sequence_no s) 1;
            bytes = min U64_MAX (byte_len (event_text ev));
            s1 = (case event_stream ev of
                    Stdout \<Rightarrow> s\<lparr>sequence_no := n, stdout_utf8 := add64 (stdout_utf8 s) bytes\<rparr>
                  | Stderr \<Rightarrow> s\<lparr>sequence_no := n, stderr_utf8 := add64 (stderr_utf8 s) bytes\<rparr>);
            keep = (\<lambda>s. case event_stream ev of
                           Stdout \<Rightarrow> s\<lparr>stdout_tail := tail_push (stdout_tail s) (event_text ev)\<rparr>
                         | Stderr \<Rightarrow> s\<lparr>stderr_tail := tail_push (stderr_tail s) (event_text ev)\<rparr>)
        in case progress s1 of
             None \<Rightarrow> after_turn (keep s1)
           | Some p \<Rightarrow>
               (case enqueue n (event_stream ev) (event_text ev) p of
                  Inl e \<Rightarrow> reaping pid r (\<lambda>_. Failed_call e)
                | Inr p' \<Rightarrow> after_turn (keep (s1\<lparr>progress := Some p'\<rparr>))))"

definition on_event :: "nat option \<Rightarrow> Ready \<Rightarrow> OutputEvent \<Rightarrow> Supervisor \<Rightarrow> Outcome" where
  "on_event pid r ev s =
     (let s1 = (if status s \<noteq> None then s\<lparr>close_deadline := grace_from r\<rparr> else s);
          s2 = s1\<lparr>total_bytes := add64 (total_bytes s1) (raw_bytes ev)\<rparr>
      in if total_bytes s2 > COMBINED_OUTPUT_BYTES \<and> \<not> limit_exceeded s2
         then reaping pid r (\<lambda>st. record_event pid r ev
                (s2\<lparr>limit_exceeded := True, status := or_status st (status s2), close_deadline := grace_from r\<rparr>))
         else record_event pid r ev s2)"

definition turn :: "nat \<Rightarrow> nat option \<Rightarrow> Supervisor \<Rightarrow> Ready \<Rightarrow> Outcome" where
  "turn timeout pid s r =
     (case select timeout s r of
        On_cancel \<Rightarrow> reaping pid r (\<lambda>_. Cancelled_call)
      | On_failure e \<Rightarrow> reaping pid r (\<lambda>_. Failed_call e)
      | On_timeout \<Rightarrow>
          reaping pid r (\<lambda>st. after_turn
            (s\<lparr>timed_out := True, status := or_status st (status s), close_deadline := grace_from r\<rparr>))
      | On_exit x \<Rightarrow>
          (case x of
             Inl e \<Rightarrow> Failed_call (u ''Failed to wait for shell: '' @ e)
           | Inr st \<Rightarrow> after_turn (s\<lparr>status := Some st, close_deadline := grace_from r\<rparr>))
      | On_deadline \<Rightarrow> after_turn (s\<lparr>pipes_closed := True\<rparr>)
      | On_event ev \<Rightarrow> on_event pid r ev s
      | On_eof \<Rightarrow> after_turn (s\<lparr>pipes_closed := True\<rparr>)
      | Pending \<Rightarrow> Running s)"

definition step :: "nat \<Rightarrow> nat option \<Rightarrow> Supervisor \<Rightarrow> Move \<Rightarrow> Outcome" where
  "step timeout pid s m =
     (case m of
        Select r \<Rightarrow> turn timeout pid s r
      | Worker w \<Rightarrow> Running (s\<lparr>progress := map_option (worker_step w) (progress s)\<rparr>))"

fun run :: "nat \<Rightarrow> nat option \<Rightarrow> Supervisor \<Rightarrow> Move list \<Rightarrow> Outcome" where
  "run timeout pid s [] = Running s"
| "run timeout pid s (m # ms) =
     (case step timeout pid s m of Running s' \<Rightarrow> run timeout pid s' ms | out \<Rightarrow> out)"

section \<open>The result\<close>

record ShellOutput =
  out_timeout_ms :: nat
  out_duration_ms :: nat
  out_exit_code :: "int option"
  out_signal :: "int option"
  out_timed_out :: bool
  out_limit_exceeded :: bool
  final_sequence :: nat
  stdout_utf8_bytes :: nat
  stderr_utf8_bytes :: nat
  out_stdout :: ustr
  out_stderr :: ustr
  stdout_capture_truncated :: bool
  stderr_capture_truncated :: bool
  stdout_preview_truncated :: bool
  stderr_preview_truncated :: bool
  stdout_redraws_collapsed :: nat
  stderr_redraws_collapsed :: nat

definition finish_tails :: "Supervisor \<Rightarrow> Supervisor" where
  "finish_tails s = s\<lparr>stdout_tail := tail_finish (stdout_tail s), stderr_tail := tail_finish (stderr_tail s)\<rparr>"

definition output_of :: "nat \<Rightarrow> nat \<Rightarrow> Supervisor \<Rightarrow> ShellOutput" where
  "output_of timeout elapsed s =
     (let s = finish_tails s;
          (out, out_cut) = preview (FALLBACK_PREVIEW_BYTES div 2) (stdout_tail s);
          (err, err_cut) = preview (FALLBACK_PREVIEW_BYTES div 2) (stderr_tail s)
      in \<lparr>out_timeout_ms = timeout, out_duration_ms = min U64_MAX elapsed,
          out_exit_code = Option.bind (status s) exit_code, out_signal = Option.bind (status s) exit_signal,
          out_timed_out = timed_out s, out_limit_exceeded = limit_exceeded s, final_sequence = sequence_no s,
          stdout_utf8_bytes = stdout_utf8 s, stderr_utf8_bytes = stderr_utf8 s,
          out_stdout = out, out_stderr = err,
          stdout_capture_truncated = tail_truncated (stdout_tail s),
          stderr_capture_truncated = tail_truncated (stderr_tail s),
          stdout_preview_truncated = out_cut, stderr_preview_truncated = err_cut,
          stdout_redraws_collapsed = redraws (tail_renderer (stdout_tail s)),
          stderr_redraws_collapsed = redraws (tail_renderer (stderr_tail s))\<rparr>)"

text \<open>
  The call: \<open>Inl\<close> an error, \<open>Inr None\<close> cancelled, otherwise the result and the progress that was
  drained before it. \<open>None\<close> when the moves end before the loop does.
\<close>

definition execute ::
  "nat \<Rightarrow> nat option \<Rightarrow> bool \<Rightarrow> Move list \<Rightarrow> WorkerMove list \<Rightarrow> nat \<Rightarrow>
     (ustr + (ShellOutput \<times> Supervisor \<times> ProgressPump option) option) option" where
  "execute timeout pid with_progress moves drain elapsed =
     (case run timeout pid (initial_state with_progress) moves of
        Running _ \<Rightarrow> None
      | Cancelled_call \<Rightarrow> Some (Inr None)
      | Failed_call e \<Rightarrow> Some (Inl e)
      | Finished s \<Rightarrow>
          (case progress s of
             None \<Rightarrow> Some (Inr (Some (output_of timeout elapsed s, finish_tails s, None)))
           | Some p \<Rightarrow>
               (case pump_finish drain p of
                  Inl e \<Rightarrow> Some (Inl e)
                | Inr p' \<Rightarrow> Some (Inr (Some (output_of timeout elapsed s, finish_tails s, Some p'))))))"

section \<open>What the loop takes from the channel\<close>

definition taken :: "nat \<Rightarrow> Supervisor \<Rightarrow> Move \<Rightarrow> OutputEvent list" where
  "taken timeout s m =
     (case m of Select r \<Rightarrow> (case select timeout s r of On_event ev \<Rightarrow> [ev] | _ \<Rightarrow> []) | Worker _ \<Rightarrow> [])"

fun events_of :: "nat \<Rightarrow> nat option \<Rightarrow> Supervisor \<Rightarrow> Move list \<Rightarrow> OutputEvent list" where
  "events_of timeout pid s [] = []"
| "events_of timeout pid s (m # ms) =
     taken timeout s m @
     (case step timeout pid s m of Running s' \<Rightarrow> events_of timeout pid s' ms | _ \<Rightarrow> [])"

text \<open>What each turn of the loop found when it was made.\<close>

fun turns_of :: "nat \<Rightarrow> nat option \<Rightarrow> Supervisor \<Rightarrow> Move list \<Rightarrow> Ready list" where
  "turns_of timeout pid s [] = []"
| "turns_of timeout pid s (m # ms) =
     (case m of Select r \<Rightarrow> [r] | Worker _ \<Rightarrow> []) @
     (case step timeout pid s m of Running s' \<Rightarrow> turns_of timeout pid s' ms | _ \<Rightarrow> [])"

definition shown :: "OutputEvent list \<Rightarrow> OutputEvent list" where
  "shown evs = filter (\<lambda>e. event_text e \<noteq> []) evs"

definition texts_of :: "ShellStream \<Rightarrow> OutputEvent list \<Rightarrow> ustr list" where
  "texts_of st evs = map event_text (filter (\<lambda>e. event_stream e = st) (shown evs))"

definition utf8_of :: "ShellStream \<Rightarrow> OutputEvent list \<Rightarrow> nat" where
  "utf8_of st evs = sum_list (map byte_len (texts_of st evs))"

definition chunk_of :: "nat \<Rightarrow> OutputEvent \<Rightarrow> ShellProgressChunk" where
  "chunk_of n e =
     \<lparr>chunk_version = 1, chunk_sequence = min U64_MAX n, chunk_stream = event_stream e, chunk_text = event_text e\<rparr>"

text \<open>The events with text, numbered from one.\<close>

definition chunks_of :: "OutputEvent list \<Rightarrow> ShellProgressChunk list" where
  "chunks_of evs = map (\<lambda>(i, e). chunk_of (Suc i) e) (List.enumerate 0 (shown evs))"

text \<open>What has been charged, and what has been recorded.\<close>

definition charged :: "OutputEvent list \<Rightarrow> Supervisor \<Rightarrow> bool" where
  "charged evs s \<longleftrightarrow>
     total_bytes s = min U64_MAX (raws evs) \<and> (limit_exceeded s \<longleftrightarrow> raws evs > COMBINED_OUTPUT_BYTES) \<and>
     (timed_out s \<or> limit_exceeded s \<longrightarrow> status s \<noteq> None) \<and> (status s \<noteq> None \<longrightarrow> close_deadline s \<noteq> None)"

definition recorded_events :: "OutputEvent list \<Rightarrow> Supervisor \<Rightarrow> bool" where
  "recorded_events evs s \<longleftrightarrow>
     sequence_no s = min U64_MAX (length (shown evs)) \<and>
     stdout_utf8 s = min U64_MAX (utf8_of Stdout evs) \<and> stderr_utf8 s = min U64_MAX (utf8_of Stderr evs) \<and>
     stdout_tail s = foldl tail_push new_tail (texts_of Stdout evs) \<and>
     stderr_tail s = foldl tail_push new_tail (texts_of Stderr evs) \<and>
     (case progress s of None \<Rightarrow> True | Some p \<Rightarrow> pump_ok (chunks_of evs) p)"

definition loop_inv :: "OutputEvent list \<Rightarrow> Supervisor \<Rightarrow> bool" where
  "loop_inv evs s \<longleftrightarrow> charged evs s \<and> recorded_events evs s"

lemma raws_single: "raws [e] = raw_bytes e"
  by (simp add: raws_def)

lemma shown_snoc: "shown (evs @ [e]) = shown evs @ (if event_text e = [] then [] else [e])"
  by (simp add: shown_def)

lemma texts_of_snoc:
  "texts_of st (evs @ [e]) = texts_of st evs @ (if event_text e \<noteq> [] \<and> event_stream e = st then [event_text e] else [])"
  by (simp add: texts_of_def shown_snoc)

lemma chunks_of_snoc:
  "chunks_of (evs @ [e]) =
     chunks_of evs @ (if event_text e = [] then [] else [chunk_of (Suc (length (shown evs))) e])"
  by (simp add: chunks_of_def shown_snoc enumerate_append_eq)

lemma min_add:
  "min (m :: nat) (min m a + b) = min m (a + b)" "min (m :: nat) (a + min m b) = min m (a + b)"
  "min (m :: nat) (Suc (min m a)) = min m (Suc a)"
  by linarith+

lemmas snoc_simps = raws_single shown_snoc texts_of_snoc chunks_of_snoc utf8_of_def add64_def min_add

definition outcome_inv :: "OutputEvent list \<Rightarrow> Outcome \<Rightarrow> bool" where
  "outcome_inv evs out \<longleftrightarrow>
     (case out of
        Running s \<Rightarrow> loop_inv evs s \<and> \<not> (status s \<noteq> None \<and> pipes_closed s)
      | Finished s \<Rightarrow> loop_inv evs s \<and> status s \<noteq> None \<and> pipes_closed s
      | _ \<Rightarrow> True)"

lemma outcome_inv_simps [simp]:
  "outcome_inv evs Cancelled_call" "outcome_inv evs (Failed_call e)"
  "outcome_inv evs (after_turn s) \<longleftrightarrow> loop_inv evs s"
  by (auto simp: outcome_inv_def after_turn_def)

lemma reaping_inv:
  assumes "\<And>x. outcome_inv evs (k (Some x))"
  shows "outcome_inv evs (reaping pid r k)"
  using assms terminate_Some by (fastforce simp: reaping_def split: sum.splits)

lemma record_event_inv:
  assumes c: "charged (evs @ [ev]) s" and rec: "recorded_events evs s" and opn: "\<not> pipes_closed s"
  shows "outcome_inv (evs @ [ev]) (record_event pid r ev s)"
proof (cases "event_text ev = []")
  case True
  have "recorded_events (evs @ [ev]) s" using rec True
    by (cases "progress s") (simp_all add: recorded_events_def snoc_simps)
  then show ?thesis using c opn True by (simp add: record_event_def outcome_inv_def loop_inv_def)
next
  case False
  show ?thesis
  proof (cases "progress s")
    case None
    then show ?thesis
      using False c rec
      by (cases "event_stream ev")
        (simp_all add: record_event_def Let_def loop_inv_def charged_def recorded_events_def snoc_simps)
  next
    case (Some p)
    have p: "pump_ok (chunks_of evs) p" using rec Some by (simp add: recorded_events_def)
    show ?thesis
    proof (cases "enqueue (add64 (sequence_no s) 1) (event_stream ev) (event_text ev) p")
      case (Inl e)
      then show ?thesis using False Some by (cases "event_stream ev") (simp_all add: record_event_def Let_def reaping_inv)
    next
      case (Inr p')
      have "pump_ok (chunks_of (evs @ [ev])) p'"
        using enqueue_ok [OF p Inr] False rec by (simp add: snoc_simps chunk_of_def recorded_events_def)
      then show ?thesis
        using False Some Inr c rec
        by (cases "event_stream ev")
          (simp_all add: record_event_def Let_def loop_inv_def charged_def recorded_events_def snoc_simps)
    qed
  qed
qed

lemma on_event_inv:
  assumes "loop_inv evs s" "\<not> pipes_closed s"
  shows "outcome_inv (evs @ [ev]) (on_event pid r ev s)"
proof -
  define s1 where "s1 = (if status s \<noteq> None then s\<lparr>close_deadline := grace_from r\<rparr> else s)"
  define s2 where "s2 = s1\<lparr>total_bytes := add64 (total_bytes s1) (raw_bytes ev)\<rparr>"
  have unf: "on_event pid r ev s =
    (if total_bytes s2 > COMBINED_OUTPUT_BYTES \<and> \<not> limit_exceeded s2
     then reaping pid r (\<lambda>st. record_event pid r ev
            (s2\<lparr>limit_exceeded := True, status := or_status st (status s2), close_deadline := grace_from r\<rparr>))
     else record_event pid r ev s2)"
    by (simp only: on_event_def Let_def s1_def s2_def)
  have rec: "recorded_events evs s2" using assms(1) by (simp add: s1_def s2_def loop_inv_def recorded_events_def)
  have total: "total_bytes s2 = min U64_MAX (raws (evs @ [ev]))"
    using assms(1) by (simp add: s1_def s2_def loop_inv_def charged_def snoc_simps)
  have over: "total_bytes s2 > COMBINED_OUTPUT_BYTES \<longleftrightarrow> raws (evs @ [ev]) > COMBINED_OUTPUT_BYTES"
    by (auto simp: total COMBINED_OUTPUT_BYTES_def U64_MAX_def)
  have opn: "\<not> pipes_closed s2" using assms(2) by (simp add: s1_def s2_def)
  have old: "limit_exceeded s2 \<longleftrightarrow> raws evs > COMBINED_OUTPUT_BYTES"
    "timed_out s2 \<or> limit_exceeded s2 \<longrightarrow> status s2 \<noteq> None" "status s2 \<noteq> None \<longrightarrow> close_deadline s2 \<noteq> None"
    using assms(1) by (auto simp: s1_def s2_def loop_inv_def charged_def grace_from_def)
  show ?thesis
  proof (cases "total_bytes s2 > COMBINED_OUTPUT_BYTES \<and> \<not> limit_exceeded s2")
    case True
    have "outcome_inv (evs @ [ev]) (reaping pid r (\<lambda>st. record_event pid r ev
      (s2\<lparr>limit_exceeded := True, status := or_status st (status s2), close_deadline := grace_from r\<rparr>)))"
      by (rule reaping_inv, rule record_event_inv)
        (use True rec total over opn in \<open>simp_all add: charged_def recorded_events_def or_status_def grace_from_def\<close>)
    then show ?thesis unfolding unf if_P [OF True] .
  next
    case False
    have "charged (evs @ [ev]) s2"
      using False total over old unfolding charged_def by (auto simp: raws_single)
    from record_event_inv [OF this rec opn] show ?thesis unfolding unf if_not_P [OF False] .
  qed
qed

lemma select_event_open: "select timeout s r = On_event ev \<Longrightarrow> \<not> pipes_closed s"
  by (auto simp: select_def split: if_splits option.splits)

text \<open>The branches that only end the child or close the pipes.\<close>

lemma settle_inv:
  assumes "loop_inv evs s"
  shows "loop_inv evs (s\<lparr>timed_out := t, status := Some x, close_deadline := grace_from r\<rparr>)"
    "loop_inv evs (s\<lparr>status := Some x, close_deadline := grace_from r\<rparr>)"
    "loop_inv evs (s\<lparr>pipes_closed := b\<rparr>)"
  using assms by (simp_all add: loop_inv_def charged_def recorded_events_def grace_from_def)

lemma turn_inv:
  assumes "loop_inv evs s" "\<not> (status s \<noteq> None \<and> pipes_closed s)"
  shows "outcome_inv (evs @ taken timeout s (Select r)) (turn timeout pid s r)"
proof (cases "select timeout s r")
  case (On_event ev)
  then show ?thesis using on_event_inv [OF assms(1) select_event_open [OF On_event]] by (simp add: turn_def taken_def)
next
  case (On_exit x)
  then show ?thesis using assms settle_inv(2) by (cases x) (simp_all add: turn_def taken_def)
next
  case Pending
  then show ?thesis using assms by (simp add: turn_def taken_def outcome_inv_def)
qed (use assms(1) in \<open>simp_all add: turn_def taken_def reaping_inv settle_inv or_status_def\<close>)

lemma step_inv:
  assumes "loop_inv evs s" "\<not> (status s \<noteq> None \<and> pipes_closed s)"
  shows "outcome_inv (evs @ taken timeout s m) (step timeout pid s m)"
proof (cases m)
  case (Select r)
  then show ?thesis using turn_inv [OF assms] by (simp add: step_def)
next
  case (Worker w)
  then show ?thesis using assms
    by (auto simp: step_def taken_def outcome_inv_def loop_inv_def charged_def recorded_events_def worker_step_ok
        split: option.splits)
qed

lemma moves_inv:
  "loop_inv evs s \<Longrightarrow> \<not> (status s \<noteq> None \<and> pipes_closed s) \<Longrightarrow>
     outcome_inv (evs @ events_of timeout pid s ms) (run timeout pid s ms)"
proof (induction ms arbitrary: evs s)
  case Nil
  then show ?case by (simp add: outcome_inv_def)
next
  case (Cons m ms)
  note st = step_inv [OF Cons.prems, of timeout m pid]
  show ?case
  proof (cases "step timeout pid s m")
    case (Running s')
    then have "loop_inv (evs @ taken timeout s m) s'" "\<not> (status s' \<noteq> None \<and> pipes_closed s')"
      using st by (auto simp: outcome_inv_def)
    from Cons.IH [OF this] Running show ?thesis by simp
  qed (use st in simp_all)
qed

lemma initial_inv: "loop_inv [] (initial_state b)"
  by (simp add: loop_inv_def charged_def recorded_events_def initial_state_def raws_def shown_def utf8_of_def texts_of_def
      chunks_of_def start_pump_ok)

lemma finished_inv:
  assumes "run timeout pid (initial_state b) moves = Finished s"
  shows "loop_inv (events_of timeout pid (initial_state b) moves) s \<and> status s \<noteq> None \<and> pipes_closed s"
proof -
  have "\<not> (status (initial_state b) \<noteq> None \<and> pipes_closed (initial_state b))" by (simp add: initial_state_def)
  from moves_inv [OF initial_inv this, of timeout pid moves] assms show ?thesis by (simp add: outcome_inv_def)
qed

section \<open>The result accounts for the output\<close>

text \<open>The timeout flag is raised by the first turn at or after the timeout, and by nothing else.\<close>

definition timed_out_is :: "bool \<Rightarrow> Outcome \<Rightarrow> bool" where
  "timed_out_is b out \<longleftrightarrow> (case out of Running s \<Rightarrow> timed_out s = b | Finished s \<Rightarrow> timed_out s = b | _ \<Rightarrow> True)"

lemma timed_out_is_simps [simp]:
  "timed_out_is b Cancelled_call" "timed_out_is b (Failed_call e)" "timed_out_is b (Running s) \<longleftrightarrow> timed_out s = b"
  "timed_out_is b (after_turn s) \<longleftrightarrow> timed_out s = b"
  by (auto simp: timed_out_is_def after_turn_def)

lemma timed_out_reaping: "(\<And>st. timed_out_is b (k st)) \<Longrightarrow> timed_out_is b (reaping pid r k)"
  by (simp add: reaping_def split: sum.splits)

lemma timed_out_record: "timed_out_is (timed_out s) (record_event pid r ev s)"
  by (auto simp: record_event_def Let_def timed_out_reaping split: option.splits sum.splits ShellStream.splits)

lemma timed_out_event: "timed_out_is (timed_out s) (on_event pid r ev s)"
proof -
  have keep: "timed_out_is (timed_out s) (record_event pid r ev s')" if "timed_out s' = timed_out s" for s'
    using timed_out_record [of s' pid r ev] that by simp
  show ?thesis unfolding on_event_def Let_def by (auto intro!: timed_out_reaping keep)
qed

lemma timed_out_turn:
  assumes "\<not> (status s \<noteq> None \<and> pipes_closed s)"
  shows "timed_out_is (timed_out s \<or> timeout \<le> now r) (turn timeout pid s r)"
proof (cases "select timeout s r \<in> {On_cancel, On_timeout} \<union> range On_failure")
  case True
  then show ?thesis
    by (auto simp: turn_def select_def intro!: timed_out_reaping split: if_splits option.splits)
next
  case False
  then have "timed_out s \<or> \<not> timeout \<le> now r"
    using assms by (auto simp: select_def split: if_splits option.splits)
  then have "(timed_out s \<or> timeout \<le> now r) = timed_out s" by blast
  then show ?thesis using False timed_out_event [of s pid r]
    by (cases "select timeout s r") (auto simp: turn_def split: sum.splits)
qed

lemma timed_out_run:
  "loop_inv evs s \<Longrightarrow> \<not> (status s \<noteq> None \<and> pipes_closed s) \<Longrightarrow>
     timed_out_is (timed_out s \<or> (\<exists>r\<in>set (turns_of timeout pid s ms). timeout \<le> now r)) (run timeout pid s ms)"
proof (induction ms arbitrary: evs s)
  case (Cons m ms)
  have m: "timed_out_is (timed_out s \<or> (\<exists>r\<in>set (case m of Select r \<Rightarrow> [r] | Worker _ \<Rightarrow> []). timeout \<le> now r)) (step timeout pid s m)"
    using timed_out_turn [OF Cons.prems(2), of timeout _ pid] by (cases m) (simp_all add: step_def)
  note st = step_inv [OF Cons.prems, of timeout m pid]
  show ?case
  proof (cases "step timeout pid s m")
    case (Running s')
    then have "loop_inv (evs @ taken timeout s m) s'" "\<not> (status s' \<noteq> None \<and> pipes_closed s')"
      using st by (auto simp: outcome_inv_def)
    from Cons.IH [OF this] show ?thesis using Running m by (simp add: bex_Un disj_assoc)
  qed (use m in \<open>simp_all add: timed_out_is_def\<close>)
qed simp

lemma timed_out_finished:
  assumes "run timeout pid (initial_state b) moves = Finished s"
  shows "timed_out s \<longleftrightarrow> (\<exists>r\<in>set (turns_of timeout pid (initial_state b) moves). timeout \<le> now r)"
  using timed_out_run [OF initial_inv, of b timeout pid moves] assms by (simp add: timed_out_is_def initial_state_def)

text \<open>
  What is reported of one stream, given the events of it: the preview, whether it was cut, whether
  the window behind it was, and the frames that were drawn over.
\<close>

definition stream_reported :: "ustr list \<Rightarrow> ustr \<Rightarrow> bool \<Rightarrow> bool \<Rightarrow> nat \<Rightarrow> bool" where
  "stream_reported ts shown_text preview_cut capture_cut redrawn \<longleftrightarrow>
     (let all = encode_utf8 (fst (render_chunks ts))
      in shown_text = from_utf8_lossy (last_bytes (12 * 1024) all) \<and> (preview_cut \<longleftrightarrow> length all > 12 * 1024) \<and>
         (length all > STREAM_CAPTURE_BYTES \<longrightarrow> capture_cut) \<and> (capture_cut \<longrightarrow> length all \<ge> STREAM_CAPTURE_BYTES) \<and>
         redrawn = snd (render_chunks ts) \<and>
         (no_late_osc (concat ts) \<longrightarrow> render_chunks ts = render_terminal (concat ts)))"

lemma stream_reported_tail:
  "stream_reported ts (fst (preview (FALLBACK_PREVIEW_BYTES div 2) (tail_finish (foldl tail_push new_tail ts))))
     (snd (preview (FALLBACK_PREVIEW_BYTES div 2) (tail_finish (foldl tail_push new_tail ts))))
     (tail_truncated (tail_finish (foldl tail_push new_tail ts)))
     (redraws (tail_renderer (tail_finish (foldl tail_push new_tail ts))))"
proof -
  have "FALLBACK_PREVIEW_BYTES div 2 = 12 * 1024" "12 * 1024 < STREAM_CAPTURE_BYTES"
    by (simp_all add: FALLBACK_PREVIEW_BYTES_def STREAM_CAPTURE_BYTES_def)
  then show ?thesis
    using preview_of_window [OF tail_window(1), of "12 * 1024" ts] tail_window(1) [of ts] tail_window(2) [of ts] render_chunks_whole [of ts]
    by (simp add: stream_reported_def tail_inv_def Let_def)
qed

lemma output_of_simps:
  "final_sequence (output_of t e s) = sequence_no s" "stdout_utf8_bytes (output_of t e s) = stdout_utf8 s"
  "stderr_utf8_bytes (output_of t e s) = stderr_utf8 s" "out_limit_exceeded (output_of t e s) = limit_exceeded s"
  "out_timed_out (output_of t e s) = timed_out s"
  "out_stdout (output_of t e s) = fst (preview (FALLBACK_PREVIEW_BYTES div 2) (tail_finish (stdout_tail s)))"
  "out_stderr (output_of t e s) = fst (preview (FALLBACK_PREVIEW_BYTES div 2) (tail_finish (stderr_tail s)))"
  "stdout_preview_truncated (output_of t e s) = snd (preview (FALLBACK_PREVIEW_BYTES div 2) (tail_finish (stdout_tail s)))"
  "stderr_preview_truncated (output_of t e s) = snd (preview (FALLBACK_PREVIEW_BYTES div 2) (tail_finish (stderr_tail s)))"
  "stdout_capture_truncated (output_of t e s) = tail_truncated (tail_finish (stdout_tail s))"
  "stderr_capture_truncated (output_of t e s) = tail_truncated (tail_finish (stderr_tail s))"
  "stdout_redraws_collapsed (output_of t e s) = redraws (tail_renderer (tail_finish (stdout_tail s)))"
  "stderr_redraws_collapsed (output_of t e s) = redraws (tail_renderer (tail_finish (stderr_tail s)))"
  "out_exit_code (output_of t e s) = Option.bind (status s) exit_code"
  "out_signal (output_of t e s) = Option.bind (status s) exit_signal"
  by (simp_all add: output_of_def finish_tails_def Let_def split: prod.splits)

text \<open>
  C24. What a completed call reports, for every interleaving of output, exit, timeout and progress
  deliveries. Over the events the loop took: the last sequence number counts those with text, the
  byte counts are those of each stream's text, the limit flag says whether more raw bytes came
  than are allowed, the timeout flag whether the loop made a turn at or after the timeout. Each
  preview is the end of its stream as the renderer shows it, marked as cut exactly when it is; the
  capture flag is set when more was rendered than is kept, and only if a full window was; the number
  of redraws is the renderer's; and the rendering is that of the stream as a whole unless an
  operating-system command ends at the limit of the scan. The host was sent every event with text, in
  order, numbered from one.
\<close>

theorem execution_accounts:
  assumes "execute timeout pid with_progress moves drain elapsed = Some (Inr (Some (out, s, pump)))"
  shows "let evs = events_of timeout pid (initial_state with_progress) moves
         in final_sequence out = min U64_MAX (length (shown evs)) \<and>
            stdout_utf8_bytes out = min U64_MAX (utf8_of Stdout evs) \<and>
            stderr_utf8_bytes out = min U64_MAX (utf8_of Stderr evs) \<and>
            (out_limit_exceeded out \<longleftrightarrow> raws evs > COMBINED_OUTPUT_BYTES) \<and>
            (out_timed_out out \<longleftrightarrow> (\<exists>r\<in>set (turns_of timeout pid (initial_state with_progress) moves). timeout \<le> now r)) \<and>
            stream_reported (texts_of Stdout evs) (out_stdout out) (stdout_preview_truncated out)
              (stdout_capture_truncated out) (stdout_redraws_collapsed out) \<and>
            stream_reported (texts_of Stderr evs) (out_stderr out) (stderr_preview_truncated out)
              (stderr_capture_truncated out) (stderr_redraws_collapsed out) \<and>
            (\<forall>p. pump = Some p \<longrightarrow> delivered p = chunks_of evs)"
proof -
  obtain s0 where r: "run timeout pid (initial_state with_progress) moves = Finished s0"
    and out: "out = output_of timeout elapsed s0"
    and pump: "\<And>p'. pump = Some p' \<Longrightarrow> \<exists>p. progress s0 = Some p \<and> pump_finish drain p = Inr p'"
    using assms by (auto simp: execute_def split: Outcome.splits option.splits sum.splits)
  have inv: "charged (events_of timeout pid (initial_state with_progress) moves) s0"
    "recorded_events (events_of timeout pid (initial_state with_progress) moves) s0"
    using finished_inv [OF r] by (simp_all add: loop_inv_def)
  have "delivered p' = chunks_of (events_of timeout pid (initial_state with_progress) moves)" if "pump = Some p'" for p'
    using pump [OF that] inv(2) pump_finish_delivers by (fastforce simp: recorded_events_def)
  then show ?thesis
    using inv timed_out_finished [OF r]
    by (simp add: Let_def out output_of_simps charged_def recorded_events_def stream_reported_tail)
qed

text \<open>
  A call completes only with the exit status of the child, and a command that ran into its
  timeout or over the output limit was terminated first: its status is known too.
\<close>

theorem finished_has_status:
  assumes "run timeout pid (initial_state with_progress) moves = Finished s"
  shows "\<exists>st. status s = Some st \<and> out_exit_code (output_of timeout elapsed s) = exit_code st \<and>
           out_signal (output_of timeout elapsed s) = exit_signal st \<and> pipes_closed s"
  using finished_inv [OF assms] by (auto simp: output_of_def finish_tails_def Let_def split: prod.splits)

section \<open>The loop ends\<close>

definition is_running :: "Outcome \<Rightarrow> bool" where
  "is_running out \<longleftrightarrow> (case out of Running _ \<Rightarrow> True | _ \<Rightarrow> False)"

lemma reaping_running: "is_running (reaping pid r k) \<Longrightarrow> \<exists>x. reaping pid r k = k (Some x)"
  using terminate_Some by (fastforce simp: reaping_def is_running_def split: sum.splits)

text \<open>Once the timeout has been served, only the grace period is left.\<close>

definition served :: "nat \<Rightarrow> Supervisor \<Rightarrow> bool" where
  "served d s \<longleftrightarrow>
     timed_out s \<and> status s \<noteq> None \<and> \<not> pipes_closed s \<and> (\<exists>d'\<le>d. close_deadline s = Some d')"

lemma served_select:
  assumes "served d s"
  shows "select timeout s r \<notin> {On_timeout} \<union> range On_exit"
    "d \<le> now r \<Longrightarrow> select timeout s r \<in> {On_cancel, On_deadline} \<union> range On_failure"
  using assms by (auto simp: served_def select_def split: option.splits if_splits)

lemma is_running_simps [simp]:
  "is_running (Running s)" "\<not> is_running (Finished s)" "\<not> is_running Cancelled_call" "\<not> is_running (Failed_call e)"
  by (simp_all add: is_running_def)

lemma reaping_stops: "(\<And>st. \<not> is_running (k st)) \<Longrightarrow> \<not> is_running (reaping pid r k)"
  by (simp add: reaping_def split: sum.splits)

lemma reaping_not_Running [simp]:
  "reaping pid r (\<lambda>_. Cancelled_call) \<noteq> Running s" "reaping pid r (\<lambda>_. Failed_call e) \<noteq> Running s"
  by (simp_all add: reaping_def split: sum.splits)

lemma is_running_iff: "is_running out \<longleftrightarrow> (\<exists>s. out = Running s)"
  by (cases out) simp_all

lemma served_ends: "served d s \<Longrightarrow> d \<le> now r \<Longrightarrow> \<not> is_running (turn timeout pid s r)"
  using served_select(2) [of d s r timeout]
  by (auto simp: turn_def reaping_stops after_turn_def served_def)

lemma served_quiet_step:
  assumes "served d s" "taken timeout s m = []" "step timeout pid s m = Running s'"
  shows "served d s'"
proof (cases m)
  case (Worker w)
  then show ?thesis using assms(1,3) by (auto simp: step_def served_def)
next
  case (Select r)
  then have t: "turn timeout pid s r = Running s'" using assms(3) by (simp add: step_def)
  have "select timeout s r = Pending"
    using served_select(1) [OF assms(1), of timeout r] t assms(1,2) Select
    by (cases "select timeout s r") (auto simp: turn_def after_turn_def served_def taken_def)
  then show ?thesis using t assms(1) by (simp add: turn_def)
qed

lemma served_quiet:
  "served d s \<Longrightarrow> events_of timeout pid s ms = [] \<Longrightarrow> run timeout pid s ms = Running s' \<Longrightarrow> served d s'"
proof (induction ms arbitrary: s)
  case (Cons m ms)
  then show ?case by (auto split: Outcome.splits intro: served_quiet_step)
qed simp

lemma run_append:
  "run timeout pid s (ms @ ns) = (case run timeout pid s ms of Running s' \<Rightarrow> run timeout pid s' ns | out \<Rightarrow> out)"
  by (induction ms arbitrary: s) (auto split: Outcome.splits)

lemma timeout_served:
  assumes inv: "loop_inv evs s" and opn: "\<not> (status s \<noteq> None \<and> pipes_closed s)"
    and t: "timeout \<le> now r" and d: "\<And>d. close_deadline s = Some d \<Longrightarrow> d \<le> now r"
    and r: "turn timeout pid s r = Running s'"
  shows "served (later r + PIPE_CLOSE_GRACE) s'"
proof (cases "timed_out s")
  case True
  then have "served (now r) s" using inv opn d by (auto simp: served_def loop_inv_def charged_def)
  then show ?thesis using served_ends [of "now r" s r timeout pid] r by simp
next
  case False
  then have "select timeout s r \<in> {On_cancel, On_timeout} \<union> range On_failure"
    using t opn by (auto simp: select_def split: option.splits)
  then have k: "reaping pid r (\<lambda>st. after_turn
      (s\<lparr>timed_out := True, status := or_status st (status s), close_deadline := grace_from r\<rparr>)) = Running s'"
    using r by (auto simp: turn_def)
  then obtain x where "after_turn (s\<lparr>timed_out := True, status := or_status (Some x) (status s),
      close_deadline := grace_from r\<rparr>) = Running s'"
    using reaping_running [of pid r, unfolded is_running_iff] by fastforce
  then show ?thesis by (auto simp: after_turn_def served_def grace_from_def or_status_def split: if_splits)
qed

text \<open>
  C25. The loop ends. At any state it can reach, a turn at or after the timeout (and after a grace
  period that may already be running) terminates the command, unless it ends the call itself; if
  no further output arrives, the first turn after one more grace period ends it, whatever else
  happens between, progress deliveries included.
\<close>

theorem loop_ends:
  assumes "run timeout pid (initial_state b) moves = Running s"
    and "timeout \<le> now r" "\<forall>d. close_deadline s = Some d \<longrightarrow> d \<le> now r"
    and "\<forall>s'. turn timeout pid s r = Running s' \<longrightarrow> events_of timeout pid s' quiet = []"
    and "later r + PIPE_CLOSE_GRACE \<le> now r'"
  shows "\<not> is_running (run timeout pid (initial_state b) (moves @ Select r # quiet @ [Select r']))"
proof -
  have "\<not> (status (initial_state b) \<noteq> None \<and> pipes_closed (initial_state b))" by (simp add: initial_state_def)
  from moves_inv [OF initial_inv this, of timeout pid moves] assms(1)
  have inv: "loop_inv (events_of timeout pid (initial_state b) moves) s" "\<not> (status s \<noteq> None \<and> pipes_closed s)"
    by (auto simp: outcome_inv_def)
  have "\<not> is_running (run timeout pid s' (quiet @ [Select r']))" if "turn timeout pid s r = Running s'" for s'
  proof (cases "run timeout pid s' quiet")
    case (Running s'')
    have "served (later r + PIPE_CLOSE_GRACE) s'"
      using timeout_served [OF inv assms(2) _ that] assms(3) by blast
    then have "served (later r + PIPE_CLOSE_GRACE) s''" using served_quiet Running assms(4) that by blast
    then show ?thesis
      using served_ends [OF _ assms(5), of s'' timeout pid] Running
      by (auto simp: run_append step_def is_running_iff split: Outcome.splits)
  qed (simp_all add: run_append)
  then show ?thesis
    using assms(1) by (cases "turn timeout pid s r") (simp_all add: run_append step_def)
qed

section \<open>Output postpones the end\<close>

text \<open>A descendant that left the group and writes a byte every fifty milliseconds.\<close>

definition chatter :: "nat \<Rightarrow> Move" where
  "chatter t = Select \<lparr>now = t, later = t, cancelled = False, child_exit = None,
     channel = Some (Some \<lparr>event_stream = Stdout, event_text = u ''.'', raw_bytes = 1\<rparr>),
     reap = \<lparr>grace_turns = [], alive_after_grace = False, final_wait = Inl [], alive_at_end = False\<rparr>\<rparr>"

lemma chatter_step:
  assumes "timed_out s" "limit_exceeded s" "status s \<noteq> None" "\<not> pipes_closed s" "progress s = None"
    "close_deadline s = Some d" "t < d"
  shows "\<exists>s'. step timeout pid s (chatter t) = Running s' \<and> timed_out s' \<and> limit_exceeded s' \<and> status s' \<noteq> None \<and>
           \<not> pipes_closed s' \<and> progress s' = None \<and> close_deadline s' = Some (t + PIPE_CLOSE_GRACE)"
  using assms
  by (auto simp: step_def chatter_def turn_def select_def receive_failure_def on_event_def record_event_def Let_def
      after_turn_def grace_from_def u_def)

text \<open>
  Output does postpone the end: after the timeout was served and the output limit was
  exceeded, the deadline is moved by every further event, so a process outside the group that
  holds a pipe and writes a byte every fifty milliseconds keeps the call open for as long as it
  likes; no other bound is left.
\<close>

theorem output_postpones_end:
  assumes "timed_out s" "limit_exceeded s" "status s \<noteq> None" "\<not> pipes_closed s" "progress s = None"
    "close_deadline s = Some d" "t < d"
  shows "is_running (run timeout pid s (map (\<lambda>i. chatter (t + 50 * i)) [0..<n]))"
proof -
  have "is_running (run timeout pid s (map (\<lambda>i. chatter (t + 50 * (k + i))) [0..<n]))"
    if "timed_out s" "limit_exceeded s" "status s \<noteq> None" "\<not> pipes_closed s" "progress s = None"
      "close_deadline s = Some d" "t + 50 * k < d" for s d k
    using that
  proof (induction n arbitrary: s d k)
    case (Suc n)
    obtain s' where s': "step timeout pid s (chatter (t + 50 * k)) = Running s'" "timed_out s'" "limit_exceeded s'"
      "status s' \<noteq> None" "\<not> pipes_closed s'" "progress s' = None"
      "close_deadline s' = Some (t + 50 * k + PIPE_CLOSE_GRACE)"
      using chatter_step [OF Suc.prems] by blast
    have "map (\<lambda>i. chatter (t + 50 * (k + i))) [0..<Suc n] =
      chatter (t + 50 * k) # map (\<lambda>i. chatter (t + 50 * (Suc k + i))) [0..<n]"
      unfolding map_upt_Suc by (simp del: upt_Suc add: algebra_simps)
    then show ?case using Suc.IH [OF s'(2-7), of "Suc k"] s'(1) by (simp add: PIPE_CLOSE_GRACE_def)
  qed simp
  from this [of s d 0] assms show ?thesis by simp
qed

section \<open>Examples\<close>

definition quiet_trace :: ReapTrace where
  "quiet_trace = \<lparr>grace_turns = [], alive_after_grace = False, final_wait = Inr \<lparr>exit_code = None, exit_signal = Some 15\<rparr>,
     alive_at_end = False\<rparr>"

definition at_time :: "nat \<Rightarrow> Ready" where
  "at_time t = \<lparr>now = t, later = t, cancelled = False, child_exit = None, channel = None, reap = quiet_trace\<rparr>"

definition sample_moves :: "Move list" where
  "sample_moves =
     [Select (at_time 1\<lparr>channel := Some (Some \<lparr>event_stream = Stdout, event_text = [111, 107], raw_bytes = 2\<rparr>)\<rparr>),
      Select (at_time 2\<lparr>child_exit := Some (Inr \<lparr>exit_code = Some 0, exit_signal = None\<rparr>)\<rparr>),
      Worker Take,
      Select (at_time 3\<lparr>channel := Some None\<rparr>)]"

lemmas run_simps = step_def turn_def select_def initial_state_def at_time_def receive_failure_def on_event_def
  record_event_def after_turn_def grace_from_def add64_def U64_MAX_def COMBINED_OUTPUT_BYTES_def Let_def taken_def

lemma sample_run:
  "\<exists>s. run 1000 (Some 7) (initial_state True) sample_moves = Finished s \<and>
     (\<exists>p. progress s = Some p \<and> (\<exists>p'. pump_finish [Published] p = Inr p'))"
  "events_of 1000 (Some 7) (initial_state True) sample_moves =
     [\<lparr>event_stream = Stdout, event_text = [111, 107], raw_bytes = 2\<rparr>]"
  by (simp_all add: sample_moves_def run_simps start_pump_def enqueue_def PROGRESS_QUEUE_CAPACITY_def worker_step_def
      pump_finish_def byte_len_def len_utf8_def)

theorem finished_has_status_witness:
  "\<exists>s. run 1000 (Some 7) (initial_state True) sample_moves = Finished s \<and> (\<exists>st. status s = Some st)"
  using sample_run(1) finished_has_status by blast

theorem execution_accounts_witness:
  "\<exists>out s pump. execute 1000 (Some 7) True sample_moves [Published] 5 = Some (Inr (Some (out, s, pump))) \<and>
     final_sequence out = 1 \<and> stdout_utf8_bytes out = 2 \<and> \<not> out_limit_exceeded out"
proof -
  obtain out s pump where e: "execute 1000 (Some 7) True sample_moves [Published] 5 = Some (Inr (Some (out, s, pump)))"
    using sample_run(1) by (force simp: execute_def)
  show ?thesis
    using execution_accounts [OF e] unfolding sample_run(2) Let_def
    by (intro exI [of _ out] exI [of _ s] exI [of _ pump])
      (simp add: e shown_def texts_of_def utf8_of_def raws_def U64_MAX_def COMBINED_OUTPUT_BYTES_def byte_len_def len_utf8_def)
qed

theorem loop_ends_witness:
  "\<not> is_running (run 1000 (Some 7) (initial_state False) [Select (at_time 1000), Worker Take, Select (at_time 1100)])"
  using loop_ends [of 1000 "Some 7" False "[]" "initial_state False" "at_time 1000" "[Worker Take]" "at_time 1100"]
  by (simp add: taken_def step_def) (simp add: initial_state_def at_time_def PIPE_CLOSE_GRACE_def)

theorem output_postpones_end_witness:
  "is_running (run 1000 (Some 7)
     (initial_state False\<lparr>timed_out := True, limit_exceeded := True, status := Some \<lparr>exit_code = None, exit_signal = Some 9\<rparr>,
        close_deadline := Some 1100\<rparr>)
     (map (\<lambda>i. chatter (1001 + 50 * i)) [0..<1000000]))"
  by (rule output_postpones_end [where d = 1100]) (simp_all add: initial_state_def)

end
