(* ===== verification/Shell_Workdir.thy ===== *)
theory Shell_Workdir
  imports Shell_Process
begin

text \<open>
  The working directory of a command (\<open>crates/mcp-shell/src/workdir.rs\<close>), for the Unix build:
  resolving a requested directory, confined to a base or relative to a base, and checking at
  launch that it is still the directory that was resolved. \<open>canon\<close> is \<open>realpath\<close> and \<open>stat\<close> is
  \<open>metadata\<close>, numbered by call so that the answer may change within one operation.
\<close>

datatype ShellPreparationError = Invalid ustr | OutsideRoot ustr | NotFound_workdir ustr

definition preparation_code :: "ShellPreparationError \<Rightarrow> ustr" where
  "preparation_code e =
     (case e of
        Invalid _ \<Rightarrow> u ''shell_preparation_failed''
      | OutsideRoot _ \<Rightarrow> u ''path_outside_root''
      | NotFound_workdir _ \<Rightarrow> u ''not_found'')"

record WorkdirIdentity =
  wd_device :: nat
  wd_inode :: nat

record WorkdirBinding =
  wd_canonical :: Path
  wd_requested :: Path
  wd_root :: Path
  wd_relative :: ustr
  wd_identity :: WorkdirIdentity
  wd_confined :: bool

definition STALE_WORKDIR_ERROR :: ustr where
  "STALE_WORKDIR_ERROR = u ''Prepared shell workdir is stale because its path or directory identity changed''"
definition MISSING_WORKDIR_ERROR :: ustr where
  "MISSING_WORKDIR_ERROR = u ''Invalid arguments: workdir must be an existing directory''"
definition UNINSPECTABLE_WORKDIR_ERROR :: ustr where
  "UNINSPECTABLE_WORKDIR_ERROR = u ''Invalid arguments: workdir cannot be inspected''"
definition CONFINED_WORKDIR_ERROR :: ustr where
  "CONFINED_WORKDIR_ERROR = u ''Invalid arguments: workdir must be a directory inside the configured root''"

fun workdir_normalize_from :: "Path \<Rightarrow> Component list \<Rightarrow> Path" where
  "workdir_normalize_from out [] = out"
| "workdir_normalize_from out (part # cs) =
     (case part of
        CurDir \<Rightarrow> workdir_normalize_from out cs
      | ParentDir \<Rightarrow> workdir_normalize_from (path_pop out) cs
      | RootDir \<Rightarrow> workdir_normalize_from [RootDir] cs
      | Normal s \<Rightarrow> workdir_normalize_from (out @ [Normal s]) cs)"

definition workdir_normalize :: "Path \<Rightarrow> Path" where
  "workdir_normalize p = workdir_normalize_from [] p"

definition workdir_inside :: "Path \<Rightarrow> Path \<Rightarrow> bool" where
  "workdir_inside p base \<longleftrightarrow> starts_with p base"

definition missing_workdir :: "IoErrorKind \<Rightarrow> ShellPreparationError" where
  "missing_workdir k =
     (if k = IoNotFound then NotFound_workdir MISSING_WORKDIR_ERROR else Invalid MISSING_WORKDIR_ERROR)"

definition inspect_directory :: "Metadata option \<Rightarrow> ShellPreparationError + bool" where
  "inspect_directory m =
     (case m of None \<Rightarrow> Inl (Invalid UNINSPECTABLE_WORKDIR_ERROR) | Some m \<Rightarrow> Inr (md_is_dir m))"

definition workdir_identity :: "Metadata option \<Rightarrow> ustr + WorkdirIdentity" where
  "workdir_identity m =
     (case m of
        None \<Rightarrow> Inl STALE_WORKDIR_ERROR
      | Some m \<Rightarrow> if \<not> md_is_dir m then Inl STALE_WORKDIR_ERROR
                  else Inr \<lparr>wd_device = md_dev m, wd_inode = md_ino m\<rparr>)"

definition workdir_lexical :: "Path \<Rightarrow> ustr \<Rightarrow> Path" where
  "workdir_lexical base requested =
     (let p = components (if requested = [] then u ''.'' else requested)
      in workdir_normalize (if is_absolute p then p else path_join base p))"

text \<open>\<open>to_string_lossy().replace('\\', "/")\<close> of a path below the base.\<close>

definition shown_relative :: "Path \<Rightarrow> ustr" where
  "shown_relative r = (if r = [] then u ''.'' else str_replace (path_text r) [92] [SLASH])"

definition workdir_resolve ::
  "(Path \<Rightarrow> IoErrorKind + Path) \<Rightarrow> (nat \<Rightarrow> Path \<Rightarrow> Metadata option) \<Rightarrow> Path \<Rightarrow> ustr \<Rightarrow>
     ShellPreparationError + WorkdirBinding" where
  "workdir_resolve canon stat base requested =
     (let lexical = workdir_lexical base requested
      in if \<not> workdir_inside lexical base
         then Inl (OutsideRoot (u ''Invalid arguments: workdir escapes the configured root''))
         else case canon lexical of
           Inl k \<Rightarrow> Inl (missing_workdir k)
         | Inr canonical \<Rightarrow>
             if \<not> workdir_inside canonical base then Inl (OutsideRoot CONFINED_WORKDIR_ERROR)
             else case inspect_directory (stat 0 canonical) of
               Inl e \<Rightarrow> Inl e
             | Inr dir \<Rightarrow>
                 if \<not> dir then Inl (Invalid CONFINED_WORKDIR_ERROR)
                 else case strip_prefix canonical base of
                   None \<Rightarrow> Inl (Invalid (u ''Invalid workdir''))
                 | Some r \<Rightarrow>
                     (case workdir_identity (stat 1 canonical) of
                        Inl e \<Rightarrow> Inl (Invalid e)
                      | Inr i \<Rightarrow>
                          Inr \<lparr>wd_canonical = canonical, wd_requested = lexical, wd_root = base,
                               wd_relative = shown_relative r, wd_identity = i, wd_confined = True\<rparr>))"

definition workdir_resolve_unconfined ::
  "(Path \<Rightarrow> IoErrorKind + Path) \<Rightarrow> (nat \<Rightarrow> Path \<Rightarrow> Metadata option) \<Rightarrow> Path \<Rightarrow> ustr \<Rightarrow>
     ShellPreparationError + WorkdirBinding" where
  "workdir_resolve_unconfined canon stat base requested =
     (let lexical = workdir_lexical base requested
      in case canon lexical of
           Inl k \<Rightarrow> Inl (missing_workdir k)
         | Inr canonical \<Rightarrow>
             (case inspect_directory (stat 0 canonical) of
                Inl e \<Rightarrow> Inl e
              | Inr dir \<Rightarrow>
                  if \<not> dir then Inl (Invalid (u ''Invalid arguments: workdir must be a directory''))
                  else let r = (case strip_prefix canonical base of
                                  None \<Rightarrow> str_replace (path_text canonical) [92] [SLASH]
                                | Some r \<Rightarrow> shown_relative r)
                       in case workdir_identity (stat 1 canonical) of
                            Inl e \<Rightarrow> Inl (Invalid e)
                          | Inr i \<Rightarrow>
                              Inr \<lparr>wd_canonical = canonical, wd_requested = lexical, wd_root = base,
                                   wd_relative = r, wd_identity = i, wd_confined = False\<rparr>))"

definition workdir_revalidate ::
  "(Path \<Rightarrow> IoErrorKind + Path) \<Rightarrow> (Path \<Rightarrow> Metadata option) \<Rightarrow> WorkdirBinding \<Rightarrow> ustr + unit" where
  "workdir_revalidate canon stat b =
     (if wd_confined b \<and> \<not> workdir_inside (wd_requested b) (wd_root b) then Inl STALE_WORKDIR_ERROR
      else case canon (wd_requested b) of
        Inl _ \<Rightarrow> Inl STALE_WORKDIR_ERROR
      | Inr canonical \<Rightarrow>
          if canonical \<noteq> wd_canonical b \<or> wd_confined b \<and> \<not> workdir_inside canonical (wd_root b)
          then Inl STALE_WORKDIR_ERROR
          else case workdir_identity (stat canonical) of
                 Inl e \<Rightarrow> Inl e
               | Inr i \<Rightarrow> if i \<noteq> wd_identity b then Inl STALE_WORKDIR_ERROR else Inr ())"

section \<open>Confinement\<close>

lemma normalize_same: "workdir_normalize_from out p = normalize_from out p"
  by (induction out p rule: normalize_from.induct) auto

text \<open>The shell reads a request as the path the file tools read it as.\<close>

lemma workdir_lexical_agrees: "requested \<noteq> [] \<Longrightarrow> workdir_lexical (root pol) requested = lexical pol requested"
  by (simp add: workdir_lexical_def lexical_def workdir_normalize_def normalize_def normalize_same Let_def)

lemma strip_inside: "workdir_inside p r \<Longrightarrow> strip_prefix p r = Some (drop (length r) p)"
  by (simp add: strip_prefix_def workdir_inside_def)

lemma resolve_Inr:
  assumes "workdir_resolve canon stat base requested = Inr b"
  shows "canon (wd_requested b) = Inr (wd_canonical b)" "workdir_inside (wd_requested b) base"
    "workdir_inside (wd_canonical b) base" "wd_root b = base" "wd_confined b"
    "wd_requested b = workdir_lexical base requested"
    "wd_relative b = shown_relative (drop (length base) (wd_canonical b))"
    "workdir_identity (stat 1 (wd_canonical b)) = Inr (wd_identity b)"
  using assms
  by (auto simp: workdir_resolve_def Let_def strip_inside
      split: if_splits sum.splits option.splits)

text \<open>
  A command of a confined group starts in a directory of its root: resolution yields only a
  canonical directory below the root, and a launch that revalidates the binding, in whatever
  state the file system is by then, starts in that very directory, found again through the
  requested path. When nothing changed, revalidation succeeds.
\<close>

theorem workdir_confined:
  assumes "workdir_resolve canon stat base requested = Inr b"
  shows "workdir_inside (wd_canonical b) base \<and> (\<exists>m. stat 1 (wd_canonical b) = Some m \<and> md_is_dir m) \<and>
         (workdir_revalidate canon' stat' b = Inr () \<longleftrightarrow>
            canon' (workdir_lexical base requested) = Inr (wd_canonical b) \<and>
            workdir_identity (stat' (wd_canonical b)) = workdir_identity (stat 1 (wd_canonical b)))"
proof -
  note r = resolve_Inr [OF assms]
  have "\<exists>m. stat 1 (wd_canonical b) = Some m \<and> md_is_dir m"
    using r(8) by (auto simp: workdir_identity_def split: option.splits if_splits)
  then show ?thesis
    using r by (auto simp: workdir_revalidate_def split: sum.splits)
qed

text \<open>
  Why a working directory is refused, in the order the checks run: a request that leaves the
  root by its spelling or through a link is outside the root, whatever is there; a directory that
  does not exist is not found; everything else is invalid. An accepted request is none of these.
\<close>

theorem workdir_refusals:
  "let lexical = workdir_lexical base requested; r = workdir_resolve canon stat base requested
   in ((\<exists>m. r = Inl (OutsideRoot m)) \<longleftrightarrow>
         \<not> workdir_inside lexical base \<or> (\<exists>c. canon lexical = Inr c \<and> \<not> workdir_inside c base)) \<and>
      ((\<exists>m. r = Inl (NotFound_workdir m)) \<longleftrightarrow> workdir_inside lexical base \<and> canon lexical = Inl IoNotFound) \<and>
      ((\<exists>b. r = Inr b) \<longleftrightarrow>
         workdir_inside lexical base \<and>
         (\<exists>c. canon lexical = Inr c \<and> workdir_inside c base \<and>
            (\<exists>m. stat 0 c = Some m \<and> md_is_dir m) \<and> (\<exists>m. stat 1 c = Some m \<and> md_is_dir m)))"
  by (auto simp: workdir_resolve_def Let_def strip_inside
      missing_workdir_def inspect_directory_def workdir_identity_def
      split: if_splits sum.splits option.splits)

section \<open>Examples\<close>

definition sample_dir :: "Path \<Rightarrow> Metadata option" where
  "sample_dir p = Some \<lparr>md_is_file = False, md_is_dir = True, md_mode = 0, md_dev = 1, md_ino = length p, md_len = 0,
                        md_mtime = (0, 0), md_ctime = (0, 0)\<rparr>"

theorem workdir_confined_witness:
  "let base = [RootDir, Normal (u ''w'')]; canonical = [RootDir, Normal (u ''w''), Normal (u ''a'')]
   in \<exists>b. workdir_resolve Inr (\<lambda>_. sample_dir) base (u ''b/../a'') = Inr b \<and> wd_canonical b = canonical \<and>
        workdir_inside canonical base \<and> workdir_revalidate Inr sample_dir b = Inr ()"
proof -
  let ?base = "[RootDir, Normal (u ''w'')]" and ?canonical = "[RootDir, Normal (u ''w''), Normal (u ''a'')]"
  have l: "workdir_lexical ?base (u ''b/../a'') = ?canonical"
    by (simp add: workdir_lexical_def components_def split_on_def component_of_def starts_with_def u_def Let_def
        is_absolute_def path_join_def workdir_normalize_def path_pop_def parent_def)
  obtain b where b: "workdir_resolve Inr (\<lambda>_. sample_dir) ?base (u ''b/../a'') = Inr b" "wd_canonical b = ?canonical"
    by (auto simp: workdir_resolve_def l Let_def workdir_inside_def starts_with_def inspect_directory_def sample_dir_def
        strip_prefix_def workdir_identity_def)
  then show ?thesis using workdir_confined [OF b(1), of Inr sample_dir] unfolding Let_def l by auto
qed

end
