(* ===== verification/Shell_Permission.thy ===== *)
theory Shell_Permission
  imports Bash_Program
begin

text \<open>
  The shell permission policy (\<open>crates/mcp-shell/src/permission.rs\<close>): reading a policy,
  finding the command scopes of a command line, and deciding. The TOML reader, the opened
  policy file and tree-sitter are parameters; the lowered program is an argument of the
  analysis, which reads from it the words of complete commands, its payloads and whether it is
  complete. \<open>decode_static_word\<close> is from \<open>bash/lower.rs\<close>.
\<close>

section \<open>Policies\<close>

definition POLICY_VERSION :: nat where "POLICY_VERSION = 1"
definition MAX_POLICY_BYTES :: nat where "MAX_POLICY_BYTES = 64 * 1024"
definition MAX_PATTERNS :: nat where "MAX_PATTERNS = 256"
definition MAX_PATTERN_BYTES :: nat where "MAX_PATTERN_BYTES = 512"

datatype DefaultDecision = Allow | Deny

record PolicyDocument =
  doc_version :: nat
  doc_default :: DefaultDecision
  doc_allow :: "ustr list"
  doc_deny :: "ustr list"

record ShellPermissionPolicy =
  default_decision :: DefaultDecision
  allow :: "ustr list"
  deny :: "ustr list"
  yolo :: bool

datatype ShellPermissionPolicyError =
  FileUnavailable | TooLarge | InvalidDocument | UnsupportedVersion | UnsupportedPlatform |
  TooManyPatterns | InvalidPattern

datatype AuthorizationError = Denied ustr | Required ustr | Opaque

definition restricted :: ShellPermissionPolicy where
  "restricted = \<lparr>default_decision = Deny, allow = [], deny = [], yolo = False\<rparr>"

definition yolo_policy :: ShellPermissionPolicy where
  "yolo_policy = restricted\<lparr>yolo := True\<rparr>"

definition valid_pattern :: "ustr \<Rightarrow> bool" where
  "valid_pattern p \<longleftrightarrow>
     p \<noteq> [] \<and> byte_len p \<le> MAX_PATTERN_BYTES \<and> trim p = p \<and> \<not> (\<exists>c\<in>set p. is_control c) \<and>
     count_list p STAR \<le> 1 \<and> (STAR \<in> set p \<longrightarrow> ends_with p [STAR])"

definition from_toml ::
  "(ustr \<Rightarrow> PolicyDocument option) \<Rightarrow> ustr \<Rightarrow> bool \<Rightarrow> ShellPermissionPolicyError + ShellPermissionPolicy" where
  "from_toml toml contents y =
     (if byte_len contents > MAX_POLICY_BYTES then Inl TooLarge
      else case toml contents of
             None \<Rightarrow> Inl InvalidDocument
           | Some d \<Rightarrow>
               if doc_version d \<noteq> POLICY_VERSION then Inl UnsupportedVersion
               else if sat_add (length (doc_allow d)) (length (doc_deny d)) > MAX_PATTERNS
               then Inl TooManyPatterns
               else if \<exists>p\<in>set (doc_allow d @ doc_deny d). \<not> valid_pattern p then Inl InvalidPattern
               else Inr \<lparr>default_decision = doc_default d, allow = doc_allow d, deny = doc_deny d, yolo = y\<rparr>)"

text \<open>
  \<open>from_file\<close> on Unix. \<open>open_policy_file\<close> gives the opened file: its metadata (whether it is a
  regular file, and its length), and what reading at most so many bytes as text returns.
\<close>

record PolicyFile =
  pf_metadata :: "(bool \<times> nat) option"
  pf_read :: "nat \<Rightarrow> ustr option"

definition from_file ::
  "(ustr \<Rightarrow> PolicyDocument option) \<Rightarrow> (ustr \<Rightarrow> PolicyFile option) \<Rightarrow> ustr \<Rightarrow> bool \<Rightarrow>
     ShellPermissionPolicyError + ShellPermissionPolicy" where
  "from_file toml open_policy_file path y =
     (case open_policy_file path of
        None \<Rightarrow> Inl FileUnavailable
      | Some f \<Rightarrow>
          (case pf_metadata f of
             None \<Rightarrow> Inl InvalidDocument
           | Some (is_file, len) \<Rightarrow>
               if \<not> is_file then Inl InvalidDocument
               else if len > MAX_POLICY_BYTES then Inl TooLarge
               else case pf_read f (MAX_POLICY_BYTES + 1) of
                      None \<Rightarrow> Inl InvalidDocument
                    | Some contents \<Rightarrow>
                        if byte_len contents > MAX_POLICY_BYTES then Inl TooLarge
                        else from_toml toml contents y))"

section \<open>Scopes\<close>

datatype ShellWord = Literal ustr | Undecodable

record ShellCommandScope =
  start_byte :: nat
  scope_source :: ustr
  normalized :: ustr
  permission :: ustr
  executable :: ustr
  arguments :: "ShellWord list option"

record ShellCommandAnalysis =
  scopes :: "ShellCommandScope list"
  opaque :: bool

definition matches_text :: "ustr \<Rightarrow> ustr \<Rightarrow> bool" where
  "matches_text pattern scope =
     (if pattern = u ''*'' \<or> pattern = u ''**'' then True
      else case strip_suffix pattern (u '' *'') of
             Some pre \<Rightarrow> scope = pre \<or> starts_with scope (pre @ [SPACE])
           | None \<Rightarrow>
               (case strip_suffix pattern [STAR] of
                  Some pre \<Rightarrow> starts_with scope pre
                | None \<Rightarrow> scope = pattern))"

definition scope_matches :: "ustr \<Rightarrow> ShellCommandScope \<Rightarrow> bool" where
  "scope_matches pattern scope \<longleftrightarrow>
     matches_text pattern (scope_source scope) \<or> matches_text pattern (normalized scope)"

text \<open>
  \<open>normalize_shell_whitespace\<close>, one character at a time: runs of unquoted whitespace become
  one space. The state is the output, the open quote, whether the next character is escaped,
  and whether a space is owed.
\<close>

record NormState =
  ns_out :: ustr
  ns_quote :: "uchar option"
  ns_escaped :: bool
  ns_pending :: bool

abbreviation (input) BACKSLASH :: uchar where "BACKSLASH \<equiv> 92"
abbreviation (input) SQUOTE :: uchar where "SQUOTE \<equiv> 39"
abbreviation (input) DQUOTE :: uchar where "DQUOTE \<equiv> 34"

definition flush_space :: "NormState \<Rightarrow> NormState" where
  "flush_space s =
     (if ns_pending s then s\<lparr>ns_out := ns_out s @ [SPACE], ns_pending := False\<rparr> else s)"

definition norm_push :: "uchar \<Rightarrow> NormState \<Rightarrow> NormState" where
  "norm_push c s = s\<lparr>ns_out := ns_out s @ [c]\<rparr>"

definition norm_char :: "NormState \<Rightarrow> uchar \<Rightarrow> NormState" where
  "norm_char s c =
     (if ns_escaped s then (norm_push c s)\<lparr>ns_escaped := False\<rparr>
      else if c = BACKSLASH then (norm_push c (flush_space s))\<lparr>ns_escaped := True\<rparr>
      else if ns_quote s = None \<and> (c = SQUOTE \<or> c = DQUOTE)
      then norm_push c ((flush_space s)\<lparr>ns_quote := Some c\<rparr>)
      else if ns_quote s = Some c then norm_push c (s\<lparr>ns_quote := None\<rparr>)
      else if ns_quote s = None \<and> is_whitespace c then s\<lparr>ns_pending := (ns_out s \<noteq> [])\<rparr>
      else norm_push c (flush_space s))"

definition norm_start :: NormState where
  "norm_start = \<lparr>ns_out = [], ns_quote = None, ns_escaped = False, ns_pending = False\<rparr>"

definition normalize_shell_whitespace :: "ustr \<Rightarrow> ustr" where
  "normalize_shell_whitespace source = ns_out (foldl norm_char norm_start (trim source))"

text \<open>\<open>decode_static_word\<close>: the text a word stands for, when its quoting alone determines it.\<close>

definition word_breakers :: "uchar set" where
  "word_breakers = set (u ''$`*?[{~()<>;&|'')"

fun decode_from :: "uchar option \<Rightarrow> bool \<Rightarrow> ustr \<Rightarrow> ustr \<Rightarrow> ustr option" where
  "decode_from quote has_word decoded [] = (if quote = None \<and> has_word then Some decoded else None)"
| "decode_from quote has_word decoded (c # cs) =
     (case quote of
        None \<Rightarrow>
          if c = SQUOTE \<or> c = DQUOTE then decode_from (Some c) True decoded cs
          else if c = BACKSLASH
          then (case cs of
                  [] \<Rightarrow> None
                | e # es \<Rightarrow> if e \<noteq> NL then decode_from None True (decoded @ [e]) es
                            else decode_from None has_word decoded es)
          else if c \<in> word_breakers then None
          else if is_whitespace c \<or> is_control c then None
          else decode_from None True (decoded @ [c]) cs
      | Some q \<Rightarrow>
          if q = SQUOTE
          then if c = SQUOTE then decode_from None has_word decoded cs
               else decode_from (Some SQUOTE) has_word (decoded @ [c]) cs
          else if q = DQUOTE
          then if c = DQUOTE then decode_from None has_word decoded cs
               else if c \<in> set (u ''$`'') then None
               else if c = BACKSLASH
               then (case cs of
                       [] \<Rightarrow> None
                     | e # es \<Rightarrow>
                         if e \<in> set (u ''$`'') \<or> e = DQUOTE \<or> e = BACKSLASH
                         then decode_from (Some DQUOTE) has_word (decoded @ [e]) es
                         else if e \<noteq> NL
                         then decode_from (Some DQUOTE) has_word (decoded @ [BACKSLASH, e]) es
                         else decode_from (Some DQUOTE) has_word decoded es)
               else decode_from (Some DQUOTE) has_word (decoded @ [c]) cs
          else None)"

definition decode_static_word :: "ustr \<Rightarrow> ustr option" where
  "decode_static_word word = decode_from None False [] word"

definition is_opaque_construct :: "ustr \<Rightarrow> bool" where
  "is_opaque_construct kind \<longleftrightarrow>
     kind \<in> set (map u [''command_substitution'', ''process_substitution'', ''subshell'',
       ''function_definition'', ''arithmetic_expansion'', ''expansion'', ''variable_assignment''])"

definition is_scope_node :: "ustr \<Rightarrow> bool" where
  "is_scope_node kind \<longleftrightarrow>
     kind \<in> set (map u [''command'', ''declaration_command'', ''unset_command'', ''test_command''])"

definition basename_of :: "ustr \<Rightarrow> ustr" where
  "basename_of s = (case file_name (components s) of Some b \<Rightarrow> b | None \<Rightarrow> s)"

definition is_opaque_wrapper :: "ustr \<Rightarrow> bool" where
  "is_opaque_wrapper e \<longleftrightarrow>
     basename_of e \<in> set (map u [''command'', ''env'', ''sudo'', ''doas'', ''eval'', ''source'', ''.'',
       ''bash'', ''sh'', ''time'', ''coproc''])"

text \<open>The byte offset and text of the name a scope starts with.\<close>

definition name_child :: "CstNode \<Rightarrow> CstNode option" where
  "name_child n =
     (case cst_name n of
        None \<Rightarrow> None
      | Some i \<Rightarrow> if i < length (cst_children n) then Some (cst_children n ! i) else None)"

definition scope_name :: "CstNode \<Rightarrow> ustr \<Rightarrow> (nat \<times> ustr) option" where
  "scope_name n command =
     (if cst_kind n = u ''command''
      then (case name_child n of
              None \<Rightarrow> None
            | Some m \<Rightarrow>
                map_option (\<lambda>t. (cst_start m, t)) (byte_slice command (cst_start m) (cst_end m)))
      else (case byte_slice command (cst_start n) (cst_end n) of
              None \<Rightarrow> None
            | Some node_source \<Rightarrow>
                let source = trim_start node_source;
                    leading = byte_len node_source - byte_len source
                in map_option (\<lambda>at. (at, takeWhile (\<lambda>c. \<not> is_whitespace c) source))
                     (checked_add (cst_start n) leading)))"

definition command_scope :: "CstNode \<Rightarrow> ustr \<Rightarrow> (ShellCommandScope \<times> bool) option" where
  "command_scope n command =
     (case scope_name n command of
        None \<Rightarrow> None
      | Some (at, raw_name) \<Rightarrow>
          (case decode_static_word raw_name of
             None \<Rightarrow> None
           | Some exe \<Rightarrow>
               (case byte_slice command at (cst_end n) of
                  None \<Rightarrow> None
                | Some raw_scope \<Rightarrow>
                    let source = normalize_shell_whitespace raw_scope
                    in case split_at_byte (byte_len (normalize_shell_whitespace raw_name)) source of
                         None \<Rightarrow> None
                       | Some (_, tail) \<Rightarrow>
                           let basename = basename_of exe;
                               norm = (if exe = basename \<and> raw_name = basename then source
                                       else basename @ tail)
                           in Some (\<lparr>start_byte = at, scope_source = source, normalized = norm,
                                     permission = basename @ u '' *'', executable = basename,
                                     arguments = None\<rparr>,
                                    is_opaque_wrapper basename))))"

section \<open>Analysis\<close>

text \<open>
  \<open>scope.arguments\<close>: the words after the name of the lowered command whose first word starts
  where the scope starts. The code collects the commands into a map, so the last one wins.
\<close>

definition word_of :: "BashWord \<Rightarrow> ShellWord" where
  "word_of w = (case literal w of Some t \<Rightarrow> Literal t | None \<Rightarrow> Undecodable)"

definition scope_arguments :: "BashProgram \<Rightarrow> nat \<Rightarrow> ShellWord list option" where
  "scope_arguments program at =
     (case find (\<lambda>c. words c \<noteq> [] \<and> span_start (word_span (hd (words c))) = at)
             (rev (map snd (commands program))) of
        None \<Rightarrow> None
      | Some c \<Rightarrow> if command_complete c then Some (map word_of (tl (words c))) else None)"

definition visit_scope ::
  "ustr \<Rightarrow> BashProgram \<Rightarrow> ShellCommandAnalysis \<Rightarrow> CstNode \<Rightarrow> ShellCommandAnalysis" where
  "visit_scope command program a n =
     (let a1 = (if is_opaque_construct (cst_kind n) then a\<lparr>opaque := True\<rparr> else a)
      in if is_scope_node (cst_kind n)
         then (case command_scope n command of
                 Some (scope, op) \<Rightarrow>
                   a1\<lparr>scopes := scopes a1 @ [scope\<lparr>arguments := scope_arguments program (start_byte scope)\<rparr>],
                      opaque := opaque a1 \<or> op\<rparr>
               | None \<Rightarrow> a1\<lparr>opaque := True\<rparr>)
         else a1)"

definition named_children :: "CstNode \<Rightarrow> CstNode list" where
  "named_children n = filter cst_named (cst_children n)"

lemma cst_size_pos: "0 < cst_size n"
  by (cases n) simp

lemma named_children_size: "sum_list (map cst_size (named_children n)) < cst_size n"
proof -
  have "sum_list (map cst_size (filter cst_named cs)) \<le> sum_list (map cst_size cs)" for cs
    by (induction cs) auto
  then show ?thesis by (cases n) (simp add: named_children_def less_Suc_eq_le)
qed

text \<open>The explicit stack of the walk: its top is the head of the list.\<close>

function scan_stack ::
  "ustr \<Rightarrow> BashProgram \<Rightarrow> CstNode list \<Rightarrow> ShellCommandAnalysis \<Rightarrow> ShellCommandAnalysis" where
  "scan_stack command program [] a = a"
| "scan_stack command program (n # stack) a =
     scan_stack command program (named_children n @ stack) (visit_scope command program a n)"
  by pat_completeness auto
termination
  by (relation "measure (\<lambda>(_, _, stack, _). sum_list (map cst_size stack))")
    (simp_all add: named_children_size)

fun dedup_scopes :: "ShellCommandScope list \<Rightarrow> ShellCommandScope list" where
  "dedup_scopes (x # y # ys) =
     (if start_byte x = start_byte y then dedup_scopes (x # ys) else x # dedup_scopes (y # ys))"
| "dedup_scopes xs = xs"

definition analyze_tree :: "ustr \<Rightarrow> CstNode \<Rightarrow> BashProgram \<Rightarrow> ShellCommandAnalysis" where
  "analyze_tree command tree program =
     (let start = \<lparr>scopes = [],
            opaque = (cst_has_error tree \<or> \<not> is_complete program \<or>
              (\<exists>c\<in>set (map snd (commands program)). payloads c \<noteq> []))\<rparr>;
          a = scan_stack command program [tree] start;
          ss = dedup_scopes (sort_key start_byte (scopes a))
      in \<lparr>scopes = ss, opaque = (opaque a \<or> ss = [])\<rparr>)"

section \<open>Decisions\<close>

definition authorize_analysis ::
  "ShellPermissionPolicy \<Rightarrow> ShellCommandAnalysis \<Rightarrow> AuthorizationError + unit" where
  "authorize_analysis pol a =
     (case find (\<lambda>s. \<exists>p\<in>set (deny pol). scope_matches p s) (scopes a) of
        Some s \<Rightarrow> Inl (Denied (permission s))
      | None \<Rightarrow>
          if opaque a \<and> deny pol \<noteq> [] then Inl Opaque
          else if yolo pol then Inr ()
          else if opaque a then Inl Opaque
          else if default_decision pol = Allow then Inr ()
          else case find (\<lambda>s. \<not> (\<exists>p\<in>set (allow pol). scope_matches p s)) (scopes a) of
                 Some s \<Rightarrow> Inl (Required (permission s))
               | None \<Rightarrow> Inr ())"

text \<open>
  \<open>prepare\<close>: the analysis, the parse result and the decision, \<open>None\<close> when the command may run.
  \<open>lower\<close> is \<open>lower_tree\<close>.
\<close>

definition prepare ::
  "bool \<Rightarrow> (ustr \<Rightarrow> nat \<Rightarrow> CstNode option) \<Rightarrow> (ustr \<Rightarrow> CstNode \<Rightarrow> BashProgram) \<Rightarrow>
     ShellPermissionPolicy \<Rightarrow> ustr \<Rightarrow>
     ShellCommandAnalysis \<times> (BashParseError + BashProgram) \<times> AuthorizationError option" where
  "prepare grammar parser lower pol command =
     (case parse_tree grammar parser command default_bash_limits of
        Inr tree \<Rightarrow>
          let program = lower command tree;
              a = analyze_tree command tree program
          in (a, Inr program,
              case authorize_analysis pol a of Inl e \<Rightarrow> Some e | Inr _ \<Rightarrow> None)
      | Inl e \<Rightarrow>
          (\<lparr>scopes = [], opaque = True\<rparr>, Inl e,
           if yolo pol \<and> deny pol = [] then None else Some Opaque))"

section \<open>What an allowed command contains\<close>

text \<open>A node and every named node below it, in source order.\<close>

function named_nodes :: "CstNode \<Rightarrow> CstNode list" where
  "named_nodes n = n # concat (map named_nodes (named_children n))"
  by pat_completeness auto
termination
proof (relation "measure cst_size")
  show "(m, n) \<in> measure cst_size" if "m \<in> set (named_children n)" for m n
    using member_le_sum_list [of "cst_size m" "map cst_size (named_children n)"] that named_children_size [of n]
    by simp
qed simp

declare named_nodes.simps [simp del]

definition scope_found :: "ustr \<Rightarrow> ShellCommandAnalysis \<Rightarrow> CstNode \<Rightarrow> bool" where
  "scope_found command a n \<longleftrightarrow>
     \<not> is_opaque_construct (cst_kind n) \<and>
     (is_scope_node (cst_kind n) \<longrightarrow>
        (\<exists>s t. command_scope n command = Some (s, False) \<and> t \<in> set (scopes a) \<and> start_byte t = start_byte s))"

lemma visit_scope_found:
  assumes "\<not> opaque (visit_scope command program a n)"
  shows "\<not> opaque a" "set (scopes a) \<subseteq> set (scopes (visit_scope command program a n))"
    "scope_found command (visit_scope command program a n) n"
proof -
  from assms show "\<not> opaque a" "set (scopes a) \<subseteq> set (scopes (visit_scope command program a n))"
    by (auto simp: visit_scope_def Let_def split: if_splits option.splits)
  have "\<not> is_opaque_construct (cst_kind n)"
    using assms by (auto simp: visit_scope_def Let_def split: if_splits option.splits)
  moreover have "\<exists>s t. command_scope n command = Some (s, False) \<and>
      t \<in> set (scopes (visit_scope command program a n)) \<and> start_byte t = start_byte s"
    if node: "is_scope_node (cst_kind n)"
  proof -
    obtain s where "command_scope n command = Some (s, False)"
      using assms node by (auto simp: visit_scope_def Let_def split: if_splits option.splits)
    moreover have "s\<lparr>arguments := scope_arguments program (start_byte s)\<rparr> \<in> set (scopes (visit_scope command program a n))"
      using node calculation by (simp add: visit_scope_def Let_def)
    ultimately show ?thesis by fastforce
  qed
  ultimately show "scope_found command (visit_scope command program a n) n" by (simp add: scope_found_def)
qed

lemma scope_found_mono:
  "scope_found command a n \<Longrightarrow> start_byte ` set (scopes a) \<subseteq> start_byte ` set (scopes b) \<Longrightarrow> scope_found command b n"
  unfolding scope_found_def by (metis (no_types, lifting) image_iff subset_iff)

lemma scan_stack_found:
  "\<not> opaque (scan_stack command program stack a) \<Longrightarrow>
     \<not> opaque a \<and> set (scopes a) \<subseteq> set (scopes (scan_stack command program stack a)) \<and>
     (\<forall>m\<in>set stack. \<forall>n\<in>set (named_nodes m). scope_found command (scan_stack command program stack a) n)"
proof (induction command program stack a rule: scan_stack.induct)
  case (2 command program n stack a)
  let ?a = "visit_scope command program a n" and ?r = "scan_stack command program (n # stack) a"
  have ih: "\<not> opaque ?a" "set (scopes ?a) \<subseteq> set (scopes ?r)"
    "\<forall>m\<in>set (named_children n @ stack). \<forall>k\<in>set (named_nodes m). scope_found command ?r k"
    using 2 by simp_all
  note v = visit_scope_found [OF ih(1)]
  have "scope_found command ?r n" by (rule scope_found_mono [OF v(3)]) (use ih(2) in auto)
  moreover have "set (named_nodes n) = insert n (\<Union>m\<in>set (named_children n). set (named_nodes m))"
    by (subst named_nodes.simps) simp
  ultimately show ?case using v(1,2) ih by auto
qed simp

lemma dedup_scopes_starts: "start_byte ` set (dedup_scopes xs) = start_byte ` set xs"
  by (induction xs rule: dedup_scopes.induct) auto

lemma analyze_tree_found:
  assumes "\<not> opaque (analyze_tree command tree program)"
  shows "\<not> cst_has_error tree" "is_complete program" "scopes (analyze_tree command tree program) \<noteq> []"
    "\<forall>c\<in>set (map snd (commands program)). payloads c = []"
    "\<forall>n\<in>set (named_nodes tree). scope_found command (analyze_tree command tree program) n"
proof -
  let ?start = "\<lparr>scopes = [], opaque = (cst_has_error tree \<or> \<not> is_complete program \<or>
      (\<exists>c\<in>set (map snd (commands program)). payloads c \<noteq> []))\<rparr>"
  let ?r = "scan_stack command program [tree] ?start"
  have r: "\<not> opaque ?r" using assms by (simp add: analyze_tree_def Let_def del: scan_stack.simps)
  note f = scan_stack_found [OF this]
  have "start_byte ` set (scopes ?r) \<subseteq> start_byte ` set (scopes (analyze_tree command tree program))"
    by (simp add: analyze_tree_def Let_def dedup_scopes_starts del: scan_stack.simps)
  then show "\<forall>n\<in>set (named_nodes tree). scope_found command (analyze_tree command tree program) n"
    using f scope_found_mono by (meson list.set_intros(1))
  from f show "\<not> cst_has_error tree" "is_complete program" "\<forall>c\<in>set (map snd (commands program)). payloads c = []"
    by auto
  show "scopes (analyze_tree command tree program) \<noteq> []"
    using assms by (simp add: analyze_tree_def Let_def del: scan_stack.simps)
qed

section \<open>Decisions, exactly\<close>

definition denied_by :: "ShellPermissionPolicy \<Rightarrow> ShellCommandScope \<Rightarrow> bool" where
  "denied_by pol s \<longleftrightarrow> (\<exists>p\<in>set (deny pol). scope_matches p s)"

definition allowed_by :: "ShellPermissionPolicy \<Rightarrow> ShellCommandScope \<Rightarrow> bool" where
  "allowed_by pol s \<longleftrightarrow> default_decision pol = Allow \<or> (\<exists>p\<in>set (allow pol). scope_matches p s)"

lemma missing_iff:
  "find (\<lambda>s. \<not> (\<exists>p\<in>set (allow pol). scope_matches p s)) (scopes a) = None \<longleftrightarrow>
     (\<forall>s\<in>set (scopes a). \<exists>p\<in>set (allow pol). scope_matches p s)"
  by (auto simp: find_None_iff)

lemma find_first: "list_all (\<lambda>x. \<not> P x) pre \<Longrightarrow> P x \<Longrightarrow> find P (pre @ x # post) = Some x"
  by (induction pre) auto

lemma authorize_ok:
  "authorize_analysis pol a = Inr () \<longleftrightarrow>
     (\<forall>s\<in>set (scopes a). \<not> denied_by pol s) \<and> (opaque a \<longrightarrow> yolo pol \<and> deny pol = []) \<and>
     (yolo pol \<or> (\<forall>s\<in>set (scopes a). allowed_by pol s))"
proof (cases "find (denied_by pol) (scopes a)")
  case None
  then have "\<forall>s\<in>set (scopes a). \<not> denied_by pol s" by (simp add: find_None_iff)
  then show ?thesis
    using None missing_iff [of pol a]
    by (auto simp: authorize_analysis_def denied_by_def [abs_def] allowed_by_def split: option.splits)
next
  case (Some s)
  then have "authorize_analysis pol a = Inl (Denied (permission s))"
    by (simp add: authorize_analysis_def denied_by_def [abs_def])
  moreover have "s \<in> set (scopes a)" "denied_by pol s" using Some by (auto simp: find_Some_iff)
  ultimately show ?thesis by auto
qed

text \<open>
  C7. When an analysed command line may run: no scope matches a deny rule, whatever else holds;
  one that could not be classified runs only for the unrestricted operator with no deny rules;
  and otherwise every scope needs an allow rule or the allowing default. The refusals are the
  rest, and a matching deny rule is reported for the first scope that has one.
\<close>

theorem authorize_exact:
  "(authorize_analysis pol a = Inr () \<longleftrightarrow>
      (\<forall>s\<in>set (scopes a). \<not> denied_by pol s) \<and> (opaque a \<longrightarrow> yolo pol \<and> deny pol = []) \<and>
      (yolo pol \<or> (\<forall>s\<in>set (scopes a). allowed_by pol s))) \<and>
   (\<forall>pre s post. scopes a = pre @ s # post \<and> denied_by pol s \<and> list_all (\<lambda>t. \<not> denied_by pol t) pre \<longrightarrow>
      authorize_analysis pol a = Inl (Denied (permission s)))"
proof (intro conjI allI impI)
  show "authorize_analysis pol a = Inr () \<longleftrightarrow>
      (\<forall>s\<in>set (scopes a). \<not> denied_by pol s) \<and> (opaque a \<longrightarrow> yolo pol \<and> deny pol = []) \<and>
      (yolo pol \<or> (\<forall>s\<in>set (scopes a). allowed_by pol s))"
    by (rule authorize_ok)
  fix pre s post
  assume h: "scopes a = pre @ s # post \<and> denied_by pol s \<and> list_all (\<lambda>t. \<not> denied_by pol t) pre"
  then have "find (denied_by pol) (scopes a) = Some s" by (simp add: find_first)
  then have "find (\<lambda>s. \<exists>p\<in>set (deny pol). scope_matches p s) (scopes a) = Some s"
    unfolding denied_by_def [abs_def] .
  then show "authorize_analysis pol a = Inl (Denied (permission s))"
    by (simp add: authorize_analysis_def)
qed

text \<open>Every node of a command line is one the policy has a say on, and it allows it.\<close>

definition policy_covers :: "ShellPermissionPolicy \<Rightarrow> ustr \<Rightarrow> CstNode \<Rightarrow> ShellCommandAnalysis \<Rightarrow> bool" where
  "policy_covers pol command tree a \<longleftrightarrow>
     (\<forall>n\<in>set (named_nodes tree).
        \<not> is_opaque_construct (cst_kind n) \<and>
        (is_scope_node (cst_kind n) \<longrightarrow>
           (\<exists>s t. command_scope n command = Some (s, False) \<and> t \<in> set (scopes a) \<and>
              start_byte t = start_byte s \<and> \<not> denied_by pol t \<and> allowed_by pol t)))"

text \<open>What a command line that was let through looks like.\<close>

lemma prepare_allows:
  assumes p: "prepare grammar parser lower pol command = (a, r, None)" and y: "\<not> yolo pol"
  shows "\<exists>tree. parse_tree grammar parser command default_bash_limits = Inr tree \<and>
     r = Inr (lower command tree) \<and> \<not> cst_has_error tree \<and> is_complete (lower command tree) \<and>
     (\<forall>c\<in>set (map snd (commands (lower command tree))). payloads c = []) \<and> scopes a \<noteq> [] \<and>
     policy_covers pol command tree a"
proof -
  obtain tree where t: "parse_tree grammar parser command default_bash_limits = Inr tree"
    and a: "a = analyze_tree command tree (lower command tree)" and r: "r = Inr (lower command tree)"
    and ok: "authorize_analysis pol a = Inr ()"
    using p y by (auto simp: prepare_def Let_def split: sum.splits)
  have dec: "\<forall>s\<in>set (scopes a). \<not> denied_by pol s \<and> allowed_by pol s" and op: "\<not> opaque a"
    using ok y unfolding authorize_ok by auto
  note f = analyze_tree_found [OF op [unfolded a], folded a]
  have "\<not> is_opaque_construct (cst_kind n) \<and> (is_scope_node (cst_kind n) \<longrightarrow>
      (\<exists>s t. command_scope n command = Some (s, False) \<and> t \<in> set (scopes a) \<and>
         start_byte t = start_byte s \<and> \<not> denied_by pol t \<and> allowed_by pol t))"
    if "n \<in> set (named_nodes tree)" for n
    using f(5) that dec unfolding scope_found_def by meson
  then have "policy_covers pol command tree a" unfolding policy_covers_def by blast
  then show ?thesis using t r f by blast
qed

text \<open>
  C5. Nothing in an allowed command line escapes the policy. When a policy that is not the
  unrestricted one lets a command run, the line parsed without error within its limits, no node
  of the syntax tree at any depth is a substitution, expansion, assignment, subshell or
  function, no command is fed a here-document, and every command node was decoded and stands
  at the start of a scope that no deny rule matches and that the policy allows.
\<close>

theorem prepare_covers_commands:
  assumes p: "prepare grammar parser lower pol command = (a, r, None)" and y: "\<not> yolo pol"
  shows "\<exists>tree. parse_tree grammar parser command default_bash_limits = Inr tree \<and>
     r = Inr (lower command tree) \<and> \<not> cst_has_error tree \<and> is_complete (lower command tree) \<and>
     (\<forall>c\<in>set (map snd (commands (lower command tree))). payloads c = []) \<and> scopes a \<noteq> [] \<and>
     (\<forall>n\<in>set (named_nodes tree).
        \<not> is_opaque_construct (cst_kind n) \<and>
        (is_scope_node (cst_kind n) \<longrightarrow>
           (\<exists>s t. command_scope n command = Some (s, False) \<and> t \<in> set (scopes a) \<and>
              start_byte t = start_byte s \<and> \<not> denied_by pol t \<and> allowed_by pol t)))"
  using prepare_allows [OF p y] unfolding policy_covers_def .

section \<open>Words\<close>

text \<open>Shell quoting of any text in single quotes: each quote of the text is closed, escaped and reopened.\<close>

definition shell_quote :: "ustr \<Rightarrow> ustr" where
  "shell_quote s =
     [SQUOTE] @ concat (map (\<lambda>c. if c = SQUOTE then [SQUOTE, BACKSLASH, SQUOTE, SQUOTE] else [c]) s) @ [SQUOTE]"

lemma decode_quoted:
  "decode_from (Some SQUOTE) True d
     (concat (map (\<lambda>c. if c = SQUOTE then [SQUOTE, BACKSLASH, SQUOTE, SQUOTE] else [c]) s) @ [SQUOTE]) =
   Some (d @ s)"
  by (induction s arbitrary: d) auto

text \<open>
  Decoding undoes quoting: the word that spells any text in single quotes, with its own
  quotes escaped, is decoded to exactly that text. So no spelling of an executable name by
  quoting hides it from the policy.
\<close>

theorem decode_shell_quote: "decode_static_word (shell_quote s) = Some s"
  using decode_quoted [of "[]" s] by (simp add: decode_static_word_def shell_quote_def)

text \<open>The words of a text, between runs of whitespace.\<close>

definition text_words :: "ustr \<Rightarrow> ustr list" where
  "text_words s = filter (\<lambda>w. w \<noteq> []) (split_by is_whitespace s)"

lemma text_words_snoc:
  "text_words (s @ [c]) =
     (if is_whitespace c then text_words s
      else if s = [] \<or> is_whitespace (last s) then text_words s @ [[c]]
      else butlast (text_words s) @ [last (text_words s) @ [c]])"
proof -
  let ?ps = "split_by is_whitespace s"
  show ?thesis
  proof (cases "s = [] \<or> is_whitespace (last s)")
    case True
    then have l: "last ?ps = []" by (simp add: last_split_by)
    have "text_words s = filter (\<lambda>w. w \<noteq> []) (butlast ?ps @ [last ?ps])" by (simp add: text_words_def)
    also have "\<dots> = filter (\<lambda>w. w \<noteq> []) (butlast ?ps)" by (simp only: filter_append l) simp
    finally show ?thesis using True l by (simp add: text_words_def split_by_snoc)
  next
    case False
    then have l: "last ?ps \<noteq> []" by (simp add: last_split_by)
    have "text_words s = filter (\<lambda>w. w \<noteq> []) (butlast ?ps @ [last ?ps])" by (simp add: text_words_def)
    also have "\<dots> = filter (\<lambda>w. w \<noteq> []) (butlast ?ps) @ [last ?ps]" using l by (simp only: filter_append) simp
    finally have w: "text_words s = filter (\<lambda>w. w \<noteq> []) (butlast ?ps) @ [last ?ps]" .
    have "text_words (s @ [c]) = (if is_whitespace c then text_words s
        else filter (\<lambda>w. w \<noteq> []) (butlast ?ps) @ [last ?ps @ [c]])"
      by (simp add: text_words_def split_by_snoc)
    then show ?thesis using False by (simp add: w)
  qed
qed

lemma text_words_ne: "s \<noteq> [] \<Longrightarrow> \<not> is_whitespace (last s) \<Longrightarrow> text_words s \<noteq> []"
  by (induction s rule: rev_induct) (auto simp: text_words_snoc)

lemma join_extend: "ws \<noteq> [] \<Longrightarrow> join sep (butlast ws @ [last ws @ [c]]) = join sep ws @ [c]"
proof (induction ws rule: rev_induct)
  case (snoc w ws)
  then show ?case by (cases "ws = []") (simp_all add: join_snoc)
qed simp

lemma join_ne: "ws \<noteq> [] \<Longrightarrow> list_all (\<lambda>w. w \<noteq> []) ws \<Longrightarrow> join sep ws \<noteq> []"
  by (cases "(sep, ws)" rule: join.cases) auto

definition plain_text :: "ustr \<Rightarrow> bool" where
  "plain_text s \<longleftrightarrow> BACKSLASH \<notin> set s \<and> SQUOTE \<notin> set s \<and> DQUOTE \<notin> set s"

lemma norm_plain:
  "plain_text s \<Longrightarrow>
     foldl norm_char norm_start s =
       \<lparr>ns_out = join [SPACE] (text_words s), ns_quote = None, ns_escaped = False,
        ns_pending = (s \<noteq> [] \<and> is_whitespace (last s) \<and> text_words s \<noteq> [])\<rparr>"
proof (induction s rule: rev_induct)
  case Nil
  then show ?case by (simp add: norm_start_def text_words_def)
next
  case (snoc c s)
  then have ih: "foldl norm_char norm_start s =
       \<lparr>ns_out = join [SPACE] (text_words s), ns_quote = None, ns_escaped = False,
        ns_pending = (s \<noteq> [] \<and> is_whitespace (last s) \<and> text_words s \<noteq> [])\<rparr>"
    and c: "c \<noteq> BACKSLASH" "c \<noteq> SQUOTE" "c \<noteq> DQUOTE"
    by (auto simp: plain_text_def)
  have ne: "join [SPACE] (text_words s) \<noteq> [] \<longleftrightarrow> text_words s \<noteq> []"
    using join_ne [of "text_words s"] by (auto simp: text_words_def list_all_iff)
  consider "is_whitespace c" | "\<not> is_whitespace c" "s = [] \<or> is_whitespace (last s)" "text_words s = []"
    | "\<not> is_whitespace c" "s \<noteq> []" "is_whitespace (last s)" "text_words s \<noteq> []"
    | "\<not> is_whitespace c" "s \<noteq> []" "\<not> is_whitespace (last s)" "text_words s \<noteq> []"
    using text_words_ne [of s] by (cases "s = []") (auto simp: text_words_def)
  then show ?case
    unfolding foldl_append foldl.simps ih
    by cases (use c ne in \<open>simp_all add: norm_char_def norm_push_def flush_space_def text_words_snoc
      join_snoc join_extend\<close>)
qed

lemma text_words_trim: "text_words (trim s) = text_words s"
proof -
  have "text_words (x @ z) = text_words x" if "list_all is_whitespace z" for x z
    using that by (induction z rule: rev_induct) (simp_all add: text_words_snoc flip: append_assoc)
  moreover have "text_words (z @ x) = text_words x" if "list_all is_whitespace z" for x z
    using that by (induction z) (simp_all add: text_words_def)
  moreover have "s = takeWhile is_whitespace s @ trim_start s"
    by (simp add: trim_start_def trim_start_by_def)
  moreover have "x = trim_end x @ rev (takeWhile is_whitespace (rev x))" for x
    unfolding trim_end_def trim_end_by_def by (metis rev_append rev_rev_ident takeWhile_dropWhile_id)
  moreover have "list_all is_whitespace (rev (takeWhile is_whitespace x))" "list_all is_whitespace (takeWhile is_whitespace x)" for x
    by (auto simp: list_all_iff dest: set_takeWhileD)
  ultimately show ?thesis unfolding trim_def by metis
qed

text \<open>
  On text without quotes or backslashes, normalising whitespace is joining the words with
  single spaces; so any two such command lines with the same words are one scope to the rules.
\<close>

theorem normalize_is_words:
  assumes "plain_text s"
  shows "normalize_shell_whitespace s = join [SPACE] (text_words s)"
proof -
  have "set (trim s) \<subseteq> set s"
    unfolding trim_def trim_end_def trim_end_by_def trim_start_def trim_start_by_def
    by (auto dest!: set_dropWhileD)
  then have "plain_text (trim s)" using assms by (auto simp: plain_text_def)
  then show ?thesis by (simp add: normalize_shell_whitespace_def norm_plain text_words_trim)
qed

theorem normalize_is_words_witness:
  "normalize_shell_whitespace (u ''  git   status '') = u ''git status''"
  using normalize_is_words [of "u ''  git   status ''"]
  by (simp add: plain_text_def text_words_def u_def is_whitespace_def)

text \<open>
  Whitespace inside single quotes can be lost: a backslash is taken as an escape inside
  single quotes too, where Bash reads it literally, so the quote that closes the word is
  skipped and the next quoted word is normalised as if it were bare. Two commands with
  different arguments then have one normal form, and an allow rule for one admits the other.
\<close>

theorem single_quote_backslash_collision:
  "normalize_shell_whitespace (u ''echo '' @ [39, 97, 92, 39, 32, 39] @ u ''x  y'' @ [39]) =
   normalize_shell_whitespace (u ''echo '' @ [39, 97, 92, 39, 32, 39] @ u ''x y'' @ [39])"
  by (simp add: normalize_shell_whitespace_def norm_char_def norm_push_def flush_space_def norm_start_def
      u_def trim_def trim_start_def trim_end_def trim_start_by_def trim_end_by_def is_whitespace_def)

text \<open>The line \<open>ls -l\<close> under a policy that allows \<open>ls *\<close>.\<close>

definition sample_tree :: CstNode where
  "sample_tree =
     CstNode (u ''program'') 0 5 True False None
       [CstNode (u ''command'') 0 5 True False (Some 0)
          [CstNode (u ''command_name'') 0 2 True False None [],
           CstNode (u ''word'') 3 5 True False None []]]"

definition sample_lower :: "ustr \<Rightarrow> CstNode \<Rightarrow> BashProgram" where
  "sample_lower s t = \<lparr>source_text = s, program_root = 0, nodes = [], diagnostics = []\<rparr>"

definition sample_policy :: ShellPermissionPolicy where
  "sample_policy = restricted\<lparr>allow := [u ''ls *'']\<rparr>"

lemma sample_slices:
  "byte_slice (u ''ls -l'') 0 2 = Some (u ''ls'')" "byte_slice (u ''ls -l'') 0 5 = Some (u ''ls -l'')"
  "split_at_byte 2 (u ''ls -l'') = Some (u ''ls'', u '' -l'')"
  by (simp_all add: byte_slice_def split_at_byte.simps u_def len_utf8_def)

lemma sample_scope:
  "command_scope (CstNode (u ''command'') 0 5 True False (Some 0)
      [CstNode (u ''command_name'') 0 2 True False None [], CstNode (u ''word'') 3 5 True False None []]) (u ''ls -l'') =
   Some (\<lparr>start_byte = 0, scope_source = u ''ls -l'', normalized = u ''ls -l'', permission = u ''ls *'',
          executable = u ''ls'', arguments = None\<rparr>, False)"
proof -
  have dec: "decode_static_word (u ''ls'') = Some (u ''ls'')"
    by (simp add: decode_static_word_def u_def word_breakers_def is_whitespace_def is_control_def)
  have base: "basename_of (u ''ls'') = u ''ls''"
    by (simp add: basename_of_def components_def component_of_def file_name_def text_defs Let_def)
  have n: "normalize_shell_whitespace (u ''ls'') = u ''ls''" "normalize_shell_whitespace (u ''ls -l'') = u ''ls -l''"
    by (simp_all add: normalize_shell_whitespace_def norm_char_def norm_push_def flush_space_def norm_start_def text_defs)
  have len: "byte_len (u ''ls'') = 2" by (simp add: u_def byte_len_def len_utf8_def)
  show ?thesis
    by (simp add: command_scope_def scope_name_def name_child_def sample_slices dec base n len Let_def
        is_opaque_wrapper_def) (simp add: u_def)
qed

lemma sample_prepare:
  "\<exists>a r. prepare True (\<lambda>s t. Some sample_tree) sample_lower sample_policy (u ''ls -l'') = (a, r, None)"
proof -
  have kinds: "\<not> is_opaque_construct (u ''program'')" "\<not> is_opaque_construct (u ''command'')"
    "\<not> is_opaque_construct (u ''command_name'')" "\<not> is_opaque_construct (u ''word'')"
    "\<not> is_scope_node (u ''program'')" "is_scope_node (u ''command'')"
    "\<not> is_scope_node (u ''command_name'')" "\<not> is_scope_node (u ''word'')"
    by (simp_all add: is_opaque_construct_def is_scope_node_def u_def)
  have tree: "parse_tree True (\<lambda>s t. Some sample_tree) (u ''ls -l'') default_bash_limits = Inr sample_tree"
    by (simp add: parse_tree_def default_bash_limits_def MAX_BASH_SOURCE_BYTES_def MAX_BASH_CST_NODES_def
        MAX_BASH_DEPTH_def MAX_BASH_PARSE_MILLIS_def sample_tree_def u_def byte_len_def len_utf8_def)
  have "opaque (analyze_tree (u ''ls -l'') sample_tree (sample_lower (u ''ls -l'') sample_tree)) = False"
    and "map scope_source (scopes (analyze_tree (u ''ls -l'') sample_tree (sample_lower (u ''ls -l'') sample_tree))) = [u ''ls -l'']"
    and "map normalized (scopes (analyze_tree (u ''ls -l'') sample_tree (sample_lower (u ''ls -l'') sample_tree))) = [u ''ls -l'']"
    by (simp_all add: analyze_tree_def sample_tree_def sample_lower_def is_complete_def commands_def
        named_children_def visit_scope_def kinds sample_scope Let_def)
  then obtain s where "scopes (analyze_tree (u ''ls -l'') sample_tree (sample_lower (u ''ls -l'') sample_tree)) = [s]"
    "scope_source s = u ''ls -l''" "opaque (analyze_tree (u ''ls -l'') sample_tree (sample_lower (u ''ls -l'') sample_tree)) = False"
    by auto
  moreover have "scope_matches (u ''ls *'') s" if "scope_source s = u ''ls -l''" for s
    using that by (simp add: scope_matches_def matches_text_def text_defs)
  ultimately have "authorize_analysis sample_policy (analyze_tree (u ''ls -l'') sample_tree (sample_lower (u ''ls -l'') sample_tree)) = Inr ()"
    by (simp add: authorize_ok denied_by_def allowed_by_def sample_policy_def restricted_def)
  then show ?thesis by (simp add: prepare_def tree Let_def)
qed

theorem prepare_covers_commands_witness:
  "\<exists>a r tree. prepare True (\<lambda>s t. Some sample_tree) sample_lower sample_policy (u ''ls -l'') = (a, r, None) \<and>
     parse_tree True (\<lambda>s t. Some sample_tree) (u ''ls -l'') default_bash_limits = Inr tree \<and> scopes a \<noteq> []"
proof -
  obtain a r where p: "prepare True (\<lambda>s t. Some sample_tree) sample_lower sample_policy (u ''ls -l'') = (a, r, None)"
    using sample_prepare by blast
  show ?thesis
    using prepare_covers_commands [OF p] p by (auto simp: sample_policy_def restricted_def)
qed

theorem authorize_exact_witness:
  "authorize_analysis (yolo_policy\<lparr>deny := [u ''rm *'']\<rparr>) \<lparr>scopes = [], opaque = True\<rparr> = Inl Opaque"
  using authorize_exact [of "yolo_policy\<lparr>deny := [u ''rm *'']\<rparr>" "\<lparr>scopes = [], opaque = True\<rparr>"]
  by (simp add: authorize_analysis_def yolo_policy_def restricted_def)

end
