(* ===== verification/Output_Pipeline.thy ===== *)
theory Output_Pipeline
  imports Output_Escape
begin

text \<open>
  The declarative output filters (\<open>crates/output-filter/src/compile.rs\<close> and \<open>pipeline.rs\<close>):
  compiling the built-in corpus, finding the rule of a command, and the ordered stages a rule
  applies to captured output. The regular expression engine is outside the program: a compiled
  pattern is a value of the type parameter, \<open>build\<close> compiles one, \<open>is_match\<close> and \<open>replace_all\<close> run it.
\<close>

section \<open>The corpus\<close>

record MatchOutputRule =
  mo_pattern :: ustr
  mo_message :: ustr
  mo_unless :: "ustr option"

record RuleDocument =
  doc_match_command :: ustr
  doc_strip_ansi :: bool
  doc_filter_stderr :: bool
  doc_replace :: "(ustr \<times> ustr) list"
  doc_match_output :: "MatchOutputRule list"
  doc_strip_lines_matching :: "ustr list"
  doc_keep_lines_matching :: "ustr list"
  doc_truncate_lines_at :: "nat option"
  doc_head_lines :: "nat option"
  doc_tail_lines :: "nat option"
  doc_max_lines :: "nat option"
  doc_on_empty :: "ustr option"

record 'r CompiledMatchOutput =
  cm_pattern :: 'r
  cm_message :: ustr
  cm_unless :: "'r option"

record 'r Rule =
  rule_name :: ustr
  match_command :: 'r
  rule_strip_ansi :: bool
  filter_stderr :: bool
  replace :: "('r \<times> ustr) list"
  match_output :: "'r CompiledMatchOutput list"
  strip_lines_matching :: "'r list"
  keep_lines_matching :: "'r list"
  truncate_lines_at :: "nat option"
  head_lines :: "nat option"
  tail_lines :: "nat option"
  max_lines :: "nat option"
  on_empty :: "ustr option"

definition MAX_RULES :: nat where "MAX_RULES = 256"
definition MAX_PATTERNS_PER_RULE :: nat where "MAX_PATTERNS_PER_RULE = 64"
definition MAX_RULE_PATTERN_BYTES :: nat where "MAX_RULE_PATTERN_BYTES = 512"

datatype CorpusError =
  TooManyRules nat | TooManyPatterns ustr nat | ConflictingSelectors ustr | OversizedPattern ustr nat |
  InvalidPattern ustr

definition compile_pattern :: "(ustr \<Rightarrow> 'r option) \<Rightarrow> ustr \<Rightarrow> ustr \<Rightarrow> CorpusError + 'r" where
  "compile_pattern build rule pattern =
     (if byte_len pattern > MAX_RULE_PATTERN_BYTES then Inl (OversizedPattern rule (byte_len pattern))
      else case build pattern of None \<Rightarrow> Inl (InvalidPattern rule) | Some r \<Rightarrow> Inr r)"

fun compile_all :: "('a \<Rightarrow> 'e + 'b) \<Rightarrow> 'a list \<Rightarrow> 'e + 'b list" where
  "compile_all f [] = Inr []"
| "compile_all f (x # xs) =
     (case f x of Inl e \<Rightarrow> Inl e | Inr y \<Rightarrow> (case compile_all f xs of Inl e \<Rightarrow> Inl e | Inr ys \<Rightarrow> Inr (y # ys)))"

definition compile_match_output ::
  "(ustr \<Rightarrow> CorpusError + 'r) \<Rightarrow> MatchOutputRule \<Rightarrow> CorpusError + 'r CompiledMatchOutput" where
  "compile_match_output one e =
     (case one (mo_pattern e) of
        Inl err \<Rightarrow> Inl err
      | Inr p \<Rightarrow>
          (case mo_unless e of
             None \<Rightarrow> Inr \<lparr>cm_pattern = p, cm_message = mo_message e, cm_unless = None\<rparr>
           | Some q \<Rightarrow>
               (case one q of
                  Inl err \<Rightarrow> Inl err
                | Inr q' \<Rightarrow> Inr \<lparr>cm_pattern = p, cm_message = mo_message e, cm_unless = Some q'\<rparr>)))"

definition pattern_count :: "RuleDocument \<Rightarrow> nat" where
  "pattern_count d =
     length (doc_replace d) + length (doc_match_output d) * 2 + length (doc_strip_lines_matching d) +
     length (doc_keep_lines_matching d) + 1"

definition compile_rule :: "(ustr \<Rightarrow> 'r option) \<Rightarrow> ustr \<times> RuleDocument \<Rightarrow> CorpusError + 'r Rule" where
  "compile_rule build nd =
     (let (name, d) = nd; one = compile_pattern build name
      in if pattern_count d > MAX_PATTERNS_PER_RULE then Inl (TooManyPatterns name (pattern_count d))
         else if doc_strip_lines_matching d \<noteq> [] \<and> doc_keep_lines_matching d \<noteq> [] then Inl (ConflictingSelectors name)
         else case compile_all (compile_match_output one) (doc_match_output d) of
           Inl e \<Rightarrow> Inl e
         | Inr mo \<Rightarrow>
         (case compile_all (\<lambda>(p, t). map_sum id (\<lambda>r. (r, t)) (one p)) (doc_replace d) of
           Inl e \<Rightarrow> Inl e
         | Inr re \<Rightarrow>
         (case one (doc_match_command d) of
           Inl e \<Rightarrow> Inl e
         | Inr mc \<Rightarrow>
         (case compile_all one (doc_strip_lines_matching d) of
           Inl e \<Rightarrow> Inl e
         | Inr sl \<Rightarrow>
         (case compile_all one (doc_keep_lines_matching d) of
           Inl e \<Rightarrow> Inl e
         | Inr kl \<Rightarrow>
             Inr \<lparr>rule_name = name, match_command = mc, rule_strip_ansi = doc_strip_ansi d,
                  filter_stderr = doc_filter_stderr d, replace = re, match_output = mo, strip_lines_matching = sl,
                  keep_lines_matching = kl, truncate_lines_at = doc_truncate_lines_at d,
                  head_lines = doc_head_lines d, tail_lines = doc_tail_lines d, max_lines = doc_max_lines d,
                  on_empty = doc_on_empty d\<rparr>)))))"

text \<open>\<open>compile\<close> on the decoded corpus, whose filters are a map in the order of their names.\<close>

definition compile_corpus ::
  "(ustr \<Rightarrow> 'r option) \<Rightarrow> (ustr \<times> RuleDocument) list \<Rightarrow> CorpusError + 'r Rule list" where
  "compile_corpus build filters =
     (if length filters > MAX_RULES then Inl (TooManyRules (length filters))
      else compile_all (compile_rule build) filters)"

definition find_rule :: "('r \<Rightarrow> ustr \<Rightarrow> bool) \<Rightarrow> 'r Rule list \<Rightarrow> ustr \<Rightarrow> 'r Rule option" where
  "find_rule is_match rules normalized = List.find (\<lambda>r. is_match (match_command r) normalized) rules"

section \<open>The stages\<close>

definition MAX_INPUT_BYTES :: nat where "MAX_INPUT_BYTES = 1048576"
definition MAX_INPUT_LINES :: nat where "MAX_INPUT_LINES = 100000"

record Filtered =
  filtered_text :: ustr
  lossy :: bool
  consumed_stderr :: bool

text \<open>The longest suffix of at most so many bytes that starts at a character boundary.\<close>

fun suffix_within :: "nat \<Rightarrow> ustr \<Rightarrow> ustr" where
  "suffix_within n [] = []"
| "suffix_within n (c # cs) = (if byte_len (c # cs) \<le> n then c # cs else suffix_within n cs)"

definition bound_input :: "ustr \<Rightarrow> ustr \<times> bool" where
  "bound_input source =
     (let (bounded, trimmed) =
            (if byte_len source > MAX_INPUT_BYTES then (suffix_within MAX_INPUT_BYTES source, True) else (source, False));
          line_count = length (str_lines bounded)
      in if line_count > MAX_INPUT_LINES
         then (join [NL] (drop (line_count - MAX_INPUT_LINES) (str_lines bounded)), True)
         else (bounded, trimmed))"

definition truncate_chars :: "ustr \<Rightarrow> nat \<Rightarrow> ustr" where
  "truncate_chars line limit =
     (if length line \<le> limit then line
      else if limit < 3 then u ''...''
      else take (limit - 3) line @ u ''...'')"

definition omitted :: "nat \<Rightarrow> ustr" where
  "omitted n = u ''... ('' @ dec n @ u '' lines omitted)''"

definition truncated :: "nat \<Rightarrow> ustr" where
  "truncated n = u ''... ('' @ dec n @ u '' lines truncated)''"

definition rule_source :: "'r Rule \<Rightarrow> ustr \<Rightarrow> ustr \<Rightarrow> ustr" where
  "rule_source rule out err =
     (if filter_stderr rule \<and> err \<noteq> [] then (if out = [] then err else out @ NL # err) else out)"

definition rewrite_line :: "('r \<Rightarrow> ustr \<Rightarrow> ustr \<Rightarrow> ustr) \<Rightarrow> 'r Rule \<Rightarrow> ustr \<Rightarrow> ustr" where
  "rewrite_line replace_all rule line =
     foldl (\<lambda>l (p, t). replace_all p t l)
       (if rule_strip_ansi rule then fst (strip_escape_sequences line) else line) (replace rule)"

definition short_circuit :: "('r \<Rightarrow> ustr \<Rightarrow> bool) \<Rightarrow> 'r Rule \<Rightarrow> ustr list \<Rightarrow> ustr option" where
  "short_circuit is_match rule lines =
     (let blob = join [NL] lines
      in map_option cm_message (List.find (\<lambda>m. is_match (cm_pattern m) blob \<and>
           \<not> (case cm_unless m of None \<Rightarrow> False | Some re \<Rightarrow> is_match re blob)) (match_output rule)))"

definition select_lines :: "('r \<Rightarrow> ustr \<Rightarrow> bool) \<Rightarrow> 'r Rule \<Rightarrow> ustr list \<Rightarrow> ustr list" where
  "select_lines is_match rule lines =
     (if strip_lines_matching rule \<noteq> []
      then filter (\<lambda>l. \<not> list_ex (\<lambda>re. is_match re l) (strip_lines_matching rule)) lines
      else if keep_lines_matching rule \<noteq> []
      then filter (\<lambda>l. list_ex (\<lambda>re. is_match re l) (keep_lines_matching rule)) lines
      else lines)"

definition truncate_stage :: "'r Rule \<Rightarrow> ustr list \<Rightarrow> ustr list" where
  "truncate_stage rule lines =
     (case truncate_lines_at rule of None \<Rightarrow> lines | Some limit \<Rightarrow> map (\<lambda>l. truncate_chars l limit) lines)"

definition window_stage :: "'r Rule \<Rightarrow> ustr list \<Rightarrow> ustr list \<times> bool" where
  "window_stage rule lines =
     (let total = length lines
      in case (head_lines rule, tail_lines rule) of
           (Some head, Some tail) \<Rightarrow>
             if total > head + tail
             then (take head lines @ omitted (total - head - tail) # drop (total - tail) lines, True)
             else (lines, False)
         | (Some head, None) \<Rightarrow>
             if total > head then (take head lines @ [omitted (total - head)], True) else (lines, False)
         | (None, Some tail) \<Rightarrow>
             if total > tail then (omitted (total - tail) # drop (total - tail) lines, True) else (lines, False)
         | (None, None) \<Rightarrow> (lines, False))"

definition cap_stage :: "'r Rule \<Rightarrow> bool \<Rightarrow> ustr list \<Rightarrow> ustr list \<times> bool" where
  "cap_stage rule succeeded lines =
     (case max_lines rule of
        None \<Rightarrow> (lines, False)
      | Some m \<Rightarrow>
          if length lines > m
          then let dropped = length lines - m
               in if succeeded then (take m lines @ [truncated dropped], True)
                  else let head = m div 2
                       in (take head lines @ omitted dropped # drop (head + dropped) lines, True)
          else (lines, False))"

definition apply_rule ::
  "('r \<Rightarrow> ustr \<Rightarrow> bool) \<Rightarrow> ('r \<Rightarrow> ustr \<Rightarrow> ustr \<Rightarrow> ustr) \<Rightarrow> 'r Rule \<Rightarrow> ustr \<Rightarrow> ustr \<Rightarrow> int option \<Rightarrow> Filtered" where
  "apply_rule is_match replace_all rule out err exit_code =
     (let succeeded = (exit_code = Some 0);
          (source, bounded) = bound_input (rule_source rule out err);
          lines = map (rewrite_line replace_all rule) (str_lines source)
      in case (if succeeded then short_circuit is_match rule lines else None) of
           Some message \<Rightarrow> \<lparr>filtered_text = message, lossy = True, consumed_stderr = filter_stderr rule\<rparr>
         | None \<Rightarrow>
             let selected = select_lines is_match rule lines;
                 shortened = truncate_stage rule selected;
                 (windowed, cut) = window_stage rule shortened;
                 (capped, cut') = cap_stage rule succeeded windowed;
                 text = join [NL] capped
             in case (if succeeded \<and> trim text = [] then on_empty rule else None) of
                  Some message \<Rightarrow> \<lparr>filtered_text = message, lossy = True, consumed_stderr = filter_stderr rule\<rparr>
                | None \<Rightarrow>
                    \<lparr>filtered_text = text,
                     lossy = (bounded \<or> length selected \<noteq> length lines \<or> shortened \<noteq> selected \<or> cut \<or> cut'),
                     consumed_stderr = filter_stderr rule\<rparr>)"

section \<open>A failure is shown by its own lines\<close>

definition marker :: "ustr \<Rightarrow> bool" where
  "marker l \<longleftrightarrow> (\<exists>n. l = omitted n \<or> l = truncated n)"

definition shortened_line :: "'r Rule \<Rightarrow> ustr \<Rightarrow> ustr" where
  "shortened_line rule l = (case truncate_lines_at rule of None \<Rightarrow> l | Some limit \<Rightarrow> truncate_chars l limit)"

definition bounded_lines :: "('r \<Rightarrow> ustr \<Rightarrow> ustr \<Rightarrow> ustr) \<Rightarrow> 'r Rule \<Rightarrow> ustr \<Rightarrow> ustr \<Rightarrow> ustr list" where
  "bounded_lines replace_all rule out err =
     map (rewrite_line replace_all rule) (str_lines (fst (bound_input (rule_source rule out err))))"

text \<open>The lines of a rendering that shows output rather than a message.\<close>

definition shown_lines ::
  "('r \<Rightarrow> ustr \<Rightarrow> bool) \<Rightarrow> ('r \<Rightarrow> ustr \<Rightarrow> ustr \<Rightarrow> ustr) \<Rightarrow> 'r Rule \<Rightarrow> ustr \<Rightarrow> ustr \<Rightarrow> bool \<Rightarrow> ustr list" where
  "shown_lines is_match replace_all rule out err succeeded =
     fst (cap_stage rule succeeded (fst (window_stage rule
       (truncate_stage rule (select_lines is_match rule (bounded_lines replace_all rule out err))))))"

lemma truncate_stage_map: "truncate_stage rule lines = map (shortened_line rule) lines"
  by (cases "truncate_lines_at rule") (simp_all add: truncate_stage_def shortened_line_def [abs_def])

lemma select_lines_set: "set (select_lines is_match rule lines) \<subseteq> set lines"
  by (auto simp: select_lines_def)

lemma window_stage_set:
  assumes "window_stage rule lines = (ls, ct)" "l \<in> set ls"
  shows "l \<in> set lines \<or> marker l"
  using assms
  by (fastforce simp: window_stage_def Let_def marker_def dest: in_set_takeD in_set_dropD
      split: option.splits if_splits)

lemma cap_stage_set:
  assumes "cap_stage rule b lines = (ls, ct)" "l \<in> set ls"
  shows "l \<in> set lines \<or> marker l"
  using assms
  by (fastforce simp: cap_stage_def Let_def marker_def dest: in_set_takeD in_set_dropD split: option.splits if_splits)

lemma apply_rule_lines:
  assumes "exit_code \<noteq> Some 0"
  shows "filtered_text (apply_rule is_match replace_all rule out err exit_code) =
           join [NL] (shown_lines is_match replace_all rule out err False)"
  using assms by (simp add: apply_rule_def shown_lines_def bounded_lines_def Let_def split: prod.splits)

lemma shown_lines_set:
  assumes "l \<in> set (shown_lines is_match replace_all rule out err b)"
  shows "marker l \<or> (\<exists>k\<in>set (bounded_lines replace_all rule out err). l = shortened_line rule k)"
proof -
  let ?t = "truncate_stage rule (select_lines is_match rule (bounded_lines replace_all rule out err))"
  have "l \<in> set (fst (window_stage rule ?t)) \<or> marker l"
    using cap_stage_set [OF prod.collapse [symmetric]] assms unfolding shown_lines_def by blast
  then have "l \<in> set ?t \<or> marker l" using window_stage_set [OF prod.collapse [symmetric]] by blast
  then show ?thesis using select_lines_set unfolding truncate_stage_map by fastforce
qed

text \<open>
  A command that did not exit with zero, killed ones included, is never shown a message in
  place of its output: what a rule renders for it is lines, each of which is a line the command
  wrote, rewritten and shortened as the rule says, or one that counts omitted lines.
\<close>

theorem failure_not_replaced:
  assumes "exit_code \<noteq> Some 0"
  shows "\<exists>ls. filtered_text (apply_rule is_match replace_all rule out err exit_code) = join [NL] ls \<and>
           (\<forall>l\<in>set ls. marker l \<or> (\<exists>k\<in>set (bounded_lines replace_all rule out err). l = shortened_line rule k))"
  using apply_rule_lines [OF assms] shown_lines_set by blast

section \<open>What is not lossy is complete\<close>

lemma select_lines_same: "length (select_lines is_match rule lines) = length lines \<Longrightarrow> select_lines is_match rule lines = lines"
proof -
  assume "length (select_lines is_match rule lines) = length lines"
  moreover have "length (filter P lines) = length lines \<Longrightarrow> filter P lines = lines" for P :: "ustr \<Rightarrow> bool"
    using length_filter_conv_card by (metis filter_True filter_id_conv length_filter_less less_irrefl)
  ultimately show "select_lines is_match rule lines = lines" unfolding select_lines_def by (simp split: if_splits)
qed

lemma window_stage_same: "window_stage rule lines = (ls, False) \<Longrightarrow> ls = lines"
  by (auto simp: window_stage_def Let_def split: option.splits if_splits)

lemma cap_stage_same: "cap_stage rule b lines = (ls, False) \<Longrightarrow> ls = lines"
  by (auto simp: cap_stage_def Let_def split: option.splits if_splits)

lemma bound_input_same: "bound_input s = (t, False) \<Longrightarrow> t = s"
  by (auto simp: bound_input_def Let_def split: if_splits)

text \<open>
  A rendering that is not reported as lossy is the whole output: every line of it, in order,
  rewritten by the rule's substitutions and nothing else, so that discarding such a rendering and
  showing the capture instead loses nothing.
\<close>

theorem not_lossy_complete:
  assumes "\<not> lossy (apply_rule is_match replace_all rule out err exit_code)"
  shows "filtered_text (apply_rule is_match replace_all rule out err exit_code) =
           join [NL] (map (rewrite_line replace_all rule) (str_lines (rule_source rule out err)))"
proof -
  obtain source b where b: "bound_input (rule_source rule out err) = (source, b)" by fastforce
  define lines where "lines = map (rewrite_line replace_all rule) (str_lines source)"
  define sel where "sel = select_lines is_match rule lines"
  obtain w c where w: "window_stage rule (truncate_stage rule sel) = (w, c)" by fastforce
  obtain p c' where p: "cap_stage rule (exit_code = Some 0) w = (p, c')" by fastforce
  have e: "apply_rule is_match replace_all rule out err exit_code =
      (case (if exit_code = Some 0 then short_circuit is_match rule lines else None) of
         Some message \<Rightarrow> \<lparr>filtered_text = message, lossy = True, consumed_stderr = filter_stderr rule\<rparr>
       | None \<Rightarrow>
           (case (if exit_code = Some 0 \<and> trim (join [NL] p) = [] then on_empty rule else None) of
              Some message \<Rightarrow> \<lparr>filtered_text = message, lossy = True, consumed_stderr = filter_stderr rule\<rparr>
            | None \<Rightarrow>
                \<lparr>filtered_text = join [NL] p,
                 lossy = (b \<or> length sel \<noteq> length lines \<or> truncate_stage rule sel \<noteq> sel \<or> c \<or> c'),
                 consumed_stderr = filter_stderr rule\<rparr>))"
    by (simp only: apply_rule_def Let_def b prod.case lines_def [symmetric] sel_def [symmetric] w p)
  then have r: "apply_rule is_match replace_all rule out err exit_code =
      \<lparr>filtered_text = join [NL] p,
       lossy = (b \<or> length sel \<noteq> length lines \<or> truncate_stage rule sel \<noteq> sel \<or> c \<or> c'),
       consumed_stderr = filter_stderr rule\<rparr>"
    using assms by (auto split: option.splits)
  then have n: "\<not> b" "length sel = length lines" "truncate_stage rule sel = sel" "\<not> c" "\<not> c'" using assms by auto
  have "sel = lines" using n(2) select_lines_same unfolding sel_def by blast
  moreover have "w = sel" using window_stage_same [of rule sel w] w n(3,4) by simp
  moreover have "p = w" using cap_stage_same [of rule "exit_code = Some 0" w p] p n(5) by simp
  moreover have "source = rule_source rule out err" using bound_input_same [of _ source] b n(1) by simp
  ultimately show ?thesis by (simp add: r lines_def)
qed

section \<open>The cap\<close>

lemma cap_stage_length: "max_lines rule = Some m \<Longrightarrow> length (fst (cap_stage rule b lines)) \<le> m + 1"
  by (auto simp: cap_stage_def Let_def)

text \<open>
  A capped rule bounds what it shows, one line more for the marker, and a failure keeps both
  its ends: its first lines and its last ones, together as many as the cap allows, around one
  marker that counts what lies between.
\<close>

theorem failure_cap_keeps_ends:
  fixes is_match :: "'r \<Rightarrow> ustr \<Rightarrow> bool"
  assumes "exit_code \<noteq> Some 0" "max_lines rule = Some m"
    "ls = fst (window_stage rule (truncate_stage rule (select_lines is_match rule (bounded_lines replace_all rule out err))))"
  shows "filtered_text (apply_rule is_match replace_all rule out err exit_code) =
           join [NL] (if length ls \<le> m then ls
                      else take (m div 2) ls @ [omitted (length ls - m)] @ drop (length ls - (m - m div 2)) ls)"
proof -
  have d: "m div 2 + (length ls - m) = length ls - (m - m div 2)" if "m < length ls" using that by simp
  show ?thesis
    unfolding apply_rule_lines [OF assms(1)] shown_lines_def assms(3) [symmetric]
    using assms(2) d by (auto simp: cap_stage_def Let_def not_le)
qed

section \<open>Compiled rules\<close>

lemma compile_all_Inr: "compile_all f xs = Inr ys \<Longrightarrow> list_all2 (\<lambda>x y. f x = Inr y) xs ys"
  by (induction xs arbitrary: ys) (auto split: sum.splits)

lemma compile_rule_Inr:
  assumes "compile_rule build (name, d) = Inr r"
  shows "rule_name r = name \<and> pattern_count d \<le> MAX_PATTERNS_PER_RULE \<and>
         (strip_lines_matching r = [] \<or> keep_lines_matching r = []) \<and>
         build (doc_match_command d) = Some (match_command r)"
  using assms
  by (auto simp: compile_rule_def Let_def compile_pattern_def dest!: compile_all_Inr split: if_splits sum.splits option.splits)

text \<open>
  The corpus is compiled as a whole or not at all: a rule per filter, in order, each within
  its bounds and without conflicting line selectors; and the rule found for a command is the first
  one whose pattern accepts it.
\<close>

theorem compile_corpus_ok:
  assumes "compile_corpus build filters = Inr rules"
  shows "map rule_name rules = map fst filters \<and> length rules \<le> MAX_RULES \<and>
         (\<forall>r\<in>set rules. strip_lines_matching r = [] \<or> keep_lines_matching r = []) \<and>
         (find_rule is_match rules cmd = Some r \<longrightarrow>
            (\<exists>i<length rules. r = rules ! i \<and> is_match (match_command r) cmd \<and>
               (\<forall>j<i. \<not> is_match (match_command (rules ! j)) cmd)))"
proof -
  have all: "list_all2 (\<lambda>nd r. compile_rule build nd = Inr r) filters rules"
    using assms compile_all_Inr by (auto simp: compile_corpus_def split: if_splits)
  have len: "length filters \<le> MAX_RULES" using assms by (auto simp: compile_corpus_def split: if_splits)
  have r: "rule_name (rules ! i) = fst (filters ! i) \<and>
      (strip_lines_matching (rules ! i) = [] \<or> keep_lines_matching (rules ! i) = [])" if "i < length rules" for i
    using compile_rule_Inr [of build "fst (filters ! i)" "snd (filters ! i)"] all that by (simp add: list_all2_conv_all_nth)
  have eq: "length filters = length rules" using all by (rule list_all2_lengthD)
  have "map rule_name rules = map fst filters" using r eq by (auto intro: nth_equalityI)
  moreover have "\<forall>r\<in>set rules. strip_lines_matching r = [] \<or> keep_lines_matching r = []"
  proof
    fix r' assume "r' \<in> set rules"
    then obtain i where "i < length rules" "r' = rules ! i" unfolding in_set_conv_nth by blast
    then show "strip_lines_matching r' = [] \<or> keep_lines_matching r' = []" using r by blast
  qed
  moreover have "\<exists>i<length rules. r = rules ! i \<and> is_match (match_command r) cmd \<and>
      (\<forall>j<i. \<not> is_match (match_command (rules ! j)) cmd)" if "find_rule is_match rules cmd = Some r"
    using that by (auto simp: find_rule_def find_Some_iff)
  ultimately show ?thesis using len eq by simp
qed

section \<open>Examples\<close>

text \<open>A pattern engine that looks for a literal text.\<close>

definition literal_match :: "ustr \<Rightarrow> ustr \<Rightarrow> bool" where
  "literal_match p s \<longleftrightarrow> find_sub p s \<noteq> None"

definition literal_replace :: "ustr \<Rightarrow> ustr \<Rightarrow> ustr \<Rightarrow> ustr" where
  "literal_replace p t s = str_replace s p t"

definition sample_rule :: "ustr Rule" where
  "sample_rule = \<lparr>rule_name = u ''demo'', match_command = u ''demo'', rule_strip_ansi = False, filter_stderr = False,
     replace = [], match_output = [\<lparr>cm_pattern = u ''done'', cm_message = u ''ok'', cm_unless = None\<rparr>],
     strip_lines_matching = [u ''#''], keep_lines_matching = [], truncate_lines_at = Some 4, head_lines = None,
     tail_lines = None, max_lines = Some 2, on_empty = Some (u ''nothing'')\<rparr>"

theorem failure_not_replaced_witness:
  "\<exists>ls. filtered_text (apply_rule literal_match literal_replace sample_rule (u ''done'') [] (Some 1)) = join [NL] ls \<and>
     (\<forall>l\<in>set ls. marker l \<or>
        (\<exists>k\<in>set (bounded_lines literal_replace sample_rule (u ''done'') []). l = shortened_line sample_rule k))"
  by (rule failure_not_replaced) simp

theorem not_lossy_complete_witness:
  "filtered_text (apply_rule literal_match literal_replace sample_rule (u ''a'' @ [10]) [] (Some 1)) = u ''a''"
proof -
  have b: "bound_input (u ''a'' @ [10]) = (u ''a'' @ [10], False)" and l: "str_lines (u ''a'' @ [10]) = [u ''a'']"
    by (simp_all add: bound_input_def str_lines_def strip_cr_def strip_suffix_def ends_with_def split_on_def u_def byte_len_def
        len_utf8_def Let_def MAX_INPUT_BYTES_def MAX_INPUT_LINES_def)
  have "\<not> lossy (apply_rule literal_match literal_replace sample_rule (u ''a'' @ [10]) [] (Some 1))"
    by (simp add: apply_rule_def sample_rule_def rule_source_def b l rewrite_line_def select_lines_def literal_match_def
        truncate_stage_def truncate_chars_def window_stage_def cap_stage_def Let_def) (simp add: u_def starts_with_def)
  from not_lossy_complete [OF this] show ?thesis
    by (simp add: sample_rule_def rule_source_def l rewrite_line_def)
qed

theorem failure_cap_keeps_ends_witness:
  "filtered_text (apply_rule literal_match literal_replace sample_rule
     (u ''a'' @ NL # u ''b'' @ NL # u ''c'' @ NL # u ''d'') [] None) = join [NL] [u ''a'', omitted 2, u ''d'']"
proof -
  let ?out = "u ''a'' @ NL # u ''b'' @ NL # u ''c'' @ NL # u ''d''"
  have b: "bound_input ?out = (?out, False)" and l: "str_lines ?out = [u ''a'', u ''b'', u ''c'', u ''d'']"
    by (simp_all add: bound_input_def str_lines_def strip_cr_def strip_suffix_def ends_with_def split_on_def u_def byte_len_def
        len_utf8_def Let_def MAX_INPUT_BYTES_def MAX_INPUT_LINES_def)
  have "[u ''a'', u ''b'', u ''c'', u ''d''] = fst (window_stage sample_rule (truncate_stage sample_rule
      (select_lines literal_match sample_rule (bounded_lines literal_replace sample_rule ?out []))))"
    by (simp add: sample_rule_def bounded_lines_def rule_source_def b l rewrite_line_def select_lines_def literal_match_def
        truncate_stage_def truncate_chars_def window_stage_def Let_def) (simp add: u_def starts_with_def)
  from failure_cap_keeps_ends [OF _ _ this, of None 2] show ?thesis
    by (simp add: sample_rule_def numeral_2_eq_2)
qed

definition sample_document :: RuleDocument where
  "sample_document = \<lparr>doc_match_command = u ''demo'', doc_strip_ansi = True, doc_filter_stderr = False, doc_replace = [],
     doc_match_output = [], doc_strip_lines_matching = [u ''#''], doc_keep_lines_matching = [],
     doc_truncate_lines_at = None, doc_head_lines = None, doc_tail_lines = None, doc_max_lines = None, doc_on_empty = None\<rparr>"

theorem compile_corpus_ok_witness:
  "\<exists>rules. compile_corpus Some [(u ''demo'', sample_document)] = Inr rules \<and> map rule_name rules = [u ''demo'']"
proof -
  obtain rules where c: "compile_corpus Some [(u ''demo'', sample_document)] = Inr rules"
    by (simp add: compile_corpus_def MAX_RULES_def compile_rule_def sample_document_def pattern_count_def
        MAX_PATTERNS_PER_RULE_def compile_pattern_def MAX_RULE_PATTERN_BYTES_def u_def byte_len_def len_utf8_def Let_def)
  then show ?thesis using compile_corpus_ok [OF c] by simp
qed

end
