(* ===== verification/Output_Progress.thy ===== *)
theory Output_Progress
  imports Prelude "HOL-Library.Sublist"
begin

text \<open>
  Collapsing progress frames that arrive as lines (\<open>crates/output-filter/src/progress.rs\<close>). The five
  regular expressions are parameters, one predicate each; everything else is modelled.
\<close>

section \<open>Lines\<close>

record ProgressPatterns =
  percent_match :: "ustr \<Rightarrow> bool"
  ratio_match :: "ustr \<Rightarrow> bool"
  rate_match :: "ustr \<Rightarrow> bool"
  timer_match :: "ustr \<Rightarrow> bool"
  eta_match :: "ustr \<Rightarrow> bool"

definition MIN_RUN :: nat where "MIN_RUN = 3"
definition MIN_SIGNALS :: nat where "MIN_SIGNALS = 2"

definition is_bar_glyph :: "uchar \<Rightarrow> bool" where
  "is_bar_glyph c \<longleftrightarrow>
     c = 61 \<or> c = 35 \<or> 0x2588 \<le> c \<and> c \<le> 0x258F \<or> 0x2591 \<le> c \<and> c \<le> 0x2593 \<or>
     c = 0x25A0 \<or> c = 0x25AC \<or> c = 0x25CF \<or> 0x2801 \<le> c \<and> c \<le> 0x28FF \<or> 0x2500 \<le> c \<and> c \<le> 0x257F"

definition is_fill :: "uchar \<Rightarrow> bool" where
  "is_fill c \<longleftrightarrow> is_whitespace c \<or> is_bar_glyph c"

function shape_of :: "ustr \<Rightarrow> ustr" where
  "shape_of [] = []"
| "shape_of (c # cs) =
     (if is_ascii_digit c then 35 # shape_of (dropWhile is_ascii_digit cs)
      else if is_fill c then SPACE # shape_of (dropWhile is_fill cs)
      else c # shape_of cs)"
  by pat_completeness auto
termination
  by (relation "measure length") (auto simp: le_imp_less_Suc length_dropWhile_le)

fun drawn_bar_from :: "nat \<Rightarrow> ustr \<Rightarrow> bool" where
  "drawn_bar_from run [] = False"
| "drawn_bar_from run (c # cs) =
     (if is_bar_glyph c then (if run + 1 \<ge> 3 then True else drawn_bar_from (run + 1) cs) else drawn_bar_from 0 cs)"

definition has_drawn_bar :: "ustr \<Rightarrow> bool" where
  "has_drawn_bar line = drawn_bar_from 0 line"

definition signals :: "ProgressPatterns \<Rightarrow> ustr \<Rightarrow> nat" where
  "signals P line =
     (if \<not> list_ex is_ascii_digit line then 0
      else of_bool (percent_match P line) + of_bool (ratio_match P line) + of_bool (rate_match P line) +
           of_bool (timer_match P line) + of_bool (eta_match P line) + of_bool (has_drawn_bar line))"

section \<open>Numbers\<close>

datatype Role = Percent | Ratio | Denominator | Plain

record Field =
  field_value :: nat
  field_role :: Role

definition u64_cap :: nat where "u64_cap = 2 ^ 64 - 1"

text \<open>The value of a digit run, saturating at every step.\<close>

definition run_value :: "ustr \<Rightarrow> nat" where
  "run_value ds = foldl (\<lambda>v d. min u64_cap (min u64_cap (v * 10) + (d - 48))) 0 ds"

definition skip_spaces :: "ustr \<Rightarrow> ustr" where
  "skip_spaces s = dropWhile (\<lambda>c. c = SPACE) s"

definition role_at :: "ustr \<Rightarrow> ustr \<Rightarrow> Role" where
  "role_at before_rev rest =
     (let after = skip_spaces rest;
          divides = (case after of
                       c # cs \<Rightarrow> c = SLASH \<and> (case skip_spaces cs of d # _ \<Rightarrow> is_ascii_digit d | [] \<Rightarrow> False)
                     | [] \<Rightarrow> False)
      in if (case after of c # _ \<Rightarrow> c = 37 | [] \<Rightarrow> False) then Percent
         else if divides then Ratio
         else if (case skip_spaces before_rev of c # _ \<Rightarrow> c = SLASH | [] \<Rightarrow> False) then Denominator
         else Plain)"

text \<open>The digit runs of a line; the first argument is what precedes, reversed.\<close>

function fields_from :: "ustr \<Rightarrow> ustr \<Rightarrow> Field list" where
  "fields_from before [] = []"
| "fields_from before (c # cs) =
     (if \<not> is_ascii_digit c then fields_from (c # before) cs
      else let ds = c # takeWhile is_ascii_digit cs; rest = dropWhile is_ascii_digit cs
           in \<lparr>field_value = run_value ds, field_role = role_at before rest\<rparr> # fields_from (rev ds @ before) rest)"
  by pat_completeness auto
termination
  by (relation "measure (\<lambda>(_, s). length s)") (auto simp: le_imp_less_Suc length_dropWhile_le)

definition fields :: "ustr \<Rightarrow> Field list" where
  "fields line = fields_from [] line"

definition rising :: "Field list list \<Rightarrow> nat \<Rightarrow> bool" where
  "rising run i \<longleftrightarrow>
     (let column = map (\<lambda>fs. field_value (fs ! i)) run
      in sorted column \<and> column \<noteq> [] \<and> hd column < last column)"

definition constant_at :: "Field list list \<Rightarrow> nat \<Rightarrow> bool" where
  "constant_at run i \<longleftrightarrow> list_all (\<lambda>fs. field_value (fs ! i) = field_value (hd run ! i)) run"

definition advances :: "Field list list \<Rightarrow> bool" where
  "advances run =
     (case run of
        [] \<Rightarrow> False
      | first # _ \<Rightarrow>
          list_all (\<lambda>fs. length fs = length first \<and> map field_role fs = map field_role first) run \<and>
          list_ex (\<lambda>i. case field_role (first ! i) of
              Percent \<Rightarrow> rising run i
            | Ratio \<Rightarrow> rising run i \<and> i + 1 < length first \<and> field_role (first ! (i + 1)) = Denominator \<and> constant_at run (i + 1)
            | _ \<Rightarrow> False) [0..<length first])"

section \<open>Collapsing\<close>

definition eligible :: "ProgressPatterns \<Rightarrow> ustr \<Rightarrow> bool" where
  "eligible P line \<longleftrightarrow> signals P line \<ge> MIN_SIGNALS"

definition collapsed_marker :: "nat \<Rightarrow> ustr" where
  "collapsed_marker n = u ''... ('' @ dec n @ u '' progress updates collapsed)''"

function collapse_lines :: "ProgressPatterns \<Rightarrow> ustr list \<Rightarrow> ustr list \<times> nat" where
  "collapse_lines P [] = ([], 0)"
| "collapse_lines P (l # ls) =
     (if \<not> eligible P l then let (out, n) = collapse_lines P ls in (l # out, n)
      else
        let same = (\<lambda>k. eligible P k \<and> shape_of k = shape_of l);
            run = l # takeWhile same ls;
            (out, n) = collapse_lines P (dropWhile same ls)
        in if length run < MIN_RUN then (run @ out, n)
           else if \<not> advances (map fields run) then (run @ out, n)
           else (collapsed_marker (length run - 1) # last run # out, (length run - 1) + n))"
  by pat_completeness auto
termination
  by (relation "measure (\<lambda>(_, ls). length ls)") (auto simp: le_imp_less_Suc length_dropWhile_le)

declare collapse_lines.simps(2) [simp del]

definition collapse_progress_lines :: "ProgressPatterns \<Rightarrow> ustr \<Rightarrow> ustr \<times> nat" where
  "collapse_progress_lines P text =
     (if text = [] then ([], 0)
      else let (out, removed) = collapse_lines P (str_lines text)
           in if removed = 0 then (text, 0)
              else (join [NL] out @ (if ends_with text [NL] then [NL] else []), removed))"

section \<open>What a collapse may touch\<close>

text \<open>A run of frames: long enough, of one shape, each with two signals, and counting toward something.\<close>

definition frames :: "ProgressPatterns \<Rightarrow> ustr list \<Rightarrow> bool" where
  "frames P run \<longleftrightarrow>
     MIN_RUN \<le> length run \<and> list_all (eligible P) run \<and> (\<forall>a\<in>set run. \<forall>b\<in>set run. shape_of a = shape_of b) \<and>
     advances (map fields run)"

definition render_block :: "bool \<times> ustr list \<Rightarrow> ustr list" where
  "render_block b = (if fst b then [collapsed_marker (length (snd b) - 1), last (snd b)] else snd b)"

definition removed_by :: "bool \<times> ustr list \<Rightarrow> nat" where
  "removed_by b = (if fst b then length (snd b) - 1 else 0)"

lemma block_simps:
  "render_block (True, r) = [collapsed_marker (length r - 1), last r]" "render_block (False, r) = r"
  "removed_by (True, r) = length r - 1" "removed_by (False, r) = 0"
  by (simp_all add: render_block_def removed_by_def)

definition collapse_plan :: "ProgressPatterns \<Rightarrow> ustr list \<Rightarrow> (bool \<times> ustr list) list \<Rightarrow> bool" where
  "collapse_plan P lines blocks \<longleftrightarrow>
     concat (map snd blocks) = lines \<and> (\<forall>b\<in>set blocks. fst b \<longrightarrow> frames P (snd b))"

lemma collapse_lines_plan:
  "\<exists>blocks. collapse_plan P lines blocks \<and>
     collapse_lines P lines = (concat (map render_block blocks), sum_list (map removed_by blocks))"
proof (induction P lines rule: collapse_lines.induct)
  case (1 P)
  show ?case by (rule exI [of _ "[]"]) (simp add: collapse_plan_def)
next
  case (2 P l ls)
  show ?case
  proof (cases "eligible P l")
    case False
    obtain bs where "collapse_plan P ls bs"
      "collapse_lines P ls = (concat (map render_block bs), sum_list (map removed_by bs))"
      using "2.IH"(1) [OF False] by blast
    then show ?thesis
      using False
      by (intro exI [of _ "(False, [l]) # bs"])
        (simp add: collapse_plan_def block_simps collapse_lines.simps(2))
  next
    case True
    define same where "same = (\<lambda>k. eligible P k \<and> shape_of k = shape_of l)"
    define run where "run = l # takeWhile same ls"
    obtain bs where bs: "collapse_plan P (dropWhile same ls) bs"
      "collapse_lines P (dropWhile same ls) = (concat (map render_block bs), sum_list (map removed_by bs))"
      using "2.IH"(2) [of same run] True unfolding same_def run_def by auto
    have eq: "run @ dropWhile same ls = l # ls" by (simp add: run_def)
    have "eligible P k \<and> shape_of k = shape_of l" if "k \<in> set run" for k
      using that True set_takeWhileD [of k same ls] by (auto simp: run_def same_def)
    then have elig: "list_all (eligible P) run" "\<forall>a\<in>set run. \<forall>b\<in>set run. shape_of a = shape_of b"
      by (auto simp: list_all_iff)
    define yes where "yes = (MIN_RUN \<le> length run \<and> advances (map fields run))"
    have "yes \<longrightarrow> frames P run" unfolding frames_def yes_def using elig by blast
    then have "collapse_plan P (l # ls) ((yes, run) # bs)"
      using bs(1) eq unfolding collapse_plan_def by simp
    moreover have "collapse_lines P (l # ls) =
        (concat (map render_block ((yes, run) # bs)), sum_list (map removed_by ((yes, run) # bs)))"
    proof -
      have "collapse_lines P (l # ls) =
          (case collapse_lines P (dropWhile same ls) of (out, n) \<Rightarrow>
             if length run < MIN_RUN then (run @ out, n)
             else if \<not> advances (map fields run) then (run @ out, n)
             else (collapsed_marker (length run - 1) # last run # out, (length run - 1) + n))"
        by (simp only: collapse_lines.simps(2) [of P l ls] Let_def same_def run_def True not_True_eq_False if_False)
      then show ?thesis
        unfolding bs(2) prod.case by (cases yes) (auto simp: yes_def block_simps not_less)
    qed
    ultimately show ?thesis by blast
  qed
qed

text \<open>
  What collapsing does to a text. Its lines are cut into consecutive blocks, and the result
  shows each block as it is, except that a run of three or more frames, of one shape, each with
  two progress signals, whose numbers count toward something, becomes a marker and its last line.
  The count is the number of lines that are gone; when it is zero the text is untouched.
\<close>

theorem collapse_only_frames:
  "\<exists>blocks. collapse_plan P (str_lines text) blocks \<and>
     snd (collapse_progress_lines P text) = sum_list (map removed_by blocks) \<and>
     fst (collapse_progress_lines P text) =
       (if sum_list (map removed_by blocks) = 0 then text
        else join [NL] (concat (map render_block blocks)) @ (if ends_with text [NL] then [NL] else []))"
proof -
  obtain blocks where b: "collapse_plan P (str_lines text) blocks"
    "collapse_lines P (str_lines text) = (concat (map render_block blocks), sum_list (map removed_by blocks))"
    using collapse_lines_plan by blast
  show ?thesis
  proof (cases "text = []")
    case True
    have "str_lines text = []" by (simp add: True str_lines_def split_on_def)
    then have "collapse_lines P (str_lines text) = ([], 0)" by simp
    then have "sum_list (map removed_by blocks) = 0" using b(2) by simp
    then show ?thesis using b(1) True by (intro exI [of _ blocks]) (simp add: collapse_progress_lines_def)
  next
    case False
    then show ?thesis using b by (intro exI [of _ blocks]) (simp add: collapse_progress_lines_def Let_def)
  qed
qed

lemma block_keeps_ordinary:
  assumes "fst b \<longrightarrow> frames P (snd b)"
  shows "subseq (filter (\<lambda>l. \<not> eligible P l) (snd b)) (render_block b)"
proof (cases "fst b")
  case True
  then have "filter (\<lambda>l. \<not> eligible P l) (snd b) = []"
    using assms by (auto simp: frames_def list_all_iff filter_empty_conv)
  then show ?thesis by simp
qed (simp add: render_block_def)

text \<open>
  Ordinary output always survives: every line that does not carry two progress signals is in
  the result, in its place among the others.
\<close>

theorem ordinary_lines_survive:
  "subseq (filter (\<lambda>l. \<not> eligible P l) lines) (fst (collapse_lines P lines))"
proof -
  obtain blocks where b: "collapse_plan P lines blocks" "fst (collapse_lines P lines) = concat (map render_block blocks)"
    using collapse_lines_plan [of P lines] by auto
  have "subseq (filter (\<lambda>l. \<not> eligible P l) (concat (map snd bs))) (concat (map render_block bs))"
    if "\<forall>b\<in>set bs. fst b \<longrightarrow> frames P (snd b)" for bs
    using that
  proof (induction bs)
    case (Cons b bs)
    have "subseq (filter (\<lambda>l. \<not> eligible P l) (snd b)) (render_block b)"
      by (rule block_keeps_ordinary) (use Cons.prems in simp)
    moreover have "subseq (filter (\<lambda>l. \<not> eligible P l) (concat (map snd bs))) (concat (map render_block bs))"
      using Cons by simp
    ultimately show ?case using list_emb_append_mono by simp
  qed simp
  then show ?thesis using b by (auto simp: collapse_plan_def)
qed

text \<open>A run that is collapsed has a number that is larger at its end than at its start.\<close>

lemma frames_advance:
  assumes "frames P run"
  shows "\<exists>i. field_value (fields (hd run) ! i) < field_value (fields (last run) ! i)"
proof -
  have ne: "run \<noteq> []" using assms by (auto simp: frames_def MIN_RUN_def)
  then obtain l ls where run: "run = l # ls" by (cases run) auto
  obtain i where i: "case field_role (fields l ! i) of
      Percent \<Rightarrow> rising (map fields run) i
    | Ratio \<Rightarrow> rising (map fields run) i \<and> i + 1 < length (fields l) \<and>
        field_role (fields l ! (i + 1)) = Denominator \<and> constant_at (map fields run) (i + 1)
    | _ \<Rightarrow> False"
    using assms unfolding frames_def advances_def run list_ex_iff list.map list.case by blast
  then have "rising (map fields run) i" by (cases "field_role (fields l ! i)") simp_all
  then show ?thesis using ne by (auto simp: rising_def Let_def last_map hd_map intro!: exI [of _ i])
qed

section \<open>Line endings\<close>

definition sample_patterns :: ProgressPatterns where
  "sample_patterns = \<lparr>percent_match = (\<lambda>s. 37 \<in> set s), ratio_match = (\<lambda>s. SLASH \<in> set s), rate_match = (\<lambda>_. False),
     timer_match = (\<lambda>_. False), eta_match = (\<lambda>_. False)\<rparr>"

text \<open>
  A text whose lines end in a carriage return and a newline loses the carriage returns of every
  line once anything is collapsed, of lines that are not frames too.
\<close>

lemma crlf_lost:
  "collapse_progress_lines sample_patterns
     (u ''1/9 1%'' @ [13, 10] @ u ''2/9 2%'' @ [13, 10] @ u ''3/9 3%'' @ [13, 10] @ u ''ok'' @ [13, 10]) =
   (collapsed_marker 2 @ [10] @ u ''3/9 3%'' @ [10] @ u ''ok'' @ [10], 2)"
proof -
  let ?f = "\<lambda>n. [48 + n, 47, 57, 32, 48 + n, 37]"
  let ?ok = "[111, 107]"
  have e: "eligible sample_patterns (?f 1)" "eligible sample_patterns (?f 2)" "eligible sample_patterns (?f 3)"
    "\<not> eligible sample_patterns ?ok"
    by (simp_all add: eligible_def signals_def MIN_SIGNALS_def sample_patterns_def is_ascii_digit_def)
  have sh: "shape_of (?f 1) = [35, 47, 35, 32, 35, 37]" "shape_of (?f 2) = [35, 47, 35, 32, 35, 37]"
    "shape_of (?f 3) = [35, 47, 35, 32, 35, 37]"
    by (simp_all add: is_ascii_digit_def is_fill_def is_whitespace_def is_bar_glyph_def)
  have fs: "fields (?f n) = [\<lparr>field_value = n, field_role = Ratio\<rparr>, \<lparr>field_value = 9, field_role = Denominator\<rparr>,
      \<lparr>field_value = n, field_role = Percent\<rparr>]" if "n < 10" for n
    using that
    by (simp add: fields_def is_ascii_digit_def role_at_def skip_spaces_def run_value_def u64_cap_def Let_def)
  have "advances (map fields [?f 1, ?f 2, ?f 3])"
    using fs [of 1] fs [of 2] fs [of 3] by (simp add: advances_def upt_conv_Cons rising_def Let_def)
  then have c: "collapse_lines sample_patterns [?f 1, ?f 2, ?f 3, ?ok] = ([collapsed_marker 2, ?f 3, ?ok], 2)"
    using e sh by (simp add: collapse_lines.simps(2) MIN_RUN_def Let_def numeral_2_eq_2 del: shape_of.simps)
  let ?t = "?f 1 @ [13, 10] @ ?f 2 @ [13, 10] @ ?f 3 @ [13, 10] @ ?ok @ [13, 10]"
  have "split_on NL (join [NL] [?f 1 @ [13], ?f 2 @ [13], ?f 3 @ [13], ?ok @ [13], []]) =
      [?f 1 @ [13], ?f 2 @ [13], ?f 3 @ [13], ?ok @ [13], []]"
    by (rule split_on_join) simp_all
  then have "split_on NL ?t = [?f 1 @ [13], ?f 2 @ [13], ?f 3 @ [13], ?ok @ [13], []]" by simp
  then have l: "str_lines ?t = [?f 1, ?f 2, ?f 3, ?ok]"
    unfolding str_lines_def Let_def by (simp add: strip_cr_def strip_suffix_def ends_with_def)
  have t: "u ''1/9 1%'' = ?f 1" "u ''2/9 2%'' = ?f 2" "u ''3/9 3%'' = ?f 3" "u ''ok'' = ?ok" by (simp_all add: u_def)
  have n: "?t \<noteq> []" "ends_with ?t [NL]" by (simp_all add: ends_with_def)
  show ?thesis
    unfolding t collapse_progress_lines_def l c Let_def prod.case using n by simp
qed

end
