(* ===== verification/Shell_Group.thy ===== *)
theory Shell_Group
  imports Shell_Supervisor Shell_Workdir Shell_Permission Output_Pipeline Output_Progress
begin

text \<open>
  The shell tool (\<open>crates/mcp-shell/src/group.rs\<close> and the request types of \<open>types.rs\<close>): preparing and
  authorizing a request, launching it, and rendering its result. It puts together the policy, the
  working directory, the launcher, the supervisor and the output filters. What the host answers
  is in two records of parameters, one for preparing and one for executing.
\<close>

section \<open>Requests\<close>

record ShellInput =
  in_command :: ustr
  in_timeout_sec :: "nat option"
  in_workdir :: "ustr option"

definition MAX_COMMAND_BYTES :: nat where "MAX_COMMAND_BYTES = MAX_BASH_SOURCE_BYTES"
definition MILLIS_PER_SECOND :: nat where "MILLIS_PER_SECOND = 1000"
definition DEFAULT_TIMEOUT_SECS :: nat where "DEFAULT_TIMEOUT_SECS = 120"
definition MAX_TIMEOUT_SECS :: nat where "MAX_TIMEOUT_SECS = 21600"
definition DEFAULT_TIMEOUT_MS :: nat where "DEFAULT_TIMEOUT_MS = DEFAULT_TIMEOUT_SECS * MILLIS_PER_SECOND"
definition MAX_TIMEOUT_MS :: nat where "MAX_TIMEOUT_MS = MAX_TIMEOUT_SECS * MILLIS_PER_SECOND"

definition timeout_ms :: "ShellInput \<Rightarrow> ustr + nat" where
  "timeout_ms i =
     (case in_timeout_sec i of
        None \<Rightarrow> Inr DEFAULT_TIMEOUT_MS
      | Some requested \<Rightarrow>
          if 1 \<le> requested \<and> requested \<le> MAX_TIMEOUT_SECS then Inr (requested * MILLIS_PER_SECOND)
          else Inl (u ''Invalid arguments: timeoutSec is '' @ dec requested @ u '' seconds; it must be between 1 and '' @
                    dec MAX_TIMEOUT_SECS @ u ''. Omit it for the '' @ dec DEFAULT_TIMEOUT_SECS @ u '' second default''))"

definition direct_timeout_ms :: "nat option \<Rightarrow> ustr + nat" where
  "direct_timeout_ms requested =
     (case requested of
        None \<Rightarrow> Inr DEFAULT_TIMEOUT_MS
      | Some requested \<Rightarrow>
          if 1 \<le> requested \<and> requested \<le> MAX_TIMEOUT_MS then Inr requested
          else Inl (u ''Invalid arguments: timeout is '' @ dec requested @ u '' milliseconds; it must be between 1 and '' @
                    dec MAX_TIMEOUT_MS @ u ''. Omit it for the '' @ dec DEFAULT_TIMEOUT_MS @ u '' millisecond default''))"

definition validate_command :: "ustr \<Rightarrow> ustr + unit" where
  "validate_command command =
     (if trim command = [] then Inl (u ''Invalid arguments: command must not be empty'')
      else if byte_len command > MAX_COMMAND_BYTES
      then Inl (u ''Invalid arguments for tool shell: command is '' @ dec (byte_len command) @
                u '' UTF-8 bytes; maximum is '' @ dec MAX_COMMAND_BYTES @ u ''. Split the operation into smaller shell calls'')
      else Inr ())"

section \<open>Preparing\<close>

record ShellToolGroup =
  group_root :: Path
  group_policy :: ShellPermissionPolicy
  group_confined :: bool
  group_output_filter :: bool
  inherited_environment :: "ustr list"
  group_launcher :: "ShellLauncherError + ShellLauncher"

record PreparedShell =
  prep_command :: ustr
  prep_timeout_ms :: nat
  prep_analysis :: ShellCommandAnalysis
  prep_program :: "BashParseError + BashProgram"
  prep_decision :: "AuthorizationError option"
  prep_workdir :: WorkdirBinding
  prep_output_filter :: bool
  prep_launcher :: "ShellLauncherError + ShellLauncher"

text \<open>What the host and the parser answer while a request is prepared.\<close>

record PrepareWorld =
  pw_canon :: "Path \<Rightarrow> IoErrorKind + Path"
  pw_stat :: "nat \<Rightarrow> Path \<Rightarrow> Metadata option"
  pw_grammar :: bool
  pw_parser :: "ustr \<Rightarrow> nat \<Rightarrow> CstNode option"
  pw_lower :: "ustr \<Rightarrow> CstNode \<Rightarrow> BashProgram"

definition build_group ::
  "(Path \<Rightarrow> IoErrorKind + Path) \<Rightarrow> (Path \<Rightarrow> Metadata option) \<Rightarrow> (ShellLauncherError + ShellLauncher) \<Rightarrow> Path \<Rightarrow>
     ShellPermissionPolicy \<Rightarrow> bool \<Rightarrow> ShellToolGroup option" where
  "build_group canon stat launcher requested policy confine =
     (case canon requested of
        Inl _ \<Rightarrow> None
      | Inr r \<Rightarrow>
          (case stat r of
             None \<Rightarrow> None
           | Some m \<Rightarrow>
               if \<not> md_is_dir m then None
               else Some \<lparr>group_root = r, group_policy = policy, group_confined = confine, group_output_filter = True,
                          inherited_environment = [], group_launcher = launcher\<rparr>))"

definition bind_shell ::
  "PrepareWorld \<Rightarrow> ShellToolGroup \<Rightarrow> ustr \<Rightarrow> nat \<Rightarrow> ustr option \<Rightarrow> ShellPreparationError + PreparedShell" where
  "bind_shell w g command timeout requested =
     (let requested = (case requested of None \<Rightarrow> u ''.'' | Some r \<Rightarrow> r)
      in case (if group_confined g then workdir_resolve (pw_canon w) (pw_stat w) (group_root g) requested
               else workdir_resolve_unconfined (pw_canon w) (pw_stat w) (group_root g) requested) of
           Inl e \<Rightarrow> Inl e
         | Inr wd \<Rightarrow>
             let (analysis, prog, decision) = prepare (pw_grammar w) (pw_parser w) (pw_lower w) (group_policy g) command
             in Inr \<lparr>prep_command = command, prep_timeout_ms = timeout, prep_analysis = analysis, prep_program = prog,
                     prep_decision = decision, prep_workdir = wd, prep_output_filter = group_output_filter g,
                     prep_launcher = group_launcher g\<rparr>)"

definition prepare_shell :: "PrepareWorld \<Rightarrow> ShellToolGroup \<Rightarrow> ShellInput \<Rightarrow> ShellPreparationError + PreparedShell" where
  "prepare_shell w g i =
     (case validate_command (in_command i) of
        Inl e \<Rightarrow> Inl (Invalid e)
      | Inr _ \<Rightarrow>
          (case timeout_ms i of
             Inl e \<Rightarrow> Inl (Invalid e)
           | Inr t \<Rightarrow> bind_shell w g (in_command i) t (in_workdir i)))"

definition authorize_prepared :: "PreparedShell \<Rightarrow> AuthorizationError + unit" where
  "authorize_prepared p = (case prep_decision p of Some e \<Rightarrow> Inl e | None \<Rightarrow> Inr ())"

datatype DirectError = Direct_invalid ustr | Direct_preparation ShellPreparationError | Direct_denied AuthorizationError

definition prepare_direct ::
  "PrepareWorld \<Rightarrow> ShellToolGroup \<Rightarrow> ustr \<Rightarrow> nat option \<Rightarrow> ustr \<Rightarrow> DirectError + PreparedShell" where
  "prepare_direct w g command timeout relative_workdir =
     (case validate_command command of
        Inl e \<Rightarrow> Inl (Direct_invalid e)
      | Inr _ \<Rightarrow>
          (case direct_timeout_ms timeout of
             Inl e \<Rightarrow> Inl (Direct_invalid e)
           | Inr t \<Rightarrow>
               (case bind_shell w g command t (Some relative_workdir) of
                  Inl e \<Rightarrow> Inl (Direct_preparation e)
                | Inr p \<Rightarrow> (case authorize_prepared p of Inl e \<Rightarrow> Inl (Direct_denied e) | Inr _ \<Rightarrow> Inr p))))"

text \<open>The working directories of a prepared command, under what its launcher guarantees.\<close>

datatype BashContextError = UnsupportedLauncher | Parse_error BashParseError | Context_stuck Stuck

definition bash_command_contexts ::
  "nat \<Rightarrow> nat \<Rightarrow> (ustr list \<Rightarrow> nat) \<Rightarrow> PreparedShell \<Rightarrow> BashContextError + BashCommandContexts" where
  "bash_command_contexts fuel base bytes p =
     (case prep_launcher p of
        Inl _ \<Rightarrow> Inl UnsupportedLauncher
      | Inr l \<Rightarrow>
          (case bash_startup_assumptions l of
             None \<Rightarrow> Inl UnsupportedLauncher
           | Some a \<Rightarrow>
               (case prep_program p of
                  Inl e \<Rightarrow> Inl (Parse_error e)
                | Inr prog \<Rightarrow>
                    (case command_contexts_with_assumptions fuel base bytes prog (path_text (wd_canonical (prep_workdir p))) a of
                       Inl e \<Rightarrow> Inl (Context_stuck e)
                     | Inr r \<Rightarrow> Inr r))))"

section \<open>Launching\<close>

text \<open>
  What the host answers while a command is launched: cancellation before the permit, during and
  after the checks, the file system and environment at that moment, and the process started. The
  semaphore of the permit is never closed, so waiting for it ends with the permit or a cancellation.
\<close>

record LaunchWorld =
  lw_cancelled_in_queue :: bool
  lw_cancelled_in_check :: bool
  lw_cancelled_after_check :: bool
  lw_canon :: "Path \<Rightarrow> IoErrorKind + Path"
  lw_stat :: "Path \<Rightarrow> Metadata option"
  lw_env :: "ustr \<Rightarrow> ustr option"

datatype LaunchError = Launcher_error ShellLauncherError | Workdir_error ustr

definition launch ::
  "ShellToolGroup \<Rightarrow> PreparedShell \<Rightarrow> LaunchWorld \<Rightarrow> LaunchError + (Command \<times> Path) option" where
  "launch g p w =
     (case prep_launcher p of
        Inl e \<Rightarrow> Inl (Launcher_error e)
      | Inr l \<Rightarrow>
          if lw_cancelled_in_queue w then Inr None
          else
            let command = platform_command l (prep_command p) (inherited_environment g) (lw_env w)
            in if lw_cancelled_in_check w then Inr None
               else case workdir_revalidate (lw_canon w) (lw_stat w) (prep_workdir p) of
                 Inl e \<Rightarrow> Inl (Workdir_error e)
               | Inr _ \<Rightarrow>
                   (case launcher_revalidate (lw_stat w) l of
                      Inl e \<Rightarrow> Inl (Launcher_error e)
                    | Inr _ \<Rightarrow>
                        if lw_cancelled_after_check w then Inr None
                        else Inr (Some (command, wd_canonical (prep_workdir p)))))"

section \<open>Rendering\<close>

record ShellFilterInfo =
  stages :: "ustr list"
  unfiltered_utf8_bytes :: nat
  filtered_utf8_bytes :: nat

definition bound_rendering :: "ustr \<Rightarrow> ustr" where
  "bound_rendering rendered =
     (if byte_len rendered \<le> FALLBACK_PREVIEW_BYTES then rendered
      else suffix_within FALLBACK_PREVIEW_BYTES rendered)"

definition int_text :: "int \<Rightarrow> ustr" where
  "int_text i = (if i < 0 then 45 # dec (nat (- i)) else dec (nat i))"

definition model_text :: "ShellOutput \<Rightarrow> ustr" where
  "model_text out =
     (let redrawn = add64 (stdout_redraws_collapsed out) (stderr_redraws_collapsed out);
          note = (if redrawn = 0 then [] else NL # u ''['' @ dec redrawn @ u '' progress redraws collapsed]'')
      in if out_stdout out = [] \<and> out_stderr out = []
         then u ''Command exited with code '' @
              (case out_exit_code out of None \<Rightarrow> u ''unknown'' | Some c \<Rightarrow> int_text c) @ u '' and produced no output.'' @ note
         else u ''stdout tail:'' @ [NL] @ out_stdout out @ [NL] @ u ''stderr tail:'' @ [NL] @ out_stderr out @ note)"

definition matching_rule ::
  "('r \<Rightarrow> ustr \<Rightarrow> bool) \<Rightarrow> 'r Rule list \<Rightarrow> ShellCommandAnalysis \<Rightarrow> bool \<Rightarrow> 'r Rule option" where
  "matching_rule is_match rules a output_filter =
     (if \<not> output_filter \<or> opaque a then None
      else case scopes a of
             [scope] \<Rightarrow> find_rule is_match rules (normalized scope)
           | _ \<Rightarrow> None)"

text \<open>The reduced text and the stages that reduced it, before the size is bounded.\<close>

definition reduce_output ::
  "('r \<Rightarrow> ustr \<Rightarrow> bool) \<Rightarrow> ('r \<Rightarrow> ustr \<Rightarrow> ustr \<Rightarrow> ustr) \<Rightarrow> ProgressPatterns \<Rightarrow> 'r Rule option \<Rightarrow> int option \<Rightarrow>
     ustr \<Rightarrow> ustr \<Rightarrow> ustr \<times> ustr list" where
  "reduce_output is_match replace_all P rule ecode raw_out raw_err =
     (let (out, out_escapes) = strip_escape_sequences raw_out;
          (err, err_escapes) = strip_escape_sequences raw_err;
          st1 = (if out_escapes > 0 \<or> err_escapes > 0 then [u ''escapes''] else []);
          (body, consumed, st2) =
            (case rule of
               None \<Rightarrow> (out, False, st1)
             | Some r \<Rightarrow>
                 let f = apply_rule is_match replace_all r out err ecode
                 in if lossy f then (filtered_text f, consumed_stderr f, st1 @ [rule_name r]) else (out, False, st1));
          rendered = (if \<not> consumed \<and> err \<noteq> []
                      then body @ (if body \<noteq> [] then [NL] else []) @ u ''stderr tail:'' @ [NL] @ err
                      else body);
          (collapsed, removed) = collapse_progress_lines P rendered
      in if removed > 0 then (collapsed, st2 @ [u ''progress'']) else (rendered, st2))"

definition render_with_filter ::
  "('r \<Rightarrow> ustr \<Rightarrow> bool) \<Rightarrow> ('r \<Rightarrow> ustr \<Rightarrow> ustr \<Rightarrow> ustr) \<Rightarrow> ProgressPatterns \<Rightarrow> 'r Rule list \<Rightarrow> ShellOutput \<Rightarrow>
     ShellCommandAnalysis \<Rightarrow> Tail \<Rightarrow> Tail \<Rightarrow> bool \<Rightarrow> ustr \<times> ShellFilterInfo option" where
  "render_with_filter is_match replace_all P rules output a out_tail err_tail output_filter =
     (let unfiltered = model_text output
      in if \<not> output_filter then (unfiltered, None)
         else
           let (rendered, st) = reduce_output is_match replace_all P (matching_rule is_match rules a output_filter)
                 (out_exit_code output) (tail_text out_tail) (tail_text err_tail)
           in if st = [] \<or> trim rendered = [] then (unfiltered, None)
              else
                let candidate = bound_rendering rendered @ NL # u ''[filtered: '' @ join (u '', '') st @ u '']''
                in if byte_len candidate \<ge> byte_len unfiltered then (unfiltered, None)
                   else (candidate, Some \<lparr>stages = st, unfiltered_utf8_bytes = byte_len unfiltered,
                                          filtered_utf8_bytes = byte_len candidate\<rparr>))"

section \<open>Execution\<close>

record ShellExecution =
  exec_output :: ShellOutput
  exec_relative_workdir :: ustr
  exec_model_text :: ustr
  exec_filter :: "ShellFilterInfo option"

datatype ExecuteError =
  Prepare_refused ShellPreparationError | Policy_denied AuthorizationError | Launch_failed LaunchError | Spawn_failed ustr |
  Supervision_failed ustr

record RunWorld =
  rw_spawn :: "Command \<Rightarrow> Path \<Rightarrow> ustr + nat option"
  rw_progress :: bool
  rw_moves :: "Move list"
  rw_drain :: "WorkerMove list"
  rw_elapsed :: nat

text \<open>\<open>None\<close> when the recorded moves end before the supervisor does.\<close>

definition execute_prepared ::
  "('r \<Rightarrow> ustr \<Rightarrow> bool) \<Rightarrow> ('r \<Rightarrow> ustr \<Rightarrow> ustr \<Rightarrow> ustr) \<Rightarrow> ProgressPatterns \<Rightarrow> 'r Rule list \<Rightarrow> ShellToolGroup \<Rightarrow>
     PreparedShell \<Rightarrow> LaunchWorld \<Rightarrow> RunWorld \<Rightarrow> (ExecuteError + ShellExecution option) option" where
  "execute_prepared is_match replace_all P rules g p lw rw =
     (case launch g p lw of
        Inl e \<Rightarrow> Some (Inl (Launch_failed e))
      | Inr None \<Rightarrow> Some (Inr None)
      | Inr (Some (command, cwd)) \<Rightarrow>
          (case rw_spawn rw command cwd of
             Inl e \<Rightarrow> Some (Inl (Spawn_failed e))
           | Inr pid \<Rightarrow>
               (case execute (prep_timeout_ms p) pid (rw_progress rw) (rw_moves rw) (rw_drain rw) (rw_elapsed rw) of
                  None \<Rightarrow> None
                | Some (Inl e) \<Rightarrow> Some (Inl (Supervision_failed e))
                | Some (Inr None) \<Rightarrow> Some (Inr None)
                | Some (Inr (Some (out, s, _))) \<Rightarrow>
                    let (text, info) = render_with_filter is_match replace_all P rules out (prep_analysis p)
                          (stdout_tail s) (stderr_tail s) (prep_output_filter p)
                    in Some (Inr (Some \<lparr>exec_output = out, exec_relative_workdir = wd_relative (prep_workdir p),
                                        exec_model_text = text, exec_filter = info\<rparr>)))))"

definition execute_shell ::
  "('r \<Rightarrow> ustr \<Rightarrow> bool) \<Rightarrow> ('r \<Rightarrow> ustr \<Rightarrow> ustr \<Rightarrow> ustr) \<Rightarrow> ProgressPatterns \<Rightarrow> 'r Rule list \<Rightarrow> PrepareWorld \<Rightarrow>
     ShellToolGroup \<Rightarrow> ShellInput \<Rightarrow> LaunchWorld \<Rightarrow> RunWorld \<Rightarrow> (ExecuteError + ShellExecution option) option" where
  "execute_shell is_match replace_all P rules pw g i lw rw =
     (case prepare_shell pw g i of
        Inl e \<Rightarrow> Some (Inl (Prepare_refused e))
      | Inr p \<Rightarrow>
          (case authorize_prepared p of
             Inl e \<Rightarrow> Some (Inl (Policy_denied e))
           | Inr _ \<Rightarrow> execute_prepared is_match replace_all P rules g p lw rw))"

section \<open>What is launched\<close>

lemma timeout_range: "timeout_ms i = Inr t \<Longrightarrow> 1 \<le> t \<and> t \<le> MAX_TIMEOUT_MS"
  by (auto simp: timeout_ms_def DEFAULT_TIMEOUT_MS_def DEFAULT_TIMEOUT_SECS_def MAX_TIMEOUT_MS_def MAX_TIMEOUT_SECS_def
      MILLIS_PER_SECOND_def split: option.splits if_splits)

lemma direct_timeout_range: "direct_timeout_ms r = Inr t \<Longrightarrow> 1 \<le> t \<and> t \<le> MAX_TIMEOUT_MS"
  by (auto simp: direct_timeout_ms_def DEFAULT_TIMEOUT_MS_def DEFAULT_TIMEOUT_SECS_def MAX_TIMEOUT_MS_def
      MAX_TIMEOUT_SECS_def MILLIS_PER_SECOND_def split: option.splits if_splits)

lemma validate_command_ok: "validate_command c = Inr () \<Longrightarrow> trim c \<noteq> [] \<and> byte_len c \<le> MAX_COMMAND_BYTES"
  by (auto simp: validate_command_def split: if_splits)

lemma bind_shell_Inr:
  assumes "bind_shell w g command t requested = Inr p"
  shows "prep_command p = command \<and> prep_timeout_ms p = t \<and> prep_launcher p = group_launcher g \<and>
     prepare (pw_grammar w) (pw_parser w) (pw_lower w) (group_policy g) command =
       (prep_analysis p, prep_program p, prep_decision p) \<and>
     (group_confined g \<longrightarrow>
        workdir_resolve (pw_canon w) (pw_stat w) (group_root g) (case requested of None \<Rightarrow> u ''.'' | Some r \<Rightarrow> r) =
          Inr (prep_workdir p))"
  using assms by (auto simp: bind_shell_def Let_def split: sum.splits prod.splits if_splits)

lemma launch_Some:
  assumes "launch g p w = Inr (Some (command, cwd))"
  obtains l where "prep_launcher p = Inr l"
    "command = platform_command l (prep_command p) (inherited_environment g) (lw_env w)"
    "cwd = wd_canonical (prep_workdir p)" "workdir_revalidate (lw_canon w) (lw_stat w) (prep_workdir p) = Inr ()"
    "launcher_revalidate (lw_stat w) l = Inr ()"
  using assms by (auto simp: launch_def Let_def split: sum.splits if_splits)

lemma revalidated_in_place:
  assumes "workdir_revalidate canon stat b = Inr ()"
  shows "canon (wd_requested b) = Inr (wd_canonical b) \<and> (\<exists>m. stat (wd_canonical b) = Some m \<and> md_is_dir m)"
  using assms
  by (auto simp: workdir_revalidate_def workdir_identity_def split: if_splits sum.splits option.splits)

text \<open>
  C3. What the shell tool starts, put together from its parts. A request that is prepared,
  authorized and launched runs exactly the requested text, non-empty and within the size limit, in
  the bound Bash with startup files off and no startup variable in its environment, under a
  timeout within the limits; the directory it starts in is, at launch, the one the requested path
  leads to, and below the root when the group is confined; and unless the policy is the
  unrestricted one, the text parsed completely and every command in it is one the policy allows.
\<close>

theorem launched_command_authorized:
  assumes prep: "prepare_shell pw g i = Inr p" and auth: "authorize_prepared p = Inr ()"
    and start: "launch g p lw = Inr (Some (command, cwd))"
  shows "args command = [u ''--noprofile'', u ''--norc'', u ''-c'', in_command i] \<and>
     trim (in_command i) \<noteq> [] \<and> byte_len (in_command i) \<le> MAX_COMMAND_BYTES \<and>
     (decides_bash_startup x \<longrightarrow> environment command x = None) \<and>
     1 \<le> prep_timeout_ms p \<and> prep_timeout_ms p \<le> MAX_TIMEOUT_MS \<and>
     lw_canon lw (wd_requested (prep_workdir p)) = Inr cwd \<and>
     (group_confined g \<longrightarrow> workdir_inside cwd (group_root g)) \<and>
     (\<not> yolo (group_policy g) \<longrightarrow>
        (\<exists>tree. parse_tree (pw_grammar pw) (pw_parser pw) (in_command i) default_bash_limits = Inr tree \<and>
           \<not> cst_has_error tree \<and> policy_covers (group_policy g) (in_command i) tree (prep_analysis p)))"
proof -
  obtain t where v: "validate_command (in_command i) = Inr ()" and t: "timeout_ms i = Inr t"
    and b: "bind_shell pw g (in_command i) t (in_workdir i) = Inr p"
    using prep by (auto simp: prepare_shell_def split: sum.splits)
  note B = bind_shell_Inr [OF b]
  have d: "prep_decision p = None" using auth by (auto simp: authorize_prepared_def split: option.splits)
  obtain l where l: "command = platform_command l (prep_command p) (inherited_environment g) (lw_env lw)"
    "cwd = wd_canonical (prep_workdir p)" "workdir_revalidate (lw_canon lw) (lw_stat lw) (prep_workdir p) = Inr ()"
    using launch_Some [OF start] by metis
  have cov: "\<exists>tree. parse_tree (pw_grammar pw) (pw_parser pw) (in_command i) default_bash_limits = Inr tree \<and>
      \<not> cst_has_error tree \<and> policy_covers (group_policy g) (in_command i) tree (prep_analysis p)"
    if "\<not> yolo (group_policy g)"
    using prepare_allows [OF _ that, of "pw_grammar pw" "pw_parser pw" "pw_lower pw" "in_command i"] B d by fastforce
  have conf: "workdir_inside cwd (group_root g)" if "group_confined g"
    using resolve_Inr(3) B that unfolding l(2) by blast
  have env: "environment command x = None" if "decides_bash_startup x"
    using that forwarded_is_inert color_is_inert unfolding l(1) platform_command_def
    by (auto simp: clean_environment_env)
  have arg: "args command = [u ''--noprofile'', u ''--norc'', u ''-c'', in_command i]"
    using B unfolding l(1) by (simp add: platform_command_def clean_environment_args BASH_ARGUMENTS_def)
  show ?thesis
    using timeout_range [OF t] validate_command_ok [OF v] revalidated_in_place [OF l(3)] B arg env conf cov
    unfolding l(2) by blast
qed

section \<open>What is shown\<close>

lemma suffix_within_bound: "byte_len (suffix_within n s) \<le> n"
  by (induction n s rule: suffix_within.induct) auto

lemma bound_rendering_bound: "byte_len (bound_rendering r) \<le> FALLBACK_PREVIEW_BYTES"
  by (simp add: bound_rendering_def suffix_within_bound)

lemma bound_rendering_suffix: "\<exists>pre. r = pre @ bound_rendering r"
proof -
  have "\<exists>pre. s = pre @ suffix_within n s" for n and s :: ustr
    by (induction n s rule: suffix_within.induct) (auto intro: exI [of _ "[]"], metis append_Cons)
  then show ?thesis by (auto simp: bound_rendering_def)
qed

text \<open>
  Filtering the text a model reads can only shorten it, and says so: without a filter report
  the text is the unfiltered one; with a report at least one stage ran, the text is strictly
  smaller than the unfiltered one, the sizes reported are the true ones, and what is shown is the
  end of the reduced output, within the preview budget, followed by the notice.
\<close>

theorem rendering_shrinks:
  assumes "render_with_filter is_match replace_all P rules output a out_tail err_tail on = (text, info)"
  shows "(info = None \<longrightarrow> text = model_text output) \<and>
         (\<forall>f. info = Some f \<longrightarrow>
            on \<and> stages f \<noteq> [] \<and> byte_len text < byte_len (model_text output) \<and>
            filtered_utf8_bytes f = byte_len text \<and> unfiltered_utf8_bytes f = byte_len (model_text output) \<and>
            (\<exists>pre shown. reduce_output is_match replace_all P (matching_rule is_match rules a on) (out_exit_code output)
                  (tail_text out_tail) (tail_text err_tail) = (pre @ shown, stages f) \<and>
               byte_len shown \<le> FALLBACK_PREVIEW_BYTES \<and>
               text = shown @ NL # u ''[filtered: '' @ join (u '', '') (stages f) @ u '']''))"
proof -
  obtain rendered st where r: "reduce_output is_match replace_all P (matching_rule is_match rules a on)
      (out_exit_code output) (tail_text out_tail) (tail_text err_tail) = (rendered, st)" by fastforce
  obtain pre where pre: "rendered = pre @ bound_rendering rendered" using bound_rendering_suffix by blast
  note e = assms [unfolded render_with_filter_def Let_def r prod.case]
  have "\<exists>pre shown. (rendered, st) = (pre @ shown, st) \<and> byte_len shown \<le> FALLBACK_PREVIEW_BYTES \<and>
      bound_rendering rendered @ NL # u ''[filtered: '' @ join (u '', '') st @ u '']'' =
        shown @ NL # u ''[filtered: '' @ join (u '', '') st @ u '']''"
    using pre bound_rendering_bound by (intro exI [of _ pre] exI [of _ "bound_rendering rendered"]) simp
  then show ?thesis using e unfolding r by (auto split: if_splits)
qed

section \<open>Examples\<close>

definition sample_host :: "Path \<Rightarrow> Metadata option" where
  "sample_host p = (if p = components (u ''/bin/bash'') then sample_stat 7 p else sample_dir p)"

definition sample_launcher :: ShellLauncher where
  "sample_launcher = \<lparr>exe_path = components (u ''/bin/bash''),
     exe_identity = \<lparr>device = 1, inode = 7, exe_length = 9, modified = (0, 0), changed = (0, 0)\<rparr>\<rparr>"

definition sample_group :: ShellToolGroup where
  "sample_group = \<lparr>group_root = [RootDir, Normal (u ''w'')], group_policy = sample_policy, group_confined = True,
     group_output_filter = True, inherited_environment = [u ''BASH_ENV''], group_launcher = Inr sample_launcher\<rparr>"

definition sample_prepare_world :: PrepareWorld where
  "sample_prepare_world = \<lparr>pw_canon = Inr, pw_stat = (\<lambda>_. sample_host), pw_grammar = True,
     pw_parser = (\<lambda>s t. Some sample_tree), pw_lower = sample_lower\<rparr>"

definition sample_launch_world :: LaunchWorld where
  "sample_launch_world = \<lparr>lw_cancelled_in_queue = False, lw_cancelled_in_check = False, lw_cancelled_after_check = False,
     lw_canon = Inr, lw_stat = sample_host, lw_env = Some\<rparr>"

definition sample_input :: ShellInput where
  "sample_input = \<lparr>in_command = u ''ls -l'', in_timeout_sec = None, in_workdir = None\<rparr>"

lemma sample_workdir:
  "\<exists>wd. workdir_resolve Inr (\<lambda>_. sample_host) [RootDir, Normal (u ''w'')] (u ''.'') = Inr wd \<and>
     workdir_revalidate Inr sample_host wd = Inr ()"
proof -
  have l: "workdir_lexical [RootDir, Normal (u ''w'')] (u ''.'') = [RootDir, Normal (u ''w'')]"
    by (simp add: workdir_lexical_def components_def split_on_def component_of_def starts_with_def u_def Let_def
        is_absolute_def path_join_def workdir_normalize_def)
  have h: "sample_host [RootDir, Normal (u ''w'')] = sample_dir [RootDir, Normal (u ''w'')]"
    by (simp add: sample_host_def sample_bash)
  show ?thesis
    by (simp add: workdir_resolve_def l Let_def workdir_inside_def starts_with_def inspect_directory_def h sample_dir_def
        strip_prefix_def workdir_identity_def workdir_revalidate_def)
qed

theorem launched_command_authorized_witness:
  "\<exists>p command cwd. prepare_shell sample_prepare_world sample_group sample_input = Inr p \<and>
     launch sample_group p sample_launch_world = Inr (Some (command, cwd)) \<and>
     args command = [u ''--noprofile'', u ''--norc'', u ''-c'', u ''ls -l''] \<and>
     environment command (u ''BASH_ENV'') = None \<and> workdir_inside cwd [RootDir, Normal (u ''w'')]"
proof -
  obtain a r where pr: "prepare True (\<lambda>s t. Some sample_tree) sample_lower sample_policy (u ''ls -l'') = (a, r, None)"
    using sample_prepare by blast
  obtain wd where wd: "workdir_resolve Inr (\<lambda>_. sample_host) [RootDir, Normal (u ''w'')] (u ''.'') = Inr wd"
    "workdir_revalidate Inr sample_host wd = Inr ()"
    using sample_workdir by blast
  have v: "validate_command (u ''ls -l'') = Inr ()"
    by (simp add: validate_command_def text_defs byte_len_def len_utf8_def MAX_COMMAND_BYTES_def MAX_BASH_SOURCE_BYTES_def)
  obtain p where p: "prepare_shell sample_prepare_world sample_group sample_input = Inr p" "prep_decision p = None"
    "prep_workdir p = wd" "prep_launcher p = Inr sample_launcher"
    using pr wd(1) v
    by (simp add: prepare_shell_def sample_prepare_world_def sample_group_def sample_input_def timeout_ms_def bind_shell_def
        Let_def)
  have auth: "authorize_prepared p = Inr ()" by (simp add: authorize_prepared_def p)
  have "launcher_revalidate sample_host sample_launcher = Inr ()"
    by (simp add: launcher_revalidate_def sample_launcher_def sample_host_def sample_stat_def from_metadata_def
        EXECUTABLE_MODE_def)
  then obtain command cwd where l: "launch sample_group p sample_launch_world = Inr (Some (command, cwd))"
    using wd(2) p(3,4) by (simp add: launch_def sample_launch_world_def Let_def)
  have "decides_bash_startup (u ''BASH_ENV'')" by (simp add: decides_u starts_with_def)
  then show ?thesis
    using launched_command_authorized [OF p(1) auth l, of "u ''BASH_ENV''"] p(1) l
    by (auto simp: sample_input_def sample_group_def)
qed

definition sample_output :: "ustr \<Rightarrow> ShellOutput" where
  "sample_output s = output_of 1000 5 (initial_state False\<lparr>stdout_tail := \<lparr>tail_bytes = encode_utf8 s,
     tail_renderer = new_renderer, tail_truncated = False\<rparr>\<rparr>)"

theorem rendering_shrinks_witness:
  "fst (render_with_filter literal_match literal_replace sample_patterns [] (sample_output []) \<lparr>scopes = [], opaque = True\<rparr>
     new_tail new_tail False) = model_text (sample_output [])"
proof -
  obtain shown_text info where r: "render_with_filter literal_match literal_replace sample_patterns [] (sample_output [])
      \<lparr>scopes = [], opaque = True\<rparr> new_tail new_tail False = (shown_text, info)" by fastforce
  have "info = None" using rendering_shrinks [OF r] by (cases info) auto
  then show ?thesis using rendering_shrinks [OF r] by (simp add: r)
qed

end
