(* ===== verification/Transfer_Journal.thy ===== *)
theory Transfer_Journal
  imports Utf8 Path_Policy "HOL-Library.AList"
begin

text \<open>
  The durable journal of reviewed transfers (\<open>src/transfer/journal.rs\<close>): one private file per
  publication, written through a pending file and a rename, read back and settled when the store
  is opened again. The file system is a directory whose recent changes a crash may undo: the
  contents of files that were not synchronised may be cut, and renames and removals that the
  directory was not synchronised after may be lost, each independently of the others. Opening starts
  from a directory as it is found after a crash of the machine, with nothing left to undo.
\<close>

section \<open>Contract types\<close>

type_synonym Identifier = ustr
type_synonym Revision = ustr

datatype TransferPublicationState =
  Prepared | Publishing | Completed | Failed | PublicationCancelled | Indeterminate | Unknown

datatype TransferMode = Regular | Executable

record TransferFile =
  tf_path :: ustr
  tf_resource_id :: ustr
  tf_revision :: Revision
  tf_digest :: Revision
  tf_size_bytes :: nat
  tf_mode :: TransferMode
  tf_created_directories :: "(ustr \<times> ustr) list"

record TransferDirectory =
  td_path :: ustr
  td_resource_id :: ustr
  td_created_directories :: "(ustr \<times> ustr) list"

record TransferStatusResponse =
  publication_id :: Identifier
  pub_state :: TransferPublicationState
  preparation_id :: "Identifier option"
  invocation_id :: "Identifier option"
  request_digest :: "Revision option"
  status_file :: "TransferFile option"

datatype BinaryError = Inaccessible | Conflict | Integrity | BinaryCancelled | BinaryIndeterminate

datatype TransferError =
  TransferBinding | TransferMissing | TransferLimit | TransferState | TransferIntegrity |
  TransferReplay | TransferStorage | TransferCancelled | TransferBinary BinaryError

definition MAX_ID_BYTES :: nat where "MAX_ID_BYTES = 128"
definition MAX_WORKSPACE_PATH_BYTES :: nat where "MAX_WORKSPACE_PATH_BYTES = 4096"
definition TRANSFER_TTL_MS :: nat where "TRANSFER_TTL_MS = 10 * 60 * 1000"
definition MAX_TRANSFER_JOURNALS :: nat where "MAX_TRANSFER_JOURNALS = 256"
definition MAX_TRANSFER_JOURNAL_BYTES :: nat where "MAX_TRANSFER_JOURNAL_BYTES = 32 * 1024"
definition MAX_TRANSFER_JOURNAL_STORAGE_BYTES :: nat where
  "MAX_TRANSFER_JOURNAL_STORAGE_BYTES = MAX_TRANSFER_JOURNAL_BYTES * MAX_TRANSFER_JOURNALS"
definition TRANSFER_OUTCOME_RETENTION_MS :: nat where "TRANSFER_OUTCOME_RETENTION_MS = 24 * 60 * 60 * 1000"
definition MAX_JSON_ID_BYTES :: nat where "MAX_JSON_ID_BYTES = 6 * MAX_ID_BYTES + 2"

definition u64_max :: nat where "u64_max = 2 ^ 64 - 1"

section \<open>Records\<close>

record DirectoryJournal =
  receipt :: "TransferDirectory option"

record Journal =
  jr_status :: TransferStatusResponse
  jr_directory :: "DirectoryJournal option"
  jr_cwd :: ustr
  updated_at :: nat
  expires_at :: nat

text \<open>The libraries the store relies on: SHA-256, the JSON form of a record, and UUID syntax.\<close>

record Codec =
  sha256 :: "ustr \<Rightarrow> bytes"
  to_vec :: "Journal \<Rightarrow> bytes option"
  from_slice :: "bytes \<Rightarrow> Journal option"
  uuid_ok :: "ustr \<Rightarrow> bool"

definition hex_digest :: "bytes \<Rightarrow> ustr" where
  "hex_digest bs = concat (map hex2 bs)"

definition journal_name :: "Codec \<Rightarrow> Identifier \<Rightarrow> ustr" where
  "journal_name c i = hex_digest (sha256 c i) @ u ''.json''"

section \<open>The directory\<close>

text \<open>\<open>entry_private\<close>: the entry opens without following a link and \<open>validate_private\<close> accepts it.\<close>

record Entry =
  entry_private :: bool
  entry_bytes :: bytes

text \<open>
  What the running system sees, the earlier entries a crash may bring back (none: the name is
  absent), and the contents a crash may leave in place of data that is not synchronised.
\<close>

record Disk =
  vis :: "(ustr \<times> Entry) list"
  undo :: "(ustr \<times> Entry option) list"
  torn :: "(ustr \<times> bytes) list"

definition entry_at :: "Disk \<Rightarrow> ustr \<Rightarrow> Entry option" where
  "entry_at d n = map_of (vis d) n"

definition disk_create :: "ustr \<Rightarrow> Disk \<Rightarrow> Disk" where
  "disk_create n d = d\<lparr>vis := AList.update n \<lparr>entry_private = True, entry_bytes = []\<rparr> (vis d), undo := (n, entry_at d n) # undo d\<rparr>"

definition disk_write :: "ustr \<Rightarrow> bytes \<Rightarrow> Disk \<Rightarrow> Disk" where
  "disk_write n bs d = d\<lparr>vis := AList.update n \<lparr>entry_private = True, entry_bytes = bs\<rparr> (vis d),
     torn := map (\<lambda>k. (n, take k bs)) [0..<length bs] @ torn d\<rparr>"

definition disk_fsync :: "ustr \<Rightarrow> Disk \<Rightarrow> Disk" where
  "disk_fsync n d = d\<lparr>torn := filter (\<lambda>(m, _). m \<noteq> n) (torn d)\<rparr>"

definition disk_rename :: "ustr \<Rightarrow> ustr \<Rightarrow> Disk \<Rightarrow> Disk" where
  "disk_rename a b d =
     (case entry_at d a of
        None \<Rightarrow> d
      | Some e \<Rightarrow> d\<lparr>vis := AList.update b e (AList.delete a (vis d)),
                   undo := (a, Some e) # (b, entry_at d b) # undo d,
                   torn := map (\<lambda>(_, bs). (b, bs)) (filter (\<lambda>(m, _). m = a) (torn d)) @ torn d\<rparr>)"

definition disk_unlink :: "ustr \<Rightarrow> Disk \<Rightarrow> Disk" where
  "disk_unlink n d = d\<lparr>vis := AList.delete n (vis d), undo := (n, entry_at d n) # undo d\<rparr>"

definition disk_sync :: "Disk \<Rightarrow> Disk" where
  "disk_sync d = d\<lparr>undo := []\<rparr>"

text \<open>The directories a crash may leave: every name shows its entry or one of its alternatives.\<close>

definition outcome_at :: "Disk \<Rightarrow> ustr \<Rightarrow> Entry option \<Rightarrow> bool" where
  "outcome_at d n x \<longleftrightarrow> x = entry_at d n \<or> (n, x) \<in> set (undo d) \<or>
     (case x of None \<Rightarrow> False | Some e \<Rightarrow> (n, entry_bytes e) \<in> set (torn d))"

definition crash_image :: "Disk \<Rightarrow> (ustr \<times> Entry) list \<Rightarrow> bool" where
  "crash_image d es \<longleftrightarrow> distinct (map fst es) \<and> (\<forall>n. outcome_at d n (map_of es n))"

section \<open>The store\<close>

text \<open>\<open>visited\<close> lists the directories an operation has passed through, for a crash in its course.\<close>

record JournalStore =
  js_disk :: Disk
  js_records :: "(Identifier \<times> Journal) list"
  visited :: "Disk list"

definition goto :: "Disk \<Rightarrow> JournalStore \<Rightarrow> JournalStore" where
  "goto d st = st\<lparr>js_disk := d, visited := visited st @ [d]\<rparr>"

text \<open>What the system calls of one \<open>put\<close> answer; \<open>pe_written\<close> is how much a failing write leaves.\<close>

record PutEnv =
  pe_uuid :: ustr
  pe_open :: bool
  pe_written :: "nat option"
  pe_fsync :: bool
  pe_rename :: bool
  pe_dirsync :: bool
  pe_unlink :: bool

definition put_body :: "PutEnv \<Rightarrow> ustr \<Rightarrow> ustr \<Rightarrow> bytes \<Rightarrow> JournalStore \<Rightarrow> bool \<times> JournalStore" where
  "put_body env pending name bs st =
     (case pe_written env of
        Some k \<Rightarrow> (False, goto (disk_write pending (take k bs) (js_disk st)) st)
      | None \<Rightarrow>
        let st = goto (disk_write pending bs (js_disk st)) st
        in if \<not> pe_fsync env then (False, st)
           else let st = goto (disk_fsync pending (js_disk st)) st
           in if \<not> pe_rename env then (False, st)
              else let st = goto (disk_rename pending name (js_disk st)) st
              in if \<not> pe_dirsync env then (False, st)
                 else (True, goto (disk_sync (js_disk st)) st))"

definition put :: "Codec \<Rightarrow> PutEnv \<Rightarrow> Journal \<Rightarrow> JournalStore \<Rightarrow> (TransferError + unit) \<times> JournalStore" where
  "put c env journal st =
     (let i = publication_id (jr_status journal)
      in case to_vec c journal of
        None \<Rightarrow> (Inl TransferStorage, st)
      | Some bs \<Rightarrow>
          if length bs > MAX_TRANSFER_JOURNAL_BYTES \<or>
             (map_of (js_records st) i = None \<and>
              (length (js_records st) + 1) * MAX_TRANSFER_JOURNAL_BYTES > MAX_TRANSFER_JOURNAL_STORAGE_BYTES)
          then (Inl TransferLimit, st)
          else
            let pending = u ''pending-'' @ pe_uuid env
            in if \<not> pe_open env \<or> entry_at (js_disk st) pending \<noteq> None then (Inl TransferStorage, st)
               else let (ok, st') = put_body env pending (journal_name c i) bs (goto (disk_create pending (js_disk st)) st);
                        st' = (if pe_unlink env \<and> entry_at (js_disk st') pending \<noteq> None
                               then goto (disk_unlink pending (js_disk st')) st' else st')
                    in if ok then (Inr (), st'\<lparr>js_records := AList.update i journal (js_records st')\<rparr>)
                       else (Inl TransferStorage, st'))"

definition expired :: "nat \<Rightarrow> Journal \<Rightarrow> bool" where
  "expired clock record \<longleftrightarrow>
     pub_state (jr_status record) \<in> {Completed, Failed, PublicationCancelled} \<and>
     clock - updated_at record > TRANSFER_OUTCOME_RETENTION_MS"

fun prune_loop :: "Codec \<Rightarrow> (Identifier \<Rightarrow> bool) \<Rightarrow> Identifier list \<Rightarrow> JournalStore \<Rightarrow> (TransferError + unit) \<times> JournalStore" where
  "prune_loop c unlink_ok [] st = (Inr (), st)"
| "prune_loop c unlink_ok (i # is) st =
     (if \<not> unlink_ok i \<or> entry_at (js_disk st) (journal_name c i) = None then (Inl TransferStorage, st)
      else let st' = goto (disk_unlink (journal_name c i) (js_disk st)) st
           in prune_loop c unlink_ok is (st'\<lparr>js_records := AList.delete i (js_records st')\<rparr>))"

text \<open>A clock reading, which removals succeed, and whether the directory is synchronised.\<close>

record PruneEnv =
  pr_clock :: nat
  pr_unlink :: "Identifier \<Rightarrow> bool"
  pr_sync :: bool

definition prune :: "Codec \<Rightarrow> PruneEnv \<Rightarrow> JournalStore \<Rightarrow> (TransferError + unit) \<times> JournalStore" where
  "prune c env st =
     (let ids = map fst (filter (\<lambda>(_, record). expired (pr_clock env) record) (js_records st))
      in case prune_loop c (pr_unlink env) ids st of
           (Inl e, st') \<Rightarrow> (Inl e, st')
         | (Inr _, st') \<Rightarrow>
             if pr_sync env then (Inr (), goto (disk_sync (js_disk st')) st') else (Inl TransferStorage, st'))"

definition get :: "JournalStore \<Rightarrow> Identifier \<Rightarrow> Journal option" where
  "get st i = map_of (js_records st) i"

section \<open>Reserving\<close>

record ReserveEnv =
  re_prune :: PruneEnv
  re_updated :: nat
  re_clock :: nat
  re_put :: PutEnv

definition reserve_publication ::
  "Codec \<Rightarrow> ReserveEnv \<Rightarrow> Identifier \<Rightarrow> ustr \<Rightarrow> Revision \<Rightarrow> DirectoryJournal option \<Rightarrow> nat \<Rightarrow> JournalStore \<Rightarrow>
     (TransferError + unit) \<times> JournalStore" where
  "reserve_publication c env i cwd digest directory receipt_size_bound st =
     (case prune c (re_prune env) st of
        (Inl e, st) \<Rightarrow> (Inl e, st)
      | (Inr _, st) \<Rightarrow>
          if map_of (js_records st) i \<noteq> None then (Inl TransferReplay, st)
          else if length (js_records st) \<ge> MAX_TRANSFER_JOURNALS then (Inl TransferLimit, st)
          else
            let journal = \<lparr>jr_status = \<lparr>publication_id = i, pub_state = Prepared, preparation_id = None, invocation_id = None,
                             request_digest = Some digest, status_file = None\<rparr>,
                           jr_directory = directory, jr_cwd = cwd, updated_at = re_updated env,
                           expires_at = re_clock env + TRANSFER_TTL_MS\<rparr>;
                settled = journal\<lparr>jr_status := (jr_status journal)\<lparr>pub_state := Indeterminate\<rparr>,
                                  updated_at := u64_max, expires_at := u64_max\<rparr>
            in if directory = None then put c (re_put env) journal st
               else case to_vec c settled of
                      None \<Rightarrow> (Inl TransferStorage, st)
                    | Some bs \<Rightarrow>
                        if sat_add (sat_add (length bs) (2 * MAX_JSON_ID_BYTES)) receipt_size_bound > MAX_TRANSFER_JOURNAL_BYTES
                        then (Inl TransferLimit, st) else put c (re_put env) journal st)"

definition reserve where
  "reserve c env i cwd digest st = reserve_publication c env i cwd digest None 0 st"

definition reserve_directory where
  "reserve_directory c env i cwd digest receipt_size_bound st =
     reserve_publication c env i cwd digest (Some \<lparr>receipt = None\<rparr>) receipt_size_bound st"

section \<open>Opening\<close>

text \<open>
  The checks before the directory is read: where the private root lies, and the lease. The host's
  answers are parameters: whether a path is a link (none: it cannot be examined), its canonical
  form, and whether the directories and the lock file are private and the lock is free.
\<close>

record OpenEnv =
  is_symlink :: "Path \<Rightarrow> bool option"
  canonicalize :: "Path \<Rightarrow> Path option"
  parent_private :: bool
  directory_made :: bool
  directory_private :: bool
  parent_sync :: bool
  lock_private :: bool
  lock_free :: bool

fun check_components :: "OpenEnv \<Rightarrow> Path \<Rightarrow> Path \<Rightarrow> bool" where
  "check_components env seen [] = True"
| "check_components env seen (c # cs) =
     (if c = ParentDir then False
      else if is_symlink env (seen @ [c]) \<noteq> Some False then False
      else check_components env (seen @ [c]) cs)"

definition open_directory :: "OpenEnv \<Rightarrow> Path \<Rightarrow> Path \<Rightarrow> TransferError + Path" where
  "open_directory env root_path workspace =
     (if \<not> is_absolute root_path then Inl TransferStorage
      else if \<not> check_components env [] root_path then Inl TransferStorage
      else case canonicalize env root_path of
        None \<Rightarrow> Inl TransferStorage
      | Some r \<Rightarrow>
          if starts_with r workspace \<or> starts_with workspace r then Inl TransferStorage
          else if \<not> parent_private env \<or> \<not> directory_made env \<or> \<not> directory_private env \<or> \<not> parent_sync env \<or>
                  \<not> lock_private env \<or> \<not> lock_free env
          then Inl TransferStorage else Inr r)"

definition is_pending :: "Codec \<Rightarrow> ustr \<Rightarrow> bool" where
  "is_pending c name \<longleftrightarrow> starts_with name (u ''pending-'') \<and> uuid_ok c (drop 8 name)"

fun scan_entries ::
  "Codec \<Rightarrow> nat \<Rightarrow> Journal list \<Rightarrow> ustr list \<Rightarrow> (ustr \<times> Entry) list \<Rightarrow> TransferError + (Journal list \<times> ustr list)" where
  "scan_entries c count journals pending [] = Inr (journals, pending)"
| "scan_entries c count journals pending ((name, e) # es) =
     (if count + 1 > MAX_TRANSFER_JOURNALS * 2 + 1 then Inl TransferLimit
      else if name = u ''.lock'' then scan_entries c (count + 1) journals pending es
      else if \<not> is_pending c name \<and> (byte_len name \<noteq> 69 \<or> \<not> ends_with name (u ''.json'')) then Inl TransferStorage
      else if \<not> entry_private e then Inl TransferStorage
      else if length (entry_bytes e) > MAX_TRANSFER_JOURNAL_BYTES then Inl TransferLimit
      else case from_slice c (entry_bytes e) of
        None \<Rightarrow> Inl TransferStorage
      | Some journal \<Rightarrow>
          if (\<not> is_pending c name \<and> journal_name c (publication_id (jr_status journal)) \<noteq> name) \<or>
             byte_len (jr_cwd journal) > MAX_WORKSPACE_PATH_BYTES
          then Inl TransferStorage
          else if is_pending c name then scan_entries c (count + 1) journals (pending @ [name]) es
          else scan_entries c (count + 1) (journals @ [journal]) pending es)"

definition settle :: "Journal \<Rightarrow> Journal" where
  "settle journal =
     (if pub_state (jr_status journal) = Publishing
      then journal\<lparr>jr_status := (jr_status journal)\<lparr>pub_state := Indeterminate\<rparr>\<rparr>
      else if pub_state (jr_status journal) = Prepared
      then journal\<lparr>jr_status := (jr_status journal)\<lparr>pub_state := PublicationCancelled\<rparr>\<rparr>
      else journal)"

fun unlink_pending :: "(ustr \<Rightarrow> bool) \<Rightarrow> ustr list \<Rightarrow> JournalStore \<Rightarrow> bool \<times> JournalStore" where
  "unlink_pending ok [] st = (True, st)"
| "unlink_pending ok (n # ns) st =
     (if \<not> ok n then (False, st) else unlink_pending ok ns (goto (disk_unlink n (js_disk st)) st))"

fun restore :: "Codec \<Rightarrow> (Identifier \<Rightarrow> PutEnv) \<Rightarrow> Journal list \<Rightarrow> JournalStore \<Rightarrow> (TransferError + unit) \<times> JournalStore" where
  "restore c penv [] st = (Inr (), st)"
| "restore c penv (j # js) st =
     (case put c (penv (publication_id (jr_status j))) (settle j) st of
        (Inl e, st) \<Rightarrow> (Inl e, st)
      | (Inr _, st) \<Rightarrow> restore c penv js st)"

record RecoverEnv =
  rv_unlink :: "ustr \<Rightarrow> bool"
  rv_put :: "Identifier \<Rightarrow> PutEnv"
  rv_prune :: PruneEnv

definition recover :: "Codec \<Rightarrow> RecoverEnv \<Rightarrow> (ustr \<times> Entry) list \<Rightarrow> (TransferError + unit) \<times> JournalStore" where
  "recover c env es =
     (let d = \<lparr>vis = es, undo = [], torn = []\<rparr>; st = \<lparr>js_disk = d, js_records = [], visited = [d]\<rparr>
      in case scan_entries c 0 [] [] es of
           Inl e \<Rightarrow> (Inl e, st)
         | Inr (journals, pending) \<Rightarrow>
             if length journals > MAX_TRANSFER_JOURNALS then (Inl TransferLimit, st)
             else case unlink_pending (rv_unlink env) pending st of
                    (False, st) \<Rightarrow> (Inl TransferStorage, st)
                  | (True, st) \<Rightarrow>
                      (case restore c (rv_put env) journals st of
                         (Inl e, st) \<Rightarrow> (Inl e, st)
                       | (Inr _, st) \<Rightarrow> prune c (rv_prune env) st))"

section \<open>Names\<close>

text \<open>What the store relies on for a set of identifiers: digests of 32 bytes that differ, and records that read back.\<close>

definition codec_ok :: "Codec \<Rightarrow> Identifier set \<Rightarrow> bool" where
  "codec_ok c ids \<longleftrightarrow> (\<forall>i. length (sha256 c i) = 32 \<and> (\<forall>b\<in>set (sha256 c i). b < 256)) \<and> inj_on (sha256 c) ids \<and>
     (\<forall>j bs. to_vec c j = Some bs \<longrightarrow> from_slice c bs = Some j)"

lemma hex_digit_inj: "a < 16 \<Longrightarrow> b < 16 \<Longrightarrow> hex_digit a = hex_digit b \<Longrightarrow> a = b"
  by (auto simp: hex_digit_def split: if_splits)

lemma hex_digest_simps [simp]:
  "hex_digest [] = []" "hex_digest (b # bs) = hex_digit (b div 16) # hex_digit (b mod 16) # hex_digest bs"
  by (simp_all add: hex_digest_def hex2_def)

lemma length_hex_digest: "length (hex_digest bs) = 2 * length bs"
  by (induction bs) auto

lemma hex_digest_inj:
  "hex_digest a = hex_digest b \<Longrightarrow> \<forall>x\<in>set a. x < 256 \<Longrightarrow> \<forall>x\<in>set b. x < 256 \<Longrightarrow> a = b"
proof (induction a arbitrary: b)
  case (Cons x a)
  then obtain y b' where b: "b = y # b'" by (cases b) auto
  have "x div 16 = y div 16" "x mod 16 = y mod 16"
    using Cons.prems b by (auto intro: hex_digit_inj simp: less_mult_imp_div_less)
  then have "x = y" by (metis div_mult_mod_eq)
  then show ?case using Cons b by auto
qed (metis hex_digest_simps list.exhaust list.distinct(1))

lemma journal_name_inj:
  assumes "codec_ok c ids" "i \<in> ids" "k \<in> ids" "journal_name c i = journal_name c k"
  shows "i = k"
proof -
  have "hex_digest (sha256 c i) = hex_digest (sha256 c k)" using assms(4) by (simp add: journal_name_def)
  moreover have "\<forall>i. \<forall>b\<in>set (sha256 c i). b < 256" using assms(1) unfolding codec_ok_def by blast
  ultimately have "sha256 c i = sha256 c k" using hex_digest_inj by blast
  then show ?thesis using assms(1-3) by (auto simp: codec_ok_def inj_on_def)
qed

lemma journal_name_not_pending:
  assumes "codec_ok c ids"
  shows "journal_name c i \<noteq> u ''pending-'' @ x" "journal_name c i \<noteq> u ''.lock''"
proof -
  obtain b bs where "sha256 c i = b # bs" "b < 256" using assms by (cases "sha256 c i") (auto simp: codec_ok_def dest: spec [of _ i])
  then have "hd (journal_name c i) = hex_digit (b div 16)" "b div 16 < 16" by (auto simp: journal_name_def less_mult_imp_div_less)
  moreover have "hd (u ''pending-'' @ x) = 112" "hd (u ''.lock'') = 46" by (simp_all add: u_def)
  ultimately show "journal_name c i \<noteq> u ''pending-'' @ x" "journal_name c i \<noteq> u ''.lock''"
    by (auto simp: hex_digit_def split: if_splits)
qed

lemma hex_digit_ascii: "k < 16 \<Longrightarrow> len_utf8 (hex_digit k) = 1"
  by (simp add: hex_digit_def len_utf8_def)

lemma journal_name_shape:
  assumes "codec_ok c ids"
  shows "byte_len (journal_name c i) = 69" "ends_with (journal_name c i) (u ''.json'')" "\<not> is_pending c (journal_name c i)"
proof -
  have d: "length (sha256 c i) = 32" "\<forall>b\<in>set (sha256 c i). b < 256" using assms unfolding codec_ok_def by blast+
  have "byte_len (hex_digest bs) = 2 * length bs" if "\<forall>b\<in>set bs. b < 256" for bs
    using that by (induction bs) (auto simp: byte_len_def hex_digit_ascii less_mult_imp_div_less)
  then show "byte_len (journal_name c i) = 69"
    using d by (simp add: journal_name_def byte_len_append) (simp add: byte_len_def u_def len_utf8_def)
  show "ends_with (journal_name c i) (u ''.json'')" by (simp add: journal_name_def ends_with_def)
  show "\<not> is_pending c (journal_name c i)"
  proof
    assume "is_pending c (journal_name c i)"
    moreover have "length (u ''pending-'') = 8" by (simp add: u_def)
    ultimately have "take 8 (journal_name c i) = u ''pending-''" by (simp add: is_pending_def starts_with_def)
    then show False using journal_name_not_pending(1) [OF assms, of i "drop 8 (journal_name c i)"] by (metis append_take_drop_id)
  qed
qed

section \<open>What a crash may show\<close>

lemmas disk_defs = disk_create_def disk_write_def disk_fsync_def disk_rename_def disk_unlink_def disk_sync_def

lemma entry_at_simps [simp]:
  "entry_at (disk_create m d) n = (if n = m then Some \<lparr>entry_private = True, entry_bytes = []\<rparr> else entry_at d n)"
  "entry_at (disk_write m bs d) n = (if n = m then Some \<lparr>entry_private = True, entry_bytes = bs\<rparr> else entry_at d n)"
  "entry_at (disk_fsync m d) n = entry_at d n"
  "entry_at (disk_unlink m d) n = (if n = m then None else entry_at d n)"
  "entry_at (disk_sync d) n = entry_at d n"
  by (simp_all add: disk_defs entry_at_def update_conv' delete_conv')

lemma torn_create: "torn (disk_create n d) = torn d"
  by (simp add: disk_create_def)

lemma entry_at_rename:
  "entry_at d a = Some e \<Longrightarrow> entry_at (disk_rename a b d) n = (if n = b then Some e else if n = a then None else entry_at d n)"
  by (simp add: disk_rename_def entry_at_def update_conv' delete_conv')

lemma outcome_other:
  "n \<noteq> m \<Longrightarrow> outcome_at (disk_create m d) n x \<longleftrightarrow> outcome_at d n x"
  "n \<noteq> m \<Longrightarrow> outcome_at (disk_write m bs d) n x \<longleftrightarrow> outcome_at d n x"
  "n \<noteq> m \<Longrightarrow> outcome_at (disk_fsync m d) n x \<longleftrightarrow> outcome_at d n x"
  "n \<noteq> m \<Longrightarrow> outcome_at (disk_unlink m d) n x \<longleftrightarrow> outcome_at d n x"
  unfolding outcome_at_def entry_at_simps
  by (auto simp: disk_create_def disk_write_def disk_fsync_def disk_unlink_def split: option.splits)

lemma outcome_sync: "outcome_at (disk_sync d) n x \<Longrightarrow> outcome_at d n x"
  unfolding outcome_at_def entry_at_simps by (auto simp: disk_sync_def split: option.splits)

lemma outcome_unlink: "outcome_at (disk_unlink m d) m x \<Longrightarrow> x = None \<or> outcome_at d m x"
  unfolding outcome_at_def entry_at_simps by (auto simp: disk_unlink_def split: option.splits)

text \<open>Renaming a synchronised file: its new name shows the file or what it showed before.\<close>

lemma outcome_rename:
  assumes "outcome_at (disk_rename a b d) n x" "entry_at d a = Some e" "\<forall>bs. (a, bs) \<notin> set (torn d)" "n \<noteq> a"
  shows "outcome_at d n x \<or> n = b \<and> x = Some e"
proof -
  have "torn (disk_rename a b d) = torn d"
    using assms(2,3) by (auto simp: disk_rename_def filter_empty_conv)
  moreover have "undo (disk_rename a b d) = (a, Some e) # (b, entry_at d b) # undo d" using assms(2) by (simp add: disk_rename_def)
  ultimately show ?thesis using assms(1,4) unfolding outcome_at_def entry_at_rename [OF assms(2)]
    by (auto split: option.splits if_splits)
qed

text \<open>The directories an operation has passed through, and what a crash in its course may show.\<close>

definition passed :: "JournalStore \<Rightarrow> Disk set" where
  "passed st = insert (js_disk st) (set (visited st))"

definition possible :: "JournalStore \<Rightarrow> ustr \<Rightarrow> Entry option \<Rightarrow> bool" where
  "possible st n x \<longleftrightarrow> (\<exists>d\<in>passed st. outcome_at d n x)"

lemma passed_goto [simp]: "passed (goto d st) = insert d (set (visited st))" "js_disk (goto d st) = d"
  "js_records (goto d st) = js_records st" "visited (goto d st) = visited st @ [d]"
  by (auto simp: passed_def goto_def)

lemma possible_goto: "possible (goto d st) n x \<Longrightarrow> possible st n x \<or> outcome_at d n x"
  by (auto simp: possible_def) (auto simp: passed_def)

lemma possible_disk: "outcome_at (js_disk st) n x \<Longrightarrow> possible st n x"
  by (auto simp: possible_def passed_def)

text \<open>A step of an operation that leaves a name alone.\<close>

lemma possible_keep:
  "possible (goto d st) n x \<Longrightarrow> (\<And>x. outcome_at d n x \<Longrightarrow> outcome_at (js_disk st) n x) \<Longrightarrow> possible st n x"
  using possible_goto possible_disk by blast

lemma goto_records [simp]: "possible (st\<lparr>js_records := r\<rparr>) n x = possible st n x" "passed (st\<lparr>js_records := r\<rparr>) = passed st"
  by (simp_all add: possible_def passed_def)

lemma put_body_spec:
  assumes "put_body env p name bs st = (ok, st')" "n \<noteq> p" "name \<noteq> p" "entry_at (js_disk st) p \<noteq> None"
  shows "possible st' n x \<Longrightarrow> possible st n x \<or> n = name \<and> x = Some \<lparr>entry_private = True, entry_bytes = bs\<rparr>"
    "ok \<Longrightarrow> entry_at (js_disk st') n = (if n = name then Some \<lparr>entry_private = True, entry_bytes = bs\<rparr> else entry_at (js_disk st) n)"
    "ok \<Longrightarrow> undo (js_disk st') = [] \<and> set (torn (js_disk st')) \<subseteq> set (torn (js_disk st)) \<and> entry_at (js_disk st') p = None"
    "js_records st' = js_records st"
proof -
  let ?w = "goto (disk_write p bs (js_disk st)) st"
  let ?f = "goto (disk_fsync p (js_disk ?w)) ?w"
  let ?r = "goto (disk_rename p name (js_disk ?f)) ?f"
  let ?s = "goto (disk_sync (js_disk ?r)) ?r"
  let ?e = "\<lparr>entry_private = True, entry_bytes = bs\<rparr>"
  have e: "entry_at (js_disk ?f) p = Some ?e" by simp
  have clean: "\<forall>b. (p, b) \<notin> set (torn (js_disk ?f))" by (simp add: disk_fsync_def)
  have w: "possible ?w n x \<Longrightarrow> possible st n x" for x by (erule possible_keep) (simp add: outcome_other assms(2))
  have f: "possible ?f n x \<Longrightarrow> possible st n x" for x
    by (rule w, erule possible_keep) (simp add: outcome_other assms(2))
  have r: "possible ?r n x \<Longrightarrow> possible st n x \<or> n = name \<and> x = Some ?e" for x
    using possible_goto [of "disk_rename p name (js_disk ?f)" ?f n x] f outcome_rename [OF _ e clean assms(2)] possible_disk [of ?f]
    by blast
  have s: "possible ?s n x \<Longrightarrow> possible st n x \<or> n = name \<and> x = Some ?e" for x
    by (rule r, erule possible_keep) (rule outcome_sync, simp)
  have k: "possible (goto (disk_write p b (js_disk st)) st) n x \<Longrightarrow> possible st n x" for b x
    by (erule possible_keep) (simp add: outcome_other assms(2))
  show "possible st' n x \<Longrightarrow> possible st n x \<or> n = name \<and> x = Some ?e"
    using assms(1) k w f r s by (auto simp: put_body_def Let_def split: option.splits if_splits)
  have ok: "ok \<Longrightarrow> st' = ?s" using assms(1) by (auto simp: put_body_def Let_def split: option.splits if_splits)
  show "ok \<Longrightarrow> entry_at (js_disk st') n = (if n = name then Some ?e else entry_at (js_disk st) n)"
    using ok assms(2) entry_at_rename [OF e, of name n] by simp
  show "ok \<Longrightarrow> undo (js_disk st') = [] \<and> set (torn (js_disk st')) \<subseteq> set (torn (js_disk st)) \<and> entry_at (js_disk st') p = None"
  proof -
    assume ok
    have "torn (disk_rename p name (js_disk ?f)) = torn (js_disk ?f)"
      using e clean by (auto simp: disk_rename_def filter_empty_conv)
    then have "set (torn (js_disk ?s)) \<subseteq> set (torn (js_disk st))"
      by (auto simp: disk_sync_def disk_fsync_def disk_write_def)
    moreover have "undo (js_disk ?s) = []" by (simp add: disk_sync_def)
    moreover have "entry_at (js_disk ?s) p = None" using entry_at_rename [OF e, of name p] assms(3) by simp
    ultimately show ?thesis using ok [OF \<open>ok\<close>] by simp
  qed
  show "js_records st' = js_records st"
    using assms(1) by (auto simp: put_body_def Let_def split: option.splits if_splits)
qed

section \<open>Writing a record\<close>

text \<open>The file of a journal, and the identifier a journal is filed under.\<close>

abbreviation jid :: "Journal \<Rightarrow> Identifier" where
  "jid j \<equiv> publication_id (jr_status j)"

definition file_of :: "Codec \<Rightarrow> Journal \<Rightarrow> Entry \<Rightarrow> bool" where
  "file_of c j e \<longleftrightarrow> entry_private e \<and> to_vec c j = Some (entry_bytes e) \<and> length (entry_bytes e) \<le> MAX_TRANSFER_JOURNAL_BYTES"

abbreviation pending_name :: "PutEnv \<Rightarrow> ustr" where
  "pending_name env \<equiv> u ''pending-'' @ pe_uuid env"

lemma put_cases:
  assumes "put c env j st = (r, st')"
  obtains (refused) e where "r = Inl e" "st' = st"
  | (run) bs ok st1 where "to_vec c j = Some bs" "length bs \<le> MAX_TRANSFER_JOURNAL_BYTES" "pe_open env"
    "entry_at (js_disk st) (pending_name env) = None"
    "map_of (js_records st) (jid j) = None \<Longrightarrow> length (js_records st) < MAX_TRANSFER_JOURNALS"
    "put_body env (pending_name env) (journal_name c (jid j)) bs (goto (disk_create (pending_name env) (js_disk st)) st) = (ok, st1)"
    "st' = (let st2 = (if pe_unlink env \<and> entry_at (js_disk st1) (pending_name env) \<noteq> None
         then goto (disk_unlink (pending_name env) (js_disk st1)) st1 else st1)
       in if ok then st2\<lparr>js_records := AList.update (jid j) j (js_records st2)\<rparr> else st2)"
    "r = (if ok then Inr () else Inl TransferStorage)"
proof (cases "\<exists>e. r = Inl e \<and> st' = st")
  case False
  obtain bs where bs: "to_vec c j = Some bs" "\<not> length bs > MAX_TRANSFER_JOURNAL_BYTES"
    "\<not> (map_of (js_records st) (jid j) = None \<and>
       (length (js_records st) + 1) * MAX_TRANSFER_JOURNAL_BYTES > MAX_TRANSFER_JOURNAL_STORAGE_BYTES)"
    "pe_open env" "entry_at (js_disk st) (pending_name env) = None"
    using assms False by (auto simp: put_def Let_def split: option.splits if_splits)
  obtain ok st1 where b: "put_body env (pending_name env) (journal_name c (jid j)) bs
      (goto (disk_create (pending_name env) (js_disk st)) st) = (ok, st1)" by fastforce
  have "length (js_records st) < MAX_TRANSFER_JOURNALS" if "map_of (js_records st) (jid j) = None"
    using bs(3) that by (simp add: MAX_TRANSFER_JOURNAL_STORAGE_BYTES_def MAX_TRANSFER_JOURNALS_def MAX_TRANSFER_JOURNAL_BYTES_def)
  then show ?thesis using assms bs b by (intro run [OF _ _ _ _ _ b]) (auto simp: put_def Let_def split: if_splits)
qed (use refused in blast)

lemma put_possible:
  assumes "put c env j st = (r, st')" "codec_ok c ids" "n \<noteq> pending_name env"
  shows "possible st' n x \<Longrightarrow> possible st n x \<or> n = journal_name c (jid j) \<and> (\<exists>e. x = Some e \<and> file_of c j e)"
  using assms(1)
proof (cases rule: put_cases)
  case (run bs ok st1)
  let ?p = "pending_name env" and ?c = "goto (disk_create (pending_name env) (js_disk st)) st"
  note body = put_body_spec [OF run(6) assms(3) journal_name_not_pending(1) [OF assms(2)]]
  have u: "possible (goto (disk_unlink ?p (js_disk st1)) st1) n x \<Longrightarrow> possible st1 n x" for x
    by (erule possible_keep) (simp add: outcome_other assms(3))
  assume "possible st' n x"
  then have "possible st1 n x" using run(7) u by (auto simp: Let_def split: if_splits)
  then have "possible ?c n x \<or> n = journal_name c (jid j) \<and> x = Some \<lparr>entry_private = True, entry_bytes = bs\<rparr>"
    using body(1) by simp
  moreover have "possible ?c n x \<Longrightarrow> possible st n x" by (erule possible_keep) (simp add: outcome_other assms(3))
  ultimately show ?thesis using run(1,2) by (auto simp: file_of_def)
qed simp

lemma put_records:
  assumes "put c env j st = (r, st')"
  shows "js_records st' = (if r = Inr () then AList.update (jid j) j (js_records st) else js_records st)"
  using assms
proof (cases rule: put_cases)
  case (run bs ok st1)
  have "js_records st1 = js_records st"
    using run(6) by (auto simp: put_body_def Let_def split: option.splits if_splits)
  then show ?thesis using run(7,8) by (simp add: Let_def)
qed auto

lemma put_stored:
  assumes "put c env j st = (Inr (), st')" "codec_ok c ids"
  shows "\<exists>e. file_of c j e \<and> entry_at (js_disk st') (journal_name c (jid j)) = Some e"
    "n \<noteq> pending_name env \<Longrightarrow> n \<noteq> journal_name c (jid j) \<Longrightarrow> entry_at (js_disk st') n = entry_at (js_disk st) n"
    "undo (js_disk st') = [] \<and> set (torn (js_disk st')) \<subseteq> set (torn (js_disk st)) \<and> entry_at (js_disk st') (pending_name env) = None"
    "map_of (js_records st) (jid j) = None \<Longrightarrow> length (js_records st) < MAX_TRANSFER_JOURNALS"
proof -
  from assms(1) obtain bs st1 where run: "to_vec c j = Some bs" "length bs \<le> MAX_TRANSFER_JOURNAL_BYTES"
    "put_body env (pending_name env) (journal_name c (jid j)) bs (goto (disk_create (pending_name env) (js_disk st)) st) = (True, st1)"
    "st' = st1\<lparr>js_records := AList.update (jid j) j (js_records st1)\<rparr> \<or> entry_at (js_disk st1) (pending_name env) \<noteq> None"
    "map_of (js_records st) (jid j) = None \<Longrightarrow> length (js_records st) < MAX_TRANSFER_JOURNALS"
    by (cases rule: put_cases) (auto simp: Let_def split: if_splits)
  have name: "journal_name c (jid j) \<noteq> pending_name env" by (rule journal_name_not_pending(1) [OF assms(2)])
  note body = put_body_spec [OF run(3) _ name]
  have st': "st' = st1\<lparr>js_records := AList.update (jid j) j (js_records st1)\<rparr>" using run(4) body(3) [OF name] by simp
  show "\<exists>e. file_of c j e \<and> entry_at (js_disk st') (journal_name c (jid j)) = Some e"
    using body(2) [OF name] run(1,2) by (auto simp: st' file_of_def)
  show "n \<noteq> pending_name env \<Longrightarrow> n \<noteq> journal_name c (jid j) \<Longrightarrow> entry_at (js_disk st') n = entry_at (js_disk st) n"
    using body(2) [of n] by (simp add: st')
  show "undo (js_disk st') = [] \<and> set (torn (js_disk st')) \<subseteq> set (torn (js_disk st)) \<and> entry_at (js_disk st') (pending_name env) = None"
    using body(3) [OF name] by (simp add: st' torn_create)
  show "map_of (js_records st) (jid j) = None \<Longrightarrow> length (js_records st) < MAX_TRANSFER_JOURNALS" by (rule run(5))
qed

text \<open>Between operations nothing is left for a crash to undo.\<close>

definition quiet :: "JournalStore \<Rightarrow> bool" where
  "quiet st \<longleftrightarrow> undo (js_disk st) = [] \<and> torn (js_disk st) = [] \<and> visited st = []"

lemma quiet_possible: "quiet st \<Longrightarrow> possible st n x \<longleftrightarrow> x = entry_at (js_disk st) n"
  by (auto simp: quiet_def possible_def passed_def outcome_at_def split: option.splits)

section \<open>Removing records\<close>

definition drop_record :: "Codec \<Rightarrow> Identifier \<Rightarrow> JournalStore \<Rightarrow> JournalStore" where
  "drop_record c k st = (goto (disk_unlink (journal_name c k) (js_disk st)) st)\<lparr>js_records := AList.delete k (js_records st)\<rparr>"

lemma drop_record_fields [simp]:
  "js_disk (drop_record c k st) = disk_unlink (journal_name c k) (js_disk st)"
  "js_records (drop_record c k st) = AList.delete k (js_records st)"
  by (simp_all add: drop_record_def)

lemma drop_record_possible: "possible (drop_record c k st) n x \<Longrightarrow> possible st n x \<or> x = None \<and> n = journal_name c k"
  unfolding drop_record_def goto_records
  using possible_goto [of "disk_unlink (journal_name c k) (js_disk st)" st n x] possible_disk [of st n x]
    outcome_other(4) [of n "journal_name c k" "js_disk st" x] outcome_unlink [of "journal_name c k" "js_disk st" x] by auto

lemma prune_loop_Cons:
  "prune_loop c ok (k # ks) st = (r, st') \<Longrightarrow> r = Inl TransferStorage \<and> st' = st \<or> prune_loop c ok ks (drop_record c k st) = (r, st')"
  by (auto simp: drop_record_def Let_def split: if_splits)

declare prune_loop.simps(2) [simp del]

lemma prune_loop_done:
  "prune_loop c ok is st = (Inr (), st') \<Longrightarrow>
     entry_at (js_disk st') n = (if n \<in> journal_name c ` set is then None else entry_at (js_disk st) n) \<and>
     map_of (js_records st') i = (if i \<in> set is then None else map_of (js_records st) i)"
proof (induction "is" arbitrary: st)
  case (Cons k ks)
  then have "prune_loop c ok ks (drop_record c k st) = (Inr (), st')" using prune_loop_Cons by fastforce
  from Cons.IH [OF this] show ?case by (simp add: delete_conv')
qed simp

lemma prune_loop_keeps:
  "prune_loop c ok is st = (r, st') \<Longrightarrow>
     (i \<notin> set is \<longrightarrow> map_of (js_records st') i = map_of (js_records st) i) \<and> torn (js_disk st') = torn (js_disk st) \<and>
     set (js_records st') \<subseteq> set (js_records st) \<and> length (js_records st') \<le> length (js_records st) \<and>
     (distinct (map fst (js_records st)) \<longrightarrow> distinct (map fst (js_records st')))"
proof (induction "is" arbitrary: st)
  case (Cons k ks)
  have "set (AList.delete k (js_records st)) \<subseteq> set (js_records st)" by (auto simp: AList.delete_eq)
  moreover have "torn (disk_unlink (journal_name c k) (js_disk st)) = torn (js_disk st)" by (simp add: disk_unlink_def)
  moreover note Cons.IH [of "drop_record c k st"] length_delete_le [of k "js_records st"]
  ultimately show ?case using prune_loop_Cons [OF Cons.prems] by (auto simp: delete_conv' distinct_delete)
qed simp

lemma prune_loop_possible:
  "prune_loop c ok is st = (r, st') \<Longrightarrow> possible st' n x \<Longrightarrow>
     possible st n x \<or> x = None \<and> n \<in> journal_name c ` {i \<in> set is. map_of (js_records st') i = None}"
proof (induction "is" arbitrary: st)
  case (Cons k ks)
  show ?case
  proof (cases "st' = st")
    case False
    then have run: "prune_loop c ok ks (drop_record c k st) = (r, st')" using prune_loop_Cons [OF Cons.prems(1)] by blast
    have "set (js_records st') \<subseteq> set (AList.delete k (js_records st))" using prune_loop_keeps [OF run] by simp
    then have "map_of (js_records st') k = None" by (force simp: map_of_eq_None_iff AList.delete_eq)
    then show ?thesis using Cons.IH [OF run Cons.prems(2)] drop_record_possible [of c k st n x] by auto
  qed (use Cons.prems in blast)
qed simp

definition expired_ids :: "nat \<Rightarrow> JournalStore \<Rightarrow> Identifier set" where
  "expired_ids clock st = fst ` {p \<in> set (js_records st). expired clock (snd p)}"

lemma prune_spec:
  assumes "prune c env st = (r, st')"
  shows "possible st' n x \<Longrightarrow> possible st n x \<or>
       x = None \<and> n \<in> journal_name c ` {i \<in> expired_ids (pr_clock env) st. map_of (js_records st') i = None}"
    "r = Inr () \<Longrightarrow> entry_at (js_disk st') n =
       (if n \<in> journal_name c ` expired_ids (pr_clock env) st then None else entry_at (js_disk st) n)"
    "r = Inr () \<Longrightarrow> map_of (js_records st') i =
       (if i \<in> expired_ids (pr_clock env) st then None else map_of (js_records st) i)"
    "i \<notin> expired_ids (pr_clock env) st \<Longrightarrow> map_of (js_records st') i = map_of (js_records st) i"
    "torn (js_disk st') = torn (js_disk st)" "set (js_records st') \<subseteq> set (js_records st)"
    "length (js_records st') \<le> length (js_records st)" "r = Inr () \<Longrightarrow> undo (js_disk st') = []"
    "distinct (map fst (js_records st)) \<Longrightarrow> distinct (map fst (js_records st'))"
proof -
  let ?is = "map fst (filter (\<lambda>(_, record). expired (pr_clock env) record) (js_records st))"
  obtain r1 st1 where run: "prune_loop c (pr_unlink env) ?is st = (r1, st1)" by fastforce
  have ids: "set ?is = expired_ids (pr_clock env) st" by (auto simp: expired_ids_def)
  note possible = prune_loop_possible [OF run, unfolded ids] and keeps = prune_loop_keeps [OF run, unfolded ids]
  have st': "st' = (if r1 = Inr () \<and> pr_sync env then goto (disk_sync (js_disk st1)) st1 else st1)"
    and r: "r = Inr () \<Longrightarrow> r1 = Inr () \<and> pr_sync env"
    using assms run by (auto simp: prune_def Let_def split: sum.splits if_splits)
  have all_done: "r = Inr () \<Longrightarrow> prune_loop c (pr_unlink env) ?is st = (Inr (), st1)" using run r by simp
  have s: "possible (goto (disk_sync (js_disk st1)) st1) n x \<Longrightarrow> possible st1 n x" for n x
    by (erule possible_keep) (rule outcome_sync)
  show "possible st' n x \<Longrightarrow> possible st n x \<or>
      x = None \<and> n \<in> journal_name c ` {i \<in> expired_ids (pr_clock env) st. map_of (js_records st') i = None}"
    using possible s st' by (auto split: if_splits)
  show "r = Inr () \<Longrightarrow> entry_at (js_disk st') n =
      (if n \<in> journal_name c ` expired_ids (pr_clock env) st then None else entry_at (js_disk st) n)"
    using prune_loop_done [OF all_done, unfolded ids] st' r by auto
  show "r = Inr () \<Longrightarrow> map_of (js_records st') i = (if i \<in> expired_ids (pr_clock env) st then None else map_of (js_records st) i)"
    using prune_loop_done [OF all_done, unfolded ids] st' r by auto
  show "i \<notin> expired_ids (pr_clock env) st \<Longrightarrow> map_of (js_records st') i = map_of (js_records st) i"
    using keeps st' by auto
  show "torn (js_disk st') = torn (js_disk st)" using keeps st' by (auto simp: disk_sync_def)
  show "set (js_records st') \<subseteq> set (js_records st)" "length (js_records st') \<le> length (js_records st)"
    "distinct (map fst (js_records st)) \<Longrightarrow> distinct (map fst (js_records st'))" using keeps st' by auto
  show "r = Inr () \<Longrightarrow> undo (js_disk st') = []" using st' r by (simp add: disk_sync_def)
qed

section \<open>The invariant of a running store\<close>

definition readable :: "Codec \<Rightarrow> Identifier \<Rightarrow> Entry \<Rightarrow> bool" where
  "readable c i e \<longleftrightarrow> entry_private e \<and> length (entry_bytes e) \<le> MAX_TRANSFER_JOURNAL_BYTES \<and>
     (\<exists>j. from_slice c (entry_bytes e) = Some j \<and> jid j = i \<and> byte_len (jr_cwd j) \<le> MAX_WORKSPACE_PATH_BYTES)"

text \<open>
  A running store knows at most 256 records, each under its own identifier, and each will be read
  back after a crash at any moment; only pending files can be torn.
\<close>

definition store_ok :: "Codec \<Rightarrow> Identifier set \<Rightarrow> JournalStore \<Rightarrow> bool" where
  "store_ok c ids st \<longleftrightarrow> distinct (map fst (js_records st)) \<and> length (js_records st) \<le> MAX_TRANSFER_JOURNALS \<and>
     (\<forall>(i, j) \<in> set (js_records st). i = jid j \<and> i \<in> ids \<and> byte_len (jr_cwd j) \<le> MAX_WORKSPACE_PATH_BYTES \<and>
        (\<forall>x. outcome_at (js_disk st) (journal_name c i) x \<longrightarrow> (\<exists>e. x = Some e \<and> readable c i e))) \<and>
     (\<forall>(n, bs) \<in> set (torn (js_disk st)). \<exists>x. n = u ''pending-'' @ x)"

lemma file_of_readable:
  "codec_ok c ids \<Longrightarrow> file_of c j e \<Longrightarrow> byte_len (jr_cwd j) \<le> MAX_WORKSPACE_PATH_BYTES \<Longrightarrow> readable c (jid j) e"
  by (auto simp: codec_ok_def file_of_def readable_def)

lemma store_okD:
  assumes "store_ok c ids st" "map_of (js_records st) i = Some j"
  shows "i = jid j" "i \<in> ids" "byte_len (jr_cwd j) \<le> MAX_WORKSPACE_PATH_BYTES"
    "outcome_at (js_disk st) (journal_name c i) x \<Longrightarrow> \<exists>e. x = Some e \<and> readable c i e"
  using assms map_of_SomeD [OF assms(2)] by (auto simp: store_ok_def)

lemma torn_put:
  assumes "put c env j st = (r, st')" "(n, bs) \<in> set (torn (js_disk st'))" "codec_ok c ids"
  shows "(n, bs) \<in> set (torn (js_disk st)) \<or> n = pending_name env"
  using assms(1)
proof (cases rule: put_cases)
  case (run b ok st1)
  have "(n, bs) \<in> set (torn (js_disk st1))" using run(7) assms(2) by (auto simp: Let_def disk_unlink_def split: if_splits)
  then show ?thesis using run(6) 
    by (auto simp: put_body_def Let_def disk_write_def disk_fsync_def disk_sync_def disk_rename_def torn_create
        split: option.splits if_splits)
qed (use assms(2) in auto)

text \<open>Where an operation ends does not depend on the directories passed through before.\<close>

definition fresh :: "JournalStore \<Rightarrow> JournalStore" where
  "fresh st = st\<lparr>visited := []\<rparr>"

lemma fresh_fields [simp]: "js_disk (fresh st) = js_disk st" "js_records (fresh st) = js_records st"
  "possible (fresh st) n x = outcome_at (js_disk st) n x"
  by (auto simp: fresh_def possible_def passed_def)

lemma put_body_fresh: "map_prod id js_disk (put_body env p name bs (goto d (fresh st))) = map_prod id js_disk (put_body env p name bs (goto d st))"
  by (simp add: put_body_def goto_def fresh_def Let_def split: option.split)

lemma put_fresh: "js_disk (snd (put c env j (fresh st))) = js_disk (snd (put c env j st))"
proof -
  let ?g = "goto (disk_create (pending_name env) (js_disk st))"
  have "js_disk (snd (put_body env (pending_name env) (journal_name c (jid j)) bs (?g (fresh st)))) =
      js_disk (snd (put_body env (pending_name env) (journal_name c (jid j)) bs (?g st)))" for bs
    using put_body_fresh [of env "pending_name env" "journal_name c (jid j)" bs _ st] by (metis snd_map_prod)
  then show ?thesis by (auto simp: put_def Let_def split_beta split: option.split)
qed

lemma put_outcome:
  assumes "put c env j st = (r, st')" "codec_ok c ids" "n \<noteq> pending_name env" "outcome_at (js_disk st') n x"
  shows "outcome_at (js_disk st) n x \<or> n = journal_name c (jid j) \<and> (\<exists>e. x = Some e \<and> file_of c j e)"
proof -
  obtain r' st2 where run: "put c env j (fresh st) = (r', st2)" by fastforce
  then have "js_disk st2 = js_disk st'" using put_fresh [of c env j st] assms(1) by simp
  then have "possible st2 n x" using assms(4) possible_disk by metis
  from put_possible [OF run assms(2,3) this] show ?thesis by simp
qed

lemma prune_fresh: "js_disk (snd (prune c env (fresh st))) = js_disk (snd (prune c env st)) \<and>
    js_records (snd (prune c env (fresh st))) = js_records (snd (prune c env st))"
proof -
  have loop: "prune_loop c ok is st = (r, t) \<Longrightarrow> js_disk st' = js_disk st \<Longrightarrow> js_records st' = js_records st \<Longrightarrow>
      \<exists>t'. prune_loop c ok is st' = (r, t') \<and> js_disk t' = js_disk t \<and> js_records t' = js_records t" for ok "is" st st' r t
    by (induction "is" arbitrary: st st') (auto simp: prune_loop.simps(2) Let_def split: if_splits)
  let ?is = "map fst (filter (\<lambda>(_, record). expired (pr_clock env) record) (js_records st))"
  obtain r t where t: "prune_loop c (pr_unlink env) ?is st = (r, t)" by fastforce
  from loop [OF this, of "fresh st"] obtain t' where "prune_loop c (pr_unlink env) ?is (fresh st) = (r, t')" "js_disk t' = js_disk t"
    "js_records t' = js_records t" by auto
  with t show ?thesis by (auto simp: prune_def Let_def split: sum.split)
qed

lemma prune_outcome:
  assumes "prune c env st = (r, st')" "outcome_at (js_disk st') n x"
  shows "outcome_at (js_disk st) n x \<or>
    x = None \<and> n \<in> journal_name c ` {i \<in> expired_ids (pr_clock env) st. map_of (js_records st') i = None}"
proof -
  obtain r' st2 where run: "prune c env (fresh st) = (r', st2)" by fastforce
  then have eq: "js_disk st2 = js_disk st'" "js_records st2 = js_records st'" using prune_fresh [of c env st] assms(1) by simp_all
  then have "possible st2 n x" using assms(2) possible_disk by metis
  from prune_spec(1) [OF run this] show ?thesis by (simp add: expired_ids_def eq)
qed

text \<open>Every operation keeps the invariant, whether it succeeds or not.\<close>

lemma length_update: "length (AList.update k v al) = (if k \<in> fst ` set al then length al else Suc (length al))"
  by (induction al) auto

lemma store_okI:
  assumes "distinct (map fst (js_records st))" "length (js_records st) \<le> MAX_TRANSFER_JOURNALS"
    "\<And>i j. map_of (js_records st) i = Some j \<Longrightarrow> i = jid j \<and> i \<in> ids \<and> byte_len (jr_cwd j) \<le> MAX_WORKSPACE_PATH_BYTES"
    "\<And>i j x. map_of (js_records st) i = Some j \<Longrightarrow> outcome_at (js_disk st) (journal_name c i) x \<Longrightarrow>
       \<exists>e. x = Some e \<and> readable c i e"
    "\<And>n bs. (n, bs) \<in> set (torn (js_disk st)) \<Longrightarrow> \<exists>x. n = u ''pending-'' @ x"
  shows "store_ok c ids st"
  unfolding store_ok_def using assms by (force simp: map_of_eq_Some_iff)

lemma outcome_settled:
  assumes "undo d = []" "\<forall>bs. (n, bs) \<notin> set (torn d)"
  shows "outcome_at d n x \<longleftrightarrow> x = entry_at d n"
  using assms by (auto simp: outcome_at_def split: option.splits)

lemma put_store_ok:
  assumes "put c env j st = (r, st')" "codec_ok c ids" "store_ok c ids st" "jid j \<in> ids"
    "byte_len (jr_cwd j) \<le> MAX_WORKSPACE_PATH_BYTES"
  shows "store_ok c ids st'"
proof (rule store_okI)
  have name: "journal_name c i \<noteq> pending_name env" for i by (rule journal_name_not_pending(1) [OF assms(2)])
  have new: "file_of c j e \<Longrightarrow> readable c (jid j) e" for e using file_of_readable [OF assms(2) _ assms(5)] .
  note records = put_records [OF assms(1)]
  show "distinct (map fst (js_records st'))" using records assms(3) by (simp add: distinct_update store_ok_def)
  show "length (js_records st') \<le> MAX_TRANSFER_JOURNALS"
    using records assms(1-3) put_stored(4) [of c env j st st' ids]
    by (auto simp: length_update store_ok_def map_of_eq_None_iff)
  show torn: "\<exists>x. n = u ''pending-'' @ x" if "(n, bs) \<in> set (torn (js_disk st'))" for n bs
    using torn_put [OF assms(1) that assms(2)] assms(3) by (auto simp: store_ok_def)
  fix i k
  assume k: "map_of (js_records st') i = Some k"
  have from_old: "map_of (js_records st) i = Some k" if "i \<noteq> jid j \<or> r \<noteq> Inr ()"
    using k that records by (auto simp: update_conv' split: if_splits)
  show "i = jid k \<and> i \<in> ids \<and> byte_len (jr_cwd k) \<le> MAX_WORKSPACE_PATH_BYTES"
  proof (cases "i \<noteq> jid j \<or> r \<noteq> Inr ()")
    case False
    then show ?thesis using k records assms(4,5) by (simp add: update_conv')
  qed (use from_old store_okD [OF assms(3)] in blast)
  fix x
  assume x: "outcome_at (js_disk st') (journal_name c i) x"
  show "\<exists>e. x = Some e \<and> readable c i e"
  proof (cases "i \<noteq> jid j \<or> r \<noteq> Inr ()")
    case True
    note st = store_okD [OF assms(3) from_old [OF True]]
    show ?thesis using put_outcome [OF assms(1,2) name x] st(2) st(4) [of x] journal_name_inj [OF assms(2) st(2) assms(4)] new by auto
  next
    case False
    then have ok: "put c env j st = (Inr (), st')" using assms(1) by simp
    have "\<forall>bs. (journal_name c i, bs) \<notin> set (torn (js_disk st'))"
      using torn journal_name_not_pending(1) [OF assms(2)] by blast
    then show ?thesis using x put_stored(1,3) [OF ok assms(2)] new False by (auto simp: outcome_settled)
  qed
qed

lemma prune_store_ok:
  assumes "prune c env st = (r, st')" "codec_ok c ids" "store_ok c ids st"
  shows "store_ok c ids st'"
proof (rule store_okI)
  note spec = prune_spec [OF assms(1)]
  show "distinct (map fst (js_records st'))" "length (js_records st') \<le> MAX_TRANSFER_JOURNALS"
    using spec(7,9) assms(3) by (auto simp: store_ok_def)
  show "\<exists>x. n = u ''pending-'' @ x" if "(n, bs) \<in> set (torn (js_disk st'))" for n bs
    using that spec(5) assms(3) by (auto simp: store_ok_def)
  fix i j
  assume j: "map_of (js_records st') i = Some j"
  have "(i, j) \<in> set (js_records st)" by (rule subsetD [OF spec(6) map_of_SomeD [OF j]])
  then have old: "map_of (js_records st) i = Some j" using assms(3) by (simp add: store_ok_def map_of_eq_Some_iff)
  note st = store_okD [OF assms(3) old]
  show "i = jid j \<and> i \<in> ids \<and> byte_len (jr_cwd j) \<le> MAX_WORKSPACE_PATH_BYTES" using st by blast
  fix x
  assume x: "outcome_at (js_disk st') (journal_name c i) x"
  have "journal_name c i \<notin> journal_name c ` {i \<in> expired_ids (pr_clock env) st. map_of (js_records st') i = None}"
  proof
    assume "journal_name c i \<in> journal_name c ` {i \<in> expired_ids (pr_clock env) st. map_of (js_records st') i = None}"
    then obtain k where k: "journal_name c i = journal_name c k" "k \<in> expired_ids (pr_clock env) st" "map_of (js_records st') k = None"
      by blast
    then have "k \<in> ids" using assms(3) by (auto simp: expired_ids_def store_ok_def)
    then have "i = k" using journal_name_inj [OF assms(2) st(2)] k(1) by blast
    then show False using j k(3) by simp
  qed
  then show "\<exists>e. x = Some e \<and> readable c i e" using prune_outcome [OF assms(1) x] st(4) by blast
qed

lemma reserve_cases:
  assumes "reserve_publication c env i cwd digest dir bound st = (r, st')"
  obtains (pruned) r1 e where "prune c (re_prune env) st = (r1, st')" "r = Inl e"
      "r1 = Inr () \<Longrightarrow> map_of (js_records st') i \<noteq> None \<Longrightarrow> e = TransferReplay"
  | (run) st1 j where "prune c (re_prune env) st = (Inr (), st1)" "put c (re_put env) j st1 = (r, st')"
      "map_of (js_records st1) i = None" "jid j = i" "pub_state (jr_status j) = Prepared" "jr_cwd j = cwd"
      "expires_at j = re_clock env + TRANSFER_TTL_MS"
proof -
  obtain r1 st1 where p: "prune c (re_prune env) st = (r1, st1)" by fastforce
  show ?thesis
  proof (cases r1)
    case (Inl e)
    then show ?thesis using assms p by (intro pruned [of r1 e]) (auto simp: reserve_publication_def)
  next
    case (Inr x)
    then have p': "prune c (re_prune env) st = (Inr (), st1)" using p by simp
    show ?thesis
    proof (cases "\<exists>e. r = Inl e \<and> st' = st1 \<and> (map_of (js_records st1) i \<noteq> None \<longrightarrow> e = TransferReplay)")
      case True
      then show ?thesis using p' by (auto intro: pruned)
    next
      case False
      then show ?thesis using assms p'
        by (auto simp: reserve_publication_def Let_def intro!: run [OF p'] split: option.splits if_splits)
    qed
  qed
qed

lemma reserve_store_ok:
  assumes "reserve_publication c env i cwd digest dir bound st = (r, st')" "codec_ok c ids" "store_ok c ids st" "i \<in> ids"
    "byte_len cwd \<le> MAX_WORKSPACE_PATH_BYTES"
  shows "store_ok c ids st'"
  using assms(1)
proof (cases rule: reserve_cases)
  case (pruned r1 e)
  then show ?thesis using prune_store_ok assms by blast
next
  case (run st1 j)
  then show ?thesis using prune_store_ok [OF run(1) assms(2,3)] put_store_ok [OF run(2) assms(2)] assms(4,5) by simp
qed

section \<open>Reading the directory back\<close>

definition record_entry :: "Codec \<Rightarrow> ustr \<Rightarrow> Entry \<Rightarrow> Journal \<Rightarrow> bool" where
  "record_entry c n e j \<longleftrightarrow> n \<noteq> u ''.lock'' \<and> \<not> is_pending c n \<and> entry_private e \<and>
     length (entry_bytes e) \<le> MAX_TRANSFER_JOURNAL_BYTES \<and> from_slice c (entry_bytes e) = Some j \<and>
     journal_name c (jid j) = n \<and> byte_len (jr_cwd j) \<le> MAX_WORKSPACE_PATH_BYTES"

lemma scan_Cons:
  assumes "scan_entries c k js ps ((n, e) # es) = Inr r"
  obtains (lock) "n = u ''.lock''" "scan_entries c (k + 1) js ps es = Inr r"
  | (pending) "n \<noteq> u ''.lock''" "is_pending c n" "entry_private e" "from_slice c (entry_bytes e) \<noteq> None"
      "scan_entries c (k + 1) js (ps @ [n]) es = Inr r"
  | (journal) j where "record_entry c n e j" "scan_entries c (k + 1) (js @ [j]) ps es = Inr r"
  using assms by (auto simp: record_entry_def split: if_splits option.splits)

declare scan_entries.simps(2) [simp del]

lemma scan_journals: "scan_entries c k js ps es = Inr (js', ps') \<Longrightarrow> j \<in> set js' \<longleftrightarrow> j \<in> set js \<or> (\<exists>n e. (n, e) \<in> set es \<and> record_entry c n e j)"
proof (induction es arbitrary: k js ps)
  case (Cons x es)
  obtain n e where x: "x = (n, e)" by fastforce
  from Cons.prems [unfolded x] show ?case
  proof (cases rule: scan_Cons)
    case lock
    then show ?thesis using Cons.IH [of "k + 1" js ps] by (auto simp: x record_entry_def)
  next
    case pending
    then show ?thesis using Cons.IH [of "k + 1" js "ps @ [n]"] by (auto simp: x record_entry_def)
  next
    case (journal j')
    moreover have "record_entry c n e j \<Longrightarrow> j = j'" using journal(1) by (auto simp: record_entry_def)
    ultimately show ?thesis using Cons.IH [of "k + 1" "js @ [j']" ps] by (auto simp: x)
  qed
qed simp

lemma scan_names:
  "scan_entries c k js ps es = Inr (js', ps') \<Longrightarrow> map (\<lambda>j. journal_name c (jid j)) js' =
     map (\<lambda>j. journal_name c (jid j)) js @ filter (\<lambda>n. n \<noteq> u ''.lock'' \<and> \<not> is_pending c n) (map fst es)"
proof (induction es arbitrary: k js ps)
  case (Cons x es)
  obtain n e where x: "x = (n, e)" by fastforce
  from Cons.prems [unfolded x] show ?case
    by (cases rule: scan_Cons) (use Cons.IH in \<open>auto simp: x record_entry_def\<close>)
qed simp

lemma scan_pending:
  "scan_entries c k js ps es = Inr (js', ps') \<Longrightarrow> set ps' = set ps \<union> {n \<in> fst ` set es. n \<noteq> u ''.lock'' \<and> is_pending c n}"
proof (induction es arbitrary: k js ps)
  case (Cons x es)
  obtain n e where x: "x = (n, e)" by fastforce
  from Cons.prems [unfolded x] show ?case
    by (cases rule: scan_Cons) (use Cons.IH in \<open>auto simp: x record_entry_def\<close>)
qed simp

lemma scan_reads_all:
  "scan_entries c k js ps es = Inr (js', ps') \<Longrightarrow> (n, e) \<in> set es \<Longrightarrow> n \<noteq> u ''.lock'' \<Longrightarrow>
     entry_private e \<and> from_slice c (entry_bytes e) \<noteq> None"
proof (induction es arbitrary: k js ps)
  case (Cons x es)
  obtain n' e' where x: "x = (n', e')" by fastforce
  from Cons.prems(1) [unfolded x] show ?case
    by (cases rule: scan_Cons) (use Cons.IH Cons.prems(2,3) in \<open>auto simp: x record_entry_def\<close>)
qed simp

lemma scan_distinct:
  assumes "scan_entries c k [] [] es = Inr (js, ps)" "distinct (map fst es)"
  shows "distinct (map jid js)"
proof -
  have "distinct (map (\<lambda>j. journal_name c (jid j)) js)" using scan_names [OF assms(1)] assms(2) by simp
  then show ?thesis by (auto simp: distinct_map inj_on_def)
qed

lemma pending_form: "is_pending c n \<Longrightarrow> n = u ''pending-'' @ drop 8 n"
proof -
  assume "is_pending c n"
  moreover have "length (u ''pending-'') = 8" by (simp add: u_def)
  ultimately have "take 8 n = u ''pending-''" by (simp add: is_pending_def starts_with_def)
  then show ?thesis by (metis append_take_drop_id)
qed

lemma unlink_pending_spec:
  "unlink_pending ok ns st = (b, st') \<Longrightarrow> n \<notin> set ns \<Longrightarrow>
     (possible st' n x \<longrightarrow> possible st n x) \<and> (outcome_at (js_disk st') n x \<longrightarrow> outcome_at (js_disk st) n x) \<and>
     js_records st' = js_records st \<and> torn (js_disk st') = torn (js_disk st)"
proof (induction ns arbitrary: st)
  case (Cons m ns)
  let ?st = "goto (disk_unlink m (js_disk st)) st"
  have "possible ?st n x \<Longrightarrow> possible st n x" by (erule possible_keep) (use Cons.prems(2) in \<open>simp add: outcome_other\<close>)
  moreover have "torn (disk_unlink m (js_disk st)) = torn (js_disk st)" by (simp add: disk_unlink_def)
  ultimately show ?case using Cons.prems Cons.IH [of ?st] by (auto simp: outcome_other split: if_splits)
qed simp

text \<open>Restoring the records that were read.\<close>

lemma settle_fields [simp]: "jid (settle j) = jid j" "jr_cwd (settle j) = jr_cwd j" "updated_at (settle j) = updated_at j"
  by (auto simp: settle_def)

lemma settle_state: "pub_state (jr_status (settle j)) \<notin> {Prepared, Publishing}"
  by (simp add: settle_def)

lemma settle_completed: "pub_state (jr_status (settle j)) = Completed \<Longrightarrow> settle j = j"
  by (auto simp: settle_def split: if_splits)

lemma restore_store_ok:
  "restore c penv js st = (r, st') \<Longrightarrow> codec_ok c ids \<Longrightarrow> store_ok c ids st \<Longrightarrow>
     \<forall>j\<in>set js. jid j \<in> ids \<and> byte_len (jr_cwd j) \<le> MAX_WORKSPACE_PATH_BYTES \<Longrightarrow> store_ok c ids st'"
proof (induction js arbitrary: st)
  case (Cons j js)
  obtain r1 st1 where p: "put c (penv (jid j)) (settle j) st = (r1, st1)" by fastforce
  have "store_ok c ids st1" using put_store_ok [OF p] Cons.prems by simp
  then show ?case using p Cons by (auto split: sum.splits)
qed simp

lemma restore_records:
  "restore c penv js st = (Inr (), st') \<Longrightarrow> distinct (map jid js) \<Longrightarrow>
     map_of (js_records st') i = (case find (\<lambda>j. jid j = i) js of Some j \<Rightarrow> Some (settle j) | None \<Rightarrow> map_of (js_records st) i)"
proof (induction js arbitrary: st)
  case (Cons j js)
  then obtain st1 where p: "put c (penv (jid j)) (settle j) st = (Inr (), st1)" "restore c penv js st1 = (Inr (), st')"
    by (auto split: prod.splits sum.splits)
  have "map_of (js_records st1) i = (if i = jid j then Some (settle j) else map_of (js_records st) i)"
    using put_records [OF p(1)] by (simp add: update_conv')
  moreover have "i = jid j \<Longrightarrow> find (\<lambda>j. jid j = i) js = None"
    using Cons.prems(2) by (auto simp: find_None_iff) (metis image_eqI)
  ultimately show ?case using Cons.IH [OF p(2)] Cons.prems(2) by (auto split: option.splits)
qed simp

lemma restore_possible:
  "restore c penv js st = (r, st') \<Longrightarrow> codec_ok c ids \<Longrightarrow> possible st' (journal_name c i) x \<Longrightarrow>
     possible st (journal_name c i) x \<or>
     (\<exists>j\<in>set js. journal_name c i = journal_name c (jid j) \<and> (\<exists>e. x = Some e \<and> file_of c (settle j) e))"
proof (induction js arbitrary: st)
  case (Cons j js)
  obtain r1 st1 where p: "put c (penv (jid j)) (settle j) st = (r1, st1)" by fastforce
  have "possible st1 (journal_name c i) x \<Longrightarrow> possible st (journal_name c i) x \<or>
      journal_name c i = journal_name c (jid j) \<and> (\<exists>e. x = Some e \<and> file_of c (settle j) e)"
    using put_possible [OF p Cons.prems(2) journal_name_not_pending(1) [OF Cons.prems(2)]] by simp
  then show ?case using p Cons by (auto split: sum.splits)
qed simp

section \<open>Recovery\<close>

text \<open>The records of a directory, all with identifiers in a given set.\<close>

definition dir_ok :: "Codec \<Rightarrow> Identifier set \<Rightarrow> (ustr \<times> Entry) list \<Rightarrow> bool" where
  "dir_ok c ids es \<longleftrightarrow> distinct (map fst es) \<and> (\<forall>n e j. (n, e) \<in> set es \<longrightarrow> record_entry c n e j \<longrightarrow> jid j \<in> ids)"

definition recorded :: "Codec \<Rightarrow> (ustr \<times> Entry) list \<Rightarrow> Journal \<Rightarrow> bool" where
  "recorded c es j \<longleftrightarrow> (\<exists>n e. (n, e) \<in> set es \<and> record_entry c n e j)"

lemma recover_cases:
  assumes "recover c env es = (r, st)"
  defines "d \<equiv> \<lparr>vis = es, undo = [], torn = []\<rparr>"
  defines "st0 \<equiv> \<lparr>js_disk = d, js_records = [], visited = [d]\<rparr>"
  obtains (refused) e where "r = Inl e" "st = st0"
  | (cleaning) js ps where "scan_entries c 0 [] [] es = Inr (js, ps)" "unlink_pending (rv_unlink env) ps st0 = (False, st)" "r = Inl TransferStorage"
  | (restoring) js ps st1 e where "scan_entries c 0 [] [] es = Inr (js, ps)" "unlink_pending (rv_unlink env) ps st0 = (True, st1)"
      "restore c (rv_put env) js st1 = (Inl e, st)" "r = Inl e"
  | (pruning) js ps st1 st2 where "scan_entries c 0 [] [] es = Inr (js, ps)" "unlink_pending (rv_unlink env) ps st0 = (True, st1)"
      "restore c (rv_put env) js st1 = (Inr (), st2)" "prune c (rv_prune env) st2 = (r, st)"
  using assms unfolding recover_def Let_def d_def [symmetric] st0_def [symmetric]
  by (auto split: sum.splits prod.splits if_splits bool.splits)

lemma recover_start:
  assumes "scan_entries c 0 [] [] es = Inr (js, ps)"
    "unlink_pending ok ps \<lparr>js_disk = \<lparr>vis = es, undo = [], torn = []\<rparr>, js_records = [], visited = [\<lparr>vis = es, undo = [], torn = []\<rparr>]\<rparr> = (b, st1)"
    "codec_ok c ids"
  shows "store_ok c ids st1" "js_records st1 = []" "possible st1 (journal_name c i) x \<Longrightarrow> x = map_of es (journal_name c i)"
proof -
  have out: "journal_name c i \<notin> set ps" for i
    using scan_pending [OF assms(1)] pending_form journal_name_not_pending(1) [OF assms(3)] by fastforce
  note u = unlink_pending_spec [OF assms(2) out]
  show r: "js_records st1 = []" using u by simp
  show "store_ok c ids st1" using u r by (simp add: store_ok_def)
  show "possible st1 (journal_name c i) x \<Longrightarrow> x = map_of es (journal_name c i)"
  proof -
    let ?d = "\<lparr>vis = es, undo = [], torn = []\<rparr>"
    assume "possible st1 (journal_name c i) x"
    then have "possible \<lparr>js_disk = ?d, js_records = [], visited = [?d]\<rparr> (journal_name c i) x" using u by blast
    then show ?thesis by (auto simp: possible_def passed_def outcome_settled entry_at_def)
  qed
qed

lemma find_recorded:
  assumes "scan_entries c 0 [] [] es = Inr (js, ps)" "distinct (map fst es)"
  shows "find (\<lambda>j. jid j = i) js = Some j \<longleftrightarrow> recorded c es j \<and> jid j = i"
proof
  assume "find (\<lambda>j. jid j = i) js = Some j"
  then have "j \<in> set js" "jid j = i" by (auto simp: find_Some_iff)
  then show "recorded c es j \<and> jid j = i" using scan_journals [OF assms(1)] by (auto simp: recorded_def)
next
  assume "recorded c es j \<and> jid j = i"
  then have j: "j \<in> set js" "jid j = i" using scan_journals [OF assms(1)] by (auto simp: recorded_def)
  then obtain k where k: "find (\<lambda>j. jid j = i) js = Some k" by (cases "find (\<lambda>j. jid j = i) js") (auto simp: find_None_iff)
  then have "k \<in> set js" "jid k = i" by (auto simp: find_Some_iff)
  then have "k = j" using j scan_distinct [OF assms] by (auto simp: distinct_map inj_on_def)
  with k show "find (\<lambda>j. jid j = i) js = Some j" by simp
qed

lemma expired_settled: "store_ok c ids st \<Longrightarrow> map_of (js_records st) i = Some j \<Longrightarrow> i \<in> expired_ids k st \<longleftrightarrow> expired k j"
proof -
  assume "store_ok c ids st" "map_of (js_records st) i = Some j"
  then have "(i, k) \<in> set (js_records st) \<longleftrightarrow> k = j" for k
    using map_of_eq_Some_iff [of "js_records st" i k] unfolding store_ok_def by force
  then show ?thesis by (force simp: expired_ids_def)
qed

text \<open>After the records were put back, before pruning.\<close>

lemma recover_restore:
  fixes es
  defines "d \<equiv> \<lparr>vis = es, undo = [], torn = []\<rparr>"
  assumes "scan_entries c 0 [] [] es = Inr (js, ps)"
    "unlink_pending ok ps \<lparr>js_disk = d, js_records = [], visited = [d]\<rparr> = (b, st1)"
    "restore c penv js st1 = (r, st2)" "codec_ok c ids" "dir_ok c ids es"
  shows "store_ok c ids st2"
    "r = Inr () \<Longrightarrow> map_of (js_records st2) i = Some j \<longleftrightarrow> (\<exists>j0. recorded c es j0 \<and> jid j0 = i \<and> j = settle j0)"
    "i \<in> ids \<Longrightarrow> map_of es (journal_name c i) = Some e \<Longrightarrow> readable c i e \<Longrightarrow> possible st2 (journal_name c i) x \<Longrightarrow>
       \<exists>e'. x = Some e' \<and> readable c i e'"
proof -
  have dist: "distinct (map fst es)" using assms(6) by (simp add: dir_ok_def)
  note start = recover_start [OF assms(2) assms(3) [unfolded d_def] assms(5)]
  have all_ok: "\<forall>j\<in>set js. jid j \<in> ids \<and> byte_len (jr_cwd j) \<le> MAX_WORKSPACE_PATH_BYTES"
    using scan_journals [OF assms(2)] assms(6) by (auto simp: dir_ok_def record_entry_def)
  show "store_ok c ids st2" by (rule restore_store_ok [OF assms(4,5) start(1) all_ok])
  have f: "find (\<lambda>j. jid j = i) js = Some k \<longleftrightarrow> recorded c es k \<and> jid k = i" for k by (rule find_recorded [OF assms(2) dist])
  show "map_of (js_records st2) i = Some j \<longleftrightarrow> (\<exists>j0. recorded c es j0 \<and> jid j0 = i \<and> j = settle j0)" if "r = Inr ()"
    using restore_records [OF assms(4) [unfolded that] scan_distinct [OF assms(2) dist], of i] start(2) f
    by (cases "find (\<lambda>j. jid j = i) js") (force, metis option.inject option.simps(5))
  show "\<exists>e'. x = Some e' \<and> readable c i e'"
    if i: "i \<in> ids" "map_of es (journal_name c i) = Some e" "readable c i e" and x: "possible st2 (journal_name c i) x"
    using restore_possible [OF assms(4,5) x]
  proof (elim disjE bexE conjE exE)
    assume "possible st1 (journal_name c i) x"
    then show ?thesis using start(3) i by auto
  next
    fix j e'
    assume j: "j \<in> set js" "journal_name c i = journal_name c (jid j)" "x = Some e'" "file_of c (settle j) e'"
    then have "i = jid j" using journal_name_inj [OF assms(5) i(1)] all_ok by blast
    then show ?thesis using j file_of_readable [OF assms(5) j(4)] all_ok by auto
  qed
qed

lemma recover_success:
  assumes "recover c env es = (Inr (), st)" "codec_ok c ids" "dir_ok c ids es"
  shows "store_ok c ids st"
    "map_of (js_records st) i = Some j \<longleftrightarrow>
       (\<exists>j0. recorded c es j0 \<and> jid j0 = i \<and> j = settle j0 \<and> \<not> expired (pr_clock (rv_prune env)) j)"
proof -
  from assms(1) obtain js ps st1 st2 where run: "scan_entries c 0 [] [] es = Inr (js, ps)"
    "unlink_pending (rv_unlink env) ps \<lparr>js_disk = \<lparr>vis = es, undo = [], torn = []\<rparr>, js_records = [],
       visited = [\<lparr>vis = es, undo = [], torn = []\<rparr>]\<rparr> = (True, st1)"
    "restore c (rv_put env) js st1 = (Inr (), st2)" "prune c (rv_prune env) st2 = (Inr (), st)"
    by (cases rule: recover_cases) auto
  note restored = recover_restore [OF run(1-3) assms(2,3)]
  show "store_ok c ids st" by (rule prune_store_ok [OF run(4) assms(2) restored(1)])
  have "map_of (js_records st) i = Some j \<longleftrightarrow> map_of (js_records st2) i = Some j \<and> \<not> expired (pr_clock (rv_prune env)) j"
    using prune_spec(3) [OF run(4) refl, of i] expired_settled [OF restored(1), of i j] by auto
  then show "map_of (js_records st) i = Some j \<longleftrightarrow>
      (\<exists>j0. recorded c es j0 \<and> jid j0 = i \<and> j = settle j0 \<and> \<not> expired (pr_clock (rv_prune env)) j)"
    unfolding restored(2) [OF refl] by blast
qed

text \<open>
  In the course of a recovery, successful or not, an identifier whose record was readable stays
  readable, unless the record is one that pruning removes.
\<close>

lemma recover_possible:
  assumes "recover c env es = (r, st)" "codec_ok c ids" "dir_ok c ids es" "i \<in> ids"
    "map_of es (journal_name c i) = Some e" "readable c i e" "possible st (journal_name c i) x"
  shows "(\<exists>e'. x = Some e' \<and> readable c i e') \<or>
    x = None \<and> (\<exists>j. recorded c es j \<and> jid j = i \<and> expired (pr_clock (rv_prune env)) (settle j))"
  using assms(1)
proof (cases rule: recover_cases)
  case (refused e)
  then show ?thesis using assms(5-7) by (auto simp: possible_def passed_def outcome_settled entry_at_def)
next
  case (cleaning js ps)
  then show ?thesis using recover_start(3) [OF cleaning(1,2) assms(2,7)] assms(5,6) by auto
next
  case (restoring js ps st1 e)
  then show ?thesis using recover_restore(3) [OF restoring(1-3) assms(2-7)] by blast
next
  case (pruning js ps st1 st2)
  note restored = recover_restore [OF pruning(1-3) assms(2,3)]
  from prune_spec(1) [OF pruning(4) assms(7)] show ?thesis
  proof (elim disjE conjE)
    assume "possible st2 (journal_name c i) x"
    then show ?thesis using restored(3) [OF assms(4-6)] by blast
  next
    assume x: "x = None" and "journal_name c i \<in> journal_name c ` {k \<in> expired_ids (pr_clock (rv_prune env)) st2. map_of (js_records st) k = None}"
    then obtain k where k: "journal_name c i = journal_name c k" "k \<in> expired_ids (pr_clock (rv_prune env)) st2" by blast
    then obtain j where j: "(k, j) \<in> set (js_records st2)" "expired (pr_clock (rv_prune env)) j" by (auto simp: expired_ids_def)
    have "k \<in> ids" using j(1) restored(1) by (auto simp: store_ok_def)
    then have "k = i" using journal_name_inj [OF assms(2,4)] k(1) by blast
    moreover have "map_of (js_records st2) k = Some j" using j(1) restored(1) by (simp add: store_ok_def map_of_eq_Some_iff)
    ultimately show ?thesis using x j(2) restored(2) [OF refl] by auto
  qed
qed

section \<open>Properties of the store\<close>

text \<open>
  C6. Writing a record is atomic. Whatever the system calls of a \<open>put\<close> answer and at whatever point of
  its course the machine stops, the directory that is left shows every other record as it was, and
  the record's own file as it was or holding exactly the new record; once the call has succeeded it
  is the new record. Only a pending file may be left over.
\<close>

theorem put_atomic:
  assumes "codec_ok c ids" "quiet st" "put c env j st = (r, st')" "d \<in> passed st'" "crash_image d es" "n \<noteq> pending_name env"
  shows "(map_of es n = entry_at (js_disk st) n \<or>
      n = journal_name c (jid j) \<and> (\<exists>e. map_of es n = Some e \<and> file_of c j e)) \<and>
    (r = Inr () \<and> d = js_disk st' \<and> n = journal_name c (jid j) \<longrightarrow> (\<exists>e. map_of es n = Some e \<and> file_of c j e))"
proof -
  have out: "outcome_at d n (map_of es n)" using assms(5) by (simp add: crash_image_def)
  then have "possible st' n (map_of es n)" using assms(4) by (auto simp: possible_def)
  then have a: "map_of es n = entry_at (js_disk st) n \<or>
      n = journal_name c (jid j) \<and> (\<exists>e. map_of es n = Some e \<and> file_of c j e)"
    using put_possible [OF assms(3,1,6)] quiet_possible [OF assms(2)] by simp
  have b: "\<exists>e. map_of es n = Some e \<and> file_of c j e" if "r = Inr ()" "d = js_disk st'" "n = journal_name c (jid j)"
  proof -
    have ok: "put c env j st = (Inr (), st')" using assms(3) that(1) by simp
    have "undo d = []" "torn d = []" using put_stored(3) [OF ok assms(1)] assms(2) that(2) by (auto simp: quiet_def)
    then show ?thesis using out put_stored(1) [OF ok assms(1)] that by (auto simp: outcome_settled)
  qed
  from a b show ?thesis by blast
qed

text \<open>
  C8. Recovery never invents an outcome. When a store opens, what it knows is exactly what the directory
  records, less the outcomes that have been kept long enough; a publication that was under way is
  indeterminate, one that was only prepared is cancelled, and every other record is unchanged, so
  nothing is prepared or publishing, and a record is completed only where the directory says so.
\<close>

theorem recovery_settles:
  assumes "codec_ok c ids" "dir_ok c ids es" "recover c env es = (Inr (), st)"
  shows "(get st i = Some j \<longleftrightarrow>
      (\<exists>j0. recorded c es j0 \<and> jid j0 = i \<and> j = settle j0 \<and> \<not> expired (pr_clock (rv_prune env)) j)) \<and>
    (get st i = Some j \<longrightarrow> pub_state (jr_status j) \<notin> {Prepared, Publishing} \<and>
      (pub_state (jr_status j) = Completed \<longrightarrow> recorded c es j)) \<and> store_ok c ids st"
proof -
  have g: "get st i = Some j \<longleftrightarrow> (\<exists>j0. recorded c es j0 \<and> jid j0 = i \<and> j = settle j0 \<and> \<not> expired (pr_clock (rv_prune env)) j)"
    unfolding get_def by (rule recover_success(2) [OF assms(3,1,2)])
  moreover have "pub_state (jr_status j) \<notin> {Prepared, Publishing} \<and> (pub_state (jr_status j) = Completed \<longrightarrow> recorded c es j)"
    if "get st i = Some j"
    using that settle_state settle_completed unfolding g by metis
  ultimately show ?thesis using recover_success(1) [OF assms(3,1,2)] by blast
qed

lemma crash_vis: "distinct (map fst (vis d)) \<Longrightarrow> crash_image d (vis d)"
  by (simp add: crash_image_def outcome_at_def entry_at_def)

lemma put_body_visited: "put_body env p name bs st = (ok, st') \<Longrightarrow> set (visited st) \<subseteq> set (visited st')"
  by (auto simp: put_body_def Let_def split: option.splits if_splits)

text \<open>
  C29. A crash while a record is being written can lock the store. The moment after the pending file is
  created and before it is written, a crash leaves an empty pending file; opening validates every
  file before it removes the leftovers, an empty file is no record, and so every later attempt to
  open the store is refused and leaves the directory as it is.
\<close>

theorem torn_pending_blocks_recovery:
  assumes "to_vec c j = Some bs" "length bs \<le> MAX_TRANSFER_JOURNAL_BYTES" "length (js_records st) < MAX_TRANSFER_JOURNALS"
    "pe_open env" "entry_at (js_disk st) (pending_name env) = None" "distinct (map fst (vis (js_disk st)))"
    "from_slice c [] = None" "put c env j st = (r, st')"
  shows "\<exists>d\<in>passed st'. \<exists>es. crash_image d es \<and>
    (\<forall>renv. \<exists>e st0. recover c renv es = (Inl e, st0) \<and> vis (js_disk st0) = es)"
proof -
  let ?p = "pending_name env" let ?d = "disk_create (pending_name env) (js_disk st)"
  have room: "\<not> (length (js_records st) + 1) * MAX_TRANSFER_JOURNAL_BYTES > MAX_TRANSFER_JOURNAL_STORAGE_BYTES"
    using assms(3) by (simp add: MAX_TRANSFER_JOURNAL_STORAGE_BYTES_def MAX_TRANSFER_JOURNALS_def MAX_TRANSFER_JOURNAL_BYTES_def)
  obtain ok st1 where b: "put_body env ?p (journal_name c (jid j)) bs (goto ?d st) = (ok, st1)" by fastforce
  have "set (visited st1) \<subseteq> set (visited st')"
    using assms(1,2,4,5,8) room b by (auto simp: put_def Let_def split: if_splits)
  then have passed: "?d \<in> passed st'" using put_body_visited [OF b] by (auto simp: passed_def)
  let ?es = "vis ?d"
  have crash: "crash_image ?d ?es" using assms(6) by (intro crash_vis) (simp add: disk_create_def distinct_update)
  have "map_of ?es ?p = Some \<lparr>entry_private = True, entry_bytes = []\<rparr>"
    using entry_at_simps(1) [of ?p "js_disk st" ?p] by (simp add: entry_at_def)
  then have mem: "(?p, \<lparr>entry_private = True, entry_bytes = []\<rparr>) \<in> set ?es" by (rule map_of_SomeD)
  have "?p \<noteq> u ''.lock''" by (simp add: u_def)
  then have "\<exists>e. scan_entries c 0 [] [] ?es = Inl e"
    using scan_reads_all [of c 0 "[]" "[]" ?es, OF _ mem] assms(7) by (cases "scan_entries c 0 [] [] ?es") force+
  then have "\<exists>e st0. recover c renv ?es = (Inl e, st0) \<and> vis (js_disk st0) = ?es" for renv
    by (auto simp: recover_def Let_def)
  then show ?thesis using passed crash by blast
qed

text \<open>With nothing in its way, a record is written.\<close>

lemma put_succeeds:
  assumes "to_vec c j = Some bs" "length bs \<le> MAX_TRANSFER_JOURNAL_BYTES" "length (js_records st) < MAX_TRANSFER_JOURNALS"
    "entry_at (js_disk st) (pending_name env) = None" "pe_open env" "pe_written env = None" "pe_fsync env" "pe_rename env" "pe_dirsync env"
  shows "\<exists>st'. put c env j st = (Inr (), st')"
proof -
  have "\<not> (length (js_records st) + 1) * MAX_TRANSFER_JOURNAL_BYTES > MAX_TRANSFER_JOURNAL_STORAGE_BYTES"
    using assms(3) by (simp add: MAX_TRANSFER_JOURNAL_STORAGE_BYTES_def MAX_TRANSFER_JOURNALS_def MAX_TRANSFER_JOURNAL_BYTES_def)
  then show ?thesis using assms by (auto simp: put_def put_body_def Let_def)
qed

lemma disk_distinct:
  "distinct (map fst (vis d)) \<Longrightarrow> distinct (map fst (vis (disk_create n d)))"
  "distinct (map fst (vis d)) \<Longrightarrow> distinct (map fst (vis (disk_write n bs d)))"
  "distinct (map fst (vis d)) \<Longrightarrow> distinct (map fst (vis (disk_rename a b d)))"
  "distinct (map fst (vis d)) \<Longrightarrow> distinct (map fst (vis (disk_unlink n d)))"
  "vis (disk_fsync n d) = vis d" "vis (disk_sync d) = vis d"
  by (auto simp: disk_defs distinct_update distinct_delete split: option.splits)

lemma put_distinct:
  assumes "put c env j st = (r, st')" "distinct (map fst (vis (js_disk st)))"
  shows "distinct (map fst (vis (js_disk st')))"
  using assms(1)
proof (cases rule: put_cases)
  case (run bs ok st1)
  have "distinct (map fst (vis (js_disk st1)))"
    using run(6) disk_distinct(1) [OF assms(2)] by (auto simp: put_body_def Let_def disk_distinct split: option.splits if_splits)
  then show ?thesis using run(7) by (simp add: Let_def disk_distinct)
qed (use assms(2) in simp)

section \<open>A concrete store\<close>

definition sample_journal :: Journal where
  "sample_journal = \<lparr>jr_status = \<lparr>publication_id = u ''p'', pub_state = Publishing, preparation_id = None, invocation_id = None,
       request_digest = None, status_file = None\<rparr>, jr_directory = None, jr_cwd = [], updated_at = 0, expires_at = 0\<rparr>"

definition sample_codec :: Codec where
  "sample_codec = \<lparr>sha256 = \<lambda>i. map (\<lambda>x. x mod 256) (take 32 (i @ replicate 32 0)),
     to_vec = \<lambda>j. if j = sample_journal then Some [1] else if j = settle sample_journal then Some [2] else None,
     from_slice = \<lambda>bs. if bs = [1] then Some sample_journal else if bs = [2] then Some (settle sample_journal) else None,
     uuid_ok = \<lambda>s. s = u ''uuid''\<rparr>"

definition sample_put :: PutEnv where
  "sample_put = \<lparr>pe_uuid = u ''uuid'', pe_open = True, pe_written = None, pe_fsync = True, pe_rename = True,
     pe_dirsync = True, pe_unlink = True\<rparr>"

definition sample_store :: JournalStore where
  "sample_store = \<lparr>js_disk = \<lparr>vis = [], undo = [], torn = []\<rparr>, js_records = [], visited = []\<rparr>"

lemma sample_codec_ok: "codec_ok sample_codec {u ''p''}"
  by (auto simp: codec_ok_def sample_codec_def split: if_splits)

lemma sample_put_runs: "\<exists>st'. put sample_codec sample_put sample_journal sample_store = (Inr (), st') \<and>
    distinct (map fst (vis (js_disk st')))"
proof -
  have "\<exists>st'. put sample_codec sample_put sample_journal sample_store = (Inr (), st')"
    by (rule put_succeeds [where bs = "[1]"])
      (simp_all add: sample_codec_def sample_journal_def sample_store_def sample_put_def entry_at_def
        MAX_TRANSFER_JOURNAL_BYTES_def MAX_TRANSFER_JOURNALS_def)
  moreover have "distinct (map fst (vis (js_disk sample_store)))" by (simp add: sample_store_def)
  ultimately show ?thesis using put_distinct by blast
qed

theorem put_atomic_witness:
  "\<exists>st' es. put sample_codec sample_put sample_journal sample_store = (Inr (), st') \<and> crash_image (js_disk st') es \<and>
     (\<exists>e. map_of es (journal_name sample_codec (u ''p'')) = Some e \<and> file_of sample_codec sample_journal e)"
proof -
  obtain st' where run: "put sample_codec sample_put sample_journal sample_store = (Inr (), st')" "distinct (map fst (vis (js_disk st')))"
    using sample_put_runs by blast
  have q: "quiet sample_store" by (simp add: quiet_def sample_store_def)
  have p: "js_disk st' \<in> passed st'" by (simp add: passed_def)
  have "jid sample_journal = u ''p''" by (simp add: sample_journal_def)
  then show ?thesis
    using put_atomic [OF sample_codec_ok q run(1) p crash_vis [OF run(2)] journal_name_not_pending(1) [OF sample_codec_ok, of "u ''p''"]]
      run(1) crash_vis [OF run(2)] by auto
qed

theorem torn_pending_blocks_recovery_witness:
  "\<exists>st'. \<exists>d\<in>passed st'. \<exists>es. put sample_codec sample_put sample_journal sample_store = (Inr (), st') \<and> crash_image d es \<and>
     (\<forall>renv. \<exists>e st0. recover sample_codec renv es = (Inl e, st0) \<and> vis (js_disk st0) = es)"
proof -
  obtain st' where run: "put sample_codec sample_put sample_journal sample_store = (Inr (), st')" using sample_put_runs by blast
  have "\<exists>d\<in>passed st'. \<exists>es. crash_image d es \<and>
      (\<forall>renv. \<exists>e st0. recover sample_codec renv es = (Inl e, st0) \<and> vis (js_disk st0) = es)"
    by (rule torn_pending_blocks_recovery [OF _ _ _ _ _ _ _ run, of "[1]"])
      (simp_all add: sample_codec_def sample_journal_def sample_store_def sample_put_def entry_at_def
        MAX_TRANSFER_JOURNAL_BYTES_def MAX_TRANSFER_JOURNALS_def)
  with run show ?thesis by blast
qed

definition sample_recover :: RecoverEnv where
  "sample_recover = \<lparr>rv_unlink = \<lambda>_. True, rv_put = \<lambda>_. sample_put, rv_prune = \<lparr>pr_clock = 0, pr_unlink = \<lambda>_. True, pr_sync = True\<rparr>\<rparr>"

definition sample_files :: "(ustr \<times> Entry) list" where
  "sample_files = [(journal_name sample_codec (u ''p''), \<lparr>entry_private = True, entry_bytes = [1]\<rparr>)]"

lemma sample_recovers: "\<exists>st. recover sample_codec sample_recover sample_files = (Inr (), st)"
proof -
  let ?n = "journal_name sample_codec (u ''p'')"
  let ?d = "\<lparr>vis = sample_files, undo = [], torn = []\<rparr>"
  let ?st = "\<lparr>js_disk = ?d, js_records = [], visited = [?d]\<rparr>"
  note name = journal_name_not_pending [OF sample_codec_ok] journal_name_shape [OF sample_codec_ok]
  have f: "from_slice sample_codec [1] = Some sample_journal" "jid sample_journal = u ''p''" "jr_cwd sample_journal = []"
    by (simp_all add: sample_codec_def sample_journal_def)
  have scan: "scan_entries sample_codec 0 [] [] sample_files = Inr ([sample_journal], [])"
    using name f by (simp add: sample_files_def scan_entries.simps MAX_TRANSFER_JOURNALS_def MAX_TRANSFER_JOURNAL_BYTES_def)
  have "sample_journal \<noteq> settle sample_journal" by (simp add: settle_def sample_journal_def)
  then have v: "to_vec sample_codec (settle sample_journal) = Some [2]" by (simp add: sample_codec_def)
  have "\<exists>st'. put sample_codec sample_put (settle sample_journal) ?st = (Inr (), st')"
    by (rule put_succeeds [OF v])
      (use name(1) [of "u ''p''" "u ''uuid''", symmetric] in \<open>simp_all add: sample_put_def entry_at_def sample_files_def MAX_TRANSFER_JOURNAL_BYTES_def MAX_TRANSFER_JOURNALS_def\<close>)
  then obtain st' where p: "put sample_codec sample_put (settle sample_journal) ?st = (Inr (), st')" by blast
  have "js_records st' = [(u ''p'', settle sample_journal)]" using put_records [OF p] f by simp
  moreover have "\<not> expired 0 (settle sample_journal)" by (simp add: expired_def)
  ultimately have "\<exists>st. prune sample_codec (rv_prune sample_recover) st' = (Inr (), st)" by (simp add: prune_def sample_recover_def)
  then show ?thesis using scan p by (simp add: recover_def Let_def sample_recover_def MAX_TRANSFER_JOURNALS_def)
qed

text \<open>A publication that was under way is indeterminate afterwards.\<close>

theorem recovery_settles_witness:
  "\<exists>st j. recover sample_codec sample_recover sample_files = (Inr (), st) \<and> get st (u ''p'') = Some j \<and>
     pub_state (jr_status j) = Indeterminate"
proof -
  obtain st where run: "recover sample_codec sample_recover sample_files = (Inr (), st)" using sample_recovers by blast
  have f: "from_slice sample_codec [1] = Some sample_journal" "jid sample_journal = u ''p''" "jr_cwd sample_journal = []"
    by (simp_all add: sample_codec_def sample_journal_def)
  have rec: "record_entry sample_codec n e j \<longleftrightarrow> j = sample_journal" if "(n, e) \<in> set sample_files" for n e j
    using that f journal_name_not_pending(2) [OF sample_codec_ok] journal_name_shape(3) [OF sample_codec_ok]
    by (auto simp: sample_files_def record_entry_def MAX_TRANSFER_JOURNAL_BYTES_def)
  have d: "dir_ok sample_codec {u ''p''} sample_files" using rec f by (auto simp: dir_ok_def) (simp add: sample_files_def)
  have "recorded sample_codec sample_files sample_journal" using rec by (auto simp: recorded_def sample_files_def)
  moreover have "\<not> expired (pr_clock (rv_prune sample_recover)) (settle sample_journal)" by (simp add: expired_def sample_recover_def)
  ultimately have "get st (u ''p'') = Some (settle sample_journal)"
    using recovery_settles [OF sample_codec_ok d run, of "u ''p''" "settle sample_journal"] f by blast
  moreover have "pub_state (jr_status (settle sample_journal)) = Indeterminate" by (simp add: settle_def sample_journal_def)
  ultimately show ?thesis using run by blast
qed

end
