(* ===== verification/Reviewed_Transfer.thy ===== *)
theory Reviewed_Transfer
  imports Transfer_Journal
begin

text \<open>
  Reviewed transfers (\<open>src/transfer/reviewed.rs\<close>, \<open>src/transfer/directory.rs\<close> and the upload and range
  logic of \<open>src/transfer/reviewed_http.rs\<close>): stages with their quotas, sealing, the claim of a sealed
  stage by a publication, the fence that is written before a publication takes effect, and the
  record of its outcome. The file tools and the clocks are parameters. Every operation that holds a
  lock is one step; steps of different requests interleave.
\<close>

section \<open>Bindings and slots\<close>

record HostBinding =
  server_id :: Identifier
  instance_id :: Identifier
  workspace_id :: Identifier
  workspace_generation :: Identifier
  root_project_id :: Identifier
  principal_id :: Identifier
  hb_cwd_handle :: ustr
  catalog_revision :: Revision
  policy_revision :: Revision

record WorkspaceRequestBinding =
  wb_host :: HostBinding
  wb_cwd_handle :: ustr

text \<open>A private file is its content.\<close>

datatype SlotData =
  Empty | Uploading | Uploaded bytes Revision nat | Sealed bytes | Claimed | Download ustr TransferFile

text \<open>
  A slot is shared between the registry and the requests and publications that hold it;
  \<open>slot_holders\<close> counts the latter. It is dropped when nobody has it.
\<close>

record Slot =
  slot_binding :: WorkspaceRequestBinding
  slot_expires :: nat
  slot_cancelled :: bool
  slot_size :: nat
  slot_digest :: Revision
  slot_data :: SlotData
  slot_registered :: bool
  slot_holders :: nat

record Manager =
  mg_host :: HostBinding
  mg_maximum :: nat
  mg_slots :: "(Identifier \<times> Slot) list"
  mg_count :: nat
  mg_bytes :: nat
  mg_io :: nat
  mg_journals :: JournalStore

definition MAX_TRANSFER_STAGES :: nat where "MAX_TRANSFER_STAGES = 32"
definition MAX_TRANSFER_RESERVED_BYTES :: nat where "MAX_TRANSFER_RESERVED_BYTES = 512 * 1024 * 1024"
definition MAX_TRANSFER_CONCURRENCY :: nat where "MAX_TRANSFER_CONCURRENCY = 4"

definition open_manager :: "HostBinding \<Rightarrow> nat \<Rightarrow> JournalStore \<Rightarrow> Manager" where
  "open_manager host maximum journals =
     \<lparr>mg_host = host, mg_maximum = min maximum MAX_TRANSFER_RESERVED_BYTES, mg_slots = [], mg_count = 0, mg_bytes = 0,
      mg_io = MAX_TRANSFER_CONCURRENCY, mg_journals = journals\<rparr>"

text \<open>\<open>workspace_directory_path\<close> of the file tools: the path of a directory handle that is still valid.\<close>

definition validate_binding :: "(ustr \<Rightarrow> ustr option) \<Rightarrow> Manager \<Rightarrow> WorkspaceRequestBinding \<Rightarrow> TransferError + ustr" where
  "validate_binding dir_path m b =
     (if wb_host b \<noteq> mg_host m then Inl TransferBinding
      else case dir_path (wb_cwd_handle b) of None \<Rightarrow> Inl TransferBinding | Some p \<Rightarrow> Inr p)"

definition valid_digest :: "Revision \<Rightarrow> bool" where
  "valid_digest digest =
     (case strip_prefix digest (u ''sha256:'') of
        None \<Rightarrow> False
      | Some hex \<Rightarrow> byte_len hex = 64 \<and> list_all (\<lambda>b. is_ascii_digit b \<or> 97 \<le> b \<and> b \<le> 102) hex)"

definition insert_slot ::
  "Identifier \<Rightarrow> nat \<Rightarrow> WorkspaceRequestBinding \<Rightarrow> nat \<Rightarrow> Revision \<Rightarrow> SlotData \<Rightarrow> Manager \<Rightarrow> (TransferError + Identifier) \<times> Manager" where
  "insert_slot i clock binding nbytes digest data m =
     (if nbytes > mg_maximum m \<or> mg_count m \<ge> MAX_TRANSFER_STAGES \<or> sat_add (mg_bytes m) nbytes > MAX_TRANSFER_RESERVED_BYTES
      then (Inl TransferLimit, m)
      else (Inr i, m\<lparr>mg_count := mg_count m + 1, mg_bytes := mg_bytes m + nbytes,
                    mg_slots := AList.update i \<lparr>slot_binding = binding, slot_expires = clock + TRANSFER_TTL_MS,
                       slot_cancelled = False, slot_size = nbytes, slot_digest = digest, slot_data = data,
                       slot_registered = True, slot_holders = 0\<rparr> (mg_slots m)\<rparr>))"

definition stage ::
  "(ustr \<Rightarrow> ustr option) \<Rightarrow> Identifier \<Rightarrow> nat \<Rightarrow> WorkspaceRequestBinding \<Rightarrow> nat \<Rightarrow> Revision \<Rightarrow> Manager \<Rightarrow> (TransferError + Identifier) \<times> Manager" where
  "stage dir_path i clock binding nbytes digest m =
     (case validate_binding dir_path m binding of
        Inl e \<Rightarrow> (Inl e, m)
      | Inr _ \<Rightarrow> if \<not> valid_digest digest then (Inl TransferIntegrity, m)
                 else insert_slot i clock binding nbytes digest Empty m)"

definition slot_kept :: "Slot \<Rightarrow> bool" where
  "slot_kept s \<longleftrightarrow> slot_registered s \<or> slot_holders s > 0"

text \<open>\<open>Drop for Slot\<close>: a slot that neither the registry nor anybody else holds gives its quota back.\<close>

definition reap :: "Identifier \<Rightarrow> Manager \<Rightarrow> Manager" where
  "reap i m =
     (case map_of (mg_slots m) i of
        Some s \<Rightarrow> if slot_kept s then m
                  else m\<lparr>mg_slots := AList.delete i (mg_slots m), mg_count := mg_count m - 1, mg_bytes := mg_bytes m - slot_size s\<rparr>
      | None \<Rightarrow> m)"

definition set_slot :: "Identifier \<Rightarrow> (Slot \<Rightarrow> Slot) \<Rightarrow> Manager \<Rightarrow> Manager" where
  "set_slot i f m =
     (case map_of (mg_slots m) i of Some s \<Rightarrow> m\<lparr>mg_slots := AList.update i (f s) (mg_slots m)\<rparr> | None \<Rightarrow> m)"

definition hold :: "Identifier \<Rightarrow> Manager \<Rightarrow> Manager" where
  "hold i m = set_slot i (\<lambda>s. s\<lparr>slot_holders := slot_holders s + 1\<rparr>) m"

definition unhold :: "Identifier \<Rightarrow> Manager \<Rightarrow> Manager" where
  "unhold i m = reap i (set_slot i (\<lambda>s. s\<lparr>slot_holders := slot_holders s - 1\<rparr>) m)"

definition slot :: "(ustr \<Rightarrow> ustr option) \<Rightarrow> nat \<Rightarrow> Manager \<Rightarrow> Identifier \<Rightarrow> TransferError + Slot" where
  "slot dir_path clock m i =
     (case map_of (mg_slots m) i of
        None \<Rightarrow> Inl TransferMissing
      | Some s \<Rightarrow>
          if \<not> slot_registered s then Inl TransferMissing
          else case validate_binding dir_path m (slot_binding s) of
                 Inl e \<Rightarrow> Inl e
               | Inr _ \<Rightarrow> if clock \<ge> slot_expires s \<or> slot_cancelled s then Inl TransferMissing else Inr s)"

definition seal_data :: "Slot \<Rightarrow> (TransferError + unit) \<times> SlotData" where
  "seal_data s =
     (case slot_data s of
        Sealed f \<Rightarrow> (Inr (), Sealed f)
      | Uploaded f digest nbytes \<Rightarrow>
          if digest = slot_digest s \<and> nbytes = slot_size s then (Inr (), Sealed f) else (Inl TransferIntegrity, Claimed)
      | d \<Rightarrow> (Inl TransferState, d))"

definition seal ::
  "(ustr \<Rightarrow> ustr option) \<Rightarrow> nat \<Rightarrow> WorkspaceRequestBinding \<Rightarrow> Identifier \<Rightarrow> Manager \<Rightarrow> (TransferError + (Revision \<times> nat)) \<times> Manager" where
  "seal dir_path clock binding i m =
     (case validate_binding dir_path m binding of
        Inl e \<Rightarrow> (Inl e, m)
      | Inr _ \<Rightarrow>
      (case slot dir_path clock m i of
        Inl e \<Rightarrow> (Inl e, m)
      | Inr s \<Rightarrow>
          if slot_binding s \<noteq> binding then (Inl TransferBinding, m)
          else let (r, data) = seal_data s; m' = set_slot i (\<lambda>s. s\<lparr>slot_data := data\<rparr>) m
               in case r of Inl e \<Rightarrow> (Inl e, m') | Inr _ \<Rightarrow> (Inr (slot_digest s, slot_size s), m')))"

definition release ::
  "(ustr \<Rightarrow> ustr option) \<Rightarrow> WorkspaceRequestBinding \<Rightarrow> Identifier \<Rightarrow> Manager \<Rightarrow> (TransferError + bool) \<times> Manager" where
  "release dir_path binding i m =
     (case validate_binding dir_path m binding of
        Inl e \<Rightarrow> (Inl e, m)
      | Inr _ \<Rightarrow>
      (case map_of (mg_slots m) i of
        None \<Rightarrow> (Inr False, m)
      | Some s \<Rightarrow>
          if \<not> slot_registered s then (Inr False, m)
          else if slot_binding s \<noteq> binding then (Inl TransferBinding, m)
          else (Inr True, reap i (set_slot i (\<lambda>s. s\<lparr>slot_cancelled := True, slot_registered := False\<rparr>) m))))"

text \<open>\<open>expire_slots\<close>: every registered slot that is due leaves the registry and is cancelled.\<close>

definition expire_slot :: "nat \<Rightarrow> Identifier \<Rightarrow> Manager \<Rightarrow> Manager" where
  "expire_slot clock i m =
     (case map_of (mg_slots m) i of
        Some s \<Rightarrow> if slot_registered s \<and> clock \<ge> slot_expires s
                  then reap i (set_slot i (\<lambda>s. s\<lparr>slot_cancelled := True, slot_registered := False\<rparr>) m) else m
      | None \<Rightarrow> m)"

definition expire_slots :: "nat \<Rightarrow> Manager \<Rightarrow> Manager" where
  "expire_slots clock m = fold (expire_slot clock) (map fst (mg_slots m)) m"

definition permit :: "Manager \<Rightarrow> (TransferError + unit) \<times> Manager" where
  "permit m = (if mg_io m = 0 then (Inl TransferLimit, m) else (Inr (), m\<lparr>mg_io := mg_io m - 1\<rparr>))"

section \<open>Uploads\<close>

text \<open>\<open>upload_inner\<close> once the headers are accepted: taking the stage, receiving the body, and its end.\<close>

definition upload_begin :: "Identifier \<Rightarrow> Manager \<Rightarrow> bool \<times> Manager" where
  "upload_begin i m =
     (case map_of (mg_slots m) i of
        None \<Rightarrow> (False, m)
      | Some s \<Rightarrow> if slot_data s = Empty then (True, hold i (set_slot i (\<lambda>s. s\<lparr>slot_data := Uploading\<rparr>) m)) else (False, m))"

text \<open>
  The body: chunks, none standing for a transport failure or a failed write; the limit is checked
  before a chunk is written.
\<close>

fun receive :: "nat \<Rightarrow> bytes \<Rightarrow> bytes option list \<Rightarrow> bytes option" where
  "receive limit received [] = Some received"
| "receive limit received (None # cs) = None"
| "receive limit received (Some chunk # cs) =
     (if length received + length chunk > limit then None else receive limit (received @ chunk) cs)"

definition sha_digest :: "(bytes \<Rightarrow> bytes) \<Rightarrow> bytes \<Rightarrow> Revision" where
  "sha_digest sha bs = u ''sha256:'' @ hex_digest (sha bs)"

definition upload_end :: "(bytes \<Rightarrow> bytes) \<Rightarrow> Identifier \<Rightarrow> bytes option list \<Rightarrow> bool \<Rightarrow> Manager \<Rightarrow> bool \<times> Manager" where
  "upload_end sha i chunks interrupted m =
     (case map_of (mg_slots m) i of
        None \<Rightarrow> (False, m)
      | Some s \<Rightarrow>
          (case (if interrupted then None else receive (slot_size s) [] chunks) of
             Some content \<Rightarrow>
               if slot_cancelled s then (False, unhold i m)
               else (True, unhold i (set_slot i (\<lambda>s. s\<lparr>slot_data := Uploaded content (sha_digest sha content) (length content)\<rparr>) m))
           | None \<Rightarrow> (False, unhold i (set_slot i (\<lambda>s. s\<lparr>slot_data := Claimed\<rparr>) m))))"

section \<open>Publications\<close>

record PreparedPublication =
  pp_publication_id :: Identifier
  pp_slot :: Identifier
  pp_source :: bytes

text \<open>\<open>prepare\<close> after the file tools have prepared the publication: the stage is claimed with the reservation.\<close>

definition prepare_check ::
  "(ustr \<Rightarrow> ustr option) \<Rightarrow> nat \<Rightarrow> WorkspaceRequestBinding \<Rightarrow> Identifier \<Rightarrow> Revision \<Rightarrow> nat \<Rightarrow> Manager \<Rightarrow> TransferError + ustr" where
  "prepare_check dir_path clock binding stage_id digest nbytes m =
     (case validate_binding dir_path m binding of
        Inl e \<Rightarrow> Inl e
      | Inr cwd \<Rightarrow>
      (case slot dir_path clock m stage_id of
        Inl e \<Rightarrow> Inl e
      | Inr s \<Rightarrow>
          if slot_binding s \<noteq> binding then Inl TransferBinding
          else if slot_digest s \<noteq> digest \<or> slot_size s \<noteq> nbytes then Inl TransferIntegrity
          else (case slot_data s of Sealed _ \<Rightarrow> Inr cwd | _ \<Rightarrow> Inl TransferState)))"

definition prepare_claim ::
  "Codec \<Rightarrow> ReserveEnv \<Rightarrow> Identifier \<Rightarrow> Identifier \<Rightarrow> ustr \<Rightarrow> Revision \<Rightarrow> Manager \<Rightarrow> (TransferError + PreparedPublication) \<times> Manager" where
  "prepare_claim c env publication stage_id cwd req_digest m =
     (case map_of (mg_slots m) stage_id of
        None \<Rightarrow> (Inl TransferState, m)
      | Some s \<Rightarrow>
          (case slot_data s of
             Sealed source \<Rightarrow>
               (case reserve c env publication cwd req_digest (fresh (mg_journals m)) of
                  (Inl e, js) \<Rightarrow> (Inl e, m\<lparr>mg_journals := js\<rparr>)
                | (Inr _, js) \<Rightarrow>
                    (Inr \<lparr>pp_publication_id = publication, pp_slot = stage_id, pp_source = source\<rparr>,
                     (set_slot stage_id (\<lambda>s. s\<lparr>slot_data := Claimed\<rparr>) m)\<lparr>mg_journals := js\<rparr>))
           | _ \<Rightarrow> (Inl TransferState, m)))"

definition record_preparation ::
  "Codec \<Rightarrow> PutEnv \<Rightarrow> Identifier \<Rightarrow> Identifier \<Rightarrow> nat \<Rightarrow> JournalStore \<Rightarrow> (TransferError + unit) \<times> JournalStore" where
  "record_preparation c env publication preparation expires js =
     (case get js publication of
        None \<Rightarrow> (Inl TransferMissing, js)
      | Some j \<Rightarrow> put c env (j\<lparr>jr_status := (jr_status j)\<lparr>preparation_id := Some preparation\<rparr>, expires_at := expires\<rparr>) js)"

definition unknown_status :: "Identifier \<Rightarrow> TransferStatusResponse" where
  "unknown_status i = \<lparr>publication_id = i, pub_state = Unknown, preparation_id = None, invocation_id = None,
     request_digest = None, status_file = None\<rparr>"

text \<open>
  \<open>status\<close> and \<open>directory_status\<close>: the record that answers, of a file or of a directory publication;
  an overdue preparation is cancelled first. Three readings of the clock: at the check and for the update.
\<close>

definition lookup_status ::
  "Codec \<Rightarrow> PutEnv \<Rightarrow> nat \<Rightarrow> nat \<Rightarrow> ustr \<Rightarrow> bool \<Rightarrow> Identifier \<Rightarrow> JournalStore \<Rightarrow> (TransferError + Journal option) \<times> JournalStore" where
  "lookup_status c env clock clock' cwd of_directory i js =
     (case get js i of
        None \<Rightarrow> (Inr None, js)
      | Some j \<Rightarrow>
          if jr_cwd j = cwd \<and> (jr_directory j \<noteq> None) = of_directory
          then if pub_state (jr_status j) = Prepared \<and> clock \<ge> expires_at j
               then let j' = j\<lparr>jr_status := (jr_status j)\<lparr>pub_state := PublicationCancelled\<rparr>, updated_at := clock'\<rparr>
                    in case put c env j' js of (Inl e, js) \<Rightarrow> (Inl e, js) | (Inr _, js) \<Rightarrow> (Inr (Some j'), js)
               else (Inr (Some j), js)
          else (Inl TransferBinding, js))"

text \<open>The fence of \<open>execute\<close>; \<open>cancelled\<close> joins the conditions beside the record's own expiry.\<close>

definition fence ::
  "Codec \<Rightarrow> PutEnv \<Rightarrow> nat \<Rightarrow> bool \<Rightarrow> Identifier \<Rightarrow> Identifier \<Rightarrow> Identifier \<Rightarrow> JournalStore \<Rightarrow> (TransferError + Journal) \<times> JournalStore" where
  "fence c env clock cancelled publication preparation invocation js =
     (case get js publication of
        None \<Rightarrow> (Inl TransferState, js)
      | Some j \<Rightarrow>
          if pub_state (jr_status j) \<noteq> Prepared then (Inl TransferReplay, js)
          else if clock \<ge> expires_at j \<or> cancelled then (Inl TransferCancelled, js)
          else let j' = j\<lparr>jr_status := (jr_status j)\<lparr>preparation_id := Some preparation, invocation_id := Some invocation,
                            pub_state := Publishing\<rparr>, updated_at := clock\<rparr>
               in case put c env j' js of (Inl e, js) \<Rightarrow> (Inl e, js) | (Inr _, js) \<Rightarrow> (Inr j', js))"

text \<open>What a publication's effect answers: a file or a directory receipt.\<close>

datatype Published = PublishedFile TransferFile | PublishedDirectory TransferDirectory

definition outcome_state :: "BinaryError + Published \<Rightarrow> TransferPublicationState" where
  "outcome_state result =
     (case result of
        Inr _ \<Rightarrow> Completed
      | Inl BinaryIndeterminate \<Rightarrow> Indeterminate
      | Inl BinaryCancelled \<Rightarrow> PublicationCancelled
      | Inl _ \<Rightarrow> Failed)"

definition settled_journal :: "nat \<Rightarrow> BinaryError + Published \<Rightarrow> Journal \<Rightarrow> Journal" where
  "settled_journal clock result j =
     (let j = j\<lparr>updated_at := clock, jr_status := (jr_status j)\<lparr>pub_state := outcome_state result\<rparr>\<rparr>
      in case result of
           Inr (PublishedFile f) \<Rightarrow> j\<lparr>jr_status := (jr_status j)\<lparr>status_file := Some f\<rparr>\<rparr>
         | Inr (PublishedDirectory d) \<Rightarrow> j\<lparr>jr_directory := map_option (\<lambda>dj. dj\<lparr>receipt := Some d\<rparr>) (jr_directory j)\<rparr>
         | Inl _ \<Rightarrow> j)"

fun is_directory_receipt :: "BinaryError + Published \<Rightarrow> bool" where
  "is_directory_receipt (Inr (PublishedDirectory _)) = True"
| "is_directory_receipt _ = False"

definition record_outcome ::
  "Codec \<Rightarrow> PutEnv \<Rightarrow> nat \<Rightarrow> BinaryError + Published \<Rightarrow> Journal \<Rightarrow> JournalStore \<Rightarrow> (TransferError + Journal) \<times> JournalStore" where
  "record_outcome c env clock result j js =
     (if is_directory_receipt result \<and> jr_directory j = None then (Inl (TransferBinary BinaryIndeterminate), js)
      else let j' = settled_journal clock result j
      in case put c env j' js of
           (Inl _, js) \<Rightarrow> (Inl (TransferBinary BinaryIndeterminate), js)
         | (Inr _, js) \<Rightarrow> (case result of Inl e \<Rightarrow> (Inl (TransferBinary e), js) | Inr _ \<Rightarrow> (Inr j', js)))"

text \<open>\<open>Drop\<close> of a prepared publication: what is left unsettled is settled, and a failing write is ignored.\<close>

definition drop_publication :: "Codec \<Rightarrow> PutEnv \<Rightarrow> nat \<Rightarrow> Identifier \<Rightarrow> JournalStore \<Rightarrow> JournalStore" where
  "drop_publication c env clock publication js =
     (case get js publication of
        None \<Rightarrow> js
      | Some j \<Rightarrow>
          if pub_state (jr_status j) \<in> {Prepared, Publishing}
          then snd (put c env ((settle j)\<lparr>updated_at := clock\<rparr>) js) else js)"

text \<open>
  \<open>execute\<close> and the drop that ends it, with nothing in between: admission (the binding and an I/O
  permit), the fence, the effect, whose answer is a parameter, the outcome. The flag says whether
  the effect took place.
\<close>

record ExecuteEnv =
  xe_admission :: "TransferError option"
  xe_fence :: PutEnv
  xe_outcome :: PutEnv
  xe_drop :: PutEnv
  xe_clock :: nat
  xe_settled :: nat
  xe_dropped :: nat
  xe_cancelled :: bool

definition execute_publication ::
  "Codec \<Rightarrow> ExecuteEnv \<Rightarrow> BinaryError + Published \<Rightarrow> Identifier \<Rightarrow> Identifier \<Rightarrow> Identifier \<Rightarrow> JournalStore \<Rightarrow>
     (TransferError + Journal) \<times> bool \<times> JournalStore" where
  "execute_publication c env result publication preparation invocation js =
     (case xe_admission env of
        Some e \<Rightarrow> (Inl e, False, drop_publication c (xe_drop env) (xe_dropped env) publication js)
      | None \<Rightarrow>
     (case fence c (xe_fence env) (xe_clock env) (xe_cancelled env) publication preparation invocation js of
        (Inl e, js) \<Rightarrow> (Inl e, False, drop_publication c (xe_drop env) (xe_dropped env) publication js)
      | (Inr j, js) \<Rightarrow>
          (case record_outcome c (xe_outcome env) (xe_settled env) result j js of
             (r, js) \<Rightarrow> (r, True, drop_publication c (xe_drop env) (xe_dropped env) publication js))))"

section \<open>Ranges\<close>

definition single_range :: "ustr \<Rightarrow> nat \<Rightarrow> (nat \<times> nat) option" where
  "single_range value nbytes =
     (if nbytes = 0 then None
      else case strip_prefix value (u ''bytes='') of
        None \<Rightarrow> None
      | Some value \<Rightarrow>
      (case split_once value (u ''-'') of
        None \<Rightarrow> None
      | Some (s, e) \<Rightarrow>
          if \<not> list_all is_ascii_digit (s @ e) then None
             else if s = []
             then (case parse_u64 e of
                     None \<Rightarrow> None
                   | Some n \<Rightarrow> let n = min n nbytes in if n > 0 then Some (nbytes - n, n) else None)
             else (case parse_u64 s of
                     None \<Rightarrow> None
                   | Some start \<Rightarrow>
                       (case (if e = [] then Some (nbytes - 1) else map_option (\<lambda>x. min x (nbytes - 1)) (parse_u64 e)) of
                          None \<Rightarrow> None
                        | Some fin \<Rightarrow> if start \<le> fin \<and> start < nbytes then Some (start, fin - start + 1) else None))))"

section \<open>Publications over time\<close>

text \<open>
  The journal as time passes: the service runs on a store or is down with a directory. \<open>begun\<close>
  collects the publications whose effect has begun and whose outcome has not been forgotten for its
  age, \<open>in_flight\<close> the records of effects that have not answered. A crash may come at any moment,
  also in the course of an operation, whose directories the store still lists.
\<close>

datatype Phase = Down "(ustr \<times> Entry) list" | Up JournalStore

record World =
  phase :: Phase
  begun :: "Identifier set"
  in_flight :: "Journal set"

definition overdue :: "Codec \<Rightarrow> nat \<Rightarrow> (ustr \<times> Entry) list \<Rightarrow> Identifier set" where
  "overdue c clock es = {i. \<exists>j. recorded c es j \<and> jid j = i \<and> expired clock (settle j)}"

inductive world_step :: "Codec \<Rightarrow> Identifier set \<Rightarrow> World \<Rightarrow> World \<Rightarrow> bool" for c ids where
  reserve_step: "phase w = Up js \<Longrightarrow> i \<in> ids \<Longrightarrow> byte_len cwd \<le> MAX_WORKSPACE_PATH_BYTES \<Longrightarrow>
    reserve_publication c env i cwd digest dir bound (fresh js) = (r, js') \<Longrightarrow>
    world_step c ids w (w\<lparr>phase := Up js', begun := begun w - expired_ids (pr_clock (re_prune env)) js\<rparr>)"
| preparation_step: "phase w = Up js \<Longrightarrow> record_preparation c env i preparation expires (fresh js) = (r, js') \<Longrightarrow>
    world_step c ids w (w\<lparr>phase := Up js'\<rparr>)"
| status_step: "phase w = Up js \<Longrightarrow> lookup_status c env clock clock' cwd of_directory i (fresh js) = (r, js') \<Longrightarrow>
    world_step c ids w (w\<lparr>phase := Up js'\<rparr>)"
| fence_step: "phase w = Up js \<Longrightarrow> fence c env clock cancelled i preparation invocation (fresh js) = (Inr j, js') \<Longrightarrow>
    world_step c ids w (w\<lparr>phase := Up js', begun := insert i (begun w), in_flight := insert j (in_flight w)\<rparr>)"
| refuse_step: "phase w = Up js \<Longrightarrow> fence c env clock cancelled i preparation invocation (fresh js) = (Inl e, js') \<Longrightarrow>
    world_step c ids w (w\<lparr>phase := Up js'\<rparr>)"
| outcome_step: "phase w = Up js \<Longrightarrow> j \<in> in_flight w \<Longrightarrow> record_outcome c env clock result j (fresh js) = (r, js') \<Longrightarrow>
    world_step c ids w (w\<lparr>phase := Up js', in_flight := in_flight w - {j}\<rparr>)"
| drop_step: "phase w = Up js \<Longrightarrow> drop_publication c env clock i (fresh js) = js' \<Longrightarrow>
    world_step c ids w (w\<lparr>phase := Up js'\<rparr>)"
| crash_step: "phase w = Up js \<Longrightarrow> d \<in> passed js \<Longrightarrow> crash_image d es \<Longrightarrow>
    world_step c ids w (w\<lparr>phase := Down es, in_flight := {}\<rparr>)"
| recover_step: "phase w = Down es \<Longrightarrow> recover c env es = (Inr (), js) \<Longrightarrow>
    world_step c ids w (w\<lparr>phase := Up js, begun := begun w - overdue c (pr_clock (rv_prune env)) es\<rparr>)"
| interrupted_step: "phase w = Down es \<Longrightarrow> recover c env es = (r, js) \<Longrightarrow> d \<in> passed js \<Longrightarrow> crash_image d es' \<Longrightarrow>
    world_step c ids w (w\<lparr>phase := Down es', begun := begun w - overdue c (pr_clock (rv_prune env)) es\<rparr>)"

text \<open>The invariant: a publication that has begun is known, not prepared, and survives any crash.\<close>

definition ids_ok :: "Codec \<Rightarrow> Identifier set \<Rightarrow> JournalStore \<Rightarrow> bool" where
  "ids_ok c ids st \<longleftrightarrow> (\<forall>i e j. possible st (journal_name c i) (Some e) \<longrightarrow> record_entry c (journal_name c i) e j \<longrightarrow> jid j \<in> ids)"

definition lasting :: "Codec \<Rightarrow> JournalStore \<Rightarrow> Identifier \<Rightarrow> bool" where
  "lasting c st i \<longleftrightarrow> (\<forall>x. possible st (journal_name c i) x \<longrightarrow> (\<exists>e. x = Some e \<and> readable c i e))"

definition begun_ok :: "JournalStore \<Rightarrow> Identifier \<Rightarrow> bool" where
  "begun_ok st i \<longleftrightarrow> (\<exists>j. get st i = Some j \<and> pub_state (jr_status j) \<noteq> Prepared)"

definition live :: "Codec \<Rightarrow> Identifier set \<Rightarrow> Identifier set \<Rightarrow> JournalStore \<Rightarrow> bool" where
  "live c ids b st \<longleftrightarrow> store_ok c ids st \<and> ids_ok c ids st \<and> (\<forall>i\<in>b. begun_ok st i \<and> lasting c st i)"

definition flight_ok :: "Identifier set \<Rightarrow> Journal set \<Rightarrow> bool" where
  "flight_ok ids js \<longleftrightarrow> (\<forall>j\<in>js. jid j \<in> ids \<and> byte_len (jr_cwd j) \<le> MAX_WORKSPACE_PATH_BYTES)"

text \<open>A directory in which the publications that have begun can be read.\<close>

definition down_ok :: "Codec \<Rightarrow> Identifier set \<Rightarrow> Identifier set \<Rightarrow> (ustr \<times> Entry) list \<Rightarrow> bool" where
  "down_ok c ids b es \<longleftrightarrow> dir_ok c ids es \<and> (\<forall>i\<in>b. i \<in> ids \<and> (\<exists>e. map_of es (journal_name c i) = Some e \<and> readable c i e))"

definition world_ok :: "Codec \<Rightarrow> Identifier set \<Rightarrow> World \<Rightarrow> bool" where
  "world_ok c ids w \<longleftrightarrow> flight_ok ids (in_flight w) \<and>
     (case phase w of
        Up js \<Rightarrow> live c ids (begun w) js
      | Down es \<Rightarrow> down_ok c ids (begun w) es)"

lemma live_fresh: "live c ids b st \<Longrightarrow> live c ids b (fresh st)"
  unfolding live_def ids_ok_def lasting_def begun_ok_def store_ok_def fresh_fields get_def using possible_disk by blast

lemma live_ids: "live c ids b st \<Longrightarrow> i \<in> b \<Longrightarrow> i \<in> ids"
  unfolding live_def begun_ok_def get_def using store_okD(2) by blast

lemma live_begun: "live c ids b st \<Longrightarrow> i \<in> b \<Longrightarrow> \<exists>j. map_of (js_records st) i = Some j \<and> pub_state (jr_status j) \<noteq> Prepared"
  unfolding live_def begun_ok_def get_def by blast

lemma put_lasting:
  assumes "put c env j st = (r, st')" "codec_ok c ids" "jid j \<in> ids" "byte_len (jr_cwd j) \<le> MAX_WORKSPACE_PATH_BYTES"
    "i \<in> ids" "lasting c st i"
  shows "lasting c st' i"
  unfolding lasting_def
proof (intro allI impI)
  fix x assume "possible st' (journal_name c i) x"
  from put_possible [OF assms(1,2) journal_name_not_pending(1) [OF assms(2)] this] show "\<exists>e. x = Some e \<and> readable c i e"
  proof (elim disjE conjE exE)
    fix e assume e: "journal_name c i = journal_name c (jid j)" "x = Some e" "file_of c j e"
    then have "i = jid j" using journal_name_inj [OF assms(2,5,3)] by blast
    then show ?thesis using e file_of_readable [OF assms(2) e(3) assms(4)] by blast
  qed (use assms(6) in \<open>auto simp: lasting_def\<close>)
qed

lemma put_live:
  assumes "put c env j st = (r, st')" "codec_ok c ids" "live c ids b st" "jid j \<in> ids"
    "byte_len (jr_cwd j) \<le> MAX_WORKSPACE_PATH_BYTES" "jid j \<in> b \<Longrightarrow> pub_state (jr_status j) \<noteq> Prepared"
  shows "live c ids b st'"
proof -
  have name: "journal_name c i \<noteq> pending_name env" for i by (rule journal_name_not_pending(1) [OF assms(2)])
  note poss = put_possible [OF assms(1,2) name]
  have "store_ok c ids st'" using put_store_ok [OF assms(1,2) _ assms(4,5)] assms(3) by (simp add: live_def)
  moreover have "ids_ok c ids st'"
    unfolding ids_ok_def
  proof (intro allI impI)
    fix i e k
    assume x: "possible st' (journal_name c i) (Some e)" "record_entry c (journal_name c i) e k"
    from poss [OF x(1)] show "jid k \<in> ids"
    proof (elim disjE conjE exE)
      assume "possible st (journal_name c i) (Some e)"
      then show ?thesis using assms(3) x(2) by (auto simp: live_def ids_ok_def)
    next
      fix e' assume "Some e = Some e'" "file_of c j e'"
      then have "k = j" using x(2) assms(2) by (auto simp: file_of_def record_entry_def codec_ok_def)
      then show ?thesis using assms(4) by simp
    qed
  qed
  moreover have "begun_ok st' i" if "i \<in> b" for i
    using assms(3,6) that put_records [OF assms(1)] by (auto simp: live_def begun_ok_def get_def update_conv')
  moreover have "lasting c st' i" if "i \<in> b" for i
    using put_lasting [OF assms(1,2,4,5) live_ids [OF assms(3) that]] assms(3) that by (simp add: live_def)
  ultimately show ?thesis by (auto simp: live_def)
qed

lemma prune_live:
  assumes "prune c env st = (r, st')" "codec_ok c ids" "live c ids b st"
  shows "live c ids (b - expired_ids (pr_clock env) st) st'"
proof -
  have known: "k \<in> expired_ids (pr_clock env) st \<Longrightarrow> k \<in> ids" for k
    using assms(3) by (auto simp: live_def store_ok_def expired_ids_def)
  note poss = prune_spec(1) [OF assms(1)]
  have "store_ok c ids st'" using prune_store_ok [OF assms(1,2)] assms(3) by (simp add: live_def)
  moreover have "ids_ok c ids st'" using poss assms(3) unfolding ids_ok_def live_def by blast
  moreover have "begun_ok st' i" if "i \<in> b" "i \<notin> expired_ids (pr_clock env) st" for i
    using assms(3) that prune_spec(4) [OF assms(1) that(2)] by (auto simp: live_def begun_ok_def get_def)
  moreover have "lasting c st' i" if "i \<in> b" "i \<notin> expired_ids (pr_clock env) st" for i
    using poss [of "journal_name c i"] assms(3) that known journal_name_inj [OF assms(2) live_ids [OF assms(3) that(1)]]
    unfolding lasting_def live_def by blast
  ultimately show ?thesis by (auto simp: live_def)
qed

lemma reserve_live:
  assumes "reserve_publication c env i cwd digest dir bound st = (r, st')" "codec_ok c ids" "live c ids b st" "i \<in> ids"
    "byte_len cwd \<le> MAX_WORKSPACE_PATH_BYTES"
  shows "live c ids (b - expired_ids (pr_clock (re_prune env)) st) st'"
  using assms(1)
proof (cases rule: reserve_cases)
  case (pruned r1 e)
  then show ?thesis using prune_live assms(2,3) by blast
next
  case (run st1 j)
  have live: "live c ids (b - expired_ids (pr_clock (re_prune env)) st) st1" by (rule prune_live [OF run(1) assms(2,3)])
  have "jid j \<notin> b - expired_ids (pr_clock (re_prune env)) st"
    using live_begun [OF live, of i] run(3,4) by auto
  then show ?thesis by (intro put_live [OF run(2) assms(2) live]) (use assms(4,5) run(4,6) in auto)
qed

text \<open>The operations that change a record the store knows.\<close>

lemma put_known_live:
  assumes "put c env j' st = (r, st')" "codec_ok c ids" "live c ids b st" "get st i = Some j" "jid j' = i" "jr_cwd j' = jr_cwd j"
    "pub_state (jr_status j') \<noteq> Prepared \<or> pub_state (jr_status j') = pub_state (jr_status j)"
  shows "live c ids b st'"
proof (rule put_live [OF assms(1-3)])
  have st: "store_ok c ids st" "map_of (js_records st) i = Some j" using assms(3,4) by (simp_all add: live_def get_def)
  show "jid j' \<in> ids" "byte_len (jr_cwd j') \<le> MAX_WORKSPACE_PATH_BYTES" using store_okD [OF st] assms(5,6) by simp_all
  show "jid j' \<in> b \<Longrightarrow> pub_state (jr_status j') \<noteq> Prepared"
    using assms(3-5,7) by (auto simp: live_def begun_ok_def)
qed

lemma record_preparation_live:
  assumes "record_preparation c env i p x st = (r, st')" "codec_ok c ids" "live c ids b st"
  shows "live c ids b st'"
proof (cases "get st i")
  case (Some j)
  have "i = jid j" using assms(3) Some store_okD(1) by (auto simp: live_def get_def)
  then show ?thesis using assms(1) Some put_known_live [OF _ assms(2,3) Some] by (simp add: record_preparation_def)
qed (use assms in \<open>simp add: record_preparation_def\<close>)

lemma lookup_status_live:
  assumes "lookup_status c env t t' cwd dir i st = (r, st')" "codec_ok c ids" "live c ids b st"
  shows "live c ids b st'"
proof (cases "get st i")
  case (Some j)
  have i: "i = jid j" using assms(3) Some store_okD(1) by (auto simp: live_def get_def)
  let ?j = "j\<lparr>jr_status := (jr_status j)\<lparr>pub_state := PublicationCancelled\<rparr>, updated_at := t'\<rparr>"
  obtain r1 st1 where p: "put c env ?j st = (r1, st1)" by fastforce
  have "live c ids b st1" by (rule put_known_live [OF p assms(2,3) Some]) (simp_all add: i)
  then show ?thesis using assms(1,3) Some p by (auto simp: lookup_status_def Let_def split: if_splits sum.splits)
qed (use assms in \<open>simp add: lookup_status_def\<close>)

lemma fence_cases:
  assumes "fence c env t x i p v st = (r, st')"
  obtains (refused) e where "r = Inl e" "st' = st"
  | (run) j j' r1 where "get st i = Some j" "pub_state (jr_status j) = Prepared" "t < expires_at j" "\<not> x"
      "put c env j' st = (r1, st')" "r = (case r1 of Inl e \<Rightarrow> Inl e | Inr _ \<Rightarrow> Inr j')"
      "j' = j\<lparr>jr_status := (jr_status j)\<lparr>preparation_id := Some p, invocation_id := Some v, pub_state := Publishing\<rparr>, updated_at := t\<rparr>"
proof (cases "\<exists>e. r = Inl e \<and> st' = st")
  case False
  then obtain j where j: "get st i = Some j" "pub_state (jr_status j) = Prepared" "t < expires_at j" "\<not> x"
    using assms by (auto simp: fence_def Let_def split: option.splits if_splits)
  let ?j = "j\<lparr>jr_status := (jr_status j)\<lparr>preparation_id := Some p, invocation_id := Some v, pub_state := Publishing\<rparr>, updated_at := t\<rparr>"
  obtain r1 st1 where "put c env ?j st = (r1, st1)" by fastforce
  then show ?thesis using assms j by (intro run [OF j, of ?j r1]) (auto simp: fence_def Let_def split: sum.splits)
qed (use refused in blast)

lemma fence_live:
  assumes "fence c env t x i p v (fresh st) = (r, st')" "codec_ok c ids" "live c ids b st"
  shows "live c ids b st'"
    "r = Inr j \<Longrightarrow> begun_ok st' i \<and> lasting c st' i \<and> i = jid j \<and> i \<in> ids \<and> byte_len (jr_cwd j) \<le> MAX_WORKSPACE_PATH_BYTES"
proof -
  note fresh = live_fresh [OF assms(3)]
  show "live c ids b st'"
    using assms(1)
  proof (cases rule: fence_cases)
    case (run k j' r1)
    have "i = jid k" using fresh run(1) store_okD(1) by (auto simp: live_def get_def)
    then show ?thesis by (intro put_known_live [OF run(5) assms(2) fresh run(1)]) (simp_all add: run(7))
  qed (use fresh in simp)
  assume r: "r = Inr j"
  show "begun_ok st' i \<and> lasting c st' i \<and> i = jid j \<and> i \<in> ids \<and> byte_len (jr_cwd j) \<le> MAX_WORKSPACE_PATH_BYTES"
    using assms(1)
  proof (cases rule: fence_cases)
    case (run k j' r1)
    have j: "r1 = Inr ()" "j' = j" using run(6) r by (auto split: sum.splits)
    have ok: "store_ok c ids st" "map_of (js_records st) i = Some k" using assms(3) run(1) by (simp_all add: live_def get_def)
    note k = store_okD [OF ok]
    have f: "jid j = i" "jr_cwd j = jr_cwd k" "pub_state (jr_status j) = Publishing" using run(7) j(2) k(1) by auto
    have "lasting c (fresh st) i" using k(4) by (simp add: lasting_def)
    then have "lasting c st' i" using put_lasting [OF run(5) assms(2)] f j(2) k by simp
    moreover have "begun_ok st' i" using put_records [OF run(5)] j f by (simp add: begun_ok_def get_def update_conv')
    ultimately show ?thesis using f k by simp
  qed (use r in simp)
qed

lemma record_outcome_live:
  assumes "record_outcome c env t result j st = (r, st')" "codec_ok c ids" "live c ids b st" "jid j \<in> ids"
    "byte_len (jr_cwd j) \<le> MAX_WORKSPACE_PATH_BYTES"
  shows "live c ids b st'"
proof -
  let ?j = "settled_journal t result j"
  obtain r1 st1 where p: "put c env ?j st = (r1, st1)" by fastforce
  have f: "jid ?j = jid j" "jr_cwd ?j = jr_cwd j" "pub_state (jr_status ?j) \<noteq> Prepared"
    by (auto simp: settled_journal_def outcome_state_def Let_def split: sum.splits Published.splits BinaryError.splits)
  have "live c ids b st1" by (rule put_live [OF p assms(2,3)]) (use assms(4,5) f in simp_all)
  then show ?thesis using assms(1,3) p by (auto simp: record_outcome_def Let_def split: if_splits sum.splits)
qed

lemma drop_live:
  assumes "codec_ok c ids" "live c ids b st"
  shows "live c ids b (drop_publication c env t i st)"
proof (cases "get st i")
  case (Some j)
  have i: "i = jid j" using assms(2) Some store_okD(1) by (auto simp: live_def get_def)
  obtain r1 st1 where p: "put c env ((settle j)\<lparr>updated_at := t\<rparr>) st = (r1, st1)" by fastforce
  have "live c ids b st1"
    by (rule put_known_live [OF p assms Some]) (use settle_state [of j] in \<open>simp_all add: i\<close>)
  then show ?thesis using Some p assms(2) by (simp add: drop_publication_def)
qed (use assms in \<open>simp add: drop_publication_def\<close>)

text \<open>Crashes and recovery.\<close>

lemma crash_down:
  assumes "live c ids b st" "codec_ok c ids" "d \<in> passed st" "crash_image d es"
  shows "dir_ok c ids es" "i \<in> b \<Longrightarrow> i \<in> ids \<and> (\<exists>e. map_of es (journal_name c i) = Some e \<and> readable c i e)"
proof -
  have p: "possible st n (map_of es n)" for n using assms(3,4) by (auto simp: possible_def crash_image_def)
  have "jid j \<in> ids" if "(n, e) \<in> set es" "record_entry c n e j" for n e j
  proof -
    have n: "n = journal_name c (jid j)" using that(2) by (simp add: record_entry_def)
    have "map_of es n = Some e" using that(1) assms(4) by (simp add: crash_image_def)
    then show ?thesis using p [of n] that(2) assms(1) unfolding n live_def ids_ok_def by metis
  qed
  then show "dir_ok c ids es" using assms(4) by (auto simp: dir_ok_def crash_image_def)
  show "i \<in> b \<Longrightarrow> i \<in> ids \<and> (\<exists>e. map_of es (journal_name c i) = Some e \<and> readable c i e)"
    using live_ids [OF assms(1)] p assms(1) by (auto simp: live_def lasting_def)
qed

lemma recover_sources:
  assumes "recover c env es = (r, st)" "codec_ok c ids" "dir_ok c ids es" "possible st (journal_name c i) (Some e)"
  shows "map_of es (journal_name c i) = Some e \<or> (\<exists>j. recorded c es j \<and> file_of c (settle j) e)"
proof -
  have restored: "map_of es (journal_name c i) = Some e \<or> (\<exists>j. recorded c es j \<and> file_of c (settle j) e)"
    if "scan_entries c 0 [] [] es = Inr (js, ps)"
      "unlink_pending (rv_unlink env) ps \<lparr>js_disk = \<lparr>vis = es, undo = [], torn = []\<rparr>, js_records = [],
         visited = [\<lparr>vis = es, undo = [], torn = []\<rparr>]\<rparr> = (True, st1)"
      "restore c (rv_put env) js st1 = (r2, st2)" "possible st2 (journal_name c i) (Some e)" for js ps st1 st2 r2
    using restore_possible [OF that(3) assms(2) that(4)] recover_start(3) [OF that(1,2) assms(2)] scan_journals [OF that(1)]
    by (fastforce simp: recorded_def)
  from assms(1) show ?thesis
  proof (cases rule: recover_cases)
    case (refused e)
    then show ?thesis using assms(4) by (auto simp: possible_def passed_def outcome_settled entry_at_def)
  next
    case (cleaning js ps)
    then show ?thesis using recover_start(3) [OF cleaning(1,2) assms(2,4)] by simp
  next
    case (restoring js ps st1 e)
    then show ?thesis using restored assms(4) by blast
  next
    case (pruning js ps st1 st2)
    then show ?thesis using restored [OF pruning(1-3)] prune_spec(1) [OF pruning(4) assms(4)] by blast
  qed
qed

lemma recover_ids_ok:
  assumes "recover c env es = (r, st)" "codec_ok c ids" "dir_ok c ids es"
  shows "ids_ok c ids st"
  unfolding ids_ok_def
proof (intro allI impI)
  fix i e j
  assume x: "possible st (journal_name c i) (Some e)" "record_entry c (journal_name c i) e j"
  from recover_sources [OF assms x(1)] show "jid j \<in> ids"
  proof (elim disjE exE conjE)
    assume "map_of es (journal_name c i) = Some e"
    then show ?thesis using assms(3) x(2) map_of_SomeD by (fastforce simp: dir_ok_def)
  next
    fix j0
    assume j0: "recorded c es j0" "file_of c (settle j0) e"
    then have "j = settle j0" using x(2) assms(2) by (auto simp: file_of_def record_entry_def codec_ok_def)
    then show ?thesis using j0(1) assms(3) by (auto simp: recorded_def dir_ok_def)
  qed
qed

lemma readable_recorded:
  assumes "codec_ok c ids" "map_of es (journal_name c i) = Some e" "readable c i e"
  obtains j where "recorded c es j" "jid j = i"
proof -
  from assms(3) obtain j where j: "from_slice c (entry_bytes e) = Some j" "jid j = i" "byte_len (jr_cwd j) \<le> MAX_WORKSPACE_PATH_BYTES"
    "entry_private e" "length (entry_bytes e) \<le> MAX_TRANSFER_JOURNAL_BYTES" by (auto simp: readable_def)
  then have "record_entry c (journal_name c i) e j"
    using journal_name_not_pending(2) [OF assms(1)] journal_name_shape(3) [OF assms(1)] by (simp add: record_entry_def)
  then show ?thesis using that j(2) map_of_SomeD [OF assms(2)] by (auto simp: recorded_def)
qed

lemma recover_lasting:
  assumes "recover c env es = (r, st)" "codec_ok c ids" "down_ok c ids b es" "i \<in> b - overdue c (pr_clock (rv_prune env)) es"
  shows "lasting c st i"
  unfolding lasting_def
proof (intro allI impI)
  fix x assume x: "possible st (journal_name c i) x"
  obtain e where e: "i \<in> ids" "map_of es (journal_name c i) = Some e" "readable c i e" using assms(3,4) by (auto simp: down_ok_def)
  show "\<exists>e. x = Some e \<and> readable c i e"
    using recover_possible [OF assms(1,2) _ e x] assms(3,4) by (auto simp: down_ok_def overdue_def)
qed

lemma recover_live:
  assumes "recover c env es = (Inr (), st)" "codec_ok c ids" "down_ok c ids b es"
  shows "live c ids (b - overdue c (pr_clock (rv_prune env)) es) st"
proof -
  have d: "dir_ok c ids es" using assms(3) by (simp add: down_ok_def)
  have "begun_ok st i" if "i \<in> b - overdue c (pr_clock (rv_prune env)) es" for i
  proof -
    from that assms(3) obtain e where "map_of es (journal_name c i) = Some e" "readable c i e" by (auto simp: down_ok_def)
    from readable_recorded [OF assms(2) this] obtain j where j: "recorded c es j" "jid j = i" .
    then have "\<not> expired (pr_clock (rv_prune env)) (settle j)" using that by (auto simp: overdue_def)
    then have "get st i = Some (settle j)" using j recover_success(2) [OF assms(1,2) d, of i "settle j"] by (auto simp: get_def)
    then show ?thesis using settle_state [of j] by (auto simp: begun_ok_def)
  qed
  then show ?thesis
    using recover_success(1) [OF assms(1,2) d] recover_ids_ok [OF assms(1,2) d] recover_lasting [OF assms]
    by (auto simp: live_def)
qed

lemma interrupted_down:
  assumes "recover c env es = (r, st)" "codec_ok c ids" "down_ok c ids b es" "d \<in> passed st" "crash_image d es'"
  shows "down_ok c ids (b - overdue c (pr_clock (rv_prune env)) es) es'"
proof -
  have d: "dir_ok c ids es" using assms(3) by (simp add: down_ok_def)
  have p: "possible st n (map_of es' n)" for n using assms(4,5) by (auto simp: possible_def crash_image_def)
  have "jid j \<in> ids" if "(n, e) \<in> set es'" "record_entry c n e j" for n e j
  proof -
    have n: "n = journal_name c (jid j)" using that(2) by (simp add: record_entry_def)
    have "map_of es' n = Some e" using that(1) assms(5) by (simp add: crash_image_def)
    then show ?thesis using p [of n] that(2) recover_ids_ok [OF assms(1,2) d] unfolding n ids_ok_def by metis
  qed
  moreover have "i \<in> ids \<and> (\<exists>e. map_of es' (journal_name c i) = Some e \<and> readable c i e)"
    if "i \<in> b - overdue c (pr_clock (rv_prune env)) es" for i
    using recover_lasting [OF assms(1-3) that] p assms(3) that by (auto simp: lasting_def down_ok_def)
  ultimately show ?thesis using assms(5) by (auto simp: down_ok_def dir_ok_def crash_image_def)
qed

text \<open>Every step keeps the invariant.\<close>

lemma world_step_ok:
  assumes "world_step c ids w w'" "codec_ok c ids" "world_ok c ids w"
  shows "world_ok c ids w'"
  using assms(1)
proof cases
  case (reserve_step js i cwd env digest dir bound r js')
  then show ?thesis
    using reserve_live [OF reserve_step(5) assms(2) live_fresh] assms(3) by (simp add: world_ok_def expired_ids_def)
next
  case (preparation_step js env i preparation expires r js')
  then show ?thesis using record_preparation_live [OF preparation_step(3) assms(2) live_fresh] assms(3) by (simp add: world_ok_def)
next
  case (status_step js env clock clock' cwd of_directory i r js')
  then show ?thesis using lookup_status_live [OF status_step(3) assms(2) live_fresh] assms(3) by (simp add: world_ok_def)
next
  case (fence_step js env clock cancelled i preparation invocation j js')
  have "live c ids (begun w) js" using fence_step assms(3) by (simp add: world_ok_def)
  from fence_live [OF fence_step(3) assms(2) this] show ?thesis
    using fence_step assms(3) by (auto simp: world_ok_def live_def flight_ok_def)
next
  case (refuse_step js env clock cancelled i preparation invocation e js')
  have "live c ids (begun w) js" using refuse_step assms(3) by (simp add: world_ok_def)
  from fence_live(1) [OF refuse_step(3) assms(2) this] show ?thesis using refuse_step assms(3) by (simp add: world_ok_def)
next
  case (outcome_step js j env clock result r js')
  then show ?thesis
    using record_outcome_live [OF outcome_step(4) assms(2) live_fresh] assms(3) by (auto simp: world_ok_def flight_ok_def)
next
  case (drop_step js env clock i js')
  then show ?thesis using drop_live [OF assms(2) live_fresh] assms(3) by (auto simp: world_ok_def)
next
  case (crash_step js d es)
  then show ?thesis using crash_down [OF _ assms(2) crash_step(3,4)] assms(3) by (auto simp: world_ok_def flight_ok_def down_ok_def)
next
  case (recover_step es env js)
  then show ?thesis using recover_live [OF recover_step(3) assms(2)] assms(3) by (simp add: world_ok_def)
next
  case (interrupted_step es env r js d es')
  then show ?thesis using interrupted_down [OF interrupted_step(3) assms(2) _ interrupted_step(4,5)] assms(3) by (simp add: world_ok_def)
qed

lemma world_steps_ok:
  "(world_step c ids)\<^sup>*\<^sup>* w w' \<Longrightarrow> codec_ok c ids \<Longrightarrow> world_ok c ids w \<Longrightarrow> world_ok c ids w'"
  by (induction rule: rtranclp_induct) (auto intro: world_step_ok)

text \<open>The service before it has started on a directory.\<close>

definition first_world :: "(ustr \<times> Entry) list \<Rightarrow> World" where
  "first_world es = \<lparr>phase = Down es, begun = {}, in_flight = {}\<rparr>"

lemma first_world_ok: "dir_ok c ids es \<Longrightarrow> world_ok c ids (first_world es)"
  by (simp add: first_world_def world_ok_def flight_ok_def down_ok_def)

text \<open>
  C1. A publication takes effect at most once. Whatever requests are served and in which order,
  whatever the system calls answer, and however often the machine stops, in the middle of an
  operation or of a recovery: once the effect of a publication has begun, and until its recorded
  outcome has been kept for the retention time, the fence refuses to begin it again, the
  identifier cannot be reserved again, and its record can be read after a crash at any moment.
\<close>

theorem publication_at_most_once:
  assumes "codec_ok c ids" "dir_ok c ids es" "(world_step c ids)\<^sup>*\<^sup>* (first_world es) w" "phase w = Up js" "i \<in> begun w"
  shows "fence c env clock cancelled i preparation invocation js = (Inl TransferReplay, js) \<and>
    (i \<notin> expired_ids (pr_clock (re_prune renv)) js \<longrightarrow>
       (\<exists>e js'. reserve_publication c renv i cwd digest dir bound js = (Inl e, js') \<and>
          (fst (prune c (re_prune renv) js) = Inr () \<longrightarrow> e = TransferReplay))) \<and>
    (\<forall>d crashed. d \<in> passed js \<and> crash_image d crashed \<longrightarrow> (\<exists>j. recorded c crashed j \<and> jid j = i))"
proof -
  have "world_ok c ids w" by (rule world_steps_ok [OF assms(3,1) first_world_ok [OF assms(2)]])
  then have live: "live c ids (begun w) js" using assms(4) by (simp add: world_ok_def)
  obtain j where j: "map_of (js_records js) i = Some j" "pub_state (jr_status j) \<noteq> Prepared" using live_begun [OF live assms(5)] by blast
  have f: "fence c env clock cancelled i preparation invocation js = (Inl TransferReplay, js)"
    using j by (simp add: fence_def get_def)
  have r: "\<exists>e js'. reserve_publication c renv i cwd digest dir bound js = (Inl e, js') \<and>
      (fst (prune c (re_prune renv) js) = Inr () \<longrightarrow> e = TransferReplay)"
    if "i \<notin> expired_ids (pr_clock (re_prune renv)) js"
  proof -
    obtain r1 st1 where p: "prune c (re_prune renv) js = (r1, st1)" by fastforce
    have "map_of (js_records st1) i = Some j" using prune_spec(4) [OF p that] j(1) by simp
    then show ?thesis using p by (cases r1) (auto simp: reserve_publication_def)
  qed
  have k: "\<exists>j. recorded c crashed j \<and> jid j = i" if d: "d \<in> passed js" and crash: "crash_image d crashed" for d crashed
  proof -
    from crash_down(2) [OF live assms(1) d crash assms(5)] obtain e where "map_of crashed (journal_name c i) = Some e" "readable c i e" by blast
    from readable_recorded [OF assms(1) this] show ?thesis by blast
  qed
  show ?thesis using f r k by blast
qed

section \<open>Stages over time\<close>

text \<open>The requests that touch stages; stage identifiers are drawn from UUIDs, so one in use is not drawn again.\<close>

datatype StageOp =
    StageOp Identifier nat WorkspaceRequestBinding nat Revision
  | DownloadOp Identifier nat WorkspaceRequestBinding Revision ustr TransferFile
  | SealOp nat WorkspaceRequestBinding Identifier
  | ReleaseOp WorkspaceRequestBinding Identifier
  | ExpireOp nat
  | HoldOp Identifier
  | UnholdOp Identifier
  | UploadBeginOp Identifier
  | UploadEndOp Identifier "bytes option list" bool
  | ClaimOp ReserveEnv Identifier Identifier ustr Revision

fun stage_op :: "Codec \<Rightarrow> (ustr \<Rightarrow> ustr option) \<Rightarrow> (bytes \<Rightarrow> bytes) \<Rightarrow> Manager \<Rightarrow> StageOp \<Rightarrow> Manager" where
  "stage_op c dp sha m (StageOp i t b n d) = (if map_of (mg_slots m) i = None then snd (stage dp i t b n d m) else m)"
| "stage_op c dp sha m (DownloadOp i t b d p f) =
     (if map_of (mg_slots m) i = None then snd (insert_slot i t b 0 d (Download p f) m) else m)"
| "stage_op c dp sha m (SealOp t b i) = snd (seal dp t b i m)"
| "stage_op c dp sha m (ReleaseOp b i) = snd (release dp b i m)"
| "stage_op c dp sha m (ExpireOp t) = expire_slots t m"
| "stage_op c dp sha m (HoldOp i) = hold i m"
| "stage_op c dp sha m (UnholdOp i) = unhold i m"
| "stage_op c dp sha m (UploadBeginOp i) = snd (upload_begin i m)"
| "stage_op c dp sha m (UploadEndOp i cs x) = snd (upload_end sha i cs x m)"
| "stage_op c dp sha m (ClaimOp e p i w d) = snd (prepare_claim c e p i w d m)"

definition slot_ok :: "(bytes \<Rightarrow> bytes) \<Rightarrow> Slot \<Rightarrow> bool" where
  "slot_ok sha s \<longleftrightarrow>
     (case slot_data s of
        Uploaded f d n \<Rightarrow> d = sha_digest sha f \<and> n = length f
      | Sealed f \<Rightarrow> slot_digest s = sha_digest sha f \<and> slot_size s = length f
      | _ \<Rightarrow> True)"

definition slots_bytes :: "(Identifier \<times> Slot) list \<Rightarrow> nat" where
  "slots_bytes xs = sum_list (map (\<lambda>(_, s). slot_size s) xs)"

text \<open>The quota counts exactly the live slots, each of which somebody has, and what is sealed is what was promised.\<close>

definition manager_ok :: "(bytes \<Rightarrow> bytes) \<Rightarrow> Manager \<Rightarrow> bool" where
  "manager_ok sha m \<longleftrightarrow> distinct (map fst (mg_slots m)) \<and> mg_count m = length (mg_slots m) \<and>
     mg_bytes m = slots_bytes (mg_slots m) \<and> mg_count m \<le> MAX_TRANSFER_STAGES \<and> mg_bytes m \<le> MAX_TRANSFER_RESERVED_BYTES \<and>
     (\<forall>(i, s)\<in>set (mg_slots m). slot_kept s \<and> slot_ok sha s)"

text \<open>All of the above but that somebody has the slot \<open>i\<close>: between a change of a slot and its drop.\<close>

definition nearly_ok :: "(bytes \<Rightarrow> bytes) \<Rightarrow> Identifier \<Rightarrow> Manager \<Rightarrow> bool" where
  "nearly_ok sha i m \<longleftrightarrow> distinct (map fst (mg_slots m)) \<and> mg_count m = length (mg_slots m) \<and>
     mg_bytes m = slots_bytes (mg_slots m) \<and> mg_count m \<le> MAX_TRANSFER_STAGES \<and> mg_bytes m \<le> MAX_TRANSFER_RESERVED_BYTES \<and>
     (\<forall>(k, s)\<in>set (mg_slots m). (k \<noteq> i \<longrightarrow> slot_kept s) \<and> slot_ok sha s)"

lemma slots_update:
  assumes "map_of xs i = Some s" "distinct (map fst xs)"
  shows "length (AList.update i s' xs) = length xs"
    "slot_size s' = slot_size s \<Longrightarrow> slots_bytes (AList.update i s' xs) = slots_bytes xs"
  using assms by (induction xs) (auto simp: slots_bytes_def split: if_splits)

lemma slots_delete:
  assumes "map_of xs i = Some s" "distinct (map fst xs)"
  shows "length xs = Suc (length (AList.delete i xs))" "slots_bytes xs = slot_size s + slots_bytes (AList.delete i xs)"
  using assms by (induction xs) (auto simp: slots_bytes_def image_iff split: if_splits)

lemma slots_new: "map_of xs i = None \<Longrightarrow> length (AList.update i s xs) = Suc (length xs) \<and> slots_bytes (AList.update i s xs) = slots_bytes xs + slot_size s"
  by (induction xs) (auto simp: slots_bytes_def split: if_splits)

text \<open>The part of the invariant that concerns the slots one by one, by identifier.\<close>

lemma all_slots: "distinct (map fst xs) \<Longrightarrow> (\<forall>(k, s)\<in>set xs. P k s) \<longleftrightarrow> (\<forall>k s. map_of xs k = Some s \<longrightarrow> P k s)"
  by (auto simp: map_of_eq_Some_iff)

lemma nearly_okI:
  assumes "distinct (map fst (mg_slots m))" "mg_count m = length (mg_slots m)" "mg_bytes m = slots_bytes (mg_slots m)"
    "mg_count m \<le> MAX_TRANSFER_STAGES" "mg_bytes m \<le> MAX_TRANSFER_RESERVED_BYTES"
    "\<And>k s. map_of (mg_slots m) k = Some s \<Longrightarrow> (k \<noteq> i \<longrightarrow> slot_kept s) \<and> slot_ok sha s"
  shows "nearly_ok sha i m"
  unfolding nearly_ok_def all_slots [OF assms(1)] using assms by blast

lemma nearly_ok_manager:
  assumes "nearly_ok sha i m" "\<And>s. map_of (mg_slots m) i = Some s \<Longrightarrow> slot_kept s"
  shows "manager_ok sha m"
proof -
  have d: "distinct (map fst (mg_slots m))" using assms(1) by (simp add: nearly_ok_def)
  show ?thesis using assms unfolding nearly_ok_def manager_ok_def all_slots [OF d] by metis
qed

lemma manager_okD:
  assumes "manager_ok sha m"
  shows "distinct (map fst (mg_slots m))" "mg_count m = length (mg_slots m)" "mg_bytes m = slots_bytes (mg_slots m)"
    "mg_count m \<le> MAX_TRANSFER_STAGES" "mg_bytes m \<le> MAX_TRANSFER_RESERVED_BYTES"
    "map_of (mg_slots m) k = Some s \<Longrightarrow> slot_kept s \<and> slot_ok sha s"
  using assms unfolding manager_ok_def by (auto dest: map_of_SomeD)

lemma set_slot_nearly:
  assumes "manager_ok sha m" "\<And>s. map_of (mg_slots m) i = Some s \<Longrightarrow> slot_ok sha s \<Longrightarrow> slot_size (f s) = slot_size s \<and> slot_ok sha (f s)"
  shows "nearly_ok sha i (set_slot i f m)"
proof (cases "map_of (mg_slots m) i")
  case None
  then show ?thesis using manager_okD [OF assms(1)] by (auto simp: set_slot_def intro!: nearly_okI)
next
  case (Some s)
  note ok = manager_okD [OF assms(1)]
  have f: "slot_size (f s) = slot_size s" "slot_ok sha (f s)" using assms(2) [OF Some] ok(6) [OF Some] by auto
  show ?thesis
  proof (rule nearly_okI)
    fix k t
    assume "map_of (mg_slots (set_slot i f m)) k = Some t"
    then show "(k \<noteq> i \<longrightarrow> slot_kept t) \<and> slot_ok sha t"
      using Some f ok(6) by (auto simp: set_slot_def update_conv' split: if_splits)
  qed (use Some ok slots_update [OF Some ok(1)] f in \<open>simp_all add: set_slot_def distinct_update\<close>)
qed

lemma set_slot_ok:
  assumes "manager_ok sha m" "\<And>s. map_of (mg_slots m) i = Some s \<Longrightarrow> slot_ok sha s \<Longrightarrow> slot_size (f s) = slot_size s \<and> slot_ok sha (f s)"
    "\<And>s. slot_kept s \<Longrightarrow> slot_kept (f s)"
  shows "manager_ok sha (set_slot i f m)"
proof (rule nearly_ok_manager [OF set_slot_nearly [OF assms(1,2)]])
  fix s assume "map_of (mg_slots (set_slot i f m)) i = Some s"
  then show "slot_kept s"
    using manager_okD(6) [OF assms(1), of i] assms(3) by (auto simp: set_slot_def update_conv' split: option.splits)
qed

lemma reap_ok:
  assumes "nearly_ok sha i m"
  shows "manager_ok sha (reap i m)"
proof (cases "map_of (mg_slots m) i")
  case None
  then show ?thesis using nearly_ok_manager [OF assms] by (simp add: reap_def)
next
  case (Some s)
  show ?thesis
  proof (cases "slot_kept s")
    case True
    then show ?thesis using nearly_ok_manager [OF assms] Some by (simp add: reap_def)
  next
    case False
    have d: "distinct (map fst (mg_slots m))" using assms by (simp add: nearly_ok_def)
    note del = slots_delete [OF Some d]
    have "nearly_ok sha i (reap i m)"
    proof (rule nearly_okI)
      fix k t assume "map_of (mg_slots (reap i m)) k = Some t"
      then have "map_of (mg_slots m) k = Some t" using Some False by (auto simp: reap_def delete_conv' split: if_splits)
      then show "(k \<noteq> i \<longrightarrow> slot_kept t) \<and> slot_ok sha t"
        using assms unfolding nearly_ok_def by (auto dest: map_of_SomeD)
    qed (use Some False assms del in \<open>auto simp: reap_def nearly_ok_def distinct_delete\<close>)
    then show ?thesis
    proof (rule nearly_ok_manager)
      fix s' assume "map_of (mg_slots (reap i m)) i = Some s'"
      then show "slot_kept s'" using Some False by (simp add: reap_def delete_conv')
    qed
  qed
qed

lemma unhold_ok: "manager_ok sha m \<Longrightarrow> manager_ok sha (unhold i m)"
  unfolding unhold_def by (intro reap_ok set_slot_nearly) (auto simp: slot_ok_def split: SlotData.splits)

lemma hold_ok: "manager_ok sha m \<Longrightarrow> manager_ok sha (hold i m)"
  unfolding hold_def by (intro set_slot_ok) (auto simp: slot_ok_def slot_kept_def split: SlotData.splits)

lemma retire_ok: "manager_ok sha m \<Longrightarrow> manager_ok sha (reap i (set_slot i (\<lambda>s. s\<lparr>slot_cancelled := True, slot_registered := False\<rparr>) m))"
  by (intro reap_ok set_slot_nearly) (auto simp: slot_ok_def split: SlotData.splits)

lemma set_data_ok:
  assumes "manager_ok sha m" "\<And>s. map_of (mg_slots m) i = Some s \<Longrightarrow> slot_ok sha s \<Longrightarrow> slot_ok sha (s\<lparr>slot_data := d\<rparr>)"
  shows "manager_ok sha (set_slot i (\<lambda>s. s\<lparr>slot_data := d\<rparr>) m)"
  using assms by (intro set_slot_ok) (auto simp: slot_kept_def)

lemma insert_slot_ok:
  assumes "manager_ok sha m" "map_of (mg_slots m) i = None" "\<And>f. d \<noteq> Sealed f" "\<And>f r n. d \<noteq> Uploaded f r n"
  shows "manager_ok sha (snd (insert_slot i t b n dg d m))"
proof (cases "n > mg_maximum m \<or> mg_count m \<ge> MAX_TRANSFER_STAGES \<or> sat_add (mg_bytes m) n > MAX_TRANSFER_RESERVED_BYTES")
  case False
  let ?m = "snd (insert_slot i t b n dg d m)"
  note ok = manager_okD [OF assms(1)]
  have room: "mg_bytes m + n \<le> MAX_TRANSFER_RESERVED_BYTES"
    using False by (simp add: sat_add_def usize_max_def MAX_TRANSFER_RESERVED_BYTES_def)
  have "nearly_ok sha i ?m"
  proof (rule nearly_okI)
    fix k s assume "map_of (mg_slots ?m) k = Some s"
    then show "(k \<noteq> i \<longrightarrow> slot_kept s) \<and> slot_ok sha s"
      using False ok(6) assms(3,4) by (auto simp: insert_slot_def update_conv' slot_ok_def split: if_splits SlotData.splits)
  qed (use False ok slots_new [OF assms(2)] room in \<open>auto simp: insert_slot_def distinct_update\<close>)
  then show ?thesis
  proof (rule nearly_ok_manager)
    fix s assume "map_of (mg_slots ?m) i = Some s"
    then show "slot_kept s" using False by (auto simp: insert_slot_def update_conv' slot_kept_def)
  qed
qed (use assms(1) in \<open>auto simp: insert_slot_def\<close>)

lemma seal_ok: "manager_ok sha m \<Longrightarrow> manager_ok sha (snd (seal dp t b i m))"
proof -
  assume ok: "manager_ok sha m"
  have "manager_ok sha (set_slot i (\<lambda>s. s\<lparr>slot_data := snd (seal_data s0)\<rparr>) m)" if "map_of (mg_slots m) i = Some s0" for s0
  proof (rule set_data_ok [OF ok])
    fix s assume "map_of (mg_slots m) i = Some s" "slot_ok sha s"
    with that show "slot_ok sha (s\<lparr>slot_data := snd (seal_data s0)\<rparr>)"
      by (auto simp: slot_ok_def seal_data_def split: SlotData.splits)
  qed
  then show ?thesis using ok
    by (auto simp: seal_def slot_def Let_def split: sum.splits option.splits if_splits prod.splits)
qed

lemma release_ok: "manager_ok sha m \<Longrightarrow> manager_ok sha (snd (release dp b i m))"
  using retire_ok by (auto simp: release_def split: sum.splits option.splits)

lemma expire_slots_ok: "manager_ok sha m \<Longrightarrow> manager_ok sha (expire_slots t m)"
proof -
  have "manager_ok sha m \<Longrightarrow> manager_ok sha (fold (expire_slot t) is m)" for "is" m
    by (induction "is" arbitrary: m) (auto simp: expire_slot_def retire_ok split: option.splits)
  then show "manager_ok sha m \<Longrightarrow> manager_ok sha (expire_slots t m)" by (simp add: expire_slots_def)
qed

lemma upload_begin_ok: "manager_ok sha m \<Longrightarrow> manager_ok sha (snd (upload_begin i m))"
  by (auto simp: upload_begin_def slot_ok_def intro!: hold_ok set_data_ok split: option.splits)

lemma upload_end_ok: "manager_ok sha m \<Longrightarrow> manager_ok sha (snd (upload_end sha i cs x m))"
  by (auto simp: upload_end_def slot_ok_def intro!: unhold_ok set_data_ok split: option.splits)

lemma journals_ok [simp]: "manager_ok sha (m\<lparr>mg_journals := js\<rparr>) = manager_ok sha m"
  by (simp add: manager_ok_def)

lemma prepare_claim_ok: "manager_ok sha m \<Longrightarrow> manager_ok sha (snd (prepare_claim c e p i w d m))"
  by (auto simp: prepare_claim_def slot_ok_def intro!: set_data_ok split: option.splits SlotData.splits sum.splits prod.splits)

lemma stage_op_ok: "manager_ok sha m \<Longrightarrow> manager_ok sha (stage_op c dp sha m op)"
  by (cases op)
    (auto simp: stage_def seal_ok release_ok expire_slots_ok hold_ok unhold_ok upload_begin_ok upload_end_ok prepare_claim_ok
      insert_slot_ok split: sum.splits)

interpretation stages: keeps_invariant "stage_op c dp sha" "manager_ok sha" for c dp sha
  by unfold_locales (rule stage_op_ok)

lemma open_manager_ok: "manager_ok sha (open_manager host n js)"
  by (simp add: manager_ok_def open_manager_def slots_bytes_def)

text \<open>
  C27. However requests are served, stages keep their quota and their promise: at most 32 stages hold
  at most 512 MiB between them, counted exactly, a stage that nobody can reach any more is not
  counted, and a publication claims only content with the digest and the length its stage was
  opened with.
\<close>

theorem stages_bounded_and_sealed:
  assumes "m = foldl (stage_op c dp sha) (open_manager host n js) ops"
  shows "length (mg_slots m) \<le> MAX_TRANSFER_STAGES \<and> slots_bytes (mg_slots m) \<le> MAX_TRANSFER_RESERVED_BYTES \<and>
    mg_count m = length (mg_slots m) \<and> mg_bytes m = slots_bytes (mg_slots m) \<and>
    (\<forall>(i, s)\<in>set (mg_slots m). slot_registered s \<or> slot_holders s > 0) \<and>
    (\<forall>pp m' s. prepare_claim c env p i w d m = (Inr pp, m') \<and> map_of (mg_slots m) i = Some s \<longrightarrow>
       sha_digest sha (pp_source pp) = slot_digest s \<and> length (pp_source pp) = slot_size s)"
proof -
  have ok: "manager_ok sha m" unfolding assms by (rule stages.run_inv [OF open_manager_ok])
  have claim: "sha_digest sha (pp_source pp) = slot_digest s \<and> length (pp_source pp) = slot_size s"
    if "prepare_claim c env p i w d m = (Inr pp, m')" "map_of (mg_slots m) i = Some s" for pp m' s
  proof -
    from that obtain f where f: "slot_data s = Sealed f" "pp_source pp = f"
      by (auto simp: prepare_claim_def split: SlotData.splits sum.splits prod.splits)
    then show ?thesis using manager_okD(6) [OF ok that(2)] by (simp add: slot_ok_def)
  qed
  have "\<forall>(i, s)\<in>set (mg_slots m). slot_registered s \<or> slot_holders s > 0"
    using ok unfolding manager_ok_def slot_kept_def by auto
  moreover have "length (mg_slots m) \<le> MAX_TRANSFER_STAGES" "slots_bytes (mg_slots m) \<le> MAX_TRANSFER_RESERVED_BYTES"
    "mg_count m = length (mg_slots m)" "mg_bytes m = slots_bytes (mg_slots m)" using manager_okD(2-5) [OF ok] by simp_all
  ultimately show ?thesis using claim by blast
qed

section \<open>Executing a publication\<close>

text \<open>What each part of an execution does to the record of the publication.\<close>

lemma drop_record_of:
  assumes "get js i = Some j" "i = jid j"
  shows "get (drop_publication c env t i js) i = Some j \<or>
    pub_state (jr_status j) \<in> {Prepared, Publishing} \<and>
      get (drop_publication c env t i js) i = Some ((settle j)\<lparr>updated_at := t\<rparr>)"
proof (cases "pub_state (jr_status j) \<in> {Prepared, Publishing}")
  case True
  obtain r js' where p: "put c env ((settle j)\<lparr>updated_at := t\<rparr>) js = (r, js')" by fastforce
  have "drop_publication c env t i js = js'" using True assms p by (simp add: drop_publication_def)
  then show ?thesis using True put_records [OF p] assms by (auto simp: get_def update_conv')
qed (use assms in \<open>simp add: drop_publication_def\<close>)

lemma settle_unsettled:
  "pub_state (jr_status j) \<in> {Prepared, Publishing} \<Longrightarrow> pub_state (jr_status (settle j)) \<in> {PublicationCancelled, Indeterminate}"
  by (auto simp: settle_def)

lemma drop_unknown: "get js i = None \<Longrightarrow> drop_publication c env t i js = js"
  by (simp add: drop_publication_def)

lemma fence_record:
  assumes "fence c env t x i p v js = (Inr j, js')" "store_ok c ids js"
  shows "\<exists>k. get js i = Some k \<and> pub_state (jr_status k) = Prepared \<and> get js' i = Some j \<and>
    pub_state (jr_status j) = Publishing \<and> i = jid j"
  using assms(1)
proof (cases rule: fence_cases)
  case (run k j' r1)
  have j: "r1 = Inr ()" "j' = j" using run(6) by (auto split: sum.splits)
  have i: "i = jid k" using store_okD(1) [OF assms(2)] run(1) by (simp add: get_def)
  have f: "jid j = i" "pub_state (jr_status j) = Publishing" using run(7) j(2) i by auto
  then have "get js' i = Some j" using put_records [OF run(5)] j by (simp add: get_def update_conv')
  then show ?thesis using run(1,2) f by blast
qed auto

lemma drop_completed:
  assumes "get (drop_publication c env t i js) i = Some j" "pub_state (jr_status j) = Completed" "\<And>k. get js i = Some k \<Longrightarrow> i = jid k"
  shows "get js i = Some j"
proof (cases "get js i")
  case None
  then show ?thesis using drop_unknown [OF None] assms(1) by simp
next
  case (Some k)
  from drop_record_of [OF Some assms(3) [OF Some], of c env t] show ?thesis
  proof (elim disjE conjE)
    assume "get (drop_publication c env t i js) i = Some k"
    then show ?thesis using assms(1) Some by simp
  next
    assume k: "pub_state (jr_status k) \<in> {Prepared, Publishing}" "get (drop_publication c env t i js) i = Some ((settle k)\<lparr>updated_at := t\<rparr>)"
    then show ?thesis using assms(1,2) settle_unsettled [OF k(1)] by auto
  qed
qed

lemma settled_fields: "jid (settled_journal t result j) = jid j" "pub_state (jr_status (settled_journal t result j)) = outcome_state result"
  by (auto simp: settled_journal_def Let_def split: sum.splits Published.splits)

lemma outcome_state_cases: "outcome_state result \<notin> {Prepared, Publishing}" "outcome_state result = Completed \<longleftrightarrow> (\<exists>p. result = Inr p)"
  by (auto simp: outcome_state_def split: sum.splits BinaryError.splits)

lemma record_outcome_record:
  assumes "record_outcome c env t result j js = (r, js')" "get js i = Some j" "i = jid j"
  obtains (failed) "get js' i = Some j" "r = Inl (TransferBinary BinaryIndeterminate)"
  | (recorded) "get js' i = Some (settled_journal t result j)" "r = (case result of Inl e \<Rightarrow> Inl (TransferBinary e) | Inr _ \<Rightarrow> Inr (settled_journal t result j))"
proof -
  obtain r1 js1 where p: "put c env (settled_journal t result j) js = (r1, js1)" by fastforce
  show ?thesis using that put_records [OF p] assms p settled_fields(1) [of t result j]
    by (auto simp: record_outcome_def get_def update_conv' Let_def split: if_splits sum.splits)
qed

text \<open>
  C28. What a caller is told about a publication is what is recorded. Success is answered only if the
  effect took place and answered, and then the record holds its receipt; when the effect took place
  the record ends completed exactly if the effect answered success and its record was written, and
  never prepared; and if the effect did not take place nothing is recorded as completed anew.
\<close>

theorem execution_recorded:
  assumes "execute_publication c env result i preparation invocation js = (r, took_place, js')" "store_ok c ids js"
  shows "(\<forall>j. r = Inr j \<longrightarrow> took_place \<and> (\<exists>p. result = Inr p) \<and> get js' i = Some j \<and> pub_state (jr_status j) = Completed) \<and>
    (took_place \<longrightarrow> (\<exists>j0. get js i = Some j0 \<and> pub_state (jr_status j0) = Prepared) \<and>
       (\<exists>j. get js' i = Some j \<and> pub_state (jr_status j) \<noteq> Prepared \<and>
          (pub_state (jr_status j) = Completed \<longrightarrow> (\<exists>p. result = Inr p)))) \<and>
    (\<not> took_place \<longrightarrow> (\<forall>j. get js' i = Some j \<and> pub_state (jr_status j) = Completed \<longrightarrow> get js i = Some j))"
proof -
  have known: "get js i = Some k \<Longrightarrow> i = jid k" for k using store_okD(1) [OF assms(2)] by (simp add: get_def)
  have no_effect: ?thesis if "r = Inl e" "\<not> took_place" "js' = drop_publication c pe t i js1" "get js1 i = get js i" for e pe t js1
  proof -
    have "get js i = Some j" if "get js' i = Some j" "pub_state (jr_status j) = Completed" for j
      using drop_completed [of c pe t i js1 j] that known \<open>js' = _\<close> \<open>get js1 i = get js i\<close> by simp
    then show ?thesis using that(1,2) by simp
  qed
  show ?thesis
  proof (cases "xe_admission env")
    case (Some e)
    then show ?thesis using assms(1) no_effect [of e "xe_drop env" "xe_dropped env" js] by (simp add: execute_publication_def)
  next
    case None
    obtain r1 js1 where f: "fence c (xe_fence env) (xe_clock env) (xe_cancelled env) i preparation invocation js = (r1, js1)" by fastforce
    show ?thesis
    proof (cases r1)
      case (Inl e)
      have "get js1 i = get js i" using f
        by (cases rule: fence_cases) (use Inl in \<open>auto dest: put_records simp: get_def split: sum.splits\<close>)
      then show ?thesis using assms(1) None f Inl no_effect [of e "xe_drop env" "xe_dropped env" js1] by (simp add: execute_publication_def)
    next
      case (Inr j)
      from fence_record [OF f [unfolded Inr] assms(2)] obtain k where k: "get js i = Some k" "pub_state (jr_status k) = Prepared"
        "get js1 i = Some j" "pub_state (jr_status j) = Publishing" "i = jid j" by blast
      obtain r2 js2 where o: "record_outcome c (xe_outcome env) (xe_settled env) result j js1 = (r2, js2)" by fastforce
      have end_: "r = r2" "took_place" "js' = drop_publication c (xe_drop env) (xe_dropped env) i js2"
        using assms(1) None f Inr o by (simp_all add: execute_publication_def)
      show ?thesis using o k(3,5)
      proof (cases rule: record_outcome_record)
        case failed
        then show ?thesis using drop_record_of [OF failed(1) k(5), of c "xe_drop env" "xe_dropped env"] end_ k settle_unsettled [of j] by auto
      next
        case recorded
        let ?j = "settled_journal (xe_settled env) result j"
        have "get js' i = Some ?j"
          using drop_record_of [OF recorded(1), of c "xe_drop env" "xe_dropped env"] outcome_state_cases(1) [of result] k(5) end_(3)
          by (auto simp: settled_fields)
        then show ?thesis using recorded(2) end_ k(1,2) outcome_state_cases [of result]
          by (auto simp: settled_fields split: sum.splits)
      qed
    qed
  qed
qed

section \<open>Byte ranges\<close>

lemma u64_digits_append: "u64_digits acc (xs @ ys) = Option.bind (u64_digits acc xs) (\<lambda>a. u64_digits a ys)"
  by (induction xs arbitrary: acc) auto

lemma dec_digits: "list_all is_ascii_digit (dec n)"
proof (induction n rule: dec.induct)
  case (1 n)
  have "is_ascii_digit (48 + n mod 10)" "n < 10 \<Longrightarrow> is_ascii_digit (48 + n)" by (auto simp: is_ascii_digit_def)
  then show ?case using 1 by (subst dec.simps) simp
qed

lemma dec_nonempty: "dec n \<noteq> []"
  by (subst dec.simps) simp

lemma u64_digits_dec: "n < 2 ^ 64 \<Longrightarrow> u64_digits 0 (dec n) = Some n"
proof (induction n rule: dec.induct)
  case (1 n)
  show ?case
  proof (cases "n < 10")
    case False
    then have "u64_digits 0 (dec (n div 10)) = Some (n div 10)" using 1 by simp
    then show ?thesis using False "1.prems" by (subst dec.simps) (simp add: u64_digits_append is_ascii_digit_def)
  qed (subst dec.simps, simp add: is_ascii_digit_def)
qed

lemma parse_u64_dec: "n < 2 ^ 64 \<Longrightarrow> parse_u64 (dec n) = Some n"
proof -
  assume n: "n < 2 ^ 64"
  obtain x xs where x: "dec n = x # xs" using dec_nonempty [of n] by (cases "dec n") auto
  then have "x \<noteq> 43" using dec_digits [of n] by (simp add: is_ascii_digit_def)
  then show ?thesis using u64_digits_dec [OF n] x by (simp add: parse_u64_def)
qed

lemma find_dash: "list_all is_ascii_digit xs \<Longrightarrow> find_sub (u ''-'') (xs @ u ''-'' @ ys) = Some (length xs)"
  by (induction xs) (auto simp: u_def starts_with_def is_ascii_digit_def)

lemma range_form:
  assumes "list_all is_ascii_digit xs" "list_all is_ascii_digit ys" "0 < n"
  shows "single_range (u ''bytes='' @ xs @ u ''-'' @ ys) n =
    (if xs = [] then (case parse_u64 ys of None \<Rightarrow> None
       | Some k \<Rightarrow> let k = min k n in if k > 0 then Some (n - k, k) else None)
     else (case parse_u64 xs of None \<Rightarrow> None
       | Some a \<Rightarrow>
         (case (if ys = [] then Some (n - 1) else map_option (\<lambda>x. min x (n - 1)) (parse_u64 ys)) of None \<Rightarrow> None
          | Some b \<Rightarrow> if a \<le> b \<and> a < n then Some (a, b - a + 1) else None)))"
proof -
  have "split_once (xs @ u ''-'' @ ys) (u ''-'') = Some (xs, ys)"
    using find_dash [OF assms(1), of ys] by (simp add: split_once_def)
  then show ?thesis using assms by (simp add: single_range_def)
qed

text \<open>
  The single byte range of a download request. Whatever the header, a range that is accepted is not
  empty and lies within the file; and a first and a last position, a first position alone, and the
  length of a tail select exactly the bytes they name, clipped to the file.
\<close>

theorem single_range_exact:
  "(single_range v n = Some (s, l) \<longrightarrow> 0 < l \<and> s + l \<le> n) \<and>
   (a < 2 ^ 64 \<and> b < 2 ^ 64 \<longrightarrow>
      single_range (u ''bytes='' @ dec a @ u ''-'' @ dec b) n = (if a \<le> b \<and> a < n then Some (a, min b (n - 1) - a + 1) else None) \<and>
      single_range (u ''bytes='' @ dec a @ u ''-'') n = (if a < n then Some (a, n - a) else None) \<and>
      single_range (u ''bytes='' @ u ''-'' @ dec a) n = (if 0 < a \<and> 0 < n then Some (n - min a n, min a n) else None))"
proof -
  have bound: "0 < l \<and> s + l \<le> n" if "single_range v n = Some (s, l)"
    using that by (auto simp: single_range_def Let_def split: option.splits if_splits)
  have exact: "single_range (u ''bytes='' @ dec a @ u ''-'' @ dec b) n = (if a \<le> b \<and> a < n then Some (a, min b (n - 1) - a + 1) else None) \<and>
      single_range (u ''bytes='' @ dec a @ u ''-'') n = (if a < n then Some (a, n - a) else None) \<and>
      single_range (u ''bytes='' @ u ''-'' @ dec a) n = (if 0 < a \<and> 0 < n then Some (n - min a n, min a n) else None)"
    if "a < 2 ^ 64" "b < 2 ^ 64"
  proof (cases "n = 0")
    case False
    then have n: "0 < n" by simp
    note d = dec_nonempty dec_digits and p = parse_u64_dec [OF that(1)] parse_u64_dec [OF that(2)]
    show ?thesis
      using range_form [OF d(2) d(2) n, of a b] range_form [OF d(2), of "[]" n a] range_form [OF _ d(2) n, of "[]" a] d(1) p n
      by (auto simp: Let_def)
  qed (simp add: single_range_def)
  from bound exact show ?thesis by blast
qed

theorem single_range_exact_witness:
  "single_range (u ''bytes='' @ dec 2 @ u ''-'' @ dec 9) 5 = Some (2, 3)"
  using single_range_exact [of "[]" 5 0 0 2 9] by simp

section \<open>A concrete publication\<close>

definition prepared_record :: Journal where
  "prepared_record = \<lparr>jr_status = \<lparr>publication_id = u ''p'', pub_state = Prepared, preparation_id = None, invocation_id = None,
       request_digest = Some (u ''d''), status_file = None\<rparr>, jr_directory = None, jr_cwd = [], updated_at = 0, expires_at = TRANSFER_TTL_MS\<rparr>"

definition publishing_record :: Journal where
  "publishing_record = prepared_record\<lparr>jr_status := (jr_status prepared_record)\<lparr>preparation_id := Some (u ''a''),
     invocation_id := Some (u ''b''), pub_state := Publishing\<rparr>, updated_at := 0\<rparr>"

definition pub_codec :: Codec where
  "pub_codec = sample_codec\<lparr>to_vec := \<lambda>j. if j = prepared_record then Some [1] else if j = publishing_record then Some [2] else None,
     from_slice := \<lambda>bs. if bs = [1] then Some prepared_record else if bs = [2] then Some publishing_record else None\<rparr>"

lemma pub_codec_ok: "codec_ok pub_codec {u ''p''}"
  by (auto simp: codec_ok_def pub_codec_def sample_codec_def split: if_splits)

definition pub_env :: ReserveEnv where
  "pub_env = \<lparr>re_prune = \<lparr>pr_clock = 0, pr_unlink = \<lambda>_. True, pr_sync = True\<rparr>, re_updated = 0, re_clock = 0, re_put = sample_put\<rparr>"

lemma pub_recovers: "\<exists>st. recover pub_codec sample_recover [] = (Inr (), st) \<and> js_records st = [] \<and> vis (js_disk st) = []"
  by (simp add: recover_def sample_recover_def prune_def disk_sync_def Let_def)

lemma pub_reserves:
  assumes "js_records st = []" "vis (js_disk st) = []"
  shows "\<exists>st'. reserve_publication pub_codec pub_env (u ''p'') [] (u ''d'') None 0 st = (Inr (), st') \<and>
    js_records st' = [(u ''p'', prepared_record)] \<and> entry_at (js_disk st') (pending_name sample_put) = None"
proof -
  let ?st = "goto (disk_sync (js_disk st)) st"
  have p: "prune pub_codec (re_prune pub_env) st = (Inr (), ?st)" using assms by (simp add: prune_def pub_env_def)
  have v: "to_vec pub_codec prepared_record = Some [1]" by (simp add: pub_codec_def)
  have "\<exists>st'. put pub_codec sample_put prepared_record ?st = (Inr (), st')"
    by (rule put_succeeds [OF v])
      (use assms in \<open>simp_all add: sample_put_def entry_at_def disk_sync_def MAX_TRANSFER_JOURNAL_BYTES_def MAX_TRANSFER_JOURNALS_def\<close>)
  then obtain st' where st': "put pub_codec sample_put prepared_record ?st = (Inr (), st')" by blast
  have "js_records st' = [(u ''p'', prepared_record)]" using put_records [OF st'] assms by (simp add: prepared_record_def)
  moreover have "reserve_publication pub_codec pub_env (u ''p'') [] (u ''d'') None 0 st = (Inr (), st')"
    unfolding reserve_publication_def p
    using st' assms(1) by (simp add: prepared_record_def pub_env_def MAX_TRANSFER_JOURNALS_def Let_def)
  ultimately show ?thesis using put_stored(3) [OF st' pub_codec_ok] by blast
qed

lemma pub_fences:
  assumes "js_records st = [(u ''p'', prepared_record)]" "entry_at (js_disk st) (pending_name sample_put) = None"
  shows "\<exists>st'. fence pub_codec sample_put 0 False (u ''p'') (u ''a'') (u ''b'') st = (Inr publishing_record, st')"
proof -
  have "prepared_record \<noteq> publishing_record" by (simp add: publishing_record_def prepared_record_def)
  then have v: "to_vec pub_codec publishing_record = Some [2]" by (simp add: pub_codec_def)
  have "\<exists>st'. put pub_codec sample_put publishing_record st = (Inr (), st')"
    by (rule put_succeeds [OF v])
      (use assms in \<open>simp_all add: sample_put_def MAX_TRANSFER_JOURNAL_BYTES_def MAX_TRANSFER_JOURNALS_def\<close>)
  then show ?thesis
    using assms(1) by (auto simp: fence_def get_def publishing_record_def prepared_record_def TRANSFER_TTL_MS_def Let_def)
qed

lemma pub_run: "\<exists>w js. (world_step pub_codec {u ''p''})\<^sup>*\<^sup>* (first_world []) w \<and> phase w = Up js \<and> u ''p'' \<in> begun w"
proof -
  obtain s1 where s1: "recover pub_codec sample_recover [] = (Inr (), s1)" "js_records s1 = []" "vis (js_disk s1) = []"
    using pub_recovers by blast
  obtain s2 where s2: "reserve_publication pub_codec pub_env (u ''p'') [] (u ''d'') None 0 (fresh s1) = (Inr (), s2)"
    "js_records s2 = [(u ''p'', prepared_record)]" "entry_at (js_disk s2) (pending_name sample_put) = None"
    using pub_reserves [of "fresh s1"] s1 by auto
  obtain s3 where s3: "fence pub_codec sample_put 0 False (u ''p'') (u ''a'') (u ''b'') (fresh s2) = (Inr publishing_record, s3)"
    using pub_fences [of "fresh s2"] s2 by auto
  let ?w0 = "first_world []"
  let ?w1 = "?w0\<lparr>phase := Up s1, begun := begun ?w0 - overdue pub_codec (pr_clock (rv_prune sample_recover)) []\<rparr>"
  let ?w2 = "?w1\<lparr>phase := Up s2, begun := begun ?w1 - expired_ids (pr_clock (re_prune pub_env)) s1\<rparr>"
  let ?w3 = "?w2\<lparr>phase := Up s3, begun := insert (u ''p'') (begun ?w2), in_flight := insert publishing_record (in_flight ?w2)\<rparr>"
  have "world_step pub_codec {u ''p''} ?w0 ?w1" by (rule recover_step [OF _ s1(1)]) (simp add: first_world_def)
  moreover have "world_step pub_codec {u ''p''} ?w1 ?w2" by (rule reserve_step [OF _ _ _ s2(1)]) simp_all
  moreover have "world_step pub_codec {u ''p''} ?w2 ?w3" by (rule fence_step [OF _ s3]) simp
  ultimately have "(world_step pub_codec {u ''p''})\<^sup>*\<^sup>* ?w0 ?w3" by (meson converse_rtranclp_into_rtranclp rtranclp.rtrancl_refl)
  then show ?thesis by (intro exI [of _ ?w3] exI [of _ s3]) simp
qed

theorem publication_at_most_once_witness:
  "\<exists>w js. (world_step pub_codec {u ''p''})\<^sup>*\<^sup>* (first_world []) w \<and> phase w = Up js \<and>
     fence pub_codec sample_put 0 False (u ''p'') (u ''a'') (u ''b'') js = (Inl TransferReplay, js)"
proof -
  obtain w js where w: "(world_step pub_codec {u ''p''})\<^sup>*\<^sup>* (first_world []) w" "phase w = Up js" "u ''p'' \<in> begun w"
    using pub_run by blast
  have d: "dir_ok pub_codec {u ''p''} []" by (simp add: dir_ok_def)
  show ?thesis using publication_at_most_once [OF pub_codec_ok d w] w by blast
qed

definition pub_execute :: ExecuteEnv where
  "pub_execute = \<lparr>xe_admission = None, xe_fence = sample_put, xe_outcome = sample_put, xe_drop = sample_put, xe_clock = 0,
     xe_settled = 0, xe_dropped = 0, xe_cancelled = False\<rparr>"

theorem execution_recorded_witness:
  "\<exists>js r js' j. execute_publication pub_codec pub_execute (Inl Conflict) (u ''p'') (u ''a'') (u ''b'') js = (r, True, js') \<and>
     get js' (u ''p'') = Some j \<and> pub_state (jr_status j) \<notin> {Prepared, Completed}"
proof -
  have "store_ok pub_codec {u ''p''} sample_store" by (simp add: store_ok_def sample_store_def)
  moreover obtain js where js: "reserve_publication pub_codec pub_env (u ''p'') [] (u ''d'') None 0 sample_store = (Inr (), js)"
    "js_records js = [(u ''p'', prepared_record)]" "entry_at (js_disk js) (pending_name sample_put) = None"
    using pub_reserves [of sample_store] by (auto simp: sample_store_def)
  ultimately have ok: "store_ok pub_codec {u ''p''} js" using reserve_store_ok [OF js(1) pub_codec_ok] by simp
  obtain js1 where f: "fence pub_codec sample_put 0 False (u ''p'') (u ''a'') (u ''b'') js = (Inr publishing_record, js1)"
    using pub_fences [OF js(2,3)] by blast
  obtain r js' where run: "execute_publication pub_codec pub_execute (Inl Conflict) (u ''p'') (u ''a'') (u ''b'') js = (r, True, js')"
    using f by (cases "record_outcome pub_codec sample_put 0 (Inl Conflict) publishing_record js1")
      (auto simp: execute_publication_def pub_execute_def)
  show ?thesis using execution_recorded [OF run ok] run by fastforce
qed

definition demo_host :: HostBinding where
  "demo_host = \<lparr>server_id = [], instance_id = [], workspace_id = [], workspace_generation = [], root_project_id = [],
     principal_id = [], hb_cwd_handle = [], catalog_revision = [], policy_revision = []\<rparr>"

theorem stages_bounded_and_sealed_witness:
  "\<exists>m. m = foldl (stage_op pub_codec (\<lambda>_. Some []) (\<lambda>_. [])) (open_manager demo_host 100 sample_store)
       [StageOp (u ''s'') 0 \<lparr>wb_host = demo_host, wb_cwd_handle = []\<rparr> 7 (u ''sha256:'' @ replicate 64 48)] \<and>
     length (mg_slots m) = 1 \<and> mg_bytes m = 7 \<and> mg_count m = length (mg_slots m)"
proof -
  let ?m = "foldl (stage_op pub_codec (\<lambda>_. Some []) (\<lambda>_. [])) (open_manager demo_host 100 sample_store)
      [StageOp (u ''s'') 0 \<lparr>wb_host = demo_host, wb_cwd_handle = []\<rparr> 7 (u ''sha256:'' @ replicate 64 48)]"
  have d: "valid_digest (u ''sha256:'' @ replicate 64 48)"
    by (simp add: valid_digest_def byte_len_def sum_list_replicate len_utf8_def is_ascii_digit_def list_all_iff)
  have m: "length (mg_slots ?m) = 1" "mg_bytes ?m = 7"
    using d by (simp_all add: stage_def validate_binding_def open_manager_def insert_slot_def MAX_TRANSFER_STAGES_def
        MAX_TRANSFER_RESERVED_BYTES_def sat_add_def usize_max_def)
  show ?thesis using m stages_bounded_and_sealed [of ?m pub_codec "\<lambda>_. Some []" "\<lambda>_. []" demo_host 100 sample_store, OF refl] by blast
qed

end
