(* ===== verification/Spec2Isabelle.thy ===== *)
theory Spec2Isabelle
  imports Net_Client Http_Gate File_Search Shell_Group Reviewed_Transfer
begin

text \<open>
  A verification development of workcell-mcp, a server that gives a language model access to a
  workspace: it reads, searches and changes files, runs shell commands, fetches from the network and
  moves files in and out by reviewed transfers. Paths below are relative to \<open>src/\<close>.

  \<^bold>\<open>The program and its parts.\<close> Every tool works in two steps: a request is prepared, which resolves and
  authorizes what it will touch and computes a preview, and the prepared operation is executed, which
  revalidates what was authorized. The file tools (\<open>crates/mcp-files\<close>) go through one path policy; the
  shell tool (\<open>crates/mcp-shell\<close>) parses a command line, decides it by a permission policy, starts Bash
  in a revalidated directory and supervises it, and renders its output through
  \<open>crates/output-filter\<close>; network access (\<open>crates/net\<close>) goes through one bounded client; transfers
  (\<open>src/transfer\<close>) keep a durable journal so that a publication happens at most once.

  \<^bold>\<open>Conventions.\<close> A Rust \<open>Result\<close> is a sum with the error on the left, an \<open>Option\<close> an option, a struct a
  record, an enum a datatype with the same constructors. Text is a list of Unicode scalar values,
  bytes are natural numbers below 256, \<open>usize\<close> and \<open>u64\<close> are natural numbers with the checked and
  saturating operations of the source written out (\<open>checked_add\<close>, \<open>sat_add\<close>), addresses are
  machine words. Code outside the repository (the operating system, DNS and the transport, URL, TOML
  and JSON parsing, tree-sitter, regular expressions, SHA-256, Unicode tables, the allocator) is a
  parameter. The system calls of the file tools, and those of the journal, are answered by functions
  of the history of calls, so that other processes may do anything between two calls and any call may
  fail. An \<open>expect\<close> or an index that could fail is an outcome of its own where the code has one.

  \<^bold>\<open>Foundations.\<close>
  \<^item> \<open>Prelude\<close>: text, the string and integer operations of the standard library, loops with early return,
    and three interfaces used by the components: folds that keep an invariant (\<open>keeps_invariant\<close>),
    budgets that are only spent (\<open>spends_budget\<close>) and refused without being spent (\<open>refuses_cleanly\<close>).
  \<^item> \<open>Utf8\<close>: encoding, decoding, and lossy decoding; decoding inverts encoding.
  \<^item> \<open>File_Base\<close>: errors and limits of the file tools (\<open>error.rs\<close>, \<open>types.rs\<close>).

  \<^bold>\<open>File tools\<close>, all in \<open>crates/mcp-files/src\<close>.
  \<^item> \<open>Path_Policy\<close> (\<open>path_policy.rs\<close>): paths and their order, lexical and canonical resolution,
    protected names. A resolved path is inside the root and not protected, whatever \<open>realpath\<close>
    answers.
  \<^item> \<open>Glob\<close> (\<open>glob.rs\<close>) and \<open>Gitignore\<close> (\<open>gitignore.rs\<close>): brace expansion, the table-driven matcher, its
    fast paths and work budget; ignore files, their precedence and budgets. The matcher is shown equal
    to the meaning of a token list, shortcuts change no verdict, an exhausted budget hides nothing.
  \<^item> \<open>Text_Diff\<close> (\<open>diff.rs\<close>), \<open>Patch_Text\<close> (\<open>patch.rs\<close>), \<open>Text_Edit\<close> (\<open>mutation_operations/edit.rs\<close>):
    previews within their allowance that describe exactly the change; the patch language, with a
    round trip of printing and parsing and the effect of applied chunks; string replacement.
  \<^item> \<open>File_Text\<close> (\<open>text.rs\<close>): operations as functions on the history of system calls, bounded reads, the
    binary test, lines, snapshots and versions.
  \<^item> \<open>File_Publish\<close> (\<open>operations.rs\<close>, \<open>atomic_write.rs\<close>, \<open>patch_publication.rs\<close>): the core shared by all
    tools, the atomic write, and the publication of a patch. \<open>replay\<close> reads the content of every path
    off the history; \<open>history_view\<close> is the interface of such views. A patch leaves a prefix of its
    changes, and a refusal as stale changes no file, though it may leave new directories.
  \<^item> \<open>File_Fit\<close>: the bisection by which results are cut to a size, used by the two theories that cut.
  \<^item> \<open>File_Mutation\<close> (\<open>mutation_operations\<close>, \<open>group.rs\<close>): write, edit and patch from request to result.
    What an edit replaces is what its preview was made from; plans are well formed and publish
    without a panic; receipts fit, and are not cut a byte too far.
  \<^item> \<open>File_Read\<close> (\<open>read_operations.rs\<close>, \<open>listing_metadata.rs\<close>): windows of lines and directory listings.
    \<open>event_policy\<close> and \<open>authorised_reads\<close> are the interface by which an operation is shown to make only
    allowed calls; reads open only permitted paths, and the window is the longest that fits.
  \<^item> \<open>File_Traversal\<close> (\<open>read_operations/traversal.rs\<close>): the walk of a directory tree. Its invariant
    relates the stack, the listed files and the directory listings in the history; it gives that
    every listed file was reached through searchable directories, and that an unabridged listing is
    complete.
  \<^item> \<open>File_Search\<close> (\<open>read_operations/grep.rs\<close>, \<open>glob.rs\<close>, \<open>model_text.rs\<close>, the ceiling in \<open>group.rs\<close>): grep
    accounts for every listed file (left out, unreadable or searched) and returns exactly the lines near
    the kept hits; both searches touch only permitted paths.

  \<^bold>\<open>Network\<close>, in \<open>crates/net/src\<close>.
  \<^item> \<open>Net_Address\<close> (\<open>classification.rs\<close>): an address is public exactly outside tables of special ranges,
    written as ranges of addresses and not as the code's masks.
  \<^item> \<open>Net_Policy\<close> (\<open>policy.rs\<close>, \<open>proxy.rs\<close>): which URLs are accepted, how a request is routed.
  \<^item> \<open>Net_Client\<close> (\<open>http_client.rs\<close>, \<open>redirect.rs\<close>, \<open>body.rs\<close>): one request with its retries and redirects
    as chains of hops (\<open>bounded_chain\<close>). Every hop is checked and pinned, headers stay on their origin,
    the number of requests and the body are bounded.
  \<^item> \<open>Http_Gate\<close> (\<open>src/http_policy.rs\<close>, the authentication of \<open>src/transports/http.rs\<close>): hosts, origins,
    routes, bodies, protocol versions and bearer tokens of the HTTP endpoint; exactly which requests
    reach the service behind it, and as what.

  \<^bold>\<open>Shell\<close>, in \<open>crates/mcp-shell/src\<close> and \<open>crates/output-filter/src\<close>.
  \<^item> \<open>Bash_Program\<close> (\<open>bash.rs\<close>) and \<open>Bash_Contexts\<close> (\<open>bash/contexts.rs\<close>): programs, and the directories each
    command may start in. The analysis is measured against a relational semantics of the constructs
    in which the effect of one command is a parameter with the documented behaviour of Bash; it is
    total, and sound for programs whose here documents and here strings expand no parameter; a concrete
    program shows that it is not for others. \<open>cwd_domain\<close> is the interface of properties of its sets.
  \<^item> \<open>Shell_Permission\<close> (\<open>permission.rs\<close>): policies, scopes and decisions; exactly when a command line may
    run, and that an allowed one has every command covered.
  \<^item> \<open>Output_Escape\<close>, \<open>Output_Terminal\<close>, \<open>Output_Pipeline\<close>, \<open>Output_Progress\<close> (\<open>escape.rs\<close>, \<open>terminal.rs\<close>,
    \<open>compile.rs\<close> and \<open>pipeline.rs\<close>, \<open>progress.rs\<close>): rendering of captured output. The renderer retains
    one row and does not depend on how the stream is cut, with one exception that is shown to be real:
    an operating-system command whose terminator straddles the limit of the scan.
  \<^item> \<open>Shell_Output\<close>, \<open>Shell_Process\<close>, \<open>Shell_Workdir\<close>, \<open>Shell_Progress\<close> (\<open>output.rs\<close>, \<open>process.rs\<close>,
    \<open>workdir.rs\<close>, \<open>progress.rs\<close>): the stream reader and the retained tail, the bound executable and the
    environment of the child, its directory, and the queue of live progress.
  \<^item> \<open>Shell_Supervisor\<close> and \<open>Shell_Group\<close> (\<open>group.rs\<close>): the loop that waits for a command, for every
    interleaving of output, exit, timeout and cancellation; and the tool around it. What is launched
    was authorized, what is reported accounts for the output, and the loop ends.

  \<^bold>\<open>Transfers\<close>, in \<open>src/transfer\<close>.
  \<^item> \<open>Transfer_Journal\<close> (\<open>journal.rs\<close>): records over a directory whose unsynchronised changes a crash may
    undo. Writing a record is atomic, and an opened store knows what the directory records.
  \<^item> \<open>Reviewed_Transfer\<close> (\<open>reviewed.rs\<close>, \<open>directory.rs\<close>, \<open>reviewed_http.rs\<close>): stages, uploads, the
    publication fence and its outcomes, over all sequences of requests and crashes. A publication
    begins at most once, stages stay within their quota, success is reported only if recorded.

  \<^bold>\<open>Bounds and fuel.\<close> The loops of the model are total: structural recursion, or recursion with a
  termination proof (the traversal by the entry budget and the stack, the bisection by its interval,
  resolution by the length of the path, the parsers by the rest of the text). Only the loop of the
  supervisor, which the environment can keep alive, takes the sequence of events it sees as an
  argument. The analysis of working directories follows node identifiers with a fuel that bounds the
  nesting; fuel equal to the nesting of the program is proved to be enough. Limits of the program keep their names and defaults.

  \<^bold>\<open>Not modelled.\<close> The server, the sockets of its transports and the tool catalogs compose the groups behind a protocol
  library; the wire types are plain data with serde attributes. The code graph, the source index
  and the lowering of Bash syntax trees (\<open>bash/lower.rs\<close>) walk trees of third-party grammars. Web tools,
  icons and the Python worker drive third-party parsers, codecs and an interpreter; their requests go
  through the client that is modelled. Source control runs git. The host-side workspace operations,
  the publication of directories and the snapshots (\<open>workspace.rs\<close>, \<open>binary.rs\<close>,
  \<open>directory_publication.rs\<close>, \<open>crates/workspace-snapshot\<close>, \<open>crates/snapshot-store\<close>) work through
  descriptor-relative calls or a Git object store; where a modelled component uses them, their
  outcomes are parameters. The Windows builds, the retained-memory estimates and locks that only
  serialise the calls of one process are left out.
\<close>

end
